(* ===== verification/Prelude.thy ===== *)
theory Prelude
  imports Main "HOL-Library.Word" "HOL-Library.AList" "HOL-Library.Monad_Syntax"
begin

text \<open>
  Shared vocabulary of the development: the machine integers of the engine, its error type
  (src/engine/src/error.rs), results as sums, big-endian byte codecs, hash maps as association
  lists with the contract the components rely on, and the lemma collections the component
  theories feed to the simplifier.
\<close>

unbundle bit_operations_syntax

named_theorems codec_simps \<open>unfolding and round-trip rules of the byte codecs\<close>
named_theorems hash_simps \<open>lookup rules of the hash map model\<close>

section \<open>Machine integers and bytes\<close>

type_synonym u8 = "8 word"
type_synonym u16 = "16 word"
type_synonym u32 = "32 word"
type_synonym u64 = "64 word"
type_synonym u128 = "128 word"
type_synonym bytes = "8 word list"

lemma bit_Suc_0_0 [simp]: "bit (Suc 0) 0"
  by (simp add: bit_0)

section \<open>Errors and results\<close>

text \<open>
  The variants of the engine's error enum. The payload is the fixed text of the message the
  source formats; the values it interpolates are left out.
\<close>

datatype error =
    Config string
  | Network string
  | Protocol string
  | Crypto string
  | Dns string
  | Io string
  | Rejected

type_synonym 'a result = "error + 'a"

definition rbind :: "'a result \<Rightarrow> ('a \<Rightarrow> 'b result) \<Rightarrow> 'b result" where
  "rbind r f = (case r of Inl e \<Rightarrow> Inl e | Inr x \<Rightarrow> f x)"

definition ok_or :: "'a option \<Rightarrow> error \<Rightarrow> 'a result" where
  "ok_or x e = (case x of None \<Rightarrow> Inl e | Some v \<Rightarrow> Inr v)"

definition is_ok :: "'a result \<Rightarrow> bool" where
  "is_ok r = (case r of Inl _ \<Rightarrow> False | Inr _ \<Rightarrow> True)"

definition result_ok :: "'a result \<Rightarrow> 'a option" where
  "result_ok r = (case r of Inl _ \<Rightarrow> None | Inr x \<Rightarrow> Some x)"

lemma rbind_simps [simp]:
  "rbind (Inl e) f = Inl e"
  "rbind (Inr x) f = f x"
  by (simp_all add: rbind_def)

lemma rbind_Inr_iff: "rbind r f = Inr y \<longleftrightarrow> (\<exists>x. r = Inr x \<and> f x = Inr y)"
  by (cases r) auto

lemma rbind_Inl_iff: "rbind r f = Inl e \<longleftrightarrow> r = Inl e \<or> (\<exists>x. r = Inr x \<and> f x = Inl e)"
  by (cases r) auto

lemma rbind_cong [fundef_cong]:
  "r = r' \<Longrightarrow> (\<And>x. r' = Inr x \<Longrightarrow> f x = g x) \<Longrightarrow> rbind r f = rbind r' g"
  by (cases r') auto

lemma ok_or_simps [simp]:
  "ok_or None e = Inl e"
  "ok_or (Some v) e = Inr v"
  by (simp_all add: ok_or_def)

lemma ok_or_Inr_iff [simp]: "ok_or x e = Inr v \<longleftrightarrow> x = Some v"
  by (cases x) auto

lemma is_ok_simps [simp]:
  "is_ok (Inl e) = False"
  "is_ok (Inr x) = True"
  by (simp_all add: is_ok_def)

lemma is_ok_iff: "is_ok r \<longleftrightarrow> (\<exists>x. r = Inr x)"
  by (cases r) auto

lemma result_ok_simps [simp]:
  "result_ok (Inl e) = None"
  "result_ok (Inr x) = Some x"
  by (simp_all add: result_ok_def)

text \<open>Collecting an iterator of results: the first error wins, as \<open>collect::<Result<Vec<_>>>()\<close> does.\<close>

fun collect_results :: "'a result list \<Rightarrow> 'a list result" where
  "collect_results [] = Inr []"
| "collect_results (r # rs) = rbind r (\<lambda>x. rbind (collect_results rs) (\<lambda>xs. Inr (x # xs)))"

lemma collect_results_Inr_iff:
  "collect_results rs = Inr xs \<longleftrightarrow> rs = map Inr xs"
proof (induction rs arbitrary: xs)
  case Nil
  then show ?case by auto
next
  case (Cons r rs)
  show ?case
    by (cases xs) (auto simp: rbind_Inr_iff Cons.IH)
qed

section \<open>Slices\<close>

text \<open>\<open>data.get(i)\<close> and \<open>data.get(i..j)\<close>: out of range is \<open>None\<close>, never a panic.\<close>

definition slice_get :: "'a list \<Rightarrow> nat \<Rightarrow> 'a option" where
  "slice_get xs i = (if i < length xs then Some (xs ! i) else None)"

definition slice_range :: "'a list \<Rightarrow> nat \<Rightarrow> nat \<Rightarrow> 'a list option" where
  "slice_range xs i j = (if i \<le> j \<and> j \<le> length xs then Some (take (j - i) (drop i xs)) else None)"

lemma slice_get_Some_iff: "slice_get xs i = Some x \<longleftrightarrow> i < length xs \<and> xs ! i = x"
  by (auto simp: slice_get_def)

lemma slice_range_Some_iff:
  "slice_range xs i j = Some ys \<longleftrightarrow> i \<le> j \<and> j \<le> length xs \<and> ys = take (j - i) (drop i xs)"
  by (auto simp: slice_range_def)

lemma slice_range_length: "slice_range xs i j = Some ys \<Longrightarrow> length ys = j - i"
  by (auto simp: slice_range_Some_iff)

lemma slice_get_append:
  "slice_get (xs @ ys) i = (if i < length xs then Some (xs ! i) else slice_get ys (i - length xs))"
  by (auto simp: slice_get_def nth_append)

lemma slice_get_Cons: "slice_get (x # xs) i = (if i = 0 then Some x else slice_get xs (i - 1))"
  by (cases i) (auto simp: slice_get_def)

lemma slice_range_append_exact:
  "length pre = i \<Longrightarrow> length mid = n \<Longrightarrow> slice_range (pre @ mid @ post) i (i + n) = Some mid"
  by (auto simp: slice_range_def)

lemma slice_range_shift:
  "length pre = k \<Longrightarrow> k \<le> i \<Longrightarrow> i \<le> j \<Longrightarrow> slice_range (pre @ xs) i j = slice_range xs (i - k) (j - k)"
  by (auto simp: slice_range_def)

text \<open>Reads inside the first \<open>n\<close> bytes do not see what follows them.\<close>

lemma slice_get_stable:
  "i < n \<Longrightarrow> n \<le> length xs \<Longrightarrow> slice_get (take n xs @ ys) i = slice_get xs i"
  by (simp add: slice_get_def nth_append)

lemma slice_range_stable:
  assumes "j \<le> n" and "n \<le> length xs"
  shows "slice_range (take n xs @ ys) i j = slice_range xs i j"
proof -
  have "take (j - i) (drop i (take n xs @ ys)) = take (j - i) (drop i xs)" if "i \<le> j"
    using assms that by (simp add: drop_take min.absorb1 min_def)
  then show ?thesis using assms by (auto simp: slice_range_def)
qed

section \<open>Big-endian integers\<close>

text \<open>
  \<open>to_be_bytes\<close> and \<open>from_be_bytes\<close> for any width: \<open>be_bytes n w\<close> writes the low \<open>n\<close> bytes of
  \<open>w\<close>, most significant first; \<open>be_word\<close> reads a byte string.
\<close>

primrec be_bytes :: "nat \<Rightarrow> 'a::len word \<Rightarrow> bytes" where
  "be_bytes 0 w = []"
| "be_bytes (Suc n) w = ucast (drop_bit (8 * n) w) # be_bytes n w"

definition be_word :: "bytes \<Rightarrow> 'a::len word" where
  "be_word bs = foldl (\<lambda>acc b. push_bit 8 acc OR ucast b) 0 bs"

lemma length_be_bytes [simp]: "length (be_bytes n w) = n"
  by (induction n) simp_all

lemma bit_foldl_be:
  fixes w acc :: "'a::len word"
  shows "k < LENGTH('a) \<Longrightarrow>
    bit (foldl (\<lambda>acc b. push_bit 8 acc OR ucast b) acc (be_bytes n w)) k \<longleftrightarrow>
    (if k < 8 * n then bit w k else bit acc (k - 8 * n))"
proof (induction n arbitrary: acc k)
  case 0
  then show ?case by simp
next
  case (Suc n)
  have "k - 8 * n < LENGTH('a)" using Suc.prems by simp
  then show ?case
    using Suc.prems
    by (auto simp: Suc.IH bit_simps not_less add.commute)
qed

lemma be_word_be_bytes [codec_simps]:
  fixes w :: "'a::len word"
  assumes "LENGTH('a) = 8 * n"
  shows "be_word (be_bytes n w) = w"
proof (rule bit_word_eqI)
  fix k
  assume "k < LENGTH('a)"
  then show "bit (be_word (be_bytes n w) :: 'a word) k = bit w k"
    using assms by (simp add: be_word_def bit_foldl_be)
qed

lemma be_bytes_2: "be_bytes 2 w = [ucast (drop_bit 8 w), ucast w]"
  by (simp add: numeral_2_eq_2)

lemma be_bytes_4:
  "be_bytes 4 w = [ucast (drop_bit 24 w), ucast (drop_bit 16 w), ucast (drop_bit 8 w), ucast w]"
proof -
  have "be_bytes (Suc (Suc (Suc (Suc 0)))) w =
    [ucast (drop_bit 24 w), ucast (drop_bit 16 w), ucast (drop_bit 8 w), ucast w]"
    by simp
  moreover have "Suc (Suc (Suc (Suc 0))) = 4" by simp
  ultimately show ?thesis by metis
qed

lemma be_bytes_inj:
  fixes v w :: "'a::len word"
  assumes "LENGTH('a) = 8 * n" and "be_bytes n v = be_bytes n w"
  shows "v = w"
  by (metis be_word_be_bytes assms)

abbreviation u16_be :: "u16 \<Rightarrow> bytes" where
  "u16_be w \<equiv> be_bytes 2 w"

abbreviation u32_be :: "u32 \<Rightarrow> bytes" where
  "u32_be w \<equiv> be_bytes 4 w"

abbreviation u128_be :: "u128 \<Rightarrow> bytes" where
  "u128_be w \<equiv> be_bytes 16 w"

text \<open>\<open>u16::from_be_bytes([a, b])\<close> and \<open>u32::from_be_bytes([a, b, c, d])\<close>.\<close>

definition u16_from :: "u8 \<Rightarrow> u8 \<Rightarrow> u16" where
  "u16_from a b = be_word [a, b]"

definition u32_from :: "u8 \<Rightarrow> u8 \<Rightarrow> u8 \<Rightarrow> u8 \<Rightarrow> u32" where
  "u32_from a b c d = be_word [a, b, c, d]"

lemma u16_from_be [codec_simps]: "u16_from (u16_be w ! 0) (u16_be w ! Suc 0) = w"
  using be_word_be_bytes [of 2 w] by (simp add: u16_from_def be_bytes_2)

lemma u16_from_split [codec_simps]: "u16_from (ucast (drop_bit 8 w)) (ucast w) = w"
  using be_word_be_bytes [of 2 w] by (simp add: u16_from_def be_bytes_2)

lemma u32_from_split [codec_simps]:
  "u32_from (ucast (drop_bit 24 w)) (ucast (drop_bit 16 w)) (ucast (drop_bit 8 w)) (ucast w) = w"
  using be_word_be_bytes [of 4 w] by (simp add: u32_from_def be_bytes_4)

lemma unat_u8_less [simp]: "unat (b :: u8) < 256"
  using unsigned_less [of b, where ?'a = nat] by simp

lemma unat_u16_less [simp]: "unat (w :: u16) < 65536"
  using unsigned_less [of w, where ?'a = nat] by simp

lemma unat_ucast_u8_u16 [simp]: "unat (ucast (b :: u8) :: u16) = unat b"
  by (simp add: unsigned_ucast_eq take_bit_nat_eq_self_iff less_trans [OF unat_u8_less])

lemma u16_from_unat: "unat (u16_from a b) = unat a * 256 + unat b"
proof -
  have le: "unat a * 256 + unat b < 65536"
    using unat_u8_less [of a] unat_u8_less [of b] by linarith
  have "push_bit 8 (ucast a :: u16) OR ucast b = push_bit 8 (ucast a) + ucast b"
    by (rule disjunctive_add [symmetric]) (auto simp: bit_simps dest: bit_imp_le_length)
  moreover have "unat (push_bit 8 (ucast a :: u16) + ucast b) = unat a * 256 + unat b"
    using le by (simp add: push_bit_eq_mult unat_word_ariths)
  ultimately show ?thesis by (simp add: u16_from_def be_word_def)
qed

lemma of_nat_u16_bytes:
  "n < 65536 \<Longrightarrow> unat (word_of_nat n :: u16) = n"
  by (simp add: unat_of_nat)

section \<open>Self-delimiting codecs\<close>

text \<open>
  The contract of the wire codecs: encoding a well-formed value and decoding with any bytes
  behind it gives the value back with the number of bytes consumed; every proper prefix of an
  encoding is refused; bytes behind a decoded value never change it.
\<close>

locale prefix_codec =
  fixes enc :: "'a \<Rightarrow> bytes"
    and dec :: "bytes \<Rightarrow> ('a \<times> nat) result"
    and ok :: "'a \<Rightarrow> bool"
  assumes roundtrip: "ok x \<Longrightarrow> dec (enc x @ rest) = Inr (x, length (enc x))"
    and consumed: "dec bs = Inr (x, n) \<Longrightarrow> n \<le> length bs"
    and stable: "dec bs = Inr (x, n) \<Longrightarrow> dec (take n bs @ more) = Inr (x, n)"
begin

lemma decode_enc: "ok x \<Longrightarrow> dec (enc x) = Inr (x, length (enc x))"
  using roundtrip [of x "[]"] by simp

lemma enc_inj: "ok x \<Longrightarrow> ok y \<Longrightarrow> enc x = enc y \<Longrightarrow> x = y"
  using decode_enc by (metis prod.inject sum.inject(2))

lemma enc_prefix_free:
  assumes "ok x" and "ok y" and "enc x @ s = enc y @ t"
  shows "x = y \<and> s = t"
proof -
  have "(x, length (enc x)) = (y, length (enc y))"
    using roundtrip [OF assms(1), of s] roundtrip [OF assms(2), of t] assms(3) by simp
  then show ?thesis using assms(3) by simp
qed

lemma truncated_refused:
  assumes "ok x" and "n < length (enc x)"
  shows "\<exists>e. dec (take n (enc x)) = Inl e"
proof (cases "dec (take n (enc x))")
  case (Inr v)
  obtain y m where v: "v = (y, m)" by (cases v)
  with Inr have d: "dec (take n (enc x)) = Inr (y, m)" by simp
  from consumed [OF d] assms(2) have m: "m \<le> n" by simp
  have "dec (take m (take n (enc x)) @ drop m (enc x)) = Inr (y, m)"
    by (rule stable [OF d])
  with m have "dec (enc x) = Inr (y, m)" by (simp add: min.absorb1)
  with decode_enc [OF assms(1)] m assms(2) show ?thesis by simp
qed auto

lemma payload_split:
  assumes "ok x"
  shows "map_sum id (\<lambda>(y, n). (y, drop n (enc x @ payload))) (dec (enc x @ payload)) = Inr (x, payload)"
  using roundtrip [OF assms] by simp

end

section \<open>Hash maps\<close>

text \<open>
  \<open>std::collections::HashMap\<close>: an association list with distinct keys. Insertion replaces,
  removal drops, \<open>len\<close> counts the keys. Iteration order is never observed by the modelled code.
\<close>

type_synonym ('k, 'v) hash_map = "('k \<times> 'v) list"

definition hm_empty :: "('k, 'v) hash_map" where
  "hm_empty = []"

definition hm_get :: "('k, 'v) hash_map \<Rightarrow> 'k \<Rightarrow> 'v option" where
  "hm_get m k = map_of m k"

definition hm_insert :: "'k \<Rightarrow> 'v \<Rightarrow> ('k, 'v) hash_map \<Rightarrow> ('k, 'v) hash_map" where
  "hm_insert k v m = AList.update k v m"

definition hm_remove :: "'k \<Rightarrow> ('k, 'v) hash_map \<Rightarrow> ('k, 'v) hash_map" where
  "hm_remove k m = AList.delete k m"

definition hm_len :: "('k, 'v) hash_map \<Rightarrow> nat" where
  "hm_len m = length m"

definition hm_wf :: "('k, 'v) hash_map \<Rightarrow> bool" where
  "hm_wf m = distinct (map fst m)"

definition hm_contains :: "('k, 'v) hash_map \<Rightarrow> 'k \<Rightarrow> bool" where
  "hm_contains m k = (hm_get m k \<noteq> None)"

text \<open>
  What the engine relies on of a map: the lookup laws, and that \<open>len\<close> is the number of keys.
  The lemmas inside the locale are the ones the components use.
\<close>

locale counted_map =
  fixes empty :: 'm
    and get :: "'m \<Rightarrow> 'k \<Rightarrow> 'v option"
    and insert :: "'k \<Rightarrow> 'v \<Rightarrow> 'm \<Rightarrow> 'm"
    and remove :: "'k \<Rightarrow> 'm \<Rightarrow> 'm"
    and len :: "'m \<Rightarrow> nat"
    and wf :: "'m \<Rightarrow> bool"
  assumes wf_empty: "wf empty"
    and wf_insert: "wf m \<Longrightarrow> wf (insert k v m)"
    and wf_remove: "wf m \<Longrightarrow> wf (remove k m)"
    and get_empty: "get empty = Map.empty"
    and get_insert: "wf m \<Longrightarrow> get (insert k v m) = (get m)(k \<mapsto> v)"
    and get_remove: "wf m \<Longrightarrow> get (remove k m) = (get m)(k := None)"
    and finite_keys: "wf m \<Longrightarrow> finite (dom (get m))"
    and len_card: "wf m \<Longrightarrow> len m = card (dom (get m))"
begin

lemma len_insert_fresh:
  assumes "wf m" and "get m k = None"
  shows "len (insert k v m) = Suc (len m)"
proof -
  have "k \<notin> dom (get m)" using assms(2) by auto
  then show ?thesis
    using assms(1) finite_keys by (simp add: len_card wf_insert get_insert)
qed

lemma len_insert_present:
  assumes "wf m" and "get m k = Some w"
  shows "len (insert k v m) = len m"
proof -
  have "insert_dom": "dom ((get m)(k \<mapsto> v)) = dom (get m)" using assms(2) by auto
  then show ?thesis using assms(1) by (simp add: len_card wf_insert get_insert)
qed

lemma len_remove_present:
  assumes "wf m" and "get m k = Some w"
  shows "Suc (len (remove k m)) = len m"
proof -
  have "card (dom (get m)) = Suc (card (dom (get m) - {k}))"
    using assms finite_keys by (metis card.remove domI)
  then show ?thesis using assms(1) by (simp add: len_card wf_remove get_remove)
qed

lemma len_empty: "len empty = 0"
  using wf_empty by (simp add: len_card get_empty)

end

lemma hm_wf_update: "hm_wf m \<Longrightarrow> hm_wf (hm_insert k v m)"
  by (simp add: hm_wf_def hm_insert_def distinct_update)

lemma hm_wf_delete: "hm_wf m \<Longrightarrow> hm_wf (hm_remove k m)"
  by (simp add: hm_wf_def hm_remove_def distinct_delete)

lemma hm_len_card: "hm_wf m \<Longrightarrow> hm_len m = card (dom (hm_get m))"
proof -
  assume wf: "hm_wf m"
  have "hm_get m = map_of m" by (simp add: fun_eq_iff hm_get_def)
  moreover have "card (fst ` set m) = length m"
    using wf distinct_card [of "map fst m"] by (simp add: hm_wf_def)
  ultimately show ?thesis by (simp add: hm_len_def dom_map_of_conv_image_fst)
qed

interpretation hm: counted_map hm_empty hm_get hm_insert hm_remove hm_len hm_wf
proof (unfold_locales, goal_cases)
  case 1
  show ?case by (simp add: hm_wf_def hm_empty_def)
next
  case 2
  then show ?case by (rule hm_wf_update)
next
  case 3
  then show ?case by (rule hm_wf_delete)
next
  case 4
  show ?case by (simp add: fun_eq_iff hm_get_def hm_empty_def)
next
  case 5
  show ?case by (simp add: fun_eq_iff hm_get_def hm_insert_def update_conv')
next
  case 6
  show ?case by (simp add: fun_eq_iff hm_get_def hm_remove_def delete_conv')
next
  case (7 m)
  have "hm_get m = map_of m" by (simp add: fun_eq_iff hm_get_def)
  then show ?case by (simp add: finite_dom_map_of)
next
  case 8
  then show ?case by (rule hm_len_card)
qed

lemmas hm_wf_rules [simp, intro] = hm.wf_empty hm.wf_insert hm.wf_remove

lemma hm_get_empty [simp, hash_simps]: "hm_get hm_empty k = None"
  by (simp add: hm.get_empty)

lemma hm_get_insert [simp, hash_simps]:
  "hm_get (hm_insert k v m) k' = (if k' = k then Some v else hm_get m k')"
  by (simp add: hm_get_def hm_insert_def update_conv')

lemma hm_get_remove [simp, hash_simps]:
  "hm_get (hm_remove k m) k' = (if k' = k then None else hm_get m k')"
  by (simp add: hm_get_def hm_remove_def delete_conv')

section \<open>Ordered walks\<close>

lemma find_SomeD: "find P xs = Some x \<Longrightarrow> P x \<and> x \<in> set xs"
  by (auto simp: find_Some_iff)

text \<open>
  A table walk: the first element from index \<open>start\<close> that satisfies a predicate, with its index
  (\<open>iter().enumerate().skip(start)\<close> and a search).
\<close>

fun find_from :: "('a \<Rightarrow> bool) \<Rightarrow> nat \<Rightarrow> 'a list \<Rightarrow> (nat \<times> 'a) option" where
  "find_from P i [] = None"
| "find_from P i (x # xs) = (if P x then Some (i, x) else find_from P (Suc i) xs)"

lemma find_from_Some_iff:
  "find_from P i xs = Some (j, x) \<longleftrightarrow>
     (\<exists>k < length xs. j = i + k \<and> x = xs ! k \<and> P x \<and> (\<forall>l < k. \<not> P (xs ! l)))"
proof (induction xs arbitrary: i)
  case Nil
  then show ?case by simp
next
  case (Cons a xs)
  show ?case
  proof (cases "P a")
    case True
    then show ?thesis by (fastforce simp: nth_Cons split: nat.splits)
  next
    case False
    have "find_from P i (a # xs) = Some (j, x) \<longleftrightarrow>
      (\<exists>k < length xs. j = Suc i + k \<and> x = xs ! k \<and> P x \<and> (\<forall>l < k. \<not> P (xs ! l)))"
      using False Cons.IH [of "Suc i"] by simp
    also have "\<dots> \<longleftrightarrow> (\<exists>k < length (a # xs). j = i + k \<and> x = (a # xs) ! k \<and> P x \<and>
        (\<forall>l < k. \<not> P ((a # xs) ! l)))"
    proof
      assume "\<exists>k < length xs. j = Suc i + k \<and> x = xs ! k \<and> P x \<and> (\<forall>l < k. \<not> P (xs ! l))"
      then obtain k where "k < length xs" "j = Suc i + k" "x = xs ! k" "P x"
        "\<forall>l < k. \<not> P (xs ! l)" by blast
      then show "\<exists>k < length (a # xs). j = i + k \<and> x = (a # xs) ! k \<and> P x \<and>
          (\<forall>l < k. \<not> P ((a # xs) ! l))"
        using False by (intro exI [of _ "Suc k"]) (auto simp: nth_Cons split: nat.splits)
    next
      assume "\<exists>k < length (a # xs). j = i + k \<and> x = (a # xs) ! k \<and> P x \<and>
          (\<forall>l < k. \<not> P ((a # xs) ! l))"
      then obtain k where k: "k < length (a # xs)" "j = i + k" "x = (a # xs) ! k" "P x"
        "\<forall>l < k. \<not> P ((a # xs) ! l)" by blast
      with False obtain k' where "k = Suc k'" by (cases k) auto
      with k show "\<exists>k < length xs. j = Suc i + k \<and> x = xs ! k \<and> P x \<and> (\<forall>l < k. \<not> P (xs ! l))"
        by (intro exI [of _ k']) auto
    qed
    finally show ?thesis .
  qed
qed

lemma find_from_None_iff: "find_from P i xs = None \<longleftrightarrow> (\<forall>x \<in> set xs. \<not> P x)"
  by (induction xs arbitrary: i) auto

end
