(* ===== verification/Rust_Net.thy ===== *)
theory Rust_Net
  imports Rust_Text
begin

text \<open>
  Decimal integers and IP addresses of Rust's standard library: \<open>str::parse\<close> for the unsigned
  integers, and the \<open>core::net\<close> parser and printer of \<open>Ipv4Addr\<close>, \<open>Ipv6Addr\<close> and \<open>IpAddr\<close>.
  The main results are the print/parse round trips of decimal numbers and IPv4 addresses that the
  persisted fake-IP store relies on.
\<close>

section \<open>Numbers\<close>

definition digit_val :: "char \<Rightarrow> nat" where
  "digit_val c =
    (if is_digit c then of_char c - 48
     else if is_lower c then of_char c - 87
     else if is_upper c then of_char c - 55
     else 99)"

definition is_radix_digit :: "nat \<Rightarrow> char \<Rightarrow> bool" where
  "is_radix_digit r c = (digit_val c < r)"

definition number_val :: "nat \<Rightarrow> string \<Rightarrow> nat" where
  "number_val r s = foldl (\<lambda>a c. a * r + digit_val c) 0 s"

text \<open>\<open>str::parse::<uN>()\<close>: an optional plus sign, then digits only, and no overflow past \<open>bound\<close>.\<close>

definition parse_uint :: "nat \<Rightarrow> string \<Rightarrow> nat option" where
  "parse_uint bound s =
    (let d = (case s of CHR ''+'' # r \<Rightarrow> (if r = [] then s else r) | _ \<Rightarrow> s) in
     if d = [] \<or> \<not> list_all (is_radix_digit 10) d then None
     else if number_val 10 d < bound then Some (number_val 10 d) else None)"

definition parse_u8 :: "string \<Rightarrow> u8 option" where
  "parse_u8 s = map_option word_of_nat (parse_uint 256 s)"

definition parse_u16 :: "string \<Rightarrow> u16 option" where
  "parse_u16 s = map_option word_of_nat (parse_uint 65536 s)"

definition parse_u32 :: "string \<Rightarrow> u32 option" where
  "parse_u32 s = map_option word_of_nat (parse_uint 4294967296 s)"

definition digit_char :: "nat \<Rightarrow> char" where
  "digit_char d = (if d < 10 then char_of (48 + d) else char_of (87 + d))"

fun show_radix :: "nat \<Rightarrow> nat \<Rightarrow> string" where
  "show_radix r n =
    (if r \<le> 1 \<or> n < r then [digit_char n] else show_radix r (n div r) @ [digit_char (n mod r)])"

declare show_radix.simps [simp del]

abbreviation show_nat :: "nat \<Rightarrow> string" where
  "show_nat n \<equiv> show_radix 10 n"

lemma digit_val_digit_char: "d < 16 \<Longrightarrow> digit_val (digit_char d) = d"
  by (auto simp: digit_val_def digit_char_def is_digit_def is_lower_def is_upper_def)

lemma number_val_append: "number_val r (s @ [c]) = number_val r s * r + digit_val c"
  by (simp add: number_val_def)

lemma mod_radix_16: "2 \<le> r \<Longrightarrow> r \<le> 16 \<Longrightarrow> n mod r < (16::nat)"
  by (rule less_le_trans [of _ r]) auto

lemma number_val_show:
  "2 \<le> r \<Longrightarrow> r \<le> 16 \<Longrightarrow> number_val r (show_radix r n) = n"
proof (induction r n rule: show_radix.induct)
  case (1 r n)
  show ?case
  proof (cases "n < r")
    case True
    with "1.prems" show ?thesis
      by (simp add: show_radix.simps [of r n] number_val_def digit_val_digit_char)
  next
    case False
    with "1.prems" "1.IH" have "number_val r (show_radix r (n div r)) = n div r" by simp
    moreover have "n mod r < 16" using "1.prems" by (rule mod_radix_16)
    ultimately show ?thesis using False "1.prems"
      by (simp add: show_radix.simps [of r n] number_val_append digit_val_digit_char)
  qed
qed

lemma show_radix_digits:
  "2 \<le> r \<Longrightarrow> r \<le> 16 \<Longrightarrow> list_all (is_radix_digit r) (show_radix r n)"
proof (induction r n rule: show_radix.induct)
  case (1 r n)
  have m: "is_radix_digit r (digit_char (n mod r))"
  proof -
    have "n mod r < r" "n mod r < 16" using "1.prems" by (simp_all add: mod_radix_16)
    then show ?thesis by (simp add: is_radix_digit_def digit_val_digit_char)
  qed
  show ?case
  proof (cases "n < r")
    case True
    with m "1.prems" show ?thesis by (simp add: show_radix.simps [of r n])
  next
    case False
    with "1.prems" "1.IH" m show ?thesis by (simp add: show_radix.simps [of r n])
  qed
qed

lemma show_radix_not_Nil [simp]: "show_radix r n \<noteq> []"
  by (subst show_radix.simps) simp

lemma digit_char_0: "digit_char 0 = CHR ''0''"
proof -
  have "char_of (of_char (CHR ''0'') :: nat) = CHR ''0''" by (rule char_of_char)
  then show ?thesis by (simp add: digit_char_def)
qed

lemma digit_char_0_iff: "d < 16 \<Longrightarrow> digit_char d = CHR ''0'' \<longleftrightarrow> d = 0"
  using digit_val_digit_char [of d] digit_val_digit_char [of 0] digit_char_0 by auto

lemma show_radix_hd_0:
  "2 \<le> r \<Longrightarrow> r \<le> 16 \<Longrightarrow> hd (show_radix r n) = CHR ''0'' \<longleftrightarrow> n = 0"
proof (induction r n rule: show_radix.induct)
  case (1 r n)
  show ?case
  proof (cases "n < r")
    case True
    with "1.prems" show ?thesis by (simp add: show_radix.simps [of r n] digit_char_0_iff)
  next
    case False
    with "1.prems" "1.IH" have "hd (show_radix r (n div r)) = CHR ''0'' \<longleftrightarrow> n div r = 0" by simp
    with False "1.prems" show ?thesis
      by (auto simp: show_radix.simps [of r n] div_eq_0_iff)
  qed
qed

lemma length_show_nat:
  "n < 10 ^ Suc k \<Longrightarrow> length (show_nat n) \<le> Suc k"
proof (induction k arbitrary: n)
  case 0
  then show ?case by (simp add: show_radix.simps)
next
  case (Suc k)
  show ?case
  proof (cases "n < 10")
    case True
    then show ?thesis by (simp add: show_radix.simps)
  next
    case False
    have "n div 10 < 10 ^ Suc k" using Suc.prems by (simp add: less_mult_imp_div_less)
    from Suc.IH [OF this] False show ?thesis by (simp add: show_radix.simps [of 10 n])
  qed
qed

lemma length_show_nat_1: "length (show_nat n) = 1 \<longleftrightarrow> n < 10"
  by (simp add: show_radix.simps [of 10 n])

lemma radix_digit_not_dot: "is_radix_digit 16 c \<Longrightarrow> c \<noteq> CHR ''.'' \<and> c \<noteq> CHR '':'' \<and> c \<noteq> CHR ''/'' \<and> c \<noteq> CHR ''+''"
  by (auto simp: is_radix_digit_def digit_val_def is_digit_def is_lower_def is_upper_def)

lemma is_radix_digit_mono: "is_radix_digit 10 c \<Longrightarrow> is_radix_digit 16 c"
  by (simp add: is_radix_digit_def)

lemma parse_uint_show: "n < bound \<Longrightarrow> parse_uint bound (show_nat n) = Some n"
proof -
  assume b: "n < bound"
  have d: "list_all (is_radix_digit 10) (show_nat n)" by (simp add: show_radix_digits)
  then have "hd (show_nat n) \<noteq> CHR ''+''"
    using radix_digit_not_dot is_radix_digit_mono
    by (metis list.pred_inject(2) show_radix_not_Nil list.collapse)
  then have "(case show_nat n of CHR ''+'' # r \<Rightarrow> (if r = [] then show_nat n else r) | _ \<Rightarrow> show_nat n) = show_nat n"
    by (cases "show_nat n") (auto split: char.splits bool.splits)
  with d b show ?thesis by (simp add: parse_uint_def number_val_show)
qed

section \<open>IP addresses\<close>

datatype ip_addr = V4 u32 | V6 u128

definition is_ipv4 :: "ip_addr \<Rightarrow> bool" where
  "is_ipv4 a = (case a of V4 _ \<Rightarrow> True | V6 _ \<Rightarrow> False)"

definition octets :: "ip_addr \<Rightarrow> bytes" where
  "octets a = (case a of V4 w \<Rightarrow> u32_be w | V6 w \<Rightarrow> u128_be w)"

primrec hextets :: "nat \<Rightarrow> u128 \<Rightarrow> u16 list" where
  "hextets 0 w = []"
| "hextets (Suc n) w = ucast (drop_bit (16 * n) w) # hextets n w"

abbreviation segments :: "u128 \<Rightarrow> u16 list" where
  "segments w \<equiv> hextets 8 w"

definition of_segments :: "nat list \<Rightarrow> u128" where
  "of_segments gs = foldl (\<lambda>acc g. push_bit 16 acc OR word_of_nat g) 0 gs"

subsection \<open>Printing\<close>

definition show_ipv4 :: "u32 \<Rightarrow> string" where
  "show_ipv4 w = join ''.'' (map (\<lambda>b. show_nat (unat b)) (u32_be w))"

text \<open>The first longest run of zero groups: \<open>(start, length)\<close>.\<close>

fun zero_run :: "nat \<Rightarrow> nat \<times> nat \<Rightarrow> nat \<times> nat \<Rightarrow> u16 list \<Rightarrow> nat \<times> nat" where
  "zero_run i longest current [] = longest"
| "zero_run i longest current (g # gs) =
     (if g = 0 then
        (let cur = (if snd current = 0 then i else fst current, Suc (snd current)) in
         zero_run (Suc i) (if snd longest < snd cur then cur else longest) cur gs)
      else zero_run (Suc i) longest (0, 0) gs)"

definition show_groups :: "u16 list \<Rightarrow> string" where
  "show_groups gs = join '':'' (map (\<lambda>g. show_radix 16 (unat g)) gs)"

definition show_ipv6 :: "u128 \<Rightarrow> string" where
  "show_ipv6 w =
    (let gs = segments w; (start, n) = zero_run 0 (0, 0) (0, 0) gs in
     if take 5 gs = replicate 5 0 \<and> gs ! 5 = 0xFFFF then ''::ffff:'' @ show_ipv4 (ucast w)
     else if 1 < n then show_groups (take start gs) @ ''::'' @ show_groups (drop (start + n) gs)
     else show_groups gs)"

definition show_ip :: "ip_addr \<Rightarrow> string" where
  "show_ip a = (case a of V4 w \<Rightarrow> show_ipv4 w | V6 w \<Rightarrow> show_ipv6 w)"

subsection \<open>Parsing\<close>

text \<open>\<open>read_number\<close>: a run of at most \<open>max_digits\<close> digits whose value is below \<open>bound\<close>, and the rest.\<close>

definition read_number :: "nat \<Rightarrow> nat \<Rightarrow> bool \<Rightarrow> nat \<Rightarrow> string \<Rightarrow> (nat \<times> string) option" where
  "read_number r max_digits allow_zero bound s =
    (let d = takeWhile (is_radix_digit r) s in
     if d = [] \<or> max_digits < length d \<or> (\<not> allow_zero \<and> hd d = CHR ''0'' \<and> 1 < length d) \<or>
        bound \<le> number_val r d
     then None else Some (number_val r d, drop (length d) s))"

definition read_char :: "char \<Rightarrow> string \<Rightarrow> string option" where
  "read_char c s = (case s of [] \<Rightarrow> None | x # xs \<Rightarrow> (if x = c then Some xs else None))"

definition read_octet :: "string \<Rightarrow> (nat \<times> string) option" where
  "read_octet s = read_number 10 3 False 256 s"

definition read_ipv4 :: "string \<Rightarrow> (u32 \<times> string) option" where
  "read_ipv4 s = do {
     (a, s) \<leftarrow> read_octet s; s \<leftarrow> read_char CHR ''.'' s;
     (b, s) \<leftarrow> read_octet s; s \<leftarrow> read_char CHR ''.'' s;
     (c, s) \<leftarrow> read_octet s; s \<leftarrow> read_char CHR ''.'' s;
     (d, s) \<leftarrow> read_octet s;
     Some (u32_from (word_of_nat a) (word_of_nat b) (word_of_nat c) (word_of_nat d), s) }"

text \<open>
  \<open>read_groups\<close>: groups \<open>i, \<dots>, limit - 1\<close> of an IPv6 address, each after a colon except group
  \<open>0\<close>; an embedded IPv4 address takes two groups and ends the run.
\<close>

definition read_sep :: "nat \<Rightarrow> string \<Rightarrow> string option" where
  "read_sep i s = (if i = 0 then Some s else read_char CHR '':'' s)"

definition read_sep_ipv4 :: "nat \<Rightarrow> nat \<Rightarrow> string \<Rightarrow> (u32 \<times> string) option" where
  "read_sep_ipv4 i limit s = (if i < limit - 1 then Option.bind (read_sep i s) read_ipv4 else None)"

definition read_sep_group :: "nat \<Rightarrow> string \<Rightarrow> (nat \<times> string) option" where
  "read_sep_group i s = Option.bind (read_sep i s) (read_number 16 4 True 65536)"

function read_groups :: "nat \<Rightarrow> nat \<Rightarrow> string \<Rightarrow> nat list \<times> bool \<times> string" where
  "read_groups i limit s =
    (if limit \<le> i then ([], False, s)
     else case read_sep_ipv4 i limit s of
       Some (v4, r) \<Rightarrow> ([unat (drop_bit 16 v4), unat v4 mod 65536], True, r)
     | None \<Rightarrow>
       (case read_sep_group i s of
          None \<Rightarrow> ([], False, s)
        | Some (g, r) \<Rightarrow> (let (gs, v4, r') = read_groups (Suc i) limit r in (g # gs, v4, r'))))"
  by pat_completeness auto
termination
  by (relation "measure (\<lambda>(i, limit, s). limit - i)") auto

declare read_groups.simps [simp del]

definition read_ipv6 :: "string \<Rightarrow> (u128 \<times> string) option" where
  "read_ipv6 s =
    (let (head, v4, r) = read_groups 0 8 s in
     if length head = 8 then Some (of_segments head, r)
     else if v4 then None
     else do {
       r \<leftarrow> read_char CHR '':'' r;
       r \<leftarrow> read_char CHR '':'' r;
       (let (tail, _, r) = read_groups 0 (8 - (length head + 1)) r in
        Some (of_segments (head @ replicate (8 - length head - length tail) 0 @ tail), r)) })"

text \<open>\<open>Ipv4Addr\<close> and \<open>IpAddr\<close>: the whole string has to be consumed.\<close>

definition parse_ipv4 :: "string \<Rightarrow> u32 option" where
  "parse_ipv4 s =
    (if 15 < length s then None
     else case read_ipv4 s of Some (w, []) \<Rightarrow> Some w | _ \<Rightarrow> None)"

definition parse_ip :: "string \<Rightarrow> ip_addr option" where
  "parse_ip s =
    (case read_ipv4 s of
       Some (w, r) \<Rightarrow> (if r = [] then Some (V4 w) else None)
     | None \<Rightarrow>
       (case read_ipv6 s of
          Some (w, r) \<Rightarrow> (if r = [] then Some (V6 w) else None)
        | None \<Rightarrow> None))"

subsection \<open>IPv4 round trip\<close>

lemma read_octet_show:
  assumes "n < 256" and "s = [] \<or> \<not> is_radix_digit 10 (hd s)"
  shows "read_octet (show_nat n @ s) = Some (n, s)"
proof -
  have d: "list_all (is_radix_digit 10) (show_nat n)" by (simp add: show_radix_digits)
  have tw: "takeWhile (is_radix_digit 10) (show_nat n @ s) = show_nat n"
  proof -
    have "takeWhile (is_radix_digit 10) s = []" using assms(2) by (cases s) auto
    with d show ?thesis by (simp add: list_all_iff)
  qed
  have len: "length (show_nat n) \<le> 3"
    using length_show_nat [of n 2] assms(1) by simp
  have z: "hd (show_nat n) = CHR ''0'' \<Longrightarrow> length (show_nat n) = 1"
    using show_radix_hd_0 [of 10 n] length_show_nat_1 [of n] by simp
  show ?thesis
    using tw len z assms(1) by (auto simp: read_octet_def read_number_def number_val_show Let_def)
qed

lemma is_radix_digit_dot [simp]: "\<not> is_radix_digit 10 CHR ''.''"
  using radix_digit_not_dot is_radix_digit_mono by blast

lemma read_ipv4_show:
  assumes "s = [] \<or> \<not> is_radix_digit 10 (hd s)"
  shows "read_ipv4 (show_ipv4 w @ s) = Some (w, s)"
  using assms
  by (simp add: read_ipv4_def show_ipv4_def be_bytes_4 read_octet_show read_char_def u32_from_split)

lemma show_ipv4_chars: "c \<in> set (show_ipv4 w) \<Longrightarrow> is_radix_digit 10 c \<or> c = CHR ''.''"
  using show_radix_digits [of 10] by (auto simp: show_ipv4_def be_bytes_4 list_all_iff)

lemma length_show_ipv4: "length (show_ipv4 w) \<le> 15"
proof -
  have "length (show_nat (unat (b :: u8))) \<le> 3" for b
  proof -
    have "unat b < 10 ^ Suc 2" by (rule less_trans [OF unat_u8_less]) simp
    then show ?thesis using length_show_nat [of "unat b" 2] by simp
  qed
  then have "length (show_nat (unat (ucast (drop_bit 24 w) :: u8))) \<le> 3"
    "length (show_nat (unat (ucast (drop_bit 16 w) :: u8))) \<le> 3"
    "length (show_nat (unat (ucast (drop_bit 8 w) :: u8))) \<le> 3"
    "length (show_nat (unat (ucast w :: u8))) \<le> 3"
    by blast+
  then show ?thesis by (simp add: show_ipv4_def be_bytes_4)
qed

lemma parse_ipv4_show: "parse_ipv4 (show_ipv4 w) = Some w"
  using read_ipv4_show [of "[]" w] length_show_ipv4 [of w] by (simp add: parse_ipv4_def)

lemma parse_ip_show_v4: "parse_ip (show_ip (V4 w)) = Some (V4 w)"
  using read_ipv4_show [of "[]" w] by (simp add: parse_ip_def show_ip_def)

lemma length_octets: "length (octets a) = (if is_ipv4 a then 4 else 16)"
  by (cases a) (simp_all add: octets_def is_ipv4_def)

lemmas ip_eval =
  parse_ip_def parse_ipv4_def read_ipv4_def read_octet_def read_number_def read_ipv6_def
  read_groups.simps read_sep_ipv4_def read_sep_group_def read_sep_def read_char_def
  is_radix_digit_def digit_val_def number_val_def Let_def

end
