(* ===== verification/Dns_Wire.thy ===== *)
theory Dns_Wire
  imports Rust_Net
begin

text \<open>
  The DNS wire codec (src/engine/src/dns/wire.rs): response codes, message parsing with
  compression pointers, name writing, and the builders of queries and responses. The parser of
  names is refined against a declarative reading of RFC 1035 names, \<open>name_at\<close>.
\<close>

section \<open>Messages and response codes\<close>

record question =
  q_name :: string
  q_type :: u16
  q_class :: u16

record resource_record =
  rr_name :: string
  rr_type :: u16
  rr_class :: u16
  rr_ttl :: u32
  rr_rdata :: bytes

record dns_message =
  dm_id :: u16
  dm_flags :: u16
  dm_opcode :: u8
  dm_rcode :: u8
  dm_questions :: "question list"
  dm_answers :: "resource_record list"
  dm_raw :: bytes

definition TYPE_A :: u16 where "TYPE_A = 1"
definition TYPE_AAAA :: u16 where "TYPE_AAAA = 28"
definition RCODE_NOERROR :: u8 where "RCODE_NOERROR = 0"
definition RCODE_FORMERR :: u8 where "RCODE_FORMERR = 1"
definition RCODE_SERVFAIL :: u8 where "RCODE_SERVFAIL = 2"
definition RCODE_NXDOMAIN :: u8 where "RCODE_NXDOMAIN = 3"
definition RCODE_NOTIMP :: u8 where "RCODE_NOTIMP = 4"
definition RCODE_REFUSED :: u8 where "RCODE_REFUSED = 5"

lemmas rcode_defs = RCODE_NOERROR_def RCODE_FORMERR_def RCODE_SERVFAIL_def RCODE_NXDOMAIN_def
  RCODE_NOTIMP_def RCODE_REFUSED_def

definition parse_rcode_token :: "string \<Rightarrow> u8 option" where
  "parse_rcode_token token =
    (if token = ''success'' then Some RCODE_NOERROR
     else if token = ''format_error'' then Some RCODE_FORMERR
     else if token = ''server_failure'' then Some RCODE_SERVFAIL
     else if token = ''name_error'' then Some RCODE_NXDOMAIN
     else if token = ''not_implemented'' then Some RCODE_NOTIMP
     else if token = ''refused'' then Some RCODE_REFUSED
     else None)"

definition rcode_token :: "u8 \<Rightarrow> string" where
  "rcode_token rcode =
    (if rcode = RCODE_NOERROR then ''success''
     else if rcode = RCODE_FORMERR then ''format_error''
     else if rcode = RCODE_SERVFAIL then ''server_failure''
     else if rcode = RCODE_NXDOMAIN then ''name_error''
     else if rcode = RCODE_NOTIMP then ''not_implemented''
     else if rcode = RCODE_REFUSED then ''refused''
     else ''unknown'')"

definition is_response :: "dns_message \<Rightarrow> bool" where
  "is_response msg = (dm_flags msg AND 0x8000 \<noteq> 0)"

definition recursion_desired :: "dns_message \<Rightarrow> bool" where
  "recursion_desired msg = (dm_flags msg AND 0x0100 \<noteq> 0)"

definition first_question :: "dns_message \<Rightarrow> question option" where
  "first_question msg = (case dm_questions msg of [] \<Rightarrow> None | q # _ \<Rightarrow> Some q)"

section \<open>Names\<close>

text \<open>
  The loop of \<open>read_name\<close>. Each label moves forward, each pointer uses one of the 32 jumps, so the
  loop ends: first the jumps left, then the bytes left.
\<close>

definition name_label :: "bytes \<Rightarrow> nat \<Rightarrow> nat \<Rightarrow> string" where
  "name_label raw pos len = to_lower (from_utf8_lossy (take len (drop pos raw)))"

definition pointer_target :: "bytes \<Rightarrow> nat \<Rightarrow> nat" where
  "pointer_target raw pos = unat (u16_from (raw ! pos AND 0x3F) (raw ! (pos + 1)))"

function read_name_loop ::
  "bytes \<Rightarrow> nat \<Rightarrow> string list \<Rightarrow> nat \<Rightarrow> nat \<Rightarrow> bool \<Rightarrow> nat \<Rightarrow> (string \<times> nat) result" where
  "read_name_loop raw offset labels pos consumed followed jumps =
    (if length raw \<le> pos then Inl (Dns ''name runs past end'')
     else let len = unat (raw ! pos) in
       if raw ! pos AND 0xC0 = 0 then
         (let consumed = (if followed then consumed else consumed + 1) in
          if len = 0 then Inr (join ''.'' labels, consumed)
          else if length raw < pos + 1 + len then Inl (Dns ''label runs past end'')
          else read_name_loop raw offset (labels @ [name_label raw (pos + 1) len]) (pos + 1 + len)
                 (if followed then consumed else consumed + len) followed jumps)
       else if raw ! pos AND 0xC0 = 0xC0 then
         (if length raw \<le> pos + 1 then Inl (Dns ''truncated pointer'')
          else if pos \<le> pointer_target raw pos then Inl (Dns ''bad compression pointer'')
          else if 32 < jumps + 1 then Inl (Dns ''compression loop'')
          else read_name_loop raw offset labels (pointer_target raw pos)
                 (if followed then consumed else pos + 2 - offset) True (jumps + 1))
       else Inl (Dns ''reserved label type''))"
  by pat_completeness auto
termination
  by (relation "measures [\<lambda>(raw, _, _, _, _, _, jumps). 33 - jumps,
                          \<lambda>(raw, _, _, pos, _, _, _). length raw - pos]") auto

declare read_name_loop.simps [simp del]

definition read_name :: "bytes \<Rightarrow> nat \<Rightarrow> (string \<times> nat) result" where
  "read_name raw offset = read_name_loop raw offset [] offset 0 False 0"

definition write_label :: "string \<Rightarrow> bytes" where
  "write_label label =
    (let len = min (length label) 63 in word_of_nat len # take len (as_bytes label))"

definition write_name :: "bytes \<Rightarrow> string \<Rightarrow> bytes" where
  "write_name out name =
    (if name = [] \<or> name = ''.'' then out @ [0]
     else out @ concat (map write_label (split_on CHR ''.'' (trim_end_matches CHR ''.'' name))) @ [0])"

section \<open>Parsing\<close>

fun parse_questions :: "nat \<Rightarrow> bytes \<Rightarrow> nat \<Rightarrow> (question list \<times> nat) result" where
  "parse_questions 0 raw off = Inr ([], off)"
| "parse_questions (Suc n) raw off =
    rbind (read_name raw off) (\<lambda>(name, used).
      let off = off + used in
      if length raw < off + 4 then Inl (Dns ''truncated question'')
      else rbind (parse_questions n raw (off + 4)) (\<lambda>(qs, end).
        Inr (\<lparr>q_name = name, q_type = u16_from (raw ! off) (raw ! (off + 1)),
              q_class = u16_from (raw ! (off + 2)) (raw ! (off + 3))\<rparr> # qs, end)))"

fun parse_records :: "nat \<Rightarrow> bytes \<Rightarrow> nat \<Rightarrow> (resource_record list \<times> nat) result" where
  "parse_records 0 raw off = Inr ([], off)"
| "parse_records (Suc n) raw off =
    rbind (read_name raw off) (\<lambda>(name, used).
      let off = off + used in
      if length raw < off + 10 then Inl (Dns ''truncated record'')
      else let rdlen = unat (u16_from (raw ! (off + 8)) (raw ! (off + 9))) in
        if length raw < off + 10 + rdlen then Inl (Dns ''truncated rdata'')
        else rbind (parse_records n raw (off + 10 + rdlen)) (\<lambda>(rs, end).
          Inr (\<lparr>rr_name = name, rr_type = u16_from (raw ! off) (raw ! (off + 1)),
                rr_class = u16_from (raw ! (off + 2)) (raw ! (off + 3)),
                rr_ttl = u32_from (raw ! (off + 4)) (raw ! (off + 5)) (raw ! (off + 6)) (raw ! (off + 7)),
                rr_rdata = take rdlen (drop (off + 10) raw)\<rparr> # rs, end)))"

text \<open>The record count is the 16-bit sum of the three section counts, which wraps.\<close>

definition parse :: "bytes \<Rightarrow> dns_message result" where
  "parse raw =
    (if length raw < 12 then Inl (Dns ''message shorter than header'')
     else
       let id = u16_from (raw ! 0) (raw ! 1);
           flags = u16_from (raw ! 2) (raw ! 3);
           qd = u16_from (raw ! 4) (raw ! 5);
           an = u16_from (raw ! 6) (raw ! 7);
           ns = u16_from (raw ! 8) (raw ! 9);
           ar = u16_from (raw ! 10) (raw ! 11)
       in
       rbind (parse_questions (unat qd) raw 12) (\<lambda>(questions, off).
       rbind (parse_records (unat (an + ns + ar)) raw off) (\<lambda>(answers, _).
         Inr \<lparr>dm_id = id, dm_flags = flags, dm_opcode = ucast (drop_bit 11 flags AND 0xF),
              dm_rcode = ucast (flags AND 0xF), dm_questions = questions, dm_answers = answers,
              dm_raw = raw\<rparr>)))"

section \<open>Building\<close>

definition write_question :: "bytes \<Rightarrow> question \<Rightarrow> bytes" where
  "write_question out q = write_name out (q_name q) @ u16_be (q_type q) @ u16_be (q_class q)"

definition write_answer :: "ip_addr \<times> u32 \<Rightarrow> bytes" where
  "write_answer a =
    (case a of (ip, ttl) \<Rightarrow>
       [0xC0, 0x0C] @ u16_be (if is_ipv4 ip then TYPE_A else TYPE_AAAA) @ u16_be 0x0001 @ u32_be ttl @
       (case ip of V4 v4 \<Rightarrow> u16_be 4 @ octets (V4 v4) | V6 v6 \<Rightarrow> u16_be 16 @ octets (V6 v6)))"

definition response_flags :: "dns_message \<Rightarrow> u8 \<Rightarrow> u16" where
  "response_flags query rcode =
    0x8000 OR push_bit 11 (ucast (dm_opcode query)) OR
    (if recursion_desired query then 0x0100 else 0) OR 0x0080 OR (ucast rcode AND 0xF)"

definition build_response :: "dns_message \<Rightarrow> u8 \<Rightarrow> (ip_addr \<times> u32) list \<Rightarrow> bytes" where
  "build_response query rcode answers =
    (let out = u16_be (dm_id query) @ u16_be (response_flags query rcode) @
           u16_be (word_of_nat (length (dm_questions query))) @
           u16_be (word_of_nat (length answers)) @ u16_be 0 @ u16_be 0;
         out = foldl write_question out (dm_questions query)
     in case dm_questions query of
          [] \<Rightarrow> out
        | _ # _ \<Rightarrow> out @ concat (map write_answer answers))"

definition build_query :: "u16 \<Rightarrow> string \<Rightarrow> u16 \<Rightarrow> bytes" where
  "build_query qid name qtype =
    write_name (u16_be qid @ u16_be 0x0100 @ u16_be 1 @ u16_be 0 @ u16_be 0 @ u16_be 0) name @
    u16_be qtype @ u16_be 1"

section \<open>What a name in a message is\<close>

text \<open>
  \<open>name_at raw pos j labels used\<close>: at \<open>pos\<close> of \<open>raw\<close> stands a name with these labels, reached
  through \<open>j\<close> pointers, which takes \<open>used\<close> bytes where it stands. A pointer leads strictly
  backwards from its own position.
\<close>

inductive name_at :: "bytes \<Rightarrow> nat \<Rightarrow> nat \<Rightarrow> string list \<Rightarrow> nat \<Rightarrow> bool" for raw where
  name_root: "pos < length raw \<Longrightarrow> raw ! pos = 0 \<Longrightarrow> name_at raw pos 0 [] 1"
| name_label_step: "pos < length raw \<Longrightarrow> raw ! pos AND 0xC0 = 0 \<Longrightarrow> raw ! pos \<noteq> 0 \<Longrightarrow>
    pos + 1 + unat (raw ! pos) \<le> length raw \<Longrightarrow>
    name_at raw (pos + 1 + unat (raw ! pos)) j labels used \<Longrightarrow>
    name_at raw pos j (name_label raw (pos + 1) (unat (raw ! pos)) # labels)
      (1 + unat (raw ! pos) + used)"
| name_pointer: "pos + 1 < length raw \<Longrightarrow> raw ! pos AND 0xC0 = 0xC0 \<Longrightarrow>
    pointer_target raw pos < pos \<Longrightarrow> name_at raw (pointer_target raw pos) j labels used \<Longrightarrow>
    name_at raw pos (Suc j) labels 2"

inductive_cases name_at_elim: "name_at raw pos j labels used"

lemma name_at_bounds: "name_at raw pos j labels used \<Longrightarrow> 0 < used \<and> pos + used \<le> length raw"
  by (induction rule: name_at.induct) auto

lemma name_at_cases_iff:
  "name_at raw pos j labels used \<longleftrightarrow> pos < length raw \<and>
     (if raw ! pos AND 0xC0 = 0 then
        (if raw ! pos = 0 then j = 0 \<and> labels = [] \<and> used = 1
         else pos + 1 + unat (raw ! pos) \<le> length raw \<and>
           (\<exists>ls u. name_at raw (pos + 1 + unat (raw ! pos)) j ls u \<and>
              labels = name_label raw (pos + 1) (unat (raw ! pos)) # ls \<and>
              used = 1 + unat (raw ! pos) + u))
      else raw ! pos AND 0xC0 = 0xC0 \<and> pos + 1 < length raw \<and> pointer_target raw pos < pos \<and>
        (\<exists>k u. j = Suc k \<and> name_at raw (pointer_target raw pos) k labels u \<and> used = 2))"
    (is "?l \<longleftrightarrow> ?r")
proof
  assume ?l
  then show ?r by (cases rule: name_at.cases) auto
next
  assume r: ?r
  consider "raw ! pos = 0" | "raw ! pos AND 0xC0 = 0" "raw ! pos \<noteq> 0" | "raw ! pos AND 0xC0 \<noteq> 0"
    by blast
  then show ?l
  proof cases
    case 1
    then show ?thesis using r name_root by simp
  next
    case 2
    then obtain ls u where "name_at raw (pos + 1 + unat (raw ! pos)) j ls u"
      "labels = name_label raw (pos + 1) (unat (raw ! pos)) # ls" "used = 1 + unat (raw ! pos) + u"
      using r by auto
    then show ?thesis using r 2 name_label_step by auto
  next
    case 3
    then show ?thesis using r name_pointer by auto
  qed
qed

text \<open>
  The loop computes exactly the declarative names reachable with the jumps that are left.
\<close>

lemma read_name_loop_iff:
  "(\<not> followed \<Longrightarrow> pos = offset + consumed) \<Longrightarrow> jumps \<le> 32 \<Longrightarrow>
   read_name_loop raw offset labels pos consumed followed jumps = Inr (name, n) \<longleftrightarrow>
     (\<exists>j ls u. name_at raw pos j ls u \<and> jumps + j \<le> 32 \<and> name = join ''.'' (labels @ ls) \<and>
        n = (if followed then consumed else consumed + u))"
proof (induction raw offset labels pos consumed followed jumps rule: read_name_loop.induct)
  case (1 raw offset labels pos consumed followed jumps)
  note unf = read_name_loop.simps [of raw offset labels pos consumed followed jumps]
  let ?b = "raw ! pos"
  consider (past) "length raw \<le> pos" | (root) "pos < length raw" "?b = 0"
    | (label) "pos < length raw" "?b AND 0xC0 = 0" "?b \<noteq> 0"
    | (pointer) "pos < length raw" "?b AND 0xC0 \<noteq> 0" by (cases "length raw \<le> pos") auto
  then show ?case
  proof cases
    case past
    then show ?thesis by (simp add: unf name_at_cases_iff [of raw pos])
  next
    case root
    then show ?thesis using "1.prems" by (auto simp: unf name_at_cases_iff [of raw pos])
  next
    case label
    then have nz: "unat ?b \<noteq> 0" by (simp add: unat_eq_0)
    show ?thesis
    proof (cases "length raw < pos + 1 + unat ?b")
      case True
      with label nz show ?thesis by (simp add: unf name_at_cases_iff [of raw pos])
    next
      case False
      have "read_name_loop raw offset labels pos consumed followed jumps =
        read_name_loop raw offset (labels @ [name_label raw (pos + 1) (unat ?b)]) (pos + 1 + unat ?b)
          (if followed then consumed else consumed + 1 + unat ?b) followed jumps"
        using label nz False by (simp add: unf Let_def)
      moreover have "read_name_loop raw offset (labels @ [name_label raw (pos + 1) (unat ?b)])
          (pos + 1 + unat ?b) (if followed then consumed else consumed + 1 + unat ?b) followed jumps
          = Inr (name, n) \<longleftrightarrow>
        (\<exists>j ls u. name_at raw (pos + 1 + unat ?b) j ls u \<and> jumps + j \<le> 32 \<and>
          name = join ''.'' ((labels @ [name_label raw (pos + 1) (unat ?b)]) @ ls) \<and>
          n = (if followed then consumed else consumed + 1 + unat ?b + u))"
        using "1.IH"(1) [OF _ refl label(2) refl] label nz False "1.prems" by (cases followed) auto
      ultimately show ?thesis
        using label False by (force simp: name_at_cases_iff [of raw pos])
    qed
  next
    case pointer
    show ?thesis
    proof (cases "?b AND 0xC0 = 0xC0 \<and> pos + 1 < length raw \<and> pointer_target raw pos < pos")
      case False
      with pointer show ?thesis by (auto simp: unf name_at_cases_iff [of raw pos] Let_def)
    next
      case True
      show ?thesis
      proof (cases "32 < jumps + 1")
        case t: True
        with True pointer show ?thesis by (auto simp: unf name_at_cases_iff [of raw pos] Let_def)
      next
        case f: False
        have "read_name_loop raw offset labels pos consumed followed jumps =
          read_name_loop raw offset labels (pointer_target raw pos)
            (if followed then consumed else pos + 2 - offset) True (jumps + 1)"
          using True pointer f by (simp add: unf Let_def)
        moreover have "read_name_loop raw offset labels (pointer_target raw pos)
            (if followed then consumed else pos + 2 - offset) True (jumps + 1) = Inr (name, n) \<longleftrightarrow>
          (\<exists>j ls u. name_at raw (pointer_target raw pos) j ls u \<and> jumps + 1 + j \<le> 32 \<and>
             name = join ''.'' (labels @ ls) \<and>
             n = (if followed then consumed else pos + 2 - offset))"
          using "1.IH"(2) [OF _ refl pointer(2)] True pointer f by auto
        ultimately show ?thesis
          using pointer True "1.prems" by (force simp: name_at_cases_iff [of raw pos])
      qed
    qed
  qed
qed

lemma read_name_iff:
  "read_name raw off = Inr (name, n) \<longleftrightarrow>
     (\<exists>j ls. name_at raw off j ls n \<and> j \<le> 32 \<and> name = join ''.'' ls)"
  by (auto simp: read_name_def read_name_loop_iff)

section \<open>Written names read back\<close>

definition label_ok :: "string \<Rightarrow> bool" where
  "label_ok l = (l \<noteq> [] \<and> length l \<le> 63 \<and> utf8_valid (as_bytes l))"

definition dns_name_ok :: "string \<Rightarrow> bool" where
  "dns_name_ok name = (name = [] \<or> list_all label_ok (split_on CHR ''.'' name))"

definition name_labels :: "string \<Rightarrow> string list" where
  "name_labels name = (if name = [] then [] else split_on CHR ''.'' name)"

lemma write_label_ok:
  "label_ok l \<Longrightarrow> write_label l = word_of_nat (length l) # as_bytes l"
  by (simp add: write_label_def label_ok_def min_def)

lemma label_len_byte:
  assumes "n \<le> 63"
  shows "unat (word_of_nat n :: u8) = n" "(word_of_nat n :: u8) AND 0xC0 = 0"
proof -
  show u: "unat (word_of_nat n :: u8) = n" using assms by (simp add: unat_of_nat)
  show "(word_of_nat n :: u8) AND 0xC0 = 0"
  proof (rule bit_word_eqI)
    fix k
    assume k: "k < LENGTH(8)"
    have "\<not> bit n k" if "6 \<le> k"
    proof -
      have "(64 :: nat) \<le> 2 ^ k" using that power_increasing [of 6 k "2 :: nat"] by simp
      then have "n < 2 ^ k" using assms by simp
      then show ?thesis by (simp add: bit_iff_odd)
    qed
    moreover have "bit (0xC0 :: u8) k \<longleftrightarrow> k = 6 \<or> k = 7"
      using k by (auto simp: bit_numeral_rec numeral_eq_Suc less_Suc_eq)
    ultimately show "bit ((word_of_nat n :: u8) AND 0xC0) k = bit (0 :: u8) k"
      by (auto simp: bit_simps)
  qed
qed

lemma name_at_written:
  "list_all label_ok ls \<Longrightarrow>
   name_at (pre @ concat (map write_label ls) @ [0] @ post) (length pre) 0 (map to_lower ls)
     (length (concat (map write_label ls)) + 1)"
proof (induction ls arbitrary: pre)
  case Nil
  show ?case using name_root [of "length pre" "pre @ [0] @ post"] by simp
next
  case (Cons l ls)
  then have l: "label_ok l" by simp
  let ?w = "word_of_nat (length l) :: u8"
  let ?raw = "pre @ concat (map write_label (l # ls)) @ [0] @ post"
  have len: "unat ?w = length l" "?w AND 0xC0 = 0" "?w \<noteq> 0"
    using label_len_byte [of "length l"] l by (auto simp: label_ok_def)
  have raw: "?raw = (pre @ write_label l) @ concat (map write_label ls) @ [0] @ post" by simp
  have "name_at ?raw (length (pre @ write_label l)) 0 (map to_lower ls)
      (length (concat (map write_label ls)) + 1)"
    unfolding raw using Cons by (intro Cons.IH) simp
  moreover have "?raw ! length pre = ?w" by (simp add: write_label_ok l)
  moreover have "name_label ?raw (length pre + 1) (length l) = to_lower l"
    using l by (simp add: name_label_def write_label_ok label_ok_def from_utf8_lossy_valid)
  ultimately show ?case
    using name_label_step [of "length pre" ?raw 0 "map to_lower ls"
      "length (concat (map write_label ls)) + 1"] len
    by (simp add: write_label_ok l)
qed

lemma split_on_snoc: "split_on c (r @ [c]) = split_on c r @ [[]]"
proof (induction r)
  case (Cons x r)
  then show ?case by (cases "split_on c r") auto
qed simp

lemma dns_name_ok_trim:
  assumes "dns_name_ok name"
  shows "trim_end_matches CHR ''.'' name = name" "name \<noteq> ''.''"
proof -
  have ne: "last name \<noteq> CHR ''.''" if "name \<noteq> []"
  proof
    assume "last name = CHR ''.''"
    then have "name = butlast name @ [CHR ''.'']" using that by (metis append_butlast_last_id)
    then have "[] \<in> set (split_on CHR ''.'' name)"
      using split_on_snoc [of "CHR ''.''" "butlast name"] by (metis in_set_conv_decomp)
    then show False using assms that by (auto simp: dns_name_ok_def list_all_iff label_ok_def)
  qed
  then show "name \<noteq> ''.''" by auto
  have "dropWhile (\<lambda>x. x = CHR ''.'') (rev name) = rev name"
    using ne by (cases "rev name") auto
  then show "trim_end_matches CHR ''.'' name = name" by (simp add: trim_end_matches_def)
qed

lemma write_name_append: "write_name out name = out @ write_name [] name"
  by (simp add: write_name_def)

lemma write_name_ok:
  "dns_name_ok name \<Longrightarrow> write_name [] name = concat (map write_label (name_labels name)) @ [0]"
  using dns_name_ok_trim [of name] by (auto simp: write_name_def name_labels_def)

lemma to_lower_join: "to_lower (join ''.'' ps) = join ''.'' (map to_lower ps)"
  by (induction ps rule: induct_list012) (auto simp: to_lower_def lower_char_def is_upper_def)

lemma join_name_labels: "join ''.'' (map to_lower (name_labels name)) = to_lower name"
  using to_lower_join [of "name_labels name", symmetric] join_split_on [of "CHR ''.''" name]
  by (simp add: name_labels_def)

lemma name_at_write_name:
  assumes "dns_name_ok name" and "length pre = off"
  shows "name_at (pre @ write_name [] name @ post) off 0 (map to_lower (name_labels name))
    (length (write_name [] name))"
proof -
  have "list_all label_ok (name_labels name)"
    using assms(1) by (auto simp: dns_name_ok_def name_labels_def)
  from name_at_written [OF this, of pre post] show ?thesis
    using assms by (simp add: write_name_ok)
qed

lemma read_name_written:
  "dns_name_ok name \<Longrightarrow> length pre = off \<Longrightarrow>
   read_name (pre @ write_name [] name @ post) off = Inr (to_lower name, length (write_name [] name))"
  using name_at_write_name [of name pre off post] join_name_labels [of name]
  by (auto simp: read_name_iff intro!: exI [of _ "map to_lower (name_labels name)"] exI [of _ 0])

text \<open>Reading a fixed part of a message that lies behind a known prefix.\<close>

lemma nth_behind: "length pre = off \<Longrightarrow> k < length mid \<Longrightarrow> (pre @ mid @ post) ! (off + k) = mid ! k"
  by (simp add: nth_append)

lemma nth_behind_0: "length pre = off \<Longrightarrow> mid \<noteq> [] \<Longrightarrow> (pre @ mid @ post) ! off = mid ! 0"
  using nth_behind [of pre off 0 mid post] by simp

lemma parse_questions_step:
  assumes "read_name raw off = Inr (name, used)"
    and "raw = pre @ (u16_be t @ u16_be c) @ post" and "length pre = off + used"
  shows "parse_questions (Suc n) raw off =
    rbind (parse_questions n raw (off + used + 4)) (\<lambda>(qs, end).
      Inr (\<lparr>q_name = name, q_type = t, q_class = c\<rparr> # qs, end))"
proof -
  have l: "\<not> length raw < off + used + 4" using assms(2,3) by simp
  have "raw ! (off + used) = ucast (drop_bit 8 t)" "raw ! (off + used + 1) = ucast t"
    "raw ! (off + used + 2) = ucast (drop_bit 8 c)" "raw ! (off + used + 3) = ucast c"
    using assms(2,3) by (simp_all add: be_bytes_2 nth_append)
  with l assms(1) show ?thesis by (simp add: Let_def u16_from_split)
qed

definition written_question :: "question \<Rightarrow> bytes" where
  "written_question q = write_name [] (q_name q) @ u16_be (q_type q) @ u16_be (q_class q)"

definition question_lower :: "question \<Rightarrow> question" where
  "question_lower q = q\<lparr>q_name := to_lower (q_name q)\<rparr>"

lemma foldl_write_question:
  "foldl write_question out qs = out @ concat (map written_question qs)"
proof (induction qs arbitrary: out)
  case (Cons q qs)
  then show ?case
    using write_name_append [of out "q_name q"] by (simp add: write_question_def written_question_def)
qed simp

lemma parse_questions_written:
  "\<forall>q \<in> set qs. dns_name_ok (q_name q) \<Longrightarrow> length pre = off \<Longrightarrow>
   parse_questions (length qs) (pre @ concat (map written_question qs) @ post) off =
     Inr (map question_lower qs, off + length (concat (map written_question qs)))"
proof (induction qs arbitrary: pre off)
  case (Cons q qs)
  let ?raw = "pre @ concat (map written_question (q # qs)) @ post"
  let ?w = "write_name [] (q_name q)"
  have rd: "read_name ?raw off = Inr (to_lower (q_name q), length ?w)"
    using read_name_written [of "q_name q" pre off] Cons.prems by (simp add: written_question_def)
  have "parse_questions (length qs)
      ((pre @ written_question q) @ concat (map written_question qs) @ post) (off + length ?w + 4) =
    Inr (map question_lower qs, off + length ?w + 4 + length (concat (map written_question qs)))"
    using Cons.prems by (intro Cons.IH) (auto simp: written_question_def)
  then have rest: "parse_questions (length qs) ?raw (off + length ?w + 4) =
    Inr (map question_lower qs, off + length ?w + 4 + length (concat (map written_question qs)))"
    by simp
  have "parse_questions (Suc (length qs)) ?raw off =
    rbind (parse_questions (length qs) ?raw (off + length ?w + 4)) (\<lambda>(qs, end).
      Inr (\<lparr>q_name = to_lower (q_name q), q_type = q_type q, q_class = q_class q\<rparr> # qs, end))"
    by (rule parse_questions_step [OF rd, of "pre @ ?w" _ _ "concat (map written_question qs) @ post"])
      (use Cons.prems in \<open>simp_all add: written_question_def\<close>)
  moreover have "question_lower q =
      \<lparr>q_name = to_lower (q_name q), q_type = q_type q, q_class = q_class q\<rparr>"
    by (cases q) (simp add: question_lower_def)
  moreover have "length (written_question q) = length ?w + 4" by (simp add: written_question_def)
  ultimately show ?case using rest by (simp del: parse_questions.simps add: add.assoc)
qed simp

text \<open>Answers written by \<open>build_response\<close> name the question at offset 12.\<close>

definition answer_record :: "string \<Rightarrow> ip_addr \<times> u32 \<Rightarrow> resource_record" where
  "answer_record name a =
    \<lparr>rr_name = name, rr_type = (if is_ipv4 (fst a) then TYPE_A else TYPE_AAAA), rr_class = 1,
     rr_ttl = snd a, rr_rdata = octets (fst a)\<rparr>"

lemma write_answer_parts:
  "write_answer a = [0xC0, 0x0C] @ u16_be (if is_ipv4 (fst a) then TYPE_A else TYPE_AAAA) @
     u16_be 1 @ u32_be (snd a) @ u16_be (word_of_nat (length (octets (fst a)))) @ octets (fst a)"
  by (cases a; cases "fst a") (auto simp: write_answer_def is_ipv4_def octets_def)

lemma parse_records_step:
  assumes "read_name raw off = Inr (name, used)" and "length rdata < 65536"
    and "raw = pre @ (u16_be t @ u16_be c @ u32_be ttl @ u16_be (word_of_nat (length rdata)) @ rdata) @ post"
    and "length pre = off + used"
  shows "parse_records (Suc n) raw off =
    rbind (parse_records n raw (off + used + 10 + length rdata)) (\<lambda>(rs, end).
      Inr (\<lparr>rr_name = name, rr_type = t, rr_class = c, rr_ttl = ttl, rr_rdata = rdata\<rparr> # rs, end))"
proof -
  let ?o = "off + used" and ?n = "word_of_nat (length rdata) :: u16"
  have l: "\<not> length raw < ?o + 10" "\<not> length raw < ?o + 10 + length rdata" using assms(3,4) by simp_all
  have f: "raw ! ?o = ucast (drop_bit 8 t)" "raw ! (?o + 1) = ucast t"
    "raw ! (?o + 2) = ucast (drop_bit 8 c)" "raw ! (?o + 3) = ucast c"
    "raw ! (?o + 4) = ucast (drop_bit 24 ttl)" "raw ! (?o + 5) = ucast (drop_bit 16 ttl)"
    "raw ! (?o + 6) = ucast (drop_bit 8 ttl)" "raw ! (?o + 7) = ucast ttl"
    "raw ! (?o + 8) = ucast (drop_bit 8 ?n)" "raw ! (?o + 9) = ucast ?n"
    using assms(3,4) by (simp_all add: be_bytes_2 be_bytes_4 nth_append)
  have n: "unat ?n = length rdata" using assms(2) by (simp add: of_nat_u16_bytes)
  have "take (length rdata) (drop (?o + 10) raw) = rdata"
    using assms(3,4) by (simp add: be_bytes_2 be_bytes_4)
  with l f n assms(1) show ?thesis
    by (simp only: parse_records.simps rbind_simps Let_def prod.case u16_from_split u32_from_split
        if_False)
qed

lemma read_name_question_pointer:
  assumes "name_at raw 12 0 ls u" and "off + 1 < length raw" and "raw ! off = 0xC0"
    and "raw ! (off + 1) = 0x0C" and "12 < off"
  shows "read_name raw off = Inr (join ''.'' ls, 2)"
proof -
  have "pointer_target raw off = 12"
    using assms(3,4) by (simp add: pointer_target_def u16_from_def be_word_def)
  then have "name_at raw off (Suc 0) ls 2"
    using name_pointer [of off raw 0 ls u] assms by simp
  then show ?thesis by (auto simp: read_name_iff intro!: exI [of _ "Suc 0"] exI [of _ ls])
qed

lemma length_octets_bound: "length (octets ip) < 65536"
  by (simp add: length_octets)

lemma parse_records_answers:
  assumes "length pre = off" and "12 < off"
    and "name_at (pre @ concat (map write_answer as)) 12 0 ls u"
  shows "parse_records (length as) (pre @ concat (map write_answer as)) off =
    Inr (map (answer_record (join ''.'' ls)) as, off + length (concat (map write_answer as)))"
  using assms
proof (induction as arbitrary: pre off)
  case (Cons a as)
  let ?raw = "pre @ concat (map write_answer (a # as))"
  have parts: "?raw = (pre @ [0xC0, 0x0C]) @ (u16_be (if is_ipv4 (fst a) then TYPE_A else TYPE_AAAA) @
     u16_be 1 @ u32_be (snd a) @ u16_be (word_of_nat (length (octets (fst a)))) @ octets (fst a)) @
     concat (map write_answer as)"
    by (simp add: write_answer_parts)
  have len: "length (write_answer a) = 2 + 10 + length (octets (fst a))"
    by (simp add: write_answer_parts)
  have "read_name ?raw off = Inr (join ''.'' ls, 2)"
  proof (rule read_name_question_pointer [OF Cons.prems(3)])
    show "off + 1 < length ?raw" "?raw ! off = 0xC0" "?raw ! (off + 1) = 0x0C" "12 < off"
      unfolding parts using Cons.prems(1,2) by (simp_all add: nth_append)
  qed
  from parse_records_step [OF this length_octets_bound parts, of "length as"]
  have "parse_records (Suc (length as)) ?raw off =
    rbind (parse_records (length as) ?raw (off + 2 + 10 + length (octets (fst a)))) (\<lambda>(rs, end).
      Inr (answer_record (join ''.'' ls) a # rs, end))"
    using Cons.prems(1) by (simp add: answer_record_def del: parse_records.simps)
  moreover have "parse_records (length as) ((pre @ write_answer a) @ concat (map write_answer as))
      (off + 2 + 10 + length (octets (fst a))) =
    Inr (map (answer_record (join ''.'' ls)) as,
      off + 2 + 10 + length (octets (fst a)) + length (concat (map write_answer as)))"
    using Cons.prems len by (intro Cons.IH) simp_all
  ultimately show ?case using len by (simp del: parse_records.simps)
qed simp

lemma parse_header:
  assumes "raw = u16_be i @ u16_be f @ u16_be qd @ u16_be an @ u16_be ns @ u16_be ar @ body"
  shows "parse raw =
    rbind (parse_questions (unat qd) raw 12) (\<lambda>(questions, off).
    rbind (parse_records (unat (an + ns + ar)) raw off) (\<lambda>(answers, _).
      Inr \<lparr>dm_id = i, dm_flags = f, dm_opcode = ucast (drop_bit 11 f AND 0xF),
           dm_rcode = ucast (f AND 0xF), dm_questions = questions, dm_answers = answers,
           dm_raw = raw\<rparr>))"
proof -
  have f: "raw ! 0 = ucast (drop_bit 8 i)" "raw ! 1 = ucast i" "raw ! 2 = ucast (drop_bit 8 f)"
    "raw ! 3 = ucast f" "raw ! 4 = ucast (drop_bit 8 qd)" "raw ! 5 = ucast qd"
    "raw ! 6 = ucast (drop_bit 8 an)" "raw ! 7 = ucast an" "raw ! 8 = ucast (drop_bit 8 ns)"
    "raw ! 9 = ucast ns" "raw ! 10 = ucast (drop_bit 8 ar)" "raw ! 11 = ucast ar"
    using assms by (simp_all add: be_bytes_2)
  have "\<not> length raw < 12" using assms by simp
  with f show ?thesis by (simp only: parse_def Let_def u16_from_split if_False)
qed

lemma parse_build_query:
  assumes "dns_name_ok name"
  shows "parse (build_query qid name qtype) =
    Inr \<lparr>dm_id = qid, dm_flags = 0x0100, dm_opcode = 0, dm_rcode = 0,
         dm_questions = [\<lparr>q_name = to_lower name, q_type = qtype, q_class = 1\<rparr>],
         dm_answers = [], dm_raw = build_query qid name qtype\<rparr>"
proof -
  let ?q = "\<lparr>q_name = name, q_type = qtype, q_class = 1\<rparr>"
  let ?h = "u16_be qid @ u16_be 0x0100 @ u16_be 1 @ u16_be 0 @ u16_be 0 @ u16_be 0"
  have raw: "build_query qid name qtype = ?h @ concat (map written_question [?q]) @ []"
    using write_name_append [of ?h name] by (simp add: build_query_def written_question_def)
  have "parse_questions (length [?q]) (?h @ concat (map written_question [?q]) @ []) 12 =
      Inr (map question_lower [?q], 12 + length (concat (map written_question [?q])))"
    using assms by (intro parse_questions_written) simp_all
  then have "parse_questions (Suc 0) (build_query qid name qtype) 12 =
      Inr ([\<lparr>q_name = to_lower name, q_type = qtype, q_class = 1\<rparr>],
        12 + length (written_question ?q))"
    unfolding raw by (simp add: question_lower_def del: parse_questions.simps)
  then show ?thesis
    using parse_header [of "build_query qid name qtype" qid "0x0100" 1 0 0 0 "written_question ?q"] raw
    by (simp del: parse_questions.simps)
qed

section \<open>Lowering keeps UTF-8\<close>

definition lower_byte :: "u8 \<Rightarrow> u8" where
  "lower_byte b = byte_of (lower_char (char_of_byte b))"

lemma as_bytes_lower: "as_bytes (to_lower s) = map lower_byte (as_bytes s)"
  by (simp add: as_bytes_def to_lower_def lower_byte_def)

lemma lower_byte_cases: "(128 \<le> b \<and> lower_byte b = b) \<or> (b < 128 \<and> lower_byte b < 128)"
proof (cases "b < 128")
  case True
  then have b: "unat b < 128" by (simp add: word_less_nat_alt)
  have "(of_char (lower_char (char_of_byte b)) :: nat) < 128"
    using b by (auto simp: of_char_lower_char char_of_byte_def is_upper_def)
  then show ?thesis using True by (simp add: lower_byte_def byte_of_def word_less_nat_alt unat_of_nat)
next
  case False
  then have "128 \<le> unat b" by (simp add: word_less_nat_alt)
  moreover have "unat b < 256" using unsigned_less [of b, where ?'a = nat] by simp
  ultimately have "\<not> is_upper (char_of_byte b)" by (simp add: is_upper_def char_of_byte_def)
  then show ?thesis using False by (auto simp: lower_byte_def lower_char_def)
qed

lemma lower_byte_range:
  assumes "128 \<le> x"
  shows "(x \<le> lower_byte c \<and> lower_byte c \<le> y) = (x \<le> c \<and> c \<le> y)"
proof (cases "c < 128")
  case True
  then have "lower_byte c < 128" using lower_byte_cases [of c] by auto
  then have "\<not> x \<le> lower_byte c" "\<not> x \<le> c" using True assms by (simp_all add: word_le_nat_alt word_less_nat_alt)
  then show ?thesis by simp
next
  case False
  then show ?thesis using lower_byte_cases [of c] by auto
qed

lemma byte_at_lower: "byte_at (map lower_byte bs) i = lower_byte (byte_at bs i)"
  by (simp add: byte_at_def lower_byte_def char_of_byte_def lower_char_def is_upper_def byte_of_def)

lemma utf8_step_lower: "utf8_step (map lower_byte bs) = utf8_step bs"
proof -
  have c: "is_cont (lower_byte b) = is_cont b" for b by (simp add: is_cont_def lower_byte_range)
  have r: "(160 \<le> lower_byte b \<and> lower_byte b \<le> 191) = (160 \<le> b \<and> b \<le> 191)"
    "(128 \<le> lower_byte b \<and> lower_byte b \<le> 159) = (128 \<le> b \<and> b \<le> 159)"
    "(144 \<le> lower_byte b \<and> lower_byte b \<le> 191) = (144 \<le> b \<and> b \<le> 191)"
    "(128 \<le> lower_byte b \<and> lower_byte b \<le> 143) = (128 \<le> b \<and> b \<le> 143)" for b
    by (rule lower_byte_range, simp)+
  consider "byte_at bs 0 < 128" "lower_byte (byte_at bs 0) < 128" | "lower_byte (byte_at bs 0) = byte_at bs 0"
    using lower_byte_cases [of "byte_at bs 0"] by auto
  then show ?thesis
  proof cases
    case 1
    then show ?thesis unfolding utf8_step_def Let_def byte_at_lower by simp
  next
    case 2
    show ?thesis unfolding utf8_step_def Let_def byte_at_lower 2 c r ..
  qed
qed

lemma utf8_valid_lower: "utf8_valid (map lower_byte bs) = utf8_valid bs"
proof (induction bs rule: utf8_valid.induct)
  case (1 bs)
  then show ?case
    by (cases "bs = []") (simp_all add: utf8_valid.simps [of bs] utf8_valid.simps [of "map lower_byte bs"]
      utf8_step_lower drop_map [symmetric])
qed

lemma lower_char_dot: "lower_char c = CHR ''.'' \<longleftrightarrow> c = CHR ''.''"
proof
  assume l: "lower_char c = CHR ''.''"
  have "\<not> is_upper c"
  proof
    assume u: "is_upper c"
    then have "(of_char (lower_char c) :: nat) = of_char c + 32" by (simp add: of_char_lower_char)
    with l u show False by (simp add: is_upper_def)
  qed
  with l show "c = CHR ''.''" by (simp add: lower_char_def)
qed (simp add: lower_char_def is_upper_def)

lemma split_on_lower: "split_on CHR ''.'' (to_lower s) = map to_lower (split_on CHR ''.'' s)"
proof (induction s)
  case (Cons c s)
  have "to_lower (c # s) = lower_char c # to_lower s" by (simp add: to_lower_def)
  with Cons show ?case
    by (cases "split_on CHR ''.'' s") (auto simp: lower_char_dot to_lower_def)
qed (simp add: to_lower_def)

lemma dns_name_ok_lower: "dns_name_ok name \<Longrightarrow> dns_name_ok (to_lower name)"
  by (auto simp: dns_name_ok_def split_on_lower list_all_iff label_ok_def as_bytes_lower utf8_valid_lower)

section \<open>Theorems\<close>

text \<open>
  C30: \<open>read_name\<close> computes exactly the names of the message format. It succeeds if and only if a
  well-formed name, whose pointers lead strictly backwards and are at most 32, stands at the offset;
  then it returns the dotted name and the bytes the name takes where it stands. On every input it
  terminates.
\<close>

theorem read_name_refines_format:
  "read_name raw off = Inr (name, n) \<longleftrightarrow>
     (\<exists>j ls. name_at raw off j ls n \<and> j \<le> 32 \<and> name = join ''.'' ls)"
  by (rule read_name_iff)

text \<open>
  A query built for a well-formed name parses back: same id, recursion desired, one question with
  the lower-case name, the asked type and class IN, and no records.
\<close>

theorem query_roundtrip:
  assumes "dns_name_ok name"
  shows "parse (build_query qid name qtype) =
    Inr \<lparr>dm_id = qid, dm_flags = 0x0100, dm_opcode = 0, dm_rcode = 0,
         dm_questions = [\<lparr>q_name = to_lower name, q_type = qtype, q_class = 1\<rparr>],
         dm_answers = [], dm_raw = build_query qid name qtype\<rparr>"
  by (rule parse_build_query [OF assms])

theorem query_roundtrip_witness:
  "parse (build_query 7 ''Example.com'' 1) =
    Inr \<lparr>dm_id = 7, dm_flags = 0x0100, dm_opcode = 0, dm_rcode = 0,
         dm_questions = [\<lparr>q_name = ''example.com'', q_type = 1, q_class = 1\<rparr>],
         dm_answers = [], dm_raw = build_query 7 ''Example.com'' 1\<rparr>"
proof -
  have "dns_name_ok ''Example.com''"
    by (simp add: dns_name_ok_def label_ok_def text_eval)
  from query_roundtrip [OF this, of 7 1] show ?thesis by (simp add: text_eval)
qed

lemma bit_u16_flags:
  "bit (0x8000 :: u16) k \<longleftrightarrow> k = 15" "bit (0x0100 :: u16) k \<longleftrightarrow> k = 8" "bit (0x0080 :: u16) k \<longleftrightarrow> k = 7"
  "bit (0xF :: u16) k \<longleftrightarrow> k < 4"
proof -
  have p: "(0x8000 :: u16) = 2 ^ 15" "(0x0100 :: u16) = 2 ^ 8" "(0x0080 :: u16) = 2 ^ 7"
    "(0xF :: u16) = mask 4"
    by (simp_all add: mask_eq_exp_minus_1)
  show "bit (0x8000 :: u16) k \<longleftrightarrow> k = 15" "bit (0x0100 :: u16) k \<longleftrightarrow> k = 8"
    "bit (0x0080 :: u16) k \<longleftrightarrow> k = 7" "bit (0xF :: u16) k \<longleftrightarrow> k < 4"
    unfolding p bit_exp_iff bit_mask_iff by auto
qed

lemma response_flags_bits:
  "bit (response_flags query rcode) k \<longleftrightarrow> k < 16 \<and>
     (k = 15 \<or> (11 \<le> k \<and> bit (dm_opcode query) (k - 11)) \<or> (k = 8 \<and> recursion_desired query) \<or>
      k = 7 \<or> (k < 4 \<and> bit rcode k))"
  by (cases "recursion_desired query";
      simp only: response_flags_def bit_or_iff bit_and_iff bit_u16_flags if_True if_False;
      auto simp: bit_simps)

lemma response_flags_fields:
  assumes "dm_opcode query < 16"
  shows "drop_bit 11 (response_flags query rcode) AND 0xF = ucast (dm_opcode query)"
    "response_flags query rcode AND 0xF = ucast rcode AND 0xF"
    "response_flags query rcode AND 0x8000 \<noteq> 0"
    "response_flags query rcode AND 0x0100 \<noteq> 0 \<longleftrightarrow> recursion_desired query"
proof -
  have op: "\<not> bit (dm_opcode query) k" if "4 \<le> k" for k
  proof -
    have "unat (dm_opcode query) < 16" using assms by (simp add: word_less_nat_alt)
    moreover have "(16 :: nat) \<le> 2 ^ k" using that power_increasing [of 4 k "2 :: nat"] by simp
    ultimately have "\<not> bit (unat (dm_opcode query)) k" by (simp add: bit_iff_odd)
    then show ?thesis by (auto simp: bit_unsigned_iff)
  qed
  show "drop_bit 11 (response_flags query rcode) AND 0xF = ucast (dm_opcode query)"
    using op
    by (intro bit_word_eqI, simp only: bit_and_iff bit_u16_flags)
      (auto simp: bit_simps response_flags_bits not_le [symmetric])
  show "response_flags query rcode AND 0xF = ucast rcode AND 0xF"
    by (intro bit_word_eqI, simp only: bit_and_iff bit_u16_flags)
      (auto simp: bit_simps response_flags_bits)
  have "bit (response_flags query rcode AND 0x8000) 15"
    by (simp only: bit_and_iff bit_u16_flags) (simp add: response_flags_bits)
  then show "response_flags query rcode AND 0x8000 \<noteq> 0" by auto
  have "response_flags query rcode AND 0x0100 = (if recursion_desired query then 0x0100 else 0)"
    by (cases "recursion_desired query"; intro bit_word_eqI;
        simp only: bit_and_iff bit_u16_flags if_True if_False; auto simp: response_flags_bits)
  then show "response_flags query rcode AND 0x0100 \<noteq> 0 \<longleftrightarrow> recursion_desired query" by simp
qed

lemma parse_response:
  assumes qs: "dm_questions query = q # qs" and ok: "\<forall>q \<in> set (q # qs). dns_name_ok (q_name q)"
    and lens: "length (q # qs) < 65536" "length as < 65536"
  shows "\<exists>msg. parse (build_response query rcode as) = Inr msg \<and> dm_id msg = dm_id query \<and>
    dm_flags msg = response_flags query rcode \<and>
    dm_opcode msg = ucast (drop_bit 11 (response_flags query rcode) AND 0xF) \<and>
    dm_rcode msg = ucast (response_flags query rcode AND 0xF) \<and>
    dm_questions msg = map question_lower (q # qs) \<and>
    dm_answers msg = map (answer_record (to_lower (q_name q))) as"
proof -
  let ?h = "u16_be (dm_id query) @ u16_be (response_flags query rcode) @
    u16_be (word_of_nat (length (q # qs))) @ u16_be (word_of_nat (length as)) @ u16_be 0 @ u16_be 0"
  let ?Q = "concat (map written_question (q # qs))" and ?A = "concat (map write_answer as)"
  let ?raw = "?h @ ?Q @ ?A"
  have raw: "build_response query rcode as = ?raw"
    by (simp add: build_response_def qs foldl_write_question Let_def del: foldl_Cons list.map concat.simps)
  have pq: "parse_questions (length (q # qs)) ?raw 12 = Inr (map question_lower (q # qs), 12 + length ?Q)"
    using ok by (intro parse_questions_written) simp_all
  have "name_at (?h @ write_name [] (q_name q) @ u16_be (q_type q) @ u16_be (q_class q) @
      concat (map written_question qs) @ ?A) 12 0 (map to_lower (name_labels (q_name q)))
      (length (write_name [] (q_name q)))"
    using ok by (intro name_at_write_name) simp_all
  then have na: "name_at ((?h @ ?Q) @ ?A) 12 0 (map to_lower (name_labels (q_name q)))
      (length (write_name [] (q_name q)))"
    by (simp add: written_question_def)
  have "parse_records (length as) ((?h @ ?Q) @ ?A) (12 + length ?Q) =
      Inr (map (answer_record (join ''.'' (map to_lower (name_labels (q_name q))))) as,
        12 + length ?Q + length ?A)"
    by (rule parse_records_answers [OF _ _ na]) (simp_all add: written_question_def)
  then have pr: "parse_records (length as) ?raw (12 + length ?Q) =
      Inr (map (answer_record (to_lower (q_name q))) as, 12 + length ?Q + length ?A)"
    by (simp add: join_name_labels)
  have n: "unat (word_of_nat (length (q # qs)) :: u16) = length (q # qs)"
    "unat (word_of_nat (length as) + 0 + 0 :: u16) = length as"
    using lens by (simp_all only: add_0_right of_nat_u16_bytes)
  have hdr: "?raw = u16_be (dm_id query) @ u16_be (response_flags query rcode) @
    u16_be (word_of_nat (length (q # qs))) @ u16_be (word_of_nat (length as)) @ u16_be 0 @ u16_be 0 @
    (?Q @ ?A)" by (simp only: append_assoc)
  show ?thesis
    unfolding raw parse_header [OF hdr] n pq pr rbind_simps prod.case by simp
qed

text \<open>
  A response echoes its query and carries its answers. For a query with at least one question,
  well-formed names and counts that fit their fields, parsing the built response gives the id, the
  questions, the opcode and RD bit of the query, the response bit, the low four bits of the code,
  and one record per answer, named by the first question.
\<close>

theorem response_roundtrip:
  assumes "dm_questions query = q # qs" and "\<forall>q \<in> set (q # qs). dns_name_ok (q_name q)"
    and "length (q # qs) < 65536" and "length as < 65536" and "dm_opcode query < 16"
  shows "\<exists>msg. parse (build_response query rcode as) = Inr msg \<and> dm_id msg = dm_id query \<and>
    is_response msg \<and> recursion_desired msg = recursion_desired query \<and>
    dm_opcode msg = dm_opcode query \<and> dm_rcode msg = rcode AND 0xF \<and>
    dm_questions msg = map question_lower (q # qs) \<and>
    dm_answers msg = map (answer_record (to_lower (q_name q))) as"
proof -
  obtain msg where msg: "parse (build_response query rcode as) = Inr msg" "dm_id msg = dm_id query"
    "dm_flags msg = response_flags query rcode"
    "dm_opcode msg = ucast (drop_bit 11 (response_flags query rcode) AND 0xF)"
    "dm_rcode msg = ucast (response_flags query rcode AND 0xF)"
    "dm_questions msg = map question_lower (q # qs)"
    "dm_answers msg = map (answer_record (to_lower (q_name q))) as"
    using parse_response [OF assms(1-4), of rcode] by blast
  have "ucast (ucast rcode AND (0xF :: u16)) = rcode AND 0xF"
    by (intro bit_word_eqI) (auto simp: bit_simps)
  moreover have "ucast (ucast (dm_opcode query) :: u16) = dm_opcode query"
    by (intro bit_word_eqI) (auto simp: bit_simps)
  ultimately show ?thesis
    using msg response_flags_fields [OF assms(5)]
    by (intro exI [of _ msg]) (simp add: is_response_def recursion_desired_def [of msg])
qed

theorem response_roundtrip_witness:
  "\<exists>msg. parse (build_response
       \<lparr>dm_id = 9, dm_flags = 0x0100, dm_opcode = 0, dm_rcode = 0,
        dm_questions = [\<lparr>q_name = ''a.b'', q_type = 1, q_class = 1\<rparr>], dm_answers = [], dm_raw = []\<rparr>
       0 [(V4 0x01020304, 60)]) = Inr msg \<and> dm_id msg = 9 \<and>
     map rr_rdata (dm_answers msg) = [[1, 2, 3, 4]]"
proof -
  let ?m = "\<lparr>dm_id = 9, dm_flags = 0x0100, dm_opcode = 0, dm_rcode = 0,
    dm_questions = [\<lparr>q_name = ''a.b'', q_type = 1, q_class = 1\<rparr>], dm_answers = [], dm_raw = []\<rparr>"
  have "dns_name_ok ''a.b''"
    by (simp add: dns_name_ok_def label_ok_def text_eval)
  with response_roundtrip [of ?m "\<lparr>q_name = ''a.b'', q_type = 1, q_class = 1\<rparr>" "[]"
      "[(V4 0x01020304, 60)]" 0]
  obtain msg where "parse (build_response ?m 0 [(V4 0x01020304, 60)]) = Inr msg" "dm_id msg = 9"
    "dm_answers msg = map (answer_record (to_lower ''a.b'')) [(V4 0x01020304, 60)]" by auto
  then show ?thesis
    by (intro exI [of _ msg]) (simp add: answer_record_def octets_def be_bytes_4)
qed

text \<open>
  The response codes and their tokens are inverse on the six codes mihomo names: a token parses to
  a code exactly when the code prints as that token and the token is not the placeholder.
\<close>

theorem rcode_tokens_inverse:
  "parse_rcode_token token = Some rcode \<longleftrightarrow> rcode_token rcode = token \<and> token \<noteq> ''unknown''"
  by (auto simp: parse_rcode_token_def rcode_token_def rcode_defs)

text \<open>
  The section counts are added in sixteen bits. A header announcing 65535 answers and one authority
  record is accepted with no record at all behind it, while the same header with one answer less
  is refused.
\<close>

theorem record_count_wraps:
  "map_sum id dm_answers (parse [0, 7, 0x80, 0, 0, 0, 0xFF, 0xFF, 0, 1, 0, 0]) = Inr [] \<and>
   parse [0, 7, 0x80, 0, 0, 0, 0xFF, 0xFE, 0, 1, 0, 0] = Inl (Dns ''name runs past end'')"
proof -
  have "parse_records (unat (u16_from 0xFF 0xFE + 1)) [0, 7, 0x80, 0, 0, 0, 0xFF, 0xFE, 0, 1, 0, 0] 12 =
    Inl (Dns ''name runs past end'')"
  proof -
    have "unat (u16_from 0xFF 0xFE + 1) = Suc 65534" by (simp add: u16_from_def be_word_def)
    then show ?thesis
      by (simp only: parse_records.simps) (simp add: read_name_def read_name_loop.simps [of _ _ _ 12])
  qed
  then show ?thesis by (simp add: parse_def Let_def u16_from_def be_word_def)
qed

end
