(* ===== verification/Edns.thy ===== *)
theory Edns
  imports Dns_Wire
begin

text \<open>
  The EDNS0 OPT record and its client-subnet option (src/engine/src/dns/edns.rs): encoding with
  the address truncated to the source prefix, best-effort parsing, and appending to a query.
\<close>

record client_subnet =
  cs_addr :: ip_addr
  cs_source_prefix :: u8
  cs_scope_prefix :: u8

definition DEFAULT_PAYLOAD_SIZE :: u16 where "DEFAULT_PAYLOAD_SIZE = 1232"
definition ECS_OPTION_CODE :: u16 where "ECS_OPTION_CODE = 8"
definition TYPE_OPT :: u16 where "TYPE_OPT = 41"

section \<open>Encoding\<close>

text \<open>
  The truncated address: whole bytes up to the prefix, the spare bits of the last one cleared.
\<close>

definition truncate_octets :: "nat \<Rightarrow> bytes \<Rightarrow> bytes" where
  "truncate_octets bits octs =
    (let nbytes = (bits + 7) div 8;
         addr = take nbytes octs;
         spare = bits mod 8
     in if spare \<noteq> 0 \<and> addr \<noteq> []
        then addr[length addr - 1 := last addr AND push_bit (8 - spare) 0xFF]
        else addr)"

definition ecs_address :: "client_subnet \<Rightarrow> bytes" where
  "ecs_address cs =
    (let octs = octets (cs_addr cs)
     in truncate_octets (min (unat (cs_source_prefix cs)) (length octs * 8)) octs)"

definition encode_ecs_rdata :: "client_subnet \<Rightarrow> bytes" where
  "encode_ecs_rdata cs =
    (let family = (if is_ipv4 (cs_addr cs) then 1 else 2);
         addr = ecs_address cs
     in u16_be ECS_OPTION_CODE @ u16_be (word_of_nat (4 + length addr)) @ u16_be family @
        [cs_source_prefix cs, cs_scope_prefix cs] @ addr)"

definition encode_opt_rr :: "client_subnet option \<Rightarrow> u16 \<Rightarrow> bool \<Rightarrow> bytes" where
  "encode_opt_rr subnet udpsize dnssec =
    (let rdata = (case subnet of None \<Rightarrow> [] | Some cs \<Rightarrow> encode_ecs_rdata cs);
         ttl = (if dnssec then 0x8000 else 0)
     in [0] @ u16_be TYPE_OPT @ u16_be udpsize @ u32_be ttl @ u16_be (word_of_nat (length rdata)) @ rdata)"

section \<open>Parsing\<close>

text \<open>\<open>[0u8; n]\<close> with the first bytes copied over it.\<close>

definition padded :: "nat \<Rightarrow> bytes \<Rightarrow> bytes" where
  "padded n bs = take n bs @ replicate (n - length bs) 0"

definition parse_ecs_option :: "bytes \<Rightarrow> client_subnet option" where
  "parse_ecs_option opt =
    (if length opt < 4 then None
     else
       let family = u16_from (opt ! 0) (opt ! 1);
           subnet = (\<lambda>addr. Some \<lparr>cs_addr = addr, cs_source_prefix = opt ! 2, cs_scope_prefix = opt ! 3\<rparr>)
       in if family = 1 then subnet (V4 (be_word (padded 4 (drop 4 opt))))
          else if family = 2 then subnet (V6 (be_word (padded 16 (drop 4 opt))))
          else None)"

text \<open>The walk over the options: every turn moves forward by at least four bytes.\<close>

function parse_options :: "bytes \<Rightarrow> nat \<Rightarrow> client_subnet option \<Rightarrow> client_subnet option" where
  "parse_options rdata off subnet =
    (if off + 4 \<le> length rdata then
       (let code = u16_from (rdata ! off) (rdata ! (off + 1));
            olen = unat (u16_from (rdata ! (off + 2)) (rdata ! (off + 3)));
            off = off + 4
        in if length rdata < off + olen then subnet
           else parse_options rdata (off + olen)
                  (if code = ECS_OPTION_CODE \<and> subnet = None
                   then parse_ecs_option (take olen (drop off rdata)) else subnet))
     else subnet)"
  by pat_completeness auto
termination
  by (relation "measure (\<lambda>(rdata, off, _). length rdata + 4 - off)") auto

declare parse_options.simps [simp del]

definition parse_opt_rr :: "bytes \<Rightarrow> (u16 \<times> bool \<times> client_subnet option) option" where
  "parse_opt_rr tail =
    (if length tail < 11 \<or> tail ! 0 \<noteq> 0 then None
     else if u16_from (tail ! 1) (tail ! 2) \<noteq> TYPE_OPT then None
     else
       let udpsize = u16_from (tail ! 3) (tail ! 4);
           ttl = u32_from (tail ! 5) (tail ! 6) (tail ! 7) (tail ! 8);
           dnssec = (ttl AND 0x8000 \<noteq> 0);
           rdlen = unat (u16_from (tail ! 9) (tail ! 10));
           rdata = take (min rdlen (length tail - 11)) (drop 11 tail)
       in Some (udpsize, dnssec, parse_options rdata 0 None))"

definition append_to_query :: "bytes \<Rightarrow> client_subnet option \<Rightarrow> bytes" where
  "append_to_query query subnet =
    (if length query < 12 then query
     else
       let arcount = u16_from (query ! 10) (query ! 11) in
       if arcount = 0xFFFF then query
       else
         let query = query @ encode_opt_rr subnet DEFAULT_PAYLOAD_SIZE False in
         take 10 query @ u16_be (arcount + 1) @ drop 12 query)"

section \<open>The truncated address\<close>

text \<open>What the option may reveal: the first \<open>n\<close> bits of the address.\<close>

definition network_word :: "nat \<Rightarrow> 'a::len word \<Rightarrow> 'a word" where
  "network_word n w = w AND NOT (mask (LENGTH('a) - min n LENGTH('a)))"

definition network_ip :: "nat \<Rightarrow> ip_addr \<Rightarrow> ip_addr" where
  "network_ip n ip = (case ip of V4 w \<Rightarrow> V4 (network_word n w) | V6 w \<Rightarrow> V6 (network_word n w))"

lemma bit_network_word:
  "bit (network_word n (w :: 'a::len word)) k \<longleftrightarrow> bit w k \<and> LENGTH('a) - min n LENGTH('a) \<le> k"
  by (auto simp: network_word_def bit_simps dest: bit_imp_le_length)

lemma bit_foldl_bytes:
  fixes acc :: "'a::len word" and bs :: bytes
  shows "k < LENGTH('a) \<Longrightarrow>
    bit (foldl (\<lambda>acc b. push_bit 8 acc OR ucast b) acc bs) k \<longleftrightarrow>
    (if k < 8 * length bs then bit (bs ! (length bs - 1 - k div 8)) (k mod 8)
     else bit acc (k - 8 * length bs))"
proof (induction bs arbitrary: acc)
  case Nil
  then show ?case by simp
next
  case (Cons b bs)
  let ?a = "push_bit 8 acc OR ucast b :: 'a word"
  show ?case
  proof (cases "k < 8 * length bs")
    case True
    then have "k div 8 < length bs" by (simp add: less_mult_imp_div_less mult.commute)
    then have "length bs - k div 8 = Suc (length bs - 1 - k div 8)" by simp
    then show ?thesis using True Cons by simp
  next
    case False
    then have "bit (foldl (\<lambda>acc b. push_bit 8 acc OR ucast b) ?a bs) k = bit ?a (k - 8 * length bs)"
      using Cons by simp
    moreover have "bit ?a (k - 8 * length bs) \<longleftrightarrow>
      (if k < 8 * Suc (length bs) then bit b (k - 8 * length bs) else bit acc (k - 8 * Suc (length bs)))"
      using False Cons.prems bit_imp_le_length [of b "k - 8 * length bs"]
      by (auto simp: bit_simps not_less algebra_simps)
    moreover have "k div 8 = length bs \<and> k mod 8 = k - 8 * length bs" if "k < 8 * Suc (length bs)"
    proof -
      from False obtain r where r: "k = r + 8 * length bs" by (metis not_less le_add_diff_inverse2)
      then show ?thesis using that by simp
    qed
    ultimately show ?thesis using False by auto
  qed
qed

lemma bit_be_word:
  "k < LENGTH('a) \<Longrightarrow> LENGTH('a) = 8 * length bs \<Longrightarrow>
   bit (be_word bs :: 'a::len word) k \<longleftrightarrow> bit (bs ! (length bs - 1 - k div 8)) (k mod 8)"
  by (simp add: be_word_def bit_foldl_bytes)

lemma nth_be_bytes: "i < n \<Longrightarrow> be_bytes n w ! i = ucast (drop_bit (8 * (n - 1 - i)) w)"
  by (induction n arbitrary: i) (auto simp: nth_Cons split: nat.splits)

lemma length_truncate_octets: "length (truncate_octets bits octs) = min ((bits + 7) div 8) (length octs)"
  by (simp add: truncate_octets_def Let_def min.commute)

lemma bit_byte_mask: "j < 8 \<Longrightarrow> bit (push_bit (8 - r) 0xFF :: u8) j \<longleftrightarrow> 8 - r \<le> j"
proof -
  assume "j < 8"
  moreover have "(0xFF :: u8) = mask 8" by (simp add: mask_eq_exp_minus_1)
  ultimately show ?thesis by (simp only: bit_push_bit_iff bit_mask_iff) auto
qed

text \<open>Bit \<open>j\<close> of byte \<open>i\<close> is bit \<open>8 i + 7 - j\<close> of the address, counted from its front.\<close>

lemma bit_truncated:
  assumes "i < length octs" and "bits \<le> 8 * length octs" and "j < 8"
  shows "bit (padded (length octs) (truncate_octets bits octs) ! i) j \<longleftrightarrow>
    bit (octs ! i) j \<and> 8 * i + 7 - j < bits"
proof -
  let ?n = "(bits + 7) div 8"
  have n: "?n \<le> length octs" using assms(2) by linarith
  have len: "length (truncate_octets bits octs) = ?n" using n by (simp add: length_truncate_octets)
  consider (out) "?n \<le> i" | (whole) "i < ?n" "Suc i \<noteq> ?n \<or> bits mod 8 = 0"
    | (last) "Suc i = ?n" "bits mod 8 \<noteq> 0" by linarith
  then show ?thesis
  proof cases
    case out
    then have "padded (length octs) (truncate_octets bits octs) ! i = 0"
      using len n assms(1) by (simp add: padded_def nth_append)
    moreover have "\<not> 8 * i + 7 - j < bits" using out assms(3) by linarith
    ultimately show ?thesis by simp
  next
    case whole
    then have "truncate_octets bits octs ! i = octs ! i"
      using n by (auto simp: truncate_octets_def Let_def nth_list_update min_def)
    then have "padded (length octs) (truncate_octets bits octs) ! i = octs ! i"
      using whole len n by (simp add: padded_def nth_append)
    moreover have "8 * i + 7 - j < bits"
    proof (cases "Suc i = ?n")
      case True
      with whole have "bits mod 8 = 0" by simp
      then obtain q where q: "bits = 8 * q" by (metis mod_0_imp_dvd dvdE)
      then have "?n = q" by simp
      with True q show ?thesis by simp
    next
      case False
      then have "Suc (Suc i) \<le> ?n" using whole by simp
      then show ?thesis by linarith
    qed
    ultimately show ?thesis by simp
  next
    case last
    have ne: "take ?n octs \<noteq> []" using last n assms(1) by auto
    have "length (take ?n octs) - 1 = i" using last n by simp
    then have "truncate_octets bits octs ! i = octs ! i AND push_bit (8 - bits mod 8) 0xFF"
      using last n ne by (simp add: truncate_octets_def Let_def last_conv_nth min_def)
    then have "padded (length octs) (truncate_octets bits octs) ! i =
        octs ! i AND push_bit (8 - bits mod 8) 0xFF"
      using last len n by (simp add: padded_def nth_append)
    moreover have "8 - bits mod 8 \<le> j \<longleftrightarrow> 8 * i + 7 - j < bits"
    proof -
      have "0 < bits mod 8" using last by simp
      moreover define q r where "q = bits div 8" and "r = bits mod 8"
      ultimately have q: "bits = 8 * q + r" "0 < r" "r < 8" by simp_all
      then have "(bits + 7) div 8 = q + (r + 7) div 8" by simp
      moreover have "(r + 7) div 8 = 1" using q by auto
      ultimately have "q = i" using last(1) by simp
      then have "bits = 8 * i + bits mod 8" using q r_def by simp
      moreover have "bits mod 8 < 8" by simp
      ultimately show ?thesis using assms(3) by linarith
    qed
    ultimately show ?thesis using assms(3) by (simp only: bit_and_iff bit_byte_mask)
  qed
qed

lemma be_word_truncated:
  fixes w :: "'a::len word"
  assumes "LENGTH('a) = 8 * n"
  shows "be_word (padded n (truncate_octets (min p (8 * n)) (be_bytes n w))) = network_word p w"
proof (rule bit_word_eqI)
  fix k
  assume k: "k < LENGTH('a)"
  let ?bs = "padded n (truncate_octets (min p (8 * n)) (be_bytes n w))"
  let ?i = "n - 1 - k div 8"
  have len: "length ?bs = n" by (simp add: padded_def length_truncate_octets)
  have kd: "k div 8 < n" using k assms by (simp add: less_mult_imp_div_less mult.commute)
  then have i: "?i < n" by simp
  have "bit (be_word ?bs :: 'a word) k \<longleftrightarrow> bit (?bs ! ?i) (k mod 8)"
    using bit_be_word [of k ?bs, where ?'a = 'a] k assms len by simp
  also have "\<dots> \<longleftrightarrow> bit (be_bytes n w ! ?i) (k mod 8) \<and> 8 * ?i + 7 - k mod 8 < min p (8 * n)"
    using bit_truncated [of ?i "be_bytes n w" "min p (8 * n)" "k mod 8"] i by simp
  also have "8 * ?i + 7 - k mod 8 < min p (8 * n) \<longleftrightarrow> 8 * n - min p (8 * n) \<le> k"
  proof -
    have "8 * ?i + 7 - k mod 8 = 8 * n - 1 - k" using kd by (simp add: diff_mult_distrib2)
    then show ?thesis using k assms by auto
  qed
  also have "bit (be_bytes n w ! ?i) (k mod 8) \<longleftrightarrow> bit w k"
    using i kd k by (simp add: nth_be_bytes bit_simps)
  finally show "bit (be_word ?bs :: 'a word) k = bit (network_word p w) k"
    using assms by (simp add: bit_network_word)
qed

lemma be_bytes_be_word:
  assumes "LENGTH('a) = 8 * length bs"
  shows "be_bytes (length bs) (be_word bs :: 'a::len word) = bs"
proof (rule nth_equalityI)
  fix i
  assume "i < length (be_bytes (length bs) (be_word bs :: 'a word))"
  then have i: "i < length bs" by simp
  let ?m = "length bs - Suc i"
  have pos: "8 * ?m + j < LENGTH('a)" if "j < 8" for j
  proof -
    have "8 * Suc ?m \<le> 8 * length bs" using i by (intro mult_le_mono2) simp
    then show ?thesis using that assms by simp
  qed
  have "bit (be_word bs :: 'a word) (8 * ?m + j) = bit (bs ! i) j" if "j < 8" for j
  proof -
    have "(8 * ?m + j) div 8 = ?m" "(8 * ?m + j) mod 8 = j" using that by simp_all
    moreover have "length bs - 1 - ?m = i" using i by simp
    ultimately show ?thesis using bit_be_word [OF pos [OF that] assms] by simp
  qed
  then show "be_bytes (length bs) (be_word bs :: 'a word) ! i = bs ! i"
    using i by (intro bit_word_eqI) (simp add: nth_be_bytes bit_simps add.commute)
qed simp

lemma ecs_address_v4:
  "cs_addr cs = V4 w \<Longrightarrow>
   be_word (padded 4 (ecs_address cs)) = network_word (unat (cs_source_prefix cs)) w"
  using be_word_truncated [of 4 "unat (cs_source_prefix cs)" w]
  by (simp add: ecs_address_def octets_def)

lemma ecs_address_v6:
  "cs_addr cs = V6 w \<Longrightarrow>
   be_word (padded 16 (ecs_address cs)) = network_word (unat (cs_source_prefix cs)) w"
  using be_word_truncated [of 16 "unat (cs_source_prefix cs)" w]
  by (simp add: ecs_address_def octets_def)

lemma length_ecs_address: "length (ecs_address cs) \<le> 16"
  by (auto simp: ecs_address_def length_truncate_octets length_octets Let_def)

section \<open>Records read back\<close>

definition announced :: "client_subnet \<Rightarrow> client_subnet" where
  "announced cs = cs\<lparr>cs_addr := network_ip (unat (cs_source_prefix cs)) (cs_addr cs)\<rparr>"

definition ecs_option :: "client_subnet \<Rightarrow> bytes" where
  "ecs_option cs =
    u16_be (if is_ipv4 (cs_addr cs) then 1 else 2) @ [cs_source_prefix cs, cs_scope_prefix cs] @ ecs_address cs"

lemma encode_ecs_rdata_option:
  "encode_ecs_rdata cs = u16_be 8 @ u16_be (word_of_nat (length (ecs_option cs))) @ ecs_option cs"
  by (simp add: encode_ecs_rdata_def ecs_option_def ECS_OPTION_CODE_def Let_def)

lemma parse_ecs_option_encoded: "parse_ecs_option (ecs_option cs) = Some (announced cs)"
proof (cases "cs_addr cs")
  case (V4 w)
  then show ?thesis
    using ecs_address_v4 [OF V4]
    by (cases cs) (simp add: parse_ecs_option_def ecs_option_def is_ipv4_def be_bytes_2 u16_from_def
      be_word_def announced_def network_ip_def)
next
  case (V6 w)
  then show ?thesis
    using ecs_address_v6 [OF V6]
    by (cases cs) (simp add: parse_ecs_option_def ecs_option_def is_ipv4_def be_bytes_2 u16_from_def
      be_word_def announced_def network_ip_def)
qed

lemma parse_options_encoded:
  "parse_options (encode_ecs_rdata cs) 0 None = Some (announced cs)"
proof -
  let ?r = "encode_ecs_rdata cs" and ?n = "length (ecs_option cs)"
  have n: "unat (word_of_nat ?n :: u16) = ?n"
    using length_ecs_address [of cs] by (intro of_nat_u16_bytes) (simp add: ecs_option_def)
  have bytes: "?r ! 0 = ucast (drop_bit 8 (8 :: u16))" "?r ! 1 = ucast (8 :: u16)"
    "?r ! 2 = ucast (drop_bit 8 (word_of_nat ?n :: u16))" "?r ! 3 = ucast (word_of_nat ?n :: u16)"
    unfolding encode_ecs_rdata_option be_bytes_2 by simp_all
  have len: "length ?r = 4 + ?n" "take ?n (drop 4 ?r) = ecs_option cs"
    by (simp_all add: encode_ecs_rdata_option)
  have "parse_options ?r 0 None = parse_options ?r (4 + ?n) (Some (announced cs))"
    by (subst parse_options.simps)
      (simp only: Let_def add_0 bytes u16_from_split n len ECS_OPTION_CODE_def
        parse_ecs_option_encoded le_add1 less_irrefl if_True if_False simp_thms)
  also have "\<dots> = Some (announced cs)"
    by (subst parse_options.simps) (simp add: len)
  finally show ?thesis .
qed

lemma parse_options_Nil: "parse_options [] 0 s = s"
  by (subst parse_options.simps) simp

section \<open>Theorems\<close>

text \<open>
  An OPT record reads back as it was meant: the payload size, the DO bit, and the client subnet
  with its address cut to the source prefix. Bytes behind the record do not matter.
\<close>

theorem opt_rr_roundtrip:
  "parse_opt_rr (encode_opt_rr subnet udpsize dnssec @ rest) =
     Some (udpsize, dnssec, map_option announced subnet)"
proof -
  define rdata where "rdata = (case subnet of None \<Rightarrow> [] | Some cs \<Rightarrow> encode_ecs_rdata cs)"
  define ttl :: u32 where "ttl = (if dnssec then 0x8000 else 0)"
  let ?n = "word_of_nat (length rdata) :: u16"
  let ?t = "encode_opt_rr subnet udpsize dnssec @ rest"
  have t: "?t = [0] @ u16_be 41 @ u16_be udpsize @ u32_be ttl @ u16_be ?n @ rdata @ rest"
    by (simp add: encode_opt_rr_def rdata_def ttl_def TYPE_OPT_def Let_def)
  have "length rdata < 65536"
    by (auto simp: rdata_def encode_ecs_rdata_option ecs_option_def
      split: option.splits intro: le_less_trans [OF length_ecs_address])
  then have n: "unat ?n = length rdata" by (simp add: of_nat_u16_bytes)
  have bytes: "?t ! 0 = 0" "?t ! 1 = ucast (drop_bit 8 (41 :: u16))" "?t ! 2 = ucast (41 :: u16)"
    "?t ! 3 = ucast (drop_bit 8 udpsize)" "?t ! 4 = ucast udpsize"
    "?t ! 5 = ucast (drop_bit 24 ttl)" "?t ! 6 = ucast (drop_bit 16 ttl)"
    "?t ! 7 = ucast (drop_bit 8 ttl)" "?t ! 8 = ucast ttl"
    "?t ! 9 = ucast (drop_bit 8 ?n)" "?t ! 10 = ucast ?n"
    unfolding t be_bytes_2 be_bytes_4 by simp_all
  have len: "length ?t = 11 + length rdata + length rest" "drop 11 ?t = rdata @ rest"
    unfolding t be_bytes_2 be_bytes_4 by simp_all
  have "(ttl AND 0x8000 \<noteq> 0) = dnssec" by (simp add: ttl_def)
  moreover have "parse_options rdata 0 None = map_option announced subnet"
    by (simp add: rdata_def parse_options_Nil parse_options_encoded split: option.splits)
  ultimately show ?thesis
    unfolding parse_opt_rr_def Let_def bytes u16_from_split u32_from_split n len TYPE_OPT_def by simp
qed

lemma truncate_octets_network:
  fixes w :: "'a::len word"
  assumes "LENGTH('a) = 8 * n"
  shows "truncate_octets (min p (8 * n)) (be_bytes n w) =
    take ((min p (8 * n) + 7) div 8) (be_bytes n (network_word p w))"
proof -
  let ?t = "truncate_octets (min p (8 * n)) (be_bytes n w)"
  have l: "length ?t = (min p (8 * n) + 7) div 8"
    by (simp add: length_truncate_octets)
  have pl: "length (padded n ?t) = n" by (simp add: padded_def length_truncate_octets)
  have "be_bytes n (network_word p w) = padded n ?t"
    using be_bytes_be_word [of "padded n ?t", where ?'a = 'a] be_word_truncated [OF assms, of p w] assms pl
    by simp
  then show ?thesis using l by (simp add: padded_def length_truncate_octets)
qed

lemma ecs_address_network:
  "ecs_address cs = take ((min (unat (cs_source_prefix cs)) (length (octets (cs_addr cs)) * 8) + 7) div 8)
     (octets (network_ip (unat (cs_source_prefix cs)) (cs_addr cs)))"
  using truncate_octets_network [of 4 "unat (cs_source_prefix cs)", where ?'a = 32]
    truncate_octets_network [of 16 "unat (cs_source_prefix cs)", where ?'a = 128]
  by (cases "cs_addr cs") (simp_all add: ecs_address_def network_ip_def octets_def)


text \<open>
  The option reveals nothing beyond the source prefix: two clients in the same network of that
  length send byte for byte the same option.
\<close>

theorem ecs_hides_host:
  assumes "network_ip (unat p) a = network_ip (unat p) b"
  shows "encode_ecs_rdata \<lparr>cs_addr = a, cs_source_prefix = p, cs_scope_prefix = sc\<rparr> =
    encode_ecs_rdata \<lparr>cs_addr = b, cs_source_prefix = p, cs_scope_prefix = sc\<rparr>"
proof -
  have "is_ipv4 a = is_ipv4 b" and "length (octets a) = length (octets b)"
    using assms by (auto simp: network_ip_def is_ipv4_def length_octets split: ip_addr.splits)
  then show ?thesis
    using assms by (simp add: encode_ecs_rdata_def ecs_address_network)
qed

theorem ecs_hides_host_witness:
  "encode_ecs_rdata \<lparr>cs_addr = V4 0xC0A80102, cs_source_prefix = 20, cs_scope_prefix = 0\<rparr> =
   encode_ecs_rdata \<lparr>cs_addr = V4 0xC0A80F03, cs_source_prefix = 20, cs_scope_prefix = 0\<rparr>"
  by (rule ecs_hides_host) (simp add: network_ip_def network_word_def mask_eq_exp_minus_1)

text \<open>
  A query with the OPT record appended is still a well-formed message: it parses to the same
  question, and the one record it carries is the OPT record, whose rdata gives back the subnet.
\<close>

theorem append_opt_parses:
  assumes "dns_name_ok name"
  shows "\<exists>msg rr. parse (append_to_query (build_query qid name qtype) subnet) = Inr msg \<and>
    dm_id msg = qid \<and> dm_questions msg = [\<lparr>q_name = to_lower name, q_type = qtype, q_class = 1\<rparr>] \<and>
    dm_answers msg = [rr] \<and> rr_type rr = TYPE_OPT \<and> rr_class rr = DEFAULT_PAYLOAD_SIZE \<and>
    parse_options (rr_rdata rr) 0 None = map_option announced subnet"
proof -
  let ?q = "\<lparr>q_name = name, q_type = qtype, q_class = 1\<rparr>"
  let ?rd = "case subnet of None \<Rightarrow> [] | Some cs \<Rightarrow> encode_ecs_rdata cs"
  let ?opt = "encode_opt_rr subnet DEFAULT_PAYLOAD_SIZE False"
  let ?h = "u16_be qid @ u16_be 0x0100 @ u16_be 1 @ u16_be 0 @ u16_be 0 @ u16_be 1"
  let ?raw = "?h @ concat (map written_question [?q]) @ ?opt"
  let ?off = "12 + length (written_question ?q)"
  have bq: "build_query qid name qtype =
      (u16_be qid @ u16_be 0x0100 @ u16_be 1 @ u16_be 0 @ u16_be 0) @ u16_be 0 @ written_question ?q"
    using write_name_append [of "u16_be qid @ u16_be 0x0100 @ u16_be 1 @ u16_be 0 @ u16_be 0 @ u16_be 0" name]
    by (simp add: build_query_def written_question_def)
  have raw: "append_to_query (build_query qid name qtype) subnet = ?raw"
    unfolding append_to_query_def bq be_bytes_2 by (simp add: u16_from_def be_word_def Let_def)
  have pq: "parse_questions (Suc 0) ?raw 12 = Inr ([question_lower ?q], ?off)"
    using parse_questions_written [of "[?q]" ?h 12 ?opt] assms by (simp del: parse_questions.simps)
  have opt: "?opt = [0] @ (u16_be TYPE_OPT @ u16_be DEFAULT_PAYLOAD_SIZE @ u32_be 0 @
      u16_be (word_of_nat (length ?rd)) @ ?rd) @ []"
    by (simp add: encode_opt_rr_def Let_def)
  have rd: "length ?rd < 65536"
    by (auto simp: encode_ecs_rdata_option ecs_option_def
      split: option.splits intro: le_less_trans [OF length_ecs_address])
  have "name_at ?raw ?off 0 [] 1"
    using opt by (intro name_root) (simp_all add: nth_append)
  then have "read_name ?raw ?off = Inr ([], 1)"
    by (auto simp: read_name_iff intro!: exI [of _ 0] exI [of _ "[]"])
  from parse_records_step [OF this rd, of "?h @ written_question ?q @ [0]" TYPE_OPT DEFAULT_PAYLOAD_SIZE 0 "[]" 0]
  have pr: "parse_records (Suc 0) ?raw ?off =
      Inr ([\<lparr>rr_name = [], rr_type = TYPE_OPT, rr_class = DEFAULT_PAYLOAD_SIZE, rr_ttl = 0, rr_rdata = ?rd\<rparr>],
        ?off + 1 + 10 + length ?rd)"
    using opt by simp
  have hdr: "?raw = u16_be qid @ u16_be 0x0100 @ u16_be 1 @ u16_be 0 @ u16_be 0 @ u16_be 1 @
      concat (map written_question [?q]) @ ?opt" by simp
  have po: "parse_options ?rd 0 None = map_option announced subnet"
    by (simp add: parse_options_Nil parse_options_encoded split: option.splits)
  have n: "unat (1 :: u16) = Suc 0" "unat (0 + 0 + 1 :: u16) = Suc 0" by simp_all
  show ?thesis
    unfolding raw parse_header [OF hdr] n pq pr rbind_simps prod.case
    by (simp add: question_lower_def po)
qed

theorem append_opt_parses_witness:
  "\<exists>msg. parse (append_to_query (build_query 7 ''a.b'' 1) None) = Inr msg \<and> dm_id msg = 7 \<and>
     map rr_type (dm_answers msg) = [41]"
proof -
  have "dns_name_ok ''a.b''"
    by (simp add: dns_name_ok_def label_ok_def text_eval)
  from append_opt_parses [OF this, of 7 1 None] show ?thesis by (auto simp: TYPE_OPT_def)
qed

end
