(* ===== verification/Addr.thy ===== *)
theory Addr
  imports Rust_Net
begin

text \<open>
  The addressing model shared by every protocol (src/engine/src/addr.rs): hosts, network
  targets, the domain format guard, and the two wire forms of a target, the SOCKS form
  (\<open>ATYP | addr | port\<close>) and the port-first form of sing-vmess (\<open>port | atyp | addr\<close>).
  Both forms satisfy the codec contract of the prelude.
\<close>

section \<open>Hosts and targets\<close>

datatype atyp = AtypIpv4 | AtypDomain | AtypIpv6

definition atyp_byte :: "atyp \<Rightarrow> u8" where
  "atyp_byte a = (case a of AtypIpv4 \<Rightarrow> 0x01 | AtypDomain \<Rightarrow> 0x03 | AtypIpv6 \<Rightarrow> 0x04)"

definition atyp_from_u8 :: "u8 \<Rightarrow> atyp option" where
  "atyp_from_u8 v =
    (if v = 0x01 then Some AtypIpv4
     else if v = 0x03 then Some AtypDomain
     else if v = 0x04 then Some AtypIpv6
     else None)"

datatype host = Domain string | Ip ip_addr

record net_addr =
  na_host :: host
  na_port :: u16

definition net_addr_new :: "host \<Rightarrow> u16 \<Rightarrow> net_addr" where
  "net_addr_new h p = \<lparr>na_host = h, na_port = p\<rparr>"

definition as_domain :: "host \<Rightarrow> string option" where
  "as_domain h = (case h of Domain d \<Rightarrow> Some d | Ip _ \<Rightarrow> None)"

definition host_text :: "host \<Rightarrow> string" where
  "host_text h = (case h of Domain d \<Rightarrow> d | Ip ip \<Rightarrow> show_ip ip)"

definition net_addr_text :: "net_addr \<Rightarrow> string" where
  "net_addr_text a =
    (case na_host a of
       Domain d \<Rightarrow> d @ '':'' @ show_nat (unat (na_port a))
     | Ip (V4 v4) \<Rightarrow> show_ipv4 v4 @ '':'' @ show_nat (unat (na_port a))
     | Ip (V6 v6) \<Rightarrow> ''['' @ show_ipv6 v6 @ '']:'' @ show_nat (unat (na_port a)))"

definition domain_char_ok :: "char \<Rightarrow> bool" where
  "domain_char_ok c = (is_alnum c \<or> c = CHR ''-'' \<or> c = CHR ''.'' \<or> c = CHR ''_'')"

definition validate_domain :: "string \<Rightarrow> unit result" where
  "validate_domain s =
    (if 253 < length s \<or> s = [] then Inl (Protocol ''domain length out of range'')
     else if list_ex (\<lambda>label. label = []) (split_on CHR ''.'' s)
       then Inl (Protocol ''empty label in domain'')
     else if \<not> list_all domain_char_ok s then Inl (Protocol ''invalid domain charset'')
     else Inr ())"

definition host_parse :: "string \<Rightarrow> host result" where
  "host_parse s0 =
    (let s = trim s0 in
     if s = [] then Inl (Protocol ''empty host'')
     else case parse_ip s of
       Some ip \<Rightarrow> Inr (Ip ip)
     | None \<Rightarrow> rbind (validate_domain s) (\<lambda>_. Inr (Domain (to_lower s))))"

definition net_addr_domain :: "string \<Rightarrow> u16 \<Rightarrow> net_addr result" where
  "net_addr_domain name port = rbind (host_parse name) (\<lambda>h. Inr (net_addr_new h port))"

section \<open>Wire forms\<close>

definition encode_port_first_addr :: "bytes \<Rightarrow> host \<Rightarrow> u16 \<Rightarrow> bytes" where
  "encode_port_first_addr buf h port =
    (let buf = buf @ u16_be port in
     case h of
       Domain d \<Rightarrow>
         (let len = min (length d) 255 in
          buf @ [0x02] @ [word_of_nat len] @ take len (as_bytes d))
     | Ip (V4 v4) \<Rightarrow> buf @ [0x01] @ u32_be v4
     | Ip (V6 v6) \<Rightarrow> buf @ [0x03] @ u128_be v6)"

text \<open>
  The address behind the type byte \<open>data[2]\<close>: the host and the bytes it takes, type byte
  included.
\<close>

definition decode_port_first_host :: "bytes \<Rightarrow> (host \<times> nat) result" where
  "decode_port_first_host data =
    (let t = data ! 2 in
     if t = 0x01 then
       (case slice_range data 3 7 of
          None \<Rightarrow> Inl (Protocol ''port-first addr: short ipv4'')
        | Some b \<Rightarrow> Inr (Ip (V4 (u32_from (b ! 0) (b ! 1) (b ! 2) (b ! 3))), 5))
     else if t = 0x02 then
       (case slice_get data 3 of
          None \<Rightarrow> Inl (Protocol ''port-first addr: short domain len'')
        | Some l \<Rightarrow>
          (case slice_range data 4 (4 + unat l) of
             None \<Rightarrow> Inl (Protocol ''port-first addr: short domain'')
           | Some b \<Rightarrow>
             (case from_utf8 b of
                None \<Rightarrow> Inl (Protocol ''port-first addr: bad utf-8'')
              | Some s \<Rightarrow> Inr (Domain (to_lower s), 2 + unat l))))
     else if t = 0x03 then
       (case slice_range data 3 19 of
          None \<Rightarrow> Inl (Protocol ''port-first addr: short ipv6'')
        | Some b \<Rightarrow> Inr (Ip (V6 (be_word b)), 17))
     else Inl (Protocol ''port-first addr: bad atyp''))"

definition decode_port_first_addr :: "bytes \<Rightarrow> (net_addr \<times> nat) result" where
  "decode_port_first_addr data =
    (if length data < 3 then Inl (Protocol ''port-first addr: short'')
     else
       let port = u16_from (data ! 0) (data ! 1) in
       rbind (decode_port_first_host data)
         (\<lambda>(h, used). Inr (net_addr_new h port, 2 + used)))"

definition encode_socks_addr :: "bytes \<Rightarrow> host \<Rightarrow> u16 \<Rightarrow> bytes" where
  "encode_socks_addr buf h port =
    (case h of
       Domain d \<Rightarrow>
         (let len = min (length d) 255 in
          buf @ [atyp_byte AtypDomain] @ [word_of_nat len] @ take len (as_bytes d))
     | Ip (V4 v4) \<Rightarrow> buf @ [atyp_byte AtypIpv4] @ u32_be v4
     | Ip (V6 v6) \<Rightarrow> buf @ [atyp_byte AtypIpv6] @ u128_be v6) @ u16_be port"

text \<open>The address of type \<open>a\<close> behind \<open>data[0]\<close>: the host and the offset just after it.\<close>

definition decode_socks_host :: "bytes \<Rightarrow> atyp \<Rightarrow> (host \<times> nat) result" where
  "decode_socks_host data a =
    (case a of
       AtypIpv4 \<Rightarrow>
         (case slice_range data 1 (1 + 4) of
            None \<Rightarrow> Inl (Protocol ''socks addr: short ipv4'')
          | Some b \<Rightarrow> Inr (Ip (V4 (u32_from (b ! 0) (b ! 1) (b ! 2) (b ! 3))), 5))
     | AtypIpv6 \<Rightarrow>
         (case slice_range data 1 (1 + 16) of
            None \<Rightarrow> Inl (Protocol ''socks addr: short ipv6'')
          | Some b \<Rightarrow> Inr (Ip (V6 (be_word b)), 17))
     | AtypDomain \<Rightarrow>
         (case slice_get data 1 of
            None \<Rightarrow> Inl (Protocol ''socks addr: short domain length'')
          | Some l \<Rightarrow>
            (case slice_range data 2 (2 + unat l) of
               None \<Rightarrow> Inl (Protocol ''socks addr: short domain'')
             | Some b \<Rightarrow>
               (case from_utf8 b of
                  None \<Rightarrow> Inl (Protocol ''socks addr: domain not utf-8'')
                | Some s \<Rightarrow> Inr (Domain (to_lower s), 2 + unat l)))))"

definition decode_socks_addr :: "bytes \<Rightarrow> (net_addr \<times> nat) result" where
  "decode_socks_addr data =
    rbind (ok_or (slice_get data 0) (Protocol ''socks addr: empty'')) (\<lambda>b0.
    rbind (ok_or (atyp_from_u8 b0) (Protocol ''socks addr: bad atyp'')) (\<lambda>a.
    rbind (decode_socks_host data a) (\<lambda>(h, off).
    rbind (ok_or (slice_range data off (off + 2)) (Protocol ''socks addr: short port'')) (\<lambda>p.
    Inr (net_addr_new h (u16_from (p ! 0) (p ! 1)), off + 2)))))"

section \<open>Hosts the engine puts on the wire\<close>

text \<open>
  A host fits the wire when its name is well-formed UTF-8, already lower case and at most 255
  bytes long. Everything \<open>host_parse\<close> accepts is such a host.
\<close>

definition wire_host :: "host \<Rightarrow> bool" where
  "wire_host h =
    (case h of
       Domain d \<Rightarrow> length d \<le> 255 \<and> utf8_valid (as_bytes d) \<and> to_lower d = d
     | Ip _ \<Rightarrow> True)"

definition wire_addr :: "net_addr \<Rightarrow> bool" where
  "wire_addr a = wire_host (na_host a)"

lemma domain_char_ok_ascii: "domain_char_ok c \<Longrightarrow> is_ascii c"
  by (auto simp: domain_char_ok_def is_alnum_def is_digit_def is_upper_def is_lower_def is_ascii_def)

lemma domain_char_ok_lower: "domain_char_ok c \<Longrightarrow> domain_char_ok (lower_char c)"
  by (auto simp: domain_char_ok_def lower_char_def [of "CHR ''-''"] lower_char_def [of "CHR ''.''"]
    lower_char_def [of "CHR ''_''"] is_upper_def)

lemma validate_domain_ok_iff:
  "validate_domain s = Inr u \<longleftrightarrow>
     s \<noteq> [] \<and> length s \<le> 253 \<and> [] \<notin> set (split_on CHR ''.'' s) \<and> list_all domain_char_ok s"
  by (auto simp: validate_domain_def list_ex_iff)

lemma host_parse_domain:
  assumes "host_parse s = Inr (Domain d)"
  shows "d = to_lower (trim s) \<and> validate_domain (trim s) = Inr () \<and> parse_ip (trim s) = None"
  using assms
  by (auto simp: host_parse_def Let_def rbind_Inr_iff split: if_splits option.splits)

lemma validated_wire_host: "validate_domain s = Inr () \<Longrightarrow> wire_host (Domain (to_lower s))"
proof -
  assume "validate_domain s = Inr ()"
  then have len: "length s \<le> 253" and ch: "list_all domain_char_ok s"
    by (simp_all add: validate_domain_ok_iff)
  have "list_all is_ascii (to_lower s)"
    using ch domain_char_ok_lower domain_char_ok_ascii by (auto simp: list_all_iff to_lower_def)
  then have "utf8_valid (as_bytes (to_lower s))" by (rule utf8_valid_ascii)
  with len show ?thesis by (simp add: wire_host_def)
qed

lemma host_parse_wire: "host_parse s = Inr h \<Longrightarrow> wire_host h"
proof (cases h)
  case (Domain d)
  assume "host_parse s = Inr h"
  with Domain show ?thesis using host_parse_domain validated_wire_host by metis
qed (simp add: wire_host_def)

section \<open>The codec contract\<close>

abbreviation enc_socks :: "net_addr \<Rightarrow> bytes" where
  "enc_socks a \<equiv> encode_socks_addr [] (na_host a) (na_port a)"

abbreviation enc_port_first :: "net_addr \<Rightarrow> bytes" where
  "enc_port_first a \<equiv> encode_port_first_addr [] (na_host a) (na_port a)"

lemma encode_socks_addr_append: "encode_socks_addr buf h p = buf @ encode_socks_addr [] h p"
  by (auto simp: encode_socks_addr_def Let_def split: host.split ip_addr.split)

lemma encode_port_first_append: "encode_port_first_addr buf h p = buf @ encode_port_first_addr [] h p"
  by (auto simp: encode_port_first_addr_def Let_def split: host.split ip_addr.split)

lemma net_addr_new_id [simp]: "net_addr_new (na_host a) (na_port a) = a"
  by (simp add: net_addr_new_def)

lemma u32_from_be_nth:
  "u32_from (u32_be w ! 0) (u32_be w ! Suc 0) (u32_be w ! 2) (u32_be w ! 3) = w"
  by (simp add: be_bytes_4 u32_from_split numeral_2_eq_2 numeral_3_eq_3)

lemma unat_of_nat_u8: "n \<le> 255 \<Longrightarrow> unat (word_of_nat n :: u8) = n"
  by (simp add: unat_of_nat)

lemmas codec_unfold =
  encode_socks_addr_def decode_socks_addr_def decode_socks_host_def atyp_byte_def atyp_from_u8_def
  encode_port_first_addr_def decode_port_first_addr_def decode_port_first_host_def
  slice_get_def slice_range_def be_bytes_2 be_bytes_4 u16_from_split u32_from_split

lemma wire_domain:
  "wire_host (Domain d) \<Longrightarrow> length d \<le> 255"
  "wire_host (Domain d) \<Longrightarrow> from_utf8 (as_bytes d) = Some d"
  "wire_host (Domain d) \<Longrightarrow> to_lower d = d"
  by (simp_all add: wire_host_def from_utf8_def)

lemma decode_socks_domain:
  assumes "wire_host (Domain d)"
  shows "decode_socks_addr (encode_socks_addr [] (Domain d) p @ rest) =
    Inr (net_addr_new (Domain d) p, length d + 4)"
  using wire_domain [OF assms] by (simp add: codec_unfold unat_of_nat_u8)

lemma decode_socks_v4:
  "decode_socks_addr (encode_socks_addr [] (Ip (V4 w)) p @ rest) = Inr (net_addr_new (Ip (V4 w)) p, 7)"
  by (simp add: codec_unfold)

lemma decode_socks_v6:
  "decode_socks_addr (encode_socks_addr [] (Ip (V6 w)) p @ rest) = Inr (net_addr_new (Ip (V6 w)) p, 19)"
  by (simp add: codec_unfold be_word_be_bytes)

lemma decode_socks_encode:
  assumes "wire_addr a"
  shows "decode_socks_addr (enc_socks a @ rest) = Inr (a, length (enc_socks a))"
proof (cases "na_host a")
  case (Domain d)
  with assms have "wire_host (Domain d)" by (simp add: wire_addr_def)
  moreover from this have "length d \<le> 255" by (simp add: wire_host_def)
  ultimately show ?thesis
    using Domain decode_socks_domain [of d "na_port a" rest] net_addr_new_id [of a]
    by (simp add: encode_socks_addr_def)
next
  case (Ip ip)
  then show ?thesis
    using decode_socks_v4 [of _ "na_port a" rest] decode_socks_v6 [of _ "na_port a" rest]
      net_addr_new_id [of a]
    by (cases ip) (simp_all add: encode_socks_addr_def)
qed

lemma decode_socks_host_bounds:
  "decode_socks_host bs a = Inr (h, off) \<Longrightarrow> 2 \<le> off \<and> off \<le> length bs"
  by (auto simp: decode_socks_host_def slice_range_Some_iff split: atyp.splits option.splits)

lemma decode_socks_host_stable:
  assumes "decode_socks_host bs a = Inr (h, off)" and "off \<le> n" and "n \<le> length bs"
  shows "decode_socks_host (take n bs @ post) a = Inr (h, off)"
proof -
  have "2 \<le> n" using decode_socks_host_bounds [OF assms(1)] assms(2) by simp
  then show ?thesis
    using assms
    by (cases a)
      (auto simp: decode_socks_host_def slice_get_stable slice_range_stable split: option.splits)
qed

lemma decode_socks_Inr_iff:
  "decode_socks_addr bs = Inr (x, n) \<longleftrightarrow>
    (\<exists>b0 a h off p. slice_get bs 0 = Some b0 \<and> atyp_from_u8 b0 = Some a \<and>
       decode_socks_host bs a = Inr (h, off) \<and> slice_range bs off (off + 2) = Some p \<and>
       x = net_addr_new h (u16_from (p ! 0) (p ! 1)) \<and> n = off + 2)"
  by (auto simp: decode_socks_addr_def rbind_Inr_iff)

lemma decode_socks_consumed: "decode_socks_addr bs = Inr (x, n) \<Longrightarrow> n \<le> length bs"
  by (auto simp: decode_socks_Inr_iff slice_range_Some_iff)

lemma decode_socks_stable:
  assumes "decode_socks_addr bs = Inr (x, n)"
  shows "decode_socks_addr (take n bs @ post) = Inr (x, n)"
proof -
  have n: "n \<le> length bs" using assms by (rule decode_socks_consumed)
  from assms obtain b0 a h off p where d: "slice_get bs 0 = Some b0" "atyp_from_u8 b0 = Some a"
    "decode_socks_host bs a = Inr (h, off)" "slice_range bs off (off + 2) = Some p"
    "x = net_addr_new h (u16_from (p ! 0) (p ! 1))" "n = off + 2"
    by (auto simp: decode_socks_Inr_iff)
  have "decode_socks_host (take n bs @ post) a = Inr (h, off)"
    using decode_socks_host_stable [OF d(3) _ n] d(6) by simp
  with d n show ?thesis
    by (auto simp: decode_socks_Inr_iff slice_get_stable slice_range_stable)
qed

interpretation socks_codec: prefix_codec enc_socks decode_socks_addr wire_addr
proof (unfold_locales, goal_cases)
  case 1
  then show ?case by (rule decode_socks_encode)
next
  case 2
  then show ?case by (rule decode_socks_consumed)
next
  case 3
  then show ?case by (rule decode_socks_stable)
qed

lemma decode_port_first_domain:
  assumes "wire_host (Domain d)"
  shows "decode_port_first_addr (encode_port_first_addr [] (Domain d) p @ rest) =
    Inr (net_addr_new (Domain d) p, length d + 4)"
  using wire_domain [OF assms] by (simp add: codec_unfold unat_of_nat_u8)

lemma decode_port_first_v4:
  "decode_port_first_addr (encode_port_first_addr [] (Ip (V4 w)) p @ rest) =
    Inr (net_addr_new (Ip (V4 w)) p, 7)"
  by (simp add: codec_unfold)

lemma decode_port_first_v6:
  "decode_port_first_addr (encode_port_first_addr [] (Ip (V6 w)) p @ rest) =
    Inr (net_addr_new (Ip (V6 w)) p, 19)"
  by (simp add: codec_unfold be_word_be_bytes)

lemma decode_port_first_encode:
  assumes "wire_addr a"
  shows "decode_port_first_addr (enc_port_first a @ rest) = Inr (a, length (enc_port_first a))"
proof (cases "na_host a")
  case (Domain d)
  with assms have w: "wire_host (Domain d)" by (simp add: wire_addr_def)
  show ?thesis
    using Domain decode_port_first_domain [OF w, of "na_port a" rest] net_addr_new_id [of a]
      wire_domain(1) [OF w]
    by (simp add: encode_port_first_addr_def)
next
  case (Ip ip)
  then show ?thesis
    using decode_port_first_v4 [of _ "na_port a" rest] decode_port_first_v6 [of _ "na_port a" rest]
      net_addr_new_id [of a]
    by (cases ip) (simp_all add: encode_port_first_addr_def)
qed

lemma decode_port_first_host_bounds:
  "decode_port_first_host bs = Inr (h, used) \<Longrightarrow> 2 \<le> used \<and> used + 2 \<le> length bs"
  by (auto simp: decode_port_first_host_def Let_def slice_range_Some_iff
      split: if_splits option.splits)

lemma decode_port_first_host_stable:
  assumes "decode_port_first_host bs = Inr (h, used)" and "used + 2 \<le> n" and "n \<le> length bs"
  shows "decode_port_first_host (take n bs @ post) = Inr (h, used)"
proof -
  have "4 \<le> n" using decode_port_first_host_bounds [OF assms(1)] assms(2) by simp
  then have "(take n bs @ post) ! 2 = bs ! 2" using assms(3) by (simp add: nth_append)
  with \<open>4 \<le> n\<close> assms show ?thesis
    by (auto simp: decode_port_first_host_def Let_def slice_get_stable slice_range_stable
        split: option.splits if_splits)
qed

interpretation port_first_codec: prefix_codec enc_port_first decode_port_first_addr wire_addr
proof (unfold_locales, goal_cases)
  case 1
  then show ?case by (rule decode_port_first_encode)
next
  case (2 bs x n)
  then show ?case
    by (auto simp: decode_port_first_addr_def Let_def rbind_Inr_iff
        dest: decode_port_first_host_bounds split: if_splits)
next
  case (3 bs x n post)
  then obtain h used where d: "\<not> length bs < 3" "decode_port_first_host bs = Inr (h, used)"
    "x = net_addr_new h (u16_from (bs ! 0) (bs ! 1))" "n = 2 + used"
    by (auto simp: decode_port_first_addr_def Let_def rbind_Inr_iff split: if_splits)
  have b: "2 \<le> used" "used + 2 \<le> length bs" using decode_port_first_host_bounds [OF d(2)] by auto
  have "decode_port_first_host (take n bs @ post) = Inr (h, used)"
    using decode_port_first_host_stable [OF d(2)] d(4) b by simp
  with d b show ?case
    by (simp add: decode_port_first_addr_def Let_def nth_append)
qed

section \<open>Properties\<close>

text \<open>
  The SOCKS address codec round-trips. Encoding a host that fits the wire and decoding the
  bytes, with anything behind them, returns the same host and port and consumes exactly the
  encoding.
\<close>

theorem socks_addr_roundtrip:
  assumes "wire_host h"
  shows "decode_socks_addr (encode_socks_addr [] h p @ rest) =
    Inr (net_addr_new h p, length (encode_socks_addr [] h p))"
  using socks_codec.roundtrip [of "net_addr_new h p" rest] assms
  by (simp add: wire_addr_def net_addr_new_def)

theorem socks_addr_roundtrip_witness:
  "wire_host (Domain ''a.b'') \<and>
   decode_socks_addr (encode_socks_addr [] (Domain ''a.b'') 443 @ [1, 2]) =
     Inr (net_addr_new (Domain ''a.b'') 443, length (encode_socks_addr [] (Domain ''a.b'') 443))"
proof -
  have w: "wire_host (Domain ''a.b'')" by (simp add: wire_host_def text_eval)
  show ?thesis using w socks_addr_roundtrip [OF w, of 443 "[1, 2]"] by simp
qed

text \<open>
  Every proper prefix of an encoded SOCKS address is refused, so a reader never mistakes a
  partly received address for a complete one.
\<close>

theorem socks_addr_truncated:
  assumes "wire_host h" and "n < length (encode_socks_addr [] h p)"
  shows "\<not> is_ok (decode_socks_addr (take n (encode_socks_addr [] h p)))"
  using socks_codec.truncated_refused [of "net_addr_new h p" n] assms
  by (auto simp: wire_addr_def net_addr_new_def)

theorem socks_addr_truncated_witness:
  "\<not> is_ok (decode_socks_addr (take 6 (encode_socks_addr [] (Ip (V4 0x7F000001)) 8080)))"
proof -
  have l: "6 < length (encode_socks_addr [] (Ip (V4 0x7F000001)) 8080)"
    by (simp add: encode_socks_addr_def)
  show ?thesis by (rule socks_addr_truncated [OF _ l]) (simp add: wire_host_def)
qed

text \<open>
  Every host that \<open>Host::parse\<close> accepts survives the wire: encoding it in either form
  and decoding gives the same target back. Domains come out validated, lower case and at most 253
  bytes, so the defensive clamp of the encoders never cuts one.
\<close>

theorem parsed_host_survives_wire:
  assumes "host_parse s = Inr h"
  shows "decode_socks_addr (encode_socks_addr [] h p @ rest) =
      Inr (net_addr_new h p, length (encode_socks_addr [] h p)) \<and>
    decode_port_first_addr (encode_port_first_addr [] h p @ rest) =
      Inr (net_addr_new h p, length (encode_port_first_addr [] h p))"
  using socks_codec.roundtrip [of "net_addr_new h p" rest]
    port_first_codec.roundtrip [of "net_addr_new h p" rest] host_parse_wire [OF assms]
  by (simp add: wire_addr_def net_addr_new_def)

theorem parsed_host_survives_wire_witness:
  "host_parse ''A-1'' = Inr (Domain ''a-1'') \<and>
   decode_port_first_addr (encode_port_first_addr [] (Domain ''a-1'') 80 @ []) =
     Inr (net_addr_new (Domain ''a-1'') 80, length (encode_port_first_addr [] (Domain ''a-1'') 80))"
proof -
  have "parse_ip ''A-1'' = None"
    by (simp add: ip_eval text_eval)
  then have h: "host_parse ''A-1'' = Inr (Domain ''a-1'')"
    by (simp add: host_parse_def validate_domain_def domain_char_ok_def text_eval)
  show ?thesis using h parsed_host_survives_wire [OF h, of 80 "[]"] by simp
qed

end
