(* ===== verification/Stream_Io.thy ===== *)
theory Stream_Io
  imports Addr
begin

text \<open>
  Handshakes over a byte stream. The state of a peer is what it has still to read and what it has
  written; \<open>read_exact\<close> and \<open>write_all\<close> are the two calls the handlers make (a transport that is up:
  writes succeed, a read past the end of the input fails). On top of it stand the readers shared by
  the proxy servers (src/engine/src/inbound/proxy_server/mod.rs) and the framed datagrams of the
  VLESS and Trojan forms.
\<close>

section \<open>Reading and writing\<close>

record io_state =
  io_in :: bytes
  io_out :: bytes

type_synonym 'a io_op = "io_state \<Rightarrow> 'a result \<times> io_state"

definition read_exact :: "nat \<Rightarrow> bytes io_op" where
  "read_exact n s =
    (if n \<le> length (io_in s) then (Inr (take n (io_in s)), s\<lparr>io_in := drop n (io_in s)\<rparr>)
     else (Inl (Io ''early eof''), s\<lparr>io_in := []\<rparr>))"

definition write_all :: "bytes \<Rightarrow> unit io_op" where
  "write_all bs s = (Inr (), s\<lparr>io_out := io_out s @ bs\<rparr>)"

definition io_return :: "'a \<Rightarrow> 'a io_op" where
  "io_return x s = (Inr x, s)"

definition io_fail :: "error \<Rightarrow> 'a io_op" where
  "io_fail e s = (Inl e, s)"

definition io_lift :: "'a result \<Rightarrow> 'a io_op" where
  "io_lift r s = (r, s)"

definition io_bind :: "'a io_op \<Rightarrow> ('a \<Rightarrow> 'b io_op) \<Rightarrow> 'b io_op" where
  "io_bind m f s = (case m s of (Inl e, s') \<Rightarrow> (Inl e, s') | (Inr x, s') \<Rightarrow> f x s')"

named_theorems io_simps \<open>one step of a handshake\<close>

lemma read_exact_prefix [io_simps]:
  "length xs = n \<Longrightarrow> read_exact n \<lparr>io_in = xs @ rest, io_out = out\<rparr> = (Inr xs, \<lparr>io_in = rest, io_out = out\<rparr>)"
  by (auto simp: read_exact_def)

lemma read_exact_prefix_bind [io_simps]:
  "length xs = n \<Longrightarrow> io_bind (read_exact n) f \<lparr>io_in = xs @ rest, io_out = out\<rparr> = f xs \<lparr>io_in = rest, io_out = out\<rparr>"
  by (auto simp: io_bind_def read_exact_def)

lemma write_all_bind [io_simps]:
  "io_bind (write_all bs) f \<lparr>io_in = i, io_out = out\<rparr> = f () \<lparr>io_in = i, io_out = out @ bs\<rparr>"
  by (simp add: io_bind_def write_all_def)

lemma io_lift_bind [io_simps]:
  "io_bind (io_lift (Inr x)) f s = f x s"
  "io_bind (io_lift (Inl e)) f s = (Inl e, s)"
  by (simp_all add: io_bind_def io_lift_def)

lemma io_return_simps [io_simps]:
  "io_return x s = (Inr x, s)"
  "io_bind (io_return x) f s = f x s"
  "io_fail e s = (Inl e, s)"
  "io_bind (io_fail e) f s = (Inl e, s)"
  by (simp_all add: io_return_def io_bind_def io_fail_def)

lemma io_bind_assoc: "io_bind (io_bind m f) g s = io_bind m (\<lambda>x. io_bind (f x) g) s"
  by (auto simp: io_bind_def split: prod.splits sum.splits)

lemma io_bind_step: "m s = (Inr x, s') \<Longrightarrow> io_bind m f s = f x s'"
  by (simp add: io_bind_def)

section \<open>Addresses from a stream\<close>

definition read_socks_addr :: "net_addr io_op" where
  "read_socks_addr =
    io_bind (read_exact 1) (\<lambda>head.
    io_bind
      (if head ! 0 = 0x01 then read_exact 4
       else if head ! 0 = 0x03 then
         io_bind (read_exact 1) (\<lambda>len.
         io_bind (read_exact (unat (len ! 0))) (\<lambda>name. io_return ([len ! 0] @ name)))
       else if head ! 0 = 0x04 then read_exact 16
       else io_fail (Protocol ''socks address: bad atyp'')) (\<lambda>body.
    io_bind (read_exact 2) (\<lambda>port.
    io_bind (io_lift (decode_socks_addr ([head ! 0] @ body @ port))) (\<lambda>(addr, _).
      io_return addr))))"

definition read_port_first_addr :: "net_addr io_op" where
  "read_port_first_addr =
    io_bind (read_exact 3) (\<lambda>head.
    io_bind
      (if head ! 2 = 0x01 then read_exact 4
       else if head ! 2 = 0x02 then
         io_bind (read_exact 1) (\<lambda>len.
         io_bind (read_exact (unat (len ! 0))) (\<lambda>name. io_return ([len ! 0] @ name)))
       else if head ! 2 = 0x03 then read_exact 16
       else io_fail (Protocol ''port-first address: bad atyp'')) (\<lambda>body.
    io_bind (io_lift (decode_port_first_addr (head @ body))) (\<lambda>(addr, _).
      io_return addr)))"

section \<open>Framed datagrams\<close>

definition vless_udp_frame :: "net_addr \<Rightarrow> bytes \<Rightarrow> bytes result" where
  "vless_udp_frame target data =
    (if length data < 65536
     then Inr (encode_socks_addr [] (na_host target) (na_port target) @ u16_be (word_of_nat (length data)) @ data)
     else Inl (Protocol ''vless udp datagram exceeds 65535 bytes''))"

definition trojan_udp_frame :: "net_addr \<Rightarrow> bytes \<Rightarrow> bytes result" where
  "trojan_udp_frame target data =
    (if length data < 65536
     then Inr (encode_socks_addr [] (na_host target) (na_port target) @ u16_be (word_of_nat (length data)) @
               [0x0D, 0x0A] @ data)
     else Inl (Protocol ''trojan udp datagram exceeds 65535 bytes''))"

definition read_framed_datagram :: "bool \<Rightarrow> (net_addr \<times> bytes) option io_op" where
  "read_framed_datagram crlf s =
    (if io_in s = [] then (Inr None, s)
     else
       io_bind (read_exact 1) (\<lambda>atyp.
       io_bind
         (if atyp ! 0 = atyp_byte AtypIpv4 then io_return ([], 4)
          else if atyp ! 0 = atyp_byte AtypIpv6 then io_return ([], 16)
          else if atyp ! 0 = atyp_byte AtypDomain then
            io_bind (read_exact 1) (\<lambda>len. io_return (len, unat (len ! 0)))
          else io_fail (Protocol ''udp frame: bad atyp'')) (\<lambda>(pre, host_len).
       io_bind (read_exact (host_len + 2)) (\<lambda>body.
       io_bind (read_exact 2) (\<lambda>len.
       io_bind (if crlf then io_bind (read_exact 2) (\<lambda>_. io_return ()) else io_return ()) (\<lambda>_.
       io_bind (read_exact (unat (u16_from (len ! 0) (len ! 1)))) (\<lambda>payload.
       io_bind (io_lift (decode_socks_addr (atyp @ pre @ body))) (\<lambda>(target, _).
         io_return (Some (target, payload))))))))) s)"

text \<open>
  The uplink pump of \<open>spawn_framed_udp\<close>: datagrams off the stream until it ends or a frame is bad.
  Every datagram takes at least one byte.
\<close>

lemma io_bind_in_le:
  assumes "\<And>s. length (io_in (snd (m s))) \<le> length (io_in s)"
    and "\<And>x s. length (io_in (snd (f x s))) \<le> length (io_in s)"
  shows "length (io_in (snd (io_bind m f s))) \<le> length (io_in s)"
proof (cases "m s")
  case (Pair r s')
  then show ?thesis
    using assms(1) [of s] order_trans [OF assms(2)] by (cases r) (simp_all add: io_bind_def)
qed

lemma read_exact_in_le: "length (io_in (snd (read_exact n s))) \<le> length (io_in s)"
  by (simp add: read_exact_def)

lemma io_simple_in_le:
  "length (io_in (snd (io_return x s))) \<le> length (io_in s)"
  "length (io_in (snd (io_fail e s))) \<le> length (io_in s)"
  "length (io_in (snd (io_lift r s))) \<le> length (io_in s)"
  by (simp_all add: io_return_def io_fail_def io_lift_def)

lemma io_if_in_le:
  "length (io_in (snd (m s))) \<le> length (io_in s) \<Longrightarrow> length (io_in (snd (m' s))) \<le> length (io_in s) \<Longrightarrow>
   length (io_in (snd ((if b then m else m') s))) \<le> length (io_in s)"
  by simp

lemma read_framed_shrinks:
  assumes "read_framed_datagram crlf s = (Inr (Some d), s')"
  shows "length (io_in s') < length (io_in s)"
proof -
  have ne: "io_in s \<noteq> []" using assms by (auto simp: read_framed_datagram_def)
  let ?s1 = "s\<lparr>io_in := drop 1 (io_in s)\<rparr>"
  have r1: "read_exact 1 s = (Inr (take 1 (io_in s)), ?s1)"
    using ne by (cases "io_in s") (simp_all add: read_exact_def)
  obtain f where f: "read_framed_datagram crlf s = io_bind (read_exact 1) f s"
    and le: "\<And>x t. length (io_in (snd (f x t))) \<le> length (io_in t)"
  proof (rule that)
    show "read_framed_datagram crlf s = io_bind (read_exact 1) (\<lambda>atyp.
       io_bind
         (if atyp ! 0 = atyp_byte AtypIpv4 then io_return ([], 4)
          else if atyp ! 0 = atyp_byte AtypIpv6 then io_return ([], 16)
          else if atyp ! 0 = atyp_byte AtypDomain then
            io_bind (read_exact 1) (\<lambda>len. io_return (len, unat (len ! 0)))
          else io_fail (Protocol ''udp frame: bad atyp'')) (\<lambda>(pre, host_len).
       io_bind (read_exact (host_len + 2)) (\<lambda>body.
       io_bind (read_exact 2) (\<lambda>len.
       io_bind (if crlf then io_bind (read_exact 2) (\<lambda>_. io_return ()) else io_return ()) (\<lambda>_.
       io_bind (read_exact (unat (u16_from (len ! 0) (len ! 1)))) (\<lambda>payload.
       io_bind (io_lift (decode_socks_addr (atyp @ pre @ body))) (\<lambda>(target, _).
         io_return (Some (target, payload))))))))) s"
      using ne by (simp add: read_framed_datagram_def)
  qed (auto intro!: io_bind_in_le io_if_in_le read_exact_in_le io_simple_in_le split: prod.splits)
  have "read_framed_datagram crlf s = f (take 1 (io_in s)) ?s1"
    using io_bind_step [of "read_exact 1" s "take 1 (io_in s)" ?s1 f, OF r1] f by (rule trans [rotated])
  then have "length (io_in s') \<le> length (io_in ?s1)"
    using assms le [of "take 1 (io_in s)" ?s1] by (metis snd_conv)
  then show ?thesis using ne by (cases "io_in s") simp_all
qed

function read_frames :: "bool \<Rightarrow> io_state \<Rightarrow> (net_addr \<times> bytes) list \<times> error option" where
  "read_frames crlf s =
    (case read_framed_datagram crlf s of
       (Inl e, _) \<Rightarrow> ([], Some e)
     | (Inr None, _) \<Rightarrow> ([], None)
     | (Inr (Some d), s') \<Rightarrow> (let (ds, e) = read_frames crlf s' in (d # ds, e)))"
  by pat_completeness auto
termination
  by (relation "measure (\<lambda>(_, s). length (io_in s))") (auto dest: sym [THEN read_framed_shrinks])

declare read_frames.simps [simp del]

text \<open>The downlink pump: a frame per reply, an oversize datagram is dropped.\<close>

fun write_frames :: "bool \<Rightarrow> (net_addr \<times> bytes) list \<Rightarrow> bytes" where
  "write_frames crlf [] = []"
| "write_frames crlf ((target, data) # ds) =
    (case if crlf then trojan_udp_frame target data else vless_udp_frame target data of
       Inl _ \<Rightarrow> write_frames crlf ds
     | Inr frame \<Rightarrow> frame @ write_frames crlf ds)"

section \<open>What a listener hands to the engine\<close>

type_synonym socket_addr = "ip_addr \<times> u16"

record tcp_meta =
  tm_target :: net_addr
  tm_source :: socket_addr
  tm_inbound :: string
  tm_inbound_port :: "u16 option"
  tm_inbound_kind :: string
  tm_in_user :: "string option"

text \<open>
  The outcome of an accepted connection: a TCP relay with its metadata, a framed UDP session, a SOCKS
  UDP association on a data port, or nothing (an association whose socket could not be opened).
\<close>

datatype served =
    ServedTcp tcp_meta
  | ServedFrames socket_addr string bool
  | ServedAssociation socket_addr string u16
  | ServedNothing

definition hand_off :: "string \<Rightarrow> string \<Rightarrow> u16 \<Rightarrow> socket_addr \<Rightarrow> net_addr \<Rightarrow> served" where
  "hand_off tag kind port peer target =
    ServedTcp \<lparr>tm_target = target, tm_source = peer, tm_inbound = tag, tm_inbound_port = Some port,
      tm_inbound_kind = kind, tm_in_user = None\<rparr>"

definition auth_accepted :: "(string \<times> string) list \<Rightarrow> bytes \<Rightarrow> bytes \<Rightarrow> bool" where
  "auth_accepted authentication user pass =
    (let user = from_utf8_lossy user; pass = from_utf8_lossy pass in
     list_ex (\<lambda>(u, p). as_bytes u = as_bytes user \<and> as_bytes p = as_bytes pass) authentication)"

section \<open>Constant-time comparison\<close>

definition ct_eq :: "bytes \<Rightarrow> bytes \<Rightarrow> bool" where
  "ct_eq a b =
    (if length a \<noteq> length b then False
     else foldl (\<lambda>diff (x, y). diff OR (x XOR y)) 0 (zip a b) = 0)"

lemma ct_eq_fold:
  fixes a b :: bytes
  shows "length a = length b \<Longrightarrow>
   foldl (\<lambda>diff (x, y). diff OR (x XOR y)) d (zip a b) = 0 \<longleftrightarrow> d = 0 \<and> a = b"
proof (induction a b arbitrary: d rule: list_induct2)
  case (Cons x xs y ys)
  have "d OR (x XOR y) = 0 \<longleftrightarrow> d = 0 \<and> x = y"
    by (auto simp: bit_eq_iff bit_simps)
  then show ?case using Cons.IH by auto
qed simp

lemma ct_eq_iff [simp]: "ct_eq a b \<longleftrightarrow> a = b"
  by (auto simp: ct_eq_def ct_eq_fold)

section \<open>Addresses and frames read back\<close>

lemma read_exact_cons_bind [io_simps]:
  "io_bind (read_exact (Suc 0)) f \<lparr>io_in = x # rest, io_out = out\<rparr> = f [x] \<lparr>io_in = rest, io_out = out\<rparr>"
  by (simp add: io_bind_def read_exact_def)

lemma read_exact_append_bind:
  "io_bind (read_exact (length xs)) f \<lparr>io_in = xs @ rest, io_out = out\<rparr> = f xs \<lparr>io_in = rest, io_out = out\<rparr>"
  by (simp add: io_bind_def read_exact_def)

lemmas frame_unfold = encode_socks_addr_def encode_port_first_addr_def atyp_byte_def be_bytes_2
  unat_of_nat_u8 u16_from_split u32_from_split be_bytes_4

lemma decode_socks_exact: "wire_addr a \<Longrightarrow> decode_socks_addr (enc_socks a) = Inr (a, length (enc_socks a))"
  by (rule socks_codec.decode_enc)

text \<open>The wire form of an address, split where the stream readers split it.\<close>

lemma enc_socks_cases:
  assumes "wire_addr a"
  obtains (v4) b where "enc_socks a = 0x01 # b @ u16_be (na_port a)" "length b = 4"
  | (name) l b where "enc_socks a = 0x03 # l # b @ u16_be (na_port a)" "length b = unat l"
  | (v6) b where "enc_socks a = 0x04 # b @ u16_be (na_port a)" "length b = 16"
proof (cases "na_host a")
  case (Domain d)
  with assms have "length d \<le> 255" by (simp add: wire_addr_def wire_host_def)
  then show thesis
    using name [of "word_of_nat (length d)" "as_bytes d"] Domain
    by (simp add: encode_socks_addr_def atyp_byte_def unat_of_nat_u8)
next
  case (Ip ip)
  then show thesis
    using v4 v6 by (cases ip) (simp_all add: encode_socks_addr_def atyp_byte_def)
qed

lemma read_socks_addr_encoded:
  assumes "wire_addr a"
  shows "read_socks_addr \<lparr>io_in = enc_socks a @ rest, io_out = out\<rparr> =
    (Inr a, \<lparr>io_in = rest, io_out = out\<rparr>)"
  using assms
proof (cases rule: enc_socks_cases)
  case (v4 b)
  then show ?thesis
    using decode_socks_exact [OF assms] by (simp add: read_socks_addr_def io_simps)
next
  case (name l b)
  then show ?thesis
    using decode_socks_exact [OF assms] by (simp add: read_socks_addr_def io_simps io_bind_assoc)
next
  case (v6 b)
  then show ?thesis
    using decode_socks_exact [OF assms] by (simp add: read_socks_addr_def io_simps)
qed

lemma unat_of_nat_u16: "n < 65536 \<Longrightarrow> unat (word_of_nat n :: u16) = n"
  by (simp add: unat_of_nat)

text \<open>The frame of either form: the CRLF is the only difference.\<close>

definition udp_frame :: "bool \<Rightarrow> net_addr \<Rightarrow> bytes \<Rightarrow> bytes" where
  "udp_frame crlf a data =
    enc_socks a @ u16_be (word_of_nat (length data)) @ (if crlf then [0x0D, 0x0A] else []) @ data"

lemma enc_socks_bodies:
  assumes "wire_addr a"
  obtains (v4) b where "enc_socks a = 0x01 # b" "length b = 6"
  | (name) l b where "enc_socks a = 0x03 # l # b" "length b = unat l + 2"
  | (v6) b where "enc_socks a = 0x04 # b" "length b = 18"
  using assms
proof (cases rule: enc_socks_cases)
  case (v4 b)
  then show thesis using that(1) [of "b @ u16_be (na_port a)"] by simp
next
  case (name l b)
  then show thesis using that(2) [of l "b @ u16_be (na_port a)"] by simp
next
  case (v6 b)
  then show thesis using that(3) [of "b @ u16_be (na_port a)"] by simp
qed

lemma read_two_bind [io_simps]:
  "io_bind (read_exact 2) f \<lparr>io_in = x # y # rest, io_out = out\<rparr> = f [x, y] \<lparr>io_in = rest, io_out = out\<rparr>"
  by (simp add: io_bind_def read_exact_def)

lemma read_frame_encoded:
  assumes a: "wire_addr a" and len: "length data < 65536"
  shows "read_framed_datagram crlf \<lparr>io_in = udp_frame crlf a data @ rest, io_out = out\<rparr> =
    (Inr (Some (a, data)), \<lparr>io_in = rest, io_out = out\<rparr>)"
proof -
  note d = decode_socks_exact [OF a]
  have l: "unat (u16_from (u16_be (word_of_nat (length data)) ! 0) (u16_be (word_of_nat (length data)) ! Suc 0)) = length data"
    using len by (simp add: be_bytes_2 u16_from_split unat_of_nat_u16)
  note unf = read_framed_datagram_def udp_frame_def io_simps io_bind_assoc atyp_byte_def
  show ?thesis
    using a
  proof (cases rule: enc_socks_bodies)
    case (v4 b)
    then show ?thesis using d len l by (cases crlf) (simp_all add: unf)
  next
    case (name k b)
    then show ?thesis using d len l by (cases crlf) (simp_all add: unf)
  next
    case (v6 b)
    then show ?thesis using d len l by (cases crlf) (simp_all add: unf)
  qed
qed

lemma vless_udp_frame_form: "length data < 65536 \<Longrightarrow> vless_udp_frame a data = Inr (udp_frame False a data)"
  by (simp add: vless_udp_frame_def udp_frame_def)

lemma trojan_udp_frame_form: "length data < 65536 \<Longrightarrow> trojan_udp_frame a data = Inr (udp_frame True a data)"
  by (simp add: trojan_udp_frame_def udp_frame_def)

lemma read_frames_written:
  assumes "list_all (\<lambda>(a, data). wire_addr a) ds"
  shows "read_frames crlf \<lparr>io_in = write_frames crlf ds, io_out = out\<rparr> =
    (filter (\<lambda>(a, data). length data < 65536) ds, None)"
  using assms
proof (induction ds)
  case Nil
  then show ?case by (subst read_frames.simps) (simp add: read_framed_datagram_def)
next
  case (Cons d ds)
  obtain a data where d: "d = (a, data)" by (cases d)
  show ?case
  proof (cases "length data < 65536")
    case True
    then have "write_frames crlf (d # ds) = udp_frame crlf a data @ write_frames crlf ds"
      using d by (simp add: vless_udp_frame_form trojan_udp_frame_form)
    with True d Cons show ?thesis by (subst read_frames.simps) (simp add: read_frame_encoded)
  next
    case False
    then have "write_frames crlf (d # ds) = write_frames crlf ds"
      using d by (simp add: vless_udp_frame_def trojan_udp_frame_def)
    with False d Cons show ?thesis by simp
  qed
qed

text \<open>
  Datagrams survive the framed UDP session of the VLESS and the Trojan form: the frames one pump
  writes are read by the other one by one, in order and with their targets, and then the session ends
  cleanly. Only datagrams over 65535 bytes are dropped, and they leave no trace in the stream.
\<close>

theorem framed_udp_roundtrip:
  assumes "list_all (\<lambda>(a, data). wire_addr a) ds"
  shows "read_frames crlf \<lparr>io_in = write_frames crlf ds, io_out = out\<rparr> =
    (filter (\<lambda>(a, data). length data < 65536) ds, None)"
  using assms by (rule read_frames_written)

theorem framed_udp_roundtrip_witness:
  "read_frames True \<lparr>io_in = write_frames True [(\<lparr>na_host = Ip (V4 0x01010101), na_port = 53\<rparr>, [0x0D, 0x0A])], io_out = []\<rparr> =
    ([(\<lparr>na_host = Ip (V4 0x01010101), na_port = 53\<rparr>, [0x0D, 0x0A])], None)"
  using framed_udp_roundtrip [of "[(\<lparr>na_host = Ip (V4 0x01010101), na_port = 53\<rparr>, [0x0D, 0x0A])]" True "[]"]
  by (simp add: wire_addr_def wire_host_def)

lemma read_port_first_encoded:
  assumes "wire_addr a"
  shows "read_port_first_addr \<lparr>io_in = enc_port_first a @ rest, io_out = out\<rparr> =
    (Inr a, \<lparr>io_in = rest, io_out = out\<rparr>)"
proof -
  have d: "decode_port_first_addr (enc_port_first a) = Inr (a, length (enc_port_first a))"
    by (rule port_first_codec.decode_enc [OF assms])
  have three: "io_bind (read_exact 3) f \<lparr>io_in = x # y # z # r, io_out = out\<rparr> =
      f [x, y, z] \<lparr>io_in = r, io_out = out\<rparr>" for f x y z r
    by (simp add: io_bind_def read_exact_def)
  show ?thesis
  proof (cases "na_host a")
    case (Domain n)
    with assms have "length n \<le> 255" by (simp add: wire_addr_def wire_host_def)
    with Domain d show ?thesis
      by (simp add: read_port_first_addr_def encode_port_first_addr_def be_bytes_2 three io_simps
        io_bind_assoc unat_of_nat_u8)
  next
    case (Ip ip)
    with d show ?thesis
      by (cases ip) (simp_all add: read_port_first_addr_def encode_port_first_addr_def be_bytes_2 three
        io_simps)
  qed
qed

end
