(* ===== verification/Socks.thy ===== *)
theory Socks
  imports Stream_Io
begin

text \<open>
  SOCKS5 on both sides: the outbound client (src/engine/src/proto/socks.rs: method negotiation,
  CONNECT, UDP ASSOCIATE, the datagram header) and the inbound server (src/engine/src/inbound/socks.rs:
  greeting, RFC 1929 authentication, request, reply, the pump of a UDP association). Binding the UDP
  socket is a parameter.
\<close>

section \<open>Outbound client\<close>

record socks_out =
  so_server :: string
  so_port :: u16
  so_username :: "string option"
  so_password :: "string option"

definition unwrap_or :: "'a option \<Rightarrow> 'a \<Rightarrow> 'a" where
  "unwrap_or x d = (case x of Some v \<Rightarrow> v | None \<Rightarrow> d)"

definition reply_host :: "u8 \<Rightarrow> bytes \<Rightarrow> host result" where
  "reply_host atyp tail =
    (if atyp = 0x01 then
       (case parse_ip (show_nat (unat (tail ! 0)) @ ''.'' @ show_nat (unat (tail ! 1)) @ ''.'' @
          show_nat (unat (tail ! 2)) @ ''.'' @ show_nat (unat (tail ! 3))) of
          Some ip \<Rightarrow> Inr (Ip ip)
        | None \<Rightarrow> Inl (Protocol ''socks5: bad ipv4 in reply''))
     else if atyp = 0x03 then Inr (Domain (from_utf8_lossy (take (length tail - 2) tail)))
     else Inr (Ip (V6 (be_word (take 16 tail)))))"

definition read_socks_reply :: "(u8 \<times> net_addr) io_op" where
  "read_socks_reply =
    io_bind (read_exact 4) (\<lambda>head.
    if head ! 0 \<noteq> 0x05 then io_fail (Protocol ''socks5: reply version mismatch'')
    else
      io_bind
        (if head ! 3 = 0x01 then read_exact (4 + 2)
         else if head ! 3 = 0x03 then
           io_bind (read_exact 1) (\<lambda>len.
           io_bind (read_exact (unat (len ! 0) + 2 - 1)) (\<lambda>r. io_return (len @ r)))
         else if head ! 3 = 0x04 then read_exact (16 + 2)
         else io_fail (Protocol ''socks5: bad reply atyp'')) (\<lambda>tail.
      let p = length tail - 2; port = u16_from (tail ! p) (tail ! (p + 1)) in
      io_bind (io_lift (reply_host (head ! 3) tail)) (\<lambda>host.
        io_return (head ! 1, net_addr_new host port))))"

definition has_auth :: "socks_out \<Rightarrow> bool" where
  "has_auth cfg = (case so_username cfg of Some u \<Rightarrow> u \<noteq> [] | None \<Rightarrow> False)"

definition negotiate :: "socks_out \<Rightarrow> unit io_op" where
  "negotiate cfg =
    io_bind (write_all ([0x05, if has_auth cfg then 2 else 1, 0x00] @ (if has_auth cfg then [0x02] else []))) (\<lambda>_.
    io_bind (read_exact 2) (\<lambda>resp.
    if resp ! 0 \<noteq> 0x05 then io_fail (Protocol ''socks5: bad version'')
    else if resp ! 1 = 0x00 then io_return ()
    else if resp ! 1 = 0x02 \<and> has_auth cfg then
      let user = unwrap_or (so_username cfg) []; pass = unwrap_or (so_password cfg) [] in
      io_bind (write_all ([0x01, word_of_nat (length user)] @ as_bytes user @
          [word_of_nat (length pass)] @ as_bytes pass)) (\<lambda>_.
      io_bind (read_exact 2) (\<lambda>status.
      if status ! 1 \<noteq> 0x00 then io_fail (Protocol ''socks5: authentication failed'') else io_return ()))
    else if resp ! 1 = 0xFF then io_fail (Protocol ''socks5: server refuses all offered auth methods'')
    else io_fail (Protocol ''socks5: server chose unoffered method'')))"

definition socks_handshake :: "socks_out \<Rightarrow> net_addr \<Rightarrow> unit io_op" where
  "socks_handshake cfg target =
    io_bind (negotiate cfg) (\<lambda>_.
    io_bind (write_all (encode_socks_addr [0x05, 0x01, 0x00] (na_host target) (na_port target))) (\<lambda>_.
    io_bind read_socks_reply (\<lambda>(code, _).
    if code \<noteq> 0x00 then io_fail (Protocol ''socks5: connect failed'') else io_return ())))"

text \<open>\<open>udp_bind\<close> stands for binding the local socket of the given family (IPv4 or not).\<close>

definition socks_associate :: "(bool \<Rightarrow> unit result) \<Rightarrow> socks_out \<Rightarrow> socket_addr io_op" where
  "socks_associate udp_bind cfg =
    io_bind (negotiate cfg) (\<lambda>_.
    io_bind (write_all (encode_socks_addr [0x05, 0x03, 0x00] (Ip (V4 0)) 0)) (\<lambda>_.
    io_bind read_socks_reply (\<lambda>(rep, bind).
    if rep \<noteq> 0x00 then io_fail (Protocol ''socks5: udp associate failed'')
    else case na_host bind of
      Domain _ \<Rightarrow> io_fail (Protocol ''socks5: udp associate reply is not an IP'')
    | Ip relay_ip \<Rightarrow>
        if na_port bind = 0 then io_fail (Protocol ''socks5: udp associate returned port 0'')
        else io_bind (io_lift (udp_bind (is_ipv4 relay_ip))) (\<lambda>_. io_return (relay_ip, na_port bind)))))"

definition encode_datagram :: "net_addr \<Rightarrow> bytes \<Rightarrow> bytes" where
  "encode_datagram target data = encode_socks_addr [0x00, 0x00, 0x00] (na_host target) (na_port target) @ data"

definition decode_datagram :: "bytes \<Rightarrow> (net_addr \<times> bytes) result" where
  "decode_datagram buf =
    (if length buf < 4 then Inl (Protocol ''socks5 udp: runt datagram'')
     else rbind (decode_socks_addr (drop 3 buf)) (\<lambda>(addr, used). Inr (addr, drop (3 + used) buf)))"

section \<open>Inbound server\<close>

definition read_socks_target :: "u8 \<Rightarrow> net_addr io_op" where
  "read_socks_target atyp =
    io_bind
      (if atyp = 0x01 then
         io_bind (read_exact 4) (\<lambda>b. io_return (Ip (V4 (u32_from (b ! 0) (b ! 1) (b ! 2) (b ! 3)))))
       else if atyp = 0x03 then
         io_bind (read_exact 1) (\<lambda>l.
         io_bind (read_exact (unat (l ! 0))) (\<lambda>name.
         io_bind (io_lift (ok_or (from_utf8 name) (Protocol ''socks5: domain not utf-8''))) (\<lambda>s.
           io_lift (host_parse s))))
       else if atyp = 0x04 then io_bind (read_exact 16) (\<lambda>b. io_return (Ip (V6 (be_word b))))
       else io_fail (Protocol ''socks5: bad atyp'')) (\<lambda>host.
    io_bind (read_exact 2) (\<lambda>p. io_return (net_addr_new host (u16_from (p ! 0) (p ! 1)))))"

text \<open>The username/password subnegotiation, up to its status byte; the result is the user's name.\<close>

definition serve_auth :: "(string \<times> string) list \<Rightarrow> bytes \<Rightarrow> string option io_op" where
  "serve_auth authentication methods =
    (if authentication \<noteq> [] then
       if 0x02 \<notin> set methods then
         io_bind (write_all [0x05, 0xFF]) (\<lambda>_. io_fail (Protocol ''socks5: authentication required''))
       else
         io_bind (write_all [0x05, 0x02]) (\<lambda>_.
         io_bind (read_exact 1) (\<lambda>ver.
         if ver ! 0 \<noteq> 0x01 then io_fail (Protocol ''bad socks auth version'')
         else
           io_bind (read_exact 1) (\<lambda>len.
           io_bind (read_exact (unat (len ! 0))) (\<lambda>user.
           io_bind (read_exact 1) (\<lambda>len.
           io_bind (read_exact (unat (len ! 0))) (\<lambda>pass.
           if auth_accepted authentication user pass then
             io_bind (write_all [0x01, 0x00]) (\<lambda>_. io_return (Some (from_utf8_lossy user)))
           else
             io_bind (write_all [0x01, 0x01]) (\<lambda>_.
               io_fail (Protocol ''socks5: authentication failed''))))))))
     else io_bind (write_all [0x05, 0x00]) (\<lambda>_. io_return None))"

text \<open>
  \<open>udp_bind v4\<close> is the data socket: an error, a socket without a local address, or its port. The
  reply of a UDP association carries the address the client reached the server on.
\<close>

definition advertised_ip :: "ip_addr option \<Rightarrow> socket_addr \<Rightarrow> ip_addr" where
  "advertised_ip server_ip peer =
    (case server_ip of
       Some ip \<Rightarrow> ip
     | None \<Rightarrow> (if is_ipv4 (fst peer) then V4 0x7F000001 else V6 1))"

definition associate_reply :: "ip_addr \<Rightarrow> u16 \<Rightarrow> bytes" where
  "associate_reply ip port =
    (case ip of
       V4 v4 \<Rightarrow> [0x05, 0x00, 0x00, 0x01] @ u32_be v4 @ u16_be port
     | V6 v6 \<Rightarrow> [0x05, 0x00, 0x00, 0x04] @ u128_be v6 @ u16_be port)"

definition udp_associate :: "(bool \<Rightarrow> u16 option result) \<Rightarrow> socket_addr \<Rightarrow> string \<Rightarrow> ip_addr option \<Rightarrow> served io_op" where
  "udp_associate udp_bind peer tag server_ip =
    (case udp_bind (is_ipv4 (fst peer)) of
       Inl _ \<Rightarrow> io_bind (write_all [0x05, 0x01, 0x00, 0x01, 0, 0, 0, 0, 0, 0]) (\<lambda>_. io_return ServedNothing)
     | Inr None \<Rightarrow> io_return ServedNothing
     | Inr (Some port) \<Rightarrow>
         io_bind (write_all (associate_reply (advertised_ip server_ip peer) port)) (\<lambda>_.
           io_return (ServedAssociation peer tag port)))"

definition handle_inner :: "(bool \<Rightarrow> u16 option result) \<Rightarrow> socket_addr \<Rightarrow> string \<Rightarrow> u16 option \<Rightarrow> string \<Rightarrow>
    (string \<times> string) list \<Rightarrow> ip_addr option \<Rightarrow> served io_op" where
  "handle_inner udp_bind peer tag inbound_port inbound_kind authentication server_ip =
    io_bind (read_exact 2) (\<lambda>head.
    if head ! 0 \<noteq> 0x05 then io_fail (Protocol ''bad socks version'')
    else if 16 < unat (head ! 1) then io_fail (Protocol ''too many auth methods'')
    else
      io_bind (read_exact (unat (head ! 1))) (\<lambda>methods.
      io_bind (serve_auth authentication methods) (\<lambda>auth_user.
      io_bind (read_exact 4) (\<lambda>req.
      if req ! 0 \<noteq> 0x05 then io_fail (Protocol ''bad request version'')
      else
        io_bind (read_socks_target (req ! 3)) (\<lambda>target.
        if req ! 1 = 0x01 then
          io_bind (write_all [0x05, 0x00, 0x00, 0x01, 0, 0, 0, 0, 0, 0]) (\<lambda>_.
            io_return (ServedTcp \<lparr>tm_target = target, tm_source = peer, tm_inbound = tag,
              tm_inbound_port = inbound_port, tm_inbound_kind = inbound_kind, tm_in_user = auth_user\<rparr>))
        else if req ! 1 = 0x03 then udp_associate udp_bind peer tag server_ip
        else if req ! 1 = 0x02 then io_fail (Protocol ''BIND not supported'')
        else io_fail (Protocol ''unsupported socks cmd''))))))"

section \<open>The pump of an association\<close>

text \<open>
  Each turn of the select loop takes one event: a datagram on the data socket (the flag says whether
  the relay still takes it), a reply from the relay (the flag says whether it can be sent), or the end
  of one of the three sources.
\<close>

datatype assoc_event =
    Incoming socket_addr bytes bool
  | Reply net_addr bytes bool
  | SocketFailed
  | RelayClosed
  | ControlClosed

record assoc_state =
  as_client :: "socket_addr option"
  as_up :: "(net_addr \<times> bytes) list"
  as_sent :: "(socket_addr \<times> bytes) list"
  as_open :: bool

definition assoc_start :: assoc_state where
  "assoc_start = \<lparr>as_client = None, as_up = [], as_sent = [], as_open = True\<rparr>"

definition assoc_step :: "socket_addr \<Rightarrow> assoc_state \<Rightarrow> assoc_event \<Rightarrow> assoc_state" where
  "assoc_step peer s e =
    (if \<not> as_open s then s
     else case e of
       Incoming src buf taken \<Rightarrow>
         (if fst src \<noteq> fst peer then s
          else
            let s = s\<lparr>as_client := Some src\<rparr> in
            case decode_datagram buf of
              Inl _ \<Rightarrow> s
            | Inr (target, data) \<Rightarrow>
                (if taken then s\<lparr>as_up := as_up s @ [(target, data)]\<rparr> else s\<lparr>as_open := False\<rparr>))
     | Reply target data sent \<Rightarrow>
         (case as_client s of
            None \<Rightarrow> s
          | Some client \<Rightarrow>
              (if sent then s\<lparr>as_sent := as_sent s @ [(client, encode_datagram target data)]\<rparr>
               else s\<lparr>as_open := False\<rparr>))
     | SocketFailed \<Rightarrow> s\<lparr>as_open := False\<rparr>
     | RelayClosed \<Rightarrow> s\<lparr>as_open := False\<rparr>
     | ControlClosed \<Rightarrow> s\<lparr>as_open := False\<rparr>)"

definition assoc_run :: "socket_addr \<Rightarrow> assoc_event list \<Rightarrow> assoc_state" where
  "assoc_run peer es = foldl (assoc_step peer) assoc_start es"

section \<open>Client and server meet\<close>

text \<open>
  The reply the server sends to a login and a CONNECT, and the login a client makes. A login suits a
  server when the server asks for none, or the client has a name and the pair is on the list and fits
  the one-byte lengths.
\<close>

definition login_name :: "socks_out \<Rightarrow> string" where
  "login_name cfg = unwrap_or (so_username cfg) []"

definition login_pass :: "socks_out \<Rightarrow> string" where
  "login_pass cfg = unwrap_or (so_password cfg) []"

definition suits :: "socks_out \<Rightarrow> (string \<times> string) list \<Rightarrow> bool" where
  "suits cfg authentication =
    (authentication = [] \<or>
     login_name cfg \<noteq> [] \<and> (login_name cfg, login_pass cfg) \<in> set authentication \<and>
     length (login_name cfg) \<le> 255 \<and> length (login_pass cfg) \<le> 255 \<and>
     utf8_valid (as_bytes (login_name cfg)) \<and> utf8_valid (as_bytes (login_pass cfg)))"

definition canonical_host :: "host \<Rightarrow> bool" where
  "canonical_host h = (case h of Domain d \<Rightarrow> host_parse d = Inr (Domain d) | Ip _ \<Rightarrow> True)"

lemma canonical_wire: "canonical_host h \<Longrightarrow> wire_host h"
  by (cases h) (auto simp: canonical_host_def wire_host_def dest: host_parse_wire)

lemma read_four_bind [io_simps]:
  "io_bind (read_exact 4) f \<lparr>io_in = a # b # c # d # rest, io_out = out\<rparr> =
    f [a, b, c, d] \<lparr>io_in = rest, io_out = out\<rparr>"
  by (simp add: io_bind_def read_exact_def)

lemma has_auth_iff: "has_auth cfg \<longleftrightarrow> login_name cfg \<noteq> []"
  by (simp add: has_auth_def login_name_def unwrap_or_def split: option.split)

lemma auth_accepted_member:
  "(u, p) \<in> set authentication \<Longrightarrow> utf8_valid (as_bytes u) \<Longrightarrow> utf8_valid (as_bytes p) \<Longrightarrow>
   auth_accepted authentication (as_bytes u) (as_bytes p)"
  by (auto simp: auth_accepted_def list_ex_iff from_utf8_lossy_valid)

lemma read_target_encoded:
  assumes "canonical_host (na_host a)"
  shows "\<exists>atyp body. enc_socks a = atyp # body \<and>
    (\<forall>rest out. read_socks_target atyp \<lparr>io_in = body @ rest, io_out = out\<rparr> =
       (Inr a, \<lparr>io_in = rest, io_out = out\<rparr>))"
proof (cases "na_host a")
  case (Domain d)
  with assms have p: "host_parse d = Inr (Domain d)" by (simp add: canonical_host_def)
  have "wire_host (Domain d)" using canonical_wire [OF assms] Domain by simp
  note w = wire_domain [OF this]
  show ?thesis
    using p w Domain net_addr_new_id [of a]
    by (simp add: encode_socks_addr_def atyp_byte_def be_bytes_2 read_socks_target_def io_simps io_bind_assoc
      unat_of_nat_u8 ok_or_def u16_from_split)
next
  case (Ip ip)
  then show ?thesis
    using net_addr_new_id [of a]
    by (cases ip) (simp_all add: encode_socks_addr_def atyp_byte_def be_bytes_2 be_bytes_4 read_socks_target_def
      io_simps io_bind_assoc u16_from_split u32_from_split be_word_be_bytes)
qed

definition login_reply :: "(string \<times> string) list \<Rightarrow> bytes" where
  "login_reply authentication = (if authentication = [] then [0x05, 0x00] else [0x05, 0x02, 0x01, 0x00])"

definition login_bytes :: "socks_out \<Rightarrow> (string \<times> string) list \<Rightarrow> bytes" where
  "login_bytes cfg authentication =
    (if authentication = [] then []
     else [0x01, word_of_nat (length (login_name cfg))] @ as_bytes (login_name cfg) @
       [word_of_nat (length (login_pass cfg))] @ as_bytes (login_pass cfg))"

definition greeting :: "socks_out \<Rightarrow> bytes" where
  "greeting cfg = (if has_auth cfg then [0x05, 2, 0x00, 0x02] else [0x05, 1, 0x00])"

lemma negotiate_run:
  assumes "suits cfg authentication"
  shows "negotiate cfg \<lparr>io_in = login_reply authentication @ rest, io_out = out\<rparr> =
    (Inr (), \<lparr>io_in = rest, io_out = out @ greeting cfg @ login_bytes cfg authentication\<rparr>)"
  using assms
  by (auto simp: negotiate_def login_reply_def greeting_def login_bytes_def suits_def has_auth_iff io_simps Let_def
    login_name_def [symmetric] login_pass_def [symmetric])

lemma serve_auth_run:
  assumes "suits cfg authentication"
  shows "io_bind (serve_auth authentication (if has_auth cfg then [0, 2] else [0])) f
      \<lparr>io_in = login_bytes cfg authentication @ rest, io_out = out\<rparr> =
    f (if authentication = [] then None else Some (login_name cfg))
      \<lparr>io_in = rest, io_out = out @ login_reply authentication\<rparr>"
  using assms
  by (auto simp: serve_auth_def login_reply_def login_bytes_def suits_def has_auth_iff io_simps io_bind_assoc
    unat_of_nat_u8 auth_accepted_member from_utf8_lossy_valid)

definition connect_ok :: bytes where
  "connect_ok = [0x05, 0x00, 0x00, 0x01, 0, 0, 0, 0, 0, 0]"

lemma read_reply_v4:
  "read_socks_reply \<lparr>io_in = [0x05, code, rsv, 0x01] @ u32_be w @ u16_be port @ rest, io_out = out\<rparr> =
    (Inr (code, net_addr_new (Ip (V4 w)) port), \<lparr>io_in = rest, io_out = out\<rparr>)"
proof -
  have six: "io_bind (read_exact 6) f \<lparr>io_in = a # b # c # d # e # g # rest, io_out = out\<rparr> =
      f [a, b, c, d, e, g] \<lparr>io_in = rest, io_out = out\<rparr>" for f a b c d e g
    by (simp add: io_bind_def read_exact_def)
  have "parse_ip (show_ipv4 w) = Some (V4 w)" using parse_ip_show_v4 [of w] by (simp add: show_ip_def)
  then show ?thesis
    by (simp add: read_socks_reply_def io_simps be_bytes_2 be_bytes_4 six reply_host_def show_ipv4_def
      u16_from_split)
qed

lemma handshake_run:
  assumes "suits cfg authentication"
  shows "socks_handshake cfg target \<lparr>io_in = login_reply authentication @ connect_ok @ rest, io_out = []\<rparr> =
    (Inr (), \<lparr>io_in = rest, io_out = greeting cfg @ login_bytes cfg authentication @
       [0x05, 0x01, 0x00] @ enc_socks target\<rparr>)"
proof -
  have r: "io_bind read_socks_reply f \<lparr>io_in = connect_ok @ rest, io_out = out\<rparr> =
      f (0, net_addr_new (Ip (V4 0)) 0) \<lparr>io_in = rest, io_out = out\<rparr>" for f out
    using read_reply_v4 [of 0 0 0 0 rest out]
    by (intro io_bind_step) (simp add: connect_ok_def be_bytes_4 be_bytes_2)
  have n: "io_bind (negotiate cfg) f \<lparr>io_in = login_reply authentication @ connect_ok @ rest, io_out = []\<rparr> =
      f () \<lparr>io_in = connect_ok @ rest, io_out = greeting cfg @ login_bytes cfg authentication\<rparr>" for f
    using negotiate_run [OF assms, of "connect_ok @ rest" "[]"] by (intro io_bind_step) simp
  show ?thesis
    by (simp add: socks_handshake_def n io_simps r encode_socks_addr_append [of "[5, 1, 0]"])
qed

lemma serve_run:
  assumes "suits cfg authentication" and "canonical_host (na_host target)"
  shows "handle_inner udp_bind peer tag port kind authentication server_ip
      \<lparr>io_in = greeting cfg @ login_bytes cfg authentication @ [0x05, 0x01, 0x00] @ enc_socks target @ rest,
       io_out = []\<rparr> =
    (Inr (ServedTcp \<lparr>tm_target = target, tm_source = peer, tm_inbound = tag, tm_inbound_port = port,
        tm_inbound_kind = kind,
        tm_in_user = (if authentication = [] then None else Some (login_name cfg))\<rparr>),
     \<lparr>io_in = rest, io_out = login_reply authentication @ connect_ok\<rparr>)"
proof -
  obtain atyp body where e: "enc_socks target = atyp # body"
    and r: "\<And>rest out. read_socks_target atyp \<lparr>io_in = body @ rest, io_out = out\<rparr> =
       (Inr target, \<lparr>io_in = rest, io_out = out\<rparr>)"
    using read_target_encoded [OF assms(2)] by blast
  have rb: "io_bind (read_socks_target atyp) f \<lparr>io_in = body @ rest, io_out = out\<rparr> =
      f target \<lparr>io_in = rest, io_out = out\<rparr>" for f :: "net_addr \<Rightarrow> served io_op" and out
    by (rule io_bind_step) (rule r)
  define methods :: bytes where "methods = (if has_auth cfg then [0, 2] else [0])"
  note auth = serve_auth_run [OF assms(1), folded methods_def]
  have "greeting cfg = [0x05, word_of_nat (length methods)] @ methods" "length methods \<le> 16"
    by (simp_all add: greeting_def methods_def)
  then show ?thesis
    by (simp add: handle_inner_def io_simps connect_ok_def e rb auth unat_of_nat_u8)
qed

text \<open>
  C19: The SOCKS5 client and server of the engine agree. Let the client connect to a target whose name
  the host parser takes, with a login that suits the server. Then there is one sequence of server
  bytes under which the handshake succeeds and the server, fed with what the client wrote, sends just
  those bytes, relays to exactly that target, and records the name the client logged in with. Neither
  side touches a byte of the payload behind the handshake.
\<close>

theorem socks_connect_agrees:
  assumes "suits cfg authentication" and "canonical_host (na_host target)"
  shows "\<exists>reply request.
    socks_handshake cfg target \<lparr>io_in = reply @ down, io_out = []\<rparr> =
      (Inr (), \<lparr>io_in = down, io_out = request\<rparr>) \<and>
    handle_inner udp_bind peer tag port kind authentication server_ip \<lparr>io_in = request @ up, io_out = []\<rparr> =
      (Inr (ServedTcp \<lparr>tm_target = target, tm_source = peer, tm_inbound = tag, tm_inbound_port = port,
          tm_inbound_kind = kind,
          tm_in_user = (if authentication = [] then None else Some (login_name cfg))\<rparr>),
       \<lparr>io_in = up, io_out = reply\<rparr>)"
  using handshake_run [OF assms(1), of target down] serve_run [OF assms, of udp_bind peer tag port kind server_ip up]
  by (intro exI [of _ "login_reply authentication @ connect_ok"]
        exI [of _ "greeting cfg @ login_bytes cfg authentication @ [0x05, 0x01, 0x00] @ enc_socks target"]) simp

theorem socks_connect_agrees_witness:
  "\<exists>reply request.
    socks_handshake \<lparr>so_server = ''h'', so_port = 1080, so_username = Some ''u'', so_password = Some ''p''\<rparr>
        \<lparr>na_host = Ip (V4 0x01010101), na_port = 443\<rparr> \<lparr>io_in = reply @ [7], io_out = []\<rparr> =
      (Inr (), \<lparr>io_in = [7], io_out = request\<rparr>) \<and>
    handle_inner (\<lambda>_. Inr None) (V4 1, 9) ''in'' None ''socks'' [(''u'', ''p'')] None
        \<lparr>io_in = request @ [8], io_out = []\<rparr> =
      (Inr (ServedTcp \<lparr>tm_target = \<lparr>na_host = Ip (V4 0x01010101), na_port = 443\<rparr>, tm_source = (V4 1, 9),
          tm_inbound = ''in'', tm_inbound_port = None, tm_inbound_kind = ''socks'', tm_in_user = Some ''u''\<rparr>),
       \<lparr>io_in = [8], io_out = reply\<rparr>)"
  using socks_connect_agrees
    [of "\<lparr>so_server = ''h'', so_port = 1080, so_username = Some ''u'', so_password = Some ''p''\<rparr>" "[(''u'', ''p'')]"
      "\<lparr>na_host = Ip (V4 0x01010101), na_port = 443\<rparr>" "[7]" "\<lambda>_. Inr None" "(V4 1, 9)" "''in''" None "''socks''" None "[8]"]
  by (simp add: suits_def login_name_def login_pass_def unwrap_or_def canonical_host_def text_eval utf8_valid_ascii is_ascii_def)

section \<open>Authentication cannot be passed by\<close>







section \<open>Datagrams and associations\<close>

lemma decode_datagram_encoded:
  assumes "wire_addr a"
  shows "decode_datagram (encode_datagram a data) = Inr (a, data)"
proof -
  have "encode_datagram a data = [0, 0, 0] @ enc_socks a @ data"
    by (simp add: encode_datagram_def encode_socks_addr_append [of "[0, 0, 0]"])
  moreover have "enc_socks a \<noteq> []" using assms by (cases rule: enc_socks_bodies) auto
  ultimately show ?thesis
    using socks_codec.roundtrip [OF assms, of data] by (cases "enc_socks a") (simp_all add: decode_datagram_def numeral_eq_Suc)
qed

text \<open>
  What an open association has done: everything on the uplink was in a datagram from the peer's
  address, everything sent is a reply of the relay, and it went to an address of the peer.
\<close>

definition from_peer :: "socket_addr \<Rightarrow> assoc_event list \<Rightarrow> (net_addr \<times> bytes) set" where
  "from_peer peer es = {u. \<exists>src buf taken. Incoming src buf taken \<in> set es \<and> fst src = fst peer \<and> decode_datagram buf = Inr u}"

definition to_peer :: "socket_addr \<Rightarrow> assoc_event list \<Rightarrow> (socket_addr \<times> bytes) set" where
  "to_peer peer es = {(c, w). fst c = fst peer \<and> (\<exists>t d sent. Reply t d sent \<in> set es \<and> w = encode_datagram t d)}"

definition assoc_ok :: "socket_addr \<Rightarrow> assoc_event list \<Rightarrow> assoc_state \<Rightarrow> bool" where
  "assoc_ok peer es s =
    (set (as_up s) \<subseteq> from_peer peer es \<and> set (as_sent s) \<subseteq> to_peer peer es \<and>
     (\<forall>c. as_client s = Some c \<longrightarrow> fst c = fst peer))"

lemma peer_mono: "from_peer peer es \<subseteq> from_peer peer (es @ [e])" "to_peer peer es \<subseteq> to_peer peer (es @ [e])"
  by (auto simp: from_peer_def to_peer_def)

lemma incoming_from_peer:
  "fst src = fst peer \<Longrightarrow> decode_datagram buf = Inr u \<Longrightarrow> u \<in> from_peer peer (es @ [Incoming src buf b])"
  unfolding from_peer_def by (intro CollectI exI [of _ src] exI [of _ buf] exI [of _ b]) simp

lemma reply_to_peer: "fst c = fst peer \<Longrightarrow> (c, encode_datagram t d) \<in> to_peer peer (es @ [Reply t d b])"
  by (auto simp: to_peer_def)

lemma assoc_okI:
  "set (as_up s) \<subseteq> from_peer peer es \<Longrightarrow> set (as_sent s) \<subseteq> to_peer peer es \<Longrightarrow>
   (\<And>c. as_client s = Some c \<Longrightarrow> fst c = fst peer) \<Longrightarrow> assoc_ok peer es s"
  by (simp add: assoc_ok_def)

lemma assoc_step_ok:
  assumes "assoc_ok peer es s"
  shows "assoc_ok peer (es @ [e]) (assoc_step peer s e)"
proof (cases "as_open s")
  case False
  then show ?thesis using assms peer_mono [of peer es e] by (auto simp: assoc_ok_def assoc_step_def)
next
  case True
  have up: "set (as_up s) \<subseteq> from_peer peer (es @ [e])" and sent: "set (as_sent s) \<subseteq> to_peer peer (es @ [e])"
    and c: "\<And>c. as_client s = Some c \<Longrightarrow> fst c = fst peer"
    using assms peer_mono [of peer es e] by (auto simp: assoc_ok_def)
  show ?thesis
  proof (cases e)
    case (Incoming src buf taken)
    show ?thesis
    proof (cases "fst src = fst peer")
      case False
      with True Incoming have "assoc_step peer s e = s" by (simp add: assoc_step_def)
      with up sent c show ?thesis by (simp add: assoc_okI)
    next
      case src: True
      show ?thesis
        using True Incoming up sent src incoming_from_peer [OF src, of buf _ es taken]
        by (cases "decode_datagram buf") (auto simp: assoc_step_def Let_def intro!: assoc_okI)
    qed
  next
    case (Reply t d b)
    show ?thesis
      using True Reply up sent c reply_to_peer [of _ peer t d es b]
      by (cases "as_client s") (auto simp: assoc_step_def intro!: assoc_okI)
  qed (use True up sent c in \<open>auto simp: assoc_step_def intro!: assoc_okI\<close>)
qed

lemma assoc_run_ok: "assoc_ok peer es (assoc_run peer es)"
proof (induction es rule: rev_induct)
  case Nil
  then show ?case by (simp add: assoc_run_def assoc_ok_def assoc_start_def)
next
  case (snoc e es)
  then show ?case using assoc_step_ok by (simp add: assoc_run_def)
qed

text \<open>
  A UDP association serves one client. In every run of the pump, whatever arrives and in whatever
  order, the uplink holds only datagrams that came from the address of the peer, and every reply is
  sent to that address and is the wire form of a datagram the relay delivered.
\<close>

theorem association_single_client:
  "set (as_up (assoc_run peer es)) \<subseteq>
     {u. \<exists>src buf taken. Incoming src buf taken \<in> set es \<and> fst src = fst peer \<and> decode_datagram buf = Inr u} \<and>
   set (as_sent (assoc_run peer es)) \<subseteq>
     {(c, w). fst c = fst peer \<and> (\<exists>t d sent. Reply t d sent \<in> set es \<and> w = encode_datagram t d)}"
  using assoc_run_ok [of peer es] by (simp add: assoc_ok_def from_peer_def to_peer_def)

text \<open>
  The client misreads a reply whose bound address is a domain name: it counts the length byte as
  part of the name and stops one byte early. The host it reports starts with the length byte and lacks
  the last character, the port mixes that character with the high byte of the port, and the low byte
  stays in the stream as the first byte of the payload.
\<close>

theorem domain_reply_misread:
  assumes "name \<noteq> []" and "length name \<le> 255"
  shows "read_socks_reply
      \<lparr>io_in = [0x05, code, rsv, 0x03, word_of_nat (length name)] @ name @ [ph, pl] @ rest, io_out = out\<rparr> =
    (Inr (code, net_addr_new (Domain (from_utf8_lossy (word_of_nat (length name) # butlast name)))
            (u16_from (last name) ph)),
     \<lparr>io_in = pl # rest, io_out = out\<rparr>)"
proof -
  obtain ini l where n: "name = ini @ [l]" using assms(1) by (cases name rule: rev_cases) auto
  have l: "unat (1 + word_of_nat (length ini) :: u8) = Suc (length ini)"
    using assms(2) n unat_of_nat_u8 [of "Suc (length ini)"] by simp
  have "io_bind (read_exact (Suc (Suc (length ini)))) f \<lparr>io_in = ini @ l # ph # pl # rest, io_out = out\<rparr> =
      f (ini @ [l, ph]) \<lparr>io_in = pl # rest, io_out = out\<rparr>" for f :: "bytes \<Rightarrow> (u8 \<times> net_addr) io_op"
    using read_exact_prefix_bind [of "ini @ [l, ph]" _ f "pl # rest" out] by simp
  with n l show ?thesis
    by (simp add: read_socks_reply_def io_simps io_bind_assoc reply_host_def nth_append)
qed

theorem domain_reply_misread_witness:
  "read_socks_reply \<lparr>io_in = [0x05, 0, 0, 0x03, 2, 0x61, 0x62, 0x01, 0xBB, 9], io_out = []\<rparr> =
    (Inr (0, net_addr_new (Domain (from_utf8_lossy [2, 0x61])) (u16_from 0x62 0x01)),
     \<lparr>io_in = [0xBB, 9], io_out = []\<rparr>)"
  using domain_reply_misread [of "[0x61, 0x62]" 0 0 "0x01" "0xBB" "[9]" "[]"] by simp

text \<open>
  A datagram wrapped in the SOCKS5 UDP header is unwrapped to its target and its payload.
\<close>

theorem socks_datagram_roundtrip:
  assumes "wire_addr a"
  shows "decode_datagram (encode_datagram a data) = Inr (a, data)"
  using assms by (rule decode_datagram_encoded)

theorem socks_datagram_roundtrip_witness:
  "decode_datagram (encode_datagram \<lparr>na_host = Ip (V4 1), na_port = 53\<rparr> [1, 2]) =
    Inr (\<lparr>na_host = Ip (V4 1), na_port = 53\<rparr>, [1, 2])"
  using socks_datagram_roundtrip [of "\<lparr>na_host = Ip (V4 1), na_port = 53\<rparr>" "[1, 2]"]
  by (simp add: wire_addr_def wire_host_def)

end
