(* ===== verification/Transport.thy ===== *)
theory Transport
  imports Stream_Io
begin

text \<open>
  A transport as the poll functions see it: a script of what each write accepts, a list of what
  arrives, and every operation able to answer \<open>Pending\<close>. The theory has the loops the client streams
  share, the drivers of tokio (\<open>write_all\<close> and reading to the end), and the contract of a stream that
  sends a header in front of its first write, which the VLESS and the Trojan client both implement.
\<close>

section \<open>Polling a transport\<close>

datatype 'a poll = Pending | Ready "'a result"

datatype write_event = Accept nat | WritePending | WriteError

datatype arrival = Arrived bytes | ReadPending | ReadError

record transport =
  tr_out :: bytes
  tr_script :: "write_event list"
  tr_in :: "arrival list"

definition poll_write :: "transport \<Rightarrow> bytes \<Rightarrow> nat poll \<times> transport" where
  "poll_write t buf =
    (case tr_script t of
       [] \<Rightarrow> (Ready (Inr (length buf)), t\<lparr>tr_out := tr_out t @ buf\<rparr>)
     | Accept n # es \<Rightarrow>
         (Ready (Inr (min n (length buf))), t\<lparr>tr_script := es, tr_out := tr_out t @ take n buf\<rparr>)
     | WritePending # es \<Rightarrow> (Pending, t\<lparr>tr_script := es\<rparr>)
     | WriteError # es \<Rightarrow> (Ready (Inl (Io ''write'')), t\<lparr>tr_script := es\<rparr>))"

definition poll_read :: "transport \<Rightarrow> nat \<Rightarrow> bytes poll \<times> transport" where
  "poll_read t room =
    (case tr_in t of
       [] \<Rightarrow> (Ready (Inr []), t)
     | Arrived c # es \<Rightarrow>
         (Ready (Inr (take room c)),
          t\<lparr>tr_in := (if length c \<le> room then es else Arrived (drop room c) # es)\<rparr>)
     | ReadPending # es \<Rightarrow> (Pending, t\<lparr>tr_in := es\<rparr>)
     | ReadError # es \<Rightarrow> (Ready (Inl (Io ''read'')), t\<lparr>tr_in := es\<rparr>))"

text \<open>The loop both clients write their header with; \<open>msg\<close> is the text of the zero-write error.\<close>

function write_loop :: "string \<Rightarrow> transport \<Rightarrow> bytes \<Rightarrow> unit poll \<times> transport" where
  "write_loop msg t buf =
    (if buf = [] then (Ready (Inr ()), t)
     else case poll_write t buf of
       (Pending, t) \<Rightarrow> (Pending, t)
     | (Ready (Inl e), t) \<Rightarrow> (Ready (Inl e), t)
     | (Ready (Inr n), t) \<Rightarrow>
         (if n = 0 then (Ready (Inl (Io msg)), t) else write_loop msg t (drop n buf)))"
  by pat_completeness auto
termination
  by (relation "measure (\<lambda>(_, _, buf). length buf)") auto

declare write_loop.simps [simp del]

section \<open>The drivers\<close>

text \<open>
  \<open>write_all\<close> over a poll function: a pending write is polled again with the same buffer, a partial
  one with the rest. \<open>read_to_end\<close> collects reads until one is empty. Both take fuel.
\<close>

fun drive_write :: "('s \<Rightarrow> bytes \<Rightarrow> nat poll \<times> 's) \<Rightarrow> nat \<Rightarrow> 's \<Rightarrow> bytes \<Rightarrow> (unit result \<times> 's) option" where
  "drive_write poll 0 s buf = None"
| "drive_write poll (Suc fuel) s buf =
    (if buf = [] then Some (Inr (), s)
     else case poll s buf of
       (Pending, s) \<Rightarrow> drive_write poll fuel s buf
     | (Ready (Inl e), s) \<Rightarrow> Some (Inl e, s)
     | (Ready (Inr n), s) \<Rightarrow>
         (if n = 0 then Some (Inl (Io ''write zero''), s) else drive_write poll fuel s (drop n buf)))"

fun drive_read :: "('s \<Rightarrow> bytes poll \<times> 's) \<Rightarrow> nat \<Rightarrow> 's \<Rightarrow> (bytes \<times> error option) option" where
  "drive_read poll 0 s = None"
| "drive_read poll (Suc fuel) s =
    (case poll s of
       (Pending, s) \<Rightarrow> drive_read poll fuel s
     | (Ready (Inl e), s) \<Rightarrow> Some ([], Some e)
     | (Ready (Inr bs), s) \<Rightarrow>
         (if bs = [] then Some ([], None)
          else map_option (\<lambda>(out, e). (bs @ out, e)) (drive_read poll fuel s)))"

section \<open>A transport that only delays or splits\<close>

definition accepts :: "write_event list \<Rightarrow> bool" where
  "accepts es = list_all (\<lambda>e. case e of Accept n \<Rightarrow> 0 < n | _ \<Rightarrow> False) es"

lemma accepts_simps [simp]:
  "accepts []" "accepts (e # es) \<longleftrightarrow> (\<exists>n. e = Accept n \<and> 0 < n) \<and> accepts es"
  by (auto simp: accepts_def split: write_event.splits)

lemma poll_write_accepts:
  assumes "accepts (tr_script t)" and "buf \<noteq> []"
  shows "\<exists>n es. poll_write t buf = (Ready (Inr n), t\<lparr>tr_script := es, tr_out := tr_out t @ take n buf\<rparr>) \<and>
    0 < n \<and> n \<le> length buf \<and> accepts es \<and> length es \<le> length (tr_script t)"
proof (cases "tr_script t")
  case Nil
  then have "poll_write t buf = (Ready (Inr (length buf)),
      t\<lparr>tr_script := [], tr_out := tr_out t @ take (length buf) buf\<rparr>)"
    by (cases t) (simp add: poll_write_def)
  then show ?thesis
    using assms(2) by (intro exI [of _ "length buf"] exI [of _ "[]"]) simp
next
  case (Cons e es)
  with assms(1) obtain n where "e = Accept n" "0 < n" "accepts es" by auto
  then show ?thesis
    using Cons assms(2)
    by (intro exI [of _ "min n (length buf)"] exI [of _ es]) (auto simp: poll_write_def min_def)
qed

lemma write_loop_accepts:
  "accepts (tr_script t) \<Longrightarrow>
   \<exists>es. write_loop msg t buf = (Ready (Inr ()), t\<lparr>tr_script := es, tr_out := tr_out t @ buf\<rparr>) \<and>
     accepts es \<and> length es \<le> length (tr_script t)"
proof (induction msg t buf rule: write_loop.induct)
  case (1 msg t buf)
  show ?case
  proof (cases "buf = []")
    case True
    with 1 show ?thesis by (intro exI [of _ "tr_script t"]) (simp add: write_loop.simps)
  next
    case False
    obtain n es where p: "poll_write t buf = (Ready (Inr n), t\<lparr>tr_script := es, tr_out := tr_out t @ take n buf\<rparr>)"
      and n: "0 < n" "accepts es" "length es \<le> length (tr_script t)"
      using poll_write_accepts [OF "1.prems" False] by blast
    let ?t = "t\<lparr>tr_script := es, tr_out := tr_out t @ take n buf\<rparr>"
    obtain es' where "write_loop msg ?t (drop n buf) =
        (Ready (Inr ()), ?t\<lparr>tr_script := es', tr_out := tr_out ?t @ drop n buf\<rparr>)"
      "accepts es'" "length es' \<le> length es"
      using "1.IH" [OF False p [symmetric], of "Inr n"] n by auto
    then show ?thesis
      using False p n by (intro exI [of _ es']) (simp add: write_loop.simps [of msg t])
  qed
qed

lemma write_loop_cut:
  assumes "tr_script t = map Accept ns @ WritePending # es" and "0 \<notin> set ns" and "sum_list ns < length buf"
  shows "write_loop msg t buf = (Pending, t\<lparr>tr_script := es, tr_out := tr_out t @ take (sum_list ns) buf\<rparr>)"
  using assms
proof (induction ns arbitrary: t buf)
  case Nil
  then show ?case by (subst write_loop.simps) (cases t, auto simp: poll_write_def)
next
  case (Cons n ns)
  let ?t = "t\<lparr>tr_script := map Accept ns @ WritePending # es, tr_out := tr_out t @ take n buf\<rparr>"
  have "poll_write t buf = (Ready (Inr n), ?t)" using Cons.prems by (simp add: poll_write_def)
  moreover have "write_loop msg ?t (drop n buf) =
      (Pending, ?t\<lparr>tr_script := es, tr_out := tr_out ?t @ take (sum_list ns) (drop n buf)\<rparr>)"
    using Cons.prems by (intro Cons.IH) simp_all
  ultimately show ?case
    using Cons.prems by (auto simp: write_loop.simps [of msg t] take_add)
qed

section \<open>A header in front of the first write\<close>

text \<open>
  The contract of the client streams that defer their request header to the first write: the header is
  taken out of the state before the transport is polled, and behind it the stream is the transport.
\<close>

locale header_first =
  fixes poll :: "'s \<Rightarrow> bytes \<Rightarrow> nat poll \<times> 's"
    and hdr :: "'s \<Rightarrow> bytes"
    and inner :: "'s \<Rightarrow> transport"
    and taken :: "'s \<Rightarrow> transport \<Rightarrow> 's"
    and msg :: string
  assumes poll_eq: "poll s buf =
      (case write_loop msg (inner s) (hdr s) of
         (Pending, t) \<Rightarrow> (Pending, taken s t)
       | (Ready (Inl e), t) \<Rightarrow> (Ready (Inl e), taken s t)
       | (Ready (Inr _), t) \<Rightarrow> (case poll_write t buf of (r, t) \<Rightarrow> (r, taken s t)))"
    and hdr_taken: "hdr (taken s t) = []"
    and inner_taken: "inner (taken s t) = t"
    and taken_taken: "taken (taken s t) t' = taken s t'"
begin

lemma poll_accepts:
  assumes "accepts (tr_script (inner s))" and "buf \<noteq> []"
  shows "\<exists>n es. poll s buf = (Ready (Inr n),
      taken s ((inner s)\<lparr>tr_script := es, tr_out := tr_out (inner s) @ hdr s @ take n buf\<rparr>)) \<and>
    0 < n \<and> n \<le> length buf \<and> accepts es"
proof -
  obtain es where w: "write_loop msg (inner s) (hdr s) =
      (Ready (Inr ()), (inner s)\<lparr>tr_script := es, tr_out := tr_out (inner s) @ hdr s\<rparr>)" and es: "accepts es"
    using write_loop_accepts [OF assms(1)] by blast
  let ?t = "(inner s)\<lparr>tr_script := es, tr_out := tr_out (inner s) @ hdr s\<rparr>"
  obtain n es' where p: "poll_write ?t buf =
      (Ready (Inr n), ?t\<lparr>tr_script := es', tr_out := tr_out ?t @ take n buf\<rparr>)"
    and n: "0 < n" "n \<le> length buf" "accepts es'"
    using poll_write_accepts [of ?t buf] es assms(2) by auto
  show ?thesis using w p n by (intro exI [of _ n] exI [of _ es']) (simp add: poll_eq)
qed

lemma plain_delivers:
  assumes "accepts (tr_script (inner s))" and "hdr s = []" and "length buf < fuel"
    and "taken s (inner s) = s"
  shows "\<exists>es. drive_write poll fuel s buf =
    Some (Inr (), taken s ((inner s)\<lparr>tr_script := es, tr_out := tr_out (inner s) @ buf\<rparr>))"
  using assms
proof (induction fuel arbitrary: s buf)
  case (Suc fuel)
  show ?case
  proof (cases "buf = []")
    case True
    with Suc.prems show ?thesis by (intro exI [of _ "tr_script (inner s)"]) simp
  next
    case False
    obtain n es where p: "poll s buf = (Ready (Inr n),
        taken s ((inner s)\<lparr>tr_script := es, tr_out := tr_out (inner s) @ take n buf\<rparr>))"
      and n: "0 < n" "n \<le> length buf" "accepts es"
      using poll_accepts [OF Suc.prems(1) False] Suc.prems(2) by auto
    let ?t = "(inner s)\<lparr>tr_script := es, tr_out := tr_out (inner s) @ take n buf\<rparr>"
    have "length (drop n buf) < fuel" using Suc.prems(3) n by simp
    then obtain es' where "drive_write poll fuel (taken s ?t) (drop n buf) =
        Some (Inr (), taken (taken s ?t) (?t\<lparr>tr_script := es', tr_out := tr_out ?t @ drop n buf\<rparr>))"
      using Suc.IH [of "taken s ?t" "drop n buf"] n
      by (auto simp: hdr_taken inner_taken taken_taken)
    then show ?thesis using False p n by (intro exI [of _ es']) (simp add: taken_taken)
  qed
qed simp

text \<open>A transport that only splits writes carries header and payload in order.\<close>

lemma delivers:
  assumes "accepts (tr_script (inner s))" and "buf \<noteq> []" and "length buf < fuel"
  shows "\<exists>es. drive_write poll fuel s buf =
    Some (Inr (), taken s ((inner s)\<lparr>tr_script := es, tr_out := tr_out (inner s) @ hdr s @ buf\<rparr>))"
proof -
  obtain k where k: "fuel = Suc k" using assms(3) by (cases fuel) auto
  obtain n es where p: "poll s buf = (Ready (Inr n),
      taken s ((inner s)\<lparr>tr_script := es, tr_out := tr_out (inner s) @ hdr s @ take n buf\<rparr>))"
    and n: "0 < n" "n \<le> length buf" "accepts es"
    using poll_accepts [OF assms(1,2)] by auto
  let ?t = "(inner s)\<lparr>tr_script := es, tr_out := tr_out (inner s) @ hdr s @ take n buf\<rparr>"
  have "length (drop n buf) < k" using assms(3) n k by simp
  then obtain es' where "drive_write poll k (taken s ?t) (drop n buf) =
      Some (Inr (), taken (taken s ?t) (?t\<lparr>tr_script := es', tr_out := tr_out ?t @ drop n buf\<rparr>))"
    using plain_delivers [of "taken s ?t" "drop n buf" k] n
    by (auto simp: hdr_taken inner_taken taken_taken)
  then show ?thesis using assms(2) p n k by (intro exI [of _ es']) (simp add: taken_taken)
qed

text \<open>A transport that is not ready inside the header loses the rest of the header.\<close>

lemma header_cut:
  assumes "tr_script (inner s) = map Accept ns @ WritePending # es" and "0 \<notin> set ns"
    and "sum_list ns < length (hdr s)" and "accepts es" and "buf \<noteq> []" and "length buf + 1 < fuel"
  shows "\<exists>es'. drive_write poll fuel s buf =
    Some (Inr (), taken s ((inner s)\<lparr>tr_script := es',
      tr_out := tr_out (inner s) @ take (sum_list ns) (hdr s) @ buf\<rparr>))"
proof -
  obtain k where k: "fuel = Suc k" using assms(6) by (cases fuel) auto
  let ?t = "(inner s)\<lparr>tr_script := es, tr_out := tr_out (inner s) @ take (sum_list ns) (hdr s)\<rparr>"
  have "poll s buf = (Pending, taken s ?t)"
    using write_loop_cut [OF assms(1-3)] by (simp add: poll_eq)
  moreover obtain es' where "drive_write poll k (taken s ?t) buf =
      Some (Inr (), taken (taken s ?t) (?t\<lparr>tr_script := es', tr_out := tr_out ?t @ buf\<rparr>))"
    using plain_delivers [of "taken s ?t" buf k] assms k by (auto simp: hdr_taken inner_taken taken_taken)
  ultimately show ?thesis using assms(5) k by (intro exI [of _ es']) (simp add: taken_taken)
qed

end

section \<open>Reading what arrives\<close>

fun arrived :: "arrival list \<Rightarrow> bytes" where
  "arrived [] = []"
| "arrived (Arrived c # es) = c @ arrived es"
| "arrived (_ # es) = arrived es"

text \<open>Arrivals without an error, and no empty one, which a reader takes for the end.\<close>

definition steady :: "arrival list \<Rightarrow> bool" where
  "steady es = list_all (\<lambda>e. e \<noteq> Arrived [] \<and> e \<noteq> ReadError) es"

definition backlog :: "arrival list \<Rightarrow> nat" where
  "backlog es = length es + length (arrived es)"

lemma poll_read_steady:
  assumes "steady (tr_in t)" and "0 < room"
  shows "\<exists>es. steady es \<and>
    (tr_in t = [] \<and> poll_read t room = (Ready (Inr []), t) \<or>
     poll_read t room = (Pending, t\<lparr>tr_in := es\<rparr>) \<and> arrived es = arrived (tr_in t) \<and> backlog es < backlog (tr_in t) \<or>
     (\<exists>bs. bs \<noteq> [] \<and> poll_read t room = (Ready (Inr bs), t\<lparr>tr_in := es\<rparr>) \<and> arrived (tr_in t) = bs @ arrived es \<and>
        length bs \<le> room \<and> backlog es < backlog (tr_in t)))"
proof (cases "tr_in t")
  case Nil
  then show ?thesis by (intro exI [of _ "[]"]) (simp add: steady_def poll_read_def)
next
  case (Cons e es)
  show ?thesis
  proof (cases e)
    case (Arrived c)
    show ?thesis
    proof (cases "length c \<le> room")
      case True
      then show ?thesis
        using assms Cons Arrived by (intro exI [of _ es]) (simp add: steady_def poll_read_def backlog_def)
    next
      case False
      then show ?thesis
        using assms Cons Arrived
        by (intro exI [of _ "Arrived (drop room c) # es"]) (auto simp: steady_def poll_read_def backlog_def)
    qed
  next
    case ReadPending
    then show ?thesis
      using assms Cons by (intro exI [of _ es]) (simp add: steady_def poll_read_def backlog_def)
  next
    case ReadError
    then show ?thesis using assms Cons by (simp add: steady_def)
  qed
qed

text \<open>Reading to the end gives everything that arrived, however it was cut and delayed.\<close>

lemma drive_read_transport:
  assumes "steady (tr_in t)" and "0 < room" and "backlog (tr_in t) < fuel"
  shows "drive_read (\<lambda>t. poll_read t room) fuel t = Some (arrived (tr_in t), None)"
  using assms
proof (induction fuel arbitrary: t)
  case (Suc fuel)
  from poll_read_steady [OF Suc.prems(1,2)] obtain es where es: "steady es" and
    "tr_in t = [] \<and> poll_read t room = (Ready (Inr []), t) \<or>
     poll_read t room = (Pending, t\<lparr>tr_in := es\<rparr>) \<and> arrived es = arrived (tr_in t) \<and> backlog es < backlog (tr_in t) \<or>
     (\<exists>bs. bs \<noteq> [] \<and> poll_read t room = (Ready (Inr bs), t\<lparr>tr_in := es\<rparr>) \<and> arrived (tr_in t) = bs @ arrived es \<and>
        length bs \<le> room \<and> backlog es < backlog (tr_in t))" by blast
  then show ?case
    using Suc.IH [of "t\<lparr>tr_in := es\<rparr>"] Suc.prems(2,3) es by auto
qed simp

end
