(* ===== verification/Vless_Trojan.thy ===== *)
theory Vless_Trojan
  imports Transport
begin

text \<open>
  The VLESS and Trojan clients (src/engine/src/proto/vless.rs, src/engine/src/proto/trojan.rs) as poll
  functions over a transport, and the servers that invert them
  (src/engine/src/inbound/proxy_server/vless.rs and trojan.rs) as handshakes on the stream behind TLS.
  A UUID is its 128-bit value; SHA-224 is a parameter.
\<close>

section \<open>VLESS client\<close>

record vless_out =
  vo_server :: string
  vo_port :: u16
  vo_uuid :: u128

definition CMD_TCP :: u8 where "CMD_TCP = 0x01"

definition VLESS_CMD_UDP :: u8 where "VLESS_CMD_UDP = 0x02"

record vless_stream =
  vs_inner :: transport
  vs_pending :: bytes
  vs_consumed :: bool
  vs_resp_hdr :: bytes

definition request_header_bytes :: "vless_out \<Rightarrow> net_addr \<Rightarrow> bool \<Rightarrow> bytes option \<Rightarrow> bytes" where
  "request_header_bytes cfg target is_udp addons =
    encode_port_first_addr
      ([0x00] @ u128_be (vo_uuid cfg) @ (case addons of Some bs \<Rightarrow> bs | None \<Rightarrow> [0x00]) @
       [if is_udp then VLESS_CMD_UDP else CMD_TCP])
      (na_host target) (na_port target)"

definition vless_handshake_with_addons :: "transport \<Rightarrow> vless_out \<Rightarrow> net_addr \<Rightarrow> bool \<Rightarrow> bytes option \<Rightarrow> vless_stream" where
  "vless_handshake_with_addons t cfg target is_udp addons =
    \<lparr>vs_inner = t, vs_pending = request_header_bytes cfg target is_udp addons, vs_consumed = False, vs_resp_hdr = []\<rparr>"

definition vless_handshake :: "transport \<Rightarrow> vless_out \<Rightarrow> net_addr \<Rightarrow> bool \<Rightarrow> vless_stream" where
  "vless_handshake t cfg target is_udp = vless_handshake_with_addons t cfg target is_udp None"

definition ready_write_all :: "transport \<Rightarrow> bytes \<Rightarrow> unit poll \<times> transport" where
  "ready_write_all = write_loop ''vless: transport accepted zero bytes''"

definition vless_poll_write :: "vless_stream \<Rightarrow> bytes \<Rightarrow> nat poll \<times> vless_stream" where
  "vless_poll_write s buf =
    (if vs_pending s \<noteq> [] then
       (case ready_write_all (vs_inner s) (vs_pending s) of
          (Pending, t) \<Rightarrow> (Pending, s\<lparr>vs_pending := [], vs_inner := t\<rparr>)
        | (Ready (Inl e), t) \<Rightarrow> (Ready (Inl e), s\<lparr>vs_pending := [], vs_inner := t\<rparr>)
        | (Ready (Inr _), t) \<Rightarrow>
            (case poll_write t buf of (r, t) \<Rightarrow> (r, s\<lparr>vs_pending := [], vs_inner := t\<rparr>)))
     else case poll_write (vs_inner s) buf of (r, t) \<Rightarrow> (r, s\<lparr>vs_inner := t\<rparr>))"

text \<open>
  The two loops of the response header: its two fixed bytes, then the addons it announces. The second
  is only entered with two bytes read.
\<close>

function vless_read_head :: "transport \<Rightarrow> bytes \<Rightarrow> unit poll \<times> transport \<times> bytes" where
  "vless_read_head t h =
    (if 2 \<le> length h then (Ready (Inr ()), t, h)
     else case poll_read t (2 - length h) of
       (Pending, t) \<Rightarrow> (Pending, t, h)
     | (Ready (Inl e), t) \<Rightarrow> (Ready (Inl e), t, h)
     | (Ready (Inr bs), t) \<Rightarrow>
         (if bs = [] then (Ready (Inl (Io ''vless: truncated response header'')), t, h)
          else vless_read_head t (h @ bs)))"
  by pat_completeness auto
termination
  by (relation "measure (\<lambda>(_, h). 2 - length h)") (auto simp: neq_Nil_conv)

function vless_skip_addons :: "transport \<Rightarrow> bytes \<Rightarrow> unit poll \<times> transport \<times> bytes" where
  "vless_skip_addons t h =
    (if 2 + unat (h ! 1) \<le> length h \<or> length h < 2 then (Ready (Inr ()), t, h)
     else case poll_read t 64 of
       (Pending, t) \<Rightarrow> (Pending, t, h)
     | (Ready (Inl e), t) \<Rightarrow> (Ready (Inl e), t, h)
     | (Ready (Inr bs), t) \<Rightarrow>
         (if bs = [] then (Ready (Inl (Io ''vless: truncated response addons'')), t, h)
          else vless_skip_addons t (h @ bs)))"
  by pat_completeness auto
termination
  by (relation "measure (\<lambda>(_, h). 2 + unat (h ! 1) - length h)") (auto simp: neq_Nil_conv nth_append)

declare vless_read_head.simps [simp del] vless_skip_addons.simps [simp del]

definition vless_poll_read :: "nat \<Rightarrow> vless_stream \<Rightarrow> bytes poll \<times> vless_stream" where
  "vless_poll_read room s =
    (if vs_consumed s then (case poll_read (vs_inner s) room of (r, t) \<Rightarrow> (r, s\<lparr>vs_inner := t\<rparr>))
     else case vless_read_head (vs_inner s) (vs_resp_hdr s) of
       (Pending, t, h) \<Rightarrow> (Pending, s\<lparr>vs_inner := t, vs_resp_hdr := h\<rparr>)
     | (Ready (Inl e), t, h) \<Rightarrow> (Ready (Inl e), s\<lparr>vs_inner := t, vs_resp_hdr := h\<rparr>)
     | (Ready (Inr _), t, h) \<Rightarrow>
         (case vless_skip_addons t h of
            (Pending, t, h) \<Rightarrow> (Pending, s\<lparr>vs_inner := t, vs_resp_hdr := h\<rparr>)
          | (Ready (Inl e), t, h) \<Rightarrow> (Ready (Inl e), s\<lparr>vs_inner := t, vs_resp_hdr := h\<rparr>)
          | (Ready (Inr _), t, h) \<Rightarrow>
              (case poll_read t room of
                 (r, t) \<Rightarrow> (r, s\<lparr>vs_inner := t, vs_consumed := True, vs_resp_hdr := h\<rparr>))))"

section \<open>Trojan client\<close>

record trojan_out =
  to_server :: string
  to_port :: u16
  to_password :: string

definition TROJAN_CMD_UDP :: u8 where "TROJAN_CMD_UDP = 0x03"

definition hex_byte :: "u8 \<Rightarrow> string" where
  "hex_byte b = (let h = show_radix 16 (unat b) in replicate (2 - length h) CHR ''0'' @ h)"

definition trojan_password_hex :: "(bytes \<Rightarrow> bytes) \<Rightarrow> string \<Rightarrow> string" where
  "trojan_password_hex sha224 password = concat (map hex_byte (sha224 (as_bytes password)))"

record trojan_stream =
  ts_inner :: transport
  ts_pending :: "bytes option"

definition trojan_header :: "(bytes \<Rightarrow> bytes) \<Rightarrow> trojan_out \<Rightarrow> net_addr \<Rightarrow> bool \<Rightarrow> bytes" where
  "trojan_header sha224 cfg target is_udp =
    encode_socks_addr
      (as_bytes (trojan_password_hex sha224 (to_password cfg)) @ [0x0D, 0x0A] @
       [if is_udp then TROJAN_CMD_UDP else CMD_TCP])
      (na_host target) (na_port target) @ [0x0D, 0x0A]"

definition trojan_handshake :: "(bytes \<Rightarrow> bytes) \<Rightarrow> transport \<Rightarrow> trojan_out \<Rightarrow> net_addr \<Rightarrow> bool \<Rightarrow> trojan_stream" where
  "trojan_handshake sha224 t cfg target is_udp =
    \<lparr>ts_inner = t, ts_pending = Some (trojan_header sha224 cfg target is_udp)\<rparr>"

definition write_all_pin :: "transport \<Rightarrow> bytes \<Rightarrow> unit poll \<times> transport" where
  "write_all_pin = write_loop ''trojan: transport accepted zero bytes''"

definition trojan_poll_write :: "trojan_stream \<Rightarrow> bytes \<Rightarrow> nat poll \<times> trojan_stream" where
  "trojan_poll_write s buf =
    (case ts_pending s of
       Some hdr \<Rightarrow>
         (case write_all_pin (ts_inner s) hdr of
            (Pending, t) \<Rightarrow> (Pending, s\<lparr>ts_pending := None, ts_inner := t\<rparr>)
          | (Ready (Inl e), t) \<Rightarrow> (Ready (Inl e), s\<lparr>ts_pending := None, ts_inner := t\<rparr>)
          | (Ready (Inr _), t) \<Rightarrow>
              (case poll_write t buf of (r, t) \<Rightarrow> (r, s\<lparr>ts_pending := None, ts_inner := t\<rparr>)))
     | None \<Rightarrow> (case poll_write (ts_inner s) buf of (r, t) \<Rightarrow> (r, s\<lparr>ts_inner := t\<rparr>)))"

definition trojan_poll_read :: "nat \<Rightarrow> trojan_stream \<Rightarrow> bytes poll \<times> trojan_stream" where
  "trojan_poll_read room s = (case poll_read (ts_inner s) room of (r, t) \<Rightarrow> (r, s\<lparr>ts_inner := t\<rparr>))"

section \<open>Servers\<close>

definition vless_handle :: "u128 \<Rightarrow> socket_addr \<Rightarrow> u16 \<Rightarrow> string \<Rightarrow> served io_op" where
  "vless_handle uuid peer port tag =
    io_bind (read_exact 18) (\<lambda>head.
    if head ! 0 \<noteq> 0 then io_fail (Protocol ''vless: unsupported version'')
    else if \<not> ct_eq (take 16 (drop 1 head)) (u128_be uuid) then io_fail (Protocol ''vless: unknown uuid'')
    else if head ! 17 \<noteq> 0 then io_fail (Protocol ''vless: flow/addons are not supported by this server'')
    else
      io_bind (read_exact 1) (\<lambda>cmd.
      io_bind
        (if cmd ! 0 = CMD_TCP then io_return False
         else if cmd ! 0 = VLESS_CMD_UDP then io_return True
         else io_fail (Protocol ''vless: bad command'')) (\<lambda>udp.
      io_bind read_port_first_addr (\<lambda>target.
      io_bind (write_all [0x00, 0x00]) (\<lambda>_.
        io_return (if udp then ServedFrames peer tag False else hand_off tag ''vless'' port peer target))))))"

definition trojan_handle :: "string \<Rightarrow> socket_addr \<Rightarrow> u16 \<Rightarrow> string \<Rightarrow> served io_op" where
  "trojan_handle password_hex peer port tag =
    io_bind (read_exact 56) (\<lambda>password.
    if \<not> ct_eq password (as_bytes password_hex) then io_fail (Protocol ''trojan: wrong password'')
    else
      io_bind (read_exact 2) (\<lambda>crlf.
      if crlf \<noteq> [0x0D, 0x0A] then io_fail (Protocol ''trojan: missing CRLF after password'')
      else
        io_bind (read_exact 1) (\<lambda>cmd.
        io_bind
          (if cmd ! 0 = CMD_TCP then io_return False
           else if cmd ! 0 = TROJAN_CMD_UDP then io_return True
           else io_fail (Protocol ''trojan: bad command'')) (\<lambda>udp.
        io_bind read_socks_addr (\<lambda>target.
        io_bind (read_exact 2) (\<lambda>crlf.
        if crlf \<noteq> [0x0D, 0x0A] then io_fail (Protocol ''trojan: missing CRLF after address'')
        else io_return (if udp then ServedFrames peer tag True else hand_off tag ''trojan'' port peer target)))))))"

section \<open>Both clients send a header first\<close>

definition vless_taken :: "vless_stream \<Rightarrow> transport \<Rightarrow> vless_stream" where
  "vless_taken s t = s\<lparr>vs_pending := [], vs_inner := t\<rparr>"

definition trojan_taken :: "trojan_stream \<Rightarrow> transport \<Rightarrow> trojan_stream" where
  "trojan_taken s t = s\<lparr>ts_pending := None, ts_inner := t\<rparr>"

definition trojan_pending :: "trojan_stream \<Rightarrow> bytes" where
  "trojan_pending s = (case ts_pending s of Some hdr \<Rightarrow> hdr | None \<Rightarrow> [])"

interpretation vless: header_first vless_poll_write vs_pending vs_inner vless_taken "''vless: transport accepted zero bytes''"
proof (unfold_locales, goal_cases)
  case (1 s buf)
  then show ?case
    by (cases s) (auto simp: vless_poll_write_def ready_write_all_def vless_taken_def
      write_loop.simps [of _ _ "[]"] split: prod.splits poll.splits sum.splits)
qed (simp_all add: vless_taken_def)

interpretation trojan: header_first trojan_poll_write trojan_pending ts_inner trojan_taken
  "''trojan: transport accepted zero bytes''"
proof (unfold_locales, goal_cases)
  case (1 s buf)
  then show ?case
    by (cases s) (auto simp: trojan_poll_write_def write_all_pin_def trojan_taken_def trojan_pending_def
      write_loop.simps [of _ _ "[]"] split: prod.splits poll.splits sum.splits option.splits)
qed (simp_all add: trojan_taken_def trojan_pending_def)

section \<open>Reading behind the response header\<close>

lemma vless_read_head_steady:
  assumes "steady (tr_in t)" and "h @ arrived (tr_in t) = [v, a] @ data" and "length h \<le> 2"
  shows "\<exists>es h'. steady es \<and> h' @ arrived es = [v, a] @ data \<and> backlog es \<le> backlog (tr_in t) \<and>
    (vless_read_head t h = (Ready (Inr ()), t\<lparr>tr_in := es\<rparr>, h') \<and> length h' = 2 \<or>
     vless_read_head t h = (Pending, t\<lparr>tr_in := es\<rparr>, h') \<and> length h' \<le> 2 \<and> backlog es < backlog (tr_in t))"
  using assms
proof (induction t h rule: vless_read_head.induct)
  case (1 t h)
  show ?case
  proof (cases "2 \<le> length h")
    case True
    then show ?thesis
      using "1.prems" by (intro exI [of _ "tr_in t"] exI [of _ h]) (simp add: vless_read_head.simps [of t h])
  next
    case False
    then have room: "0 < 2 - length h" by simp
    from poll_read_steady [OF "1.prems"(1) room] obtain es where es: "steady es" and
      p: "tr_in t = [] \<and> poll_read t (2 - length h) = (Ready (Inr []), t) \<or>
       poll_read t (2 - length h) = (Pending, t\<lparr>tr_in := es\<rparr>) \<and> arrived es = arrived (tr_in t) \<and>
         backlog es < backlog (tr_in t) \<or>
       (\<exists>bs. bs \<noteq> [] \<and> poll_read t (2 - length h) = (Ready (Inr bs), t\<lparr>tr_in := es\<rparr>) \<and>
          arrived (tr_in t) = bs @ arrived es \<and> length bs \<le> 2 - length h \<and> backlog es < backlog (tr_in t))"
      by blast
    from p show ?thesis
    proof (elim disjE conjE exE)
      assume "tr_in t = []"
      then show ?thesis using "1.prems"(2) False by simp
    next
      assume "poll_read t (2 - length h) = (Pending, t\<lparr>tr_in := es\<rparr>)" "arrived es = arrived (tr_in t)"
        "backlog es < backlog (tr_in t)"
      then show ?thesis
        using "1.prems" es False
        by (intro exI [of _ es] exI [of _ h]) (simp add: vless_read_head.simps [of t h])
    next
      fix bs
      assume bs: "bs \<noteq> []" "poll_read t (2 - length h) = (Ready (Inr bs), t\<lparr>tr_in := es\<rparr>)"
        "arrived (tr_in t) = bs @ arrived es" "length bs \<le> 2 - length h" "backlog es < backlog (tr_in t)"
      have "vless_read_head t h = vless_read_head (t\<lparr>tr_in := es\<rparr>) (h @ bs)"
        using bs False by (simp add: vless_read_head.simps [of t h])
      moreover have "length (h @ bs) \<le> 2" using bs(4) False by simp
      then obtain es' h' where "steady es'" "h' @ arrived es' = [v, a] @ data" "backlog es' \<le> backlog es"
        "vless_read_head (t\<lparr>tr_in := es\<rparr>) (h @ bs) = (Ready (Inr ()), t\<lparr>tr_in := es'\<rparr>, h') \<and> length h' = 2 \<or>
         vless_read_head (t\<lparr>tr_in := es\<rparr>) (h @ bs) = (Pending, t\<lparr>tr_in := es'\<rparr>, h') \<and> length h' \<le> 2 \<and>
           backlog es' < backlog es"
        using "1.IH" [OF False bs(2) [symmetric] refl refl bs(1)] "1.prems" bs(3) es by auto
      ultimately show ?thesis using bs(5) by (intro exI [of _ es'] exI [of _ h']) auto
    qed
  qed
qed

text \<open>A stream past its response header reads its transport.\<close>

lemma drive_read_consumed:
  assumes "vs_consumed s" and "steady (tr_in (vs_inner s))" and "0 < room" and "backlog (tr_in (vs_inner s)) < fuel"
  shows "drive_read (vless_poll_read room) fuel s = Some (arrived (tr_in (vs_inner s)), None)"
proof -
  have "drive_read (vless_poll_read room) fuel s = drive_read (\<lambda>t. poll_read t room) fuel (vs_inner s)"
    using assms(1)
  proof (induction fuel arbitrary: s)
    case (Suc fuel)
    obtain r t where "poll_read (vs_inner s) room = (r, t)" by fastforce
    then show ?case
      using Suc.IH [of "s\<lparr>vs_inner := t\<rparr>"] Suc.prems
      by (cases r) (auto simp: vless_poll_read_def split: sum.splits)
  qed simp
  with drive_read_transport [OF assms(2-4)] show ?thesis by simp
qed

lemma drive_read_response:
  assumes "\<not> vs_consumed s" and "steady (tr_in (vs_inner s))" and "0 < room"
    and "vs_resp_hdr s @ arrived (tr_in (vs_inner s)) = [v, 0] @ data" and "length (vs_resp_hdr s) \<le> 2"
    and "backlog (tr_in (vs_inner s)) + 1 < fuel"
  shows "drive_read (vless_poll_read room) fuel s = Some (data, None)"
  using assms
proof (induction fuel arbitrary: s)
  case (Suc fuel)
  obtain es h where es: "steady es" "h @ arrived es = [v, 0] @ data" "backlog es \<le> backlog (tr_in (vs_inner s))" and
    p: "vless_read_head (vs_inner s) (vs_resp_hdr s) = (Ready (Inr ()), (vs_inner s)\<lparr>tr_in := es\<rparr>, h) \<and> length h = 2 \<or>
     vless_read_head (vs_inner s) (vs_resp_hdr s) = (Pending, (vs_inner s)\<lparr>tr_in := es\<rparr>, h) \<and> length h \<le> 2 \<and>
       backlog es < backlog (tr_in (vs_inner s))"
    using vless_read_head_steady [OF Suc.prems(2,4,5)] by blast
  from p show ?case
  proof (elim disjE conjE)
    assume r: "vless_read_head (vs_inner s) (vs_resp_hdr s) = (Ready (Inr ()), (vs_inner s)\<lparr>tr_in := es\<rparr>, h)"
      and l: "length h = 2"
    then obtain x y where "h = [x, y]" by (auto simp: numeral_2_eq_2 length_Suc_conv)
    then have h: "h = [v, 0]" and d: "arrived es = data" using es(2) by auto
    let ?s = "s\<lparr>vs_inner := (vs_inner s)\<lparr>tr_in := es\<rparr>, vs_consumed := True, vs_resp_hdr := h\<rparr>"
    have "vless_poll_read room s = vless_poll_read room ?s"
      using r h Suc.prems(1) by (simp add: vless_poll_read_def vless_skip_addons.simps split: prod.splits)
    then have "drive_read (vless_poll_read room) (Suc fuel) s = drive_read (vless_poll_read room) (Suc fuel) ?s"
      by simp
    with drive_read_consumed [of ?s room "Suc fuel"] es Suc.prems(3,6) d show ?thesis by simp
  next
    assume r: "vless_read_head (vs_inner s) (vs_resp_hdr s) = (Pending, (vs_inner s)\<lparr>tr_in := es\<rparr>, h)"
      and l: "length h \<le> 2" "backlog es < backlog (tr_in (vs_inner s))"
    let ?s = "s\<lparr>vs_inner := (vs_inner s)\<lparr>tr_in := es\<rparr>, vs_resp_hdr := h\<rparr>"
    have "vless_poll_read room s = (Pending, ?s)" using r Suc.prems(1) by (simp add: vless_poll_read_def)
    with Suc.IH [of ?s] es l Suc.prems show ?thesis by simp
  qed
qed simp

section \<open>Serving a request\<close>

lemma vless_serve:
  assumes "wire_addr target"
  shows "vless_handle (vo_uuid cfg) peer port tag
      \<lparr>io_in = request_header_bytes cfg target udp None @ rest, io_out = out\<rparr> =
    (Inr (if udp then ServedFrames peer tag False else hand_off tag ''vless'' port peer target),
     \<lparr>io_in = rest, io_out = out @ [0x00, 0x00]\<rparr>)"
proof -
  let ?head = "[0] @ u128_be (vo_uuid cfg) @ [0]"
  have hdr: "request_header_bytes cfg target udp None = ?head @ (if udp then VLESS_CMD_UDP else CMD_TCP) # enc_port_first target"
    by (simp add: request_header_bytes_def
      encode_port_first_append [of "0 # u128_be (vo_uuid cfg) @ [0, c]" for c] Let_def)
  have head: "io_bind (read_exact 18) f \<lparr>io_in = 0 # u128_be (vo_uuid cfg) @ 0 # r, io_out = out\<rparr> =
      f ?head \<lparr>io_in = r, io_out = out\<rparr>" for f :: "bytes \<Rightarrow> served io_op" and r
    using read_exact_prefix_bind [of ?head 18 f r out] by simp
  have addr: "io_bind read_port_first_addr f \<lparr>io_in = enc_port_first target @ rest, io_out = out\<rparr> =
      f target \<lparr>io_in = rest, io_out = out\<rparr>" for f :: "net_addr \<Rightarrow> served io_op"
    by (rule io_bind_step) (rule read_port_first_encoded [OF assms])
  have "?head ! 17 = 0" by (simp add: nth_append)
  then show ?thesis
    by (simp add: vless_handle_def hdr head io_simps addr CMD_TCP_def VLESS_CMD_UDP_def)
qed

lemma trojan_serve:
  assumes "wire_addr target" and "length (trojan_password_hex sha224 (to_password cfg)) = 56"
  shows "trojan_handle (trojan_password_hex sha224 (to_password cfg)) peer port tag
      \<lparr>io_in = trojan_header sha224 cfg target udp @ rest, io_out = out\<rparr> =
    (Inr (if udp then ServedFrames peer tag True else hand_off tag ''trojan'' port peer target),
     \<lparr>io_in = rest, io_out = out\<rparr>)"
proof -
  let ?pw = "as_bytes (trojan_password_hex sha224 (to_password cfg))"
  have hdr: "trojan_header sha224 cfg target udp =
      ?pw @ [0x0D, 0x0A] @ (if udp then TROJAN_CMD_UDP else CMD_TCP) # enc_socks target @ [0x0D, 0x0A]"
    by (simp add: trojan_header_def encode_socks_addr_append [of "?pw @ c" for c] Let_def)
  have pw: "io_bind (read_exact 56) f \<lparr>io_in = ?pw @ r, io_out = out\<rparr> = f ?pw \<lparr>io_in = r, io_out = out\<rparr>"
    for f :: "bytes \<Rightarrow> served io_op" and r
    using assms(2) by (intro read_exact_prefix_bind) simp
  have addr: "io_bind read_socks_addr f \<lparr>io_in = enc_socks target @ r, io_out = out\<rparr> =
      f target \<lparr>io_in = r, io_out = out\<rparr>" for f :: "net_addr \<Rightarrow> served io_op" and r
    by (rule io_bind_step) (rule read_socks_addr_encoded [OF assms(1)])
  show ?thesis
    by (simp add: trojan_handle_def hdr pw io_simps addr CMD_TCP_def TROJAN_CMD_UDP_def)
qed

section \<open>Theorems\<close>

text \<open>
  C21: The VLESS client and server agree over a transport that splits writes and reads anywhere and
  delays reads. Writing a payload puts on the wire a request that the server with the same UUID serves
  for exactly the target, leaving the payload in the stream; and when the server's answer and data come
  back in any pieces, the client reads exactly the data.
\<close>

theorem vless_connect_agrees:
  assumes "wire_addr target" and "payload \<noteq> []" and "accepts script" and "steady arrivals" and "0 < room"
    and "arrived arrivals = [0x00, 0x00] @ down"
  shows "\<exists>s wire fuel.
    drive_write vless_poll_write fuel
      (vless_handshake \<lparr>tr_out = [], tr_script = script, tr_in = arrivals\<rparr> cfg target udp) payload = Some (Inr (), s) \<and>
    tr_out (vs_inner s) = wire \<and>
    vless_handle (vo_uuid cfg) peer port tag \<lparr>io_in = wire, io_out = []\<rparr> =
      (Inr (if udp then ServedFrames peer tag False else hand_off tag ''vless'' port peer target),
       \<lparr>io_in = payload, io_out = [0x00, 0x00]\<rparr>) \<and>
    drive_read (vless_poll_read room) fuel s = Some (down, None)"
proof -
  let ?s = "vless_handshake \<lparr>tr_out = [], tr_script = script, tr_in = arrivals\<rparr> cfg target udp"
  define fuel where "fuel = length payload + backlog arrivals + 2"
  obtain es s where w: "drive_write vless_poll_write fuel ?s payload = Some (Inr (), s)" and
    s: "s = vless_taken ?s ((vs_inner ?s)\<lparr>tr_script := es, tr_out := tr_out (vs_inner ?s) @ vs_pending ?s @ payload\<rparr>)"
    using vless.delivers [of ?s payload fuel] assms(2,3)
    by (auto simp: vless_handshake_def vless_handshake_with_addons_def fuel_def)
  have "drive_read (vless_poll_read room) fuel s = Some (down, None)"
    using assms(4-6) by (intro drive_read_response)
      (simp_all add: s vless_taken_def vless_handshake_def vless_handshake_with_addons_def fuel_def)
  moreover have "tr_out (vs_inner s) = request_header_bytes cfg target udp None @ payload"
    by (simp add: s vless_taken_def vless_handshake_def vless_handshake_with_addons_def)
  ultimately show ?thesis
    using w vless_serve [OF assms(1), of cfg peer port tag udp payload "[]"]
    by (intro exI [of _ s] exI [of _ "request_header_bytes cfg target udp None @ payload"] exI [of _ fuel]) simp
qed

theorem vless_connect_agrees_witness:
  "\<exists>s wire fuel.
    drive_write vless_poll_write fuel
      (vless_handshake \<lparr>tr_out = [], tr_script = [Accept 3, Accept 9], tr_in = [Arrived [0], ReadPending, Arrived [0, 7]]\<rparr>
        \<lparr>vo_server = ''h'', vo_port = 443, vo_uuid = 5\<rparr> \<lparr>na_host = Ip (V4 1), na_port = 53\<rparr> False) [8] = Some (Inr (), s) \<and>
    tr_out (vs_inner s) = wire \<and>
    vless_handle 5 (V4 2, 9) 1 ''in'' \<lparr>io_in = wire, io_out = []\<rparr> =
      (Inr (hand_off ''in'' ''vless'' 1 (V4 2, 9) \<lparr>na_host = Ip (V4 1), na_port = 53\<rparr>),
       \<lparr>io_in = [8], io_out = [0x00, 0x00]\<rparr>) \<and>
    drive_read (vless_poll_read 16) fuel s = Some ([7], None)"
  using vless_connect_agrees [of "\<lparr>na_host = Ip (V4 1), na_port = 53\<rparr>" "[8]" "[Accept 3, Accept 9]"
      "[Arrived [0], ReadPending, Arrived [0, 7]]" 16 "[7]" "\<lparr>vo_server = ''h'', vo_port = 443, vo_uuid = 5\<rparr>" False
      "(V4 2, 9)" 1 "''in''"]
  by (simp add: wire_addr_def wire_host_def steady_def)

text \<open>
  C22: The Trojan client and server agree: over a transport that splits writes anywhere, the request and
  the payload arrive in order, and a server with the same password serves exactly the target, with the
  payload left in the stream. The digest has 28 bytes, as SHA-224 does.
\<close>

theorem trojan_connect_agrees:
  assumes "wire_addr target" and "payload \<noteq> []" and "accepts script" and "length (sha224 (as_bytes (to_password cfg))) = 28"
  shows "\<exists>s wire fuel.
    drive_write trojan_poll_write fuel
      (trojan_handshake sha224 \<lparr>tr_out = [], tr_script = script, tr_in = arrivals\<rparr> cfg target udp) payload = Some (Inr (), s) \<and>
    tr_out (ts_inner s) = wire \<and>
    trojan_handle (trojan_password_hex sha224 (to_password cfg)) peer port tag \<lparr>io_in = wire, io_out = []\<rparr> =
      (Inr (if udp then ServedFrames peer tag True else hand_off tag ''trojan'' port peer target),
       \<lparr>io_in = payload, io_out = []\<rparr>)"
proof -
  let ?s = "trojan_handshake sha224 \<lparr>tr_out = [], tr_script = script, tr_in = arrivals\<rparr> cfg target udp"
  have "length (hex_byte b) = 2" for b
  proof -
    have "unat b div 16 < 16" using unat_u8_less [of b] by (intro less_mult_imp_div_less) simp
    then have "length (show_radix 16 (unat b)) \<le> 2"
      by (simp add: show_radix.simps [of 16 "unat b"] show_radix.simps [of 16 "unat b div 16"])
    then show ?thesis by (simp add: hex_byte_def Let_def)
  qed
  then have "length (trojan_password_hex sha224 (to_password cfg)) = 56"
    using assms(4) by (simp add: trojan_password_hex_def length_concat sum_list_replicate comp_def map_replicate_const)
  note serve = trojan_serve [OF assms(1) this, of peer port tag udp payload "[]"]
  obtain es s where w: "drive_write trojan_poll_write (length payload + 1) ?s payload = Some (Inr (), s)" and
    s: "s = trojan_taken ?s ((ts_inner ?s)\<lparr>tr_script := es, tr_out := tr_out (ts_inner ?s) @ trojan_pending ?s @ payload\<rparr>)"
    using trojan.delivers [of ?s payload "length payload + 1"] assms(2,3) by (auto simp: trojan_handshake_def)
  have "tr_out (ts_inner s) = trojan_header sha224 cfg target udp @ payload"
    by (simp add: s trojan_taken_def trojan_handshake_def trojan_pending_def)
  with w serve show ?thesis
    by (intro exI [of _ s] exI [of _ "trojan_header sha224 cfg target udp @ payload"]
        exI [of _ "length payload + 1"]) simp
qed

theorem trojan_connect_agrees_witness:
  "\<exists>s wire fuel.
    drive_write trojan_poll_write fuel
      (trojan_handshake (\<lambda>_. replicate 28 0xAB) \<lparr>tr_out = [], tr_script = [Accept 60], tr_in = []\<rparr>
        \<lparr>to_server = ''h'', to_port = 443, to_password = ''x''\<rparr> \<lparr>na_host = Ip (V4 1), na_port = 53\<rparr> True) [8] = Some (Inr (), s) \<and>
    tr_out (ts_inner s) = wire \<and>
    trojan_handle (trojan_password_hex (\<lambda>_. replicate 28 0xAB) ''x'') (V4 2, 9) 1 ''in'' \<lparr>io_in = wire, io_out = []\<rparr> =
      (Inr (ServedFrames (V4 2, 9) ''in'' True), \<lparr>io_in = [8], io_out = []\<rparr>)"
  using trojan_connect_agrees [of "\<lparr>na_host = Ip (V4 1), na_port = 53\<rparr>" "[8]" "[Accept 60]" "\<lambda>_. replicate 28 0xAB"
      "\<lparr>to_server = ''h'', to_port = 443, to_password = ''x''\<rparr>" "[]" True "(V4 2, 9)" 1 "''in''"]
  by (simp add: wire_addr_def wire_host_def)

text \<open>
  The VLESS header is lost when the transport is not ready inside it. If the transport takes part of
  the header, answers \<open>Pending\<close> once and then takes everything, the write completes without an error,
  yet only the part taken before the pause is on the wire, directly followed by the payload.
\<close>

theorem vless_header_lost:
  assumes "vs_pending s = hdr" and "tr_script (vs_inner s) = map Accept ns @ [WritePending]" and "0 \<notin> set ns"
    and "sum_list ns < length hdr" and "payload \<noteq> []"
  shows "\<exists>s'. drive_write vless_poll_write (length payload + 2) s payload = Some (Inr (), s') \<and>
    tr_out (vs_inner s') = tr_out (vs_inner s) @ take (sum_list ns) hdr @ payload"
  using vless.header_cut [of s ns "[]" payload "length payload + 2"] assms by (auto simp: vless.inner_taken)

theorem vless_header_lost_witness:
  "\<exists>s'. drive_write vless_poll_write 3
      \<lparr>vs_inner = \<lparr>tr_out = [], tr_script = [Accept 1, WritePending], tr_in = []\<rparr>, vs_pending = [0, 1, 2],
       vs_consumed = False, vs_resp_hdr = []\<rparr> [9] = Some (Inr (), s') \<and>
    tr_out (vs_inner s') = [0, 9]"
  using vless_header_lost [of "\<lparr>vs_inner = \<lparr>tr_out = [], tr_script = [Accept 1, WritePending], tr_in = []\<rparr>,
      vs_pending = [0, 1, 2], vs_consumed = False, vs_resp_hdr = []\<rparr>" "[0, 1, 2]" "[1]" "[9]"]
  by (simp add: numeral_3_eq_3)

text \<open>The Trojan client loses its header in the same way, and skipping addons can take payload with it.\<close>

lemma trojan_header_lost:
  assumes "ts_pending s = Some hdr" and "tr_script (ts_inner s) = map Accept ns @ [WritePending]" and "0 \<notin> set ns"
    and "sum_list ns < length hdr" and "payload \<noteq> []"
  shows "\<exists>s'. drive_write trojan_poll_write (length payload + 2) s payload = Some (Inr (), s') \<and>
    tr_out (ts_inner s') = tr_out (ts_inner s) @ take (sum_list ns) hdr @ payload"
  using trojan.header_cut [of s ns "[]" payload "length payload + 2"] assms
  by (auto simp: trojan.inner_taken trojan_pending_def)

lemma vless_addons_swallow:
  "drive_read (vless_poll_read 16) 9
     \<lparr>vs_inner = \<lparr>tr_out = [], tr_script = [], tr_in = [Arrived [0, 1, 5, 7, 8]]\<rparr>, vs_pending = [],
      vs_consumed = False, vs_resp_hdr = []\<rparr> = Some ([], None)"
  by (simp add: numeral_eq_Suc vless_poll_read_def vless_read_head.simps vless_skip_addons.simps poll_read_def)

end
