(* ===== verification/Fakeip.thy ===== *)
theory Fakeip
  imports Rust_Net
begin

text \<open>
  The fake-IP pool (src/engine/src/dns/fakeip.rs): a bounded two-way map between domains and
  addresses carved out of a reserved IPv4 range, with approximate LRU eviction, a wrapping
  allocation cursor, and a JSON store that survives restarts. The JSON encoder and decoder
  (\<open>serde_json\<close>) and the file read are parameters; integer arithmetic wraps, as in the
  release profile.
\<close>

section \<open>State\<close>

record fake_inner =
  fi_cursor :: u32
  fi_by_domain :: "(string, ip_addr) hash_map"
  fi_by_ip :: "(ip_addr, string) hash_map"
  fi_order :: "string list"

record fake_pool =
  fp_base :: u32
  fp_prefix :: u32
  fp_size :: u32
  fp_inner :: fake_inner

record store_file =
  sf_version :: u32
  sf_range :: string
  sf_next :: u32
  sf_mappings :: "(string \<times> string) list"

section \<open>Ranges\<close>

definition mask_of :: "u32 \<Rightarrow> u32" where
  "mask_of prefix = (if prefix = 0 then 0 else push_bit (unat (32 - prefix)) (- 1))"

definition usable_size :: "u32 \<Rightarrow> u32" where
  "usable_size prefix =
    (let n = push_bit (unat (32 - prefix)) 1;
         m = (if n < 2 then 0 else n - 2)
     in max m 1)"

definition parse_range :: "string \<Rightarrow> (u32 \<times> u32 \<times> u32) result" where
  "parse_range cidr =
    rbind (ok_or (split_once CHR ''/'' cidr) (Config ''bad fake-ip-range'')) (\<lambda>(addr, pfx).
    rbind (ok_or (parse_ipv4 addr) (Config ''bad fake-ip address'')) (\<lambda>addr.
    rbind (ok_or (parse_u32 pfx) (Config ''bad fake-ip prefix'')) (\<lambda>prefix.
    if \<not> (2 \<le> prefix \<and> prefix \<le> 32) then Inl (Config ''fake-ip prefix out of range'')
    else Inr (addr AND mask_of prefix, prefix, usable_size prefix))))"

section \<open>Operations\<close>

definition inner_empty :: fake_inner where
  "inner_empty = \<lparr>fi_cursor = 0, fi_by_domain = hm_empty, fi_by_ip = hm_empty, fi_order = []\<rparr>"

definition pool_new :: "string \<Rightarrow> fake_pool result" where
  "pool_new cidr =
    rbind (parse_range cidr) (\<lambda>(base, prefix, size).
    Inr \<lparr>fp_base = base, fp_prefix = prefix, fp_size = size, fp_inner = inner_empty\<rparr>)"

definition canonical_range :: "fake_pool \<Rightarrow> string" where
  "canonical_range p = show_ipv4 (fp_base p) @ ''/'' @ show_nat (unat (fp_prefix p))"

definition pool_contains :: "fake_pool \<Rightarrow> ip_addr \<Rightarrow> bool" where
  "pool_contains p ip =
    (case ip of
       V6 _ \<Rightarrow> False
     | V4 v \<Rightarrow> fp_base p < v \<and> v \<le> fp_base p + 1 + fp_size p)"

definition pool_len :: "fake_pool \<Rightarrow> nat" where
  "pool_len p = hm_len (fi_by_domain (fp_inner p))"

definition pool_flush :: "fake_pool \<Rightarrow> fake_pool" where
  "pool_flush p = p\<lparr>fp_inner := inner_empty\<rparr>"

definition touch :: "string list \<Rightarrow> string \<Rightarrow> string list" where
  "touch order domain = (if domain \<in> set order then remove1 domain order @ [domain] else order)"

text \<open>Eviction of the least recently used domain when the map is full.\<close>

definition evict_front :: "fake_inner \<Rightarrow> fake_inner" where
  "evict_front i =
    (case fi_order i of
       [] \<Rightarrow> i
     | victim # rest \<Rightarrow>
       (case hm_get (fi_by_domain i) victim of
          None \<Rightarrow> i\<lparr>fi_order := rest\<rparr>
        | Some ip \<Rightarrow>
          i\<lparr>fi_by_domain := hm_remove victim (fi_by_domain i),
            fi_by_ip := hm_remove ip (fi_by_ip i),
            fi_order := rest\<rparr>))"

definition evict_when_full :: "u32 \<Rightarrow> fake_inner \<Rightarrow> fake_inner" where
  "evict_when_full sz i =
    (if sz \<le> word_of_nat (hm_len (fi_by_domain i)) then evict_front i else i)"

definition candidate :: "u32 \<Rightarrow> u32 \<Rightarrow> u32 \<Rightarrow> ip_addr" where
  "candidate base sz cursor = V4 (base + 1 + cursor mod sz)"

text \<open>The probe loop: at most \<open>n\<close> candidates, the cursor advancing (and wrapping) at each.\<close>

fun probe :: "nat \<Rightarrow> u32 \<Rightarrow> u32 \<Rightarrow> (ip_addr, string) hash_map \<Rightarrow> u32 \<Rightarrow> ip_addr option \<times> u32" where
  "probe 0 base sz by_ip cursor = (None, cursor)"
| "probe (Suc n) base sz by_ip cursor =
     (let ip = candidate base sz cursor in
      if hm_contains by_ip ip then probe n base sz by_ip (cursor + 1)
      else (Some ip, cursor + 1))"

definition alloc_slot :: "fake_pool \<Rightarrow> fake_inner \<Rightarrow> ip_addr \<times> u32" where
  "alloc_slot p i =
    (case probe (unat (fp_size p)) (fp_base p) (fp_size p) (fi_by_ip i) (fi_cursor i) of
       (Some ip, c) \<Rightarrow> (ip, c)
     | (None, c) \<Rightarrow> (candidate (fp_base p) (fp_size p) c, c))"

definition record_mapping :: "string \<Rightarrow> ip_addr \<Rightarrow> fake_inner \<Rightarrow> fake_inner" where
  "record_mapping domain ip i =
    i\<lparr>fi_by_domain := hm_insert domain ip (fi_by_domain i),
      fi_by_ip := hm_insert ip domain (fi_by_ip i),
      fi_order := fi_order i @ [domain]\<rparr>"

definition lookup_or_alloc_flagged :: "fake_pool \<Rightarrow> string \<Rightarrow> (ip_addr \<times> bool) result \<times> fake_pool" where
  "lookup_or_alloc_flagged p domain =
    (if 255 < length domain then (Inl (Protocol ''domain name too long for fakeip''), p)
     else
       let i = fp_inner p in
       case hm_get (fi_by_domain i) domain of
         Some ip \<Rightarrow> (Inr (ip, False), p\<lparr>fp_inner := i\<lparr>fi_order := touch (fi_order i) domain\<rparr>\<rparr>)
       | None \<Rightarrow>
         let i = evict_when_full (fp_size p) i;
             (ip, c) = alloc_slot p i
         in (Inr (ip, True), p\<lparr>fp_inner := record_mapping domain ip (i\<lparr>fi_cursor := c\<rparr>)\<rparr>))"

definition lookup_or_alloc :: "fake_pool \<Rightarrow> string \<Rightarrow> ip_addr result \<times> fake_pool" where
  "lookup_or_alloc p domain =
    (let (r, p') = lookup_or_alloc_flagged p domain in (rbind r (\<lambda>(ip, _). Inr ip), p'))"

definition pool_reverse :: "fake_pool \<Rightarrow> ip_addr \<Rightarrow> string option \<times> fake_pool" where
  "pool_reverse p ip =
    (let i = fp_inner p in
     case hm_get (fi_by_ip i) ip of
       None \<Rightarrow> (None, p)
     | Some domain \<Rightarrow>
       (Some domain, p\<lparr>fp_inner := i\<lparr>fi_order := touch (fi_order i) domain\<rparr>\<rparr>))"

section \<open>Persistence\<close>

datatype file_read = NotFound | ReadFailed | Contents bytes

text \<open>Replaying the stored mappings; the first bad entry stops the load.\<close>

fun load_mappings :: "fake_pool \<Rightarrow> (string \<times> string) list \<Rightarrow> fake_inner \<Rightarrow> fake_inner result" where
  "load_mappings p [] i = Inr i"
| "load_mappings p ((domain, text) # ms) i =
     (case parse_ip text of
        None \<Rightarrow> Inl (Config ''fake-ip store: bad address'')
      | Some ip \<Rightarrow>
        if \<not> pool_contains p ip then Inl (Config ''fake-ip store: address outside range'')
        else if hm_contains (fi_by_domain i) domain \<or> hm_contains (fi_by_ip i) ip
          then Inl (Config ''fake-ip store: duplicate mapping'')
        else load_mappings p ms (record_mapping domain ip i))"

definition load_store :: "fake_pool \<Rightarrow> store_file \<Rightarrow> fake_pool result" where
  "load_store p store =
    (if sf_version store \<noteq> 1 then Inl (Config ''fake-ip store: unsupported version'')
     else if sf_range store \<noteq> canonical_range p then Inr p
     else if fp_size p < word_of_nat (length (sf_mappings store))
       then Inl (Config ''fake-ip store: mappings exceed pool size'')
     else rbind (load_mappings p (sf_mappings store) (fp_inner p)) (\<lambda>i.
       Inr (p\<lparr>fp_inner := i\<lparr>fi_cursor := sf_next store mod fp_size p\<rparr>\<rparr>)))"

definition load_from :: "(bytes \<Rightarrow> store_file option) \<Rightarrow> string \<Rightarrow> file_read \<Rightarrow> fake_pool result" where
  "load_from json_decode cidr raw =
    rbind (pool_new cidr) (\<lambda>p.
    case raw of
      NotFound \<Rightarrow> Inr p
    | ReadFailed \<Rightarrow> Inl (Config ''fake-ip store'')
    | Contents bs \<Rightarrow>
      (case json_decode bs of
         None \<Rightarrow> Inl (Config ''fake-ip store: corrupt'')
       | Some store \<Rightarrow> load_store p store))"

text \<open>The value \<open>persist_to\<close> serialises: the mappings in LRU order and the cursor.\<close>

definition store_of :: "fake_pool \<Rightarrow> store_file" where
  "store_of p =
    (let i = fp_inner p in
     \<lparr>sf_version = 1, sf_range = canonical_range p, sf_next = fi_cursor i,
      sf_mappings =
        List.map_filter
          (\<lambda>d. map_option (\<lambda>ip. (d, show_ip ip)) (hm_get (fi_by_domain i) d)) (fi_order i)\<rparr>)"

section \<open>The pool invariant\<close>

text \<open>
  The two maps are inverse to each other, the LRU list holds exactly the mapped domains once
  each, the pool is within its size, and every address is one \<open>pool_contains\<close> accepts.
  \<open>pool_geometry\<close> says that the range does not run past the end of the address space.
\<close>

definition pool_geometry :: "fake_pool \<Rightarrow> bool" where
  "pool_geometry p \<longleftrightarrow> 0 < fp_size p \<and> unat (fp_base p) + 1 + unat (fp_size p) < 2 ^ 32"

definition inner_inv :: "fake_pool \<Rightarrow> fake_inner \<Rightarrow> bool" where
  "inner_inv p i \<longleftrightarrow>
     hm_wf (fi_by_domain i) \<and> hm_wf (fi_by_ip i) \<and>
     (\<forall>d ip. hm_get (fi_by_domain i) d = Some ip \<longleftrightarrow> hm_get (fi_by_ip i) ip = Some d) \<and>
     distinct (fi_order i) \<and> set (fi_order i) = dom (hm_get (fi_by_domain i)) \<and>
     (\<forall>ip \<in> dom (hm_get (fi_by_ip i)). pool_contains p ip)"

definition pool_inv :: "fake_pool \<Rightarrow> bool" where
  "pool_inv p \<longleftrightarrow> pool_geometry p \<and> inner_inv p (fp_inner p) \<and> pool_len p \<le> unat (fp_size p)"

text \<open>The cursor cannot wrap during the next allocation.\<close>

definition cursor_ok :: "fake_pool \<Rightarrow> bool" where
  "cursor_ok p \<longleftrightarrow> unat (fi_cursor (fp_inner p)) + unat (fp_size p) \<le> 2 ^ 32"

lemma inner_invD:
  assumes "inner_inv p i"
  shows "hm_wf (fi_by_domain i)" "hm_wf (fi_by_ip i)"
    "hm_get (fi_by_domain i) d = Some ip \<longleftrightarrow> hm_get (fi_by_ip i) ip = Some d"
    "distinct (fi_order i)" "set (fi_order i) = dom (hm_get (fi_by_domain i))"
    "hm_get (fi_by_ip i) ip = Some d \<Longrightarrow> pool_contains p ip"
  using assms by (auto simp: inner_inv_def)

lemma inner_inv_order_len:
  assumes "inner_inv p i"
  shows "hm_len (fi_by_domain i) = length (fi_order i)"
  using inner_invD [OF assms] hm.len_card [of "fi_by_domain i"]
    distinct_card [of "fi_order i"] by simp

lemma inner_inv_by_ip_card:
  assumes "inner_inv p i"
  shows "card (dom (hm_get (fi_by_ip i))) \<le> hm_len (fi_by_domain i)"
proof -
  let ?f = "\<lambda>d. the (hm_get (fi_by_domain i) d)"
  have "dom (hm_get (fi_by_ip i)) \<subseteq> ?f ` set (fi_order i)"
  proof
    fix ip
    assume "ip \<in> dom (hm_get (fi_by_ip i))"
    then obtain d where "hm_get (fi_by_ip i) ip = Some d" by auto
    then have "hm_get (fi_by_domain i) d = Some ip" using inner_invD(3) [OF assms] by simp
    then show "ip \<in> ?f ` set (fi_order i)"
      using inner_invD(5) [OF assms] by (auto intro!: image_eqI [of _ _ d])
  qed
  then have "card (dom (hm_get (fi_by_ip i))) \<le> card (set (fi_order i))"
    by (meson card_image_le card_mono finite_imageI finite_set le_trans)
  also have "\<dots> \<le> length (fi_order i)" by (rule card_length)
  finally show ?thesis using inner_inv_order_len [OF assms] by simp
qed

lemma inner_inv_empty [simp]: "inner_inv p inner_empty"
  by (simp add: inner_inv_def inner_empty_def hm.get_empty)

lemma touch_set [simp]: "set (touch order d) = set order"
  by (auto simp: touch_def dest: set_remove1_subset [THEN subsetD]) (metis in_set_remove1)

lemma touch_distinct: "distinct order \<Longrightarrow> distinct (touch order d)"
  by (auto simp: touch_def)

lemma inner_inv_touch: "inner_inv p i \<Longrightarrow> inner_inv p (i\<lparr>fi_order := touch (fi_order i) d\<rparr>)"
  by (auto simp: inner_inv_def touch_distinct)

lemma inner_inv_cursor [simp]: "inner_inv p (i\<lparr>fi_cursor := c\<rparr>) = inner_inv p i"
  by (simp add: inner_inv_def)

lemma pool_contains_inner [simp]: "pool_contains (p\<lparr>fp_inner := i\<rparr>) = pool_contains p"
  by (simp add: fun_eq_iff pool_contains_def split: ip_addr.split)

lemma inner_inv_pool [simp]: "inner_inv (p\<lparr>fp_inner := j\<rparr>) i = inner_inv p i"
  by (simp add: inner_inv_def)

lemma pool_geometry_inner [simp]: "pool_geometry (p\<lparr>fp_inner := i\<rparr>) = pool_geometry p"
  by (simp add: pool_geometry_def)

lemma record_mapping_sel [simp]:
  "fi_by_domain (record_mapping d ip i) = hm_insert d ip (fi_by_domain i)"
  "fi_by_ip (record_mapping d ip i) = hm_insert ip d (fi_by_ip i)"
  "fi_order (record_mapping d ip i) = fi_order i @ [d]"
  "fi_cursor (record_mapping d ip i) = fi_cursor i"
  by (simp_all add: record_mapping_def)

lemma inner_inv_record:
  assumes inv: "inner_inv p i" and d: "hm_get (fi_by_domain i) d = None"
    and ip: "hm_get (fi_by_ip i) ip = None" and c: "pool_contains p ip"
  shows "inner_inv p (record_mapping d ip i)"
proof -
  have "hm_get (fi_by_domain i) d' \<noteq> Some ip" for d'
    using ip inner_invD(3) [OF inv, of d' ip] by simp
  moreover have "hm_get (fi_by_ip i) ip' \<noteq> Some d" for ip'
    using d inner_invD(3) [OF inv, of d ip'] by simp
  ultimately show ?thesis
    using assms by (auto simp: inner_inv_def dom_def)
qed

lemma evict_front_inv:
  assumes inv: "inner_inv p i"
  shows "inner_inv p (evict_front i)"
proof (cases "fi_order i")
  case Nil
  with inv show ?thesis by (simp add: evict_front_def)
next
  case (Cons v rest)
  then have "v \<in> dom (hm_get (fi_by_domain i))" using inner_invD(5) [OF inv] by auto
  then obtain ip where ip: "hm_get (fi_by_domain i) v = Some ip" by auto
  have rev: "hm_get (fi_by_ip i) ip = Some v" using ip inner_invD(3) [OF inv] by simp
  have d1: "hm_get (fi_by_domain i) d = Some ip \<longleftrightarrow> d = v" for d
    using rev inner_invD(3) [OF inv, of d ip] by auto
  have d2: "hm_get (fi_by_ip i) ip' = Some v \<longleftrightarrow> ip' = ip" for ip'
    using ip inner_invD(3) [OF inv, of v ip'] by auto
  let ?j = "i\<lparr>fi_by_domain := hm_remove v (fi_by_domain i), fi_by_ip := hm_remove ip (fi_by_ip i),
    fi_order := rest\<rparr>"
  have bij: "hm_get (fi_by_domain ?j) d = Some a \<longleftrightarrow> hm_get (fi_by_ip ?j) a = Some d" for d a
    using inner_invD(3) [OF inv, of d a] d1 [of d] d2 [of a] by auto
  have "set rest = dom (hm_get (fi_by_domain i)) - {v}" "distinct rest"
    using inner_invD(4,5) [OF inv] Cons by auto
  then have ord: "distinct (fi_order ?j)" "set (fi_order ?j) = dom (hm_get (fi_by_domain ?j))"
    using inner_invD(1) [OF inv] by (simp_all add: hm.get_remove)
  have "inner_inv p ?j"
    unfolding inner_inv_def using bij ord inner_invD(1,2,6) [OF inv]
    by (auto split: if_splits)
  then show ?thesis using Cons ip by (simp add: evict_front_def)
qed

lemma evict_front_len:
  assumes "inner_inv p i" and "fi_order i \<noteq> []"
  shows "Suc (hm_len (fi_by_domain (evict_front i))) = hm_len (fi_by_domain i)"
proof -
  have "hm_len (fi_by_domain (evict_front i)) = length (fi_order (evict_front i))"
    using inner_inv_order_len [OF evict_front_inv [OF assms(1)]] .
  moreover have "fi_order (evict_front i) = tl (fi_order i)"
    by (auto simp: evict_front_def split: list.splits option.splits)
  ultimately show ?thesis using inner_inv_order_len [OF assms(1)] assms(2) by simp
qed

lemma evict_keeps_absent:
  "hm_get (fi_by_domain i) d = None \<Longrightarrow> hm_get (fi_by_domain (evict_front i)) d = None"
  by (auto simp: evict_front_def split: list.splits option.splits)

lemma unat_u32_less: "unat (w :: u32) < 2 ^ 32"
  using unsigned_less [of w, where ?'a = nat] by simp

lemma evict_when_full_room:
  assumes inv: "inner_inv p i" and len: "hm_len (fi_by_domain i) \<le> unat sz" and s: "0 < sz"
  shows "hm_len (fi_by_domain (evict_when_full sz i)) < unat sz"
proof -
  have u: "unat (word_of_nat (hm_len (fi_by_domain i)) :: u32) = hm_len (fi_by_domain i)"
    using len unat_u32_less [of sz] by (simp add: unat_of_nat)
  show ?thesis
  proof (cases "sz \<le> word_of_nat (hm_len (fi_by_domain i))")
    case True
    then have eq: "hm_len (fi_by_domain i) = unat sz" using len u by (simp add: word_le_nat_alt)
    then have "fi_order i \<noteq> []"
      using s inner_inv_order_len [OF inv] by (auto simp: word_less_nat_alt)
    then show ?thesis using True eq evict_front_len [OF inv] by (simp add: evict_when_full_def)
  next
    case False
    then show ?thesis using u by (simp add: evict_when_full_def word_le_nat_alt)
  qed
qed

section \<open>The probe finds a free address\<close>

lemma probe_numeral:
  "probe (numeral k) base sz by_ip cursor =
     (let ip = candidate base sz cursor in
      if hm_contains by_ip ip then probe (pred_numeral k) base sz by_ip (cursor + 1)
      else (Some ip, cursor + 1))"
  by (simp add: numeral_eq_Suc)

lemma probe_None:
  "probe n base sz m c = (None, c') \<Longrightarrow>
     c' = c + word_of_nat n \<and> (\<forall>k < n. hm_contains m (candidate base sz (c + word_of_nat k)))"
proof (induction n arbitrary: c)
  case 0
  then show ?case by simp
next
  case (Suc n)
  then have h: "hm_contains m (candidate base sz c)" and "probe n base sz m (c + 1) = (None, c')"
    by (auto simp: Let_def split: if_splits)
  from Suc.IH [OF this(2)] have c': "c' = c + word_of_nat (Suc n)"
    and r: "\<forall>k < n. hm_contains m (candidate base sz (c + 1 + word_of_nat k))"
    by (simp_all add: algebra_simps)
  have "hm_contains m (candidate base sz (c + word_of_nat k))" if "k < Suc n" for k
    using that h r by (cases k) (auto simp: algebra_simps)
  with c' show ?case by blast
qed

lemma probe_Some:
  "probe n base sz m c = (Some ip, c') \<Longrightarrow>
     \<exists>k < n. ip = candidate base sz (c + word_of_nat k) \<and> hm_get m ip = None"
proof (induction n arbitrary: c)
  case 0
  then show ?case by simp
next
  case (Suc n)
  show ?case
  proof (cases "hm_contains m (candidate base sz c)")
    case True
    with Suc.prems have "probe n base sz m (c + 1) = (Some ip, c')" by simp
    from Suc.IH [OF this] obtain k where "k < n" "ip = candidate base sz (c + 1 + word_of_nat k)"
      "hm_get m ip = None" by blast
    then show ?thesis by (intro exI [of _ "Suc k"]) (simp add: algebra_simps)
  next
    case False
    with Suc.prems show ?thesis
      by (intro exI [of _ 0]) (auto simp: Let_def hm_contains_def)
  qed
qed

text \<open>A candidate is one of the \<open>size\<close> addresses after the base.\<close>

lemma unat_candidate:
  assumes "pool_geometry p"
  shows "\<exists>v. candidate (fp_base p) (fp_size p) c = V4 v \<and>
    unat v = unat (fp_base p) + 1 + unat c mod unat (fp_size p)"
proof -
  have s: "0 < unat (fp_size p)" using assms by (simp add: pool_geometry_def word_less_nat_alt)
  have "unat c mod unat (fp_size p) < unat (fp_size p)" using s by simp
  then have "unat (fp_base p + 1 + c mod fp_size p) =
      unat (fp_base p) + 1 + unat c mod unat (fp_size p)"
    using assms by (simp add: pool_geometry_def unat_word_ariths unat_mod)
  then show ?thesis by (simp add: candidate_def)
qed

lemma candidate_contained:
  assumes "pool_geometry p"
  shows "pool_contains p (candidate (fp_base p) (fp_size p) c)"
proof -
  obtain v where v: "candidate (fp_base p) (fp_size p) c = V4 v"
    "unat v = unat (fp_base p) + 1 + unat c mod unat (fp_size p)"
    using unat_candidate [OF assms] by blast
  have "unat (fp_base p + 1 + fp_size p) = unat (fp_base p) + 1 + unat (fp_size p)"
    using assms by (simp add: pool_geometry_def unat_word_ariths)
  moreover have "0 < unat (fp_size p)"
    using assms by (simp add: pool_geometry_def word_less_nat_alt)
  then have "unat c mod unat (fp_size p) < unat (fp_size p)" by simp
  ultimately show ?thesis
    using v by (simp add: pool_contains_def word_less_nat_alt word_le_nat_alt)
qed

lemma candidates_cover:
  fixes c sz :: nat
  assumes "0 < sz" and "r < sz"
  shows "\<exists>k < sz. (c + k) mod sz = r"
proof -
  let ?k = "(r + sz - c mod sz) mod sz"
  have "c mod sz < sz" using assms(1) by simp
  then have "(c + ?k) mod sz = (c mod sz + (r + sz - c mod sz)) mod sz"
    by (metis mod_add_eq mod_mod_trivial)
  also have "c mod sz + (r + sz - c mod sz) = r + sz" using \<open>c mod sz < sz\<close> by linarith
  also have "(r + sz) mod sz = r" using assms(2) by simp
  finally show ?thesis using assms(1) by (intro exI [of _ ?k]) simp
qed

text \<open>
  A full round of probes without a wrap of the cursor visits every usable address, so it fails
  only when all of them are taken.
\<close>

lemma probe_finds:
  assumes g: "pool_geometry p" and c: "unat c + unat (fp_size p) \<le> 2 ^ 32"
    and room: "finite (dom (hm_get m))" "card (dom (hm_get m)) < unat (fp_size p)"
  shows "fst (probe (unat (fp_size p)) (fp_base p) (fp_size p) m c) \<noteq> None"
proof
  let ?n = "unat (fp_size p)"
  assume "fst (probe ?n (fp_base p) (fp_size p) m c) = None"
  then obtain c' where "probe ?n (fp_base p) (fp_size p) m c = (None, c')"
    by (cases "probe ?n (fp_base p) (fp_size p) m c") auto
  then have all: "\<forall>k < ?n. hm_contains m (candidate (fp_base p) (fp_size p) (c + word_of_nat k))"
    using probe_None by blast
  let ?f = "\<lambda>r. V4 (fp_base p + 1 + word_of_nat r)"
  have n: "0 < ?n" using g by (simp add: pool_geometry_def word_less_nat_alt)
  have sub: "?f ` {..< ?n} \<subseteq> dom (hm_get m)"
  proof (rule image_subsetI)
    fix r assume "r \<in> {..< ?n}"
    then obtain k where k: "k < ?n" "(unat c + k) mod ?n = r"
      using candidates_cover [OF n, of r "unat c"] by auto
    have "unat (c + word_of_nat k) = unat c + k"
      using k(1) c by (simp add: unat_word_ariths unat_of_nat)
    then have "unat ((c + word_of_nat k) mod fp_size p) = r" using k(2) by (simp add: unat_mod)
    then have "(c + word_of_nat k) mod fp_size p = word_of_nat r" by auto
    then show "?f r \<in> dom (hm_get m)"
      using all k(1) by (auto simp: hm_contains_def candidate_def)
  qed
  have inj: "inj_on ?f {..< ?n}"
  proof (rule inj_onI)
    fix r r' assume rr: "r \<in> {..< ?n}" "r' \<in> {..< ?n}" and "?f r = ?f r'"
    then have "(word_of_nat r :: u32) = word_of_nat r'" by simp
    then have "unat (word_of_nat r :: u32) = unat (word_of_nat r' :: u32)" by simp
    then show "r = r'" using rr unat_u32_less [of "fp_size p"] by (simp add: unat_of_nat)
  qed
  have "?n = card (?f ` {..< ?n})" using inj by (simp add: card_image)
  also have "\<dots> \<le> card (dom (hm_get m))" using sub room(1) by (rule card_mono [rotated])
  finally show False using room(2) by simp
qed

lemma alloc_slot_candidate: "\<exists>c. fst (alloc_slot p i) = candidate (fp_base p) (fp_size p) c"
proof (cases "probe (unat (fp_size p)) (fp_base p) (fp_size p) (fi_by_ip i) (fi_cursor i)")
  case (Pair r c)
  then show ?thesis
    by (cases r) (auto simp: alloc_slot_def dest: probe_Some)
qed

lemma alloc_slot_fresh:
  assumes g: "pool_geometry p" and inv: "inner_inv p i"
    and c: "unat (fi_cursor i) + unat (fp_size p) \<le> 2 ^ 32"
    and room: "hm_len (fi_by_domain i) < unat (fp_size p)"
  shows "hm_get (fi_by_ip i) (fst (alloc_slot p i)) = None \<and> pool_contains p (fst (alloc_slot p i))"
proof -
  have "card (dom (hm_get (fi_by_ip i))) < unat (fp_size p)"
    using inner_inv_by_ip_card [OF inv] room by simp
  then have "fst (probe (unat (fp_size p)) (fp_base p) (fp_size p) (fi_by_ip i) (fi_cursor i)) \<noteq> None"
    by (rule probe_finds [OF g c hm.finite_keys [OF inner_invD(2) [OF inv]]])
  then obtain ip c' where pr:
    "probe (unat (fp_size p)) (fp_base p) (fp_size p) (fi_by_ip i) (fi_cursor i) = (Some ip, c')"
    by (cases "probe (unat (fp_size p)) (fp_base p) (fp_size p) (fi_by_ip i) (fi_cursor i)") auto
  from probe_Some [OF pr] obtain k where
    "ip = candidate (fp_base p) (fp_size p) (fi_cursor i + word_of_nat k)"
    "hm_get (fi_by_ip i) ip = None" by blast
  then show ?thesis using pr candidate_contained [OF g] by (simp add: alloc_slot_def)
qed

section \<open>Every operation keeps the invariant\<close>

definition fake_lookup :: "fake_pool \<Rightarrow> string \<Rightarrow> ip_addr option" where
  "fake_lookup p d = hm_get (fi_by_domain (fp_inner p)) d"

lemma evict_when_full_inv: "inner_inv p i \<Longrightarrow> inner_inv p (evict_when_full sz i)"
  by (simp add: evict_when_full_def evict_front_inv)

lemma evict_when_full_cursor [simp]: "fi_cursor (evict_when_full sz i) = fi_cursor i"
  by (auto simp: evict_when_full_def evict_front_def split: list.splits option.splits)

lemma evict_when_full_absent:
  "hm_get (fi_by_domain i) d = None \<Longrightarrow> hm_get (fi_by_domain (evict_when_full sz i)) d = None"
  by (simp add: evict_when_full_def evict_keeps_absent)

text \<open>What a miss does, in one place: the state after a fresh allocation.\<close>

lemma alloc_miss:
  assumes inv: "pool_inv p" and c: "cursor_ok p" and len: "length d \<le> 255"
    and miss: "fake_lookup p d = None"
  defines "i \<equiv> evict_when_full (fp_size p) (fp_inner p)"
  defines "ip \<equiv> fst (alloc_slot p i)"
  shows "lookup_or_alloc_flagged p d = (Inr (ip, True),
      p\<lparr>fp_inner := record_mapping d ip (i\<lparr>fi_cursor := snd (alloc_slot p i)\<rparr>)\<rparr>)"
    and "inner_inv p (record_mapping d ip i)" and "hm_get (fi_by_domain i) d = None"
    and "hm_len (fi_by_domain i) < unat (fp_size p)" and "inner_inv p i"
    and "hm_get (fi_by_ip i) ip = None"
proof -
  have g: "pool_geometry p" and ii: "inner_inv p (fp_inner p)"
    and pl: "hm_len (fi_by_domain (fp_inner p)) \<le> unat (fp_size p)"
    using inv by (simp_all add: pool_inv_def pool_len_def)
  show inv': "inner_inv p i" using ii by (simp add: i_def evict_when_full_inv)
  show room: "hm_len (fi_by_domain i) < unat (fp_size p)"
    using evict_when_full_room [OF ii pl] g by (simp add: i_def pool_geometry_def)
  show ab: "hm_get (fi_by_domain i) d = None"
    using miss by (simp add: i_def fake_lookup_def evict_when_full_absent)
  have fresh: "hm_get (fi_by_ip i) ip = None \<and> pool_contains p ip"
    unfolding ip_def using g inv' room c
    by (intro alloc_slot_fresh) (simp_all add: i_def cursor_ok_def)
  then show "hm_get (fi_by_ip i) ip = None" by simp
  show "inner_inv p (record_mapping d ip i)" using inv' ab fresh by (simp add: inner_inv_record)
  show "lookup_or_alloc_flagged p d = (Inr (ip, True),
      p\<lparr>fp_inner := record_mapping d ip (i\<lparr>fi_cursor := snd (alloc_slot p i)\<rparr>)\<rparr>)"
    using len miss
    by (simp add: lookup_or_alloc_flagged_def fake_lookup_def i_def ip_def Let_def split_beta)
qed

lemma alloc_hit:
  assumes "length d \<le> 255" and "fake_lookup p d = Some ip"
  shows "lookup_or_alloc_flagged p d = (Inr (ip, False),
    p\<lparr>fp_inner := (fp_inner p)\<lparr>fi_order := touch (fi_order (fp_inner p)) d\<rparr>\<rparr>)"
  using assms by (simp add: lookup_or_alloc_flagged_def fake_lookup_def Let_def)

lemma alloc_long:
  "255 < length d \<Longrightarrow>
    lookup_or_alloc_flagged p d = (Inl (Protocol ''domain name too long for fakeip''), p)"
  by (simp add: lookup_or_alloc_flagged_def)

lemma lookup_or_alloc_snd: "snd (lookup_or_alloc p d) = snd (lookup_or_alloc_flagged p d)"
  by (simp add: lookup_or_alloc_def split_beta)

lemma record_mapping_cursor:
  "record_mapping d ip (i\<lparr>fi_cursor := c\<rparr>) = (record_mapping d ip i)\<lparr>fi_cursor := c\<rparr>"
  by (simp add: record_mapping_def)

lemma alloc_pool_inv:
  assumes inv: "pool_inv p" and c: "cursor_ok p"
  shows "pool_inv (snd (lookup_or_alloc p d))"
proof -
  consider "255 < length d" | ip where "length d \<le> 255" "fake_lookup p d = Some ip"
    | "length d \<le> 255" "fake_lookup p d = None"
    by (cases "fake_lookup p d") (auto simp: not_less [symmetric])
  then show ?thesis
  proof cases
    case 1
    then show ?thesis using inv by (simp add: lookup_or_alloc_snd alloc_long)
  next
    case 2
    then show ?thesis
      using inv by (simp add: lookup_or_alloc_snd alloc_hit pool_inv_def pool_len_def inner_inv_touch)
  next
    case 3
    note m = alloc_miss [OF inv c 3]
    have "hm_len (hm_insert d (fst (alloc_slot p (evict_when_full (fp_size p) (fp_inner p))))
        (fi_by_domain (evict_when_full (fp_size p) (fp_inner p)))) \<le> unat (fp_size p)"
      using hm.len_insert_fresh [OF inner_invD(1) [OF m(5)] m(3)] m(4) by simp
    then show ?thesis
      using inv m(2) by (simp add: lookup_or_alloc_snd m(1) record_mapping_cursor pool_inv_def pool_len_def)
  qed
qed

lemma reverse_pool_inv: "pool_inv p \<Longrightarrow> pool_inv (snd (pool_reverse p ip))"
  by (auto simp: pool_reverse_def pool_inv_def pool_len_def inner_inv_touch Let_def
      split: option.splits)

lemma flush_pool_inv: "pool_inv p \<Longrightarrow> pool_inv (pool_flush p)"
  by (simp add: pool_flush_def pool_inv_def pool_len_def) (simp add: inner_empty_def hm.len_empty)

section \<open>The contract of an address pool\<close>

text \<open>
  What the resolver and the router rely on: an allocation maps its domain, hits are stable,
  addresses are never shared, and the reverse lookup is the inverse of the forward one.
\<close>

locale address_pool =
  fixes alloc :: "'p \<Rightarrow> string \<Rightarrow> ip_addr result \<times> 'p"
    and reverse :: "'p \<Rightarrow> ip_addr \<Rightarrow> string option \<times> 'p"
    and view :: "'p \<Rightarrow> string \<Rightarrow> ip_addr option"
    and inv :: "'p \<Rightarrow> bool"
    and ready :: "'p \<Rightarrow> bool"
    and name_ok :: "string \<Rightarrow> bool"
  assumes alloc_inv: "inv p \<Longrightarrow> ready p \<Longrightarrow> inv (snd (alloc p d))"
    and alloc_maps: "inv p \<Longrightarrow> ready p \<Longrightarrow> name_ok d \<Longrightarrow>
      \<exists>ip. fst (alloc p d) = Inr ip \<and> view (snd (alloc p d)) d = Some ip"
    and alloc_stable: "name_ok d \<Longrightarrow> view p d = Some ip \<Longrightarrow>
      fst (alloc p d) = Inr ip \<and> view (snd (alloc p d)) = view p"
    and view_inj: "inv p \<Longrightarrow> view p d = Some ip \<Longrightarrow> view p e = Some ip \<Longrightarrow> d = e"
    and reverse_view: "inv p \<Longrightarrow> fst (reverse p ip) = Some d \<longleftrightarrow> view p d = Some ip"
    and reverse_inv: "inv p \<Longrightarrow> inv (snd (reverse p ip))"
    and reverse_keeps: "view (snd (reverse p ip)) = view p"
begin

lemma alloc_then_reverse:
  assumes "inv p" and "ready p" and "name_ok d" and "fst (alloc p d) = Inr ip"
  shows "fst (reverse (snd (alloc p d)) ip) = Some d"
proof -
  have "view (snd (alloc p d)) d = Some ip"
    using alloc_maps [OF assms(1-3)] assms(4) by auto
  then show ?thesis using reverse_view alloc_inv assms(1,2) by blast
qed

lemma alloc_again:
  assumes "inv p" and "ready p" and "name_ok d" and "fst (alloc p d) = Inr ip"
  shows "fst (alloc (snd (alloc p d)) d) = Inr ip"
  using alloc_maps [OF assms(1-3)] assms(4) alloc_stable [OF assms(3)] by auto

lemma reverse_then_alloc:
  assumes "inv p" and "fst (reverse p ip) = Some d" and "name_ok d"
  shows "fst (alloc (snd (reverse p ip)) d) = Inr ip"
proof -
  have "view (snd (reverse p ip)) d = Some ip"
    using assms(1,2) reverse_view reverse_keeps by metis
  then show ?thesis using alloc_stable assms(3) by blast
qed

end

lemma fake_alloc_maps:
  assumes inv: "pool_inv p" and c: "cursor_ok p" and len: "length d \<le> 255"
  shows "\<exists>ip. fst (lookup_or_alloc p d) = Inr ip \<and>
    fake_lookup (snd (lookup_or_alloc p d)) d = Some ip"
proof (cases "fake_lookup p d")
  case None
  then show ?thesis
    using alloc_miss(1) [OF inv c len] by (simp add: lookup_or_alloc_def fake_lookup_def)
next
  case (Some ip)
  then show ?thesis
    using alloc_hit [OF len Some] by (simp add: lookup_or_alloc_def fake_lookup_def)
qed

lemma pool_reverse_fst: "fst (pool_reverse p ip) = hm_get (fi_by_ip (fp_inner p)) ip"
  by (auto simp: pool_reverse_def Let_def split: option.splits)

lemma fake_reverse_view:
  assumes "pool_inv p"
  shows "fst (pool_reverse p ip) = Some d \<longleftrightarrow> fake_lookup p d = Some ip"
proof -
  have "inner_inv p (fp_inner p)" using assms by (simp add: pool_inv_def)
  from inner_invD(3) [OF this, of d ip] show ?thesis by (simp add: fake_lookup_def pool_reverse_fst)
qed

interpretation fake: address_pool lookup_or_alloc pool_reverse fake_lookup pool_inv cursor_ok
  "\<lambda>d. length d \<le> 255"
proof (unfold_locales, goal_cases)
  case 1
  then show ?case by (rule alloc_pool_inv)
next
  case 2
  then show ?case by (rule fake_alloc_maps)
next
  case (3 d p ip)
  then show ?case
    using alloc_hit [OF 3] by (simp add: lookup_or_alloc_def fun_eq_iff fake_lookup_def)
next
  case 4
  then show ?case by (metis fake_reverse_view option.inject)
next
  case 5
  then show ?case by (rule fake_reverse_view)
next
  case 6
  then show ?case by (rule reverse_pool_inv)
next
  case (7 p ip)
  show ?case by (auto simp: fun_eq_iff fake_lookup_def pool_reverse_def Let_def split: option.splits)
qed

section \<open>Reachable pools\<close>

text \<open>
  The pool as the engine drives it: allocations (while the cursor has not wrapped), reverse
  lookups and flushes, starting from a freshly built pool.
\<close>

inductive pool_step :: "fake_pool \<Rightarrow> fake_pool \<Rightarrow> bool" where
  step_alloc: "cursor_ok p \<Longrightarrow> pool_step p (snd (lookup_or_alloc p d))"
| step_reverse: "pool_step p (snd (pool_reverse p ip))"
| step_flush: "pool_step p (pool_flush p)"

inductive pool_reachable :: "string \<Rightarrow> fake_pool \<Rightarrow> bool" for cidr where
  reach_new: "pool_new cidr = Inr p \<Longrightarrow> pool_reachable cidr p"
| reach_step: "pool_reachable cidr p \<Longrightarrow> pool_step p q \<Longrightarrow> pool_reachable cidr q"

lemma alloc_frame:
  "fp_prefix (snd (lookup_or_alloc p d)) = fp_prefix p"
  by (simp add: lookup_or_alloc_snd lookup_or_alloc_flagged_def Let_def split_beta split: option.split)

lemma pool_step_prefix: "pool_step p q \<Longrightarrow> fp_prefix q = fp_prefix p"
  by (induction rule: pool_step.induct)
    (auto simp: alloc_frame pool_reverse_def pool_flush_def Let_def split: option.splits)

lemma pool_step_inv: "pool_step p q \<Longrightarrow> pool_inv p \<Longrightarrow> pool_inv q"
  by (induction rule: pool_step.induct) (auto intro: alloc_pool_inv reverse_pool_inv flush_pool_inv)

lemma and_mask_eq: "w AND NOT (mask n) = push_bit n (drop_bit n (w :: u32))"
  by (rule bit_word_eqI) (auto simp: bit_simps)

lemma unat_masked:
  "n < 32 \<Longrightarrow> unat (push_bit n (drop_bit n (w :: u32))) = unat w div 2 ^ n * 2 ^ n"
proof -
  have "unat w div 2 ^ n * 2 ^ n \<le> unat w" by (simp add: div_times_less_eq_dividend)
  then have "unat w div 2 ^ n * 2 ^ n < 2 ^ 32" using unat_u32_less [of w] by linarith
  moreover have "unat (push_bit n (drop_bit n w)) = take_bit 32 (push_bit n (drop_bit n (unat w)))"
    using take_bit_nat_eq_self [OF unat_u32_less [of w]]
    by (simp only: unsigned_push_bit_eq unsigned_drop_bit_eq) simp
  ultimately show ?thesis
    by (simp add: push_bit_eq_mult drop_bit_eq_div take_bit_nat_eq_self_iff)
qed

lemma masked_room:
  assumes "2 \<le> n" and "n \<le> 30"
  shows "unat (w :: u32) div 2 ^ n * 2 ^ n + 2 ^ n \<le> 2 ^ 32"
proof -
  have "unat w div 2 ^ n < 2 ^ (32 - n)"
    using assms unat_u32_less [of w]
    by (intro less_mult_imp_div_less) (simp add: power_add [symmetric])
  then have "Suc (unat w div 2 ^ n) * 2 ^ n \<le> 2 ^ (32 - n) * 2 ^ n" by (intro mult_le_mono1) simp
  also have "(2::nat) ^ (32 - n) * 2 ^ n = 2 ^ 32" using assms by (simp add: power_add [symmetric])
  finally show ?thesis by simp
qed

lemma unat_sub_32: "2 \<le> q \<Longrightarrow> q \<le> 32 \<Longrightarrow> unat (32 - q :: u32) = 32 - unat q"
  by (simp add: unat_sub)

lemma usable_size_unat:
  assumes "2 \<le> q" and "q \<le> 30"
  shows "unat (usable_size q) = 2 ^ (32 - unat q) - 2"
proof -
  define n where "n = 32 - unat q"
  have q: "2 \<le> unat q" "unat q \<le> 30" using assms by (simp_all add: word_le_nat_alt)
  then have n: "2 \<le> n" "n \<le> 30" by (auto simp: n_def)
  have u: "unat (32 - q) = n" using assms q by (simp add: n_def unat_sub word_le_nat_alt)
  have "(2::nat) ^ 2 \<le> 2 ^ n" "(2::nat) ^ n \<le> 2 ^ 30"
    using n by (intro power_increasing; simp)+
  moreover have p: "unat (push_bit n 1 :: u32) = 2 ^ n"
    using n by (simp only: unsigned_push_bit_eq) (simp add: push_bit_eq_mult take_bit_nat_eq_self)
  ultimately have "\<not> (push_bit n 1 :: u32) < 2" "unat (push_bit n 1 - 2 :: u32) = 2 ^ n - 2"
    by (simp_all add: word_less_nat_alt unat_sub word_le_nat_alt)
  moreover have "max (push_bit n 1 - 2) (1 :: u32) = push_bit n 1 - 2"
  proof (rule max_absorb1)
    have "1 \<le> unat (push_bit n 1 - 2 :: u32)" using calculation(2) \<open>2 ^ 2 \<le> 2 ^ n\<close> by simp
    then show "(1 :: u32) \<le> push_bit n 1 - 2" by (simp add: word_le_nat_alt)
  qed
  ultimately show ?thesis by (simp add: usable_size_def u Let_def n_def)
qed

lemma pool_new_inv:
  assumes "pool_new cidr = Inr p" and "fp_prefix p \<le> 30"
  shows "pool_inv p"
proof -
  obtain addr q where q: "2 \<le> q" "fp_base p = addr AND mask_of q" "fp_prefix p = q"
    "fp_size p = usable_size q" "fp_inner p = inner_empty"
    using assms(1) by (auto simp: pool_new_def parse_range_def rbind_Inr_iff split: if_splits)
  have q30: "q \<le> 30" using assms(2) q(3) by simp
  define n where "n = 32 - unat q"
  have uq: "2 \<le> unat q" "unat q \<le> 30" using q(1) q30 by (simp_all add: word_le_nat_alt)
  have n: "2 \<le> n" "n \<le> 30" using uq by (auto simp: n_def)
  have u: "unat (32 - q) = n" using uq by (simp add: n_def unat_sub word_le_nat_alt)
  have "q \<noteq> 0" using q(1) by auto
  then have b: "unat (fp_base p) = unat addr div 2 ^ n * 2 ^ n"
    using q(2) n u by (simp add: mask_of_def and_mask_eq unat_masked)
  have s: "unat (fp_size p) = 2 ^ n - 2" using usable_size_unat [OF q(1) q30] q(4) by (simp add: n_def)
  have "(2::nat) ^ 2 \<le> 2 ^ n" using n(1) by (rule power_increasing) simp
  then have "0 < fp_size p" and "unat (fp_base p) + 1 + unat (fp_size p) < 2 ^ 32"
    using s b masked_room [OF n, of addr] by (simp_all add: word_less_nat_alt)
  then show ?thesis
    using q(5) by (simp add: pool_inv_def pool_geometry_def pool_len_def)
      (simp add: inner_empty_def hm.len_empty)
qed

lemma pool_reachable_inv:
  "pool_reachable cidr p \<Longrightarrow> fp_prefix p \<le> 30 \<Longrightarrow> pool_inv p"
proof (induction rule: pool_reachable.induct)
  case (reach_new p)
  then show ?case by (rule pool_new_inv)
next
  case (reach_step p q)
  then show ?case using pool_step_prefix pool_step_inv by metis
qed

text \<open>Steps change only the mutable part, so a reachable pool still describes its range.\<close>

lemma pool_step_config: "pool_step p q \<Longrightarrow> q\<lparr>fp_inner := j\<rparr> = p\<lparr>fp_inner := j\<rparr>"
  by (induction rule: pool_step.induct)
    (auto simp: lookup_or_alloc_snd lookup_or_alloc_flagged_def pool_reverse_def pool_flush_def
      Let_def split_beta split: option.splits)

lemma pool_reachable_config:
  "pool_reachable cidr p \<Longrightarrow> pool_new cidr = Inr (p\<lparr>fp_inner := inner_empty\<rparr>)"
proof (induction rule: pool_reachable.induct)
  case (reach_new p)
  then have "fp_inner p = inner_empty" by (auto simp: pool_new_def rbind_Inr_iff)
  then show ?case using reach_new by (metis fake_pool.surjective fake_pool.update_convs(4))
next
  case (reach_step p q)
  then show ?case using pool_step_config by metis
qed

section \<open>Reloading a store\<close>

lemma canonical_range_inner [simp]: "canonical_range (p\<lparr>fp_inner := i\<rparr>) = canonical_range p"
  by (simp add: canonical_range_def)

lemma contains_v4: "pool_contains p ip \<Longrightarrow> parse_ip (show_ip ip) = Some ip"
  by (cases ip) (auto simp: pool_contains_def parse_ip_show_v4)

lemma load_mappings_replay:
  assumes "distinct ds" and "inj_on f (set ds)" and "\<forall>d \<in> set ds. pool_contains p (f d)"
    and "\<forall>d \<in> set ds. hm_get (fi_by_domain i) d = None \<and> hm_get (fi_by_ip i) (f d) = None"
  shows "load_mappings p (map (\<lambda>d. (d, show_ip (f d))) ds) i =
    Inr (fold (\<lambda>d. record_mapping d (f d)) ds i)"
  using assms
proof (induction ds arbitrary: i)
  case Nil
  then show ?case by simp
next
  case (Cons d ds)
  have "f e \<noteq> f d" if "e \<in> set ds" for e
    using Cons.prems(1,2) that by (auto simp: inj_on_def)
  then have "load_mappings p (map (\<lambda>d. (d, show_ip (f d))) ds) (record_mapping d (f d) i) =
    Inr (fold (\<lambda>d. record_mapping d (f d)) ds (record_mapping d (f d) i))"
    using Cons.prems by (intro Cons.IH) (auto simp: inj_on_def)
  then show ?case
    using Cons.prems by (simp add: contains_v4 [of p] hm_contains_def)
qed

lemma fold_record_sel:
  "hm_get (fi_by_domain (fold (\<lambda>d. record_mapping d (f d)) ds i)) d =
     (if d \<in> set ds then Some (f d) else hm_get (fi_by_domain i) d)"
  "fi_order (fold (\<lambda>d. record_mapping d (f d)) ds i) = fi_order i @ ds"
  by (induction ds arbitrary: i) auto

lemma load_mappings_inv:
  "inner_inv p i \<Longrightarrow> load_mappings p ms i = Inr j \<Longrightarrow>
     inner_inv p j \<and> hm_len (fi_by_domain j) = hm_len (fi_by_domain i) + length ms"
proof (induction ms arbitrary: i)
  case Nil
  then show ?case by simp
next
  case (Cons m ms)
  obtain d t where m: "m = (d, t)" by (cases m)
  with Cons.prems(2) obtain ip where ip: "parse_ip t = Some ip" "pool_contains p ip"
    "hm_get (fi_by_domain i) d = None" "hm_get (fi_by_ip i) ip = None"
    "load_mappings p ms (record_mapping d ip i) = Inr j"
    by (auto simp: hm_contains_def split: option.splits if_splits)
  have "inner_inv p (record_mapping d ip i)" using Cons.prems(1) ip by (simp add: inner_inv_record)
  from Cons.IH [OF this ip(5)] show ?case
    using hm.len_insert_fresh [OF inner_invD(1) [OF Cons.prems(1)] ip(3)] by simp
qed

lemma store_mappings:
  assumes "inner_inv p i"
  shows "List.map_filter (\<lambda>d. map_option (\<lambda>ip. (d, show_ip ip)) (hm_get (fi_by_domain i) d)) (fi_order i) =
    map (\<lambda>d. (d, show_ip (the (hm_get (fi_by_domain i) d)))) (fi_order i)"
proof -
  have "\<forall>d \<in> set (fi_order i). hm_get (fi_by_domain i) d \<noteq> None"
    using inner_invD(5) [OF assms] by auto
  then show ?thesis by (induction "fi_order i") (auto simp: List.map_filter_def)
qed

lemma load_store_of:
  assumes inv: "pool_inv p"
  shows "load_store (p\<lparr>fp_inner := inner_empty\<rparr>) (store_of p) =
    Inr (p\<lparr>fp_inner :=
      (fold (\<lambda>d. record_mapping d (the (fake_lookup p d))) (fi_order (fp_inner p)) inner_empty)
        \<lparr>fi_cursor := fi_cursor (fp_inner p) mod fp_size p\<rparr>\<rparr>)"
proof -
  let ?i = "fp_inner p" and ?f = "\<lambda>d. the (fake_lookup p d)"
  have ii: "inner_inv p ?i" using inv by (simp add: pool_inv_def)
  have mapped: "fake_lookup p d = Some (?f d)" if "d \<in> set (fi_order ?i)" for d
    using that inner_invD(5) [OF ii] by (auto simp: fake_lookup_def)
  have "inj_on ?f (set (fi_order ?i))"
    by (rule inj_onI) (metis mapped fake.view_inj [OF inv])
  moreover have "\<forall>d \<in> set (fi_order ?i). pool_contains p (?f d)"
    using mapped inner_invD(3,6) [OF ii] by (metis fake_lookup_def)
  ultimately have "load_mappings (p\<lparr>fp_inner := inner_empty\<rparr>)
      (map (\<lambda>d. (d, show_ip (?f d))) (fi_order ?i)) inner_empty =
    Inr (fold (\<lambda>d. record_mapping d (?f d)) (fi_order ?i) inner_empty)"
    using inner_invD(4) [OF ii] by (intro load_mappings_replay) (auto simp: inner_empty_def)
  moreover have "\<not> fp_size p < word_of_nat (length (fi_order ?i))"
  proof -
    have "length (fi_order ?i) \<le> unat (fp_size p)"
      using inv inner_inv_order_len [OF ii] by (simp add: pool_inv_def pool_len_def)
    moreover from this have "unat (word_of_nat (length (fi_order ?i)) :: u32) = length (fi_order ?i)"
      using unat_u32_less [of "fp_size p"] by (simp add: unat_of_nat)
    ultimately show ?thesis by (simp add: word_less_nat_alt)
  qed
  ultimately show ?thesis
    using store_mappings [OF ii]
    by (simp add: load_store_def store_of_def fake_lookup_def Let_def)
qed

section \<open>Properties\<close>


lemma example_pool_new:
  "pool_new ''10.9.0.1/30'' =
    Inr \<lparr>fp_base = 0x0A090000, fp_prefix = 30, fp_size = 2, fp_inner = inner_empty\<rparr>"
  by (simp add: pool_new_def parse_range_def parse_u32_def parse_uint_def mask_of_def
      usable_size_def ip_eval text_eval u32_from_def be_word_def mask_eq_exp_minus_1)


text \<open>
  C24: An allocation is answered by the reverse lookup. After \<open>lookup_or_alloc\<close> returns an address
  for a domain, looking that address up gives the domain, and asking for the domain again gives the
  same address.
\<close>

theorem fake_alloc_reverse:
  assumes "pool_inv p" and "cursor_ok p" and "length d \<le> 255"
  shows "\<exists>ip. fst (lookup_or_alloc p d) = Inr ip \<and>
    fst (pool_reverse (snd (lookup_or_alloc p d)) ip) = Some d \<and>
    fst (lookup_or_alloc (snd (lookup_or_alloc p d)) d) = Inr ip"
proof -
  obtain ip where ip: "fst (lookup_or_alloc p d) = Inr ip"
    using fake.alloc_maps [OF assms] by blast
  show ?thesis
    using ip fake.alloc_then_reverse [OF assms ip] fake.alloc_again [OF assms ip] by blast
qed

lemma example_pool_inv:
  "pool_inv \<lparr>fp_base = 0x0A090000, fp_prefix = 30, fp_size = 2, fp_inner = inner_empty\<rparr>"
  by (rule pool_new_inv [OF example_pool_new]) simp

theorem fake_alloc_reverse_witness:
  "\<exists>ip. fst (lookup_or_alloc
      \<lparr>fp_base = 0x0A090000, fp_prefix = 30, fp_size = 2, fp_inner = inner_empty\<rparr> ''a.test'') = Inr ip"
proof -
  have "cursor_ok \<lparr>fp_base = 0x0A090000, fp_prefix = 30, fp_size = 2, fp_inner = inner_empty\<rparr>"
    by (simp add: cursor_ok_def inner_empty_def)
  from fake_alloc_reverse [OF example_pool_inv this, of "''a.test''"] show ?thesis by auto
qed

text \<open>
  Eviction is least recently used and takes nothing else. Allocating a domain that is not yet
  mapped keeps every other mapping, except that a full pool gives up the domain at the front of its
  LRU list.
\<close>

theorem fake_alloc_evicts_lru:
  assumes "pool_inv p" and "cursor_ok p" and "length d \<le> 255" and "fake_lookup p d = None"
    and "e \<noteq> d"
  shows "fake_lookup (snd (lookup_or_alloc p d)) e =
    (if pool_len p = unat (fp_size p) \<and> e = hd (fi_order (fp_inner p)) then None
     else fake_lookup p e)"
proof -
  let ?i = "fp_inner p"
  have ii: "inner_inv p ?i" and len: "hm_len (fi_by_domain ?i) \<le> unat (fp_size p)"
    and s: "0 < unat (fp_size p)"
    using assms(1) by (simp_all add: pool_inv_def pool_len_def pool_geometry_def word_less_nat_alt)
  have u: "fp_size p \<le> word_of_nat (hm_len (fi_by_domain ?i)) \<longleftrightarrow> pool_len p = unat (fp_size p)"
    using len unat_u32_less [of "fp_size p"]
    by (auto simp: word_le_nat_alt unat_of_nat pool_len_def)
  have new: "fake_lookup (snd (lookup_or_alloc p d)) e =
      hm_get (fi_by_domain (evict_when_full (fp_size p) ?i)) e"
    using assms(5) by (simp add: lookup_or_alloc_snd alloc_miss(1) [OF assms(1-4)] fake_lookup_def)
  show ?thesis
  proof (cases "pool_len p = unat (fp_size p)")
    case True
    then have "fi_order ?i \<noteq> []"
      using s inner_inv_order_len [OF ii] by (auto simp: pool_len_def)
    then obtain v rest where o: "fi_order ?i = v # rest" by (cases "fi_order ?i") auto
    have "v \<in> set (fi_order ?i)" using o by simp
    then obtain ip where "hm_get (fi_by_domain ?i) v = Some ip"
      using inner_invD(5) [OF ii] by auto
    with True u o new show ?thesis
      by (auto simp: evict_when_full_def evict_front_def fake_lookup_def)
  next
    case False
    with u new show ?thesis by (simp add: evict_when_full_def fake_lookup_def)
  qed
qed

theorem fake_alloc_evicts_lru_witness:
  "fake_lookup (snd (lookup_or_alloc
      \<lparr>fp_base = 0x0A090000, fp_prefix = 30, fp_size = 2, fp_inner = inner_empty\<rparr> ''a'')) ''b'' = None"
proof -
  let ?p = "\<lparr>fp_base = 0x0A090000, fp_prefix = 30, fp_size = 2, fp_inner = inner_empty\<rparr>"
  have "cursor_ok ?p" by (simp add: cursor_ok_def inner_empty_def)
  moreover have n: "fake_lookup ?p d = None" for d by (simp add: fake_lookup_def inner_empty_def)
  ultimately show ?thesis
    using fake_alloc_evicts_lru [OF example_pool_inv, of "''a''" "''b''"] by simp
qed

text \<open>
  The address handed to a new domain was free, and lies strictly between the network address and
  the broadcast address of the range.
\<close>

theorem fake_alloc_fresh_in_range:
  assumes "pool_inv p" and "cursor_ok p" and "length d \<le> 255" and "fake_lookup p d = None"
  shows "\<exists>v. fst (lookup_or_alloc_flagged p d) = Inr (V4 v, True) \<and>
    unat (fp_base p) < unat v \<and> unat v \<le> unat (fp_base p) + unat (fp_size p) \<and>
    (\<forall>e. e \<noteq> d \<longrightarrow> fake_lookup (snd (lookup_or_alloc_flagged p d)) e \<noteq> Some (V4 v))"
proof -
  note m = alloc_miss [OF assms]
  let ?i = "evict_when_full (fp_size p) (fp_inner p)"
  have g: "pool_geometry p" using assms(1) by (simp add: pool_inv_def)
  then have s: "0 < unat (fp_size p)" by (simp add: pool_geometry_def word_less_nat_alt)
  obtain c where c: "fst (alloc_slot p ?i) = candidate (fp_base p) (fp_size p) c"
    using alloc_slot_candidate by blast
  obtain v where v: "candidate (fp_base p) (fp_size p) c = V4 v"
    "unat v = unat (fp_base p) + 1 + unat c mod unat (fp_size p)"
    using unat_candidate [OF g] by blast
  have "unat c mod unat (fp_size p) < unat (fp_size p)" using s by simp
  then have "unat (fp_base p) < unat v \<and> unat v \<le> unat (fp_base p) + unat (fp_size p)"
    using v(2) by simp
  moreover have "fake_lookup (snd (lookup_or_alloc_flagged p d)) e \<noteq> Some (V4 v)" if "e \<noteq> d" for e
    using m(6) inner_invD(3) [OF m(5), of e "V4 v"] that c v(1) by (simp add: m(1) fake_lookup_def)
  ultimately show ?thesis using m(1) c v(1) by simp
qed

theorem fake_alloc_fresh_in_range_witness:
  "\<exists>v. fst (lookup_or_alloc_flagged
      \<lparr>fp_base = 0x0A090000, fp_prefix = 30, fp_size = 2, fp_inner = inner_empty\<rparr> ''a'') =
        Inr (V4 v, True) \<and> unat v \<le> unat (0x0A090000 :: u32) + 2"
proof -
  let ?p = "\<lparr>fp_base = 0x0A090000, fp_prefix = 30, fp_size = 2, fp_inner = inner_empty\<rparr>"
  have "cursor_ok ?p" by (simp add: cursor_ok_def inner_empty_def)
  moreover have "fake_lookup ?p ''a'' = None" by (simp add: fake_lookup_def inner_empty_def)
  ultimately show ?thesis
    using fake_alloc_fresh_in_range [OF example_pool_inv, of "''a''"] by auto
qed

text \<open>
  The membership test is one address too wide. The documented range is the \<open>size\<close> addresses
  from \<open>base + 1\<close>; \<open>contains\<close> also accepts the next one, the broadcast address of the network,
  which no allocation ever hands out.
\<close>

theorem fake_contains_broadcast:
  assumes "pool_geometry p"
  shows "pool_contains p (V4 (fp_base p + 1 + fp_size p)) \<and>
    unat (fp_base p + 1 + fp_size p) = unat (fp_base p) + unat (fp_size p) + 1"
proof -
  have "unat (fp_base p + 1 + fp_size p) = unat (fp_base p) + 1 + unat (fp_size p)"
    using assms by (simp add: pool_geometry_def unat_word_ariths)
  then show ?thesis by (simp add: pool_contains_def word_less_nat_alt)
qed

theorem fake_contains_broadcast_witness:
  "pool_contains \<lparr>fp_base = 0x0A090000, fp_prefix = 30, fp_size = 2, fp_inner = inner_empty\<rparr>
     (V4 0x0A090003)"
proof -
  have "pool_geometry \<lparr>fp_base = 0x0A090000, fp_prefix = 30, fp_size = 2, fp_inner = inner_empty\<rparr>"
    by (simp add: pool_geometry_def)
  from fake_contains_broadcast [OF this] show ?thesis by simp
qed

text \<open>
  A persisted pool reloads as the same pool. For a JSON decoder that reads back what was written,
  loading the store a reachable pool writes, for the same range, gives the same forward map, the same
  reverse map and the same LRU order, with the cursor reduced modulo the pool size.
\<close>

theorem fake_persist_reload:
  assumes "pool_reachable cidr p" and "fp_prefix p \<le> 30"
    and json_roundtrip: "json_decode (json_encode (store_of p)) = Some (store_of p)"
  shows "\<exists>q. load_from json_decode cidr (Contents (json_encode (store_of p))) = Inr q \<and>
    fake_lookup q = fake_lookup p \<and>
    (\<forall>ip. fst (pool_reverse q ip) = fst (pool_reverse p ip)) \<and>
    fi_order (fp_inner q) = fi_order (fp_inner p) \<and>
    fi_cursor (fp_inner q) = fi_cursor (fp_inner p) mod fp_size p \<and> pool_inv q"
proof -
  let ?e = "p\<lparr>fp_inner := inner_empty\<rparr>"
  have inv: "pool_inv p" by (rule pool_reachable_inv [OF assms(1,2)])
  then have ii: "inner_inv p (fp_inner p)" and g: "pool_geometry p" by (simp_all add: pool_inv_def)
  define q where "q = p\<lparr>fp_inner :=
      (fold (\<lambda>d. record_mapping d (the (fake_lookup p d))) (fi_order (fp_inner p)) inner_empty)
        \<lparr>fi_cursor := fi_cursor (fp_inner p) mod fp_size p\<rparr>\<rparr>"
  have ls: "load_store ?e (store_of p) = Inr q" unfolding q_def by (rule load_store_of [OF inv])
  have ld: "load_from json_decode cidr (Contents (json_encode (store_of p))) = Inr q"
    using ls json_roundtrip pool_reachable_config [OF assms(1)] by (simp add: load_from_def)
  have view: "fake_lookup q = fake_lookup p"
  proof
    fix d
    show "fake_lookup q d = fake_lookup p d"
      using inner_invD(5) [OF ii]
      by (auto simp: q_def fake_lookup_def fold_record_sel inner_empty_def)
  qed
  have "\<exists>j. load_mappings ?e (sf_mappings (store_of p)) inner_empty = Inr j \<and>
      fp_inner q = j\<lparr>fi_cursor := fi_cursor (fp_inner p) mod fp_size p\<rparr>"
    using ls by (auto simp: load_store_def rbind_Inr_iff store_of_def Let_def split: if_splits)
  then obtain j where j: "load_mappings ?e (sf_mappings (store_of p)) inner_empty = Inr j"
    "fp_inner q = j\<lparr>fi_cursor := fi_cursor (fp_inner p) mod fp_size p\<rparr>" by blast
  have "inner_inv ?e j"
    using load_mappings_inv [OF _ j(1)] by simp
  then have iq: "inner_inv q (fp_inner q)" using j(2) by (simp add: q_def)
  have ord: "fi_order (fp_inner q) = fi_order (fp_inner p)"
    by (simp add: q_def fold_record_sel) (simp add: inner_empty_def)
  have "pool_len q = pool_len p"
    using inner_inv_order_len [OF iq] inner_inv_order_len [OF ii] ord by (simp add: pool_len_def)
  then have qinv: "pool_inv q"
    using inv iq by (simp add: pool_inv_def q_def pool_geometry_def)
  have "fst (pool_reverse q ip) = fst (pool_reverse p ip)" for ip
    using fake_reverse_view [OF qinv, of ip] fake_reverse_view [OF inv, of ip] view
    by (metis option.exhaust)
  then show ?thesis using ld view ord qinv by (auto simp: q_def)
qed

theorem fake_persist_reload_witness:
  "\<exists>q. load_from (\<lambda>_. Some (store_of
       \<lparr>fp_base = 0x0A090000, fp_prefix = 30, fp_size = 2, fp_inner = inner_empty\<rparr>))
     ''10.9.0.1/30'' (Contents []) = Inr q \<and> pool_inv q"
proof -
  let ?p = "\<lparr>fp_base = 0x0A090000, fp_prefix = 30, fp_size = 2, fp_inner = inner_empty\<rparr>"
  have "pool_reachable ''10.9.0.1/30'' ?p" by (rule reach_new) (rule example_pool_new)
  from fake_persist_reload [OF this, of "\<lambda>_. Some (store_of ?p)" "\<lambda>_. []"] show ?thesis by auto
qed

definition wrap_pool :: fake_pool where
  "wrap_pool =
    \<lparr>fp_base = 0x0A090000, fp_prefix = 29, fp_size = 6,
     fp_inner =
       \<lparr>fi_cursor = 0xFFFFFFFE,
        fi_by_domain = [(''a'', V4 0x0A090001), (''b'', V4 0x0A090002), (''c'', V4 0x0A090003),
          (''d'', V4 0x0A090004), (''e'', V4 0x0A090005)],
        fi_by_ip = [(V4 0x0A090001, ''a''), (V4 0x0A090002, ''b''), (V4 0x0A090003, ''c''),
          (V4 0x0A090004, ''d''), (V4 0x0A090005, ''e'')],
        fi_order = [''a'', ''b'', ''c'', ''d'', ''e'']\<rparr>\<rparr>"

text \<open>
  The free-slot argument fails once the 32-bit cursor wraps. In a pool of six addresses with five
  taken and the cursor two steps before its end, the probe misses the one free address and the
  fallback hands out an address that already belongs to another domain.
\<close>

theorem fake_cursor_wrap_aliases:
  "fst (lookup_or_alloc wrap_pool ''x'') = Inr (V4 0x0A090005) \<and>
   fake_lookup wrap_pool ''e'' = Some (V4 0x0A090005) \<and>
   fake_lookup (snd (lookup_or_alloc wrap_pool ''x'')) ''e'' =
     fake_lookup (snd (lookup_or_alloc wrap_pool ''x'')) ''x'' \<and>
   (\<forall>d. fake_lookup wrap_pool d \<noteq> Some (V4 0x0A090006))"
proof -
  let ?i = "fp_inner wrap_pool"
  have ev: "evict_when_full (fp_size wrap_pool) ?i = ?i"
    by (simp add: evict_when_full_def wrap_pool_def hm_len_def)
  have miss: "hm_get (fi_by_domain ?i) ''x'' = None" by (simp add: wrap_pool_def hm_get_def)
  have "probe (unat (fp_size wrap_pool)) (fp_base wrap_pool) (fp_size wrap_pool) (fi_by_ip ?i)
      (fi_cursor ?i) = (None, 4)"
    by (simp add: wrap_pool_def probe_numeral candidate_def hm_contains_def hm_get_def Let_def)
  then have "alloc_slot wrap_pool ?i = (V4 0x0A090005, 4)"
    by (simp add: alloc_slot_def) (simp add: candidate_def wrap_pool_def)
  then have "lookup_or_alloc_flagged wrap_pool ''x'' = (Inr (V4 0x0A090005, True),
      wrap_pool\<lparr>fp_inner := record_mapping ''x'' (V4 0x0A090005) (?i\<lparr>fi_cursor := 4\<rparr>)\<rparr>)"
    using miss by (simp add: lookup_or_alloc_flagged_def Let_def ev)
  then show ?thesis
    by (auto simp: lookup_or_alloc_def fake_lookup_def) (auto simp: wrap_pool_def hm_get_def split: if_splits)
qed

end
