(* ===== verification/Rule.thy ===== *)
theory Rule
  imports Addr
begin

text \<open>
  The routing rules (src/engine/src/rule.rs): networks and ranges, the matcher forms, domain sets,
  rule sets and geo databases, evaluation of one rule, and the ordered walk of a rule table with
  its actions. Compiled regular expressions and database readers come from other crates: a compiled
  expression is the predicate it matches, a reader is the lookup it answers.
\<close>

section \<open>Networks and ranges\<close>

record ip_net =
  net_addr_of :: ip_addr
  net_prefix :: u8

definition ip_net_new :: "ip_addr \<Rightarrow> u8 \<Rightarrow> ip_net result" where
  "ip_net_new addr p =
    (let maxp = (if is_ipv4 addr then 32 else 128) in
     if maxp < p then Inl (Config ''prefix exceeds'')
     else Inr \<lparr>net_addr_of = addr, net_prefix = p\<rparr>)"

definition net_mask :: "nat \<Rightarrow> nat \<Rightarrow> 'a::len word" where
  "net_mask width p = (if p = 0 then 0 else push_bit (width - p) (- 1))"

definition net_contains :: "ip_net \<Rightarrow> ip_addr \<Rightarrow> bool" where
  "net_contains n ip =
    (let p = unat (net_prefix n) in
     case (net_addr_of n, ip) of
       (V4 net, V4 addr) \<Rightarrow> net AND net_mask 32 p = addr AND net_mask 32 p
     | (V6 net, V6 addr) \<Rightarrow> net AND net_mask 128 p = addr AND net_mask 128 p
     | _ \<Rightarrow> False)"

definition ip_net_text :: "ip_net \<Rightarrow> string" where
  "ip_net_text n = show_ip (net_addr_of n) @ ''/'' @ show_nat (unat (net_prefix n))"

definition ip_net_from_str :: "string \<Rightarrow> ip_net result" where
  "ip_net_from_str s =
    rbind (ok_or (split_once CHR ''/'' s) (Config ''CIDR missing prefix'')) (\<lambda>(addr, p).
    rbind (ok_or (parse_ip addr) (Config ''bad CIDR address'')) (\<lambda>addr.
    rbind (ok_or (parse_u8 p) (Config ''bad CIDR prefix'')) (\<lambda>p.
      ip_net_new addr p)))"

record port_range =
  pr_start :: u16
  pr_end :: u16

definition port_in :: "port_range \<Rightarrow> u16 \<Rightarrow> bool" where
  "port_in r p = (pr_start r \<le> p \<and> p \<le> pr_end r)"

definition port_range_from_str :: "string \<Rightarrow> port_range result" where
  "port_range_from_str s =
    (case split_once CHR ''-'' s of
       Some (a, b) \<Rightarrow>
         rbind (ok_or (parse_u16 a) (Config ''bad port'')) (\<lambda>st.
         rbind (ok_or (parse_u16 b) (Config ''bad port'')) (\<lambda>en.
           Inr \<lparr>pr_start = st, pr_end = en\<rparr>))
     | None \<Rightarrow>
         rbind (ok_or (parse_u16 s) (Config ''bad port'')) (\<lambda>p.
           Inr \<lparr>pr_start = p, pr_end = p\<rparr>))"

record u32_range =
  ur_start :: u32
  ur_end :: u32

definition u32_range_contains :: "u32_range \<Rightarrow> u32 \<Rightarrow> bool" where
  "u32_range_contains r v = (ur_start r \<le> v \<and> v \<le> ur_end r)"

definition u32_range_from_str :: "string \<Rightarrow> u32_range result" where
  "u32_range_from_str s =
    (case split_once CHR ''-'' s of
       Some (a, b) \<Rightarrow>
         rbind (ok_or (parse_u32 a) (Config ''bad uid'')) (\<lambda>st.
         rbind (ok_or (parse_u32 b) (Config ''bad uid'')) (\<lambda>en.
           Inr \<lparr>ur_start = st, ur_end = en\<rparr>))
     | None \<Rightarrow>
         rbind (ok_or (parse_u32 s) (Config ''bad uid'')) (\<lambda>v.
           Inr \<lparr>ur_start = v, ur_end = v\<rparr>))"

section \<open>Connections\<close>

datatype rule_mode = RuleM | GlobalM | DirectM

definition rule_mode_str :: "rule_mode \<Rightarrow> string" where
  "rule_mode_str m = (case m of RuleM \<Rightarrow> ''rule'' | GlobalM \<Rightarrow> ''global'' | DirectM \<Rightarrow> ''direct'')"

definition rule_mode_parse :: "string \<Rightarrow> rule_mode result" where
  "rule_mode_parse s =
    (let lower = to_lower (trim s) in
     if lower = ''rule'' then Inr RuleM
     else if lower = ''global'' then Inr GlobalM
     else if lower = ''direct'' then Inr DirectM
     else Inl (Config ''bad mode''))"

datatype network_kind = Tcp | Udp

definition network_str :: "network_kind \<Rightarrow> string" where
  "network_str n = (case n of Tcp \<Rightarrow> ''tcp'' | Udp \<Rightarrow> ''udp'')"

record conn_context =
  ctx_host :: host
  ctx_port :: u16
  ctx_source_ip :: "ip_addr option"
  ctx_source_port :: "u16 option"
  ctx_resolved :: "ip_addr list option"
  ctx_mode :: rule_mode
  ctx_network :: network_kind
  ctx_inbound :: string
  ctx_inbound_kind :: string
  ctx_inbound_port :: "u16 option"
  ctx_process :: "string option"
  ctx_uid :: "u32 option"
  ctx_user :: "string option"
  ctx_dscp :: "u8 option"

definition ctx_ips :: "conn_context \<Rightarrow> ip_addr list" where
  "ctx_ips ctx =
    (case (ctx_host ctx, ctx_resolved ctx) of
       (Ip ip, _) \<Rightarrow> [ip]
     | (_, Some ips) \<Rightarrow> ips
     | (_, None) \<Rightarrow> [])"

section \<open>Matchers and rules\<close>

text \<open>
  A compiled regular expression is its match predicate. The flags of the address forms are, in the
  order of the source's fields, \<open>src\<close> (for \<open>MIpCidr\<close> only) and \<open>no_resolve\<close>; the flag of
  \<open>MProcess\<close> is \<open>path\<close>.
\<close>

type_synonym regex = "string \<Rightarrow> bool"

datatype logic_mode = LAnd | LOr | LNot

datatype rule_matcher =
    MDomain string
  | MDomainSuffix string
  | MDomainKeyword string
  | MDomainRegex regex
  | MIpCidr ip_net bool bool
  | MGeoIp string bool
  | MGeosite string
  | MPortDst port_range
  | MPortSrc port_range
  | MRuleSet string bool
  | MClashMode string
  | MNetwork network_kind
  | MInPort port_range
  | MInName string
  | MInType string
  | MUid u32_range
  | MInUser string
  | MDscp u8
  | MIpAsn u32 bool
  | MIpSuffix string bool
  | MProcess string bool
  | MLogic logic_mode "rule list"
  | MMatchAll
and rule = Rule (matcher: rule_matcher) (outbound: string)

datatype rule_action = ASniff "string list" | AResolve | AHijackDns

definition is_final :: "rule_action \<Rightarrow> bool" where
  "is_final a = (case a of AHijackDns \<Rightarrow> True | _ \<Rightarrow> False)"

definition domain_matches_suffix :: "string \<Rightarrow> string \<Rightarrow> bool" where
  "domain_matches_suffix d suffix = (d = suffix \<or> ends_with (CHR ''.'' # suffix) d)"

text \<open>
  Destination tail match: decimal octets for IPv4, hexadecimal groups for IPv6.
\<close>

definition ip_segments :: "ip_addr \<Rightarrow> string list" where
  "ip_segments ip =
    (case ip of
       V4 _ \<Rightarrow> map (\<lambda>b. show_nat (unat b)) (octets ip)
     | V6 w \<Rightarrow> map (\<lambda>g. show_radix 16 (unat g)) (segments w))"

definition ip_matches_suffix :: "ip_addr \<Rightarrow> string \<Rightarrow> bool" where
  "ip_matches_suffix ip suffix =
    (let segs = ip_segments ip;
         wanted = split_on CHR ''.'' suffix
     in if wanted = [] \<or> length segs < length wanted then False
        else list_all (\<lambda>(seg, s). seg = s) (zip (drop (length segs - length wanted) segs) wanted))"

section \<open>Domain sets, rule sets and geo databases\<close>

record domain_matcher =
  dm_exact :: "string list"
  dm_suffix :: "string list"
  dm_keyword :: "string list"
  dm_regex :: "regex list"

definition domain_matcher_empty :: domain_matcher where
  "domain_matcher_empty = \<lparr>dm_exact = [], dm_suffix = [], dm_keyword = [], dm_regex = []\<rparr>"

definition add_domain_line :: "string \<Rightarrow> domain_matcher \<Rightarrow> domain_matcher" where
  "add_domain_line line0 m =
    (let line = to_lower (trim line0) in
     if line = [] \<or> starts_with ''#'' line then m
     else case strip_prefix ''+.'' line of
       Some rest \<Rightarrow> m\<lparr>dm_suffix := dm_suffix m @ [rest]\<rparr>
     | None \<Rightarrow>
       (case strip_prefix ''.'' line of
          Some rest \<Rightarrow> m\<lparr>dm_suffix := dm_suffix m @ [rest]\<rparr>
        | None \<Rightarrow>
          if CHR ''*'' \<in> set line then
            (case strip_prefix ''*.'' line of
               Some kw \<Rightarrow> m\<lparr>dm_suffix := dm_suffix m @ [kw]\<rparr>
             | None \<Rightarrow> m)
          else m\<lparr>dm_exact := List.insert line (dm_exact m)\<rparr>))"

definition add_exact :: "string \<Rightarrow> domain_matcher \<Rightarrow> domain_matcher" where
  "add_exact d m = m\<lparr>dm_exact := List.insert (to_lower (trim d)) (dm_exact m)\<rparr>"

definition add_suffix :: "string \<Rightarrow> domain_matcher \<Rightarrow> domain_matcher" where
  "add_suffix s m =
    m\<lparr>dm_suffix := dm_suffix m @ [to_lower (trim_start_matches CHR ''.'' (trim s))]\<rparr>"

definition add_keyword :: "string \<Rightarrow> domain_matcher \<Rightarrow> domain_matcher" where
  "add_keyword kw m = m\<lparr>dm_keyword := dm_keyword m @ [to_lower kw]\<rparr>"

definition add_regex :: "(string \<Rightarrow> regex option) \<Rightarrow> string \<Rightarrow> domain_matcher \<Rightarrow> domain_matcher result" where
  "add_regex regex_new pattern m =
    rbind (ok_or (regex_new pattern) (Config ''bad domain-set regex''))
      (\<lambda>re. Inr (m\<lparr>dm_regex := dm_regex m @ [re]\<rparr>))"

definition domain_matcher_matches :: "domain_matcher \<Rightarrow> string \<Rightarrow> bool" where
  "domain_matcher_matches m domain =
    (let d = to_lower domain in
     if d \<in> set (dm_exact m) then True
     else if list_ex (\<lambda>s. s = ''*'' \<or> d = s \<or> ends_with (CHR ''.'' # s) d) (dm_suffix m) then True
     else if list_ex (\<lambda>k. contains_str k d) (dm_keyword m) then True
     else list_ex (\<lambda>re. re d) (dm_regex m))"

datatype rule_set_kind = SetDomain domain_matcher | SetIpCidr "ip_net list" | SetClassical "rule list"

type_synonym rule_sets = "(string, rule_set_kind) hash_map"

definition rule_sets_insert :: "string \<Rightarrow> rule_set_kind \<Rightarrow> rule_sets \<Rightarrow> rule_sets" where
  "rule_sets_insert name kind sets = hm_insert name kind sets"

definition rule_sets_get :: "rule_sets \<Rightarrow> string \<Rightarrow> rule_set_kind option" where
  "rule_sets_get sets name = hm_get sets name"

text \<open>
  A database record, by the three fields the engine reads of it.
\<close>

record mmdb_record =
  mm_country_iso :: "string option"
  mm_registered_iso :: "string option"
  mm_asn :: "u64 option"

type_synonym mmdb_reader = "ip_addr \<Rightarrow> mmdb_record option"

record geo_lookups =
  gl_geoip :: "mmdb_reader option"
  gl_asn_mmdb :: "mmdb_reader option"
  gl_geosite :: "(string, domain_matcher) hash_map"

definition geo_country :: "geo_lookups \<Rightarrow> ip_addr \<Rightarrow> string option" where
  "geo_country geo ip =
    Option.bind (gl_geoip geo) (\<lambda>reader.
    Option.bind (reader ip) (\<lambda>val.
      case mm_country_iso val of Some c \<Rightarrow> Some c | None \<Rightarrow> mm_registered_iso val))"

definition geo_asn :: "geo_lookups \<Rightarrow> ip_addr \<Rightarrow> u32 option" where
  "geo_asn geo ip =
    Option.bind (case gl_asn_mmdb geo of Some r \<Rightarrow> Some r | None \<Rightarrow> gl_geoip geo) (\<lambda>reader.
    Option.bind (reader ip) (\<lambda>val.
    Option.bind (mm_asn val) (\<lambda>n.
      if unat n < 2 ^ 32 then Some (ucast n) else None)))"

definition geosite_matches :: "geo_lookups \<Rightarrow> string \<Rightarrow> string \<Rightarrow> bool" where
  "geosite_matches geo name domain =
    (case hm_get (gl_geosite geo) name of
       Some m \<Rightarrow> domain_matcher_matches m domain
     | None \<Rightarrow> False)"

section \<open>Evaluation\<close>

text \<open>
  \<open>any\<close> and \<open>all\<close> over a list with short circuit, for a test that may not return.
\<close>

fun any_opt :: "('a \<Rightarrow> bool option) \<Rightarrow> 'a list \<Rightarrow> bool option" where
  "any_opt f [] = Some False"
| "any_opt f (x # xs) =
    (case f x of None \<Rightarrow> None | Some True \<Rightarrow> Some True | Some False \<Rightarrow> any_opt f xs)"

fun all_opt :: "('a \<Rightarrow> bool option) \<Rightarrow> 'a list \<Rightarrow> bool option" where
  "all_opt f [] = Some True"
| "all_opt f (x # xs) =
    (case f x of None \<Rightarrow> None | Some False \<Rightarrow> Some False | Some True \<Rightarrow> all_opt f xs)"

lemma any_opt_cong [fundef_cong]:
  "xs = ys \<Longrightarrow> (\<And>x. x \<in> set ys \<Longrightarrow> f x = g x) \<Longrightarrow> any_opt f xs = any_opt g ys"
  by (induction xs arbitrary: ys) (auto split: option.splits bool.splits)

lemma all_opt_cong [fundef_cong]:
  "xs = ys \<Longrightarrow> (\<And>x. x \<in> set ys \<Longrightarrow> f x = g x) \<Longrightarrow> all_opt f xs = all_opt g ys"
  by (induction xs arbitrary: ys) (auto split: option.splits bool.splits)

lemma size_sub_rule: "matcher r = MLogic mode sub \<Longrightarrow> x \<in> set sub \<Longrightarrow> size x < size r"
  by (cases r) (auto dest: size_list_estimation' [of _ _ "size x" size, OF _ order.refl])

lemma size_matcher: "x \<in> set sub \<Longrightarrow> size (matcher x) < Suc (size_list size sub)"
proof -
  assume "x \<in> set sub"
  then have "size x \<le> size_list size sub" by (rule size_list_estimation') simp
  then show ?thesis by (cases x) simp
qed

definition is_some_and :: "'a option \<Rightarrow> ('a \<Rightarrow> bool) \<Rightarrow> bool" where
  "is_some_and x f = (case x of None \<Rightarrow> False | Some v \<Rightarrow> f v)"

text \<open>
  The arms of \<open>Rule::evaluate\<close> that look at the connection only; the three recursive ones follow.
\<close>

definition evaluate_leaf :: "conn_context \<Rightarrow> geo_lookups \<Rightarrow> rule_matcher \<Rightarrow> bool" where
  "evaluate_leaf ctx geo m =
    (case m of
       MDomain d \<Rightarrow> as_domain (ctx_host ctx) = Some d
     | MDomainSuffix suffix \<Rightarrow> is_some_and (as_domain (ctx_host ctx)) (\<lambda>d. domain_matches_suffix d suffix)
     | MDomainKeyword kw \<Rightarrow> is_some_and (as_domain (ctx_host ctx)) (\<lambda>d. contains_str kw d)
     | MDomainRegex re \<Rightarrow> is_some_and (as_domain (ctx_host ctx)) (\<lambda>d. re d)
     | MIpCidr net src _ \<Rightarrow>
         (if src then is_some_and (ctx_source_ip ctx) (net_contains net)
          else list_ex (net_contains net) (ctx_ips ctx))
     | MGeoIp country _ \<Rightarrow> list_ex (\<lambda>ip. geo_country geo ip = Some country) (ctx_ips ctx)
     | MGeosite name \<Rightarrow> is_some_and (as_domain (ctx_host ctx)) (\<lambda>d. geosite_matches geo name d)
     | MPortDst rg \<Rightarrow> port_in rg (ctx_port ctx)
     | MPortSrc rg \<Rightarrow> is_some_and (ctx_source_port ctx) (port_in rg)
     | MClashMode mode \<Rightarrow> rule_mode_str (ctx_mode ctx) = mode
     | MNetwork n \<Rightarrow> ctx_network ctx = n
     | MInPort rg \<Rightarrow> is_some_and (ctx_inbound_port ctx) (port_in rg)
     | MInName name \<Rightarrow> ctx_inbound ctx = name
     | MInType kinds \<Rightarrow> list_ex (\<lambda>k. eq_ignore_case (ctx_inbound_kind ctx) k) (split_on CHR ''/'' kinds)
     | MUid rg \<Rightarrow> is_some_and (ctx_uid ctx) (u32_range_contains rg)
     | MInUser users \<Rightarrow> is_some_and (ctx_user ctx) (\<lambda>u. list_ex (\<lambda>w. w = u) (split_on CHR ''/'' users))
     | MDscp d \<Rightarrow> ctx_dscp ctx = Some d
     | MIpAsn asn _ \<Rightarrow> list_ex (\<lambda>ip. geo_asn geo ip = Some asn) (ctx_ips ctx)
     | MIpSuffix suffix _ \<Rightarrow> list_ex (\<lambda>ip. ip_matches_suffix ip suffix) (ctx_ips ctx)
     | MProcess pattern path \<Rightarrow>
         is_some_and (ctx_process ctx)
           (\<lambda>p. if path then p = pattern else last (split_on CHR ''/'' p) = pattern)
     | _ \<Rightarrow> True)"

text \<open>
  \<open>Rule::evaluate\<close>. A classical set may name a set in its turn, and nothing in the source bounds
  that chain, so each entry into a classical set costs one unit of fuel and running out is \<open>None\<close>:
  the call that does not return.
\<close>

function evaluate :: "nat \<Rightarrow> conn_context \<Rightarrow> rule_sets \<Rightarrow> geo_lookups \<Rightarrow> rule \<Rightarrow> bool option" where
  "evaluate fuel ctx sets geo r =
    (case matcher r of
       MRuleSet name _ \<Rightarrow>
         (case rule_sets_get sets name of
            None \<Rightarrow> Some False
          | Some (SetDomain m) \<Rightarrow>
              Some (is_some_and (as_domain (ctx_host ctx)) (\<lambda>d. domain_matcher_matches m d))
          | Some (SetIpCidr nets) \<Rightarrow>
              Some (list_ex (\<lambda>ip. list_ex (\<lambda>n. net_contains n ip) nets) (ctx_ips ctx))
          | Some (SetClassical rules) \<Rightarrow>
              (case fuel of
                 0 \<Rightarrow> None
               | Suc fuel \<Rightarrow> any_opt (\<lambda>r. evaluate fuel ctx sets geo r) rules))
     | MLogic LAnd sub \<Rightarrow> all_opt (\<lambda>r. evaluate fuel ctx sets geo r) sub
     | MLogic LOr sub \<Rightarrow> any_opt (\<lambda>r. evaluate fuel ctx sets geo r) sub
     | MLogic LNot sub \<Rightarrow>
         (case sub of
            [] \<Rightarrow> Some False
          | r # _ \<Rightarrow> map_option Not (evaluate fuel ctx sets geo r))
     | m \<Rightarrow> Some (evaluate_leaf ctx geo m))"
  by pat_completeness auto
termination
  by (relation "measures [\<lambda>(fuel, _, _, _, _). fuel, \<lambda>(_, _, _, _, r). size r]")
    (auto intro: size_sub_rule)

declare evaluate.simps [simp del]

section \<open>What a rule needs\<close>

function matcher_needs_ip :: "rule_matcher \<Rightarrow> bool" where
  "matcher_needs_ip m =
    (case m of
       MIpCidr _ src no_resolve \<Rightarrow> \<not> src \<and> \<not> no_resolve
     | MGeoIp _ no_resolve \<Rightarrow> \<not> no_resolve
     | MIpAsn _ no_resolve \<Rightarrow> \<not> no_resolve
     | MIpSuffix _ no_resolve \<Rightarrow> \<not> no_resolve
     | MRuleSet _ no_resolve \<Rightarrow> \<not> no_resolve
     | MLogic _ sub \<Rightarrow> list_ex (\<lambda>r. matcher_needs_ip (matcher r)) sub
     | _ \<Rightarrow> False)"
  by pat_completeness auto
termination
  by (relation "measure size") (auto intro: size_matcher)

definition needs_ip :: "rule \<Rightarrow> bool" where
  "needs_ip r = matcher_needs_ip (matcher r)"

function matcher_needs_process :: "rule_matcher \<Rightarrow> bool" where
  "matcher_needs_process m =
    (case m of
       MProcess _ _ \<Rightarrow> True
     | MUid _ \<Rightarrow> True
     | MLogic _ sub \<Rightarrow> list_ex (\<lambda>r. matcher_needs_process (matcher r)) sub
     | _ \<Rightarrow> False)"
  by pat_completeness auto
termination
  by (relation "measure size") (auto intro: size_matcher)

declare matcher_needs_ip.simps [simp del] matcher_needs_process.simps [simp del]

definition needs_process :: "rule list \<Rightarrow> bool" where
  "needs_process rules = list_ex (\<lambda>r. matcher_needs_process (matcher r)) rules"

section \<open>The rule table\<close>

datatype match_outcome =
    ORoute rule nat
  | OSniff rule_action nat nat
  | OResolve nat nat
  | OHijackDns nat
  | ONoMatch

record rule_table =
  rt_rules :: "rule list"
  rt_actions :: "(nat, rule_action) hash_map"

definition from_parts :: "rule list \<Rightarrow> (nat, rule_action) hash_map \<Rightarrow> rule_table" where
  "from_parts rules actions = \<lparr>rt_rules = rules, rt_actions = actions\<rparr>"

definition table_action :: "rule_table \<Rightarrow> nat \<Rightarrow> rule_action option" where
  "table_action t index = hm_get (rt_actions t) index"

definition outcome_at :: "rule_table \<Rightarrow> nat \<Rightarrow> rule \<Rightarrow> match_outcome" where
  "outcome_at t i r =
    (case table_action t i of
       None \<Rightarrow> ORoute r i
     | Some (ASniff ps) \<Rightarrow> OSniff (ASniff ps) i (i + 1)
     | Some AResolve \<Rightarrow> OResolve i (i + 1)
     | Some AHijackDns \<Rightarrow> OHijackDns i)"

text \<open>
  The walk from a start index. As the evaluator, it is \<open>None\<close> when a rule's evaluation does not
  return.
\<close>

fun match_rules :: "nat \<Rightarrow> conn_context \<Rightarrow> rule_sets \<Rightarrow> geo_lookups \<Rightarrow> rule_table \<Rightarrow> nat \<Rightarrow> rule list \<Rightarrow>
    match_outcome option" where
  "match_rules fuel ctx sets geo t i [] = Some ONoMatch"
| "match_rules fuel ctx sets geo t i (r # rs) =
    (case evaluate fuel ctx sets geo r of
       None \<Rightarrow> None
     | Some False \<Rightarrow> match_rules fuel ctx sets geo t (Suc i) rs
     | Some True \<Rightarrow> Some (outcome_at t i r))"

definition match_from :: "nat \<Rightarrow> rule_table \<Rightarrow> nat \<Rightarrow> conn_context \<Rightarrow> rule_sets \<Rightarrow> geo_lookups \<Rightarrow>
    match_outcome option" where
  "match_from fuel t start ctx sets geo =
    match_rules fuel ctx sets geo t start (drop start (rt_rules t))"

definition table_walk :: "nat \<Rightarrow> rule_table \<Rightarrow> conn_context \<Rightarrow> rule_sets \<Rightarrow> geo_lookups \<Rightarrow> match_outcome option" where
  "table_walk fuel t ctx sets geo = match_from fuel t 0 ctx sets geo"

definition table_needs_ip :: "rule_table \<Rightarrow> bool" where
  "table_needs_ip t = list_ex needs_ip (rt_rules t)"

definition table_needs_process :: "rule_table \<Rightarrow> bool" where
  "table_needs_process t = needs_process (rt_rules t)"

section \<open>Short-circuit lists\<close>

lemma any_opt_total:
  "(\<And>x. x \<in> set xs \<Longrightarrow> f x \<noteq> None) \<Longrightarrow> any_opt f xs = Some (\<exists>x \<in> set xs. f x = Some True)"
  by (induction xs) (auto split: option.splits bool.splits)

lemma all_opt_total:
  "(\<And>x. x \<in> set xs \<Longrightarrow> f x \<noteq> None) \<Longrightarrow> all_opt f xs = Some (\<forall>x \<in> set xs. f x = Some True)"
  by (induction xs) (auto split: option.splits bool.splits)

lemma any_opt_mono:
  "(\<And>x b. x \<in> set xs \<Longrightarrow> f x = Some b \<Longrightarrow> g x = Some b) \<Longrightarrow> any_opt f xs = Some b \<Longrightarrow>
   any_opt g xs = Some b"
proof (induction xs)
  case (Cons x xs)
  then obtain c where c: "f x = Some c" by (cases "f x") auto
  with Cons.prems(1) have "g x = Some c" by simp
  with Cons c show ?case by (cases c) auto
qed simp

lemma all_opt_mono:
  "(\<And>x b. x \<in> set xs \<Longrightarrow> f x = Some b \<Longrightarrow> g x = Some b) \<Longrightarrow> all_opt f xs = Some b \<Longrightarrow>
   all_opt g xs = Some b"
proof (induction xs)
  case (Cons x xs)
  then obtain c where c: "f x = Some c" by (cases "f x") auto
  with Cons.prems(1) have "g x = Some c" by simp
  with Cons c show ?case by (cases c) auto
qed simp

section \<open>Evaluation: one equation per recursive form\<close>

lemma evaluate_leaf_eq:
  "(\<forall>n b. m \<noteq> MRuleSet n b) \<Longrightarrow> (\<forall>mode sub. m \<noteq> MLogic mode sub) \<Longrightarrow>
   evaluate fuel ctx sets geo (Rule m out) = Some (evaluate_leaf ctx geo m)"
  by (subst evaluate.simps) (auto split: rule_matcher.splits)

lemma evaluate_logic:
  "evaluate fuel ctx sets geo (Rule (MLogic LAnd sub) out) = all_opt (evaluate fuel ctx sets geo) sub"
  "evaluate fuel ctx sets geo (Rule (MLogic LOr sub) out) = any_opt (evaluate fuel ctx sets geo) sub"
  "evaluate fuel ctx sets geo (Rule (MLogic LNot []) out) = Some False"
  "evaluate fuel ctx sets geo (Rule (MLogic LNot (r # rs)) out) =
     map_option Not (evaluate fuel ctx sets geo r)"
  by (subst evaluate.simps; simp)+

lemma evaluate_rule_set:
  "evaluate fuel ctx sets geo (Rule (MRuleSet name nr) out) =
    (case rule_sets_get sets name of
       None \<Rightarrow> Some False
     | Some (SetDomain m) \<Rightarrow>
         Some (is_some_and (as_domain (ctx_host ctx)) (domain_matcher_matches m))
     | Some (SetIpCidr nets) \<Rightarrow>
         Some (list_ex (\<lambda>ip. list_ex (\<lambda>n. net_contains n ip) nets) (ctx_ips ctx))
     | Some (SetClassical rules) \<Rightarrow>
         (case fuel of 0 \<Rightarrow> None | Suc f \<Rightarrow> any_opt (evaluate f ctx sets geo) rules))"
  by (subst evaluate.simps) (simp split: option.splits rule_set_kind.splits nat.splits)

lemma rule_form_cases:
  obtains (leaf) "\<forall>n b. matcher r \<noteq> MRuleSet n b" "\<forall>mode sub. matcher r \<noteq> MLogic mode sub"
  | (set) name nr where "matcher r = MRuleSet name nr"
  | (logic) mode sub where "matcher r = MLogic mode sub"
  by blast

section \<open>Fuel\<close>

lemma evaluate_mono:
  "evaluate fuel ctx sets geo r = Some b \<Longrightarrow> fuel \<le> fuel' \<Longrightarrow> evaluate fuel' ctx sets geo r = Some b"
proof (induction fuel ctx sets geo r arbitrary: fuel' b rule: evaluate.induct)
  case (1 fuel ctx sets geo r)
  obtain m out where r: "r = Rule m out" by (cases r)
  from rule_form_cases [of r] show ?case
  proof cases
    case leaf
    then show ?thesis using "1.prems" by (simp add: r evaluate_leaf_eq)
  next
    case (set name nr)
    show ?thesis
    proof (cases "\<exists>rules. rule_sets_get sets name = Some (SetClassical rules)")
      case True
      then obtain rules where rules: "rule_sets_get sets name = Some (SetClassical rules)" by blast
      then obtain f where f: "fuel = Suc f"
        using "1.prems"(1) set r by (cases fuel) (auto simp: evaluate_rule_set)
      then obtain f' where f': "fuel' = Suc f'" "f \<le> f'" using "1.prems"(2) by (cases fuel') auto
      have "any_opt (evaluate f ctx sets geo) rules = Some b"
        using "1.prems"(1) set r rules f by (simp add: evaluate_rule_set)
      then have "any_opt (evaluate f' ctx sets geo) rules = Some b"
        by (rule any_opt_mono [rotated]) (rule "1.IH"(1) [OF set rules refl f _ _ f'(2)])
      then show ?thesis using set r rules f' by (simp add: evaluate_rule_set)
    next
      case False
      then show ?thesis
        using "1.prems"(1) set r by (auto simp: evaluate_rule_set split: option.splits rule_set_kind.splits)
    qed
  next
    case (logic mode sub)
    show ?thesis
    proof (cases mode)
      case LAnd
      then show ?thesis
        using all_opt_mono [of sub "evaluate fuel ctx sets geo" "evaluate fuel' ctx sets geo" b,
            OF "1.IH"(2) [OF logic LAnd _ _ "1.prems"(2)]] "1.prems"(1) logic r
        by (simp add: evaluate_logic)
    next
      case LOr
      then show ?thesis
        using any_opt_mono [of sub "evaluate fuel ctx sets geo" "evaluate fuel' ctx sets geo" b,
            OF "1.IH"(3) [OF logic LOr _ _ "1.prems"(2)]] "1.prems"(1) logic r
        by (simp add: evaluate_logic)
    next
      case LNot
      then show ?thesis
        using "1.prems" "1.IH"(4) [OF logic LNot _ _ "1.prems"(2)] logic r
        by (cases sub) (auto simp: evaluate_logic simp del: not_None_eq)
    qed
  qed
qed

text \<open>The set names a rule mentions, through its logic sub-rules.\<close>

function matcher_refs :: "rule_matcher \<Rightarrow> string list" where
  "matcher_refs m =
    (case m of
       MRuleSet name _ \<Rightarrow> [name]
     | MLogic _ sub \<Rightarrow> concat (map (\<lambda>r. matcher_refs (matcher r)) sub)
     | _ \<Rightarrow> [])"
  by pat_completeness auto
termination
  by (relation "measure size") (auto intro: size_matcher)

declare matcher_refs.simps [simp del]

definition rule_refs :: "rule \<Rightarrow> string set" where
  "rule_refs r = set (matcher_refs (matcher r))"

lemma rule_refs_logic: "rule_refs (Rule (MLogic mode sub) out) = (\<Union>r \<in> set sub. rule_refs r)"
  by (simp add: rule_refs_def matcher_refs.simps [of "MLogic mode sub"])

lemma rule_refs_set: "rule_refs (Rule (MRuleSet name nr) out) = {name}"
  by (simp add: rule_refs_def matcher_refs.simps)

text \<open>
  Rule sets without a cycle: every classical set has a level above the levels of the sets it names.
\<close>

definition sets_ranked :: "(string \<Rightarrow> nat) \<Rightarrow> rule_sets \<Rightarrow> bool" where
  "sets_ranked rank sets =
    (\<forall>name rules. rule_sets_get sets name = Some (SetClassical rules) \<longrightarrow>
       (\<forall>r \<in> set rules. \<forall>n \<in> rule_refs r. rank n < rank name))"

lemma evaluate_ranked:
  "sets_ranked rank sets \<Longrightarrow> (\<And>n. n \<in> rule_refs r \<Longrightarrow> rank n < fuel) \<Longrightarrow>
   evaluate fuel ctx sets geo r \<noteq> None"
proof (induction fuel ctx sets geo r rule: evaluate.induct)
  case (1 fuel ctx sets geo r)
  obtain m out where r: "r = Rule m out" by (cases r)
  from rule_form_cases [of r] show ?case
  proof cases
    case leaf
    then show ?thesis by (simp add: r evaluate_leaf_eq)
  next
    case (set name nr)
    then have lt: "rank name < fuel" using "1.prems"(2) r by (simp add: rule_refs_set)
    then obtain f where f: "fuel = Suc f" by (cases fuel) auto
    have "any_opt (evaluate f ctx sets geo) rules \<noteq> None"
      if rules: "rule_sets_get sets name = Some (SetClassical rules)" for rules
    proof -
      have "evaluate f ctx sets geo x \<noteq> None" if x: "x \<in> set rules" for x
      proof (rule "1.IH"(1) [OF set rules refl f x "1.prems"(1)])
        fix n assume "n \<in> rule_refs x"
        then have "rank n < rank name"
          using "1.prems"(1) rules x unfolding sets_ranked_def by blast
        with lt f show "rank n < f" by simp
      qed
      then show ?thesis by (simp add: any_opt_total)
    qed
    then show ?thesis
      using set r f by (auto simp: evaluate_rule_set split: option.splits rule_set_kind.splits)
  next
    case (logic mode sub)
    have refs: "rank n < fuel" if "n \<in> rule_refs x" "x \<in> set sub" for n x
      using "1.prems"(2) that logic r by (auto simp: rule_refs_logic)
    show ?thesis
    proof (cases mode)
      case LAnd
      then have "evaluate fuel ctx sets geo x \<noteq> None" if "x \<in> set sub" for x
        using "1.IH"(2) [OF logic LAnd that "1.prems"(1)] refs that by blast
      then show ?thesis using LAnd logic r by (simp add: evaluate_logic all_opt_total)
    next
      case LOr
      then have "evaluate fuel ctx sets geo x \<noteq> None" if "x \<in> set sub" for x
        using "1.IH"(3) [OF logic LOr that "1.prems"(1)] refs that by blast
      then show ?thesis using LOr logic r by (simp add: evaluate_logic any_opt_total)
    next
      case LNot
      then show ?thesis
        using "1.IH"(4) [OF logic LNot _ "1.prems"(1)] refs logic r
        by (cases sub) (auto simp: evaluate_logic)
    qed
  qed
qed

section \<open>The walk\<close>

text \<open>
  Rule \<open>i\<close> is the first from \<open>start\<close> on that matches.
\<close>

definition first_match :: "nat \<Rightarrow> rule_table \<Rightarrow> nat \<Rightarrow> conn_context \<Rightarrow> rule_sets \<Rightarrow> geo_lookups \<Rightarrow> nat \<Rightarrow> bool" where
  "first_match fuel t start ctx sets geo i =
    (start \<le> i \<and> i < length (rt_rules t) \<and> evaluate fuel ctx sets geo (rt_rules t ! i) = Some True \<and>
     (\<forall>j. start \<le> j \<and> j < i \<longrightarrow> evaluate fuel ctx sets geo (rt_rules t ! j) = Some False))"

lemma match_rules_iff:
  "match_rules fuel ctx sets geo t i rs = Some res \<longleftrightarrow>
     (\<exists>k < length rs. evaluate fuel ctx sets geo (rs ! k) = Some True \<and>
        (\<forall>j < k. evaluate fuel ctx sets geo (rs ! j) = Some False) \<and> res = outcome_at t (i + k) (rs ! k)) \<or>
     (res = ONoMatch \<and> (\<forall>j < length rs. evaluate fuel ctx sets geo (rs ! j) = Some False))"
proof (induction rs arbitrary: i)
  case Nil
  then show ?case by auto
next
  case (Cons r rs)
  show ?case
  proof (cases "evaluate fuel ctx sets geo r")
    case None
    then show ?thesis by (auto simp: Ex_less_Suc2 All_less_Suc2)
  next
    case (Some b)
    show ?thesis
    proof (cases b)
      case True
      with Some show ?thesis by (auto simp: Ex_less_Suc2 All_less_Suc2)
    next
      case False
      with Some show ?thesis
        by (simp add: Cons.IH Ex_less_Suc2 All_less_Suc2)
    qed
  qed
qed

lemma match_from_iff:
  "match_from fuel t start ctx sets geo = Some res \<longleftrightarrow>
     (\<exists>i. first_match fuel t start ctx sets geo i \<and> res = outcome_at t i (rt_rules t ! i)) \<or>
     (res = ONoMatch \<and>
      (\<forall>j. start \<le> j \<and> j < length (rt_rules t) \<longrightarrow> evaluate fuel ctx sets geo (rt_rules t ! j) = Some False))"
  (is "_ \<longleftrightarrow> ?hit \<or> ?miss")
proof -
  let ?rs = "drop start (rt_rules t)"
  let ?ev = "\<lambda>j. evaluate fuel ctx sets geo (rt_rules t ! j)"
  have "(\<exists>k < length ?rs. evaluate fuel ctx sets geo (?rs ! k) = Some True \<and>
      (\<forall>j < k. evaluate fuel ctx sets geo (?rs ! j) = Some False) \<and>
      res = outcome_at t (start + k) (?rs ! k)) \<longleftrightarrow> ?hit" (is "?a \<longleftrightarrow> _")
  proof
    assume ?a
    then obtain k where k: "k < length ?rs" "?ev (start + k) = Some True"
      "\<forall>j < k. ?ev (start + j) = Some False" "res = outcome_at t (start + k) (rt_rules t ! (start + k))"
      by auto
    have "?ev j = Some False" if "start \<le> j" "j < start + k" for j
      using k(3) that by (metis add.commute less_diff_conv2 le_add_diff_inverse)
    then show ?hit using k by (intro exI [of _ "start + k"]) (auto simp: first_match_def)
  next
    assume ?hit
    then obtain i where i: "first_match fuel t start ctx sets geo i" "res = outcome_at t i (rt_rules t ! i)"
      by blast
    then show ?a by (intro exI [of _ "i - start"]) (auto simp: first_match_def)
  qed
  moreover have "(res = ONoMatch \<and> (\<forall>j < length ?rs. evaluate fuel ctx sets geo (?rs ! j) = Some False)) \<longleftrightarrow> ?miss"
  proof -
    have "(\<forall>j < length ?rs. evaluate fuel ctx sets geo (?rs ! j) = Some False) \<longleftrightarrow>
        (\<forall>j. start \<le> j \<and> j < length (rt_rules t) \<longrightarrow> ?ev j = Some False)"
      by (auto simp: nth_drop) (metis add.commute less_diff_conv2 le_add_diff_inverse diff_less_mono)
    then show ?thesis by simp
  qed
  ultimately show ?thesis unfolding match_from_def match_rules_iff by simp
qed

lemma outcome_at_simps:
  "ORoute r' k = outcome_at t i r \<longleftrightarrow> table_action t i = None \<and> r' = r \<and> k = i"
  "OSniff a k n = outcome_at t i r \<longleftrightarrow> (\<exists>ps. table_action t i = Some (ASniff ps) \<and> a = ASniff ps) \<and> k = i \<and> n = i + 1"
  "OResolve k n = outcome_at t i r \<longleftrightarrow> table_action t i = Some AResolve \<and> k = i \<and> n = i + 1"
  "OHijackDns k = outcome_at t i r \<longleftrightarrow> table_action t i = Some AHijackDns \<and> k = i"
  "ONoMatch \<noteq> outcome_at t i r"
  by (auto simp: outcome_at_def split: option.splits rule_action.splits)

section \<open>Networks\<close>

lemma bit_net_mask:
  "p \<le> LENGTH('a) \<Longrightarrow> k < LENGTH('a) \<Longrightarrow>
   bit (net_mask LENGTH('a) p :: 'a::len word) k \<longleftrightarrow> LENGTH('a) - p \<le> k"
  by (auto simp: net_mask_def bit_simps)

lemma net_mask_and_iff:
  fixes v w :: "'a::len word"
  assumes "p \<le> LENGTH('a)"
  shows "v AND net_mask LENGTH('a) p = w AND net_mask LENGTH('a) p \<longleftrightarrow>
    drop_bit (LENGTH('a) - p) v = drop_bit (LENGTH('a) - p) w"
proof -
  have "v AND net_mask LENGTH('a) p = w AND net_mask LENGTH('a) p \<longleftrightarrow>
      (\<forall>k < LENGTH('a). LENGTH('a) - p \<le> k \<longrightarrow> bit v k = bit w k)"
    by (auto simp: bit_eq_iff bit_and_iff bit_net_mask [OF assms])
  also have "\<dots> \<longleftrightarrow> drop_bit (LENGTH('a) - p) v = drop_bit (LENGTH('a) - p) w" (is "?l \<longleftrightarrow> ?r")
  proof
    assume ?l
    then show ?r
      by (intro bit_word_eqI) (auto simp: bit_drop_bit_eq dest: bit_imp_le_length)
  next
    assume r: ?r
    have "bit v k = bit w k" if "LENGTH('a) - p \<le> k" for k
    proof -
      have "bit (drop_bit (LENGTH('a) - p) v) (k - (LENGTH('a) - p)) =
          bit (drop_bit (LENGTH('a) - p) w) (k - (LENGTH('a) - p))" using r by simp
      then show ?thesis using that by (simp add: bit_drop_bit_eq)
    qed
    then show ?l by blast
  qed
  finally show ?thesis .
qed

lemma ip_net_new_Inr:
  "ip_net_new addr p = Inr n \<longleftrightarrow>
     n = \<lparr>net_addr_of = addr, net_prefix = p\<rparr> \<and> unat p \<le> (if is_ipv4 addr then 32 else 128)"
  by (auto simp: ip_net_new_def Let_def word_less_nat_alt not_less)

section \<open>Domain suffixes\<close>

lemma split_on_join_two: "split_on c (a @ c # b) = split_on c a @ split_on c b"
proof (induction a)
  case (Cons x a)
  then show ?case by (cases "split_on c a") auto
qed simp

lemma domain_matches_suffix_labels:
  "domain_matches_suffix d s \<longleftrightarrow> (\<exists>sub. split_on CHR ''.'' d = sub @ split_on CHR ''.'' s)"
proof
  assume "domain_matches_suffix d s"
  then show "\<exists>sub. split_on CHR ''.'' d = sub @ split_on CHR ''.'' s"
    by (auto simp: domain_matches_suffix_def ends_with_iff split_on_join_two)
next
  assume "\<exists>sub. split_on CHR ''.'' d = sub @ split_on CHR ''.'' s"
  then obtain sub where sub: "split_on CHR ''.'' d = sub @ split_on CHR ''.'' s" by blast
  have join_app: "join [c] (xs @ ys) = join [c] xs @ c # join [c] ys"
    if "xs \<noteq> []" "ys \<noteq> []" for xs ys and c :: char
    using that by (induction xs rule: induct_list012) (auto simp: neq_Nil_conv)
  show "domain_matches_suffix d s"
  proof (cases "sub = []")
    case True
    then have "d = s" using sub by (metis append_Nil join_split_on)
    then show ?thesis by (simp add: domain_matches_suffix_def)
  next
    case False
    then have "d = join ''.'' sub @ CHR ''.'' # s"
      using sub join_app [OF False split_on_nonempty] by (metis join_split_on)
    then show ?thesis by (auto simp: domain_matches_suffix_def ends_with_iff)
  qed
qed

section \<open>Resolved addresses\<close>

text \<open>Whether some form under the rule carries \<open>no-resolve\<close>.\<close>

function matcher_no_resolve :: "rule_matcher \<Rightarrow> bool" where
  "matcher_no_resolve m =
    (case m of
       MIpCidr _ _ no_resolve \<Rightarrow> no_resolve
     | MGeoIp _ no_resolve \<Rightarrow> no_resolve
     | MIpAsn _ no_resolve \<Rightarrow> no_resolve
     | MIpSuffix _ no_resolve \<Rightarrow> no_resolve
     | MRuleSet _ no_resolve \<Rightarrow> no_resolve
     | MLogic _ sub \<Rightarrow> list_ex (\<lambda>r. matcher_no_resolve (matcher r)) sub
     | _ \<Rightarrow> False)"
  by pat_completeness auto
termination
  by (relation "measure size") (auto intro: size_matcher)

declare matcher_no_resolve.simps [simp del]

lemma evaluate_leaf_resolved:
  "\<not> matcher_needs_ip m \<Longrightarrow> \<not> matcher_no_resolve m \<Longrightarrow>
   evaluate_leaf (ctx\<lparr>ctx_resolved := a\<rparr>) geo m = evaluate_leaf ctx geo m"
  by (cases m) (auto simp: evaluate_leaf_def matcher_needs_ip.simps matcher_no_resolve.simps)

lemma evaluate_resolved:
  "\<not> needs_ip r \<Longrightarrow> \<not> matcher_no_resolve (matcher r) \<Longrightarrow>
   evaluate fuel (ctx\<lparr>ctx_resolved := a\<rparr>) sets geo r = evaluate fuel ctx sets geo r"
proof (induction fuel ctx sets geo r rule: evaluate.induct)
  case (1 fuel ctx sets geo r)
  obtain m out where r: "r = Rule m out" by (cases r)
  from rule_form_cases [of r] show ?case
  proof cases
    case leaf
    then show ?thesis
      using "1.prems" evaluate_leaf_resolved [of m a ctx geo] by (simp add: r evaluate_leaf_eq needs_ip_def)
  next
    case (set name nr)
    then show ?thesis
      using "1.prems" by (simp add: needs_ip_def matcher_needs_ip.simps matcher_no_resolve.simps)
  next
    case (logic mode sub)
    then have sub: "\<not> needs_ip x" "\<not> matcher_no_resolve (matcher x)" if "x \<in> set sub" for x
      using "1.prems" that
      by (auto simp: needs_ip_def matcher_needs_ip.simps [of "MLogic mode sub"]
        matcher_no_resolve.simps [of "MLogic mode sub"] list_ex_iff)
    show ?thesis
    proof (cases mode)
      case LAnd
      then show ?thesis
        using all_opt_cong [OF refl "1.IH"(2) [OF logic LAnd _ sub]] logic r by (simp add: evaluate_logic)
    next
      case LOr
      then show ?thesis
        using any_opt_cong [OF refl "1.IH"(3) [OF logic LOr _ sub]] logic r by (simp add: evaluate_logic)
    next
      case LNot
      then show ?thesis
        using "1.IH"(4) [OF logic LNot] sub logic r by (cases sub) (auto simp: evaluate_logic)
    qed
  qed
qed

section \<open>Domain set lines\<close>

text \<open>
  What one line of a domain set stands for, on a lower-case domain: \<open>+.x\<close>, \<open>.x\<close> and \<open>*.x\<close> are the
  domain \<open>x\<close> and all below it, a line with another star stands for nothing, any other line for itself.
\<close>

definition line_covers :: "string \<Rightarrow> string \<Rightarrow> bool" where
  "line_covers line d =
    (let under = (\<lambda>s. s = ''*'' \<or> domain_matches_suffix d s) in
     if line = [] \<or> starts_with ''#'' line then False
     else if starts_with ''+.'' line then under (drop 2 line)
     else if starts_with ''.'' line then under (drop 1 line)
     else if starts_with ''*.'' line then under (drop 2 line)
     else if CHR ''*'' \<in> set line then False
     else d = line)"

lemma domain_matcher_matches_alt:
  "domain_matcher_matches m domain \<longleftrightarrow>
     to_lower domain \<in> set (dm_exact m) \<or>
     (\<exists>s \<in> set (dm_suffix m). s = ''*'' \<or> domain_matches_suffix (to_lower domain) s) \<or>
     (\<exists>k \<in> set (dm_keyword m). contains_str k (to_lower domain)) \<or>
     (\<exists>re \<in> set (dm_regex m). re (to_lower domain))"
  by (auto simp: domain_matcher_matches_def domain_matches_suffix_def Let_def list_ex_iff)

lemma starts_with_star_mem: "starts_with ''*.'' l \<Longrightarrow> CHR ''*'' \<in> set l"
  by (auto simp: starts_with_iff)

lemma add_domain_line_covers:
  "domain_matcher_matches (add_domain_line line m) d \<longleftrightarrow>
     domain_matcher_matches m d \<or> line_covers (to_lower (trim line)) (to_lower d)"
proof -
  define l where "l = to_lower (trim line)"
  have sel: "dm_exact (add_domain_line line m) =
      (if l = [] \<or> starts_with ''#'' l \<or> starts_with ''+.'' l \<or> starts_with ''.'' l \<or> CHR ''*'' \<in> set l
       then dm_exact m else List.insert l (dm_exact m))"
    "dm_suffix (add_domain_line line m) =
      (if l = [] \<or> starts_with ''#'' l then dm_suffix m
       else if starts_with ''+.'' l then dm_suffix m @ [drop 2 l]
       else if starts_with ''.'' l then dm_suffix m @ [drop 1 l]
       else if starts_with ''*.'' l then dm_suffix m @ [drop 2 l]
       else dm_suffix m)"
    "dm_keyword (add_domain_line line m) = dm_keyword m"
    "dm_regex (add_domain_line line m) = dm_regex m"
    using starts_with_star_mem [of l]
    by (simp_all add: add_domain_line_def Let_def l_def [symmetric] strip_prefix_def numeral_2_eq_2)
  show ?thesis
    unfolding domain_matcher_matches_alt line_covers_def Let_def l_def [symmetric] sel
    using starts_with_star_mem [of l] by auto
qed

section \<open>Theorems\<close>

text \<open>
  C33: The table walk is first match. From any start index it routes by rule \<open>i\<close> exactly when \<open>i\<close> is
  the first rule from there on whose evaluation is true and it carries no action.
\<close>

theorem walk_routes_first_match:
  "match_from fuel t start ctx sets geo = Some (ORoute r i) \<longleftrightarrow>
     first_match fuel t start ctx sets geo i \<and> r = rt_rules t ! i \<and> table_action t i = None"
  by (auto simp: match_from_iff outcome_at_simps)

text \<open>
  A non-final action stops the walk at the first matching rule and hands back the index just
  behind it: \<open>resume_at\<close> is above the start and never beyond the end of the table, so re-entering
  the walk makes progress.
\<close>

theorem walk_resumes_behind_action:
  assumes "match_from fuel t start ctx sets geo = Some (OSniff a i n) \<or>
    match_from fuel t start ctx sets geo = Some (OResolve i n)"
  shows "first_match fuel t start ctx sets geo i \<and> start < n \<and> n = i + 1 \<and> n \<le> length (rt_rules t) \<and>
    (\<exists>act. table_action t i = Some act \<and> \<not> is_final act)"
  using assms by (auto simp: match_from_iff outcome_at_simps first_match_def is_final_def)

definition sniff_then_route :: rule_table where
  "sniff_then_route =
    from_parts [Rule (MNetwork Udp) ''A'', Rule MMatchAll ''-'', Rule MMatchAll ''B''] [(1, ASniff [])]"

definition tcp_context :: conn_context where
  "tcp_context =
    \<lparr>ctx_host = Domain ''www.example.com'', ctx_port = 443, ctx_source_ip = None, ctx_source_port = None,
     ctx_resolved = None, ctx_mode = RuleM, ctx_network = Tcp, ctx_inbound = ''in'',
     ctx_inbound_kind = ''mixed'', ctx_inbound_port = None, ctx_process = None, ctx_uid = None,
     ctx_user = None, ctx_dscp = None\<rparr>"

definition no_geo :: geo_lookups where
  "no_geo = \<lparr>gl_geoip = None, gl_asn_mmdb = None, gl_geosite = []\<rparr>"

theorem walk_resumes_behind_action_witness:
  "match_from 0 sniff_then_route 0 tcp_context [] no_geo = Some (OSniff (ASniff []) 1 2) \<and>
   first_match 0 sniff_then_route 0 tcp_context [] no_geo 1"
proof -
  have "match_from 0 sniff_then_route 0 tcp_context [] no_geo = Some (OSniff (ASniff []) 1 2)"
    by (simp add: match_from_def sniff_then_route_def from_parts_def evaluate_leaf_eq evaluate_leaf_def
      tcp_context_def outcome_at_def table_action_def hm_get_def)
  with walk_resumes_behind_action [of 0 sniff_then_route 0 tcp_context "[]" no_geo "ASniff []" 1 2]
  show ?thesis by simp
qed

text \<open>
  C35: Evaluation returns when the classical rule sets do not name each other in a cycle. With levels
  that fall along every reference, fuel above the levels of the sets a rule names gives an answer,
  and any more fuel gives the same.
\<close>

theorem evaluate_terminates_acyclic:
  assumes "sets_ranked rank sets" and "\<forall>n \<in> rule_refs r. rank n < fuel"
  shows "\<exists>b. \<forall>fuel' \<ge> fuel. evaluate fuel' ctx sets geo r = Some b"
proof -
  obtain b where "evaluate fuel ctx sets geo r = Some b"
    using evaluate_ranked [OF assms(1)] assms(2) by blast
  then show ?thesis using evaluate_mono by blast
qed

definition two_level_sets :: rule_sets where
  "two_level_sets =
    [(''outer'', SetClassical [Rule (MRuleSet ''inner'' False) ''-'']),
     (''inner'', SetClassical [Rule (MNetwork Tcp) ''-''])]"

theorem evaluate_terminates_acyclic_witness:
  "\<exists>b. \<forall>fuel' \<ge> 2. evaluate fuel' tcp_context two_level_sets no_geo (Rule (MRuleSet ''outer'' False) ''P'') =
     Some b"
proof (rule evaluate_terminates_acyclic [where rank = "\<lambda>n. if n = ''outer'' then 1 else 0"])
  show "sets_ranked (\<lambda>n. if n = ''outer'' then 1 else 0) two_level_sets"
    by (auto simp: sets_ranked_def rule_sets_get_def two_level_sets_def hm_get_def rule_refs_set
      rule_refs_def matcher_refs.simps split: if_splits)
qed (simp add: rule_refs_set)

text \<open>
  A classical set that names itself makes evaluation run forever: no fuel is enough for a rule that
  refers to it, whatever the connection.
\<close>

theorem self_naming_set_diverges:
  "evaluate fuel ctx [(name, SetClassical [Rule (MRuleSet name nr) out])] geo (Rule (MRuleSet name nr') out') = None"
  by (induction fuel arbitrary: nr' out') (simp_all add: evaluate_rule_set rule_sets_get_def hm_get_def)

text \<open>
  A CIDR network contains exactly the addresses of its family that agree with it on the prefix.
  Networks made by \<open>IpNet::new\<close> never shift by more than the width.
\<close>

theorem cidr_contains_prefix:
  assumes "ip_net_new a p = Inr n"
  shows "net_contains n ip \<longleftrightarrow>
    (case (a, ip) of
       (V4 v, V4 w) \<Rightarrow> drop_bit (32 - unat p) v = drop_bit (32 - unat p) w
     | (V6 v, V6 w) \<Rightarrow> drop_bit (128 - unat p) v = drop_bit (128 - unat p) w
     | _ \<Rightarrow> False)"
  using assms net_mask_and_iff [of "unat p", where ?'a = 32] net_mask_and_iff [of "unat p", where ?'a = 128]
  by (auto simp: ip_net_new_Inr net_contains_def is_ipv4_def Let_def split: ip_addr.splits)

theorem cidr_contains_prefix_witness:
  "net_contains \<lparr>net_addr_of = V4 0x0A000000, net_prefix = 8\<rparr> (V4 0x0A112233) \<and>
   \<not> net_contains \<lparr>net_addr_of = V4 0x0A000000, net_prefix = 8\<rparr> (V4 0x0B000000)"
proof -
  have "ip_net_new (V4 0x0A000000) 8 = Inr \<lparr>net_addr_of = V4 0x0A000000, net_prefix = 8\<rparr>"
    by (simp add: ip_net_new_Inr is_ipv4_def)
  from cidr_contains_prefix [OF this, of "V4 0x0A112233"] cidr_contains_prefix [OF this, of "V4 0x0B000000"]
  show ?thesis by simp
qed

text \<open>
  A printed IPv4 network parses back, and a prefix beyond the width of the family is refused.
\<close>

theorem cidr_text_roundtrip:
  "ip_net_from_str (ip_net_text \<lparr>net_addr_of = V4 v, net_prefix = p\<rparr>) =
     (if unat p \<le> 32 then Inr \<lparr>net_addr_of = V4 v, net_prefix = p\<rparr> else Inl (Config ''prefix exceeds''))"
proof -
  have "CHR ''/'' \<notin> set (show_ip (V4 v))"
    using show_ipv4_chars [of _ v] radix_digit_not_dot is_radix_digit_mono by (fastforce simp: show_ip_def)
  then have "split_once CHR ''/'' (show_ip (V4 v) @ CHR ''/'' # show_nat (unat p)) =
      Some (show_ip (V4 v), show_nat (unat p))"
    by (rule split_once_append)
  moreover have "parse_u8 (show_nat (unat p)) = Some p"
    by (simp add: parse_u8_def parse_uint_show)
  ultimately show ?thesis
    by (simp add: ip_net_from_str_def ip_net_text_def parse_ip_show_v4 ip_net_new_def is_ipv4_def
      word_less_nat_alt)
qed

text \<open>
  Suffix matching works on labels. A domain matches a suffix exactly when its label list ends with
  the labels of the suffix, so \<open>ab.com\<close> never matches \<open>b.com\<close>.
\<close>

theorem suffix_match_labels:
  "domain_matches_suffix d s \<longleftrightarrow> (\<exists>sub. split_on CHR ''.'' d = sub @ split_on CHR ''.'' s)"
  by (rule domain_matches_suffix_labels)

text \<open>
  \<open>needs_ip\<close> is sound for the single pre-resolve of the router. A rule that does not ask for it and
  has no \<open>no-resolve\<close> form evaluates the same whatever addresses were resolved.
\<close>

theorem needs_ip_sound:
  assumes "\<not> needs_ip r" and "\<not> matcher_no_resolve (matcher r)"
  shows "evaluate fuel (ctx\<lparr>ctx_resolved := a\<rparr>) sets geo r = evaluate fuel ctx sets geo r"
  using assms by (rule evaluate_resolved)

theorem needs_ip_sound_witness:
  "evaluate 0 (tcp_context\<lparr>ctx_resolved := Some [V4 1]\<rparr>) [] no_geo
     (Rule (MLogic LNot [Rule (MDomainSuffix ''example.com'') ''-'']) ''P'') =
   evaluate 0 tcp_context [] no_geo (Rule (MLogic LNot [Rule (MDomainSuffix ''example.com'') ''-'']) ''P'')"
  by (rule needs_ip_sound) (simp_all add: needs_ip_def matcher_needs_ip.simps matcher_no_resolve.simps)

text \<open>
  Adding a line to a domain set adds exactly the domains the line covers, and nothing else changes.
  A line with a star that is not a leading \<open>*.\<close> label covers no domain: it is dropped silently.
\<close>

theorem domain_line_adds_cover:
  "domain_matcher_matches (add_domain_line line m) d \<longleftrightarrow>
     domain_matcher_matches m d \<or> line_covers (to_lower (trim line)) (to_lower d)"
  by (rule add_domain_line_covers)

end
