(* ===== verification/Quic.thy ===== *)
theory Quic
  imports Prelude
begin

text \<open>
  The QUIC variable-length integers and the minimal HTTP/3 helpers of src/engine/src/quic/mod.rs:
  the varint codec, frames, QPACK literals, and the reader that collects the DATA frames of a
  response from a stream delivered in arbitrary chunks. The QUIC transport itself is the quinn
  crate; a receive stream is the list of chunks it delivers, each with its outcome.
\<close>

section \<open>Variable-length integers\<close>

definition write_varint :: "bytes \<Rightarrow> u64 \<Rightarrow> bytes" where
  "write_varint buf v =
    (if v \<le> 0x3f then buf @ [ucast v]
     else if v \<le> 0x3fff then buf @ [ucast (drop_bit 8 v) OR 0x40, ucast v]
     else if v \<le> 0x3fffffff then
       buf @ [ucast (drop_bit 24 v) OR 0x80, ucast (drop_bit 16 v), ucast (drop_bit 8 v), ucast v]
     else
       buf @ [ucast (drop_bit 56 v) OR 0xc0, ucast (drop_bit 48 v), ucast (drop_bit 40 v),
              ucast (drop_bit 32 v), ucast (drop_bit 24 v), ucast (drop_bit 16 v),
              ucast (drop_bit 8 v), ucast v])"

definition varint_len :: "u64 \<Rightarrow> nat" where
  "varint_len v =
    (if v \<le> 0x3f then 1 else if v \<le> 0x3fff then 2 else if v \<le> 0x3fffffff then 4 else 8)"

definition read_varint :: "bytes \<Rightarrow> (u64 \<times> nat) option" where
  "read_varint data =
    (case data of
       [] \<Rightarrow> None
     | first # rest \<Rightarrow>
         let len = 2 ^ unat (drop_bit 6 first) in
         if length data < len then None
         else Some (foldl (\<lambda>v b. push_bit 8 v OR ucast b) (ucast (first AND 0x3f)) (take (len - 1) rest),
                    len))"

section \<open>HTTP/3 frames and QPACK literals\<close>

definition H3_DATA :: u64 where "H3_DATA = 0x0"
definition H3_HEADERS :: u64 where "H3_HEADERS = 0x1"
definition H3_SETTINGS :: u64 where "H3_SETTINGS = 0x4"

definition put_h3_frame :: "bytes \<Rightarrow> u64 \<Rightarrow> bytes \<Rightarrow> bytes" where
  "put_h3_frame out frame_type payload =
    write_varint (write_varint out frame_type) (word_of_nat (length payload)) @ payload"

text \<open>The continuation bytes of a prefixed integer.\<close>

function put_rest :: "u64 \<Rightarrow> bytes" where
  "put_rest rest =
    (if 128 \<le> rest then ((ucast rest AND 0x7f) OR 0x80) # put_rest (drop_bit 7 rest)
     else [ucast rest])"
  by pat_completeness auto
termination
proof (relation "measure unat", goal_cases)
  case 1
  then show ?case by simp
next
  case (2 rest)
  then have "128 \<le> unat rest" by (simp add: word_le_nat_alt)
  then have "drop_bit 7 (unat rest) < unat rest" by (simp add: drop_bit_eq_div)
  moreover have "unat (drop_bit 7 rest) = drop_bit 7 (unat rest)" by (rule unat_drop_bit_eq)
  ultimately show ?case by simp
qed

declare put_rest.simps [simp del]

definition put_prefixed_int :: "bytes \<Rightarrow> u8 \<Rightarrow> nat \<Rightarrow> u64 \<Rightarrow> bytes" where
  "put_prefixed_int buf flags prefix_bits v =
    (let maxv = push_bit prefix_bits 1 - 1 in
     if v < maxv then buf @ [flags OR ucast v]
     else buf @ [flags OR ucast maxv] @ put_rest (v - maxv))"

definition put_qpack_literal :: "bytes \<Rightarrow> bytes \<Rightarrow> bytes \<Rightarrow> bytes" where
  "put_qpack_literal block name value =
    put_prefixed_int (put_prefixed_int block 0x20 3 (word_of_nat (length name)) @ name)
      0x00 7 (word_of_nat (length value)) @ value"

definition read_frame_header :: "bytes \<Rightarrow> (u64 \<times> u64 \<times> nat) option" where
  "read_frame_header data =
    Option.bind (read_varint data) (\<lambda>(ftype, a).
    Option.bind (slice_range data a (length data)) (\<lambda>rest.
    Option.bind (read_varint rest) (\<lambda>(flen, b).
      Some (ftype, flen, a + b))))"

lemma read_varint_bounds: "read_varint data = Some (v, n) \<Longrightarrow> 0 < n \<and> n \<le> length data"
  by (auto simp: read_varint_def Let_def split: list.splits if_splits)

lemma read_frame_header_bounds:
  "read_frame_header data = Some (t, l, h) \<Longrightarrow> 1 < h \<and> h \<le> length data"
  by (auto simp: read_frame_header_def Option.bind_eq_Some_conv slice_range_Some_iff
      dest!: read_varint_bounds split: prod.splits)

text \<open>
  The inner turns of the reader: whole frames are taken off the front of the buffer while there are
  any; DATA payloads are collected.
\<close>

function h3_drain :: "bytes \<Rightarrow> bytes \<Rightarrow> bytes \<times> bytes" where
  "h3_drain buf out =
    (case read_frame_header buf of
       None \<Rightarrow> (buf, out)
     | Some (ftype, flen, hdr) \<Rightarrow>
         let total = hdr + unat flen in
         if total \<le> length buf then
           h3_drain (drop total buf)
             (if ftype = H3_DATA then out @ take (total - hdr) (drop hdr buf) else out)
         else (buf, out))"
  by pat_completeness auto
termination
  by (relation "measure (\<lambda>(buf, _). length buf)") (auto dest!: read_frame_header_bounds)

declare h3_drain.simps [simp del]

datatype chunk = Chunk bytes | StreamError

fun h3_read_loop :: "chunk list \<Rightarrow> bytes \<Rightarrow> bytes \<Rightarrow> bytes result" where
  "h3_read_loop [] buf out = Inr (snd (h3_drain buf out))"
| "h3_read_loop (Chunk c # cs) buf out =
    (case h3_drain buf out of (buf, out) \<Rightarrow> h3_read_loop cs (buf @ c) out)"
| "h3_read_loop (StreamError # cs) buf out = Inl (Network ''stream read'')"

definition h3_read_data :: "chunk list \<Rightarrow> bytes result" where
  "h3_read_data recv = h3_read_loop recv [] []"

section \<open>The varint codec\<close>

lemma unat_u64_less [simp]: "unat (v :: u64) < 18446744073709551616"
  using unsigned_less [of v, where ?'a = nat] by simp

lemma unat_exp_u64: "n < 64 \<Longrightarrow> unat (2 ^ n :: u64) = 2 ^ n"
  using unat_of_nat [of "2 ^ n", where ?'a = 64] power_strict_increasing [of n 64 "2 :: nat"]
  by (simp add: take_bit_eq_mod)

lemma bit_less_exp: "v < 2 ^ n \<Longrightarrow> n < 64 \<Longrightarrow> bit (v :: u64) k \<Longrightarrow> k < n"
proof (rule ccontr)
  assume v: "v < 2 ^ n" "n < 64" "bit v k" "\<not> k < n"
  have "unat v < 2 ^ n" using v(1,2) by (simp add: word_less_nat_alt unat_exp_u64)
  also have "2 ^ n \<le> (2 :: nat) ^ k" using v(4) by (intro power_increasing) simp_all
  finally have "\<not> bit (unat v) k" by (simp add: bit_iff_odd)
  then show False using v(3) by (simp add: bit_unsigned_iff bit_imp_le_length)
qed

text \<open>
  A varint is the big-endian form of the value with a tag in its top two bits, so reading masks the
  tag and folds the rest.
\<close>

lemma bit_low_six: "bit (0x3f :: u8) j \<longleftrightarrow> j < 6"
proof -
  have "(0x3f :: u8) = mask 6" by (simp add: mask_eq_exp_minus_1)
  then show ?thesis by (simp only: bit_mask_iff) auto
qed

lemma varint_fold:
  fixes v :: u64
  assumes "n < 8" and tag: "\<And>k. k < 6 \<Longrightarrow> \<not> bit (tag :: u8) k"
  shows "foldl (\<lambda>v b. push_bit 8 v OR ucast b)
    (ucast ((ucast (drop_bit (8 * n) v) OR tag) AND (0x3f :: u8))) (be_bytes n v) = take_bit (8 * n + 6) v"
proof (rule bit_word_eqI)
  fix k
  assume k: "k < LENGTH(64)"
  have "bit (ucast ((ucast (drop_bit (8 * n) v) OR tag) AND (0x3f :: u8)) :: u64) (k - 8 * n) \<longleftrightarrow>
      bit (take_bit (8 * n + 6) v) k" if "8 * n \<le> k"
    using that k tag
    by (simp only: bit_unsigned_iff bit_and_iff bit_or_iff bit_low_six bit_drop_bit_eq bit_take_bit_iff)
      (auto dest: bit_imp_le_length)
  then show "bit (foldl (\<lambda>v b. push_bit 8 v OR ucast b)
      (ucast ((ucast (drop_bit (8 * n) v) OR tag) AND (0x3f :: u8))) (be_bytes n v) :: u64) k =
      bit (take_bit (8 * n + 6) v) k"
    by (simp only: bit_foldl_be [OF k]) (simp add: not_less bit_take_bit_iff)
qed

lemma read_varint_tagged:
  assumes "unat (drop_bit 6 (ucast (drop_bit (8 * n) v) OR tag :: u8)) = t" and "Suc n = 2 ^ t" and "n < 8"
    and "\<And>k. k < 6 \<Longrightarrow> \<not> bit tag k"
  shows "read_varint (((ucast (drop_bit (8 * n) v) OR tag) # be_bytes n v) @ rest) =
    Some (take_bit (8 * n + 6) v, Suc n)"
proof -
  have len: "(2 :: nat) ^ t - 1 = n" using assms(2) by simp
  show ?thesis
    using varint_fold [OF assms(3,4), of v] assms(1,2) len
    by (simp add: read_varint_def Let_def)
qed

lemma drop_six_tag:
  fixes v :: u64
  assumes "v < 2 ^ (8 * n + 6)" and "n < 7"
  shows "drop_bit 6 (ucast (drop_bit (8 * n) v) OR tag :: u8) = drop_bit 6 tag"
proof -
  have "drop_bit 6 (ucast (drop_bit (8 * n) v) :: u8) = 0"
  proof (rule bit_word_eqI)
    fix k
    have "\<not> bit v (8 * n + (6 + k))"
      using bit_less_exp [OF assms(1), of "8 * n + (6 + k)"] assms(2) by auto
    then show "bit (drop_bit 6 (ucast (drop_bit (8 * n) v) :: u8)) k = bit 0 k"
      by (simp add: bit_simps)
  qed
  then show ?thesis by simp
qed

lemma take_bit_less_u64: "v < 2 ^ n \<Longrightarrow> n \<le> m \<Longrightarrow> n < 64 \<Longrightarrow> take_bit m (v :: u64) = v"
  by (intro bit_word_eqI) (auto simp: bit_simps dest: bit_less_exp)

lemma tag_bits:
  "k < 6 \<Longrightarrow> \<not> bit (0x40 :: u8) k" "k < 6 \<Longrightarrow> \<not> bit (0x80 :: u8) k" "k < 6 \<Longrightarrow> \<not> bit (0xc0 :: u8) k"
proof -
  have "(0x40 :: u8) = push_bit 6 1" "(0x80 :: u8) = push_bit 7 1" "(0xc0 :: u8) = push_bit 6 3" by simp_all
  then show "k < 6 \<Longrightarrow> \<not> bit (0x40 :: u8) k" "k < 6 \<Longrightarrow> \<not> bit (0x80 :: u8) k" "k < 6 \<Longrightarrow> \<not> bit (0xc0 :: u8) k"
    by (simp_all only: bit_push_bit_iff) auto
qed

lemma be_bytes_8:
  "be_bytes 8 w = [ucast (drop_bit 56 w), ucast (drop_bit 48 w), ucast (drop_bit 40 w), ucast (drop_bit 32 w),
    ucast (drop_bit 24 w), ucast (drop_bit 16 w), ucast (drop_bit 8 w), ucast w]"
  using be_bytes.simps(2) [of 3 w] by (simp add: eval_nat_numeral)

lemma read_write_varint_any:
  "read_varint (write_varint [] v @ rest) = Some (take_bit 62 v, varint_len v)"
proof -
  consider (one) "v \<le> 0x3f" | (two) "\<not> v \<le> 0x3f" "v \<le> 0x3fff"
    | (four) "\<not> v \<le> 0x3f" "\<not> v \<le> 0x3fff" "v \<le> 0x3fffffff" | (eight) "\<not> v \<le> 0x3f" "\<not> v \<le> 0x3fff" "\<not> v \<le> 0x3fffffff"
    by blast
  then show ?thesis
  proof cases
    case one
    then have v: "v < 2 ^ (8 * 0 + 6)" by (simp add: word_le_nat_alt word_less_nat_alt)
    have "read_varint (((ucast (drop_bit (8 * 0) v) OR 0) # be_bytes 0 v) @ rest) =
        Some (take_bit (8 * 0 + 6) v, Suc 0)"
      by (rule read_varint_tagged [of 0 v 0 0]) (simp_all only: drop_six_tag [OF v], simp_all)
    then show ?thesis using one take_bit_less_u64 [OF v, of 6] take_bit_less_u64 [OF v, of 62]
      by (simp add: write_varint_def varint_len_def)
  next
    case two
    then have v: "v < 2 ^ (8 * 1 + 6)" by (simp add: word_le_nat_alt word_less_nat_alt)
    have "read_varint (((ucast (drop_bit (8 * 1) v) OR 0x40) # be_bytes 1 v) @ rest) =
        Some (take_bit (8 * 1 + 6) v, Suc 1)"
      by (rule read_varint_tagged [of 1 v "0x40" 1]) (simp_all only: drop_six_tag [OF v] tag_bits, simp_all)
    then show ?thesis using two take_bit_less_u64 [OF v, of 14] take_bit_less_u64 [OF v, of 62]
      by (simp add: write_varint_def varint_len_def)
  next
    case four
    then have v: "v < 2 ^ (8 * 3 + 6)" by (simp add: word_le_nat_alt word_less_nat_alt)
    have "read_varint (((ucast (drop_bit (8 * 3) v) OR 0x80) # be_bytes 3 v) @ rest) =
        Some (take_bit (8 * 3 + 6) v, Suc 3)"
      by (rule read_varint_tagged [of 3 v "0x80" 2]) (simp_all only: drop_six_tag [OF v] tag_bits, simp_all)
    then show ?thesis using four take_bit_less_u64 [OF v, of 30] take_bit_less_u64 [OF v, of 62]
      by (simp add: write_varint_def varint_len_def numeral_3_eq_3)
  next
    case eight
    have d: "drop_bit 6 (x OR 0xc0 :: u8) = 3" for x
    proof (rule bit_word_eqI)
      fix k
      have "(0xc0 :: u8) = push_bit 6 (mask 2)" "(3 :: u8) = mask 2" by (simp_all add: mask_eq_exp_minus_1)
      then have "bit (0xc0 :: u8) (6 + k) \<longleftrightarrow> k < 2" "bit (3 :: u8) k \<longleftrightarrow> k < 2"
        by (simp_all only: bit_push_bit_iff bit_mask_iff) auto
      then show "bit (drop_bit 6 (x OR 0xc0)) k = bit (3 :: u8) k"
        using bit_imp_le_length [of x "6 + k"] by (simp only: bit_drop_bit_eq bit_or_iff o_apply) auto
    qed
    have "read_varint (((ucast (drop_bit (8 * 7) v) OR 0xc0) # be_bytes 7 v) @ rest) =
        Some (take_bit (8 * 7 + 6) v, Suc 7)"
      by (rule read_varint_tagged [of 7 v "0xc0" 3]) (simp_all only: d tag_bits, simp_all)
    moreover have "be_bytes 7 v = [ucast (drop_bit 48 v), ucast (drop_bit 40 v), ucast (drop_bit 32 v),
        ucast (drop_bit 24 v), ucast (drop_bit 16 v), ucast (drop_bit 8 v), ucast v]"
      using be_bytes_8 [of v] be_bytes.simps(2) [of 7 v] by simp
    ultimately show ?thesis using eight by (simp add: write_varint_def varint_len_def)
  qed
qed

lemma length_write_varint: "length (write_varint [] v) = varint_len v"
  by (simp add: write_varint_def varint_len_def)

lemma write_varint_append: "write_varint buf v = buf @ write_varint [] v"
  by (simp add: write_varint_def)

lemma read_varint_append: "read_varint data = Some r \<Longrightarrow> read_varint (data @ c) = Some r"
  by (auto simp: read_varint_def Let_def split: list.splits if_splits)

lemma read_varint_stable:
  assumes "read_varint data = Some (v, n)"
  shows "read_varint (take n data @ c) = Some (v, n)"
proof -
  obtain first rest where d: "data = first # rest" and n: "n = 2 ^ unat (drop_bit 6 first)" "n \<le> length data"
    and v: "v = foldl (\<lambda>v b. push_bit 8 v OR ucast b) (ucast (first AND 0x3f)) (take (n - 1) rest)"
    using assms by (auto simp: read_varint_def Let_def split: list.splits if_splits)
  have "0 < n" using n(1) by simp
  then have "take n data = first # take (n - 1) rest" by (simp add: d take_Cons')
  then have "read_varint (take n data) = Some (v, n)"
    using d n v by (simp add: read_varint_def Let_def)
  then show ?thesis by (rule read_varint_append)
qed

interpretation varint: prefix_codec "\<lambda>v. write_varint [] v"
  "\<lambda>bs. ok_or (read_varint bs) (Protocol ''varint'')" "\<lambda>v. v < 2 ^ 62"
proof (unfold_locales, goal_cases)
  case (1 v rest)
  then show ?case
    using read_write_varint_any [of v rest] take_bit_less_u64 [OF 1, of 62]
    by (simp add: length_write_varint)
next
  case (2 bs v n)
  then show ?case using read_varint_bounds by simp
next
  case (3 bs v n more)
  then show ?case using read_varint_stable by simp
qed

section \<open>Frames\<close>

lemma read_frame_header_append:
  assumes "read_frame_header data = Some r"
  shows "read_frame_header (data @ c) = Some r"
proof -
  obtain t a l b where 1: "read_varint data = Some (t, a)" and 2: "a \<le> length data"
    and 3: "read_varint (drop a data) = Some (l, b)" and r: "r = (t, l, a + b)"
    using assms
    by (auto simp: read_frame_header_def Option.bind_eq_Some_conv slice_range_Some_iff split: prod.splits)
  show ?thesis
    using read_varint_append [OF 1, of c] read_varint_append [OF 3, of c] 2 r
    by (simp add: read_frame_header_def slice_range_def)
qed

lemma read_frame_header_frame:
  assumes "t < 2 ^ 62" and "length p < 2 ^ 62"
  shows "read_frame_header (put_h3_frame [] t p @ rest) =
    Some (t, word_of_nat (length p), length (put_h3_frame [] t p) - length p)"
    "length (put_h3_frame [] t p) = length (put_h3_frame [] t p) - length p + unat (word_of_nat (length p) :: u64)"
    "drop (length (put_h3_frame [] t p) - length p) (put_h3_frame [] t p @ rest) = p @ rest"
proof -
  let ?l = "word_of_nat (length p) :: u64"
  have l: "unat ?l = length p" using assms(2) by (simp add: unat_of_nat take_bit_eq_mod)
  have l62: "?l < 2 ^ 62" using l assms(2) by (simp add: word_less_nat_alt)
  have f: "put_h3_frame [] t p = write_varint [] t @ write_varint [] ?l @ p"
    using write_varint_append [of "write_varint [] t" ?l] by (simp add: put_h3_frame_def)
  show "read_frame_header (put_h3_frame [] t p @ rest) =
    Some (t, ?l, length (put_h3_frame [] t p) - length p)"
    using varint.roundtrip [OF assms(1), of "write_varint [] ?l @ p @ rest"]
      varint.roundtrip [OF l62, of "p @ rest"]
    by (simp add: read_frame_header_def f slice_range_def)
  show "length (put_h3_frame [] t p) = length (put_h3_frame [] t p) - length p + unat ?l"
    "drop (length (put_h3_frame [] t p) - length p) (put_h3_frame [] t p @ rest) = p @ rest"
    using l by (simp_all add: f)
qed

text \<open>Draining a buffer and going on with more bytes is draining all bytes at once.\<close>

lemma h3_drain_append:
  "h3_drain (buf @ c) out = (case h3_drain buf out of (b, o') \<Rightarrow> h3_drain (b @ c) o')"
proof (induction buf out rule: h3_drain.induct)
  case (1 buf out)
  show ?case
  proof (cases "\<exists>t l h. read_frame_header buf = Some (t, l, h) \<and> h + unat l \<le> length buf")
    case True
    then obtain t l h where h: "read_frame_header buf = Some (t, l, h)" "h + unat l \<le> length buf" by blast
    let ?out = "if t = H3_DATA then out @ take (unat l) (drop h buf) else out"
    have "h3_drain buf out = h3_drain (drop (h + unat l) buf) ?out"
      using h by (subst h3_drain.simps) simp
    moreover have "h3_drain (buf @ c) out = h3_drain (drop (h + unat l) buf @ c) ?out"
      using h read_frame_header_append [OF h(1), of c] by (subst h3_drain.simps) simp
    ultimately show ?thesis
      using "1.IH" [OF h(1) refl refl refl] h(2) by (simp only: add_diff_cancel_left' simp_thms)
  next
    case False
    then have "h3_drain buf out = (buf, out)" by (subst h3_drain.simps) (auto split: option.splits)
    then show ?thesis by simp
  qed
qed

lemma h3_read_loop_chunks:
  "h3_read_loop (map Chunk cs) buf out = Inr (snd (h3_drain (buf @ concat cs) out))"
proof (induction cs arbitrary: buf out)
  case (Cons c cs)
  obtain b o' where d: "h3_drain buf out = (b, o')" by (cases "h3_drain buf out")
  then show ?case
    using Cons.IH [of "b @ c" o'] h3_drain_append [of buf "c @ concat cs" out] by simp
qed simp

definition frame_ok :: "u64 \<times> bytes \<Rightarrow> bool" where
  "frame_ok f = (fst f < 2 ^ 62 \<and> length (snd f) < 2 ^ 62)"

definition data_payloads :: "(u64 \<times> bytes) list \<Rightarrow> bytes" where
  "data_payloads fs = concat (map snd (filter (\<lambda>f. fst f = H3_DATA) fs))"

lemma h3_drain_frames:
  "list_all frame_ok fs \<Longrightarrow>
   h3_drain (concat (map (\<lambda>(t, p). put_h3_frame [] t p) fs)) out = ([], out @ data_payloads fs)"
proof (induction fs arbitrary: out)
  case Nil
  show ?case by (subst h3_drain.simps) (simp add: read_frame_header_def read_varint_def data_payloads_def)
next
  case (Cons f fs)
  obtain t p where f: "f = (t, p)" by (cases f)
  let ?rest = "concat (map (\<lambda>(t, p). put_h3_frame [] t p) fs)"
  let ?f = "put_h3_frame [] t p"
  have ok: "t < 2 ^ 62" "length p < 2 ^ 62" using Cons.prems f by (simp_all add: frame_ok_def)
  note h = read_frame_header_frame(1) [OF ok, of ?rest] read_frame_header_frame(2) [OF ok]
    read_frame_header_frame(3) [OF ok, of ?rest]
  have pl: "unat (word_of_nat (length p) :: u64) = length p"
    using ok(2) by (simp add: unat_of_nat take_bit_eq_mod)
  obtain n where n: "read_frame_header (?f @ ?rest) = Some (t, word_of_nat (length p), n)"
    "length ?f = n + length p" "drop n (?f @ ?rest) = p @ ?rest"
    using h pl by metis
  have "h3_drain (?f @ ?rest) out =
      h3_drain (drop (length ?f) (?f @ ?rest)) (if t = H3_DATA then out @ take (length p) (drop n (?f @ ?rest)) else out)"
    by (subst h3_drain.simps) (simp only: n(1,2) option.case prod.case Let_def pl add_diff_cancel_left'
      length_append le_add1 if_True)
  also have "\<dots> = h3_drain (drop (length ?f) (?f @ ?rest)) (if t = H3_DATA then out @ p else out)"
    by (simp only: n(3)) simp
  also have "\<dots> = h3_drain ?rest (if t = H3_DATA then out @ p else out)" by simp
  also have "\<dots> = ([], out @ data_payloads (f # fs))"
    using Cons f by (auto simp: data_payloads_def)
  finally show ?case by (simp add: f)
qed

section \<open>Theorems\<close>

text \<open>
  The HTTP/3 reader does not depend on how the transport cuts the stream. Whatever the chunks, if
  together they are a sequence of frames, the result is the concatenation of the DATA payloads in
  order.
\<close>

theorem h3_read_any_chunking:
  assumes "concat cs = concat (map (\<lambda>(t, p). put_h3_frame [] t p) fs)" and "list_all frame_ok fs"
  shows "h3_read_data (map Chunk cs) = Inr (data_payloads fs)"
  using h3_drain_frames [OF assms(2), of "[]"] assms(1) by (simp add: h3_read_data_def h3_read_loop_chunks)

theorem h3_read_any_chunking_witness:
  "h3_read_data (map Chunk [[0x01, 0x01], [0x09, 0x00], [0x02, 0x05, 0x06]]) = Inr [0x05, 0x06]"
  using h3_read_any_chunking [of "[[0x01, 0x01], [0x09, 0x00], [0x02, 0x05, 0x06]]"
      "[(0x1, [0x09]), (0x0, [0x05, 0x06])]"]
  by (simp add: put_h3_frame_def write_varint_def frame_ok_def data_payloads_def H3_DATA_def)

text \<open>
  The varint codec on every value: writing and reading gives the value modulo \<open>2 ^ 62\<close> and consumes
  exactly the bytes \<open>varint_len\<close> counts. Values below \<open>2 ^ 62\<close> round-trip; larger ones lose their
  two top bits silently.
\<close>

theorem varint_roundtrip_mod:
  "read_varint (write_varint [] v @ rest) = Some (take_bit 62 v, varint_len v) \<and>
   length (write_varint [] v) = varint_len v"
  using read_write_varint_any length_write_varint by blast

end
