(* ===== verification/Sniffer.thy ===== *)
theory Sniffer
  imports Rule Quic "HOL-Library.Multiset"
begin

text \<open>
  The traffic sniffer (src/engine/src/sniffer.rs): the server name of a TLS ClientHello, the Host of
  an HTTP request, or the server name carried by a QUIC Initial packet, and the policy that decides
  whether a sniffed domain replaces the target. HKDF, AES and AES-GCM come from other crates and
  are the fields of \<open>crypto_lib\<close>.
\<close>

section \<open>Configuration and results\<close>

datatype sniff_result = STls string | SHttp string | SQuic string | SUnknown

record sniff_config =
  sc_tls :: bool
  sc_http :: bool
  sc_quic :: bool
  sc_override_destination :: bool
  sc_skip_domains :: "string list"
  sc_force_domains :: "string list"
  sc_tls_ports :: "u16 list"
  sc_http_ports :: "u16 list"
  sc_quic_ports :: "u16 list"

definition sniff_enabled :: "sniff_config \<Rightarrow> bool" where
  "sniff_enabled cfg = (sc_tls cfg \<or> sc_http cfg \<or> sc_quic cfg)"

definition skips :: "sniff_config \<Rightarrow> string \<Rightarrow> bool" where
  "skips cfg domain = list_ex (\<lambda>p. domain_matches_suffix domain p) (sc_skip_domains cfg)"

definition forces :: "sniff_config \<Rightarrow> string \<Rightarrow> bool" where
  "forces cfg domain = list_ex (\<lambda>p. domain_matches_suffix domain p) (sc_force_domains cfg)"

definition port_allowed :: "u16 list \<Rightarrow> u16 \<Rightarrow> bool" where
  "port_allowed ports port = (ports = [] \<or> port \<in> set ports)"

definition for_action :: "sniff_config \<Rightarrow> string list \<Rightarrow> sniff_config" where
  "for_action cfg sniffer =
    (let wants = (\<lambda>name. sniffer = [] \<or> name \<in> set sniffer) in
     cfg\<lparr>sc_tls := wants ''tls'', sc_http := wants ''http'', sc_quic := wants ''quic''\<rparr>)"

section \<open>TLS\<close>

definition contains_ws :: "string \<Rightarrow> bool" where
  "contains_ws s = list_ex (\<lambda>w. contains_str w s) ws_forms"

text \<open>The body of a server\_name extension.\<close>

definition server_name :: "bytes \<Rightarrow> string option" where
  "server_name ext =
    (if length ext < 5 then None
     else if ext ! 2 \<noteq> 0 then None
     else
       let name_len = unat (u16_from (ext ! 3) (ext ! 4)) in
       if length ext < 5 + name_len then None
       else Option.bind (from_utf8 (take name_len (drop 5 ext))) (\<lambda>name.
         let name = to_lower name in
         if name = [] \<or> 253 < length name \<or> contains_ws name then None else Some name))"

text \<open>The walk over the extensions, from \<open>off\<close> to \<open>ext_end\<close>.\<close>

function find_server_name :: "bytes \<Rightarrow> nat \<Rightarrow> nat \<Rightarrow> string option" where
  "find_server_name body off ext_end =
    (if off + 4 \<le> ext_end then
       (let etype = u16_from (body ! off) (body ! (off + 1));
            elen = unat (u16_from (body ! (off + 2)) (body ! (off + 3)));
            off = off + 4
        in case slice_range body off (off + elen) of
             None \<Rightarrow> None
           | Some ext \<Rightarrow>
               if etype = 0 then server_name ext
               else find_server_name body (off + elen) ext_end)
     else None)"
  by pat_completeness auto
termination
  by (relation "measure (\<lambda>(body, off, ext_end). ext_end - off)") auto

declare find_server_name.simps [simp del]

definition clienthello_sni :: "bytes \<Rightarrow> string option" where
  "clienthello_sni body =
    (if body = [] \<or> body ! 0 \<noteq> 0x01 then None
     else if length body < 4 + 34 then None
     else
       Option.bind (slice_get body 38) (\<lambda>sid_len.
       let off = 38 + 1 + unat sid_len in
       Option.bind (slice_get body off) (\<lambda>a.
       Option.bind (slice_get body (off + 1)) (\<lambda>b.
       let off = off + 2 + unat (u16_from a b) in
       Option.bind (slice_get body off) (\<lambda>cm_len.
       let off = off + 1 + unat cm_len in
       Option.bind (slice_get body off) (\<lambda>a.
       Option.bind (slice_get body (off + 1)) (\<lambda>b.
       let ext_total = unat (u16_from a b); off = off + 2 in
       find_server_name body off (min (off + ext_total) (length body)))))))))"

definition sniff_tls :: "bytes \<Rightarrow> string option" where
  "sniff_tls buf = (if length buf < 43 \<or> buf ! 0 \<noteq> 0x16 then None else clienthello_sni (drop 5 buf))"

section \<open>HTTP\<close>

text \<open>Position of the first blank line, and the lines of a head.\<close>

fun head_end :: "bytes \<Rightarrow> nat option" where
  "head_end [] = None"
| "head_end (b # bs) =
    (if take 4 (b # bs) = [0x0D, 0x0A, 0x0D, 0x0A] then Some 0 else map_option Suc (head_end bs))"

fun split_crlf :: "string \<Rightarrow> string list" where
  "split_crlf [] = [[]]"
| "split_crlf [c] = [[c]]"
| "split_crlf (c # d # s) =
    (if c = CHR 0x0D \<and> d = CHR 0x0A then [] # split_crlf s
     else case split_crlf (d # s) of [] \<Rightarrow> [[c]] | l # ls \<Rightarrow> (c # l) # ls)"

definition http_methods :: "string list" where
  "http_methods = [''GET'', ''POST'', ''PUT'', ''DELETE'', ''HEAD'', ''OPTIONS'', ''PATCH'', ''CONNECT'', ''TRACE'']"

definition bare_host :: "string \<Rightarrow> string" where
  "bare_host host =
    (case rsplit_once CHR '':'' host of
       Some (h, p) \<Rightarrow> (if p \<noteq> [] \<and> list_all is_digit p then h else host)
     | None \<Rightarrow> host)"

fun host_header :: "string list \<Rightarrow> string option" where
  "host_header [] = None"
| "host_header (line # rest) =
    (case strip_prefix ''host:'' (to_lower line) of
       Some v \<Rightarrow> (let bare = bare_host (trim v) in if bare = [] then None else Some (to_lower bare))
     | None \<Rightarrow> host_header rest)"

definition sniff_http :: "bytes \<Rightarrow> string option" where
  "sniff_http buf =
    (let end = (case head_end buf of Some i \<Rightarrow> i | None \<Rightarrow> min (length buf) 1024) in
     Option.bind (from_utf8 (take end buf)) (\<lambda>head.
       case split_crlf head of
         [] \<Rightarrow> None
       | request_line # rest \<Rightarrow>
           if hd (split_on CHR '' '' request_line) \<in> set http_methods then host_header rest else None))"

section \<open>QUIC\<close>

definition QUIC_V1_SALT :: bytes where
  "QUIC_V1_SALT =
    [0x38, 0x76, 0x2c, 0xf7, 0xf5, 0x59, 0x34, 0xb3, 0x4d, 0x17, 0x9a, 0xe6, 0xa4, 0xc8, 0x0c, 0xad,
     0xcc, 0xbb, 0x7f, 0x0a]"

record crypto_lib =
  hkdf_extract :: "bytes \<Rightarrow> bytes \<Rightarrow> bytes"
  hkdf_expand :: "bytes \<Rightarrow> bytes \<Rightarrow> nat \<Rightarrow> bytes"
  aes128_block :: "bytes \<Rightarrow> bytes \<Rightarrow> bytes"
  aes128_gcm_open :: "bytes \<Rightarrow> bytes \<Rightarrow> bytes \<Rightarrow> bytes \<Rightarrow> bytes option"

record quic_keys =
  qk_key :: bytes
  qk_iv :: bytes
  qk_hp :: bytes

definition quic_label_info :: "string \<Rightarrow> u16 \<Rightarrow> bytes" where
  "quic_label_info label len =
    (let full = ''tls13 '' @ label in u16_be len @ [word_of_nat (length full)] @ as_bytes full @ [0])"

definition quic_client_initial_secret :: "crypto_lib \<Rightarrow> bytes \<Rightarrow> bytes" where
  "quic_client_initial_secret lib dcid =
    hkdf_expand lib (hkdf_extract lib QUIC_V1_SALT dcid) (quic_label_info ''client in'' 32) 32"

definition quic_initial_keys :: "crypto_lib \<Rightarrow> bytes \<Rightarrow> quic_keys" where
  "quic_initial_keys lib dcid =
    (let secret = quic_client_initial_secret lib dcid in
     \<lparr>qk_key = hkdf_expand lib secret (quic_label_info ''quic key'' 16) 16,
      qk_iv = hkdf_expand lib secret (quic_label_info ''quic iv'' 12) 12,
      qk_hp = hkdf_expand lib secret (quic_label_info ''quic hp'' 16) 16\<rparr>)"

definition quic_hp_mask :: "crypto_lib \<Rightarrow> bytes \<Rightarrow> bytes \<Rightarrow> bytes option" where
  "quic_hp_mask lib hp sample = map_option (aes128_block lib hp) (slice_range sample 0 16)"

definition quic_varint :: "bytes \<Rightarrow> nat \<Rightarrow> (u64 \<times> nat) option" where
  "quic_varint buf off = Option.bind (slice_range buf off (length buf)) read_varint"

primrec quic_skip_varints :: "bytes \<Rightarrow> nat \<Rightarrow> nat \<Rightarrow> nat option" where
  "quic_skip_varints buf 0 off = Some off"
| "quic_skip_varints buf (Suc n) off =
    Option.bind (quic_varint buf off) (\<lambda>(_, k). quic_skip_varints buf n (off + k))"

text \<open>
  One frame of a decrypted payload at \<open>off\<close>: the CRYPTO fragment it carries, if any, and the offset
  behind it.
\<close>

definition quic_frame :: "bytes \<Rightarrow> nat \<Rightarrow> ((u64 \<times> bytes) list \<times> nat) option" where
  "quic_frame plain off =
    Option.bind (quic_varint plain off) (\<lambda>(ftype, n).
      let off = off + n in
      if ftype = 0x00 \<or> ftype = 0x01 then Some ([], off)
      else if ftype = 0x02 \<or> ftype = 0x03 then
        Option.bind (quic_skip_varints plain 3 off) (\<lambda>off.
        Option.bind (quic_varint plain off) (\<lambda>(ranges, n).
        Option.bind (quic_skip_varints plain (1 + 2 * unat ranges) (off + n)) (\<lambda>off.
          if ftype = 0x03 then Option.bind (quic_skip_varints plain 3 off) (\<lambda>off. Some ([], off))
          else Some ([], off))))
      else if ftype = 0x06 then
        Option.bind (quic_varint plain off) (\<lambda>(foff, n).
        let off = off + n in
        Option.bind (quic_varint plain off) (\<lambda>(flen, n).
        let off = off + n; fend = off + unat flen in
        Option.bind (slice_range plain off fend) (\<lambda>data. Some ([(foff, data)], fend))))
      else if ftype = 0x1c \<or> ftype = 0x1d then
        Option.bind (quic_skip_varints plain (if ftype = 0x1c then 2 else 1) off) (\<lambda>off.
        Option.bind (quic_varint plain off) (\<lambda>(rlen, n). Some ([], off + n + unat rlen)))
      else None)"

lemma quic_varint_bounds: "quic_varint buf off = Some (v, n) \<Longrightarrow> 0 < n \<and> off + n \<le> length buf"
  by (auto simp: quic_varint_def Option.bind_eq_Some_conv slice_range_Some_iff dest!: read_varint_bounds)

lemma quic_skip_varints_mono: "quic_skip_varints buf n off = Some off' \<Longrightarrow> off \<le> off'"
  by (induction n arbitrary: off)
    (auto simp: Option.bind_eq_Some_conv split: prod.splits dest!: quic_varint_bounds, fastforce)

lemma quic_frame_progress: "quic_frame plain off = Some (frags, off') \<Longrightarrow> off < off'"
  unfolding quic_frame_def
  by (fastforce simp: Option.bind_eq_Some_conv Let_def slice_range_Some_iff split: prod.splits if_splits
      dest!: quic_varint_bounds quic_skip_varints_mono)

function quic_frames :: "bytes \<Rightarrow> nat \<Rightarrow> (u64 \<times> bytes) list option" where
  "quic_frames plain off =
    (if off < length plain then
       (case quic_frame plain off of
          None \<Rightarrow> None
        | Some (frags, off') \<Rightarrow> map_option (\<lambda>fs. frags @ fs) (quic_frames plain off'))
     else Some [])"
  by pat_completeness auto
termination
  by (relation "measure (\<lambda>(plain, off). length plain - off)") (auto dest!: quic_frame_progress)

declare quic_frames.simps [simp del]

text \<open>
  Fragments in stream order: the one at the index reached so far, then the one behind it, as long as
  there is one.
\<close>

definition saturating_add :: "u64 \<Rightarrow> nat \<Rightarrow> u64" where
  "saturating_add a n = (if unat a + n < 2 ^ 64 then a + word_of_nat n else - 1)"

function reassemble :: "(u64 \<times> bytes) list \<Rightarrow> u64 \<Rightarrow> bytes" where
  "reassemble crypto index =
    (case List.extract (\<lambda>(foff, _). foff = index) crypto of
       None \<Rightarrow> []
     | Some (before, (foff, data), after) \<Rightarrow>
         data @ reassemble (before @ after) (saturating_add foff (length data)))"
  by pat_completeness auto
termination
  by (relation "measure (\<lambda>(crypto, _). length crypto)") (auto simp: extract_Some_iff)

declare reassemble.simps [simp del]

definition xor_bytes :: "bytes \<Rightarrow> bytes \<Rightarrow> bytes" where
  "xor_bytes xs ys = map2 (\<lambda>x y. x XOR y) xs ys"

text \<open>
  The protected part of an Initial packet: \<open>pn_off\<close> is where the packet number starts, \<open>fin\<close> where the
  packet ends.
\<close>

definition quic_unprotect :: "crypto_lib \<Rightarrow> bytes \<Rightarrow> bytes \<Rightarrow> nat \<Rightarrow> nat \<Rightarrow> bytes option" where
  "quic_unprotect lib buf dcid pn_off fin =
    (let keys = quic_initial_keys lib dcid in
     Option.bind (slice_range buf (pn_off + 4) (pn_off + 20)) (\<lambda>sample.
     Option.bind (quic_hp_mask lib (qk_hp keys) sample) (\<lambda>msk.
       let first_clear = buf ! 0 XOR (msk ! 0 AND 0x0f);
           pn_len = unat (first_clear AND 0x03) + 1
       in
       if fin < pn_off + pn_len then None
       else
         let pn = xor_bytes (take pn_len (drop pn_off buf)) (drop 1 msk);
             pn_be = replicate (4 - pn_len) 0 @ pn;
             nonce = take 8 (qk_iv keys) @ xor_bytes (drop 8 (qk_iv keys)) pn_be;
             header = first_clear # take (pn_off - 1) (drop 1 buf) @ pn
         in
         Option.bind (slice_range buf (pn_off + pn_len) fin) (\<lambda>ciphertext.
           aes128_gcm_open lib (qk_key keys) nonce header ciphertext))))"

definition sniff_quic :: "crypto_lib \<Rightarrow> bytes \<Rightarrow> string option" where
  "sniff_quic lib buf =
    (if length buf < 6 then None
     else if buf ! 0 AND 0xc0 \<noteq> 0xc0 \<or> buf ! 0 AND 0x30 \<noteq> 0 then None
     else if u32_from (buf ! 1) (buf ! 2) (buf ! 3) (buf ! 4) \<noteq> 1 then None
     else
       Option.bind (slice_get buf 5) (\<lambda>dl.
       let dcid_len = unat dl in
       if dcid_len = 0 \<or> 20 < dcid_len then None
       else
         Option.bind (slice_range buf 6 (6 + dcid_len)) (\<lambda>dcid.
         let off = 6 + dcid_len in
         Option.bind (slice_get buf off) (\<lambda>sl.
         let off = off + 1 + min (unat sl) 20 in
         Option.bind (quic_varint buf off) (\<lambda>(token_len, n).
         let off = off + n + unat token_len in
         Option.bind (quic_varint buf off) (\<lambda>(payload_len, n).
         let pn_off = off + n; fin = pn_off + unat payload_len in
         if length buf < fin then None
         else
           Option.bind (quic_unprotect lib buf dcid pn_off fin) (\<lambda>plain.
           Option.bind (quic_frames plain 0) (\<lambda>crypto.
             clienthello_sni (reassemble crypto 0)))))))))"

section \<open>Sniffing and the override policy\<close>

definition unless_skipped :: "sniff_config \<Rightarrow> string option \<Rightarrow> string option" where
  "unless_skipped cfg d = (case d of None \<Rightarrow> None | Some s \<Rightarrow> if skips cfg s then None else Some s)"

definition sniff :: "crypto_lib \<Rightarrow> bytes \<Rightarrow> sniff_config \<Rightarrow> u16 \<Rightarrow> sniff_result" where
  "sniff lib buf cfg port =
    (if buf = [] then SUnknown
     else case (if sc_tls cfg \<and> port_allowed (sc_tls_ports cfg) port
                then unless_skipped cfg (sniff_tls buf) else None) of
       Some sni \<Rightarrow> STls sni
     | None \<Rightarrow>
       (case (if sc_http cfg \<and> port_allowed (sc_http_ports cfg) port
              then unless_skipped cfg (sniff_http buf) else None) of
          Some host \<Rightarrow> SHttp host
        | None \<Rightarrow>
          (case (if sc_quic cfg \<and> port_allowed (sc_quic_ports cfg) port
                 then unless_skipped cfg (sniff_quic lib buf) else None) of
             Some sni \<Rightarrow> SQuic sni
           | None \<Rightarrow> SUnknown)))"

definition sniffed_domain :: "sniff_result \<Rightarrow> string option" where
  "sniffed_domain r = (case r of STls d \<Rightarrow> Some d | SHttp d \<Rightarrow> Some d | SQuic d \<Rightarrow> Some d | SUnknown \<Rightarrow> None)"

definition apply_sniffed :: "net_addr \<Rightarrow> sniff_result \<Rightarrow> sniff_config \<Rightarrow> net_addr option" where
  "apply_sniffed target sniffed cfg =
    (case sniffed_domain sniffed of
       None \<Rightarrow> None
     | Some domain \<Rightarrow>
         if skips cfg domain then None
         else Option.bind (result_ok (host_parse domain)) (\<lambda>h.
           let apply = forces cfg domain \<or>
             (case na_host target of Ip _ \<Rightarrow> True | Domain _ \<Rightarrow> sc_override_destination cfg)
           in if \<not> apply then None else Some (net_addr_new h (na_port target))))"

section \<open>ClientHello messages\<close>

text \<open>
  A ClientHello as a peer writes it: handshake header, version and random, session id, cipher suites,
  compression methods and extensions.
\<close>

definition ext_bytes :: "u16 \<times> bytes \<Rightarrow> bytes" where
  "ext_bytes e = u16_be (fst e) @ u16_be (word_of_nat (length (snd e))) @ snd e"

definition sni_ext :: "string \<Rightarrow> bytes" where
  "sni_ext name =
    ext_bytes (0, u16_be (word_of_nat (length name + 3)) @ [0] @ u16_be (word_of_nat (length name)) @ as_bytes name)"

definition client_hello :: "bytes \<Rightarrow> bytes \<Rightarrow> bytes \<Rightarrow> bytes \<Rightarrow> bytes \<Rightarrow> bytes \<Rightarrow> bytes" where
  "client_hello len3 random sid suites cms exts =
    [0x01] @ len3 @ random @ [word_of_nat (length sid)] @ sid @ u16_be (word_of_nat (length suites)) @ suites @
    [word_of_nat (length cms)] @ cms @ u16_be (word_of_nat (length exts)) @ exts"

definition sni_ok :: "string \<Rightarrow> bool" where
  "sni_ok name = (name \<noteq> [] \<and> length name \<le> 253 \<and> utf8_valid (as_bytes name) \<and> \<not> contains_ws (to_lower name))"

lemma server_name_written:
  assumes "sni_ok name"
  shows "server_name (u16_be l @ [0] @ u16_be (word_of_nat (length name)) @ as_bytes name @ behind) =
    Some (to_lower name)"
proof -
  let ?n = "word_of_nat (length name) :: u16"
  have n: "unat ?n = length name" using assms by (intro of_nat_u16_bytes) (simp add: sni_ok_def)
  let ?e = "u16_be l @ [0] @ u16_be ?n @ as_bytes name @ behind"
  have f: "?e ! 2 = 0" "?e ! 3 = ucast (drop_bit 8 ?n)" "?e ! 4 = ucast ?n"
    "length ?e = 5 + (length name + length behind)" "drop 5 ?e = as_bytes name @ behind"
    unfolding be_bytes_2 by simp_all
  have "from_utf8 (take (length name) (as_bytes name @ behind)) = Some name"
    using assms by (simp add: from_utf8_as_bytes sni_ok_def)
  then show ?thesis
    unfolding server_name_def f u16_from_split Let_def n using assms by (simp add: sni_ok_def)
qed

lemma ext_step:
  assumes "body = pre @ ext_bytes e @ rest" and "length (snd e) < 65536"
    and "length pre + 4 \<le> ext_end"
  shows "find_server_name body (length pre) ext_end =
    (if fst e = 0 then server_name (snd e)
     else find_server_name body (length pre + length (ext_bytes e)) ext_end)"
proof -
  let ?o = "length pre" and ?n = "word_of_nat (length (snd e)) :: u16"
  have n: "unat ?n = length (snd e)" using assms(2) by (rule of_nat_u16_bytes)
  have f: "body ! ?o = ucast (drop_bit 8 (fst e))" "body ! (?o + 1) = ucast (fst e)"
    "body ! (?o + 2) = ucast (drop_bit 8 ?n)" "body ! (?o + 3) = ucast ?n"
    using assms(1) by (simp_all add: ext_bytes_def be_bytes_2 nth_append)
  have sl: "slice_range body (?o + 4) (?o + 4 + length (snd e)) = Some (snd e)"
    using assms(1) by (simp add: ext_bytes_def be_bytes_2 slice_range_def)
  have len: "length (ext_bytes e) = 4 + length (snd e)" by (simp add: ext_bytes_def)
  have "find_server_name body ?o ext_end =
      (if fst e = 0 then server_name (snd e)
       else find_server_name body (?o + 4 + length (snd e)) ext_end)"
    using assms(3)
    by (subst find_server_name.simps) (simp only: f u16_from_split n sl Let_def option.case if_True)
  then show ?thesis by (simp add: len add.assoc)
qed

lemma find_server_name_written:
  assumes "sni_ok name" and "\<forall>e \<in> set es. fst e \<noteq> 0 \<and> length (snd e) < 65536"
    and "length pre + length (concat (map ext_bytes es)) + length (sni_ext name) \<le> ext_end"
  shows "find_server_name (pre @ concat (map ext_bytes es) @ sni_ext name @ rest) (length pre) ext_end =
    Some (to_lower name)"
  using assms(2,3)
proof (induction es arbitrary: pre)
  case Nil
  let ?b = "u16_be (word_of_nat (length name + 3)) @ [0] @ u16_be (word_of_nat (length name)) @ as_bytes name"
  have "length ?b < 65536" using assms(1) by (simp add: sni_ok_def)
  moreover have "length pre + 4 \<le> ext_end" using Nil by (simp add: sni_ext_def ext_bytes_def)
  ultimately have "find_server_name (pre @ sni_ext name @ rest) (length pre) ext_end = server_name ?b"
    using ext_step [of "pre @ sni_ext name @ rest" pre "(0, ?b)" rest ext_end] by (simp add: sni_ext_def)
  then show ?case using server_name_written [OF assms(1), of _ "[]"] by simp
next
  case (Cons e es)
  let ?body = "pre @ concat (map ext_bytes (e # es)) @ sni_ext name @ rest"
  have e: "length (snd e) < 65536" "fst e \<noteq> 0" using Cons.prems by simp_all
  have "length pre + 4 \<le> ext_end" using Cons.prems by (simp add: ext_bytes_def)
  then have "find_server_name ?body (length pre) ext_end =
      find_server_name ?body (length (pre @ ext_bytes e)) ext_end"
    using ext_step [of ?body pre e "concat (map ext_bytes es) @ sni_ext name @ rest" ext_end] e by simp
  also have "\<dots> = Some (to_lower name)"
    using Cons.IH [of "pre @ ext_bytes e"] Cons.prems by (simp add: add.assoc)
  finally show ?case .
qed

lemma clienthello_sni_written:
  assumes "sni_ok name" and "\<forall>e \<in> set es. fst e \<noteq> 0 \<and> length (snd e) < 65536"
    and "length len3 = 3" and "length random = 34" and "length sid < 256" and "length suites < 65536"
    and "length cms < 256" and "exts = concat (map ext_bytes es) @ sni_ext name @ tail" and "length exts < 65536"
  shows "clienthello_sni (client_hello len3 random sid suites cms exts @ behind) = Some (to_lower name)"
proof -
  define a where "a = [0x01] @ len3 @ random @ [word_of_nat (length sid)] @ sid"
  define b where "b = a @ u16_be (word_of_nat (length suites)) @ suites"
  define c where "c = b @ [word_of_nat (length cms)] @ cms"
  let ?body = "c @ u16_be (word_of_nat (length exts)) @ exts @ behind"
  have body: "client_hello len3 random sid suites cms exts @ behind = ?body"
    by (simp add: client_hello_def a_def b_def c_def)
  have la: "length a = 39 + length sid" using assms(3,4) by (simp add: a_def)
  have lb: "length b = length a + 2 + length suites" by (simp add: b_def)
  have lc: "length c = length b + 1 + length cms" by (simp add: c_def)
  have "?body ! 38 = word_of_nat (length sid)"
    using assms(3,4) by (simp add: c_def b_def a_def nth_append)
  then have g1: "slice_get ?body 38 = Some (word_of_nat (length sid))"
    using la lb lc by (simp add: slice_get_def)
  have u1: "unat (word_of_nat (length sid) :: u8) = length sid" using assms(5) by (simp add: unat_of_nat take_bit_eq_mod)
  have g2: "slice_get ?body (length a) = Some (ucast (drop_bit 8 (word_of_nat (length suites) :: u16)))"
    "slice_get ?body (length a + 1) = Some (ucast (word_of_nat (length suites) :: u16))"
    using lb lc by (simp_all add: slice_get_def c_def b_def nth_append be_bytes_2)
  have u2: "unat (word_of_nat (length suites) :: u16) = length suites" using assms(6) by (rule of_nat_u16_bytes)
  have g3: "slice_get ?body (length b) = Some (word_of_nat (length cms))"
    using lc by (simp add: slice_get_def c_def nth_append)
  have u3: "unat (word_of_nat (length cms) :: u8) = length cms" using assms(7) by (simp add: unat_of_nat take_bit_eq_mod)
  have g4: "slice_get ?body (length c) = Some (ucast (drop_bit 8 (word_of_nat (length exts) :: u16)))"
    "slice_get ?body (length c + 1) = Some (ucast (word_of_nat (length exts) :: u16))"
    by (simp_all add: slice_get_def nth_append be_bytes_2)
  have u4: "unat (word_of_nat (length exts) :: u16) = length exts" using assms(9) by (rule of_nat_u16_bytes)
  have h: "?body \<noteq> []" "?body ! 0 = 0x01" "\<not> length ?body < 4 + 34"
    using la lb lc by (simp_all add: c_def b_def a_def)
  have "find_server_name ((c @ u16_be (word_of_nat (length exts))) @ concat (map ext_bytes es) @
      sni_ext name @ tail @ behind) (length (c @ u16_be (word_of_nat (length exts))))
      (min (length c + 2 + length exts) (length ?body)) = Some (to_lower name)"
    using assms(8) by (intro find_server_name_written [OF assms(1,2)]) simp
  then have fs: "find_server_name ?body (length c + 2) (min (length c + 2 + length exts) (length ?body)) =
      Some (to_lower name)" using assms(8) by simp
  have o1: "38 + 1 + unat (word_of_nat (length sid) :: u8) = length a" using la u1 by simp
  have o2: "length a + 2 + unat (word_of_nat (length suites) :: u16) = length b" using lb u2 by simp
  have o3: "length b + 1 + unat (word_of_nat (length cms) :: u8) = length c" using lc u3 by simp
  show ?thesis
    unfolding body clienthello_sni_def Let_def g1 Option.bind.bind_lunit o1 g2 u16_from_split o2 g3 o3 g4 u4 fs
    using h by simp
qed

section \<open>Out-of-order fragments\<close>

text \<open>Consecutive fragments from a start offset.\<close>

fun fragments :: "nat \<Rightarrow> bytes list \<Rightarrow> (u64 \<times> bytes) list" where
  "fragments off [] = []"
| "fragments off (d # ds) = (word_of_nat off, d) # fragments (off + length d) ds"

lemma fragments_offset:
  "(foff, d) \<in> set (fragments off ds) \<Longrightarrow> off + length (concat ds) < 2 ^ 64 \<Longrightarrow>
   off \<le> unat foff \<and> unat foff \<le> off + length (concat ds)"
proof (induction ds arbitrary: off)
  case (Cons x ds)
  show ?case
  proof (cases "(foff, d) \<in> set (fragments (off + length x) ds)")
    case True
    then show ?thesis using Cons.IH [of "off + length x"] Cons.prems by simp
  next
    case False
    then show ?thesis using Cons.prems by (simp add: unat_of_nat take_bit_eq_mod)
  qed
qed simp

lemma extract_fragment:
  assumes "mset crypto = mset (fragments off (d # ds))" and "d \<noteq> []"
    and "off + length (concat (d # ds)) < 2 ^ 64"
  shows "\<exists>before after. List.extract (\<lambda>(foff, _). foff = word_of_nat off) crypto =
      Some (before, (word_of_nat off, d), after) \<and> mset (before @ after) = mset (fragments (off + length d) ds)"
proof -
  let ?P = "\<lambda>(foff :: u64, _ :: bytes). foff = word_of_nat off"
  have mem: "(word_of_nat off, d) \<in> set crypto"
    using assms(1) mset_eq_setD by fastforce
  have uniq: "x = (word_of_nat off, d)" if "x \<in> set crypto" "?P x" for x
  proof (rule ccontr)
    assume "x \<noteq> (word_of_nat off, d)"
    moreover have "x \<in> set (fragments off (d # ds))" using that(1) assms(1) mset_eq_setD by blast
    ultimately have "x \<in> set (fragments (off + length d) ds)" by simp
    then have "off + length d \<le> unat (fst x)"
      using fragments_offset [of "fst x" "snd x" "off + length d" ds] assms(3) by (simp add: add.assoc)
    moreover have "unat (fst x) = off"
      using that(2) assms(3) by (simp add: case_prod_beta unat_of_nat take_bit_eq_mod)
    ultimately show False using assms(2) by simp
  qed
  have "List.extract ?P crypto \<noteq> None" using mem by (auto simp: extract_None_iff)
  then obtain before x after where e: "List.extract ?P crypto = Some (before, x, after)" by auto
  then have c: "crypto = before @ x # after" "?P x" by (auto simp: extract_Some_iff)
  then have x: "x = (word_of_nat off, d)" using uniq by simp
  with c(1) assms(1) have "mset (before @ after) = mset (fragments (off + length d) ds)" by simp
  with e x show ?thesis by blast
qed

lemma reassemble_fragments:
  "mset crypto = mset (fragments off ds) \<Longrightarrow> [] \<notin> set ds \<Longrightarrow> off + length (concat ds) < 2 ^ 64 \<Longrightarrow>
   reassemble crypto (word_of_nat off) = concat ds"
proof (induction ds arbitrary: crypto off)
  case Nil
  then show ?case by (subst reassemble.simps) (simp add: extract_Nil_code)
next
  case (Cons d ds)
  obtain before after where e: "List.extract (\<lambda>(foff, _). foff = word_of_nat off) crypto =
      Some (before, (word_of_nat off, d), after)" "mset (before @ after) = mset (fragments (off + length d) ds)"
    using extract_fragment [OF Cons.prems(1)] Cons.prems(2,3) by auto
  have "saturating_add (word_of_nat off) (length d) = word_of_nat (off + length d)"
    using Cons.prems(3) by (simp add: saturating_add_def unat_of_nat take_bit_eq_mod)
  moreover have "reassemble (before @ after) (word_of_nat (off + length d)) = concat ds"
    using Cons.prems(2,3) by (intro Cons.IH [OF e(2)]) (simp_all add: add.assoc)
  ultimately show ?case by (subst reassemble.simps) (simp add: e(1))
qed

section \<open>Theorems\<close>

text \<open>
  The server name of a ClientHello is found wherever its extension stands. For any session id,
  cipher suites, compression methods and other extensions of the sizes the format allows, and any
  bytes behind the message, the walk returns the lower-case name.
\<close>

theorem clienthello_sni_found:
  assumes "sni_ok name" and "\<forall>e \<in> set es. fst e \<noteq> 0 \<and> length (snd e) < 65536"
    and "length len3 = 3" and "length random = 34" and "length sid < 256" and "length suites < 65536"
    and "length cms < 256" and "exts = concat (map ext_bytes es) @ sni_ext name @ tail" and "length exts < 65536"
  shows "clienthello_sni (client_hello len3 random sid suites cms exts @ behind) = Some (to_lower name)"
  using assms by (rule clienthello_sni_written)

theorem clienthello_sni_found_witness:
  "clienthello_sni (client_hello [0, 0, 0] (replicate 34 7) [] [0x13, 0x01] [0]
     (ext_bytes (16, [1, 2, 3]) @ sni_ext ''A.b'')) = Some ''a.b''"
proof -
  have "sni_ok ''A.b''"
    by (simp add: sni_ok_def contains_ws_def text_eval)
  then show ?thesis
    using clienthello_sni_found [of "''A.b''" "[(16, [1, 2, 3])]" "[0, 0, 0]" "replicate 34 7" "[]"
        "[0x13, 0x01]" "[0]" "ext_bytes (16, [1, 2, 3]) @ sni_ext ''A.b''" "[]" "[]"]
    by (simp add: ext_bytes_def sni_ext_def text_eval)
qed

text \<open>
  The CRYPTO stream is reassembled whatever order its fragments arrive in: any arrangement of
  consecutive non-empty fragments from offset zero gives their concatenation.
\<close>

theorem crypto_reassembly_any_order:
  assumes "mset crypto = mset (fragments 0 ds)" and "[] \<notin> set ds" and "length (concat ds) < 2 ^ 62"
  shows "reassemble crypto 0 = concat ds"
  using reassemble_fragments [OF assms(1,2)] assms(3) by simp

theorem crypto_reassembly_any_order_witness:
  "reassemble [(3, [9]), (0, [1, 2]), (2, [5])] 0 = [1, 2, 5, 9]"
  using crypto_reassembly_any_order [of "[(3, [9]), (0, [1, 2]), (2, [5])]" "[[1, 2], [5], [9]]"]
  by simp

text \<open>
  A sniffed name is only ever reported for a protocol that is enabled on that port, and never for
  a domain on the skip list.
\<close>

theorem sniff_respects_config:
  "(case sniff lib buf cfg port of
      STls d \<Rightarrow> sc_tls cfg \<and> port_allowed (sc_tls_ports cfg) port \<and> sniff_tls buf = Some d \<and> \<not> skips cfg d
    | SHttp d \<Rightarrow> sc_http cfg \<and> port_allowed (sc_http_ports cfg) port \<and> sniff_http buf = Some d \<and> \<not> skips cfg d
    | SQuic d \<Rightarrow> sc_quic cfg \<and> port_allowed (sc_quic_ports cfg) port \<and> sniff_quic lib buf = Some d \<and> \<not> skips cfg d
    | SUnknown \<Rightarrow> True)"
  by (auto simp: sniff_def unless_skipped_def split: option.splits if_splits)

text \<open>
  An acknowledgement in front of the hello hides it. The walk skips three fields of an ACK frame
  and then reads the first range as the range count, one field too far: behind an ACK with no further
  ranges it takes the type of the CRYPTO frame for a range, and the fragment is lost.
\<close>

theorem ack_frame_misread:
  "quic_frames [0x06, 0x00, 0x01, 0xAA] 0 = Some [(0, [0xAA])] \<and>
   quic_frames [0x02, 0x00, 0x00, 0x00, 0x00, 0x06, 0x00, 0x01, 0xAA] 0 = None"
  by (simp add: quic_frames.simps quic_frame_def quic_varint_def read_varint_def slice_range_def numeral_3_eq_3)

end
