(* ===== verification/Rule_Parse.thy ===== *)
theory Rule_Parse
  imports Rule
begin

text \<open>
  Parsing of rule lines (src/engine/src/rule.rs): the plain forms, the logic forms with their nested
  sub-rules, and the payload checks. \<open>regex_new\<close> stands for \<open>regex::Regex::new\<close>, which lives in
  another crate.
\<close>

section \<open>Payload checks\<close>

definition PROXY_RULE_INBOUND_KINDS :: string where
  "PROXY_RULE_INBOUND_KINDS =
    ''vmess/vless/trojan/shadowsocks/hysteria2/tuic/snell/anytls/jls/restls/tlsmirror''"

fun in_list_entries :: "bool \<Rightarrow> string list \<Rightarrow> string list result" where
  "in_list_entries lowercase [] = Inr []"
| "in_list_entries lowercase (entry # rest) =
    (let e = trim entry in
     if e = [] then Inl (Config ''rule payload has an empty entry'')
     else rbind (in_list_entries lowercase rest) (\<lambda>es.
       Inr ((if lowercase then to_lower e else e) # es)))"

definition parse_in_list :: "string \<Rightarrow> bool \<Rightarrow> string result" where
  "parse_in_list payload lowercase =
    rbind (in_list_entries lowercase (split_on CHR ''/'' payload)) (\<lambda>es. Inr (join ''/'' es))"

definition parse_ip_suffix :: "string \<Rightarrow> string result" where
  "parse_ip_suffix payload =
    (let segs = map (\<lambda>s. to_lower (trim s)) (split_on CHR ''.'' payload) in
     if list_ex (\<lambda>s. s = []) segs \<or> 8 < length segs then Inl (Config ''bad IP-SUFFIX'')
     else Inr (join ''.'' segs))"

text \<open>The scalar values of a text, each as its bytes (\<open>str::chars\<close>).\<close>

function chars_of :: "string \<Rightarrow> string list" where
  "chars_of s =
    (if s = [] then []
     else let n = snd (utf8_step (as_bytes s)) in take n s # chars_of (drop n s))"
  by pat_completeness auto
termination
  using utf8_step_pos by (relation "measure length") auto

declare chars_of.simps [simp del]

definition wildcard_char :: "string \<Rightarrow> string" where
  "wildcard_char c =
    (if c = ''*'' then ''.*''
     else if c = ''?'' then ''.''
     else if list_all is_alnum c then c
     else CHR 0x5C # c)"

definition wildcard_to_regex :: "string \<Rightarrow> string" where
  "wildcard_to_regex pattern = ''^'' @ concat (map wildcard_char (chars_of (to_lower pattern))) @ ''$''"

section \<open>Plain rules\<close>

text \<open>
  The matcher of a rule with a payload: the arms of \<open>(kind, 3)\<close>.
\<close>

definition parse_matcher :: "(string \<Rightarrow> regex option) \<Rightarrow> string \<Rightarrow> string \<Rightarrow> bool \<Rightarrow> rule_matcher result" where
  "parse_matcher regex_new kind payload no_resolve =
    (if kind = ''DOMAIN'' then Inr (MDomain (to_lower payload))
     else if kind = ''DOMAIN-SUFFIX'' then
       Inr (MDomainSuffix (to_lower (trim_start_matches CHR ''.'' payload)))
     else if kind = ''DOMAIN-KEYWORD'' then Inr (MDomainKeyword (to_lower payload))
     else if kind = ''DOMAIN-REGEX'' then
       rbind (ok_or (regex_new payload) (Config ''bad rule regex'')) (\<lambda>re. Inr (MDomainRegex re))
     else if kind = ''DOMAIN-WILDCARD'' then
       rbind (ok_or (regex_new (wildcard_to_regex payload)) (Config ''bad domain wildcard''))
         (\<lambda>re. Inr (MDomainRegex re))
     else if kind = ''IP-CIDR'' \<or> kind = ''IP-CIDR6'' then
       rbind (ip_net_from_str payload) (\<lambda>net. Inr (MIpCidr net False no_resolve))
     else if kind = ''SRC-IP-CIDR'' then
       rbind (ip_net_from_str payload) (\<lambda>net. Inr (MIpCidr net True False))
     else if kind = ''SRC-PORT'' then rbind (port_range_from_str payload) (\<lambda>rg. Inr (MPortSrc rg))
     else if kind = ''DST-PORT'' then rbind (port_range_from_str payload) (\<lambda>rg. Inr (MPortDst rg))
     else if kind = ''GEOIP'' then Inr (MGeoIp (to_upper payload) no_resolve)
     else if kind = ''GEOSITE'' then Inr (MGeosite (to_lower payload))
     else if kind = ''RULE-SET'' then Inr (MRuleSet payload no_resolve)
     else if kind = ''CLASH-MODE'' then Inr (MClashMode (to_lower payload))
     else if kind = ''NETWORK'' then
       (if payload = ''tcp'' then Inr (MNetwork Tcp)
        else if payload = ''udp'' then Inr (MNetwork Udp)
        else Inl (Config ''NETWORK rule must be tcp or udp''))
     else if kind = ''IN-PORT'' then rbind (port_range_from_str payload) (\<lambda>rg. Inr (MInPort rg))
     else if kind = ''IN-NAME'' then Inr (MInName payload)
     else if kind = ''IN-TYPE'' then rbind (parse_in_list payload True) (\<lambda>l. Inr (MInType l))
     else if kind = ''UID'' then rbind (u32_range_from_str payload) (\<lambda>rg. Inr (MUid rg))
     else if kind = ''IN-USER'' then rbind (parse_in_list payload False) (\<lambda>l. Inr (MInUser l))
     else if kind = ''DSCP'' then
       rbind (ok_or (parse_u8 payload) (Config ''bad DSCP value'')) (\<lambda>d.
         if 63 < d then Inl (Config ''DSCP must be 0-63'') else Inr (MDscp d))
     else if kind = ''IP-ASN'' then
       rbind (ok_or (parse_u32 payload) (Config ''bad ASN'')) (\<lambda>asn. Inr (MIpAsn asn no_resolve))
     else if kind = ''IP-SUFFIX'' then rbind (parse_ip_suffix payload) (\<lambda>s. Inr (MIpSuffix s no_resolve))
     else if kind = ''PROCESS-NAME'' then Inr (MProcess payload False)
     else if kind = ''PROCESS-PATH'' then Inr (MProcess payload True)
     else Inl (Config ''unsupported rule''))"

definition parse_plain :: "(string \<Rightarrow> regex option) \<Rightarrow> string \<Rightarrow> rule result" where
  "parse_plain regex_new line =
    (let parts = map trim (split_on CHR '','' line) in
     if length parts < 2 then Inl (Config ''malformed rule'')
     else
       let no_resolve = (last parts = ''no-resolve'');
           needed = (if no_resolve then length parts - 1 else length parts);
           kind = to_upper (parts ! 0)
       in
       if needed = 3 then
         rbind (parse_matcher regex_new kind (parts ! 1) no_resolve) (\<lambda>m. Inr (Rule m (parts ! 2)))
       else if needed = 2 \<and> kind = ''MATCH'' then Inr (Rule MMatchAll (parts ! 1))
       else if needed = 2 \<and> kind = ''PROXY'' then Inr (Rule (MInType PROXY_RULE_INBOUND_KINDS) (parts ! 1))
       else Inl (Config ''unsupported rule''))"

section \<open>Logic rules\<close>

definition logic_head :: "string \<Rightarrow> bool" where
  "logic_head line =
    (let head = to_upper (hd (split_on CHR '','' line)) in head = ''AND'' \<or> head = ''OR'' \<or> head = ''NOT'')"

text \<open>The index of the parenthesis that closes the first group.\<close>

fun close_paren :: "nat \<Rightarrow> nat \<Rightarrow> string \<Rightarrow> nat option" where
  "close_paren depth i [] = None"
| "close_paren depth i (ch # s) =
    (if ch = CHR ''('' then close_paren (depth + 1) (i + 1) s
     else if ch = CHR '')'' then
       (if depth - 1 = 0 then Some i else close_paren (depth - 1) (i + 1) s)
     else close_paren depth (i + 1) s)"

text \<open>The mode, the payload and the outbound of a logic rule: the first half of \<open>parse_logic\<close>.\<close>

definition logic_parts :: "string \<Rightarrow> (logic_mode \<times> string \<times> string) result" where
  "logic_parts line =
    rbind (ok_or (split_once CHR '','' line) (Config ''malformed logic rule'')) (\<lambda>(kind, rest).
      let k = to_upper (trim kind);
          mode = (if k = ''AND'' then LAnd else if k = ''OR'' then LOr else LNot);
          rest = trim rest
      in if \<not> starts_with ''('' rest then Inl (Config ''logic rule payload must be parenthesized'')
         else rbind (ok_or (close_paren 0 0 rest) (Config ''unbalanced parens'')) (\<lambda>end.
           let payload = trim (take (end - 1) (drop 1 rest));
               outb = trim (trim_start_matches CHR '','' (trim (drop (end + 1) rest)))
           in if payload = [] then Inl (Config ''logic rule has no sub-rules'')
              else Inr (mode, payload, if outb = [] then ''-'' else outb)))"

text \<open>One step of \<open>split_sub_rules\<close>: the pieces so far, the depth and the current piece.\<close>

definition flush_piece :: "string list \<Rightarrow> string \<Rightarrow> string list" where
  "flush_piece out cur = (if trim cur = [] then out else out @ [trim cur])"

fun split_step :: "string list \<times> int \<times> string \<Rightarrow> char \<Rightarrow> string list \<times> int \<times> string" where
  "split_step (out, depth, cur) ch =
    (if ch = CHR ''('' then (out, depth + 1, cur @ [ch])
     else if ch = CHR '')'' then (out, depth - 1, cur @ [ch])
     else if (ch = CHR '','' \<or> ch = CHR ''&'') \<and> depth = 0 then (flush_piece out cur, depth, [])
     else (out, depth, cur @ [ch]))"

definition split_sub_rules :: "string \<Rightarrow> string list" where
  "split_sub_rules payload =
    (case foldl split_step ([], 0, []) payload of (out, _, cur) \<Rightarrow> flush_piece out cur)"

definition strip_parens :: "string \<Rightarrow> string" where
  "strip_parens s0 =
    (let s = trim s0 in
     trim (if starts_with ''('' s \<and> ends_with '')'' s then take (length s - 2) (drop 1 s) else s))"

section \<open>Lengths\<close>

lemma length_trim_start: "length (trim_start s) \<le> length s"
proof (induction s rule: trim_start.induct)
  case (1 s)
  then show ?case by (subst trim_start.simps) (auto simp: le_diff_conv)
qed

lemma length_trim_end: "length (trim_end s) \<le> length s"
proof (induction s rule: trim_end.induct)
  case (1 s)
  then show ?case by (subst trim_end.simps) auto
qed

lemma length_trim: "length (trim s) \<le> length s"
  using length_trim_end [of "trim_start s"] length_trim_start [of s] by (simp add: trim_def)

lemma close_paren_less: "close_paren d i s = Some e \<Longrightarrow> i \<le> e \<and> e < i + length s"
  by (induction d i s rule: close_paren.induct) (auto split: if_splits)

lemma logic_parts_length:
  assumes "logic_parts line = Inr (mode, payload, outb)"
  shows "length payload + 3 \<le> length line"
proof -
  obtain kind rest where so: "split_once CHR '','' line = Some (kind, rest)"
    and sw: "starts_with ''('' (trim rest)"
    and e: "\<exists>e. close_paren 0 0 (trim rest) = Some e \<and> payload = trim (take (e - 1) (drop 1 (trim rest))) \<and> payload \<noteq> []"
    using assms by (auto simp: logic_parts_def rbind_Inr_iff Let_def split: if_splits)
  from e obtain e where e: "close_paren 0 0 (trim rest) = Some e"
    "payload = trim (take (e - 1) (drop 1 (trim rest)))" "payload \<noteq> []" by blast
  have "length payload \<le> e - 1"
    using length_trim [of "take (e - 1) (drop 1 (trim rest))"] e(2) by (simp add: min_def split: if_splits)
  moreover have "e < length (trim rest)" using close_paren_less [OF e(1)] by simp
  moreover have "e \<noteq> 0"
  proof
    assume "e = 0"
    with e(2,3) show False by simp
  qed
  moreover have "length (trim rest) \<le> length rest" by (rule length_trim)
  moreover have "length rest + 1 \<le> length line" using split_once_Some [OF so] by simp
  ultimately show ?thesis by linarith
qed

lemma split_step_fold_length:
  "foldl split_step (out, d, cur) payload = (out', d', cur') \<Longrightarrow>
   (\<forall>p \<in> set out. length p \<le> n) \<Longrightarrow> length cur + length payload \<le> n \<Longrightarrow>
   (\<forall>p \<in> set out'. length p \<le> n) \<and> length cur' \<le> n"
proof (induction payload arbitrary: out d cur)
  case Nil
  then show ?case by simp
next
  case (Cons ch payload)
  have "length (trim cur) \<le> n" using length_trim [of cur] Cons.prems(3) by simp
  then have "\<forall>p \<in> set (flush_piece out cur). length p \<le> n"
    using Cons.prems(2) by (auto simp: flush_piece_def)
  then show ?case
    using Cons.prems by (auto split: if_splits elim!: Cons.IH)
qed

lemma split_sub_rules_length:
  assumes "p \<in> set (split_sub_rules payload)"
  shows "length p \<le> length payload"
proof -
  obtain out d cur where f: "foldl split_step ([], 0, []) payload = (out, d, cur)"
    by (cases "foldl split_step ([], 0, []) payload")
  have "(\<forall>p \<in> set out. length p \<le> length payload) \<and> length cur \<le> length payload"
    using split_step_fold_length [OF f, of "length payload"] by simp
  moreover have "length (trim cur) \<le> length cur" by (rule length_trim)
  ultimately show ?thesis
    using assms f by (auto simp: split_sub_rules_def flush_piece_def split: if_splits)
qed

lemma strip_parens_length: "length (strip_parens s) \<le> length s"
  using length_trim [of s] length_trim [of "take (length (trim s) - 2) (drop 1 (trim s))"]
    length_trim [of "trim s"]
  by (auto simp: strip_parens_def Let_def)

section \<open>The parser\<close>

text \<open>
  \<open>Rule::parse\<close>, \<open>parse_logic\<close> and \<open>parse_sub_rule\<close> call each other; every round loses at least one
  character, because a payload is three shorter than its line and a sub-rule gains at most the two
  characters of its stub outbound.
\<close>

function (sequential) rule_parse :: "(string \<Rightarrow> regex option) \<Rightarrow> string \<Rightarrow> rule result"
  and parse_logic :: "(string \<Rightarrow> regex option) \<Rightarrow> string \<Rightarrow> rule result"
  and parse_sub_rule :: "(string \<Rightarrow> regex option) \<Rightarrow> string \<Rightarrow> rule result" where
  "rule_parse regex_new line0 =
    (let line = trim line0 in
     if line = [] \<or> starts_with ''#'' line then Inl (Config ''empty rule'')
     else if logic_head line then parse_logic regex_new line
     else parse_plain regex_new line)"
| "parse_logic regex_new line =
    rbind (logic_parts line) (\<lambda>(mode, payload, outb).
    rbind (collect_results (map (\<lambda>s. parse_sub_rule regex_new s) (split_sub_rules payload))) (\<lambda>sub.
      if sub = [] then Inl (Config ''logic rule has no sub-rules'')
      else if mode = LNot \<and> 1 < length sub then Inl (Config ''NOT rule takes exactly one sub-rule'')
      else Inr (Rule (MLogic mode sub) outb)))"
| "parse_sub_rule regex_new s0 =
    (let s = strip_parens s0 in
     if s = [] then Inl (Config ''empty logic sub-rule'')
     else if logic_head s then parse_logic regex_new s
     else rule_parse regex_new (s @ '',-''))"
  by pat_completeness auto
termination
proof (relation "measure (\<lambda>x. case x of Inl (_, line) \<Rightarrow> 3 * length line + 1
      | Inr (Inl (_, line)) \<Rightarrow> 3 * length line | Inr (Inr (_, s)) \<Rightarrow> 3 * length s + 8)", goal_cases)
  case 1
  then show ?case by simp
next
  case (2 rn line0 line)
  then show ?case using length_trim [of line0] by simp
next
  case (3 rn line parts mode rest payload outb s)
  then show ?case
    using logic_parts_length [of line mode payload outb] split_sub_rules_length [of s payload] by simp
next
  case (4 rn s0 s)
  then show ?case using strip_parens_length [of s0] by simp
next
  case (5 rn s0 s)
  then show ?case using strip_parens_length [of s0] by simp
qed

declare rule_parse.simps [simp del] parse_logic.simps [simp del] parse_sub_rule.simps [simp del]

section \<open>Well-formed rules\<close>

text \<open>
  What the rest of the engine may rely on of a parsed rule: logic rules have sub-rules, \<open>NOT\<close> exactly
  one, networks have a prefix within their width, DSCP values fit six bits.
\<close>

function matcher_wf :: "rule_matcher \<Rightarrow> bool" where
  "matcher_wf m =
    (case m of
       MIpCidr net _ _ \<Rightarrow> unat (net_prefix net) \<le> (if is_ipv4 (net_addr_of net) then 32 else 128)
     | MDscp d \<Rightarrow> d \<le> 63
     | MLogic mode sub \<Rightarrow> sub \<noteq> [] \<and> (mode = LNot \<longrightarrow> length sub = 1) \<and>
         list_all (\<lambda>r. matcher_wf (matcher r)) sub
     | _ \<Rightarrow> True)"
  by pat_completeness auto
termination
  by (relation "measure size") (auto intro: size_matcher)

declare matcher_wf.simps [simp del]

lemma ip_net_from_str_wf:
  "ip_net_from_str s = Inr net \<Longrightarrow> unat (net_prefix net) \<le> (if is_ipv4 (net_addr_of net) then 32 else 128)"
  by (auto simp: ip_net_from_str_def rbind_Inr_iff ip_net_new_Inr split: if_splits)

text \<open>A property of every success of a result, pushed through branches and binds.\<close>

definition result_all :: "('a \<Rightarrow> bool) \<Rightarrow> 'a result \<Rightarrow> bool" where
  "result_all P r = (\<forall>x. r = Inr x \<longrightarrow> P x)"

lemma result_all_intros:
  "result_all P x \<Longrightarrow> result_all P y \<Longrightarrow> result_all P (if b then x else y)"
  "(\<And>x. r = Inr x \<Longrightarrow> result_all P (f x)) \<Longrightarrow> result_all P (rbind r f)"
  "P v \<Longrightarrow> result_all P (Inr v)"
  "result_all P (Inl e)"
  by (auto simp: result_all_def rbind_Inr_iff)

lemma matcher_wf_leaf:
  "matcher_wf (MDomain d)" "matcher_wf (MDomainSuffix d)" "matcher_wf (MDomainKeyword d)"
  "matcher_wf (MDomainRegex re)" "matcher_wf (MGeoIp c b)" "matcher_wf (MGeosite n)"
  "matcher_wf (MPortDst r)" "matcher_wf (MPortSrc r)" "matcher_wf (MRuleSet n b)"
  "matcher_wf (MClashMode n)" "matcher_wf (MNetwork k)" "matcher_wf (MInPort r)" "matcher_wf (MInName n)"
  "matcher_wf (MInType n)" "matcher_wf (MUid u)" "matcher_wf (MInUser n)" "matcher_wf (MIpAsn a b)"
  "matcher_wf (MIpSuffix n b)" "matcher_wf (MProcess n b)" "matcher_wf MMatchAll"
  by (simp_all add: matcher_wf.simps)

lemma matcher_wf_cidr: "ip_net_from_str s = Inr net \<Longrightarrow> matcher_wf (MIpCidr net src nr)"
  by (simp add: matcher_wf.simps ip_net_from_str_wf)

lemma dscp_checked: "result_all matcher_wf (if 63 < d then Inl e else Inr (MDscp d))"
  by (auto simp: result_all_def matcher_wf.simps not_less split: if_splits)

lemma parse_matcher_all: "result_all matcher_wf (parse_matcher rn kind payload nr)"
  unfolding parse_matcher_def
  by (intro result_all_intros(1,2) dscp_checked; (intro result_all_intros(3,4))?;
      (rule matcher_wf_leaf | erule matcher_wf_cidr)?)

lemma parse_plain_wf: "parse_plain rn line = Inr r \<Longrightarrow> matcher_wf (matcher r)"
  using parse_matcher_all
  by (fastforce simp: parse_plain_def Let_def rbind_Inr_iff result_all_def matcher_wf_leaf split: if_splits)

lemma parse_wf:
  "rule_parse rn line = Inr r \<Longrightarrow> matcher_wf (matcher r)"
  "parse_logic rn line' = Inr r' \<Longrightarrow> matcher_wf (matcher r')"
  "parse_sub_rule rn s = Inr r'' \<Longrightarrow> matcher_wf (matcher r'')"
proof (induction rn line and rn line' and rn s arbitrary: r and r' and r''
    rule: rule_parse_parse_logic_parse_sub_rule.induct)
  case (1 rn line0)
  then show ?case
    by (auto simp: rule_parse.simps [of rn line0] Let_def parse_plain_wf split: if_splits)
next
  case (2 rn line)
  obtain mode payload outb sub where parts: "logic_parts line = Inr (mode, payload, outb)"
    and subs: "map (\<lambda>s. parse_sub_rule rn s) (split_sub_rules payload) = map Inr sub"
    and ne: "sub \<noteq> []" "\<not> (mode = LNot \<and> 1 < length sub)" and r: "r' = Rule (MLogic mode sub) outb"
    using "2.prems"
    by (auto simp: parse_logic.simps [of rn line] rbind_Inr_iff collect_results_Inr_iff split: if_splits)
  have "matcher_wf (matcher x)" if "x \<in> set sub" for x
  proof -
    from that subs obtain s where "s \<in> set (split_sub_rules payload)" "parse_sub_rule rn s = Inr x"
      by (metis (no_types, lifting) image_iff image_set imageI)
    then show ?thesis using "2.IH" [OF parts refl refl] by blast
  qed
  then show ?case
    using ne r by (auto simp: matcher_wf.simps [of "MLogic mode sub"] list_all_iff
      not_less le_Suc_eq length_Suc_conv)
next
  case (3 rn s0)
  then show ?case
    by (auto simp: parse_sub_rule.simps [of rn s0] Let_def split: if_splits)
qed

section \<open>Clean fields\<close>

text \<open>Fields without white space and commas, as they stand between the commas of a line.\<close>

definition clean_field :: "string \<Rightarrow> bool" where
  "clean_field s = (s \<noteq> [] \<and> list_all (\<lambda>c. \<not> ws_char c \<and> c \<noteq> CHR '','') s)"

lemma clean_field_trim: "clean_field s \<Longrightarrow> trim s = s"
  by (rule trim_no_ws) (auto simp: clean_field_def list_all_iff)

lemma clean_field_no_comma: "clean_field s \<Longrightarrow> CHR '','' \<notin> set s"
  by (auto simp: clean_field_def list_all_iff)

lemma trim_fields: "clean_field a \<Longrightarrow> clean_field b \<Longrightarrow> trim (a @ mid @ b) = a @ mid @ b"
  by (rule trim_no_ws) (auto simp: clean_field_def list_all_iff)

lemma ws_char_false: "\<not> ws_char CHR ''-''" "\<not> ws_char CHR ''('' " "\<not> ws_char CHR '')''"
  by (simp_all add: ws_char_def ws_forms_def)

lemma clean_literals: "clean_field ''no-resolve''" "clean_field ''-''"
  by (simp_all add: clean_field_def ws_char_def ws_forms_def)

lemma logic_head_field:
  "clean_field k \<Longrightarrow> logic_head (k @ CHR '','' # rest) \<longleftrightarrow> to_upper k = ''AND'' \<or> to_upper k = ''OR'' \<or> to_upper k = ''NOT''"
  by (simp add: logic_head_def split_on_append clean_field_no_comma Let_def)

lemma strip_parens_wrap:
  assumes "trim s = s"
  shows "strip_parens (''('' @ s @ '')'') = s"
proof -
  have "trim (''('' @ s @ '')'') = ''('' @ s @ '')''"
    by (rule trim_no_ws) (simp_all add: ws_char_false)
  moreover have "ends_with '')'' (''('' @ s @ '')'')" unfolding ends_with_iff by (metis append.assoc)
  ultimately show ?thesis using assms by (simp add: strip_parens_def Let_def starts_with_def)
qed

lemma parse_plain_fields:
  assumes "clean_field k" "clean_field v" "clean_field x" "clean_field o'"
  shows "parse_plain rn (k @ '','' @ v @ '','' @ x @ '','' @ o') =
    (if o' = ''no-resolve''
     then rbind (parse_matcher rn (to_upper k) v True) (\<lambda>m. Inr (Rule m x))
     else Inl (Config ''unsupported rule''))"
  using assms
  by (simp add: parse_plain_def split_on_append clean_field_no_comma split_on_absent clean_field_trim)

section \<open>Theorems\<close>

text \<open>
  Every rule the parser accepts is well formed, at every depth of nesting: logic rules have
  sub-rules and \<open>NOT\<close> exactly one, networks have a prefix within their width, DSCP values fit six
  bits.
\<close>

theorem parsed_rules_wf:
  assumes "rule_parse rn line = Inr r"
  shows "matcher_wf (matcher r)"
  using assms by (rule parse_wf)

theorem parsed_rules_wf_witness:
  "rule_parse (\<lambda>_. None) ''MATCH,P'' = Inr (Rule MMatchAll ''P'') \<and> matcher_wf MMatchAll"
proof -
  have "rule_parse (\<lambda>_. None) ''MATCH,P'' = Inr (Rule MMatchAll ''P'')"
    by (simp add: rule_parse.simps logic_head_def parse_plain_def text_eval Let_def)
  with parsed_rules_wf [OF this] show ?thesis by simp
qed

text \<open>
  A logic sub-rule with a trailing \<open>no-resolve\<close> is always refused. The stub outbound is appended
  behind the flag, so the flag is no longer last, and the line has one field too many.
\<close>

theorem sub_rule_no_resolve_refused:
  assumes "clean_field k" and "clean_field v"
    and "to_upper k \<noteq> ''AND''" and "to_upper k \<noteq> ''OR''" and "to_upper k \<noteq> ''NOT''" and "hd k \<noteq> CHR ''#''"
  shows "parse_sub_rule rn (''('' @ k @ '','' @ v @ '',no-resolve'' @ '')'') = Inl (Config ''unsupported rule'')"
proof -
  let ?s = "k @ '','' @ v @ '',no-resolve''"
  have ts: "trim ?s = ?s" using trim_fields [OF assms(1) clean_literals(1), of "'','' @ v @ '',''"] by simp
  have sp: "strip_parens (''('' @ ?s @ '')'') = ?s" by (rule strip_parens_wrap [OF ts])
  have t2: "trim (?s @ '',-'') = ?s @ '',-''"
    using trim_fields [OF assms(1) clean_literals(2), of "'','' @ v @ '',no-resolve,''"] by simp
  have nh: "\<not> logic_head (k @ CHR '','' # rest)" for rest using assms by (simp add: logic_head_field)
  have k: "k \<noteq> []" using assms(1) by (simp add: clean_field_def)
  then have "\<not> starts_with ''#'' (?s @ '',-'')" using assms(6) by (cases k) (auto simp: starts_with_def)
  then have "rule_parse rn (?s @ '',-'') = parse_plain rn (?s @ '',-'')"
    using t2 nh k by (simp add: rule_parse.simps Let_def)
  also have "\<dots> = Inl (Config ''unsupported rule'')"
    using parse_plain_fields [OF assms(1,2) clean_literals, of rn] by simp
  finally show ?thesis
    using sp nh k by (subst parse_sub_rule.simps) (simp add: Let_def)
qed

theorem sub_rule_no_resolve_refused_witness:
  "parse_sub_rule (\<lambda>_. None) ''(IP-CIDR,10.0.0.0/8,no-resolve)'' = Inl (Config ''unsupported rule'')"
  using sub_rule_no_resolve_refused [of "''IP-CIDR''" "''10.0.0.0/8''" "\<lambda>_. None"]
  by (simp add: clean_field_def text_eval)

text \<open>
  Bars do not separate sub-rules, although the documentation of the logic forms lists them: the
  pair below is cut into one piece, the same pair with a comma into two.
\<close>

theorem logic_bars_refused:
  "split_sub_rules ''(DOMAIN,a.com)||(DOMAIN,b.com)'' = [''(DOMAIN,a.com)||(DOMAIN,b.com)''] \<and>
   split_sub_rules ''(DOMAIN,a.com),(DOMAIN,b.com)'' = [''(DOMAIN,a.com)'', ''(DOMAIN,b.com)'']"
  by (simp add: split_sub_rules_def flush_piece_def trim_no_ws ws_char_def ws_forms_def)

end
