(* ===== verification/Rust_Str.thy ===== *)
theory Rust_Str
  imports Rust_Net
begin

text \<open>
  More of Rust's string and slice library, as the configuration readers use it: lines, words, searching
  for a substring, splitting at one, numbers in a given radix, and the address classes of
  \<open>std::net\<close>.
\<close>

section \<open>Lines and words\<close>

text \<open>\<open>str::lines\<close>: pieces between line feeds, without the carriage return before one.\<close>

definition strip_cr :: "string \<Rightarrow> string" where
  "strip_cr s = (if s \<noteq> [] \<and> last s = CHR 0x0D then butlast s else s)"

definition lines_of :: "string \<Rightarrow> string list" where
  "lines_of s =
    (let ps = split_on CHR 0x0A s in
     map strip_cr (butlast ps) @ (if last ps = [] then [] else [last ps]))"

text \<open>\<open>str::split_whitespace\<close>: the maximal runs of bytes at which no whitespace character starts.\<close>

fun word_len :: "string \<Rightarrow> nat" where
  "word_len [] = 0"
| "word_len (c # s) = (if ws_prefix_len (c # s) = 0 then Suc (word_len s) else 0)"

lemma trim_start_length: "length (trim_start s) \<le> length s"
proof (induction s rule: trim_start.induct)
  case (1 s)
  then show ?case by (cases "s = [] \<or> ws_prefix_len s = 0") (auto simp: trim_start.simps [of s])
qed

lemma trim_start_no_ws: "trim_start s \<noteq> [] \<Longrightarrow> ws_prefix_len (trim_start s) = 0"
proof (induction s rule: trim_start.induct)
  case (1 s)
  then show ?case by (cases "s = [] \<or> ws_prefix_len s = 0") (auto simp: trim_start.simps [of s])
qed

function split_whitespace :: "string \<Rightarrow> string list" where
  "split_whitespace s =
    (let t = trim_start s in
     if t = [] then [] else take (word_len t) t # split_whitespace (drop (word_len t) t))"
  by pat_completeness auto
termination
proof (relation "measure length")
  fix s t
  assume t: "t = trim_start s" "t \<noteq> []"
  then have "ws_prefix_len t = 0" using trim_start_no_ws by simp
  with t(2) have "0 < word_len t" by (cases t) simp_all
  moreover have "length t \<le> length s" "0 < length t" using t trim_start_length [of s] by simp_all
  ultimately show "(drop (word_len t) t, s) \<in> measure length" unfolding in_measure length_drop by linarith
qed simp

declare split_whitespace.simps [simp del]

lemma ws_prefix_len_space: "ws_prefix_len (CHR '' '' # s) = 1"
  by (simp add: ws_prefix_len_def ws_forms_def starts_with_def)

lemma word_len_plain:
  assumes "\<forall>c \<in> set w. \<not> ws_char c" and "s = [] \<or> ws_prefix_len s \<noteq> 0"
  shows "word_len (w @ s) = length w"
  using assms(1)
proof (induction w)
  case Nil
  then show ?case using assms(2) by (cases s) auto
next
  case (Cons c w)
  then show ?case using ws_prefix_len_0 [of "c # w @ s"] by simp
qed

lemma split_whitespace_space: "split_whitespace (CHR '' '' # s) = split_whitespace s"
  by (simp add: split_whitespace.simps [of "CHR '' '' # s"] split_whitespace.simps [of s]
    trim_start.simps [of "CHR '' '' # s"] ws_prefix_len_space)

lemma split_whitespace_Nil: "split_whitespace [] = []"
  by (simp add: split_whitespace.simps trim_start.simps)

lemma split_whitespace_word:
  assumes "w \<noteq> []" and "\<forall>c \<in> set w. \<not> ws_char c" and "s = [] \<or> ws_prefix_len s \<noteq> 0"
  shows "split_whitespace (w @ s) = w # split_whitespace s"
proof -
  have "ws_prefix_len (w @ s) = 0" using assms(1,2) by (intro ws_prefix_len_0) auto
  then have "trim_start (w @ s) = w @ s" by (rule trim_start_fix)
  then show ?thesis
    using assms(1) word_len_plain [OF assms(2,3)] by (simp add: split_whitespace.simps [of "w @ s"])
qed

section \<open>Searching\<close>

fun find_sub :: "'a list \<Rightarrow> 'a list \<Rightarrow> nat option" where
  "find_sub p [] = (if p = [] then Some 0 else None)"
| "find_sub p (x # xs) =
    (if take (length p) (x # xs) = p then Some 0 else map_option Suc (find_sub p xs))"

definition split_once_str :: "string \<Rightarrow> string \<Rightarrow> (string \<times> string) option" where
  "split_once_str p s = map_option (\<lambda>i. (take i s, drop (i + length p) s)) (find_sub p s)"

lemma find_sub_Some: "find_sub p s = Some i \<Longrightarrow> i + length p \<le> length s \<and> take (length p) (drop i s) = p"
proof (induction s arbitrary: i)
  case (Cons x xs)
  then show ?case
    by (cases "take (length p) (x # xs) = p") (auto simp: min_def split: if_splits dest: arg_cong [where f = length])
qed (auto split: if_splits)

text \<open>The first occurrence behind a prefix in which the first byte of the pattern does not occur.\<close>

lemma find_sub_first:
  assumes "x \<notin> set a"
  shows "find_sub (x # p) (a @ x # p @ b) = Some (length a)"
  using assms
proof (induction a)
  case Nil
  then show ?case by simp
next
  case (Cons y ys)
  then have "take (length (x # p)) ((y # ys) @ x # p @ b) \<noteq> x # p" by auto
  with Cons show ?case by simp
qed

section \<open>Numbers\<close>

text \<open>\<open>from_str_radix\<close>: an optional plus sign, then digits of the radix only, and no overflow.\<close>

definition parse_radix :: "nat \<Rightarrow> nat \<Rightarrow> string \<Rightarrow> nat option" where
  "parse_radix r bound s =
    (let d = (case s of CHR ''+'' # t \<Rightarrow> (if t = [] then s else t) | _ \<Rightarrow> s) in
     if d = [] \<or> \<not> list_all (is_radix_digit r) d then None
     else if number_val r d < bound then Some (number_val r d) else None)"

lemma parse_radix_show:
  assumes "2 \<le> r" "r \<le> 16" "n < bound"
  shows "parse_radix r bound (show_radix r n) = Some n"
proof -
  have d: "list_all (is_radix_digit r) (show_radix r n)" using assms(1,2) by (rule show_radix_digits)
  have "hd (show_radix r n) \<noteq> CHR ''+''"
  proof -
    have "is_radix_digit r (hd (show_radix r n))"
      using d show_radix_not_Nil [of r n] by (cases "show_radix r n") auto
    moreover have "\<not> is_radix_digit r CHR ''+''"
      using assms(2) by (simp add: is_radix_digit_def digit_val_def is_digit_def is_lower_def is_upper_def)
    ultimately show ?thesis by metis
  qed
  then have "(case show_radix r n of CHR ''+'' # t \<Rightarrow> (if t = [] then show_radix r n else t) | _ \<Rightarrow> show_radix r n) =
      show_radix r n"
    by (cases "show_radix r n") (auto split: char.splits bool.splits)
  with d assms show ?thesis by (simp add: parse_radix_def number_val_show)
qed

section \<open>Address classes\<close>

definition is_loopback :: "ip_addr \<Rightarrow> bool" where
  "is_loopback ip = (case ip of V4 w \<Rightarrow> drop_bit 24 w = 127 | V6 w \<Rightarrow> w = 1)"

definition is_unspecified :: "ip_addr \<Rightarrow> bool" where
  "is_unspecified ip = (case ip of V4 w \<Rightarrow> w = 0 | V6 w \<Rightarrow> w = 0)"

section \<open>Instants\<close>

text \<open>A monotonic clock reading, in nanoseconds.\<close>

type_synonym instant = nat

definition secs :: "nat \<Rightarrow> instant" where
  "secs n = 1000000000 * n"

end
