(* ===== verification/Router.thy ===== *)
theory Router
  imports Fakeip Sniffer Rule_Parse Rust_Str
begin

text \<open>
  The engine's router (src/engine/src/app.rs): reversing fake addresses, the single pre-resolve, the
  sniff of a client stream, the rule walk with its actions, the routing modes, the self-relay guard
  and the loading of text rule providers. The DNS engine is present as the function that answers an
  A lookup, a client stream as the list of what its reads give.
\<close>

section \<open>State\<close>

record process_info =
  pi_exe :: string
  pi_uid :: "u32 option"

record route_meta =
  rm_network :: network_kind
  rm_inbound :: string
  rm_inbound_kind :: string
  rm_inbound_port :: "u16 option"
  rm_in_user :: "string option"
  rm_proc_info :: "process_info option"

record engine =
  en_mode :: rule_mode
  en_table :: rule_table
  en_sets :: rule_sets
  en_geo :: geo_lookups
  en_sniff :: sniff_config
  en_dns :: "(string \<Rightarrow> ip_addr list option) option"
  en_fakeip :: "fake_pool option"
  en_groups :: "string list"
  en_leaves :: "string list"
  en_last_touch :: "(string, nat) hash_map"

text \<open>
  One read of a client stream: data, the end, a failure, or silence until the sniff deadline.
\<close>

datatype read_event = Data bytes | Eof | Failed | Late


section \<open>Targets\<close>

text \<open>Reversing a fake address also marks its domain as recently used.\<close>

definition unfake_target :: "engine \<Rightarrow> net_addr \<Rightarrow> net_addr \<times> engine" where
  "unfake_target e target =
    (case (na_host target, en_dns e, en_fakeip e) of
       (Ip ip, Some _, Some pool) \<Rightarrow>
         (case pool_reverse pool ip of
            (Some domain, pool) \<Rightarrow> (net_addr_new (Domain domain) (na_port target), e\<lparr>en_fakeip := Some pool\<rparr>)
          | (None, pool) \<Rightarrow> (target, e\<lparr>en_fakeip := Some pool\<rparr>))
     | _ \<Rightarrow> (target, e))"

definition pre_resolve :: "engine \<Rightarrow> net_addr \<Rightarrow> ip_addr list option" where
  "pre_resolve e target =
    (case (en_dns e, as_domain (na_host target)) of
       (Some resolve, Some name) \<Rightarrow>
         (if table_needs_ip (en_table e) \<and> name \<noteq> [] then resolve name else None)
     | _ \<Rightarrow> None)"

record listener_config =
  lc_tag :: string
  lc_bind :: string
  lc_port :: u16

definition is_self_relay :: "listener_config list \<Rightarrow> net_addr \<Rightarrow> bool" where
  "is_self_relay listeners target =
    (case na_host target of
       Domain _ \<Rightarrow> False
     | Ip ip \<Rightarrow>
         if \<not> is_loopback ip then False
         else list_ex (\<lambda>l. lc_port l = na_port target \<and>
           (case parse_ip (lc_bind l) of None \<Rightarrow> True | Some b \<Rightarrow> is_unspecified b \<or> b = ip)) listeners)"

section \<open>Sniffing a client\<close>

definition MAX_SNIFF :: nat where "MAX_SNIFF = 4096"

fun sniff_client :: "crypto_lib \<Rightarrow> sniff_config \<Rightarrow> u16 \<Rightarrow> bytes \<Rightarrow> read_event list \<Rightarrow>
    sniff_result \<times> bytes \<times> read_event list" where
  "sniff_client lib cfg port buf [] = (SUnknown, buf, [])"
| "sniff_client lib cfg port buf (Data c # es) =
    (if c = [] then (SUnknown, buf, es)
     else
       let buf = buf @ c in
       case sniff lib buf cfg port of
         SUnknown \<Rightarrow> (if MAX_SNIFF \<le> length buf then (SUnknown, buf, es) else sniff_client lib cfg port buf es)
       | found \<Rightarrow> (found, buf, es))"
| "sniff_client lib cfg port buf (Eof # es) = (SUnknown, buf, Eof # es)"
| "sniff_client lib cfg port buf (Failed # es) = (SUnknown, buf, Failed # es)"
| "sniff_client lib cfg port buf (Late # es) = (SUnknown, buf, es)"

definition prepend_stream :: "read_event list \<Rightarrow> bytes \<Rightarrow> read_event list" where
  "prepend_stream es pending = (if pending = [] then es else Data pending # es)"

section \<open>Rule names for display\<close>

definition show_bounds :: "nat \<Rightarrow> nat \<Rightarrow> string" where
  "show_bounds a b = ''('' @ show_nat a @ ''-'' @ show_nat b @ '')''"

definition format_matcher :: "rule_matcher \<Rightarrow> string" where
  "format_matcher m =
    (case m of
       MDomain d \<Rightarrow> ''DOMAIN('' @ d @ '')''
     | MDomainSuffix s \<Rightarrow> ''DOMAIN-SUFFIX('' @ s @ '')''
     | MDomainKeyword k \<Rightarrow> ''DOMAIN-KEYWORD('' @ k @ '')''
     | MDomainRegex _ \<Rightarrow> ''DOMAIN-REGEX''
     | MIpCidr net _ _ \<Rightarrow> ''IP-CIDR(IpNet { addr: '' @ show_ip (net_addr_of net) @ '', prefix: '' @
         show_nat (unat (net_prefix net)) @ '' })''
     | MGeoIp c _ \<Rightarrow> ''GEOIP('' @ c @ '')''
     | MGeosite n \<Rightarrow> ''GEOSITE('' @ n @ '')''
     | MPortDst p \<Rightarrow> ''DST-PORT'' @ show_bounds (unat (pr_start p)) (unat (pr_end p))
     | MPortSrc p \<Rightarrow> ''SRC-PORT'' @ show_bounds (unat (pr_start p)) (unat (pr_end p))
     | MRuleSet n _ \<Rightarrow> ''RULE-SET('' @ n @ '')''
     | MClashMode n \<Rightarrow> ''CLASH-MODE('' @ n @ '')''
     | MNetwork n \<Rightarrow> ''NETWORK('' @ network_str n @ '')''
     | MInPort p \<Rightarrow> ''IN-PORT'' @ show_bounds (unat (pr_start p)) (unat (pr_end p))
     | MInName n \<Rightarrow> ''IN-NAME('' @ n @ '')''
     | MInType n \<Rightarrow> ''IN-TYPE('' @ n @ '')''
     | MUid u \<Rightarrow> ''UID'' @ show_bounds (unat (ur_start u)) (unat (ur_end u))
     | MInUser n \<Rightarrow> ''IN-USER('' @ n @ '')''
     | MDscp d \<Rightarrow> ''DSCP('' @ show_nat (unat d) @ '')''
     | MIpAsn a _ \<Rightarrow> ''IP-ASN('' @ show_nat (unat a) @ '')''
     | MIpSuffix s _ \<Rightarrow> ''IP-SUFFIX('' @ s @ '')''
     | MProcess p _ \<Rightarrow> ''PROCESS('' @ p @ '')''
     | MLogic mode _ \<Rightarrow> ''LOGIC('' @ (case mode of LAnd \<Rightarrow> ''And'' | LOr \<Rightarrow> ''Or'' | LNot \<Rightarrow> ''Not'') @ '')''
     | MMatchAll \<Rightarrow> ''MATCH'')"

definition format_rule_target :: "rule \<Rightarrow> string \<Rightarrow> string" where
  "format_rule_target r target = format_matcher (matcher r) @ '' => '' @ target"

definition format_rule :: "rule \<Rightarrow> string" where
  "format_rule r = format_rule_target r (outbound r)"

section \<open>The rule walk\<close>

definition route_context :: "route_meta \<Rightarrow> ip_addr \<times> u16 \<Rightarrow> net_addr \<Rightarrow> ip_addr list option \<Rightarrow> conn_context" where
  "route_context meta source effective resolved =
    \<lparr>ctx_host = na_host effective, ctx_port = na_port effective, ctx_source_ip = Some (fst source),
     ctx_source_port = Some (snd source), ctx_resolved = resolved, ctx_mode = RuleM,
     ctx_network = rm_network meta, ctx_inbound = rm_inbound meta, ctx_inbound_kind = rm_inbound_kind meta,
     ctx_inbound_port = rm_inbound_port meta, ctx_process = map_option pi_exe (rm_proc_info meta),
     ctx_uid = Option.bind (rm_proc_info meta) pi_uid, ctx_user = rm_in_user meta, ctx_dscp = None\<rparr>"

text \<open>The state of the walk: the target so far, its addresses, and the lent client stream.\<close>

record walk_state =
  ws_effective :: net_addr
  ws_resolved :: "ip_addr list option"
  ws_slot :: "read_event list option"

definition apply_sniff_action :: "crypto_lib \<Rightarrow> engine \<Rightarrow> string list \<Rightarrow> walk_state \<Rightarrow> walk_state" where
  "apply_sniff_action lib e sniffer ws =
    (let cfg = for_action (en_sniff e) sniffer in
     case ws_slot ws of
       None \<Rightarrow> ws
     | Some stream \<Rightarrow>
         (case sniff_client lib cfg (na_port (ws_effective ws)) [] stream of
            (sniffed, peeked, stream) \<Rightarrow>
              let ws = ws\<lparr>ws_slot := Some (prepend_stream stream peeked)\<rparr> in
              case apply_sniffed (ws_effective ws) sniffed cfg of
                None \<Rightarrow> ws
              | Some t \<Rightarrow> ws\<lparr>ws_effective := t, ws_resolved := pre_resolve e t\<rparr>))"

definition apply_resolve_action :: "engine \<Rightarrow> walk_state \<Rightarrow> walk_state" where
  "apply_resolve_action e ws =
    (case (en_dns e, as_domain (na_host (ws_effective ws))) of
       (Some resolve, Some name) \<Rightarrow> (if name \<noteq> [] then ws\<lparr>ws_resolved := resolve name\<rparr> else ws)
     | _ \<Rightarrow> ws)"

text \<open>
  The loop of \<open>route_rules\<close>, counted down from its iteration cap. \<open>None\<close>: an evaluation does not return.
\<close>

fun route_loop :: "nat \<Rightarrow> nat \<Rightarrow> crypto_lib \<Rightarrow> engine \<Rightarrow> route_meta \<Rightarrow> ip_addr \<times> u16 \<Rightarrow> nat \<Rightarrow> walk_state \<Rightarrow>
    (string \<times> string \<times> walk_state) option" where
  "route_loop fuel 0 lib e meta source at ws = Some (''no-match'', ''DIRECT'', ws)"
| "route_loop fuel (Suc cap) lib e meta source at ws =
    (case match_from fuel (en_table e) at (route_context meta source (ws_effective ws) (ws_resolved ws))
            (en_sets e) (en_geo e) of
       None \<Rightarrow> None
     | Some (ORoute r _) \<Rightarrow> Some (format_rule r, outbound r, ws)
     | Some (OSniff action _ resume_at) \<Rightarrow>
         (case action of
            ASniff sniffer \<Rightarrow> route_loop fuel cap lib e meta source resume_at (apply_sniff_action lib e sniffer ws)
          | _ \<Rightarrow> route_loop fuel cap lib e meta source resume_at ws)
     | Some (OResolve _ resume_at) \<Rightarrow>
         route_loop fuel cap lib e meta source resume_at (apply_resolve_action e ws)
     | Some (OHijackDns index) \<Rightarrow>
         Some (format_rule_target (rt_rules (en_table e) ! index) ''hijack-dns'', ''dns'', ws)
     | Some ONoMatch \<Rightarrow> Some (''no-match'', ''DIRECT'', ws))"

definition route_rules :: "nat \<Rightarrow> crypto_lib \<Rightarrow> engine \<Rightarrow> net_addr \<Rightarrow> ip_addr \<times> u16 \<Rightarrow> route_meta \<Rightarrow>
    read_event list option \<Rightarrow> ((string \<times> string \<times> walk_state) \<times> engine) option" where
  "route_rules fuel lib e target source meta slot =
    (case unfake_target e target of (effective, e) \<Rightarrow>
       map_option (\<lambda>r. (r, e))
         (route_loop fuel (length (rt_rules (en_table e)) + 1) lib e meta source 0
            \<lparr>ws_effective = effective, ws_resolved = pre_resolve e effective, ws_slot = slot\<rparr>))"

definition touch_group :: "nat \<Rightarrow> string \<Rightarrow> engine \<Rightarrow> engine" where
  "touch_group now name e =
    (if name \<in> set (en_groups e) then e\<lparr>en_last_touch := hm_insert name now (en_last_touch e)\<rparr> else e)"

definition route_with :: "nat \<Rightarrow> crypto_lib \<Rightarrow> nat \<Rightarrow> engine \<Rightarrow> net_addr \<Rightarrow> ip_addr \<times> u16 \<Rightarrow> route_meta \<Rightarrow>
    read_event list option \<Rightarrow> ((string \<times> string \<times> walk_state) \<times> engine) option" where
  "route_with fuel lib now e target source meta slot =
    map_option (\<lambda>(r, e). (r, touch_group now (fst (snd r)) e))
      (case en_mode e of
         DirectM \<Rightarrow>
           (case unfake_target e target of (t, e) \<Rightarrow>
              Some ((''mode:direct'', ''DIRECT'', \<lparr>ws_effective = t, ws_resolved = None, ws_slot = slot\<rparr>), e))
       | GlobalM \<Rightarrow>
           (let name = (case en_groups e of g # _ \<Rightarrow> g
                        | [] \<Rightarrow> (case en_leaves e of l # _ \<Rightarrow> l | [] \<Rightarrow> ''DIRECT''))
            in case unfake_target e target of (t, e) \<Rightarrow>
              Some ((''mode:global'', name, \<lparr>ws_effective = t, ws_resolved = None, ws_slot = slot\<rparr>), e))
       | RuleM \<Rightarrow> route_rules fuel lib e target source meta slot)"

section \<open>Text rule providers\<close>

datatype provider_behavior = BDomain | BIpCidr | BClassical
datatype provider_format = FText | FYaml | FMrs

definition data_lines :: "string \<Rightarrow> string list" where
  "data_lines content =
    filter (\<lambda>l. l \<noteq> []) (map (\<lambda>l. trim (hd (split_on CHR ''#'' l))) (lines_of content))"

definition classical_line :: "(string \<Rightarrow> regex option) \<Rightarrow> string \<Rightarrow> rule" where
  "classical_line regex_new line =
    (case rule_parse regex_new line of
       Inr r \<Rightarrow> r
     | Inl _ \<Rightarrow>
         (case rule_parse regex_new (''DOMAIN-SUFFIX,'' @ line @ '',DIRECT'') of
            Inr r \<Rightarrow> r
          | Inl _ \<Rightarrow> Rule MMatchAll ''DIRECT''))"

definition load_text_provider :: "(string \<Rightarrow> regex option) \<Rightarrow> provider_behavior \<Rightarrow> provider_format \<Rightarrow> bytes \<Rightarrow>
    string + rule_set_kind" where
  "load_text_provider regex_new behavior format bytes =
    (case from_utf8 bytes of
       None \<Rightarrow> Inl ''is not valid UTF-8 text''
     | Some content \<Rightarrow>
         (case (behavior, format) of
            (BDomain, FText) \<Rightarrow>
              Inr (SetDomain (foldl (\<lambda>m line. add_domain_line line m) domain_matcher_empty (lines_of content)))
          | (BIpCidr, FText) \<Rightarrow>
              Inr (SetIpCidr (List.map_filter (\<lambda>l. result_ok (ip_net_from_str l)) (data_lines content)))
          | (BClassical, FText) \<Rightarrow> Inr (SetClassical (map (classical_line regex_new) (data_lines content)))
          | _ \<Rightarrow> Inl ''behavior with format not supported yet''))"

section \<open>Streams are replayed\<close>






section \<open>The iteration cap\<close>

lemma match_from_resume:
  "match_from fuel t at ctx sets geo = Some (OSniff a i n) \<Longrightarrow> at < n \<and> n \<le> length (rt_rules t)"
  "match_from fuel t at ctx sets geo = Some (OResolve i n) \<Longrightarrow> at < n \<and> n \<le> length (rt_rules t)"
  by (auto simp: match_from_iff outcome_at_simps first_match_def)

lemma route_loop_cap:
  "length (rt_rules (en_table e)) - at < cap \<Longrightarrow>
   route_loop fuel (cap + k) lib e meta source at ws = route_loop fuel cap lib e meta source at ws"
proof (induction fuel cap lib e meta source at ws rule: route_loop.induct)
  case (1 fuel lib e meta source at ws)
  then show ?case by simp
next
  case (2 fuel cap lib e meta source at ws)
  let ?m = "match_from fuel (en_table e) at (route_context meta source (ws_effective ws) (ws_resolved ws))
    (en_sets e) (en_geo e)"
  show ?case
  proof (cases ?m)
    case None
    then show ?thesis by simp
  next
    case (Some res)
    show ?thesis
    proof (cases res)
      case (OSniff a i n)
      then have "length (rt_rules (en_table e)) - n < cap"
        using Some "2.prems" match_from_resume(1) [of fuel "en_table e" at] by fastforce
      then show ?thesis using 2 Some OSniff by (cases a) auto
    next
      case (OResolve i n)
      then have "length (rt_rules (en_table e)) - n < cap"
        using Some "2.prems" match_from_resume(2) [of fuel "en_table e" at] by fastforce
      then show ?thesis using 2 Some OResolve by auto
    qed (use Some in auto)
  qed
qed

text \<open>Enough fuel for every rule of the table is enough for the walk and for the route.\<close>

definition ranked_table :: "(string \<Rightarrow> nat) \<Rightarrow> nat \<Rightarrow> engine \<Rightarrow> bool" where
  "ranked_table rank fuel e =
    (sets_ranked rank (en_sets e) \<and> (\<forall>r \<in> set (rt_rules (en_table e)). \<forall>n \<in> rule_refs r. rank n < fuel))"

lemma match_rules_returns:
  assumes "sets_ranked rank sets" and "\<forall>r \<in> set rs. \<forall>n \<in> rule_refs r. rank n < fuel"
  shows "match_rules fuel ctx sets geo t i rs \<noteq> None"
  using assms(2)
proof (induction rs arbitrary: i)
  case (Cons r rs)
  obtain b where "evaluate fuel ctx sets geo r = Some b"
    using evaluate_ranked [OF assms(1), of r fuel] Cons.prems by fastforce
  then show ?case using Cons by (cases b) simp_all
qed simp

lemma match_from_returns:
  "ranked_table rank fuel e \<Longrightarrow> match_from fuel (en_table e) at ctx (en_sets e) (en_geo e) \<noteq> None"
  unfolding match_from_def ranked_table_def
  by (intro match_rules_returns [of rank]) (auto dest: in_set_dropD)

lemma route_loop_returns:
  "ranked_table rank fuel e \<Longrightarrow> route_loop fuel cap lib e meta source at ws \<noteq> None"
proof (induction fuel cap lib e meta source at ws rule: route_loop.induct)
  case (2 fuel cap lib e meta source at ws)
  obtain res where "match_from fuel (en_table e) at
      (route_context meta source (ws_effective ws) (ws_resolved ws)) (en_sets e) (en_geo e) = Some res"
    using match_from_returns [OF "2.prems"] by blast
  with 2 show ?case by (cases res) (auto split: rule_action.splits)
qed simp

section \<open>Provider lines\<close>

lemma rule_parse_clean:
  assumes "clean_field k" and "clean_field z" and "hd k \<noteq> CHR ''#''"
    and "to_upper k \<noteq> ''AND''" "to_upper k \<noteq> ''OR''" "to_upper k \<noteq> ''NOT''"
  shows "rule_parse rn (k @ CHR '','' # mid @ z) = parse_plain rn (k @ CHR '','' # mid @ z)"
proof -
  have "trim (k @ CHR '','' # mid @ z) = k @ CHR '','' # mid @ z"
    using trim_fields [OF assms(1,2), of "CHR '','' # mid"] by simp
  moreover have "\<not> starts_with ''#'' (k @ CHR '','' # mid @ z)"
    using assms(1,3) by (cases k) (auto simp: clean_field_def starts_with_def)
  moreover have "\<not> logic_head (k @ CHR '','' # mid @ z)" using assms by (simp add: logic_head_field)
  moreover have "k \<noteq> []" using assms(1) by (simp add: clean_field_def)
  ultimately show ?thesis by (simp add: rule_parse.simps Let_def)
qed

lemma parse_plain_two:
  assumes "clean_field k" "clean_field v" and "v \<noteq> ''no-resolve''" and "to_upper k \<noteq> ''MATCH''" "to_upper k \<noteq> ''PROXY''"
  shows "parse_plain rn (k @ CHR '','' # v) = Inl (Config ''unsupported rule'')"
  using assms
  by (simp add: parse_plain_def split_on_append clean_field_no_comma split_on_absent clean_field_trim)

section \<open>Theorems\<close>

text \<open>
  The iteration cap of the rule walk never decides a route. Any larger cap gives the same result,
  because every re-entry starts behind the rule whose action ran.
\<close>

theorem route_cap_never_binds:
  "route_loop fuel (length (rt_rules (en_table e)) + 1 + k) lib e meta source 0 ws =
   route_loop fuel (length (rt_rules (en_table e)) + 1) lib e meta source 0 ws"
  by (rule route_loop_cap) simp

text \<open>
  C2: Without actions, routing in rule mode is first match on the unfaked target: the outbound is that
  of the first rule that matches the one context the router builds, \<open>DIRECT\<close> when none does, and
  the target handed to the relay is the unfaked one.
\<close>

theorem route_rules_first_match:
  assumes "rt_actions (en_table e) = []" and "unfake_target e target = (eff, e')"
    and "ctx = route_context meta source eff (pre_resolve e' eff)"
    and "route_rules fuel lib e target source meta slot = Some ((label, out, ws), e'')"
  shows "ws_effective ws = eff \<and> e'' = e' \<and>
    ((\<exists>i. first_match fuel (en_table e) 0 ctx (en_sets e) (en_geo e) i \<and> out = outbound (rt_rules (en_table e) ! i)) \<or>
     (out = ''DIRECT'' \<and> label = ''no-match'' \<and>
      (\<forall>i < length (rt_rules (en_table e)). evaluate fuel ctx (en_sets e) (en_geo e) (rt_rules (en_table e) ! i) = Some False)))"
proof -
  have fields: "en_table e' = en_table e" "en_sets e' = en_sets e" "en_geo e' = en_geo e"
    using assms(2) by (auto simp: unfake_target_def split: host.splits option.splits prod.splits)
  let ?ws = "\<lparr>ws_effective = eff, ws_resolved = pre_resolve e' eff, ws_slot = slot\<rparr>"
  have loop: "route_loop fuel (length (rt_rules (en_table e)) + 1) lib e' meta source 0 ?ws = Some (label, out, ws)"
    and e'': "e'' = e'"
    using assms(2,4) fields by (auto simp: route_rules_def simp del: route_loop.simps)
  let ?m = "match_from fuel (en_table e) 0 ctx (en_sets e) (en_geo e)"
  have step: "?m = match_from fuel (en_table e') 0 (route_context meta source (ws_effective ?ws) (ws_resolved ?ws))
      (en_sets e') (en_geo e')" using assms(3) fields by simp
  note loop' = loop [unfolded Suc_eq_plus1 [symmetric] route_loop.simps(2), folded step]
  from loop' obtain res where res: "?m = Some res" by (cases ?m) simp_all
  have no_act: "table_action (en_table e) i = None" for i
    using assms(1) by (simp add: table_action_def hm_get_def)
  consider (hit) i where "first_match fuel (en_table e) 0 ctx (en_sets e) (en_geo e) i"
      "res = ORoute (rt_rules (en_table e) ! i) i"
    | (miss) "res = ONoMatch"
      "\<forall>i < length (rt_rules (en_table e)). evaluate fuel ctx (en_sets e) (en_geo e) (rt_rules (en_table e) ! i) = Some False"
    using res no_act by (auto simp: match_from_iff outcome_at_def)
  then show ?thesis
  proof cases
    case hit
    then show ?thesis using loop' res e'' by auto
  next
    case miss
    then show ?thesis using loop' res e'' by auto
  qed
qed

definition sample_engine :: engine where
  "sample_engine =
    \<lparr>en_mode = RuleM, en_table = from_parts [Rule (MNetwork Udp) ''U'', Rule (MPortDst \<lparr>pr_start = 443, pr_end = 443\<rparr>) ''P''] [],
     en_sets = [], en_geo = no_geo,
     en_sniff = \<lparr>sc_tls = False, sc_http = False, sc_quic = False, sc_override_destination = False,
       sc_skip_domains = [], sc_force_domains = [], sc_tls_ports = [], sc_http_ports = [], sc_quic_ports = []\<rparr>,
     en_dns = None, en_fakeip = None, en_groups = [], en_leaves = [], en_last_touch = []\<rparr>"

definition sample_meta :: route_meta where
  "sample_meta =
    \<lparr>rm_network = Tcp, rm_inbound = ''in'', rm_inbound_kind = ''mixed'', rm_inbound_port = None,
     rm_in_user = None, rm_proc_info = None\<rparr>"

definition sample_target :: net_addr where
  "sample_target = \<lparr>na_host = Domain ''a.test'', na_port = 443\<rparr>"

theorem route_rules_first_match_witness:
  "\<exists>label ws. route_rules 0 \<lparr>hkdf_extract = \<lambda>_ _. [], hkdf_expand = \<lambda>_ _ _. [], aes128_block = \<lambda>_ _. [],
       aes128_gcm_open = \<lambda>_ _ _ _. None\<rparr> sample_engine sample_target (V4 1, 2) sample_meta None =
       Some ((label, ''P'', ws), sample_engine) \<and> ws_effective ws = sample_target"
proof -
  let ?lib = "\<lparr>hkdf_extract = \<lambda>_ _. [], hkdf_expand = \<lambda>_ _ _. [], aes128_block = \<lambda>_ _. [],
    aes128_gcm_open = \<lambda>_ _ _ _. None\<rparr>"
  have act: "rt_actions (en_table sample_engine) = []" by (simp add: sample_engine_def from_parts_def)
  have uf: "unfake_target sample_engine sample_target = (sample_target, sample_engine)"
    by (simp add: unfake_target_def sample_target_def)
  have "match_from 0 (en_table sample_engine) 0
      (route_context sample_meta (V4 1, 2) sample_target (pre_resolve sample_engine sample_target)) [] no_geo =
      Some (ORoute (Rule (MPortDst \<lparr>pr_start = 443, pr_end = 443\<rparr>) ''P'') 1)"
    by (simp add: match_from_def sample_engine_def from_parts_def evaluate_leaf_eq evaluate_leaf_def
      route_context_def sample_meta_def sample_target_def outcome_at_def table_action_def hm_get_def port_in_def)
  then obtain label ws where r: "route_rules 0 ?lib sample_engine sample_target (V4 1, 2) sample_meta None =
      Some ((label, ''P'', ws), sample_engine)"
    unfolding route_rules_def uf by (auto simp: sample_engine_def)
  from route_rules_first_match [OF act uf refl r] r show ?thesis by auto
qed

text \<open>
  C18: Routing in rule mode always gives a route when the classical rule sets do not name each other in a
  cycle: whatever the table, its actions, the target and the client stream, the walk returns.
\<close>

theorem route_returns:
  assumes "sets_ranked rank (en_sets e)"
    and "\<forall>r \<in> set (rt_rules (en_table e)). \<forall>n \<in> rule_refs r. rank n < fuel"
  shows "\<exists>label out ws e'. route_rules fuel lib e target source meta slot = Some ((label, out, ws), e')"
proof -
  obtain eff e' where u: "unfake_target e target = (eff, e')" by fastforce
  then have "ranked_table rank fuel e'"
    using assms by (auto simp: ranked_table_def unfake_target_def split: host.splits option.splits prod.splits)
  then have "route_loop fuel cap lib e' meta source 0 ws \<noteq> None" for cap ws by (rule route_loop_returns)
  then show ?thesis using u by (auto simp: route_rules_def simp del: route_loop.simps)
qed

theorem route_returns_witness:
  "\<exists>label out ws e'. route_rules 2 \<lparr>hkdf_extract = \<lambda>_ _. [], hkdf_expand = \<lambda>_ _ _. [], aes128_block = \<lambda>_ _. [],
       aes128_gcm_open = \<lambda>_ _ _ _. None\<rparr>
     (sample_engine\<lparr>en_sets := two_level_sets, en_table := from_parts [Rule (MRuleSet ''outer'' False) ''P''] []\<rparr>)
     sample_target (V4 1, 2) sample_meta None = Some ((label, out, ws), e')"
proof (rule route_returns [where rank = "\<lambda>n. if n = ''outer'' then 1 else 0"])
  show "sets_ranked (\<lambda>n. if n = ''outer'' then 1 else 0) (en_sets (sample_engine\<lparr>en_sets := two_level_sets,
      en_table := from_parts [Rule (MRuleSet ''outer'' False) ''P''] []\<rparr>))"
    by (auto simp: sets_ranked_def rule_sets_get_def two_level_sets_def hm_get_def rule_refs_set
      rule_refs_def matcher_refs.simps split: if_splits)
qed (simp add: rule_refs_set from_parts_def)



text \<open>
  A fake address leads back to its domain. After the pool allocates an address for a domain, routing
  a connection to that address sees the domain with the same port.
\<close>

theorem unfake_after_alloc:
  assumes "pool_inv p" and "cursor_ok p" and "length d \<le> 255"
    and "lookup_or_alloc p d = (Inr ip, p')" and "en_fakeip e = Some p'" and "en_dns e \<noteq> None"
  shows "fst (unfake_target e (net_addr_new (Ip ip) port)) = net_addr_new (Domain d) port"
proof -
  have "fst (pool_reverse p' ip) = Some d"
    using fake.alloc_then_reverse [OF assms(1-3)] assms(4) by simp
  then show ?thesis
    using assms(5,6) by (auto simp: unfake_target_def net_addr_new_def split: prod.splits)
qed

theorem unfake_after_alloc_witness:
  "\<exists>ip p'. lookup_or_alloc \<lparr>fp_base = 0x0A090000, fp_prefix = 30, fp_size = 2, fp_inner = inner_empty\<rparr> ''a.test'' =
       (Inr ip, p') \<and>
     fst (unfake_target (sample_engine\<lparr>en_fakeip := Some p', en_dns := Some (\<lambda>_. None)\<rparr>) (net_addr_new (Ip ip) 80)) =
       net_addr_new (Domain ''a.test'') 80"
proof -
  let ?p = "\<lparr>fp_base = 0x0A090000, fp_prefix = 30, fp_size = 2, fp_inner = inner_empty\<rparr>"
  have c: "cursor_ok ?p" by (simp add: cursor_ok_def inner_empty_def)
  obtain ip where "fst (lookup_or_alloc ?p ''a.test'') = Inr ip"
    using fake.alloc_maps [OF example_pool_inv c, of "''a.test''"] by auto
  then have a: "lookup_or_alloc ?p ''a.test'' = (Inr ip, snd (lookup_or_alloc ?p ''a.test''))"
    by (metis prod.collapse)
  from unfake_after_alloc [OF example_pool_inv c _ a, of "sample_engine\<lparr>en_fakeip := Some (snd (lookup_or_alloc ?p ''a.test'')),
      en_dns := Some (\<lambda>_. None)\<rparr>" 80] a show ?thesis by auto
qed

text \<open>
  A line of a classical text provider that names only a type and a payload matches every connection.
  The line fails to parse for want of an outbound, the domain-suffix fallback fails because of its
  comma, and the last resort is a rule that always matches.
\<close>

theorem classical_short_line_matches_all:
  assumes "clean_field k" and "clean_field v" and "hd k \<noteq> CHR ''#''" and "v \<noteq> ''no-resolve''"
    and "to_upper k \<notin> {''AND'', ''OR'', ''NOT'', ''MATCH'', ''PROXY''}"
  shows "classical_line rn (k @ '','' @ v) = Rule MMatchAll ''DIRECT''"
proof -
  have "rule_parse rn (k @ CHR '','' # [] @ v) = Inl (Config ''unsupported rule'')"
    using assms by (subst rule_parse_clean) (simp_all add: parse_plain_two)
  moreover have "rule_parse rn (''DOMAIN-SUFFIX'' @ CHR '','' # (k @ '','' @ v @ '','') @ ''DIRECT'') =
      Inl (Config ''unsupported rule'')"
  proof -
    have lit: "clean_field ''DOMAIN-SUFFIX''" "clean_field ''DIRECT''"
      by (simp_all add: clean_field_def ws_char_def ws_forms_def)
    have "rule_parse rn (''DOMAIN-SUFFIX'' @ CHR '','' # (k @ '','' @ v @ '','') @ ''DIRECT'') =
        parse_plain rn (''DOMAIN-SUFFIX'' @ CHR '','' # (k @ '','' @ v @ '','') @ ''DIRECT'')"
      by (rule rule_parse_clean [OF lit]) (simp_all add: text_eval)
    then show ?thesis using parse_plain_fields [OF lit(1) assms(1,2) lit(2), of rn] by simp
  qed
  ultimately show ?thesis by (simp add: classical_line_def)
qed

theorem classical_short_line_matches_all_witness:
  "classical_line (\<lambda>_. None) ''DOMAIN-SUFFIX,google.com'' = Rule MMatchAll ''DIRECT''"
  using classical_short_line_matches_all [of "''DOMAIN-SUFFIX''" "''google.com''" "\<lambda>_. None"]
  by (simp add: clean_field_def text_eval)

end
