(* ===== verification/Upstream.thy ===== *)
theory Upstream
  imports Stream_Io Quic Dns_Wire Rust_Str
begin

text \<open>
  The DNS upstreams (src/engine/src/dns/upstream.rs): the nameserver grammar, the platform resolvers
  behind it, the exchanges with their framing, and the HTTP body reader of DNS-over-HTTPS. What the
  platform and the network give is a parameter: file contents, the system resolver, and the bytes a
  peer returns for the bytes sent to it.
\<close>

section \<open>Upstreams\<close>

datatype upstream =
    URcode u8
  | UUdp socket_addr
  | UTcp socket_addr
  | UTls socket_addr string
  | UHttps socket_addr string string
  | UDoq socket_addr string
  | UH3 socket_addr string string
  | USystem "socket_addr list"
  | UDhcp "socket_addr list" string

definition show_socket_addr :: "socket_addr \<Rightarrow> string" where
  "show_socket_addr a =
    (case a of
       (V4 w, p) \<Rightarrow> show_ipv4 w @ '':'' @ show_nat (unat p)
     | (V6 w, p) \<Rightarrow> ''['' @ show_ipv6 w @ '']:'' @ show_nat (unat p))"

definition upstream_text :: "upstream \<Rightarrow> string" where
  "upstream_text u =
    (case u of
       URcode c \<Rightarrow> ''rcode://'' @ rcode_token c
     | UUdp a \<Rightarrow> ''udp://'' @ show_socket_addr a
     | UTcp a \<Rightarrow> ''tcp://'' @ show_socket_addr a
     | UTls a _ \<Rightarrow> ''tls://'' @ show_socket_addr a
     | UHttps a _ _ \<Rightarrow> ''https://'' @ show_socket_addr a
     | UDoq a _ \<Rightarrow> ''quic://'' @ show_socket_addr a
     | UH3 a _ _ \<Rightarrow> ''h3://'' @ show_socket_addr a
     | USystem servers \<Rightarrow> ''system://'' @ show_nat (length servers)
     | UDhcp _ iface \<Rightarrow> ''dhcp://'' @ iface)"

section \<open>What the platform knows\<close>

text \<open>
  Readable text files, the texts of the systemd leases, and the first address of a name lookup.
\<close>

record platform =
  pf_file :: "string \<Rightarrow> string option"
  pf_leases :: "string list"
  pf_lookup :: "string \<Rightarrow> u16 \<Rightarrow> socket_addr option"

definition parse_resolv_conf :: "string \<Rightarrow> socket_addr list" where
  "parse_resolv_conf txt =
    List.map_filter (\<lambda>line.
      let line = trim (hd (split_on CHR ''#'' line)) in
      case strip_prefix ''nameserver'' line of
        None \<Rightarrow> None
      | Some rest \<Rightarrow> map_option (\<lambda>ip. (ip, 53)) (parse_ip (trim rest))) (lines_of txt)"

definition resolv_conf_nameservers :: "platform \<Rightarrow> socket_addr list" where
  "resolv_conf_nameservers pf =
    (case pf_file pf ''/etc/resolv.conf'' of
       None \<Rightarrow> []
     | Some txt \<Rightarrow>
         let servers = parse_resolv_conf txt in
         if list_all (\<lambda>a. is_loopback (fst a)) servers then
           (case pf_file pf ''/run/systemd/resolve/resolv.conf'' of
              None \<Rightarrow> servers
            | Some uplink \<Rightarrow>
                let direct = parse_resolv_conf uplink in if direct \<noteq> [] then direct else servers)
         else servers)"

definition route_iface :: "string \<Rightarrow> string option" where
  "route_iface line =
    (let cols = split_whitespace line in
     if length cols < 4 \<or> cols ! 1 \<noteq> ''00000000'' then None
     else
       let flags = (case parse_radix 16 4294967296 (cols ! 3) of Some n \<Rightarrow> word_of_nat n | None \<Rightarrow> (0 :: u32)) in
       if flags AND 0x3 = 0x3 then Some (cols ! 0) else None)"

fun first_some :: "('a \<Rightarrow> 'b option) \<Rightarrow> 'a list \<Rightarrow> 'b option" where
  "first_some f [] = None"
| "first_some f (x # xs) = (case f x of Some y \<Rightarrow> Some y | None \<Rightarrow> first_some f xs)"

definition parse_default_route_iface :: "string \<Rightarrow> string option" where
  "parse_default_route_iface txt = first_some route_iface (drop 1 (lines_of txt))"

definition default_route_iface :: "platform \<Rightarrow> string option" where
  "default_route_iface pf = Option.bind (pf_file pf ''/proc/net/route'') parse_default_route_iface"

definition parse_systemd_lease_dns :: "string \<Rightarrow> string \<Rightarrow> socket_addr list" where
  "parse_systemd_lease_dns txt iface =
    (if \<not> list_ex (\<lambda>l. trim l = ''IFACE='' @ iface) (lines_of txt) then []
     else concat (map (\<lambda>line.
       case strip_prefix ''DNS='' (trim line) of
         None \<Rightarrow> []
       | Some rest \<Rightarrow> map (\<lambda>ip. (ip, 53)) (List.map_filter parse_ip (split_whitespace rest))) (lines_of txt)))"

definition parse_dhclient_lease_dns :: "string \<Rightarrow> socket_addr list" where
  "parse_dhclient_lease_dns txt =
    concat (map (\<lambda>line.
      case strip_prefix ''option domain-name-servers'' (trim line) of
        None \<Rightarrow> []
      | Some rest \<Rightarrow>
          map (\<lambda>ip. (ip, 53))
            (List.map_filter (\<lambda>tok. parse_ip (trim tok)) (split_on CHR '','' (trim_end_matches CHR '';'' rest))))
      (lines_of txt))"

definition dhcp_lease_nameservers :: "platform \<Rightarrow> string \<Rightarrow> socket_addr list" where
  "dhcp_lease_nameservers pf iface =
    remdups_adj
      (concat (map (\<lambda>txt. parse_systemd_lease_dns txt iface) (pf_leases pf)) @
       concat (map (\<lambda>path. case pf_file pf path of None \<Rightarrow> [] | Some txt \<Rightarrow> parse_dhclient_lease_dns txt)
         [''/var/lib/dhcp/dhclient.'' @ iface @ ''.leases'', ''/var/lib/dhcp/dhclient.leases'']))"

section \<open>The nameserver grammar\<close>

definition resolve_once :: "platform \<Rightarrow> string \<Rightarrow> u16 \<Rightarrow> (string \<times> socket_addr) option" where
  "resolve_once pf host port =
    (case parse_ip host of
       Some ip \<Rightarrow> Some (host, (ip, port))
     | None \<Rightarrow> map_option (\<lambda>addr. (host, addr)) (pf_lookup pf host port))"

definition parse_host_addr :: "platform \<Rightarrow> string \<Rightarrow> u16 \<Rightarrow> (string \<times> socket_addr) option" where
  "parse_host_addr pf s default_port =
    (case strip_prefix ''['' s of
       Some rest \<Rightarrow>
         Option.bind (split_once CHR '']'' rest) (\<lambda>(v6, port).
         Option.bind (case strip_prefix '':'' port of Some p \<Rightarrow> parse_u16 p | None \<Rightarrow> Some default_port) (\<lambda>port.
         Option.bind (parse_ip v6) (\<lambda>ip. Some (v6, (ip, port)))))
     | None \<Rightarrow>
         (case parse_ip s of
            Some ip \<Rightarrow> Some (s, (ip, default_port))
          | None \<Rightarrow>
              (case rsplit_once CHR '':'' s of
                 Some (host, port) \<Rightarrow>
                   (case parse_u16 port of
                      Some port \<Rightarrow> resolve_once pf host port
                    | None \<Rightarrow> resolve_once pf s default_port)
               | None \<Rightarrow> resolve_once pf s default_port)))"

definition authority_path :: "string \<Rightarrow> string \<times> string" where
  "authority_path rest =
    (case find_sub ''/'' rest of Some i \<Rightarrow> (take i rest, drop i rest) | None \<Rightarrow> (rest, ''/dns-query''))"

definition system_upstream :: "platform \<Rightarrow> upstream option" where
  "system_upstream pf =
    (let servers = resolv_conf_nameservers pf in if servers \<noteq> [] then Some (USystem servers) else None)"

definition parse_upstream :: "platform \<Rightarrow> string \<Rightarrow> upstream option" where
  "parse_upstream pf ns =
    (if ns = ''system'' \<or> ns = ''local'' then system_upstream pf
     else
       let ns = (case split_once CHR ''#'' ns of Some (addr, _) \<Rightarrow> addr | None \<Rightarrow> ns);
           (scheme, rest) = (case split_once_str ''://'' ns of Some p \<Rightarrow> p | None \<Rightarrow> ([], ns))
       in
       if scheme = ''rcode'' then map_option URcode (parse_rcode_token rest)
       else if scheme = [] \<or> scheme = ''udp'' then map_option (\<lambda>(_, a). UUdp a) (parse_host_addr pf rest 53)
       else if scheme = ''tcp'' then map_option (\<lambda>(_, a). UTcp a) (parse_host_addr pf rest 53)
       else if scheme = ''tls'' then map_option (\<lambda>(h, a). UTls a h) (parse_host_addr pf rest 853)
       else if scheme = ''https'' then
         (let (authority, path) = authority_path rest in
          map_option (\<lambda>(h, a). UHttps a h path) (parse_host_addr pf authority 443))
       else if scheme = ''quic'' \<or> scheme = ''doq'' then map_option (\<lambda>(h, a). UDoq a h) (parse_host_addr pf rest 853)
       else if scheme = ''h3'' then
         (let (authority, path) = authority_path rest in
          map_option (\<lambda>(h, a). UH3 a h path) (parse_host_addr pf authority 443))
       else if scheme = ''system'' \<or> scheme = ''local'' then system_upstream pf
       else if scheme = ''dhcp'' then
         Option.bind (if rest = [] \<or> rest = ''auto'' then default_route_iface pf else Some rest) (\<lambda>iface.
           let servers = dhcp_lease_nameservers pf iface in
           if servers = [] then None else Some (UDhcp servers iface))
       else None)"

section \<open>Exchanges\<close>

text \<open>
  The network: the datagram that answers a datagram, the bytes a TCP or TLS peer sends for the bytes
  written, and the chunks of a QUIC stream for the bytes written on it. An error stands for a failed
  connection or a timeout.
\<close>

record network =
  net_udp :: "socket_addr \<Rightarrow> bytes \<Rightarrow> bytes result"
  net_tcp :: "socket_addr \<Rightarrow> bytes \<Rightarrow> bytes result"
  net_tls :: "socket_addr \<Rightarrow> string \<Rightarrow> bytes \<Rightarrow> bytes result"
  net_quic :: "socket_addr \<Rightarrow> string \<Rightarrow> string \<Rightarrow> bytes \<Rightarrow> chunk list result"

definition exchange_udp :: "network \<Rightarrow> socket_addr \<Rightarrow> bytes \<Rightarrow> bytes result" where
  "exchange_udp net addr query =
    rbind (net_udp net addr query) (\<lambda>received.
      let buf = take 4096 received in
      if length buf < 12 then Inl (Dns ''short response'')
      else if take 2 buf \<noteq> take 2 query then Inl (Dns ''id mismatch'')
      else Inr buf)"

definition write_framed :: "bytes \<Rightarrow> bytes result" where
  "write_framed query =
    (if length query < 65536 then Inr (u16_be (word_of_nat (length query)) @ query)
     else Inl (Dns ''query too large''))"

definition io_dns :: "'a io_op \<Rightarrow> 'a io_op" where
  "io_dns m s = (case m s of (Inl e, s) \<Rightarrow> (Inl (Dns ''read''), s) | (Inr x, s) \<Rightarrow> (Inr x, s))"

definition read_framed :: "bytes io_op" where
  "read_framed =
    io_bind (io_dns (read_exact 2)) (\<lambda>len.
      let n = unat (u16_from (len ! 0) (len ! 1)) in
      if \<not> (12 \<le> n \<and> n \<le> 65535) then io_fail (Dns ''bad framed length'') else io_dns (read_exact n))"

definition exchange_framed :: "(bytes \<Rightarrow> bytes result) \<Rightarrow> bytes \<Rightarrow> bytes result" where
  "exchange_framed peer query =
    rbind (write_framed query) (\<lambda>out.
    rbind (peer out) (\<lambda>received. fst (read_framed \<lparr>io_in = received, io_out = []\<rparr>)))"

definition doh_request :: "string \<Rightarrow> string \<Rightarrow> bytes \<Rightarrow> bytes" where
  "doh_request name path query =
    (let path = (if starts_with ''/'' path then path else ''/'' @ path);
         crlf = [CHR 0x0D, CHR 0x0A]
     in as_bytes (''POST '' @ path @ '' HTTP/1.1'' @ crlf @ ''Host: '' @ name @ crlf @
          ''Content-Type: application/dns-message'' @ crlf @ ''Accept: application/dns-message'' @ crlf @
          ''Content-Length: '' @ show_nat (length query) @ crlf @ ''Connection: close'' @ crlf @ crlf) @ query)"

definition size_of_line :: "bytes \<Rightarrow> nat result" where
  "size_of_line line =
    rbind (ok_or (from_utf8 line) (Dns ''doh: chunk size'')) (\<lambda>txt.
      ok_or (parse_radix 16 (2 ^ 64) (trim (hd (split_on CHR '';'' txt)))) (Dns ''doh: chunk size''))"

function dechunk_loop :: "bytes \<Rightarrow> bytes \<Rightarrow> bytes result" where
  "dechunk_loop out rest =
    (case find_sub [0x0D, 0x0A] rest of
       None \<Rightarrow> Inl (Dns ''doh: bad chunk header'')
     | Some line_end \<Rightarrow>
         (case size_of_line (take line_end rest) of
            Inl e \<Rightarrow> Inl e
          | Inr n \<Rightarrow>
              if n = 0 then Inr out
              else
                let rest = drop (line_end + 2) rest in
                if length rest < n then Inl (Dns ''doh: short chunk'')
                else
                  let out = out @ take n rest; rest = drop n rest in
                  dechunk_loop out (if take 2 rest = [0x0D, 0x0A] then drop 2 rest else rest)))"
  by pat_completeness auto
termination
  by (relation "measure (\<lambda>(_, rest). length rest)") (auto dest!: find_sub_Some)

declare dechunk_loop.simps [simp del]

definition dechunk :: "bytes \<Rightarrow> bytes result" where
  "dechunk body = dechunk_loop [] body"

definition http_status :: "string \<Rightarrow> nat" where
  "http_status head =
    (case lines_of head of
       [] \<Rightarrow> 0
     | l # _ \<Rightarrow>
         (case split_whitespace l of
            _ # code # _ \<Rightarrow> (case parse_uint 65536 code of Some n \<Rightarrow> n | None \<Rightarrow> 0)
          | _ \<Rightarrow> 0))"

definition extract_http_body :: "bytes \<Rightarrow> bytes result" where
  "extract_http_body raw =
    (case find_sub [0x0D, 0x0A, 0x0D, 0x0A] raw of
       None \<Rightarrow> Inl (Dns ''doh: no header terminator'')
     | Some split \<Rightarrow>
         let head = from_utf8_lossy (take split raw); status = http_status head in
         if \<not> (200 \<le> status \<and> status < 300) then Inl (Dns ''doh: HTTP'')
         else
           let body = drop (split + 4) raw in
           if list_ex (\<lambda>l. starts_with ''transfer-encoding: chunked'' (to_lower l)) (lines_of head)
           then dechunk body else Inr body)"

definition exchange_https :: "network \<Rightarrow> socket_addr \<Rightarrow> string \<Rightarrow> string \<Rightarrow> bytes \<Rightarrow> bytes result" where
  "exchange_https net addr name path query =
    rbind (net_tls net addr name (doh_request name path query)) (\<lambda>raw.
      if 65536 < length raw then Inl (Dns ''doh response too large'') else extract_http_body raw)"

definition exchange_doq :: "network \<Rightarrow> socket_addr \<Rightarrow> string \<Rightarrow> bytes \<Rightarrow> bytes result" where
  "exchange_doq net addr name query =
    (if 65536 \<le> length query then Inl (Dns ''doq query too large'')
     else
       rbind (net_quic net addr name ''doq'' (u16_be (word_of_nat (length query)) @ query)) (\<lambda>chunks.
         let received = concat (map (\<lambda>c. case c of Chunk bs \<Rightarrow> bs | StreamError \<Rightarrow> []) (takeWhile (\<lambda>c. c \<noteq> StreamError) chunks)) in
         fst (read_framed \<lparr>io_in = received, io_out = []\<rparr>)))"

definition h3_authority :: "socket_addr \<Rightarrow> string \<Rightarrow> string" where
  "h3_authority addr name = (if snd addr = 443 then name else name @ '':'' @ show_nat (unat (snd addr)))"

definition h3_request :: "socket_addr \<Rightarrow> string \<Rightarrow> string \<Rightarrow> bytes \<Rightarrow> bytes" where
  "h3_request addr name path query =
    (let fields = [0x00, 0x00];
         fields = put_qpack_literal fields (as_bytes '':method'') (as_bytes ''POST'');
         fields = put_qpack_literal fields (as_bytes '':scheme'') (as_bytes ''https'');
         fields = put_qpack_literal fields (as_bytes '':authority'') (as_bytes (h3_authority addr name));
         fields = put_qpack_literal fields (as_bytes '':path'') (as_bytes path);
         fields = put_qpack_literal fields (as_bytes ''content-type'') (as_bytes ''application/dns-message'');
         fields = put_qpack_literal fields (as_bytes ''accept'') (as_bytes ''application/dns-message'')
     in put_h3_frame (put_h3_frame [] H3_HEADERS fields) H3_DATA query)"

definition exchange_h3 :: "network \<Rightarrow> socket_addr \<Rightarrow> string \<Rightarrow> string \<Rightarrow> bytes \<Rightarrow> bytes result" where
  "exchange_h3 net addr name path query =
    rbind (net_quic net addr name ''h3'' (h3_request addr name path query)) (\<lambda>chunks.
    rbind (h3_read_data chunks) (\<lambda>body.
      if length body < 12 then Inl (Dns ''doh3: short or missing body'') else Inr body))"

fun exchange_first :: "network \<Rightarrow> bytes result \<Rightarrow> socket_addr list \<Rightarrow> bytes \<Rightarrow> bytes result" where
  "exchange_first net failed [] query = failed"
| "exchange_first net failed (addr # addrs) query =
    (case exchange_udp net addr query of
       Inr resp \<Rightarrow> Inr resp
     | Inl e \<Rightarrow> exchange_first net (Inl e) addrs query)"

definition exchange :: "network \<Rightarrow> upstream \<Rightarrow> bytes \<Rightarrow> bytes result" where
  "exchange net u query =
    (case u of
       URcode code \<Rightarrow> rbind (parse query) (\<lambda>msg. Inr (build_response msg code []))
     | UUdp addr \<Rightarrow> exchange_udp net addr query
     | UTcp addr \<Rightarrow> exchange_framed (net_tcp net addr) query
     | UTls addr name \<Rightarrow> exchange_framed (net_tls net addr name) query
     | UHttps addr name path \<Rightarrow> exchange_https net addr name path query
     | UDoq addr name \<Rightarrow> exchange_doq net addr name query
     | UH3 addr name path \<Rightarrow> exchange_h3 net addr name path query
     | USystem servers \<Rightarrow> exchange_first net (Inl (Dns ''no platform resolvers configured'')) servers query
     | UDhcp servers _ \<Rightarrow> exchange_first net (Inl (Dns ''no platform resolvers configured'')) servers query)"

section \<open>Framing\<close>

lemma read_framed_frame:
  assumes "12 \<le> length q" and "length q < 65536"
  shows "read_framed \<lparr>io_in = u16_be (word_of_nat (length q)) @ q @ rest, io_out = out\<rparr> =
    (Inr q, \<lparr>io_in = rest, io_out = out\<rparr>)"
proof -
  have "unat (u16_from (u16_be (word_of_nat (length q)) ! 0) (u16_be (word_of_nat (length q)) ! 1)) = length q"
    using assms(2) by (simp add: be_bytes_2 u16_from_split unat_of_nat_u16)
  then show ?thesis
    using assms by (simp add: read_framed_def io_bind_def io_dns_def read_exact_def Let_def)
qed

lemma read_framed_length: "fst (read_framed s) = Inr r \<Longrightarrow> 12 \<le> length r"
  by (auto simp: read_framed_def io_bind_def io_dns_def read_exact_def io_fail_def Let_def
    split: prod.splits sum.splits if_splits)

section \<open>Chunked bodies\<close>

definition chunk_bytes :: "bytes \<Rightarrow> bytes" where
  "chunk_bytes c = as_bytes (show_radix 16 (length c)) @ [0x0D, 0x0A] @ c @ [0x0D, 0x0A]"

lemma hex_digit_props:
  assumes "is_radix_digit 16 c"
  shows "is_ascii c" "c \<noteq> CHR '';''" "\<not> ws_char c" "byte_of c \<noteq> 0x0D"
proof -
  have d: "of_char c < (103 :: nat)" "(48 :: nat) \<le> of_char c" "of_char c \<noteq> (59 :: nat)"
    using assms by (auto simp: is_radix_digit_def digit_val_def is_digit_def is_lower_def is_upper_def split: if_splits)
  then show "is_ascii c" by (simp add: is_ascii_def)
  show "c \<noteq> CHR '';''" using d by auto
  show "\<not> ws_char c" using d by (auto simp: ws_char_def ws_forms_def)
  show "byte_of c \<noteq> 0x0D"
  proof
    assume "byte_of c = 0x0D"
    then have "unat (byte_of c) = 13" by simp
    with d show False using nat_of_char_less_256 [of c] by (simp add: byte_of_def unat_of_nat)
  qed
qed

lemma size_of_line_hex:
  assumes "n < 2 ^ 64"
  shows "size_of_line (as_bytes (show_radix 16 n)) = Inr n"
proof -
  let ?h = "show_radix 16 n"
  have all: "list_all (is_radix_digit 16) ?h" by (rule show_radix_digits) simp_all
  then have "list_all is_ascii ?h" using hex_digit_props(1) by (auto simp: list_all_iff)
  then have u: "from_utf8 (as_bytes ?h) = Some ?h" using utf8_valid_ascii by (simp add: from_utf8_def)
  have "CHR '';'' \<notin> set ?h" using all hex_digit_props(2) by (auto simp: list_all_iff)
  then have s: "split_on CHR '';'' ?h = [?h]" by (rule split_on_absent)
  have "trim ?h = ?h"
    using all hex_digit_props(3) show_radix_not_Nil [of 16 n]
    by (intro trim_no_ws) (auto simp: list_all_iff)
  with u s assms show ?thesis by (simp add: size_of_line_def ok_or_def parse_radix_show)
qed

lemma find_crlf_behind_hex:
  "find_sub [0x0D, 0x0A] (as_bytes (show_radix 16 n) @ [0x0D, 0x0A] @ rest) = Some (length (show_radix 16 n))"
proof -
  have all: "list_all (is_radix_digit 16) (show_radix 16 n)" by (rule show_radix_digits) simp_all
  then have "0x0D \<notin> set (as_bytes (show_radix 16 n))"
    using hex_digit_props(4) by (fastforce simp: list_all_iff as_bytes_def)
  then show ?thesis using find_sub_first [of "0x0D" "as_bytes (show_radix 16 n)" "[0x0A]" rest] by simp
qed

lemma dechunk_step:
  assumes "c \<noteq> []" and "length c < 2 ^ 64"
  shows "dechunk_loop out (chunk_bytes c @ rest) = dechunk_loop (out @ c) rest"
proof -
  have "find_sub [0x0D, 0x0A] (chunk_bytes c @ rest) = Some (length (show_radix 16 (length c)))"
    using find_crlf_behind_hex [of "length c" "c @ [0x0D, 0x0A] @ rest"] by (simp add: chunk_bytes_def)
  moreover have "take (length (show_radix 16 (length c))) (chunk_bytes c @ rest) = as_bytes (show_radix 16 (length c))"
    by (simp add: chunk_bytes_def)
  moreover have "drop (length (show_radix 16 (length c)) + 2) (chunk_bytes c @ rest) = c @ [0x0D, 0x0A] @ rest"
    by (simp add: chunk_bytes_def)
  ultimately show ?thesis
    using assms by (simp add: dechunk_loop.simps [of out] size_of_line_hex Let_def)
qed

lemma dechunk_end: "dechunk_loop out (as_bytes ''0'' @ [0x0D, 0x0A] @ rest) = Inr out"
proof -
  have z: "show_radix 16 0 = ''0''" by (simp add: show_radix.simps digit_char_0)
  have "find_sub [0x0D, 0x0A] (as_bytes ''0'' @ [0x0D, 0x0A] @ rest) = Some 1"
    using find_crlf_behind_hex [of 0 rest] by (simp add: z)
  moreover have "size_of_line (as_bytes ''0'') = Inr 0" using size_of_line_hex [of 0] by (simp add: z)
  ultimately show ?thesis by (simp add: dechunk_loop.simps [of out])
qed

lemma dechunk_loop_chunks:
  "list_all (\<lambda>c. c \<noteq> [] \<and> length c < 2 ^ 64) cs \<Longrightarrow>
   dechunk_loop out (concat (map chunk_bytes cs) @ as_bytes ''0'' @ [0x0D, 0x0A] @ rest) = Inr (out @ concat cs)"
proof (induction cs arbitrary: out)
  case Nil
  show ?case using dechunk_end [of out rest] by simp
next
  case (Cons c cs)
  then show ?case
    using dechunk_step [of c out "concat (map chunk_bytes cs) @ as_bytes ''0'' @ [0x0D, 0x0A] @ rest"] by simp
qed

text \<open>
  The body of a chunked DNS-over-HTTPS response is read back whole: whatever non-empty chunks a
  server cuts it into, decoding their chunked form gives their concatenation, and nothing behind the
  terminating chunk is read.
\<close>

theorem dechunk_roundtrip:
  assumes "list_all (\<lambda>c. c \<noteq> [] \<and> length c < 2 ^ 64) cs"
  shows "dechunk (concat (map chunk_bytes cs) @ as_bytes ''0'' @ [0x0D, 0x0A] @ rest) = Inr (concat cs)"
  using dechunk_loop_chunks [OF assms] by (simp add: dechunk_def)

theorem dechunk_roundtrip_witness:
  "dechunk (concat (map chunk_bytes [[1, 2], [3]]) @ as_bytes ''0'' @ [0x0D, 0x0A] @ [9]) = Inr [1, 2, 3]"
  using dechunk_roundtrip [of "[[1, 2], [3]]" "[9]"] by simp

section \<open>What an exchange returns\<close>

lemma build_response_length: "12 \<le> length (build_response msg code answers)"
proof -
  have step: "length out \<le> length (write_question out q)" for out q
    by (simp add: write_question_def write_name_def)
  have "length out \<le> length (foldl write_question out qs)" for out qs
  proof (induction qs arbitrary: out)
    case (Cons q qs)
    show ?case using step [of out q] Cons.IH [of "write_question out q"] by simp
  qed simp
  from this [of "u16_be (dm_id msg) @ u16_be (response_flags msg code) @
      u16_be (word_of_nat (length (dm_questions msg))) @ u16_be (word_of_nat (length answers)) @ u16_be 0 @ u16_be 0"
      "dm_questions msg"]
  show ?thesis unfolding build_response_def Let_def by (cases "dm_questions msg") (simp_all del: foldl_Cons)
qed

lemma exchange_udp_length: "exchange_udp net addr query = Inr r \<Longrightarrow> 12 \<le> length r"
  by (auto simp: exchange_udp_def rbind_Inr_iff Let_def split: if_splits)

lemma exchange_first_length:
  "exchange_first net failed addrs query = Inr r \<Longrightarrow> (failed = Inr r \<Longrightarrow> 12 \<le> length r) \<Longrightarrow> 12 \<le> length r"
  by (induction addrs arbitrary: failed) (auto split: sum.splits dest: exchange_udp_length)

lemma exchange_length:
  assumes "exchange net u query = Inr r" and "\<nexists>a n p. u = UHttps a n p"
  shows "12 \<le> length r"
proof (cases u)
  case (UTcp a)
  with assms(1) show ?thesis
    by (auto simp: exchange_def exchange_framed_def rbind_Inr_iff dest!: read_framed_length)
next
  case (UTls a n)
  with assms(1) show ?thesis
    by (auto simp: exchange_def exchange_framed_def rbind_Inr_iff dest!: read_framed_length)
next
  case (UDoq a n)
  with assms(1) show ?thesis
    by (auto simp: exchange_def exchange_doq_def rbind_Inr_iff Let_def split: if_splits
      dest!: read_framed_length)
next
  case (UH3 a n p)
  with assms(1) show ?thesis by (auto simp: exchange_def exchange_h3_def rbind_Inr_iff split: if_splits)
qed (use assms build_response_length in
  \<open>auto simp: exchange_def rbind_Inr_iff dest: exchange_udp_length exchange_first_length\<close>)

text \<open>
  Every answer of an upstream other than DNS-over-HTTPS has at least the twelve bytes of a DNS
  header, so the resolver may rewrite its identifier in place.
\<close>

theorem exchange_min_length:
  assumes "exchange net u query = Inr r" and "\<nexists>a n p. u = UHttps a n p"
  shows "12 \<le> length r"
  by (rule exchange_length [OF assms])

theorem exchange_min_length_witness:
  "12 \<le> length (build_response
     \<lparr>dm_id = 7, dm_flags = 0, dm_opcode = 0, dm_rcode = 0, dm_questions = [], dm_answers = [],
      dm_raw = [0, 7, 0, 0, 0, 0, 0, 0, 0, 0, 0, 0]\<rparr> 3 [])"
proof -
  have p: "parse [0, 7, 0, 0, 0, 0, 0, 0, 0, 0, 0, 0] = Inr \<lparr>dm_id = 7, dm_flags = 0, dm_opcode = 0, dm_rcode = 0,
      dm_questions = [], dm_answers = [], dm_raw = [0, 7, 0, 0, 0, 0, 0, 0, 0, 0, 0, 0]\<rparr>"
    by (simp add: parse_def u16_from_def be_word_def Let_def)
  show ?thesis
    by (rule exchange_min_length [of "\<lparr>net_udp = \<lambda>_ _. Inl Rejected, net_tcp = \<lambda>_ _. Inl Rejected,
        net_tls = \<lambda>_ _ _. Inl Rejected, net_quic = \<lambda>_ _ _ _. Inl Rejected\<rparr>" "URcode 3"
        "[0, 7, 0, 0, 0, 0, 0, 0, 0, 0, 0, 0]"])
      (simp_all add: exchange_def p)
qed

section \<open>The grammar reads what it prints\<close>

lemma parse_u16_show: "parse_u16 (show_nat (unat p)) = Some p"
proof -
  have "unat p < 65536" using unsigned_less [of p, where ?'a = nat] by simp
  then show ?thesis by (simp add: parse_u16_def parse_uint_show)
qed

lemma not_in_address:
  assumes "\<not> is_radix_digit 10 c" and "c \<noteq> CHR ''.''"
  shows "c \<notin> set (show_ipv4 w)" and "c \<notin> set (show_nat n)"
  using assms show_ipv4_chars show_radix_digits [of 10 n] by (auto simp: list_all_iff)

lemma not_digits:
  "\<not> is_radix_digit 10 CHR '':''" "\<not> is_radix_digit 10 CHR ''[''" "\<not> is_radix_digit 10 CHR ''#''"
  by (simp_all add: is_radix_digit_def digit_val_def is_digit_def is_lower_def is_upper_def)

lemma parse_host_addr_v4:
  "parse_host_addr pf (show_ipv4 w @ '':'' @ show_nat (unat p)) d = Some (show_ipv4 w, (V4 w, p))"
proof -
  let ?s = "show_ipv4 w @ '':'' @ show_nat (unat p)"
  have "CHR ''['' \<notin> set ?s" using not_in_address [OF not_digits(2)] by simp
  then have "take 1 ?s \<noteq> ''[''" by (metis in_set_takeD list.set_intros(1))
  then have b: "strip_prefix ''['' ?s = None" by (simp add: strip_prefix_def starts_with_def)
  have i: "parse_ip ?s = None"
    using read_ipv4_show [of "'':'' @ show_nat (unat p)" w] not_digits(1) by (simp add: parse_ip_def)
  have "CHR '':'' \<notin> set (rev (show_nat (unat p)))" using not_in_address(2) [OF not_digits(1)] by simp
  then have "rsplit_once CHR '':'' ?s = Some (show_ipv4 w, show_nat (unat p))"
    using split_once_append [of "CHR '':''" "rev (show_nat (unat p))" "rev (show_ipv4 w)"]
    by (simp add: rsplit_once_def)
  moreover have "parse_ip (show_ipv4 w) = Some (V4 w)" using parse_ip_show_v4 [of w] by (simp add: show_ip_def)
  ultimately show ?thesis using b i by (simp add: parse_host_addr_def parse_u16_show resolve_once_def)
qed

lemma parse_upstream_scheme:
  assumes "CHR '':'' \<notin> set scheme" and "CHR ''#'' \<notin> set scheme" and "CHR ''#'' \<notin> set rest"
  shows "split_once CHR ''#'' (scheme @ ''://'' @ rest) = None"
    and "split_once_str ''://'' (scheme @ ''://'' @ rest) = Some (scheme, rest)"
  using assms find_sub_first [of "CHR '':''" scheme "''//''" rest]
  by (simp_all add: split_once_None split_once_str_def)

text \<open>
  A nameserver that is printed as a UDP or TCP upstream with an IPv4 address and its port is read
  back as the same upstream, whatever the platform resolver would say.
\<close>

theorem upstream_text_roundtrip:
  "parse_upstream pf (upstream_text (UUdp (V4 w, p))) = Some (UUdp (V4 w, p)) \<and>
   parse_upstream pf (upstream_text (UTcp (V4 w, p))) = Some (UTcp (V4 w, p))"
proof -
  let ?a = "show_ipv4 w @ '':'' @ show_nat (unat p)"
  have h: "CHR ''#'' \<notin> set ?a" using not_in_address [OF not_digits(3)] by simp
  note u = parse_upstream_scheme [of "''udp''" ?a, OF _ _ h] parse_upstream_scheme [of "''tcp''" ?a, OF _ _ h]
  show ?thesis
    using u parse_host_addr_v4 [of pf w p 53]
    by (simp add: parse_upstream_def upstream_text_def show_socket_addr_def)
qed

end
