(* ===== verification/Group.thy ===== *)
theory Group
  imports Addr Rust_Str Upstream "HOL-Library.Log_Nat"
begin

text \<open>
  Proxy groups and the registry (src/engine/src/outbound.rs, from \<open>Registry\<close> on; the delay test of
  src/engine/src/api.rs): the registry that resolves a name to an outbound, the four group policies, the three
  load-balance strategies with the jump hash in the arithmetic of \<open>f64\<close>, the sticky table, latencies and
  health rounds. The process-random hash, the public-suffix list and the network are parameters. An
  operation that panics or does not return has the value \<open>None\<close>.
\<close>

section \<open>State\<close>

record outbound_cfg =
  oc_name :: string
  oc_udp :: bool
  oc_kind :: string

datatype lb_strategy = ConsistentHashing | RoundRobin | StickySessions

datatype group_policy = GSelect | GUrlTest | GFallback | GLoadBalance

record group_config =
  gc_name :: string
  gc_members :: "string list"
  gc_policy :: group_policy
  gc_url :: "string option"
  gc_interval :: nat
  gc_tolerance :: u16
  gc_lb_strategy :: lb_strategy
  gc_lb_hash_key_in_user :: bool

record sticky_cache =
  sc_map :: "(u64, nat \<times> instant) hash_map"
  sc_order :: "u64 list"

record group_state =
  gs_cfg :: group_config
  gs_selected :: "nat option"
  gs_latencies :: "(string, u32 option) hash_map"
  gs_sticky :: sticky_cache

record registry =
  rg_outbounds :: "outbound_cfg list"
  rg_index :: "(string, nat) hash_map"
  rg_groups :: "group_state list"
  rg_group_index :: "(string, nat) hash_map"
  rg_lb_counter :: u64

definition lb_strategy_parse :: "string \<Rightarrow> lb_strategy result" where
  "lb_strategy_parse s =
    (if s = [] \<or> s = ''consistent-hashing'' then Inr ConsistentHashing
     else if s = ''round-robin'' then Inr RoundRobin
     else if s = ''sticky-sessions'' then Inr StickySessions
     else Inl (Config ''unsupported strategy''))"

section \<open>The sticky table\<close>

definition STICKY_TTL :: instant where "STICKY_TTL = secs 600"
definition STICKY_CAP :: nat where "STICKY_CAP = 1000"

definition sticky_empty :: sticky_cache where
  "sticky_empty = \<lparr>sc_map = hm_empty, sc_order = []\<rparr>"

definition sticky_get :: "instant \<Rightarrow> sticky_cache \<Rightarrow> u64 \<Rightarrow> nat \<Rightarrow> nat option \<times> sticky_cache" where
  "sticky_get now sc key members_len =
    (case hm_get (sc_map sc) key of
       None \<Rightarrow> (None, sc)
     | Some (idx, since) \<Rightarrow>
         if now - since < STICKY_TTL \<and> idx < members_len
         then (Some idx, sc\<lparr>sc_order := filter (\<lambda>k. k \<noteq> key) (sc_order sc) @ [key]\<rparr>)
         else (None, sc\<lparr>sc_map := hm_remove key (sc_map sc), sc_order := filter (\<lambda>k. k \<noteq> key) (sc_order sc)\<rparr>))"

definition sticky_put :: "instant \<Rightarrow> sticky_cache \<Rightarrow> u64 \<Rightarrow> nat \<Rightarrow> sticky_cache" where
  "sticky_put now sc key idx =
    (let sc = (if STICKY_CAP \<le> length (sc_order sc) then
                 (case sc_order sc of
                    [] \<Rightarrow> sc
                  | oldest # rest \<Rightarrow> sc\<lparr>sc_map := hm_remove oldest (sc_map sc), sc_order := rest\<rparr>)
               else sc)
     in sc\<lparr>sc_order := filter (\<lambda>k. k \<noteq> key) (sc_order sc) @ [key],
           sc_map := hm_insert key (idx, now) (sc_map sc)\<rparr>)"

section \<open>Keys\<close>

record lb_key =
  lk_target :: net_addr
  lk_src_ip :: "ip_addr option"
  lk_in_user :: "string option"

text \<open>
  \<open>le_hash\<close> is the seeded hash, \<open>le_psl\<close> the registrable domain of a name, \<open>le_nanos i\<close> the \<open>i\<close>-th reading
  of the wall clock during the operation, \<open>le_now\<close> the instant.
\<close>

record lb_env =
  le_hash :: "string \<Rightarrow> u64"
  le_psl :: "string \<Rightarrow> string option"
  le_nanos :: "nat \<Rightarrow> u64"
  le_now :: instant

definition consistent_key :: "lb_env \<Rightarrow> lb_key option \<Rightarrow> string" where
  "consistent_key env lb =
    (case lb of
       None \<Rightarrow> []
     | Some k \<Rightarrow>
         (case na_host (lk_target k) of
            Ip ip \<Rightarrow> show_ip ip
          | Domain d \<Rightarrow> (case le_psl env d of Some s \<Rightarrow> s | None \<Rightarrow> [])))"

definition group_key :: "lb_env \<Rightarrow> lb_key option \<Rightarrow> group_config \<Rightarrow> bool \<Rightarrow> string" where
  "group_key env lb cfg with_src =
    (case (if gc_lb_hash_key_in_user cfg then Option.bind lb lk_in_user else None) of
       Some user \<Rightarrow> (if user \<noteq> [] then user else
         if with_src then (case Option.bind lb lk_src_ip of Some ip \<Rightarrow> show_ip ip | None \<Rightarrow> []) @ consistent_key env lb
         else consistent_key env lb)
     | None \<Rightarrow>
         if with_src then (case Option.bind lb lk_src_ip of Some ip \<Rightarrow> show_ip ip | None \<Rightarrow> []) @ consistent_key env lb
         else consistent_key env lb)"

section \<open>The jump hash\<close>

text \<open>
  Rounding to the nearest double, ties to even, for values from one on: \<open>53\<close> significant bits. The
  casts from integers round as well; the cast back truncates and saturates.
\<close>

definition round_half_even :: "rat \<Rightarrow> int" where
  "round_half_even x =
    (let f = \<lfloor>x\<rfloor>; d = x - of_int f in
     if d < 1 / 2 then f else if 1 / 2 < d then f + 1 else if even f then f else f + 1)"

definition f64_round :: "rat \<Rightarrow> rat" where
  "f64_round x =
    (let p = floorlog 2 (nat \<lfloor>x\<rfloor>); s = 2 ^ 53 / 2 ^ p in of_int (round_half_even (x * s)) / s)"

definition f64_of_int :: "int \<Rightarrow> rat" where
  "f64_of_int n = f64_round (of_int n)"

definition f64_to_i64 :: "rat \<Rightarrow> int" where
  "f64_to_i64 x = min \<lfloor>x\<rfloor> (2 ^ 63 - 1)"

definition jump_next :: "u64 \<Rightarrow> u64" where
  "jump_next key = key * 2862933555777941757 + 1"

definition jump_to :: "int \<Rightarrow> u64 \<Rightarrow> int" where
  "jump_to b key =
    f64_to_i64 (f64_round (f64_of_int (b + 1) * f64_round (2147483648 / f64_of_int (uint (drop_bit 33 key) + 1))))"

text \<open>\<open>None\<close>: the fuel was not enough. \<open>jump_hash_returns\<close> shows that the bound of \<open>jump_hash\<close> always is.\<close>

fun jump_loop :: "nat \<Rightarrow> u64 \<Rightarrow> int \<Rightarrow> int \<Rightarrow> int \<Rightarrow> int option" where
  "jump_loop 0 key b j buckets = (if j < buckets then None else Some b)"
| "jump_loop (Suc n) key b j buckets =
    (if j < buckets then jump_loop n (jump_next key) j (jump_to j (jump_next key)) buckets else Some b)"

definition jump_hash :: "u64 \<Rightarrow> int \<Rightarrow> int option" where
  "jump_hash key buckets = jump_loop (nat buckets) key 0 0 buckets"

lemma round_half_even_ge: "of_int n \<le> x \<Longrightarrow> n \<le> round_half_even x"
proof -
  assume "of_int n \<le> x"
  then have "n \<le> \<lfloor>x\<rfloor>" by (simp add: le_floor_iff)
  then show ?thesis by (auto simp: round_half_even_def Let_def)
qed

lemma round_half_even_int: "round_half_even (of_int n) = n"
  by (simp add: round_half_even_def)

lemma pow_ratio: "p \<le> k \<Longrightarrow> (2 :: rat) ^ k / 2 ^ p = of_int (2 ^ (k - p))"
  using power_diff [of "2 :: rat" p k] by (simp only: of_int_power of_int_numeral)

lemma f64_round_ge:
  assumes "of_int k \<le> x" and "0 < k" and "k \<le> 2 ^ 53"
  shows "of_int k \<le> f64_round x"
proof -
  define p where "p = floorlog 2 (nat \<lfloor>x\<rfloor>)"
  define s where "s = (2 ^ 53 / 2 ^ p :: rat)"
  have s: "0 < s" by (simp add: s_def)
  have r: "f64_round x = of_int (round_half_even (x * s)) / s" unfolding f64_round_def p_def s_def Let_def ..
  show ?thesis
  proof (cases "p \<le> 53")
    case True
    then have "s = of_int (2 ^ (53 - p))" unfolding s_def by (rule pow_ratio)
    then have "of_int (k * 2 ^ (53 - p)) \<le> x * s" using assms(1) s by simp
    then have "k * 2 ^ (53 - p) \<le> round_half_even (x * s)" by (rule round_half_even_ge)
    then have "of_int (k * 2 ^ (53 - p)) \<le> (of_int (round_half_even (x * s)) :: rat)" by (simp only: of_int_le_iff)
    then have "of_int k * s \<le> of_int (round_half_even (x * s))" using \<open>s = of_int (2 ^ (53 - p))\<close> by simp
    then show ?thesis using s by (simp add: r pos_le_divide_eq)
  next
    case False
    have "k \<le> \<lfloor>x\<rfloor>" using assms(1) by (simp add: le_floor_iff)
    then have pos: "0 < nat \<lfloor>x\<rfloor>" using assms(2) by linarith
    then have "2 ^ (p - 1) \<le> nat \<lfloor>x\<rfloor>" using floorlog_bounds [where b = 2 and x = "nat \<lfloor>x\<rfloor>"] by (simp add: p_def)
    then have "(2 :: rat) ^ (p - 1) \<le> x" by (simp add: le_nat_iff le_floor_iff)
    moreover have "(2 :: rat) ^ (p - 1) * s = 2 ^ 52" using False by (simp add: s_def power_diff field_simps flip: power_Suc)
    ultimately have "of_int (2 ^ 52) \<le> x * s" using s mult_right_mono [of "2 ^ (p - 1)" x s] by simp
    then have "2 ^ 52 \<le> round_half_even (x * s)" by (rule round_half_even_ge)
    then have "(2 :: rat) ^ 52 \<le> of_int (round_half_even (x * s))" by (metis of_int_le_iff of_int_power of_int_numeral)
    then have "2 ^ (p - 1) * s \<le> of_int (round_half_even (x * s))"
      using \<open>(2 :: rat) ^ (p - 1) * s = 2 ^ 52\<close> by simp
    then have "2 ^ (p - 1) \<le> f64_round x" using s by (simp add: r pos_le_divide_eq)
    moreover have "(of_int k :: rat) \<le> of_int (2 ^ 53)" using assms(3) by (simp only: of_int_le_iff)
    moreover have "(2 :: rat) ^ 53 \<le> 2 ^ (p - 1)" using False by (intro power_increasing) auto
    ultimately show ?thesis by simp
  qed
qed

lemma f64_round_int:
  assumes "0 < n" and "n \<le> 2 ^ 53"
  shows "f64_of_int n = of_int n"
proof -
  define p where "p = floorlog 2 (nat n)"
  define s where "s = (2 ^ 53 / 2 ^ p :: rat)"
  have r: "f64_of_int n = of_int (round_half_even (of_int n * s)) / s"
    unfolding f64_of_int_def f64_round_def p_def s_def Let_def by simp
  have b: "2 ^ (p - 1) \<le> nat n" "nat n < 2 ^ p" "0 < p"
    using floorlog_bounds [where b = 2 and x = "nat n"] assms(1) by (simp_all add: p_def) (simp add: floorlog_def)
  show ?thesis
  proof (cases "p \<le> 53")
    case True
    then have "s = of_int (2 ^ (53 - p))" unfolding s_def by (rule pow_ratio)
    then have "of_int n * s = of_int (n * 2 ^ (53 - p))" by simp
    then have "f64_of_int n = of_int (n * 2 ^ (53 - p)) / s" unfolding r by (simp only: round_half_even_int)
    then show ?thesis using \<open>s = of_int (2 ^ (53 - p))\<close> by simp
  next
    case False
    have "p - 1 \<le> 53"
    proof (rule ccontr)
      assume "\<not> p - 1 \<le> 53"
      then have "(2 :: nat) ^ 53 < 2 ^ (p - 1)" by (intro power_strict_increasing) auto
      moreover have "nat n \<le> 2 ^ 53" using assms(2) by (simp add: nat_le_iff)
      ultimately show False using b(1) by linarith
    qed
    then have p: "p = 54" using False by linarith
    then have "n = 2 ^ 53" using b(1) assms(2) by (simp add: le_nat_iff)
    then have "of_int n * s = of_int (2 ^ 52)" using p by (simp add: s_def)
    then have "f64_of_int n = of_int (2 ^ 52) / s" unfolding r by (simp only: round_half_even_int)
    then show ?thesis using p \<open>n = 2 ^ 53\<close> by (simp add: s_def)
  qed
qed

text \<open>Every jump goes forward: the loop visits strictly increasing buckets.\<close>

lemma jump_to_forward:
  assumes "0 \<le> b" and "b < 2 ^ 53"
  shows "b < jump_to b key"
proof -
  let ?n = "uint (drop_bit 33 key) + 1"
  have k: "uint (drop_bit 33 key) < 2 ^ 31"
  proof -
    have "uint (drop_bit 33 key) = uint key div 2 ^ 33" by (simp add: drop_bit_eq_div uint_div)
    moreover have "uint key < 2 ^ 64" using uint_bounded [of key] by simp
    ultimately show ?thesis using div_pos_pos_trivial zdiv_mono1 [of "uint key" "2 ^ 64 - 1" "2 ^ 33"] by simp
  qed
  have n: "0 < ?n" "?n \<le> 2 ^ 31" using k by (simp_all add: add_nonneg_pos)
  then have "f64_of_int ?n = of_int ?n" by (intro f64_round_int) auto
  moreover have "(of_int ?n :: rat) \<le> 2 ^ 31" "(0 :: rat) < of_int ?n"
    using n by (metis of_int_le_iff of_int_numeral of_int_power, simp only: of_int_0_less_iff)
  ultimately have "of_int 1 \<le> 2147483648 / f64_of_int ?n" by (simp add: pos_le_divide_eq)
  then have q: "1 \<le> f64_round (2147483648 / f64_of_int ?n)" using f64_round_ge [of 1] by simp
  have "f64_of_int (b + 1) = of_int (b + 1)" using assms by (intro f64_round_int) auto
  then have "of_int (b + 1) \<le> f64_of_int (b + 1) * f64_round (2147483648 / f64_of_int ?n)"
    using q assms(1) mult_left_mono [of 1 "f64_round (2147483648 / f64_of_int ?n)" "of_int (b + 1)"] by simp
  then have "of_int (b + 1) \<le> f64_round (f64_of_int (b + 1) * f64_round (2147483648 / f64_of_int ?n))"
    using assms by (intro f64_round_ge) auto
  then have "b + 1 \<le> \<lfloor>f64_round (f64_of_int (b + 1) * f64_round (2147483648 / f64_of_int ?n))\<rfloor>"
    by (simp only: le_floor_iff)
  then show ?thesis using assms(2) unfolding jump_to_def f64_to_i64_def by simp
qed

lemma jump_loop_returns:
  assumes "nat (buckets - j) \<le> n" and "0 \<le> j" and "0 \<le> b" and "b < buckets" and "buckets \<le> 2 ^ 53"
  shows "\<exists>i. jump_loop n key b j buckets = Some i \<and> 0 \<le> i \<and> i < buckets"
  using assms
proof (induction n arbitrary: key b j)
  case (Suc n)
  show ?case
  proof (cases "j < buckets")
    case True
    have f: "j < jump_to j (jump_next key)" using Suc.prems True by (intro jump_to_forward) auto
    show ?thesis using True f Suc.prems by (simp, intro Suc.IH) auto
  qed (use Suc.prems in auto)
qed auto

lemma jump_hash_bucket:
  "0 < buckets \<Longrightarrow> buckets \<le> 2 ^ 53 \<Longrightarrow> \<exists>i. jump_hash key buckets = Some i \<and> 0 \<le> i \<and> i < buckets"
  unfolding jump_hash_def by (intro jump_loop_returns) auto

text \<open>
  The jump hash returns a bucket of the range asked for, in at most as many rounds as there are buckets,
  in the double precision arithmetic of the code.
\<close>

theorem jump_hash_in_range:
  assumes "0 < buckets" and "buckets \<le> 2 ^ 53"
  shows "\<exists>i. jump_hash key buckets = Some i \<and> 0 \<le> i \<and> i < buckets"
  using assms by (rule jump_hash_bucket)

theorem jump_hash_in_range_witness: "\<exists>i. jump_hash 42 3 = Some i \<and> 0 \<le> i \<and> i < 3"
  by (rule jump_hash_in_range) simp_all

text \<open>With one more bucket the loop goes on from where it stopped, or stops in the new bucket.\<close>

lemma jump_loop_grow:
  assumes "nat (buckets - j) \<le> n" and "0 \<le> j" and "0 \<le> b" and "b < buckets" and "buckets < 2 ^ 53"
    and "jump_loop n key b j buckets = Some i"
  shows "jump_loop (Suc n) key b j (buckets + 1) = Some i \<or> jump_loop (Suc n) key b j (buckets + 1) = Some buckets"
  using assms
proof (induction n arbitrary: key b j)
  case 0
  then have j: "buckets \<le> j" "i = b" by auto
  show ?case
  proof (cases "j = buckets")
    case True
    have "buckets < jump_to buckets (jump_next key)" using 0 by (intro jump_to_forward) auto
    then show ?thesis using True by simp
  qed (use j in auto)
next
  case (Suc n)
  show ?case
  proof (cases "j < buckets")
    case True
    have "j < jump_to j (jump_next key)" using Suc.prems True by (intro jump_to_forward) auto
    then have "jump_loop (Suc n) (jump_next key) j (jump_to j (jump_next key)) (buckets + 1) = Some i \<or>
        jump_loop (Suc n) (jump_next key) j (jump_to j (jump_next key)) (buckets + 1) = Some buckets"
      using True Suc.prems by (intro Suc.IH) auto
    then show ?thesis using True by (subst (1 2) jump_loop.simps(2)) (simp del: jump_loop.simps)
  next
    case False
    then have "i = b" using Suc.prems by simp
    show ?thesis
    proof (cases "j = buckets")
      case True
      have "buckets < jump_to buckets (jump_next key)" using Suc.prems by (intro jump_to_forward) auto
      then show ?thesis using True by simp
    qed (use False \<open>i = b\<close> in auto)
  qed
qed

text \<open>
  The jump hash is consistent: adding a member to a group moves a key to the new member or leaves it where
  it was.
\<close>

theorem jump_hash_consistent:
  assumes "0 < buckets" and "buckets < 2 ^ 53" and "jump_hash key buckets = Some i"
  shows "jump_hash key (buckets + 1) \<in> {Some i, Some buckets}"
proof -
  have n: "nat (buckets + 1) = Suc (nat buckets)" using assms(1) by simp
  show ?thesis
    using jump_loop_grow [of buckets 0 "nat buckets" 0 key i] assms by (simp add: jump_hash_def n del: jump_loop.simps)
qed

section \<open>The registry\<close>

fun index_outbounds :: "outbound_cfg list \<Rightarrow> (string, nat) hash_map \<Rightarrow> nat \<Rightarrow> (string, nat) hash_map result" where
  "index_outbounds [] index n = Inr index"
| "index_outbounds (c # cs) index n =
    (if oc_name c = [] then Inl (Config ''outbound with empty name'')
     else if hm_contains index (oc_name c) then Inl (Config ''duplicate outbound'')
     else index_outbounds cs (hm_insert (oc_name c) n index) (n + 1))"

fun index_groups :: "(string, nat) hash_map \<Rightarrow> group_config list \<Rightarrow> (string, nat) hash_map \<Rightarrow> nat \<Rightarrow>
    (string, nat) hash_map result" where
  "index_groups index [] gi n = Inr gi"
| "index_groups index (c # cs) gi n =
    (if hm_contains index (gc_name c) \<or> hm_contains gi (gc_name c) then Inl (Config ''duplicate group'')
     else if gc_members c = [] then Inl (Config ''group has no members'')
     else index_groups index cs (hm_insert (gc_name c) n gi) (n + 1))"

definition group_new :: "group_config \<Rightarrow> group_state" where
  "group_new cfg = \<lparr>gs_cfg = cfg, gs_selected = None, gs_latencies = hm_empty, gs_sticky = sticky_empty\<rparr>"

definition registry_build :: "outbound_cfg list \<Rightarrow> group_config list \<Rightarrow> registry result" where
  "registry_build outbounds groups =
    rbind (index_outbounds outbounds hm_empty 0) (\<lambda>index.
    rbind (index_groups index groups hm_empty 0) (\<lambda>gi.
      if \<not> list_all (\<lambda>g. list_all (\<lambda>m. hm_contains index m \<or> hm_contains gi m) (gc_members g)) groups
      then Inl (Config ''group references unknown proxy'')
      else Inr \<lparr>rg_outbounds = outbounds, rg_index = index, rg_groups = map group_new groups,
                rg_group_index = gi, rg_lb_counter = 0\<rparr>))"

definition leaf_names :: "registry \<Rightarrow> string list" where
  "leaf_names r = map oc_name (rg_outbounds r)"

definition group_names :: "registry \<Rightarrow> string list" where
  "group_names r = map (\<lambda>g. gc_name (gs_cfg g)) (rg_groups r)"

definition registry_group :: "registry \<Rightarrow> string \<Rightarrow> group_state option" where
  "registry_group r name = map_option (\<lambda>i. rg_groups r ! i) (hm_get (rg_group_index r) name)"

section \<open>Policies\<close>

definition pick_select :: "group_state \<Rightarrow> string result" where
  "pick_select g =
    (let idx = (case gs_selected g of Some i \<Rightarrow> i | None \<Rightarrow> 0) in
     if idx < length (gc_members (gs_cfg g)) then Inr (gc_members (gs_cfg g) ! idx)
     else Inl (Config ''selection out of range''))"

fun best_latency :: "u32 \<Rightarrow> (string, u32 option) hash_map \<Rightarrow> (string \<times> u32) option \<Rightarrow> string list \<Rightarrow>
    (string \<times> u32) option" where
  "best_latency tol lats best [] = best"
| "best_latency tol lats best (m # ms) =
    (case hm_get lats m of
       Some (Some lat) \<Rightarrow>
         (case best of
            None \<Rightarrow> best_latency tol lats (Some (m, lat)) ms
          | Some (_, bl) \<Rightarrow> if lat + tol < bl then best_latency tol lats (Some (m, lat)) ms
                            else best_latency tol lats best ms)
     | _ \<Rightarrow> best_latency tol lats best ms)"

text \<open>The first member of an empty group is an index out of range.\<close>

definition first_member :: "group_config \<Rightarrow> string result option" where
  "first_member cfg = (case gc_members cfg of [] \<Rightarrow> None | m # _ \<Rightarrow> Some (Inr m))"

definition pick_url_test :: "group_state \<Rightarrow> string result option" where
  "pick_url_test g =
    (case best_latency (ucast (gc_tolerance (gs_cfg g))) (gs_latencies g) None (gc_members (gs_cfg g)) of
       Some (m, _) \<Rightarrow> Some (Inr m)
     | None \<Rightarrow> first_member (gs_cfg g))"

definition pick_fallback :: "group_state \<Rightarrow> string result option" where
  "pick_fallback g =
    (case find (\<lambda>m. case hm_get (gs_latencies g) m of Some (Some _) \<Rightarrow> True | _ \<Rightarrow> False) (gc_members (gs_cfg g)) of
       Some m \<Rightarrow> Some (Inr m)
     | None \<Rightarrow> first_member (gs_cfg g))"

definition lb_alive :: "group_state \<Rightarrow> string \<Rightarrow> bool" where
  "lb_alive g m = (hm_get (gs_latencies g) m \<noteq> Some None)"

definition alive_at :: "group_state \<Rightarrow> int \<Rightarrow> string option" where
  "alive_at g i =
    (let ms = gc_members (gs_cfg g) in
     if 0 \<le> i \<and> nat i < length ms \<and> lb_alive g (ms ! nat i) then Some (ms ! nat i) else None)"

definition pick_round_robin :: "u64 \<Rightarrow> group_state \<Rightarrow> string result option" where
  "pick_round_robin tick g =
    (let eligible = filter (lb_alive g) (gc_members (gs_cfg g));
         pool = (if eligible = [] then gc_members (gs_cfg g) else eligible);
         idx = unat (tick mod word_of_nat (max (length pool) 1))
     in if idx < length pool then Some (Inr (pool ! idx)) else None)"

fun consistent_loop :: "nat \<Rightarrow> group_state \<Rightarrow> u64 \<Rightarrow> string option option" where
  "consistent_loop 0 g k = Some None"
| "consistent_loop (Suc n) g k =
    (case jump_hash k (int (max (length (gc_members (gs_cfg g))) 1)) of
       None \<Rightarrow> None
     | Some i \<Rightarrow> (case alive_at g i of Some m \<Rightarrow> Some (Some m) | None \<Rightarrow> consistent_loop n g (k + 1)))"

definition pick_consistent :: "lb_env \<Rightarrow> lb_key option \<Rightarrow> group_state \<Rightarrow> string result option" where
  "pick_consistent env lb g =
    (case consistent_loop 5 g (le_hash env (group_key env lb (gs_cfg g) False)) of
       None \<Rightarrow> None
     | Some (Some m) \<Rightarrow> Some (Inr m)
     | Some None \<Rightarrow>
         (case find (lb_alive g) (gc_members (gs_cfg g)) of
            Some m \<Rightarrow> Some (Inr m)
          | None \<Rightarrow> first_member (gs_cfg g)))"

text \<open>\<open>n\<close> rounds are left; \<open>t\<close> counts the readings of the wall clock.\<close>

fun sticky_loop :: "nat \<Rightarrow> nat \<Rightarrow> lb_env \<Rightarrow> u64 \<Rightarrow> group_state \<Rightarrow> int \<Rightarrow> (string \<times> int) option option" where
  "sticky_loop 0 t env key g idx = Some None"
| "sticky_loop (Suc n) t env key g idx =
    (case alive_at g idx of
       Some m \<Rightarrow> Some (Some (m, idx))
     | None \<Rightarrow>
         (case jump_hash (key + le_nanos env t) (int (max (length (gc_members (gs_cfg g))) 1)) of
            None \<Rightarrow> None
          | Some i \<Rightarrow> sticky_loop n (t + 1) env key g i))"

definition pick_sticky :: "lb_env \<Rightarrow> lb_key option \<Rightarrow> group_state \<Rightarrow> string result option \<times> group_state" where
  "pick_sticky env lb g =
    (let key = le_hash env (group_key env lb (gs_cfg g) True);
         len = max (length (gc_members (gs_cfg g))) 1
     in
     case sticky_get (le_now env) (gs_sticky g) key len of
       (cached, sc) \<Rightarrow>
         let g = g\<lparr>gs_sticky := sc\<rparr> in
         case (case cached of Some i \<Rightarrow> Some (int i) | None \<Rightarrow> jump_hash (key + le_nanos env 0) (int len)) of
           None \<Rightarrow> (None, g)
         | Some idx \<Rightarrow>
             (case sticky_loop 4 1 env key g idx of
                None \<Rightarrow> (None, g)
              | Some (Some (m, i)) \<Rightarrow>
                  (Some (Inr m),
                   if map_option int cached \<noteq> Some i then g\<lparr>gs_sticky := sticky_put (le_now env) sc key (nat i)\<rparr> else g)
              | Some None \<Rightarrow>
                  (first_member (gs_cfg g), g\<lparr>gs_sticky := sticky_put (le_now env) sc key 0\<rparr>)))"

text \<open>The member of the group at position \<open>gi\<close>.\<close>

definition pick_member :: "lb_env \<Rightarrow> lb_key option \<Rightarrow> registry \<Rightarrow> nat \<Rightarrow> string result option \<times> registry" where
  "pick_member env lb r gi =
    (let g = rg_groups r ! gi in
     case gc_policy (gs_cfg g) of
       GSelect \<Rightarrow> (Some (pick_select g), r)
     | GUrlTest \<Rightarrow> (pick_url_test g, r)
     | GFallback \<Rightarrow> (pick_fallback g, r)
     | GLoadBalance \<Rightarrow>
         (case gc_lb_strategy (gs_cfg g) of
            RoundRobin \<Rightarrow> (pick_round_robin (rg_lb_counter r) g, r\<lparr>rg_lb_counter := rg_lb_counter r + 1\<rparr>)
          | ConsistentHashing \<Rightarrow> (pick_consistent env lb g, r)
          | StickySessions \<Rightarrow>
              (case pick_sticky env lb g of (m, g) \<Rightarrow> (m, r\<lparr>rg_groups := list_update (rg_groups r) gi g\<rparr>))))"

fun resolve_loop :: "nat \<Rightarrow> lb_env \<Rightarrow> lb_key option \<Rightarrow> registry \<Rightarrow> string \<Rightarrow>
    outbound_cfg result option \<times> registry" where
  "resolve_loop 0 env lb r current = (Some (Inl (Config ''proxy group cycle'')), r)"
| "resolve_loop (Suc n) env lb r current =
    (case hm_get (rg_index r) current of
       Some i \<Rightarrow> (Some (Inr (rg_outbounds r ! i)), r)
     | None \<Rightarrow>
         (case hm_get (rg_group_index r) current of
            None \<Rightarrow> (Some (Inl (Config ''unknown proxy'')), r)
          | Some gi \<Rightarrow>
              (case pick_member env lb r gi of
                 (None, r) \<Rightarrow> (None, r)
               | (Some (Inl e), r) \<Rightarrow> (Some (Inl e), r)
               | (Some (Inr m), r) \<Rightarrow> resolve_loop n env lb r m)))"

definition resolve_with :: "lb_env \<Rightarrow> lb_key option \<Rightarrow> registry \<Rightarrow> string \<Rightarrow> outbound_cfg result option \<times> registry" where
  "resolve_with env lb r name = resolve_loop 16 env lb r name"

definition registry_resolve :: "lb_env \<Rightarrow> registry \<Rightarrow> string \<Rightarrow> outbound_cfg result option \<times> registry" where
  "registry_resolve env r name = resolve_with env None r name"

section \<open>Selection and health\<close>

fun position_of :: "'a \<Rightarrow> 'a list \<Rightarrow> nat option" where
  "position_of x [] = None"
| "position_of x (y # ys) = (if y = x then Some 0 else map_option Suc (position_of x ys))"

definition set_selected :: "registry \<Rightarrow> string \<Rightarrow> string \<Rightarrow> unit result \<times> registry" where
  "set_selected r gname mname =
    (case hm_get (rg_group_index r) gname of
       None \<Rightarrow> (Inl (Config ''unknown group''), r)
     | Some gi \<Rightarrow>
         let g = rg_groups r ! gi in
         case position_of mname (gc_members (gs_cfg g)) of
           None \<Rightarrow> (Inl (Config ''group has no member''), r)
         | Some idx \<Rightarrow>
             if gc_policy (gs_cfg g) \<noteq> GSelect then (Inl (Protocol ''group is not manually selectable''), r)
             else (Inr (), r\<lparr>rg_groups := list_update (rg_groups r) gi (g\<lparr>gs_selected := Some idx\<rparr>)\<rparr>))"

definition record_latency :: "registry \<Rightarrow> string \<Rightarrow> u32 option \<Rightarrow> registry" where
  "record_latency r name latency =
    r\<lparr>rg_groups := map (\<lambda>g. if name \<in> set (gc_members (gs_cfg g))
        then g\<lparr>gs_latencies := hm_insert name latency (gs_latencies g)\<rparr> else g) (rg_groups r)\<rparr>"

definition latency_snapshot :: "registry \<Rightarrow> (string, u32 option) hash_map" where
  "latency_snapshot r =
    foldl (\<lambda>out g. foldl (\<lambda>out (k, v). hm_insert k v out) out (gs_latencies g)) hm_empty (rg_groups r)"

type_synonym expected_status = "(u16 \<times> u16) list"

definition status_matches :: "expected_status \<Rightarrow> u16 \<Rightarrow> bool" where
  "status_matches ranges status = (ranges = [] \<or> list_ex (\<lambda>(lo, hi). lo \<le> status \<and> status \<le> hi) ranges)"

definition parse_probe_url :: "string \<Rightarrow> (string \<times> u16 \<times> string) result" where
  "parse_probe_url url =
    rbind (ok_or (strip_prefix ''http://'' url) (Config ''probe URL must be http'')) (\<lambda>rest.
      let (hostport, path) = (case split_once CHR ''/'' rest of Some (hp, p) \<Rightarrow> (hp, ''/'' @ p) | None \<Rightarrow> (rest, ''/''));
          (host, port) = (case rsplit_once CHR '':'' hostport of
             Some (h, p) \<Rightarrow> (h, case parse_u16 p of Some n \<Rightarrow> n | None \<Rightarrow> 80)
           | None \<Rightarrow> (hostport, 80))
      in Inr (host, port, path))"

definition probe_request :: "string \<Rightarrow> string \<Rightarrow> bytes" where
  "probe_request path host =
    (let crlf = [CHR 0x0D, CHR 0x0A] in
     as_bytes (''GET '' @ path @ '' HTTP/1.1'' @ crlf @ ''Host: '' @ host @ crlf @
       ''User-Agent: rustcrash-engine'' @ crlf @ ''Connection: close'' @ crlf @ crlf))"

text \<open>\<open>dial\<close>: what the first read gives after the request was written through an outbound.\<close>

definition probe_expect :: "(outbound_cfg \<Rightarrow> net_addr \<Rightarrow> bytes \<Rightarrow> bytes result) \<Rightarrow> string \<Rightarrow> outbound_cfg \<Rightarrow>
    expected_status \<Rightarrow> unit result" where
  "probe_expect dial url out_cfg expected =
    rbind (parse_probe_url url) (\<lambda>(host, port, path).
    rbind (net_addr_domain host port) (\<lambda>target.
    rbind (dial out_cfg target (probe_request path host)) (\<lambda>received.
      let buf = take 128 received in
      if buf = [] then Inl (Network ''probe: empty response'')
      else if status_matches expected (word_of_nat (http_status (from_utf8_lossy buf))) then Inr ()
      else Inl (Network ''probe status''))))"

definition probe_url :: "(outbound_cfg \<Rightarrow> net_addr \<Rightarrow> bytes \<Rightarrow> bytes result) \<Rightarrow> string \<Rightarrow> outbound_cfg \<Rightarrow> unit result" where
  "probe_url dial url out_cfg = probe_expect dial url out_cfg [(200, 399)]"

text \<open>One member of a health round; \<open>elapsed\<close> is the measured time in milliseconds.\<close>

definition health_member :: "lb_env \<Rightarrow> (outbound_cfg \<Rightarrow> net_addr \<Rightarrow> bytes \<Rightarrow> bytes result) \<Rightarrow> (string \<Rightarrow> u32) \<Rightarrow>
    string \<Rightarrow> expected_status \<Rightarrow> registry \<Rightarrow> string \<Rightarrow> registry" where
  "health_member env dial elapsed url expected r m =
    (case registry_resolve env r m of
       (Some (Inr out_cfg), r) \<Rightarrow>
         if oc_kind out_cfg = ''Direct'' \<or> oc_kind out_cfg = ''Reject'' then r
         else record_latency r m
           (case probe_expect dial url out_cfg expected of Inr _ \<Rightarrow> Some (elapsed m) | Inl _ \<Rightarrow> None)
     | (_, r) \<Rightarrow> r)"

definition health_group :: "lb_env \<Rightarrow> (outbound_cfg \<Rightarrow> net_addr \<Rightarrow> bytes \<Rightarrow> bytes result) \<Rightarrow> (string \<Rightarrow> u32) \<Rightarrow>
    registry \<Rightarrow> string \<times> expected_status \<Rightarrow> registry" where
  "health_group env dial elapsed r d =
    (case find (\<lambda>g. gc_name (gs_cfg g) = fst d) (rg_groups r) of
       None \<Rightarrow> r
     | Some g \<Rightarrow>
         if gc_policy (gs_cfg g) = GSelect then r
         else
           let url = (case gc_url (gs_cfg g) of Some u \<Rightarrow> u | None \<Rightarrow> ''http://www.gstatic.com/generate_204'')
           in foldl (health_member env dial elapsed url (snd d)) r (gc_members (gs_cfg g)))"

definition health_round :: "lb_env \<Rightarrow> (outbound_cfg \<Rightarrow> net_addr \<Rightarrow> bytes \<Rightarrow> bytes result) \<Rightarrow> (string \<Rightarrow> u32) \<Rightarrow>
    registry \<Rightarrow> (string \<times> expected_status) list \<Rightarrow> registry" where
  "health_round env dial elapsed r due = foldl (health_group env dial elapsed) r due"

text \<open>The delay test of the control API: the status of its reply and the registry it leaves.\<close>

definition api_delay :: "lb_env \<Rightarrow> (outbound_cfg \<Rightarrow> net_addr \<Rightarrow> bytes \<Rightarrow> bytes result) \<Rightarrow> u32 \<Rightarrow> string \<Rightarrow>
    registry \<Rightarrow> string \<Rightarrow> nat \<times> registry" where
  "api_delay env dial elapsed url r pname =
    (case registry_resolve env r pname of
       (Some (Inr out_cfg), r) \<Rightarrow>
         (case probe_url dial url out_cfg of
            Inr _ \<Rightarrow> (200, record_latency r pname (Some elapsed))
          | Inl _ \<Rightarrow> (408, record_latency r pname (Some 0)))
     | (_, r) \<Rightarrow> (404, r))"

section \<open>The sticky table stays bounded\<close>

definition sticky_inv :: "sticky_cache \<Rightarrow> bool" where
  "sticky_inv sc =
    (distinct (sc_order sc) \<and> set (sc_order sc) = dom (hm_get (sc_map sc)) \<and> length (sc_order sc) \<le> STICKY_CAP)"

lemma filter_neq_length: "distinct xs \<Longrightarrow> x \<in> set xs \<Longrightarrow> length (filter (\<lambda>k. k \<noteq> x) xs) < length xs"
  by (simp add: length_filter_less)

lemma sticky_inv_empty: "sticky_inv sticky_empty"
  by (simp add: sticky_inv_def sticky_empty_def STICKY_CAP_def dom_def)

lemma sticky_inv_get:
  assumes "sticky_inv sc"
  shows "sticky_inv (snd (sticky_get now sc key n))"
proof (cases "hm_get (sc_map sc) key")
  case (Some v)
  then have k: "key \<in> set (sc_order sc)" using assms by (auto simp: sticky_inv_def)
  then have "length (filter (\<lambda>k. k \<noteq> key) (sc_order sc)) < length (sc_order sc)" by (simp add: length_filter_less)
  moreover have "dom (hm_get (hm_remove key (sc_map sc))) = dom (hm_get (sc_map sc)) - {key}" by (auto simp: dom_def)
  ultimately show ?thesis
    using assms Some k by (cases v) (auto simp: sticky_get_def sticky_inv_def)
qed (use assms in \<open>simp add: sticky_get_def\<close>)

lemma sticky_inv_put:
  assumes "sticky_inv sc"
  shows "sticky_inv (sticky_put now sc key idx)"
proof -
  have step: "sticky_inv (sc\<lparr>sc_order := filter (\<lambda>k. k \<noteq> key) (sc_order sc) @ [key],
      sc_map := hm_insert key v (sc_map sc)\<rparr>)" if "sticky_inv sc" "length (sc_order sc) < STICKY_CAP" for sc v
  proof -
    have "dom (hm_get (hm_insert key v (sc_map sc))) = insert key (dom (hm_get (sc_map sc)))"
      by (auto simp: dom_def split: if_splits)
    moreover have "Suc (length (filter (\<lambda>k. k \<noteq> key) (sc_order sc))) \<le> STICKY_CAP"
      using that(2) length_filter_le [of "\<lambda>k. k \<noteq> key" "sc_order sc"] by linarith
    ultimately show ?thesis using that by (auto simp: sticky_inv_def)
  qed
  show ?thesis
  proof (cases "STICKY_CAP \<le> length (sc_order sc)")
    case True
    then obtain x rest where o: "sc_order sc = x # rest" by (cases "sc_order sc") (auto simp: STICKY_CAP_def)
    have "dom (hm_get (hm_remove x (sc_map sc))) = dom (hm_get (sc_map sc)) - {x}" by (auto simp: dom_def)
    then have "sticky_inv (sc\<lparr>sc_map := hm_remove x (sc_map sc), sc_order := rest\<rparr>)" "length rest < STICKY_CAP"
      using assms o by (auto simp: sticky_inv_def)
    from step [OF this(1)] this(2) show ?thesis using True o by (simp add: sticky_put_def)
  next
    case False
    then show ?thesis using step [OF assms] by (simp add: sticky_put_def)
  qed
qed

section \<open>The registry invariant\<close>

definition known_name :: "registry \<Rightarrow> string \<Rightarrow> bool" where
  "known_name r n = (hm_contains (rg_index r) n \<or> hm_contains (rg_group_index r) n)"

definition group_ok :: "registry \<Rightarrow> group_state \<Rightarrow> bool" where
  "group_ok r g =
    (gc_members (gs_cfg g) \<noteq> [] \<and> length (gc_members (gs_cfg g)) \<le> 2 ^ 53 \<and>
     list_all (known_name r) (gc_members (gs_cfg g)) \<and>
     (case gs_selected g of None \<Rightarrow> True | Some i \<Rightarrow> i < length (gc_members (gs_cfg g))) \<and> sticky_inv (gs_sticky g))"

definition registry_inv :: "registry \<Rightarrow> bool" where
  "registry_inv r =
    ((\<forall>n i. hm_get (rg_index r) n = Some i \<longrightarrow> i < length (rg_outbounds r) \<and> oc_name (rg_outbounds r ! i) = n) \<and>
     (\<forall>n i. hm_get (rg_group_index r) n = Some i \<longrightarrow>
        i < length (rg_groups r) \<and> gc_name (gs_cfg (rg_groups r ! i)) = n) \<and>
     list_all (group_ok r) (rg_groups r))"

text \<open>What no operation changes: names, outbounds and the configuration of the groups.\<close>

definition same_shape :: "registry \<Rightarrow> registry \<Rightarrow> bool" where
  "same_shape r s =
    (rg_outbounds s = rg_outbounds r \<and> rg_index s = rg_index r \<and> rg_group_index s = rg_group_index r \<and>
     map gs_cfg (rg_groups s) = map gs_cfg (rg_groups r))"

lemma same_shape_refl [simp]: "same_shape r r" by (simp add: same_shape_def)

lemma same_shape_trans: "same_shape r s \<Longrightarrow> same_shape s t \<Longrightarrow> same_shape r t" by (simp add: same_shape_def)

lemma same_shape_known: "same_shape r s \<Longrightarrow> known_name s = known_name r"
  by (auto simp: same_shape_def known_name_def)

lemma same_shape_cfg: "same_shape r s \<Longrightarrow> i < length (rg_groups r) \<Longrightarrow>
    gs_cfg (rg_groups s ! i) = gs_cfg (rg_groups r ! i) \<and> length (rg_groups s) = length (rg_groups r)"
  unfolding same_shape_def by (metis length_map nth_map)

lemma same_shape_inv:
  assumes "registry_inv r" and "same_shape r s" and "list_all (group_ok r) (rg_groups s)"
  shows "registry_inv s"
proof -
  have "group_ok s = group_ok r" using same_shape_known [OF assms(2)] by (auto simp: group_ok_def)
  moreover have "length (rg_groups s) = length (rg_groups r)" using assms(2) unfolding same_shape_def by (metis length_map)
  ultimately show ?thesis
    using assms same_shape_cfg [OF assms(2)] unfolding registry_inv_def same_shape_def by metis
qed

lemma list_all_update: "list_all P xs \<Longrightarrow> P x \<Longrightarrow> list_all P (list_update xs i x)"
  by (auto simp: list_all_iff dest!: set_update_subset_insert [THEN subsetD])

lemma group_update:
  assumes "registry_inv r" and "i < length (rg_groups r)" and "group_ok r g" and "gs_cfg g = gs_cfg (rg_groups r ! i)"
  shows "registry_inv (r\<lparr>rg_groups := list_update (rg_groups r) i g\<rparr>) \<and> same_shape r (r\<lparr>rg_groups := list_update (rg_groups r) i g\<rparr>)"
proof -
  have "map gs_cfg (list_update (rg_groups r) i g) = map gs_cfg (rg_groups r)"
    using assms(2,4) by (metis list_update_id map_update nth_map)
  then have "same_shape r (r\<lparr>rg_groups := list_update (rg_groups r) i g\<rparr>)" by (simp add: same_shape_def)
  moreover have "list_all (group_ok r) (list_update (rg_groups r) i g)"
    using assms(1,3) by (intro list_all_update) (simp_all add: registry_inv_def)
  ultimately show ?thesis using same_shape_inv [OF assms(1)] by simp
qed

lemma best_latency_member:
  "best_latency tol lats best ms = Some (m, l) \<Longrightarrow>
   best = Some (m, l) \<or> (m \<in> set ms \<and> hm_get lats m = Some (Some l))"
  by (induction ms arbitrary: best) (auto split: option.splits if_splits prod.splits)

lemma find_member: "find P xs = Some x \<Longrightarrow> x \<in> set xs \<and> P x"
  by (auto simp: find_Some_iff)

lemma alive_at_member: "alive_at g i = Some m \<Longrightarrow> m \<in> set (gc_members (gs_cfg g)) \<and> lb_alive g m"
  by (auto simp: alive_at_def Let_def split: if_splits)

lemma bucket_hash:
  "length xs \<le> 2 ^ 53 \<Longrightarrow> \<exists>i. jump_hash k (int (max (length xs) 1)) = Some i \<and> 0 \<le> i \<and> i < int (max (length xs) 1)"
  by (rule jump_hash_bucket) (simp_all add: less_max_iff_disj)

lemma consistent_loop_returns:
  assumes "length (gc_members (gs_cfg g)) \<le> 2 ^ 53"
  shows "\<exists>x. consistent_loop n g k = Some x \<and> (\<forall>m. x = Some m \<longrightarrow> m \<in> set (gc_members (gs_cfg g)) \<and> lb_alive g m)"
proof (induction n arbitrary: k)
  case (Suc n)
  obtain i where "jump_hash k (int (max (length (gc_members (gs_cfg g))) 1)) = Some i"
    using bucket_hash [OF assms, of k] by blast
  with Suc show ?case by (auto split: option.split dest: alive_at_member)
qed simp

lemma sticky_loop_returns:
  assumes "length (gc_members (gs_cfg g)) \<le> 2 ^ 53"
  shows "\<exists>x. sticky_loop n t env key g idx = Some x \<and>
    (\<forall>m i. x = Some (m, i) \<longrightarrow> m \<in> set (gc_members (gs_cfg g)) \<and> lb_alive g m \<and> alive_at g i = Some m)"
proof (induction n arbitrary: t idx)
  case (Suc n)
  obtain i where "jump_hash (key + le_nanos env t) (int (max (length (gc_members (gs_cfg g))) 1)) = Some i"
    using bucket_hash [OF assms, of "key + le_nanos env t"] by blast
  with Suc show ?case by (auto split: option.split dest: alive_at_member)
qed simp

lemma first_member_in: "gc_members cfg \<noteq> [] \<Longrightarrow> first_member cfg = Some (Inr (hd (gc_members cfg)))"
  by (cases "gc_members cfg") (simp_all add: first_member_def)

lemma pick_select_in:
  "group_ok r g \<Longrightarrow> \<exists>m. pick_select g = Inr m \<and> m \<in> set (gc_members (gs_cfg g))"
  by (auto simp: pick_select_def group_ok_def Let_def split: option.splits)

lemma pick_url_test_in:
  "gc_members (gs_cfg g) \<noteq> [] \<Longrightarrow> \<exists>m. pick_url_test g = Some (Inr m) \<and> m \<in> set (gc_members (gs_cfg g))"
  by (auto simp: pick_url_test_def first_member_in split: option.split dest: best_latency_member)

lemma pick_fallback_in:
  "gc_members (gs_cfg g) \<noteq> [] \<Longrightarrow> \<exists>m. pick_fallback g = Some (Inr m) \<and> m \<in> set (gc_members (gs_cfg g))"
  by (auto simp: pick_fallback_def first_member_in split: option.split dest!: find_member)

lemma pick_round_robin_in:
  assumes "gc_members (gs_cfg g) \<noteq> []" and "length (gc_members (gs_cfg g)) \<le> 2 ^ 53"
  shows "\<exists>m. pick_round_robin tick g = Some (Inr m) \<and> m \<in> set (gc_members (gs_cfg g)) \<and>
    (lb_alive g m \<or> filter (lb_alive g) (gc_members (gs_cfg g)) = [])"
proof -
  define pool where "pool = (if filter (lb_alive g) (gc_members (gs_cfg g)) = [] then gc_members (gs_cfg g)
    else filter (lb_alive g) (gc_members (gs_cfg g)))"
  have pool: "pool \<noteq> []" "set pool \<subseteq> set (gc_members (gs_cfg g))" "length pool \<le> 2 ^ 53"
    using assms le_trans [OF length_filter_le [of "lb_alive g" "gc_members (gs_cfg g)"]] by (auto simp: pool_def)
  have "unat (word_of_nat (length pool) :: u64) = length pool" using pool(3) by (simp add: unat_of_nat)
  then have "unat (tick mod word_of_nat (max (length pool) 1)) < length pool"
    using pool(1) by (cases pool) (simp_all add: unat_mod max_def)
  then have "pick_round_robin tick g = Some (Inr (pool ! unat (tick mod word_of_nat (max (length pool) 1))))"
    "pool ! unat (tick mod word_of_nat (max (length pool) 1)) \<in> set pool"
    unfolding pick_round_robin_def Let_def pool_def [symmetric] by (simp_all only: if_True nth_mem)
  moreover have "x \<in> set pool \<Longrightarrow> lb_alive g x \<or> filter (lb_alive g) (gc_members (gs_cfg g)) = []" for x
    by (auto simp: pool_def split: if_splits)
  ultimately show ?thesis using pool(2) by blast
qed

lemma pick_consistent_in:
  assumes "gc_members (gs_cfg g) \<noteq> []" and "length (gc_members (gs_cfg g)) \<le> 2 ^ 53"
  shows "\<exists>m. pick_consistent env lb g = Some (Inr m) \<and> m \<in> set (gc_members (gs_cfg g)) \<and>
    (lb_alive g m \<or> filter (lb_alive g) (gc_members (gs_cfg g)) = [])"
proof -
  obtain x where x: "consistent_loop 5 g (le_hash env (group_key env lb (gs_cfg g) False)) = Some x"
    "\<And>m. x = Some m \<Longrightarrow> m \<in> set (gc_members (gs_cfg g)) \<and> lb_alive g m"
    using consistent_loop_returns [OF assms(2), of 5] by blast
  show ?thesis
  proof (cases x)
    case None
    show ?thesis
    proof (cases "find (lb_alive g) (gc_members (gs_cfg g))")
      case found: None
      then have "filter (lb_alive g) (gc_members (gs_cfg g)) = []" by (simp add: find_None_iff filter_empty_conv)
      then show ?thesis using None x(1) found first_member_in [OF assms(1)] assms(1) by (simp add: pick_consistent_def)
    next
      case (Some m)
      then show ?thesis using None x(1) find_member [OF Some] by (simp add: pick_consistent_def)
    qed
  qed (use x in \<open>auto simp: pick_consistent_def\<close>)
qed

lemma pick_sticky_in:
  assumes "group_ok r g"
  shows "\<exists>m g'. pick_sticky env lb g = (Some (Inr m), g') \<and> m \<in> set (gc_members (gs_cfg g)) \<and>
    gs_cfg g' = gs_cfg g \<and> group_ok r g'"
proof -
  let ?key = "le_hash env (group_key env lb (gs_cfg g) True)"
  let ?len = "max (length (gc_members (gs_cfg g))) 1"
  obtain cached sc where c: "sticky_get (le_now env) (gs_sticky g) ?key ?len = (cached, sc)" by fastforce
  have ms: "gc_members (gs_cfg g) \<noteq> []" "length (gc_members (gs_cfg g)) \<le> 2 ^ 53" using assms by (simp_all add: group_ok_def)
  have sc: "sticky_inv sc" using sticky_inv_get [of "gs_sticky g" "le_now env" ?key ?len] c assms by (simp add: group_ok_def)
  then have put: "sticky_inv (sticky_put (le_now env) sc ?key i)" for i by (rule sticky_inv_put)
  obtain idx where i: "(case cached of Some i \<Rightarrow> Some (int i) | None \<Rightarrow> jump_hash (?key + le_nanos env 0) (int ?len)) = Some idx"
    using bucket_hash [OF ms(2), of "?key + le_nanos env 0"] by (cases cached) auto
  let ?g = "g\<lparr>gs_sticky := sc\<rparr>"
  obtain x where x: "sticky_loop 4 1 env ?key ?g idx = Some x"
    "\<And>m i. x = Some (m, i) \<Longrightarrow> m \<in> set (gc_members (gs_cfg g))"
    using sticky_loop_returns [of ?g 4 1 env ?key idx] ms(2) by (auto simp del: sticky_loop.simps)
  have e: "pick_sticky env lb g =
      (case x of
         Some (m, i) \<Rightarrow> (Some (Inr m), if map_option int cached \<noteq> Some i
           then ?g\<lparr>gs_sticky := sticky_put (le_now env) sc ?key (nat i)\<rparr> else ?g)
       | None \<Rightarrow> (first_member (gs_cfg ?g), ?g\<lparr>gs_sticky := sticky_put (le_now env) sc ?key 0\<rparr>))"
    unfolding pick_sticky_def Let_def c prod.case i option.case x(1) by (simp split: option.split)
  have ok: "group_ok r (?g\<lparr>gs_sticky := sticky_put (le_now env) sc ?key i\<rparr>)" "group_ok r ?g" for i
    using assms put sc by (auto simp: group_ok_def split: option.split)
  show ?thesis
  proof (cases x)
    case None
    then show ?thesis using e first_member_in [OF ms(1)] ms(1) ok by simp
  next
    case (Some mi)
    then show ?thesis using e x(2) ok by (cases mi) simp
  qed
qed

lemma pick_member_in:
  assumes inv: "registry_inv r" and gi: "gi < length (rg_groups r)"
  shows "\<exists>m r'. pick_member env lb r gi = (Some (Inr m), r') \<and> m \<in> set (gc_members (gs_cfg (rg_groups r ! gi))) \<and>
    registry_inv r' \<and> same_shape r r'"
proof -
  let ?g = "rg_groups r ! gi"
  have ok: "group_ok r ?g" using inv gi by (auto simp: registry_inv_def list_all_length)
  then have ms: "gc_members (gs_cfg ?g) \<noteq> []" "length (gc_members (gs_cfg ?g)) \<le> 2 ^ 53" by (simp_all add: group_ok_def)
  show ?thesis
  proof (cases "gc_policy (gs_cfg ?g)")
    case GSelect
    then show ?thesis using pick_select_in [OF ok] inv by (auto simp: pick_member_def)
  next
    case GUrlTest
    then show ?thesis using pick_url_test_in [OF ms(1)] inv by (auto simp: pick_member_def)
  next
    case GFallback
    then show ?thesis using pick_fallback_in [OF ms(1)] inv by (auto simp: pick_member_def)
  next
    case GLoadBalance
    show ?thesis
    proof (cases "gc_lb_strategy (gs_cfg ?g)")
      case RoundRobin
      have "registry_inv (r\<lparr>rg_lb_counter := c\<rparr>)" "same_shape r (r\<lparr>rg_lb_counter := c\<rparr>)" for c
        using inv by (auto simp: registry_inv_def same_shape_def group_ok_def [abs_def] known_name_def [abs_def])
      then show ?thesis using pick_round_robin_in [OF ms, of "rg_lb_counter r"] GLoadBalance RoundRobin
        by (auto simp: pick_member_def)
    next
      case ConsistentHashing
      then show ?thesis using pick_consistent_in [OF ms, of env lb] GLoadBalance inv by (auto simp: pick_member_def)
    next
      case StickySessions
      obtain m g' where p: "pick_sticky env lb ?g = (Some (Inr m), g')" "m \<in> set (gc_members (gs_cfg ?g))"
        "gs_cfg g' = gs_cfg ?g" "group_ok r g'" using pick_sticky_in [OF ok] by blast
      then show ?thesis using GLoadBalance StickySessions group_update [OF inv gi p(4,3)] by (simp add: pick_member_def)
    qed
  qed
qed

section \<open>Building and resolving\<close>

lemma index_outbounds_gives:
  "index_outbounds cs index n = Inr index' \<Longrightarrow> hm_get index' nm = Some i \<Longrightarrow>
   hm_get index nm = Some i \<or> (\<exists>k < length cs. oc_name (cs ! k) = nm \<and> i = n + k)"
proof (induction cs arbitrary: index n)
  case (Cons c cs)
  then have "index_outbounds cs (hm_insert (oc_name c) n index) (n + 1) = Inr index'" by (auto split: if_splits)
  then have "hm_get (hm_insert (oc_name c) n index) nm = Some i \<or> (\<exists>k < length cs. oc_name (cs ! k) = nm \<and> i = n + 1 + k)"
    using Cons.IH Cons.prems(2) by blast
  then show ?case
  proof
    assume "hm_get (hm_insert (oc_name c) n index) nm = Some i"
    then show ?thesis by (auto split: if_splits intro: exI [of _ 0])
  next
    assume "\<exists>k < length cs. oc_name (cs ! k) = nm \<and> i = n + 1 + k"
    then obtain k where "k < length cs" "oc_name (cs ! k) = nm" "i = n + 1 + k" by blast
    then show ?thesis by (intro disjI2 exI [of _ "Suc k"]) simp
  qed
qed simp

lemma index_groups_gives:
  "index_groups index cs gi n = Inr gi' \<Longrightarrow>
   (hm_get gi' nm = Some i \<longrightarrow> hm_get gi nm = Some i \<or> (\<exists>k < length cs. gc_name (cs ! k) = nm \<and> i = n + k)) \<and>
   list_all (\<lambda>c. gc_members c \<noteq> []) cs"
proof (induction cs arbitrary: gi n)
  case (Cons c cs)
  have IH: "hm_get gi' nm = Some i \<longrightarrow> hm_get (hm_insert (gc_name c) n gi) nm = Some i \<or>
      (\<exists>k < length cs. gc_name (cs ! k) = nm \<and> i = n + 1 + k)" "list_all (\<lambda>c. gc_members c \<noteq> []) cs" "gc_members c \<noteq> []"
    using Cons.IH [of "hm_insert (gc_name c) n gi" "n + 1"] Cons.prems by (auto split: if_splits)
  have "hm_get gi nm = Some i \<or> (\<exists>k < length (c # cs). gc_name ((c # cs) ! k) = nm \<and> i = n + k)"
    if "hm_get gi' nm = Some i"
  proof (cases "\<exists>k < length cs. gc_name (cs ! k) = nm \<and> i = n + 1 + k")
    case True
    then obtain k where "k < length cs" "gc_name (cs ! k) = nm" "i = n + 1 + k" by blast
    then show ?thesis by (intro disjI2 exI [of _ "Suc k"]) simp
  next
    case False
    then have "hm_get (hm_insert (gc_name c) n gi) nm = Some i" using IH(1) that by blast
    then show ?thesis by (auto split: if_splits intro: exI [of _ 0])
  qed
  then show ?case using IH(2,3) by simp
qed simp

lemma registry_build_inv:
  assumes b: "registry_build outs groups = Inr r" and len: "\<forall>g \<in> set groups. length (gc_members g) \<le> 2 ^ 53"
  shows "registry_inv r"
proof -
  obtain index gi where i: "index_outbounds outs hm_empty 0 = Inr index" "index_groups index groups hm_empty 0 = Inr gi"
    and m: "list_all (\<lambda>g. list_all (\<lambda>m. hm_contains index m \<or> hm_contains gi m) (gc_members g)) groups"
    and r: "r = \<lparr>rg_outbounds = outs, rg_index = index, rg_groups = map group_new groups, rg_group_index = gi, rg_lb_counter = 0\<rparr>"
    using b by (auto simp: registry_build_def rbind_Inr_iff split: if_splits)
  have "i < length outs \<and> oc_name (outs ! i) = n" if "hm_get index n = Some i" for n i
    using index_outbounds_gives [OF i(1) that] by auto
  moreover have "i < length groups \<and> gc_name (groups ! i) = n" if "hm_get gi n = Some i" for n i
    using index_groups_gives [OF i(2), of n i] that by auto
  moreover have "group_ok r (group_new g)" if "g \<in> set groups" for g
    using index_groups_gives [OF i(2)] m len that sticky_inv_empty
    by (auto simp: group_ok_def group_new_def r known_name_def [abs_def] list_all_iff)
  ultimately show ?thesis by (simp add: registry_inv_def r group_new_def [of "_ ! _"] list_all_iff)
qed

lemma index_outbounds_covers:
  "index_outbounds cs index n = Inr index' \<Longrightarrow> hm_contains index nm \<or> nm \<in> oc_name ` set cs \<Longrightarrow> hm_contains index' nm"
proof (induction cs arbitrary: index n)
  case (Cons c cs)
  then have "index_outbounds cs (hm_insert (oc_name c) n index) (n + 1) = Inr index'" by (auto split: if_splits)
  moreover have "hm_contains (hm_insert (oc_name c) n index) nm \<or> nm \<in> oc_name ` set cs"
    using Cons.prems(2) by (auto simp: hm_contains_def)
  ultimately show ?case by (rule Cons.IH)
qed simp

lemma index_groups_covers:
  "index_groups index cs gi n = Inr gi' \<Longrightarrow> hm_contains gi nm \<or> nm \<in> gc_name ` set cs \<Longrightarrow> hm_contains gi' nm"
proof (induction cs arbitrary: gi n)
  case (Cons c cs)
  then have "index_groups index cs (hm_insert (gc_name c) n gi) (n + 1) = Inr gi'" by (auto split: if_splits)
  moreover have "hm_contains (hm_insert (gc_name c) n gi) nm \<or> nm \<in> gc_name ` set cs"
    using Cons.prems(2) by (auto simp: hm_contains_def)
  ultimately show ?case by (rule Cons.IH)
qed simp

text \<open>Groups do not contain each other in a cycle: a rank decreases from a group to the groups it lists.\<close>

definition ranked_groups :: "(string \<Rightarrow> nat) \<Rightarrow> registry \<Rightarrow> bool" where
  "ranked_groups rank r =
    (\<forall>c \<in> set (map gs_cfg (rg_groups r)). \<forall>m \<in> set (gc_members c).
       hm_contains (rg_group_index r) m \<longrightarrow> rank m < rank (gc_name c))"

lemma same_shape_ranked: "same_shape r s \<Longrightarrow> ranked_groups rank s = ranked_groups rank r"
  by (simp add: same_shape_def ranked_groups_def del: set_map)

lemma resolve_loop_leaf:
  assumes "registry_inv r" and "known_name r name" and "ranked_groups rank r"
    and "0 < n" and "hm_contains (rg_index r) name \<or> rank name + 1 < n"
  shows "\<exists>out r'. resolve_loop n env lb r name = (Some (Inr out), r') \<and> out \<in> set (rg_outbounds r)"
  using assms
proof (induction n arbitrary: r name)
  case (Suc n)
  show ?case
  proof (cases "hm_get (rg_index r) name")
    case (Some i)
    then have "i < length (rg_outbounds r)" using Suc.prems(1) by (auto simp: registry_inv_def)
    then show ?thesis using Some by simp
  next
    case None
    then obtain gi where gi: "hm_get (rg_group_index r) name = Some gi"
      using Suc.prems(2) by (auto simp: known_name_def hm_contains_def)
    then have l: "gi < length (rg_groups r)" "gc_name (gs_cfg (rg_groups r ! gi)) = name"
      using Suc.prems(1) by (auto simp: registry_inv_def)
    obtain m r1 where p: "pick_member env lb r gi = (Some (Inr m), r1)" "m \<in> set (gc_members (gs_cfg (rg_groups r ! gi)))"
      "registry_inv r1" "same_shape r r1" using pick_member_in [OF Suc.prems(1) l(1)] by blast
    have g: "rg_groups r ! gi \<in> set (rg_groups r)" using l(1) by simp
    have known: "known_name r m"
      using Suc.prems(1) g p(2) by (auto simp: registry_inv_def group_ok_def list_all_iff)
    have rank: "rank name + 1 < Suc n" using Suc.prems(5) None by (simp add: hm_contains_def)
    have f: "rg_index r1 = rg_index r" "rg_outbounds r1 = rg_outbounds r" using p(4) by (simp_all add: same_shape_def)
    have m: "hm_contains (rg_index r1) m \<or> rank m + 1 < n"
    proof (cases "hm_contains (rg_group_index r) m")
      case True
      then have "rank m < rank name" using Suc.prems(3) g p(2) l(2) by (auto simp: ranked_groups_def)
      then show ?thesis using rank by simp
    qed (use known f in \<open>simp add: known_name_def\<close>)
    have "known_name r1 m" using known same_shape_known [OF p(4)] by simp
    then obtain out r' where "resolve_loop n env lb r1 m = (Some (Inr out), r')" "out \<in> set (rg_outbounds r1)"
      using Suc.IH [OF p(3) _ _ _ m] Suc.prems(3) same_shape_ranked [OF p(4)] rank by auto
    then show ?thesis using None gi p(1) f(2) by simp
  qed
qed simp

lemma resolve_loop_keeps:
  assumes "registry_inv r"
  shows "registry_inv (snd (resolve_loop n env lb r name)) \<and> same_shape r (snd (resolve_loop n env lb r name))"
  using assms
proof (induction n arbitrary: r name)
  case (Suc n)
  show ?case
  proof (cases "hm_get (rg_index r) name = None \<and> hm_get (rg_group_index r) name \<noteq> None")
    case True
    then obtain gi where gi: "hm_get (rg_group_index r) name = Some gi" by auto
    then have "gi < length (rg_groups r)" using Suc.prems by (auto simp: registry_inv_def)
    then obtain m r1 where p: "pick_member env lb r gi = (Some (Inr m), r1)" "registry_inv r1" "same_shape r r1"
      using pick_member_in [OF Suc.prems] by blast
    then show ?thesis using True gi Suc.IH [OF p(2), of m] same_shape_trans [OF p(3)] by simp
  qed (use Suc.prems in \<open>auto split: option.split\<close>)
qed simp

section \<open>What may happen to a registry\<close>

inductive registry_step :: "registry \<Rightarrow> registry \<Rightarrow> bool" where
  step_resolve: "registry_step r (snd (resolve_with env lb r name))"
| step_select: "registry_step r (snd (set_selected r g m))"
| step_sample: "registry_step r (record_latency r name l)"

inductive registry_runs :: "registry \<Rightarrow> registry \<Rightarrow> bool" for r0 where
  run_start: "registry_runs r0 r0"
| run_step: "registry_runs r0 r \<Longrightarrow> registry_step r s \<Longrightarrow> registry_runs r0 s"

lemma position_of_nth: "position_of x xs = Some i \<Longrightarrow> i < length xs \<and> xs ! i = x"
  by (induction xs arbitrary: i) (auto split: if_splits)

lemma set_selected_keeps:
  assumes "registry_inv r"
  shows "registry_inv (snd (set_selected r g m)) \<and> same_shape r (snd (set_selected r g m))"
proof (cases "hm_get (rg_group_index r) g")
  case (Some gi)
  let ?g = "rg_groups r ! gi"
  have gi: "gi < length (rg_groups r)" using Some assms by (auto simp: registry_inv_def)
  then have ok: "group_ok r ?g" using assms by (auto simp: registry_inv_def list_all_length)
  have "group_ok r (?g\<lparr>gs_selected := Some i\<rparr>)" if "i < length (gc_members (gs_cfg ?g))" for i
    using ok that by (simp add: group_ok_def)
  then show ?thesis
    using Some assms group_update [OF assms gi] position_of_nth [of m "gc_members (gs_cfg ?g)"]
    by (auto simp: set_selected_def Let_def split: option.split)
qed (use assms in \<open>simp add: set_selected_def\<close>)

lemma record_latency_keeps:
  assumes "registry_inv r"
  shows "registry_inv (record_latency r name l) \<and> same_shape r (record_latency r name l)"
proof -
  let ?f = "\<lambda>g. if name \<in> set (gc_members (gs_cfg g)) then g\<lparr>gs_latencies := hm_insert name l (gs_latencies g)\<rparr> else g"
  have "same_shape r (record_latency r name l)"
    by (simp add: same_shape_def record_latency_def comp_def if_distrib cong: if_cong)
  moreover have "group_ok r (?f g)" if "group_ok r g" for g
    using that by (auto simp: group_ok_def split: option.split)
  then have "list_all (\<lambda>g. group_ok r (?f g)) (rg_groups r)" using assms unfolding registry_inv_def list_all_iff by blast
  then have "list_all (group_ok r) (rg_groups (record_latency r name l))"
    by (simp add: record_latency_def list.pred_map comp_def)
  ultimately show ?thesis using same_shape_inv [OF assms] by blast
qed

lemma registry_runs_keeps: "registry_runs r0 r \<Longrightarrow> registry_inv r0 \<Longrightarrow> registry_inv r \<and> same_shape r0 r"
proof (induction rule: registry_runs.induct)
  case (run_step r s)
  from run_step(2) have "registry_inv s \<and> same_shape r s"
  proof cases
    case (step_resolve env lb name)
    then show ?thesis using resolve_loop_keeps run_step by (simp add: resolve_with_def)
  next
    case (step_select g m)
    then show ?thesis using set_selected_keeps run_step by simp
  next
    case (step_sample name l)
    then show ?thesis using record_latency_keeps run_step by simp
  qed
  then show ?case using run_step same_shape_trans by blast
qed simp

lemma resolve_known_name:
  fixes rank :: "string \<Rightarrow> nat"
  assumes "registry_build outs groups = Inr r" and "\<forall>g \<in> set groups. length (gc_members g) \<le> 2 ^ 53"
    and "\<forall>g \<in> set groups. \<forall>m \<in> set (gc_members g). m \<in> gc_name ` set groups \<longrightarrow> rank m < rank (gc_name g)"
    and "name \<in> oc_name ` set outs \<union> gc_name ` set groups" and "rank name < 15" and "registry_runs r s"
  shows "\<exists>out s'. resolve_with env lb s name = (Some (Inr out), s') \<and> out \<in> set outs"
proof -
  have inv: "registry_inv s" "same_shape r s"
    using registry_runs_keeps [OF assms(6)] registry_build_inv [OF assms(1,2)] by simp_all
  obtain index gi where i: "index_outbounds outs hm_empty 0 = Inr index" "index_groups index groups hm_empty 0 = Inr gi"
    and r: "r = \<lparr>rg_outbounds = outs, rg_index = index, rg_groups = map group_new groups, rg_group_index = gi, rg_lb_counter = 0\<rparr>"
    using assms(1) by (auto simp: registry_build_def rbind_Inr_iff split: if_splits)
  have "m \<in> gc_name ` set groups" if "hm_contains gi m" for m
    using index_groups_gives [OF i(2), of m] that by (fastforce simp: hm_contains_def)
  then have "ranked_groups rank r" using assms(3) by (auto simp: ranked_groups_def r group_new_def)
  then have "ranked_groups rank s" using same_shape_ranked [OF inv(2)] by simp
  moreover have "known_name s name"
    using assms(4) index_outbounds_covers [OF i(1)] index_groups_covers [OF i(2)] same_shape_known [OF inv(2)]
    by (auto simp: known_name_def r)
  ultimately show ?thesis
    using resolve_loop_leaf [OF inv(1), of name rank 16] assms(5) inv(2)
    by (auto simp: resolve_with_def same_shape_def r simp del: resolve_loop.simps)
qed

text \<open>
  C34: Every name of a registry resolves to an outbound. In a registry built from a configuration, when the groups do
  not contain each other in a cycle and are nested at most fifteen deep, resolving an outbound or a group
  for a connection gives one of the configured outbounds: after any sequence of connections, manual
  selections and latency samples, and whatever the hash, the clock and the key of the connection are.
\<close>

theorem resolve_reaches_leaf:
  fixes rank :: "string \<Rightarrow> nat"
  assumes "registry_build outs groups = Inr r" and "\<forall>g \<in> set groups. length (gc_members g) \<le> 2 ^ 53"
    and "\<forall>g \<in> set groups. \<forall>m \<in> set (gc_members g). m \<in> gc_name ` set groups \<longrightarrow> rank m < rank (gc_name g)"
    and "name \<in> oc_name ` set outs \<union> gc_name ` set groups" and "rank name < 15" and "registry_runs r s"
  shows "\<exists>out s'. resolve_with env lb s name = (Some (Inr out), s') \<and> out \<in> set outs"
  using assms by (rule resolve_known_name)

definition sample_outs :: "outbound_cfg list" where
  "sample_outs = [\<lparr>oc_name = ''A'', oc_udp = True, oc_kind = ''Socks''\<rparr>, \<lparr>oc_name = ''B'', oc_udp = True, oc_kind = ''Http''\<rparr>]"

definition sample_group :: "string \<Rightarrow> string list \<Rightarrow> group_policy \<Rightarrow> group_config" where
  "sample_group name members policy = \<lparr>gc_name = name, gc_members = members, gc_policy = policy, gc_url = None,
    gc_interval = 300, gc_tolerance = 0, gc_lb_strategy = StickySessions, gc_lb_hash_key_in_user = False\<rparr>"

definition sample_groups :: "group_config list" where
  "sample_groups = [sample_group ''G'' [''H'', ''B''] GSelect, sample_group ''H'' [''A'', ''B''] GUrlTest]"

definition sample_env :: lb_env where
  "sample_env = \<lparr>le_hash = \<lambda>_. 7, le_psl = \<lambda>d. Some d, le_nanos = \<lambda>_. 0, le_now = 0\<rparr>"

lemma sample_builds: "\<exists>r. registry_build sample_outs sample_groups = Inr r"
  by (simp add: registry_build_def sample_outs_def sample_groups_def sample_group_def hm_contains_def)

theorem resolve_reaches_leaf_witness:
  "\<exists>r out s'. registry_build sample_outs sample_groups = Inr r \<and>
     resolve_with sample_env None (record_latency r ''B'' (Some 3)) ''G'' = (Some (Inr out), s') \<and> out \<in> set sample_outs"
proof -
  obtain r where r: "registry_build sample_outs sample_groups = Inr r" using sample_builds by blast
  have "registry_runs r (record_latency r ''B'' (Some 3))" by (rule run_step [OF run_start step_sample])
  from resolve_reaches_leaf [OF r, of "\<lambda>n. if n = ''G'' then 1 else 0" "''G''", OF _ _ _ _ this, of sample_env None] r
  show ?thesis by (auto simp: sample_groups_def sample_group_def)
qed

section \<open>Policies\<close>

definition alive_latency :: "group_state \<Rightarrow> string \<Rightarrow> u32 option" where
  "alive_latency g m = (case hm_get (gs_latencies g) m of Some l \<Rightarrow> l | None \<Rightarrow> None)"

lemma unat_tolerance: "unat (ucast (t :: u16) :: u32) = unat t"
proof -
  have "unat t < 65536" using unsigned_less [of t, where ?'a = nat] by simp
  then have "unat t < 4294967296" by linarith
  then show ?thesis by (simp add: unsigned_ucast_eq take_bit_nat_eq_self_iff del: unsigned_less)
qed

lemma tolerance_word:
  assumes "unat (l :: u32) + unat tol < 2 ^ 32"
  shows "l + tol < b \<longleftrightarrow> unat l + unat tol < unat b"
proof -
  have "unat (l + tol) = unat l + unat tol" using assms by (simp add: unat_add_lem [symmetric])
  then show ?thesis by (simp add: word_less_nat_alt)
qed

lemma best_latency_close:
  assumes "\<forall>m \<in> set ms. \<forall>l. hm_get lats m = Some (Some l) \<longrightarrow> unat l + unat tol < 2 ^ 32"
    and "best_latency tol lats best ms = Some (m, l)"
  shows "(\<forall>n \<in> set ms. \<forall>k. hm_get lats n = Some (Some k) \<longrightarrow> unat l \<le> unat k + unat tol) \<and>
    (\<forall>n k. best = Some (n, k) \<longrightarrow> unat l \<le> unat k)"
  using assms
proof (induction ms arbitrary: best)
  case (Cons x ms)
  show ?case
  proof (cases "hm_get lats x")
    case None
    then show ?thesis using Cons by auto
  next
    case (Some v)
    show ?thesis
    proof (cases v)
      case None
      then show ?thesis using Cons Some by auto
    next
      case v: (Some lat)
      have lim: "unat lat + unat tol < 2 ^ 32" using Cons.prems(1) Some v by auto
      show ?thesis
      proof (cases best)
        case None
        then show ?thesis using Cons.IH [of "Some (x, lat)"] Cons.prems Some v by auto
      next
        case (Some b)
        obtain bn bl where b: "b = (bn, bl)" by fastforce
        show ?thesis
        proof (cases "lat + tol < bl")
          case True
          then have "unat lat + unat tol < unat bl" using tolerance_word [OF lim] by simp
          then show ?thesis
            using Cons.IH [of "Some (x, lat)"] Cons.prems Some \<open>hm_get lats x = Some v\<close> v b True by force
        next
          case False
          then have "unat bl \<le> unat lat + unat tol" using tolerance_word [OF lim] by simp
          then show ?thesis
            using Cons.IH [of "Some (bn, bl)"] Cons.prems Some \<open>hm_get lats x = Some v\<close> v b False by force
        qed
      qed
    qed
  qed
qed simp

lemma best_latency_exists:
  "best \<noteq> None \<or> (\<exists>n \<in> set ms. \<exists>k. hm_get lats n = Some (Some k)) \<Longrightarrow> best_latency tol lats best ms \<noteq> None"
  by (induction ms arbitrary: best) (auto split: option.splits, blast+)

text \<open>
  A url-test group uses a live member that is at most the tolerance slower than the fastest live member,
  whenever it has a live member and no latency is so large that adding the tolerance wraps.
\<close>

theorem url_test_within_tolerance:
  assumes "n \<in> set (gc_members (gs_cfg g))" and "alive_latency g n = Some k"
    and "\<forall>m \<in> set (gc_members (gs_cfg g)). \<forall>l. alive_latency g m = Some l \<longrightarrow> unat l + unat (gc_tolerance (gs_cfg g)) < 2 ^ 32"
  shows "\<exists>m l. pick_url_test g = Some (Inr m) \<and> m \<in> set (gc_members (gs_cfg g)) \<and> alive_latency g m = Some l \<and>
    unat l \<le> unat k + unat (gc_tolerance (gs_cfg g))"
proof -
  let ?tol = "ucast (gc_tolerance (gs_cfg g)) :: u32" and ?ms = "gc_members (gs_cfg g)"
  have t: "unat ?tol = unat (gc_tolerance (gs_cfg g))" by (rule unat_tolerance)
  have al: "alive_latency g m = Some l \<longleftrightarrow> hm_get (gs_latencies g) m = Some (Some l)" for m l
    by (auto simp: alive_latency_def split: option.splits)
  obtain m l where b: "best_latency ?tol (gs_latencies g) None ?ms = Some (m, l)"
    using best_latency_exists [of None ?ms "gs_latencies g" ?tol] assms(1,2) by (auto simp: al)
  have "unat l \<le> unat k + unat ?tol"
    using best_latency_close [OF _ b] assms unfolding al t by blast
  then show ?thesis using best_latency_member [OF b] b t by (auto simp: pick_url_test_def al)
qed

theorem url_test_within_tolerance_witness:
  "\<exists>m l. pick_url_test (group_new (sample_group ''H'' [''A'', ''B''] GUrlTest)
       \<lparr>gs_latencies := [(''A'', None), (''B'', Some 12)]\<rparr>) = Some (Inr m) \<and>
     m \<in> {''A'', ''B''} \<and> unat (l :: u32) \<le> 12"
proof -
  let ?g = "group_new (sample_group ''H'' [''A'', ''B''] GUrlTest)\<lparr>gs_latencies := [(''A'', None), (''B'', Some 12)]\<rparr>"
  have a: "alive_latency ?g ''A'' = None" "alive_latency ?g ''B'' = Some 12"
    by (simp_all add: alive_latency_def hm_get_def)
  have "\<exists>m l. pick_url_test ?g = Some (Inr m) \<and> m \<in> set (gc_members (gs_cfg ?g)) \<and> alive_latency ?g m = Some l \<and>
      unat l \<le> unat (12 :: u32) + unat (gc_tolerance (gs_cfg ?g))"
    by (rule url_test_within_tolerance [where n = "''B''"])
      (use a in \<open>auto simp: group_new_def sample_group_def\<close>)
  then show ?thesis by (auto simp: group_new_def sample_group_def intro!: exI [of _ 0])
qed

text \<open>
  A manual choice is honoured: selecting a member of a select group succeeds exactly when the group lists it,
  and from then on the group resolves through that member; no other policy can be overridden.
\<close>

theorem selection_is_used:
  assumes "registry_inv r" and "hm_get (rg_group_index r) gname = Some gi"
    and "gc_policy (gs_cfg (rg_groups r ! gi)) = GSelect" and "m \<in> set (gc_members (gs_cfg (rg_groups r ! gi)))"
  shows "\<exists>r'. set_selected r gname m = (Inr (), r') \<and> registry_inv r' \<and> same_shape r r' \<and>
    pick_member env lb r' gi = (Some (Inr m), r')"
proof -
  let ?g = "rg_groups r ! gi"
  have "position_of m xs \<noteq> None" if "m \<in> set xs" for xs using that by (induction xs) auto
  then obtain i where i: "position_of m (gc_members (gs_cfg ?g)) = Some i" using assms(4) by blast
  have l: "gi < length (rg_groups r)" using assms(1,2) by (auto simp: registry_inv_def)
  have s: "set_selected r gname m = (Inr (), r\<lparr>rg_groups := list_update (rg_groups r) gi (?g\<lparr>gs_selected := Some i\<rparr>)\<rparr>)"
    using assms(2,3) i by (simp add: set_selected_def)
  then show ?thesis
    using set_selected_keeps [OF assms(1), of gname m] position_of_nth [OF i] l assms(3)
    by (simp add: pick_member_def pick_select_def)
qed

theorem selection_is_used_witness:
  "\<exists>r r'. registry_build sample_outs sample_groups = Inr r \<and> set_selected r ''G'' ''B'' = (Inr (), r') \<and>
     pick_member sample_env None r' 0 = (Some (Inr ''B''), r')"
proof -
  obtain r where r: "registry_build sample_outs sample_groups = Inr r" using sample_builds by blast
  have inv: "registry_inv r"
    using registry_build_inv [OF r] by (simp add: sample_groups_def sample_group_def)
  have f: "hm_get (rg_group_index r) ''G'' = Some 0" "rg_groups r ! 0 = group_new (sample_group ''G'' [''H'', ''B''] GSelect)"
    using r by (auto simp: registry_build_def sample_outs_def sample_groups_def sample_group_def hm_contains_def)
  from selection_is_used [OF inv f(1), of "''B''" sample_env None] r show ?thesis
    by (auto simp: f(2) group_new_def sample_group_def)
qed

text \<open>
  Load balancing evicts failed members: while some member has not failed its latest probe, neither round-robin nor
  consistent hashing gives a connection to one that has, whatever counter, hash and key are.
\<close>

theorem load_balance_avoids_failed:
  assumes "registry_inv r" and "gi < length (rg_groups r)"
    and "gc_policy (gs_cfg (rg_groups r ! gi)) = GLoadBalance"
    and "gc_lb_strategy (gs_cfg (rg_groups r ! gi)) \<noteq> StickySessions"
    and "n \<in> set (gc_members (gs_cfg (rg_groups r ! gi)))" and "lb_alive (rg_groups r ! gi) n"
  shows "\<exists>m. fst (pick_member env lb r gi) = Some (Inr m) \<and> m \<in> set (gc_members (gs_cfg (rg_groups r ! gi))) \<and>
    lb_alive (rg_groups r ! gi) m"
proof -
  let ?g = "rg_groups r ! gi"
  have "group_ok r ?g" using assms(1,2) by (auto simp: registry_inv_def list_all_length)
  then have ms: "gc_members (gs_cfg ?g) \<noteq> []" "length (gc_members (gs_cfg ?g)) \<le> 2 ^ 53" by (simp_all add: group_ok_def)
  have "filter (lb_alive ?g) (gc_members (gs_cfg ?g)) \<noteq> []" using assms(5,6) by (auto simp: filter_empty_conv)
  then show ?thesis
    using assms(3,4) pick_round_robin_in [OF ms, of "rg_lb_counter r"] pick_consistent_in [OF ms, of env lb]
    by (cases "gc_lb_strategy (gs_cfg ?g)") (auto simp: pick_member_def)
qed

text \<open>
  A failed delay test makes a proxy the favourite. The delay test of the control API records a failed probe as a
  latency of zero, which url-test takes for the fastest success: after it, a url-test group whose
  other members have all answered, slower than the tolerance, uses the proxy that has just failed.
\<close>

theorem failed_delay_test_preferred:
  assumes "gc_members (gs_cfg g) = [a, b]" and "a \<noteq> b" and "alive_latency g a = Some l"
    and "gc_policy (gs_cfg g) = GUrlTest" and "unat (gc_tolerance (gs_cfg g)) < unat l"
    and "registry_resolve env r b = (Some (Inr out_cfg), r1)" and "rg_groups r1 ! gi = g" and "gi < length (rg_groups r1)"
    and "probe_url dial url out_cfg = Inl e"
  shows "fst (api_delay env dial elapsed url r b) = 408 \<and>
    fst (pick_member env lb (snd (api_delay env dial elapsed url r b)) gi) = Some (Inr b)"
proof -
  let ?s = "snd (api_delay env dial elapsed url r b)"
  have s: "?s = record_latency r1 b (Some 0)" "fst (api_delay env dial elapsed url r b) = 408"
    using assms(6,9) by (simp_all add: api_delay_def)
  have g: "rg_groups ?s ! gi = g\<lparr>gs_latencies := hm_insert b (Some 0) (gs_latencies g)\<rparr>"
    using assms(1,7,8) by (simp add: s record_latency_def)
  have "hm_get (gs_latencies g) a = Some (Some l)" using assms(3) by (auto simp: alive_latency_def split: option.splits)
  moreover have "(ucast (gc_tolerance (gs_cfg g)) :: u32) < l"
    using assms(5) by (simp add: word_less_nat_alt unat_tolerance)
  ultimately have "pick_url_test (g\<lparr>gs_latencies := hm_insert b (Some 0) (gs_latencies g)\<rparr>) = Some (Inr b)"
    using assms(1,2) by (simp add: pick_url_test_def)
  then show ?thesis using g s(2) assms(4) by (simp add: pick_member_def)
qed

definition sample_registry :: registry where
  "sample_registry = \<lparr>rg_outbounds = sample_outs, rg_index = [(''A'', 0), (''B'', 1)],
    rg_groups = [group_new (sample_group ''H'' [''A'', ''B''] GUrlTest)\<lparr>gs_latencies := [(''A'', Some 20)]\<rparr>],
    rg_group_index = [(''H'', 0)], rg_lb_counter = 0\<rparr>"

theorem failed_delay_test_preferred_witness:
  "fst (pick_member sample_env None
     (snd (api_delay sample_env (\<lambda>_ _ _. Inl Rejected) 5 ''http://t/'' sample_registry ''B'')) 0) = Some (Inr ''B'')"
proof -
  have "registry_resolve sample_env sample_registry ''B'' = (Some (Inr (sample_outs ! 1)), sample_registry)"
    by (simp add: registry_resolve_def resolve_with_def sample_registry_def hm_get_def numeral_eq_Suc)
  moreover have "\<exists>e. probe_url (\<lambda>_ _ _. Inl Rejected) ''http://t/'' (sample_outs ! 1) = Inl e"
    by (auto simp: probe_url_def probe_expect_def rbind_def split: sum.splits)
  ultimately show ?thesis
    using failed_delay_test_preferred [of "rg_groups sample_registry ! 0" "''A''" "''B''" 20 sample_env sample_registry
      "sample_outs ! 1" sample_registry 0 "\<lambda>_ _ _. Inl Rejected" "''http://t/''"]
    by (auto simp: sample_registry_def group_new_def sample_group_def alive_latency_def hm_get_def)
qed

theorem load_balance_avoids_failed_witness:
  "\<exists>m. fst (pick_member sample_env None (sample_registry\<lparr>rg_groups :=
       [group_new (sample_group ''H'' [''A'', ''B''] GLoadBalance\<lparr>gc_lb_strategy := RoundRobin\<rparr>)\<lparr>gs_latencies := [(''A'', None)]\<rparr>]\<rparr>) 0) =
       Some (Inr m) \<and> m = ''B''"
proof -
  let ?g = "group_new (sample_group ''H'' [''A'', ''B''] GLoadBalance\<lparr>gc_lb_strategy := RoundRobin\<rparr>)\<lparr>gs_latencies := [(''A'', None)]\<rparr>"
  let ?r = "sample_registry\<lparr>rg_groups := [?g]\<rparr>"
  have inv: "registry_inv ?r"
    by (auto simp: registry_inv_def sample_registry_def sample_outs_def hm_get_def group_new_def sample_group_def group_ok_def
      sticky_inv_empty known_name_def hm_contains_def split: if_splits)
  have "lb_alive ?g ''B''" "\<not> lb_alive ?g ''A''" by (simp_all add: lb_alive_def hm_get_def)
  with load_balance_avoids_failed [OF inv, of 0 "''B''" sample_env None] show ?thesis
    by (auto simp: group_new_def sample_group_def)
qed

theorem jump_hash_consistent_witness:
  "\<exists>i. jump_hash 42 3 = Some i \<and> jump_hash 42 (3 + 1) \<in> {Some i, Some 3}"
proof -
  obtain i where i: "jump_hash 42 3 = Some i" using jump_hash_bucket [of 3 42] by auto
  from jump_hash_consistent [OF _ _ i] i show ?thesis by simp
qed

section \<open>Sticky sessions\<close>

lemma sticky_get_put:
  assumes "now - since < STICKY_TTL" and "idx < n"
  shows "fst (sticky_get now (sticky_put since sc key idx) key n) = Some idx"
  using assms by (simp add: sticky_get_def sticky_put_def Let_def)

lemma pick_sticky_hit:
  assumes "fst (sticky_get (le_now env) (gs_sticky g) (le_hash env (group_key env lb (gs_cfg g) True))
      (max (length (gc_members (gs_cfg g))) 1)) = Some idx"
    and "idx < length (gc_members (gs_cfg g))" and "lb_alive g (gc_members (gs_cfg g) ! idx)"
  shows "fst (pick_sticky env lb g) = Some (Inr (gc_members (gs_cfg g) ! idx))"
proof -
  let ?key = "le_hash env (group_key env lb (gs_cfg g) True)" and ?len = "max (length (gc_members (gs_cfg g))) 1"
  obtain sc where c: "sticky_get (le_now env) (gs_sticky g) ?key ?len = (Some idx, sc)" using assms(1) by (metis prod.collapse)
  have "alive_at (g\<lparr>gs_sticky := sc\<rparr>) (int idx) = Some (gc_members (gs_cfg g) ! idx)"
    using assms(2,3) by (simp add: alive_at_def lb_alive_def)
  then have "sticky_loop 4 1 env ?key (g\<lparr>gs_sticky := sc\<rparr>) (int idx) = Some (Some (gc_members (gs_cfg g) ! idx, int idx))"
    by (simp add: numeral_eq_Suc)
  then show ?thesis unfolding pick_sticky_def Let_def c prod.case option.case by simp
qed

lemma pick_sticky_miss:
  assumes ok: "group_ok r g" and miss: "fst (sticky_get (le_now env) (gs_sticky g) (le_hash env (group_key env lb (gs_cfg g) True))
      (max (length (gc_members (gs_cfg g))) 1)) = None"
    and p: "pick_sticky env lb g = (Some (Inr m), g')"
  shows "\<exists>sc idx. idx < length (gc_members (gs_cfg g)) \<and> gc_members (gs_cfg g) ! idx = m \<and>
    g' = g\<lparr>gs_sticky := sticky_put (le_now env) sc (le_hash env (group_key env lb (gs_cfg g) True)) idx\<rparr>"
proof -
  let ?key = "le_hash env (group_key env lb (gs_cfg g) True)" and ?ms = "gc_members (gs_cfg g)"
  obtain sc where c: "sticky_get (le_now env) (gs_sticky g) ?key (max (length ?ms) 1) = (None, sc)"
    using miss by (metis prod.collapse)
  have ms: "?ms \<noteq> []" "length ?ms \<le> 2 ^ 53" using ok by (simp_all add: group_ok_def)
  obtain idx where i: "jump_hash (?key + le_nanos env 0) (int (max (length ?ms) 1)) = Some idx"
    using bucket_hash [OF ms(2), of "?key + le_nanos env 0"] by auto
  obtain x where x: "sticky_loop 4 1 env ?key (g\<lparr>gs_sticky := sc\<rparr>) idx = Some x"
    "\<And>m i. x = Some (m, i) \<Longrightarrow> alive_at (g\<lparr>gs_sticky := sc\<rparr>) i = Some m"
    using sticky_loop_returns [of "g\<lparr>gs_sticky := sc\<rparr>" 4 1 env ?key idx] ms(2) by (auto simp del: sticky_loop.simps)
  show ?thesis
  proof (cases x)
    case None
    then have "m = hd ?ms" "g' = g\<lparr>gs_sticky := sticky_put (le_now env) sc ?key 0\<rparr>"
      using p first_member_in [OF ms(1)] unfolding pick_sticky_def Let_def c prod.case i option.case x(1) by simp_all
    then show ?thesis using ms(1) by (intro exI [of _ sc] exI [of _ 0]) (simp add: hd_conv_nth)
  next
    case (Some mi)
    obtain m' i' where mi: "mi = (m', i')" by fastforce
    then have "m = m'" "g' = g\<lparr>gs_sticky := sticky_put (le_now env) sc ?key (nat i')\<rparr>"
      using p Some unfolding pick_sticky_def Let_def c prod.case i option.case x(1) by simp_all
    moreover have "nat i' < length ?ms \<and> ?ms ! nat i' = m'"
      using x(2) [of m' i'] Some mi by (auto simp: alive_at_def Let_def split: if_splits)
    ultimately show ?thesis by (intro exI [of _ sc] exI [of _ "nat i'"]) simp
  qed
qed

text \<open>
  Sticky sessions pin: when a connection without a pin was given a member, another connection with the same
  key within the next ten minutes gets the same member while that is alive.
\<close>

theorem sticky_sessions_pin:
  assumes "group_ok r g" and "fst (sticky_get (le_now env) (gs_sticky g) (le_hash env (group_key env lb (gs_cfg g) True))
      (max (length (gc_members (gs_cfg g))) 1)) = None"
    and "pick_sticky env lb g = (Some (Inr m), g')" and "lb_alive g m"
    and "le_hash env' (group_key env' lb' (gs_cfg g) True) = le_hash env (group_key env lb (gs_cfg g) True)"
    and "le_now env' < le_now env + STICKY_TTL"
  shows "fst (pick_sticky env' lb' g') = Some (Inr m)"
proof -
  obtain sc idx where i: "idx < length (gc_members (gs_cfg g))" "gc_members (gs_cfg g) ! idx = m"
    "g' = g\<lparr>gs_sticky := sticky_put (le_now env) sc (le_hash env (group_key env lb (gs_cfg g) True)) idx\<rparr>"
    using pick_sticky_miss [OF assms(1-3)] by blast
  have "le_now env' - le_now env < STICKY_TTL" using assms(6) by (simp add: STICKY_TTL_def secs_def)
  then show ?thesis
    using pick_sticky_hit [of env' g' lb' idx] sticky_get_put [of "le_now env'" "le_now env" idx] i assms(4,5)
    by (simp add: lb_alive_def)
qed

theorem sticky_sessions_pin_witness:
  "\<exists>m g'. pick_sticky sample_env None (group_new (sample_group ''L'' [''A'', ''B''] GLoadBalance)) = (Some (Inr m), g') \<and>
     fst (pick_sticky (sample_env\<lparr>le_now := 5, le_nanos := \<lambda>_. 99\<rparr>) None g') = Some (Inr m)"
proof -
  let ?g = "group_new (sample_group ''L'' [''A'', ''B''] GLoadBalance)"
  let ?r = "\<lparr>rg_outbounds = sample_outs, rg_index = [(''A'', 0), (''B'', 1)], rg_groups = [?g],
    rg_group_index = [(''L'', 0)], rg_lb_counter = 0\<rparr>"
  have ok: "group_ok ?r ?g"
    by (simp add: group_ok_def group_new_def sample_group_def sticky_inv_empty known_name_def hm_contains_def hm_get_def)
  obtain m g' where p: "pick_sticky sample_env None ?g = (Some (Inr m), g')" using pick_sticky_in [OF ok] by blast
  have "fst (pick_sticky (sample_env\<lparr>le_now := 5, le_nanos := \<lambda>_. 99\<rparr>) None g') = Some (Inr m)"
    by (rule sticky_sessions_pin [OF ok _ p])
      (simp_all add: group_new_def sticky_get_def sticky_empty_def lb_alive_def sample_env_def STICKY_TTL_def secs_def)
  with p show ?thesis by blast
qed

end
