(* ===== verification/Dns_Policy.thy ===== *)
theory Dns_Policy
  imports Upstream Edns Rule
begin

text \<open>
  Which upstream a name is asked at: the nameserver policy (src/engine/src/dns/policy.rs) and the DNS
  rules (src/engine/src/dns/rules.rs), with the in-place rewriting of answer TTLs, which is related to
  the message format of \<^theory_text>\<open>Dns_Wire\<close>. The regex crate is the parameter \<open>regex_new\<close>, as in the rules.
\<close>

section \<open>Nameserver policy\<close>

type_synonym nameserver_policy = "(domain_matcher \<times> upstream list) list"

definition policy_servers :: "platform \<Rightarrow> string list \<Rightarrow> upstream list result" where
  "policy_servers pf servers =
    collect_results
      (map (\<lambda>s. ok_or (parse_upstream pf (trim s)) (Config ''nameserver-policy: unsupported nameserver'')) servers)"

definition policy_rule :: "platform \<Rightarrow> string \<times> string list \<Rightarrow> (domain_matcher \<times> upstream list) result" where
  "policy_rule pf spec =
    (let key = trim (fst spec); servers = snd spec in
     if key = [] then Inl (Config ''nameserver-policy key is empty'')
     else if starts_with ''#'' key then Inl (Config ''nameserver-policy key looks like a comment'')
     else if CHR '':'' \<in> set key then Inl (Config ''nameserver-policy key: set prefixes are not supported here'')
     else if CHR ''*'' \<in> set key \<and> \<not> starts_with ''*.'' key
       then Inl (Config ''nameserver-policy key: only the wildcard form is supported'')
     else if servers = [] then Inl (Config ''nameserver-policy: no nameservers given'')
     else rbind (policy_servers pf servers) (\<lambda>us. Inr (add_domain_line key domain_matcher_empty, us)))"

definition policy_parse :: "platform \<Rightarrow> (string \<times> string list) list \<Rightarrow> nameserver_policy result" where
  "policy_parse pf specs = collect_results (map (policy_rule pf) specs)"

definition match_upstreams :: "nameserver_policy \<Rightarrow> string \<Rightarrow> upstream list option" where
  "match_upstreams p name = map_option snd (find (\<lambda>(m, _). domain_matcher_matches m name) p)"

section \<open>DNS rules\<close>

record rule_spec =
  rs_domains :: "string list"
  rs_domain_suffix :: "string list"
  rs_domain_keyword :: "string list"
  rs_domain_regex :: "string list"
  rs_query_type :: "u16 list"
  rs_invert :: bool
  rs_server_urls :: "string list"
  rs_disable_cache :: bool
  rs_rewrite_ttl :: "u32 option"
  rs_client_subnet :: "string option"

record dns_rule_matcher =
  dr_domains :: "domain_matcher option"
  dr_query_type :: "u16 list"
  dr_network :: "network_kind list"
  dr_invert :: bool

record dns_rule =
  dns_matcher :: dns_rule_matcher
  dns_server :: "upstream list option"
  dns_disable_cache :: bool
  dns_rewrite_ttl :: "u32 option"
  dns_client_subnet :: "client_subnet option"

definition fields_match :: "dns_rule_matcher \<Rightarrow> string \<Rightarrow> u16 \<Rightarrow> network_kind option \<Rightarrow> bool" where
  "fields_match m name qtype network =
    (if (case dr_domains m of Some d \<Rightarrow> \<not> domain_matcher_matches d name | None \<Rightarrow> False) then False
     else if dr_query_type m \<noteq> [] \<and> qtype \<notin> set (dr_query_type m) then False
     else if (case network of Some n \<Rightarrow> dr_network m \<noteq> [] \<and> n \<notin> set (dr_network m) | None \<Rightarrow> False) then False
     else True)"

definition matches_with_network :: "dns_rule_matcher \<Rightarrow> string \<Rightarrow> u16 \<Rightarrow> network_kind option \<Rightarrow> bool" where
  "matches_with_network m name qtype network = (fields_match m name qtype network \<noteq> dr_invert m)"

definition dns_rule_matches :: "dns_rule_matcher \<Rightarrow> string \<Rightarrow> u16 \<Rightarrow> bool" where
  "dns_rule_matches m name qtype = matches_with_network m name qtype None"

fun fold_result :: "('a \<Rightarrow> 'b \<Rightarrow> 'b result) \<Rightarrow> 'a list \<Rightarrow> 'b \<Rightarrow> 'b result" where
  "fold_result f [] s = Inr s"
| "fold_result f (x # xs) s = rbind (f x s) (fold_result f xs)"

definition spec_domain :: "string \<Rightarrow> domain_matcher \<Rightarrow> domain_matcher result" where
  "spec_domain p m =
    (let p = trim p in
     if p = [] then Inl (Config ''dns.rules: empty domain pattern'')
     else if CHR ''*'' \<in> set p \<or> starts_with ''.'' p \<or> starts_with ''+.'' p
       then Inl (Config ''dns.rules: domain looks like a wildcard/suffix pattern'')
     else Inr (add_exact p m))"

definition spec_suffix :: "string \<Rightarrow> domain_matcher \<Rightarrow> domain_matcher result" where
  "spec_suffix p m =
    (let s = trim p;
         s = (case strip_prefix ''+.'' s of Some r \<Rightarrow> r | None \<Rightarrow> s);
         s = (case strip_prefix ''*.'' s of Some r \<Rightarrow> r | None \<Rightarrow> s);
         s = trim_start_matches CHR ''.'' s
     in
     if s = [] then Inl (Config ''dns.rules: empty domain_suffix'')
     else if CHR ''*'' \<in> set s then Inl (Config ''dns.rules: domain_suffix star'')
     else Inr (add_suffix s m))"

definition spec_keyword :: "string \<Rightarrow> domain_matcher \<Rightarrow> domain_matcher result" where
  "spec_keyword k m =
    (let k = trim k in if k = [] then Inl (Config ''dns.rules: empty domain_keyword'') else Inr (add_keyword k m))"

definition spec_regex :: "(string \<Rightarrow> regex option) \<Rightarrow> string \<Rightarrow> domain_matcher \<Rightarrow> domain_matcher result" where
  "spec_regex regex_new p m =
    (let p = trim p in if p = [] then Inl (Config ''dns.rules: empty domain_regex'') else add_regex regex_new p m)"

definition from_spec :: "(string \<Rightarrow> regex option) \<Rightarrow> rule_spec \<Rightarrow> dns_rule_matcher result" where
  "from_spec regex_new spec =
    rbind (fold_result spec_domain (rs_domains spec) domain_matcher_empty) (\<lambda>m.
    rbind (fold_result spec_suffix (rs_domain_suffix spec) m) (\<lambda>m.
    rbind (fold_result spec_keyword (rs_domain_keyword spec) m) (\<lambda>m.
    rbind (fold_result (spec_regex regex_new) (rs_domain_regex spec) m) (\<lambda>m.
      Inr \<lparr>dr_domains =
             (if rs_domains spec \<noteq> [] \<or> rs_domain_suffix spec \<noteq> [] \<or> rs_domain_keyword spec \<noteq> [] \<or>
                 rs_domain_regex spec \<noteq> [] then Some m else None),
           dr_query_type = rs_query_type spec, dr_network = [], dr_invert = rs_invert spec\<rparr>))))"

definition parse_client_subnet :: "string \<Rightarrow> client_subnet result" where
  "parse_client_subnet raw0 =
    (let raw = trim raw0 in
     rbind
       (case split_once CHR ''/'' raw of
          Some (addr, pre) \<Rightarrow>
            rbind (ok_or (parse_u8 (trim pre)) (Config ''bad client_subnet: prefix is not a number'')) (\<lambda>p.
              Inr (trim addr, Some p))
        | None \<Rightarrow> Inr (raw, None)) (\<lambda>(addr_str, pre).
     rbind (ok_or (parse_ip addr_str) (Config ''bad client_subnet: not an IP address'')) (\<lambda>addr.
     let mx = (if is_ipv4 addr then 32 else 128);
         source_prefix = (case pre of Some p \<Rightarrow> p | None \<Rightarrow> mx)
     in
     if mx < source_prefix then Inl (Config ''bad client_subnet: prefix exceeds the family'')
     else Inr \<lparr>cs_addr = addr, cs_source_prefix = source_prefix, cs_scope_prefix = 0\<rparr>)))"

definition rule_server :: "platform \<Rightarrow> string \<Rightarrow> upstream result" where
  "rule_server pf url0 =
    (let url = trim url0 in
     if url = [] then Inl (Config ''dns.rules: empty server URL'')
     else ok_or (parse_upstream pf url) (Config ''dns.rules: unsupported server''))"

definition dns_rule_parse :: "(string \<Rightarrow> regex option) \<Rightarrow> platform \<Rightarrow> rule_spec \<Rightarrow> dns_rule result" where
  "dns_rule_parse regex_new pf spec =
    rbind (from_spec regex_new spec) (\<lambda>matcher.
    if \<not> (dr_domains matcher \<noteq> None \<or> rs_query_type spec \<noteq> [] \<or> rs_server_urls spec \<noteq> [] \<or>
          rs_disable_cache spec \<or> rs_rewrite_ttl spec \<noteq> None \<or> rs_client_subnet spec \<noteq> None)
    then Inl (Config ''dns.rules: rule has no matcher fields and no options'')
    else
      rbind (if rs_server_urls spec = [] then Inr None
             else rbind (collect_results (map (rule_server pf) (rs_server_urls spec))) (\<lambda>us. Inr (Some us))) (\<lambda>server.
      rbind (case rs_client_subnet spec of
               Some raw \<Rightarrow> rbind (parse_client_subnet raw) (\<lambda>s. Inr (Some s))
             | None \<Rightarrow> Inr None) (\<lambda>subnet.
        Inr \<lparr>dns_matcher = matcher, dns_server = server, dns_disable_cache = rs_disable_cache spec,
             dns_rewrite_ttl = rs_rewrite_ttl spec, dns_client_subnet = subnet\<rparr>)))"

definition dns_rules_parse :: "(string \<Rightarrow> regex option) \<Rightarrow> platform \<Rightarrow> rule_spec list \<Rightarrow> dns_rule list result" where
  "dns_rules_parse regex_new pf specs = collect_results (map (dns_rule_parse regex_new pf) specs)"

definition match_rule :: "dns_rule list \<Rightarrow> string \<Rightarrow> u16 \<Rightarrow> dns_rule option" where
  "match_rule rules name qtype = find (\<lambda>r. dns_rule_matches (dns_matcher r) name qtype) rules"

definition match_rule_with_network :: "dns_rule list \<Rightarrow> string \<Rightarrow> u16 \<Rightarrow> network_kind \<Rightarrow> dns_rule option" where
  "match_rule_with_network rules name qtype network =
    find (\<lambda>r. matches_with_network (dns_matcher r) name qtype (Some network)) rules"

section \<open>Rewriting answer TTLs\<close>

function skip_name :: "bytes \<Rightarrow> nat \<Rightarrow> nat result" where
  "skip_name msg off =
    (if length msg \<le> off then Inl (Dns ''name runs past end'')
     else
       let len = msg ! off in
       if len AND 0xC0 = 0x00 then
         (if len = 0 then Inr (off + 1)
          else if length msg < off + 1 + unat len then Inl (Dns ''label runs past end'')
          else skip_name msg (off + 1 + unat len))
       else if len AND 0xC0 = 0xC0 then
         (if length msg < off + 2 then Inl (Dns ''truncated pointer'') else Inr (off + 2))
       else Inl (Dns ''reserved label type''))"
  by pat_completeness auto
termination
  by (relation "measure (\<lambda>(msg, off). length msg - off)") auto

declare skip_name.simps [simp del]

fun skip_questions :: "nat \<Rightarrow> bytes \<Rightarrow> nat \<Rightarrow> nat result" where
  "skip_questions 0 resp off = Inr off"
| "skip_questions (Suc n) resp off =
    rbind (skip_name resp off) (\<lambda>off.
      if length resp < off + 4 then Inl (Dns ''truncated question'') else skip_questions n resp (off + 4))"

definition put_at :: "nat \<Rightarrow> bytes \<Rightarrow> bytes \<Rightarrow> bytes" where
  "put_at off bs raw = take off raw @ bs @ drop (off + length bs) raw"

text \<open>The answers are rewritten in place; an error leaves those before it rewritten.\<close>

fun rewrite_answers :: "nat \<Rightarrow> u32 \<Rightarrow> nat \<Rightarrow> bytes \<Rightarrow> unit result \<times> bytes" where
  "rewrite_answers 0 ttl off resp = (Inr (), resp)"
| "rewrite_answers (Suc n) ttl off resp =
    (case skip_name resp off of
       Inl e \<Rightarrow> (Inl e, resp)
     | Inr off \<Rightarrow>
         if length resp < off + 10 then (Inl (Dns ''truncated record''), resp)
         else
           let resp = put_at (off + 4) (u32_be ttl) resp;
               rdlength = unat (u16_from (resp ! (off + 8)) (resp ! (off + 9)))
           in
           if length resp < off + 10 + rdlength then (Inl (Dns ''truncated rdata''), resp)
           else rewrite_answers n ttl (off + 10 + rdlength) resp)"

definition rewrite_ttl :: "bytes \<Rightarrow> u32 \<Rightarrow> unit result \<times> bytes" where
  "rewrite_ttl resp ttl =
    (if length resp < 12 then (Inl (Dns ''message shorter than header''), resp)
     else
       let qdcount = unat (u16_from (resp ! 4) (resp ! 5)); ancount = unat (u16_from (resp ! 6) (resp ! 7)) in
       case skip_questions qdcount resp 12 of
         Inl e \<Rightarrow> (Inl e, resp)
       | Inr off \<Rightarrow> rewrite_answers ancount ttl off resp)"

section \<open>Skipping a name is reading it\<close>

lemma skip_name_at: "name_at raw pos j labels used \<Longrightarrow> skip_name raw pos = Inr (pos + used)"
proof (induction rule: name_at.induct)
  case (name_root pos)
  then show ?case by (simp add: skip_name.simps)
next
  case (name_label_step pos j labels used)
  then show ?case by (simp add: skip_name.simps [of raw pos] Let_def)
next
  case (name_pointer pos j labels used)
  then show ?case by (simp add: skip_name.simps [of raw pos] Let_def)
qed

lemma skip_name_read: "read_name raw off = Inr (name, used) \<Longrightarrow> skip_name raw off = Inr (off + used)"
  by (auto simp: read_name_iff dest: skip_name_at)

lemma skip_questions_parse:
  "parse_questions n raw off = Inr (qs, off') \<Longrightarrow> skip_questions n raw off = Inr off'"
proof (induction n arbitrary: off qs)
  case (Suc n)
  from Suc.prems obtain name used qs' where
    "read_name raw off = Inr (name, used)" "\<not> length raw < off + used + 4"
    "parse_questions n raw (off + used + 4) = Inr (qs', off')"
    by (auto simp: rbind_Inr_iff Let_def split: if_splits prod.splits)
  with Suc.IH [of "off + used + 4"] show ?case by (simp add: skip_name_read)
qed simp

text \<open>
  The TTL rewriter and the message parser agree on where names and questions end: wherever the
  parser reads a name, the rewriter skips to the same offset without following its pointers, and
  likewise over the whole question section.
\<close>

theorem skip_agrees_with_parser:
  "(read_name raw off = Inr (name, used) \<longrightarrow> skip_name raw off = Inr (off + used)) \<and>
   (parse_questions n raw off = Inr (qs, off') \<longrightarrow> skip_questions n raw off = Inr off')"
  using skip_name_read skip_questions_parse by blast

theorem skip_agrees_with_parser_witness:
  "read_name [1, 0x61, 0] 0 = Inr (''a'', 3) \<and> skip_name [1, 0x61, 0] 0 = Inr 3"
proof -
  have "read_name ([] @ write_name [] ''a'' @ []) 0 = Inr (to_lower ''a'', length (write_name [] ''a''))"
    by (rule read_name_written) (simp_all add: dns_name_ok_def label_ok_def text_eval)
  then have r: "read_name [1, 0x61, 0] 0 = Inr (''a'', 3)"
    by (simp add: write_name_def write_label_def trim_end_matches_def text_eval)
  with skip_agrees_with_parser [of "[1, 0x61, 0]" 0 "''a''" 3 0 "[]" 0] show ?thesis by simp
qed

section \<open>Rewriting is rebuilding\<close>

lemma skip_pointer:
  "length pre = off \<Longrightarrow> skip_name (pre @ 0xC0 # b # rest) off = Inr (off + 2)"
  by (simp add: skip_name.simps [of "pre @ 0xC0 # b # rest"] nth_append)

lemma put_at_behind:
  "length pre = off \<Longrightarrow> length bs = length old \<Longrightarrow> put_at off bs (pre @ old @ rest) = pre @ bs @ rest"
  by (simp add: put_at_def)

lemma rewrite_answers_written:
  assumes "length pre = off"
  shows "rewrite_answers (length as) ttl off (pre @ concat (map write_answer as)) =
    (Inr (), pre @ concat (map write_answer (map (\<lambda>(ip, _). (ip, ttl)) as)))"
  using assms
proof (induction as arbitrary: pre off)
  case (Cons a as)
  obtain ip t where a: "a = (ip, t)" by (cases a)
  let ?ty = "u16_be (if is_ipv4 ip then TYPE_A else TYPE_AAAA)" and ?len = "u16_be (word_of_nat (length (octets ip)))"
  let ?rest = "concat (map write_answer as)"
  let ?old = "(pre @ [0xC0, 0x0C] @ ?ty @ u16_be 1) @ u32_be t @ ?len @ octets ip @ ?rest"
  let ?new = "(pre @ [0xC0, 0x0C] @ ?ty @ u16_be 1) @ u32_be ttl @ ?len @ octets ip @ ?rest"
  have w: "pre @ concat (map write_answer (a # as)) = ?old" by (simp add: a write_answer_parts)
  have sk: "skip_name ?old off = Inr (off + 2)" using skip_pointer [OF Cons.prems, of "0x0C"] by simp
  have put: "put_at (off + 2 + 4) (u32_be ttl) ?old = ?new" using Cons.prems by (intro put_at_behind) simp_all
  have f: "?new ! (off + 2 + 8) = ucast (drop_bit 8 (word_of_nat (length (octets ip)) :: u16))"
    "?new ! (off + 2 + 9) = ucast (word_of_nat (length (octets ip)) :: u16)"
    using Cons.prems by (simp_all add: be_bytes_2 be_bytes_4 nth_append)
  have n: "unat (u16_from (?new ! (off + 2 + 8)) (?new ! (off + 2 + 9))) = length (octets ip)"
    unfolding f u16_from_split using length_octets_bound [of ip] by (simp add: of_nat_u16_bytes)
  have "length ?old = off + 2 + 10 + length (octets ip) + length ?rest" using Cons.prems by simp
  then have l: "\<not> length ?old < off + 2 + 10" "\<not> length ?new < off + 2 + 10 + length (octets ip)"
    using Cons.prems by simp_all
  have "rewrite_answers (length (a # as)) ttl off ?old =
      rewrite_answers (length as) ttl (off + 2 + 10 + length (octets ip)) ?new"
    unfolding list.size(4) Suc_eq_plus1 [symmetric] add_Suc_right add_0_right
    by (simp only: rewrite_answers.simps sk sum.case l if_False put n Let_def)
  also have "?new = (pre @ write_answer (ip, ttl)) @ ?rest" by (simp add: write_answer_parts)
  also have "rewrite_answers (length as) ttl (off + 2 + 10 + length (octets ip)) \<dots> =
      (Inr (), (pre @ write_answer (ip, ttl)) @ concat (map write_answer (map (\<lambda>(ip, _). (ip, ttl)) as)))"
    using Cons.prems by (intro Cons.IH) (simp add: write_answer_parts)
  finally show ?case using w a by simp
qed simp

text \<open>
  Rewriting the TTL of a response in place is building the response with that TTL: for a response
  with well-formed questions and counts that fit, every answer gets the new TTL and no other byte of
  the message changes.
\<close>

theorem rewrite_ttl_rebuilds:
  assumes "dm_questions query = q # qs" and "\<forall>q \<in> set (q # qs). dns_name_ok (q_name q)"
    and "length (q # qs) < 65536" and "length as < 65536"
  shows "rewrite_ttl (build_response query rcode as) ttl =
    (Inr (), build_response query rcode (map (\<lambda>(ip, _). (ip, ttl)) as))"
proof -
  define h where "h = u16_be (dm_id query) @ u16_be (response_flags query rcode) @
    u16_be (word_of_nat (length (q # qs))) @ u16_be (word_of_nat (length as)) @ u16_be 0 @ u16_be 0"
  define Q where "Q = concat (map written_question (q # qs))"
  let ?raw = "h @ Q @ concat (map write_answer as)"
  have raw: "build_response query rcode bs = h @ Q @ concat (map write_answer bs)" if "length bs = length as" for bs
    using that by (simp add: build_response_def assms(1) foldl_write_question Let_def h_def Q_def
      del: foldl_Cons list.map concat.simps)
  have h: "length h = 12" by (simp add: h_def)
  have "parse_questions (length (q # qs)) ?raw 12 = Inr (map question_lower (q # qs), 12 + length Q)"
    using assms(2) h unfolding Q_def by (intro parse_questions_written) simp_all
  then have sq: "skip_questions (length (q # qs)) ?raw 12 = Inr (12 + length Q)" by (rule skip_questions_parse)
  have c: "unat (u16_from (?raw ! 4) (?raw ! 5)) = length (q # qs)" "unat (u16_from (?raw ! 6) (?raw ! 7)) = length as"
    using assms(3,4) by (simp_all add: h_def be_bytes_2 u16_from_split of_nat_u16_bytes del: of_nat_Suc list.size)
  have "rewrite_answers (length as) ttl (12 + length Q) ((h @ Q) @ concat (map write_answer as)) =
      (Inr (), (h @ Q) @ concat (map write_answer (map (\<lambda>(ip, _). (ip, ttl)) as)))"
    using h by (intro rewrite_answers_written) simp
  then have "rewrite_ttl ?raw ttl = (Inr (), h @ Q @ concat (map write_answer (map (\<lambda>(ip, _). (ip, ttl)) as)))"
    using h by (simp add: rewrite_ttl_def c sq del: list.size skip_questions.simps rewrite_answers.simps)
  then show ?thesis using raw [of as] raw [of "map (\<lambda>(ip, _). (ip, ttl)) as"] by simp
qed

theorem rewrite_ttl_rebuilds_witness:
  "rewrite_ttl (build_response
      \<lparr>dm_id = 9, dm_flags = 0x0100, dm_opcode = 0, dm_rcode = 0,
       dm_questions = [\<lparr>q_name = ''a.b'', q_type = 1, q_class = 1\<rparr>], dm_answers = [], dm_raw = []\<rparr>
      0 [(V4 0x01020304, 60)]) 7 =
    (Inr (), build_response
      \<lparr>dm_id = 9, dm_flags = 0x0100, dm_opcode = 0, dm_rcode = 0,
       dm_questions = [\<lparr>q_name = ''a.b'', q_type = 1, q_class = 1\<rparr>], dm_answers = [], dm_raw = []\<rparr>
      0 [(V4 0x01020304, 7)])"
proof -
  have "dns_name_ok ''a.b''" by (simp add: dns_name_ok_def label_ok_def text_eval)
  then show ?thesis
    using rewrite_ttl_rebuilds [of "\<lparr>dm_id = 9, dm_flags = 0x0100, dm_opcode = 0, dm_rcode = 0,
        dm_questions = [\<lparr>q_name = ''a.b'', q_type = 1, q_class = 1\<rparr>], dm_answers = [], dm_raw = []\<rparr>"
        "\<lparr>q_name = ''a.b'', q_type = 1, q_class = 1\<rparr>" "[]" "[(V4 0x01020304, 60)]" 0 7] by simp
qed

section \<open>First match\<close>

definition policy_covers :: "string \<Rightarrow> string \<Rightarrow> bool" where
  "policy_covers key name = line_covers (to_lower (trim (trim key))) (to_lower name)"

lemma policy_rule_Inr:
  assumes "policy_rule pf spec = Inr (m, us)"
  shows "domain_matcher_matches m name \<longleftrightarrow> policy_covers (fst spec) name" and "policy_servers pf (snd spec) = Inr us"
proof -
  have m: "m = add_domain_line (trim (fst spec)) domain_matcher_empty" and "policy_servers pf (snd spec) = Inr us"
    using assms by (auto simp: policy_rule_def Let_def rbind_Inr_iff split: if_splits)
  then show "policy_servers pf (snd spec) = Inr us" by simp
  have "\<not> domain_matcher_matches domain_matcher_empty name"
    by (simp add: domain_matcher_matches_def domain_matcher_empty_def Let_def)
  then show "domain_matcher_matches m name \<longleftrightarrow> policy_covers (fst spec) name"
    using add_domain_line_covers [of "trim (fst spec)" domain_matcher_empty name] m by (simp add: policy_covers_def)
qed

text \<open>
  A parsed nameserver policy answers with the servers of the first key that covers the name: the
  upstreams found are those of that entry, in their order, and there are none exactly when no key
  covers the name.
\<close>

theorem policy_first_match:
  assumes "policy_parse pf specs = Inr p"
  shows "match_upstreams p name =
    (case find (\<lambda>(key, _). policy_covers key name) specs of
       None \<Rightarrow> None
     | Some (_, servers) \<Rightarrow> result_ok (policy_servers pf servers))"
proof -
  from assms have "map (policy_rule pf) specs = map Inr p"
    by (simp add: policy_parse_def collect_results_Inr_iff)
  then show ?thesis
  proof (induction specs arbitrary: p)
    case (Cons spec specs)
    then obtain m us p' where p: "p = (m, us) # p'" and r: "policy_rule pf spec = Inr (m, us)"
      and rest: "map (policy_rule pf) specs = map Inr p'" by (cases p) auto
    show ?case
      using Cons.IH [OF rest] policy_rule_Inr [OF r] p
      by (cases spec) (auto simp: match_upstreams_def result_ok_def)
  qed (simp add: match_upstreams_def)
qed

theorem policy_first_match_witness:
  "match_upstreams [(add_domain_line ''+.a.test'' domain_matcher_empty, [URcode 3])] ''x.a.test'' = Some [URcode 3]"
proof -
  let ?pf = "\<lparr>pf_file = \<lambda>_. None, pf_leases = [], pf_lookup = \<lambda>_ _. None\<rparr>"
  have t: "trim ''+.a.test'' = ''+.a.test''" "trim ''rcode://name_error'' = ''rcode://name_error''"
    by (simp_all add: trim_no_ws ws_char_def ws_forms_def)
  have u: "parse_upstream ?pf ''rcode://name_error'' = Some (URcode 3)"
    by (simp add: parse_upstream_def split_once_str_def parse_rcode_token_def rcode_defs)
  have p: "policy_parse ?pf [(''+.a.test'', [''rcode://name_error''])] =
      Inr [(add_domain_line ''+.a.test'' domain_matcher_empty, [URcode 3])]"
    by (simp add: policy_parse_def policy_rule_def policy_servers_def t u Let_def starts_with_def ok_or_def)
  have "policy_covers ''+.a.test'' ''x.a.test''"
    by (simp add: policy_covers_def t line_covers_def Let_def text_eval starts_with_def ends_with_def
      domain_matches_suffix_def)
  with policy_first_match [OF p, of "''x.a.test''"] show ?thesis
    by (simp add: policy_servers_def t u ok_or_def result_ok_def)
qed

lemma client_subnet_prefix_bound:
  "parse_client_subnet raw = Inr s \<Longrightarrow> cs_source_prefix s \<le> (if is_ipv4 (cs_addr s) then 32 else 128)"
  by (auto simp: parse_client_subnet_def Let_def rbind_Inr_iff split: if_splits option.splits prod.splits)

end
