(* ===== verification/Resolver.thy ===== *)
theory Resolver
  imports Dns_Policy Fakeip
begin

text \<open>
  The DNS engine (src/engine/src/dns/resolver.rs): static hosts, fake-IP interception, the upstream
  walk under the loop guard, the answer cache with its sweep, and the write-back of the fake-IP
  store. A panic is the outer \<open>None\<close> of an operation. Instants are nanoseconds; an operation reads
  the clock at most twice, before the walk (\<open>now\<close>) and after it (\<open>later\<close>). The network is the
  parameter of the upstream exchanges; \<open>expired\<close> says which exchanges run into the total time-out.
\<close>

section \<open>State\<close>

datatype enhanced_mode = FakeIpMode | RedirHost

record dns_config =
  dc_enable :: bool
  dc_listen :: "string option"
  dc_enhanced_mode :: enhanced_mode
  dc_ipv6 :: bool
  dc_nameservers :: "string list"
  dc_fallback :: "string list"
  dc_fakeip_range :: string
  dc_fakeip_store :: "string option"
  dc_fakeip_filter :: "string list"
  dc_hosts :: "(string \<times> ip_addr list) list"
  dc_nameserver_policy :: "(string \<times> string list) list"
  dc_client_subnet :: "client_subnet option"
  dc_rules :: "rule_spec list"

record cache_entry =
  ce_addrs :: "ip_addr list"
  ce_ttl_until :: instant

type_synonym dns_cache = "(string \<times> u16, cache_entry) hash_map"

definition CACHE_SWEEP_INTERVAL :: instant where
  "CACHE_SWEEP_INTERVAL = secs 60"

record upstream_walk =
  uw_query :: dns_message
  uw_name :: string
  uw_qtype :: u16
  uw_upstreams :: "upstream list"
  uw_subnet :: "client_subnet option"
  uw_rewrite_ttl :: "u32 option"
  uw_cache_ok :: bool

text \<open>
  \<open>de_disk\<close> records the mappings the store file is known to hold: those taken from it at start, then
  those of each write-back.
\<close>

record dns_engine =
  de_cfg :: dns_config
  de_fakeip :: "fake_pool option"
  de_fakeip_store :: "string option"
  de_since_persist :: nat
  de_disk :: "store_file option"
  de_fakeip_filter :: domain_matcher
  de_cache :: dns_cache
  de_next_cache_sweep :: instant
  de_query_id :: u32
  de_upstreams :: "upstream list"
  de_hosts :: "(string, ip_addr list) hash_map"
  de_policy :: "nameserver_policy option"
  de_rules :: "dns_rule list option"
  de_inflight :: "(u16 \<times> string \<times> u16) set"

section \<open>Construction\<close>

text \<open>
  The JSON decoder of the store, the store file, the platform and the regular expressions are
  parameters.
\<close>

definition fakeip_of_config :: "(bytes \<Rightarrow> store_file option) \<Rightarrow> (string \<Rightarrow> file_read) \<Rightarrow> dns_config \<Rightarrow>
    fake_pool option result" where
  "fakeip_of_config json_decode read_file cfg =
    (case dc_enhanced_mode cfg of
       RedirHost \<Rightarrow> Inr None
     | FakeIpMode \<Rightarrow>
         rbind (case dc_fakeip_store cfg of
                  Some path \<Rightarrow> load_from json_decode (dc_fakeip_range cfg) (read_file path)
                | None \<Rightarrow> pool_new (dc_fakeip_range cfg)) (\<lambda>p. Inr (Some p)))"

definition config_upstreams :: "platform \<Rightarrow> dns_config \<Rightarrow> upstream list" where
  "config_upstreams pf cfg = List.map_filter (parse_upstream pf) (dc_nameservers cfg @ dc_fallback cfg)"

definition filter_of_config :: "dns_config \<Rightarrow> domain_matcher \<Rightarrow> domain_matcher" where
  "filter_of_config cfg filt =
    foldl (\<lambda>m pattern. if starts_with ''geosite:'' pattern then m else add_domain_line pattern m)
      filt (dc_fakeip_filter cfg)"

definition hosts_of_config :: "dns_config \<Rightarrow> (string, ip_addr list) hash_map" where
  "hosts_of_config cfg = foldl (\<lambda>m (k, v). hm_insert (to_lower k) v m) hm_empty (dc_hosts cfg)"

definition dns_engine_new :: "(bytes \<Rightarrow> store_file option) \<Rightarrow> (string \<Rightarrow> file_read) \<Rightarrow>
    (string \<Rightarrow> regex option) \<Rightarrow> platform \<Rightarrow> instant \<Rightarrow> dns_config \<Rightarrow> domain_matcher \<Rightarrow> dns_engine result" where
  "dns_engine_new json_decode read_file regex_new pf now cfg filt =
    rbind (fakeip_of_config json_decode read_file cfg) (\<lambda>fakeip.
      let upstreams = config_upstreams pf cfg in
      if upstreams = [] then Inl (Dns ''no usable nameservers'')
      else Inr
        \<lparr>de_cfg = cfg, de_fakeip = fakeip, de_fakeip_store = dc_fakeip_store cfg, de_since_persist = 0,
         de_disk = (case (fakeip, dc_fakeip_store cfg) of (Some p, Some _) \<Rightarrow> Some (store_of p) | _ \<Rightarrow> None),
         de_fakeip_filter = filter_of_config cfg filt, de_cache = hm_empty,
         de_next_cache_sweep = now + CACHE_SWEEP_INTERVAL, de_query_id = 1, de_upstreams = upstreams,
         de_hosts = hosts_of_config cfg,
         de_policy = (if dc_nameserver_policy cfg = [] then None
           else result_ok (policy_parse pf (dc_nameserver_policy cfg))),
         de_rules = (if dc_rules cfg = [] then None
           else result_ok (dns_rules_parse regex_new pf (dc_rules cfg))),
         de_inflight = {}\<rparr>)"

section \<open>The fake-IP store\<close>

definition persist_fakeip :: "dns_engine \<Rightarrow> dns_engine" where
  "persist_fakeip e =
    (case (de_fakeip e, de_fakeip_store e) of
       (Some pool, Some path) \<Rightarrow> e\<lparr>de_disk := Some (store_of pool), de_since_persist := 0\<rparr>
     | _ \<Rightarrow> e)"

text \<open>The caller has checked that the engine has a pool; without one the operation panics.\<close>

definition alloc_fakeip :: "dns_engine \<Rightarrow> string \<Rightarrow> ip_addr result option \<times> dns_engine" where
  "alloc_fakeip e domain =
    (case de_fakeip e of
       None \<Rightarrow> (None, e)
     | Some pool \<Rightarrow>
         (case lookup_or_alloc_flagged pool domain of
            (Inl err, pool) \<Rightarrow> (Some (Inl err), e\<lparr>de_fakeip := Some pool\<rparr>)
          | (Inr (ip, fresh), pool) \<Rightarrow>
              let e = e\<lparr>de_fakeip := Some pool\<rparr> in
              if fresh \<and> de_fakeip_store e \<noteq> None then
                let since = de_since_persist e; e = e\<lparr>de_since_persist := since + 1\<rparr> in
                (Some (Inr ip), if 32 \<le> since then persist_fakeip e else e)
              else (Some (Inr ip), e)))"

section \<open>The cache\<close>

definition rdata_ip :: "bytes \<Rightarrow> ip_addr option" where
  "rdata_ip rdata =
    (if length rdata = 4 then Some (V4 (be_word rdata))
     else if length rdata = 16 then Some (V6 (be_word rdata)) else None)"

definition extract_ips :: "bytes \<Rightarrow> u16 \<Rightarrow> ip_addr list option" where
  "extract_ips resp qtype =
    (case parse resp of
       Inl _ \<Rightarrow> None
     | Inr msg \<Rightarrow>
         let ips = List.map_filter (\<lambda>rr. rdata_ip (rr_rdata rr))
               (filter (\<lambda>rr. rr_type rr = qtype) (dm_answers msg))
         in if ips \<noteq> [] then Some ips else None)"

definition cache_get :: "instant \<Rightarrow> dns_engine \<Rightarrow> string \<Rightarrow> u16 \<Rightarrow> ip_addr list option" where
  "cache_get now e name qtype =
    (case hm_get (de_cache e) (name, qtype) of
       None \<Rightarrow> None
     | Some entry \<Rightarrow> if ce_ttl_until entry < now then None else Some (ce_addrs entry))"

definition sweep_cache_locked :: "instant \<Rightarrow> dns_engine \<Rightarrow> dns_engine" where
  "sweep_cache_locked now e =
    (if now < de_next_cache_sweep e then e
     else e\<lparr>de_next_cache_sweep := now + CACHE_SWEEP_INTERVAL,
            de_cache := filter (\<lambda>(_, entry). now \<le> ce_ttl_until entry) (de_cache e)\<rparr>)"

definition collect_answer :: "u16 \<Rightarrow> u32 \<times> ip_addr list \<Rightarrow> resource_record \<Rightarrow> u32 \<times> ip_addr list" where
  "collect_answer qtype acc rr =
    (if rr_type rr = qtype then
       (min (fst acc) (rr_ttl rr),
        case rdata_ip (rr_rdata rr) of Some ip \<Rightarrow> snd acc @ [ip] | None \<Rightarrow> snd acc)
     else acc)"

definition cache_insert :: "instant \<Rightarrow> dns_engine \<Rightarrow> string \<Rightarrow> u16 \<Rightarrow> bytes \<Rightarrow> dns_engine" where
  "cache_insert now e name qtype resp =
    (case parse resp of
       Inl _ \<Rightarrow> e
     | Inr msg \<Rightarrow>
         (case foldl (collect_answer qtype) (0xFFFFFFFF, []) (dm_answers msg) of
            (min_ttl, addrs) \<Rightarrow>
              if addrs = [] \<or> min_ttl = 0xFFFFFFFF then e
              else
                let ttl = min (max min_ttl 5) 300 in
                sweep_cache_locked now
                  (e\<lparr>de_cache := hm_insert (name, qtype)
                       \<lparr>ce_addrs = addrs, ce_ttl_until = now + secs (unat ttl)\<rparr> (de_cache e)\<rparr>)))"

definition clear_cache :: "dns_engine \<Rightarrow> dns_engine" where
  "clear_cache e = e\<lparr>de_cache := hm_empty\<rparr>"

definition next_id :: "dns_engine \<Rightarrow> u16 \<times> dns_engine" where
  "next_id e = (ucast (de_query_id e AND 0xFFFF), e\<lparr>de_query_id := de_query_id e + 1\<rparr>)"

section \<open>Forwarding\<close>

text \<open>The first upstream that answers in time wins.\<close>

fun walk_upstreams :: "network \<Rightarrow> (upstream \<Rightarrow> bool) \<Rightarrow> bytes \<Rightarrow> upstream list \<Rightarrow> bytes option" where
  "walk_upstreams net expired out [] = None"
| "walk_upstreams net expired out (u # us) =
    (if expired u then walk_upstreams net expired out us
     else case exchange net u out of
       Inr resp \<Rightarrow> Some resp
     | Inl _ \<Rightarrow> walk_upstreams net expired out us)"

definition outbound_query :: "upstream_walk \<Rightarrow> bytes" where
  "outbound_query w =
    (let out = build_query 0 (uw_name w) (uw_qtype w);
         out = (if uw_subnet w \<noteq> None then append_to_query out (uw_subnet w) else out)
     in put_at 0 (u16_be (dm_id (uw_query w))) out)"

text \<open>Writing the identifier into an answer of fewer than two bytes panics.\<close>

definition forward_upstreams :: "network \<Rightarrow> (upstream \<Rightarrow> bool) \<Rightarrow> instant \<Rightarrow> dns_engine \<Rightarrow> upstream_walk \<Rightarrow>
    bytes option \<times> dns_engine" where
  "forward_upstreams net expired later e w =
    (case walk_upstreams net expired (outbound_query w) (uw_upstreams w) of
       None \<Rightarrow> (Some (build_response (uw_query w) RCODE_NXDOMAIN []), e)
     | Some resp \<Rightarrow>
         if length resp < 2 then (None, e)
         else
           let resp = put_at 0 (u16_be (dm_id (uw_query w))) resp;
               resp = (case uw_rewrite_ttl w of Some ttl \<Rightarrow> snd (rewrite_ttl resp ttl) | None \<Rightarrow> resp);
               e = (if uw_cache_ok w then cache_insert later e (uw_name w) (uw_qtype w) resp else e)
           in (Some resp, e))"

definition guard_key :: "upstream_walk \<Rightarrow> u16 \<times> string \<times> u16" where
  "guard_key w = (dm_id (uw_query w), uw_name w, uw_qtype w)"

text \<open>\<open>forward\<close> up to the point where it parks on its upstreams, or its immediate answer.\<close>

datatype forward_start = Answered bytes | Parked upstream_walk

definition engine_rule :: "dns_engine \<Rightarrow> string \<Rightarrow> u16 \<Rightarrow> dns_rule option" where
  "engine_rule e name qtype = Option.bind (de_rules e) (\<lambda>rs. match_rule rs name qtype)"

definition rule_cache_ok :: "dns_rule option \<Rightarrow> bool" where
  "rule_cache_ok rule = (case rule of None \<Rightarrow> True | Some r \<Rightarrow> \<not> dns_disable_cache r)"

definition or_else :: "'a option \<Rightarrow> 'a option \<Rightarrow> 'a option" where
  "or_else a b = (case a of None \<Rightarrow> b | Some x \<Rightarrow> Some x)"

definition choose_upstreams :: "dns_engine \<Rightarrow> dns_rule option \<Rightarrow> string \<Rightarrow> upstream list" where
  "choose_upstreams e rule name =
    (case or_else (Option.bind rule dns_server) (Option.bind (de_policy e) (\<lambda>p. match_upstreams p name)) of
       Some us \<Rightarrow> us
     | None \<Rightarrow> de_upstreams e)"

definition forward_begin :: "instant \<Rightarrow> dns_engine \<Rightarrow> dns_message \<Rightarrow> string \<Rightarrow> u16 \<Rightarrow>
    forward_start \<times> dns_engine" where
  "forward_begin now e query name qtype =
    (let rule = engine_rule e name qtype;
         cache_ok = rule_cache_ok rule
     in
     case (if cache_ok then cache_get now e name qtype else None) of
       Some hit \<Rightarrow> (Answered (build_response query RCODE_NOERROR (map (\<lambda>ip. (ip, 30)) hit)), e)
     | None \<Rightarrow>
         let w = \<lparr>uw_query = query, uw_name = name, uw_qtype = qtype,
                  uw_upstreams = choose_upstreams e rule name,
                  uw_subnet = or_else (Option.bind rule dns_client_subnet) (dc_client_subnet (de_cfg e)),
                  uw_rewrite_ttl = Option.bind rule dns_rewrite_ttl, uw_cache_ok = cache_ok\<rparr>
         in
         if guard_key w \<in> de_inflight e
         then (Answered (build_response query RCODE_SERVFAIL []), e)
         else (Parked w, e\<lparr>de_inflight := insert (guard_key w) (de_inflight e)\<rparr>))"

text \<open>The guard's drop: on return, on a panic and on cancellation.\<close>

definition release :: "upstream_walk \<Rightarrow> dns_engine \<Rightarrow> dns_engine" where
  "release w e = e\<lparr>de_inflight := de_inflight e - {guard_key w}\<rparr>"

definition forward :: "network \<Rightarrow> (upstream \<Rightarrow> bool) \<Rightarrow> instant \<Rightarrow> instant \<Rightarrow> dns_engine \<Rightarrow> dns_message \<Rightarrow>
    string \<Rightarrow> u16 \<Rightarrow> bytes option \<times> dns_engine" where
  "forward net expired now later e query name qtype =
    (case forward_begin now e query name qtype of
       (Answered resp, e) \<Rightarrow> (Some resp, e)
     | (Parked w, e) \<Rightarrow>
         (case forward_upstreams net expired later e w of (resp, e) \<Rightarrow> (resp, release w e)))"

section \<open>Queries\<close>

definition hosts_answer :: "dns_engine \<Rightarrow> question \<Rightarrow> (ip_addr \<times> u32) list" where
  "hosts_answer e q =
    (if q_type q = TYPE_A \<or> q_type q = TYPE_AAAA then
       (case hm_get (de_hosts e) (q_name q) of
          None \<Rightarrow> []
        | Some addrs \<Rightarrow>
            map (\<lambda>ip. (ip, 3600))
              (filter (\<lambda>ip. (q_type q = TYPE_A \<and> is_ipv4 ip) \<or> (q_type q = TYPE_AAAA \<and> \<not> is_ipv4 ip)) addrs))
     else [])"

text \<open>The interception of an address query in fake-IP mode, past the filter.\<close>

definition fake_answer :: "dns_engine \<Rightarrow> dns_message \<Rightarrow> question \<Rightarrow> bytes option \<times> dns_engine" where
  "fake_answer e msg q =
    (if q_type q = TYPE_AAAA \<and> \<not> dc_ipv6 (de_cfg e) then (Some (build_response msg RCODE_NOERROR []), e)
     else case alloc_fakeip e (q_name q) of
       (None, e) \<Rightarrow> (None, e)
     | (Some (Inl _), e) \<Rightarrow> (Some (build_response msg RCODE_SERVFAIL []), e)
     | (Some (Inr ip), e) \<Rightarrow>
         if q_type q = TYPE_AAAA \<and> is_ipv4 ip then (Some (build_response msg RCODE_NOERROR []), e)
         else (Some (build_response msg RCODE_NOERROR [(ip, 1)]), e))"

definition handle :: "network \<Rightarrow> (upstream \<Rightarrow> bool) \<Rightarrow> instant \<Rightarrow> instant \<Rightarrow> dns_engine \<Rightarrow> bytes \<Rightarrow>
    bytes option \<times> dns_engine" where
  "handle net expired now later e query =
    (case parse query of
       Inl _ \<Rightarrow> (Some [], e)
     | Inr msg \<Rightarrow>
         (case first_question msg of
            None \<Rightarrow> (Some (build_response msg RCODE_NOERROR []), e)
          | Some q \<Rightarrow>
              if hosts_answer e q \<noteq> [] then (Some (build_response msg RCODE_NOERROR (hosts_answer e q)), e)
              else if de_fakeip e \<noteq> None \<and> (q_type q = TYPE_A \<or> q_type q = TYPE_AAAA) \<and>
                \<not> domain_matcher_matches (de_fakeip_filter e) (q_name q)
              then fake_answer e msg q
              else forward net expired now later e msg (q_name q) (q_type q)))"

definition resolve :: "network \<Rightarrow> (upstream \<Rightarrow> bool) \<Rightarrow> instant \<Rightarrow> instant \<Rightarrow> dns_engine \<Rightarrow> string \<Rightarrow> u16 \<Rightarrow>
    ip_addr list option option \<times> dns_engine" where
  "resolve net expired now later e name qtype =
    (let v4 = (case hm_get (de_hosts e) name of None \<Rightarrow> [] | Some hit \<Rightarrow> filter is_ipv4 hit) in
     if v4 \<noteq> [] then (Some (Some v4), e)
     else
       let cache_ok = rule_cache_ok (engine_rule e name qtype) in
       case (if cache_ok then cache_get now e name qtype else None) of
         Some hit \<Rightarrow> (Some (Some hit), e)
       | None \<Rightarrow>
           (case next_id e of (qid, e) \<Rightarrow>
              case parse (build_query qid name qtype) of
                Inl _ \<Rightarrow> (Some None, e)
              | Inr parsed \<Rightarrow>
                  (case forward net expired now later e parsed name qtype of
                     (None, e) \<Rightarrow> (None, e)
                   | (Some resp, e) \<Rightarrow>
                       (case (if cache_ok then cache_get later e name qtype else None) of
                          Some hit \<Rightarrow> (Some (Some hit), e)
                        | None \<Rightarrow> (Some (extract_ips resp qtype), e)))))"

definition parse_nameserver :: "platform \<Rightarrow> string \<Rightarrow> socket_addr option" where
  "parse_nameserver pf ns =
    (case parse_upstream pf ns of Some (UUdp a) \<Rightarrow> Some a | _ \<Rightarrow> None)"

section \<open>The DNS outbound\<close>

record dns_udp_echo =
  du_engine :: dns_engine
  du_pending :: "(net_addr \<times> bytes) list"

definition echo_new :: "dns_engine \<Rightarrow> dns_udp_echo" where
  "echo_new e = \<lparr>du_engine = e, du_pending = []\<rparr>"

definition echo_send :: "network \<Rightarrow> (upstream \<Rightarrow> bool) \<Rightarrow> instant \<Rightarrow> instant \<Rightarrow> dns_udp_echo \<Rightarrow> bytes \<Rightarrow>
    unit result option \<times> dns_udp_echo" where
  "echo_send net expired now later d data =
    (case handle net expired now later (du_engine d) data of
       (None, e) \<Rightarrow> (None, d\<lparr>du_engine := e\<rparr>)
     | (Some resp, e) \<Rightarrow>
         (Some (Inr ()), d\<lparr>du_engine := e,
            du_pending := du_pending d @ [(net_addr_new (Ip (V4 0x7F000002)) 53, resp)]\<rparr>))"

definition echo_recv :: "dns_udp_echo \<Rightarrow> (net_addr \<times> bytes) result \<times> dns_udp_echo" where
  "echo_recv d =
    (case du_pending d of
       [] \<Rightarrow> (Inl (Network ''dns echo channel closed''), d)
     | p # ps \<Rightarrow> (Inr p, d\<lparr>du_pending := ps\<rparr>))"

section \<open>The cache serves what the upstream said\<close>

lemma map_of_retain:
  "distinct (map fst m) \<Longrightarrow>
   map_of (filter (\<lambda>(k, v). P v) m) k = (case map_of m k of Some v \<Rightarrow> if P v then Some v else None | None \<Rightarrow> None)"
  by (induction m) (auto simp: image_iff split: option.splits if_splits dest: map_of_SomeD)

lemma hm_get_retain:
  "hm_wf m \<Longrightarrow>
   hm_get (filter (\<lambda>(k, v). P v) m) k = (case hm_get m k of Some v \<Rightarrow> if P v then Some v else None | None \<Rightarrow> None)"
  by (simp add: hm_get_def hm_wf_def map_of_retain)

lemma hm_wf_retain: "hm_wf m \<Longrightarrow> hm_wf (filter P m)"
  by (simp add: hm_wf_def distinct_map_filter)

lemma cache_get_sweep:
  assumes "hm_wf (de_cache e)" and "now \<le> t"
  shows "cache_get t (sweep_cache_locked now e) name qtype = cache_get t e name qtype"
  using assms by (auto simp: cache_get_def sweep_cache_locked_def hm_get_retain split: option.splits)

lemma cache_get_sweep_live:
  assumes "hm_wf (de_cache e)" and "hm_get (de_cache e) (name, qtype) = Some entry"
    and "now \<le> ce_ttl_until entry"
  shows "hm_get (de_cache (sweep_cache_locked now e)) (name, qtype) = Some entry"
  using assms by (simp add: sweep_cache_locked_def hm_get_retain)

lemma sweep_wf: "hm_wf (de_cache e) \<Longrightarrow> hm_wf (de_cache (sweep_cache_locked now e))"
  by (simp add: sweep_cache_locked_def hm_wf_retain)

lemma cache_insert_wf: "hm_wf (de_cache e) \<Longrightarrow> hm_wf (de_cache (cache_insert now e name qtype resp))"
  by (auto simp: cache_insert_def Let_def intro!: sweep_wf split: sum.splits prod.splits)

lemma cache_insert_sel [simp]:
  "de_rules (cache_insert now e name qtype resp) = de_rules e"
  "de_inflight (cache_insert now e name qtype resp) = de_inflight e"
  "de_cfg (cache_insert now e name qtype resp) = de_cfg e"
  "de_fakeip (cache_insert now e name qtype resp) = de_fakeip e"
  by (auto simp: cache_insert_def sweep_cache_locked_def Let_def split: sum.splits prod.splits)

lemma collect_answers:
  "snd (foldl (collect_answer qtype) acc rrs) =
    snd acc @ List.map_filter (\<lambda>rr. rdata_ip (rr_rdata rr)) (filter (\<lambda>rr. rr_type rr = qtype) rrs)"
  by (induction rrs arbitrary: acc) (auto simp: collect_answer_def List.map_filter_def split: option.splits)

lemma collect_ttl:
  "fst (foldl (collect_answer qtype) acc rrs) \<le> fst acc \<and>
   (\<forall>rr \<in> set rrs. rr_type rr = qtype \<longrightarrow> fst (foldl (collect_answer qtype) acc rrs) \<le> rr_ttl rr)"
proof (induction rrs arbitrary: acc)
  case (Cons rr rrs)
  have "fst (collect_answer qtype acc rr) \<le> fst acc"
    "rr_type rr = qtype \<Longrightarrow> fst (collect_answer qtype acc rr) \<le> rr_ttl rr"
    by (simp_all add: collect_answer_def)
  with Cons.IH [of "collect_answer qtype acc rr"] show ?case by fastforce
qed simp

text \<open>The lifetime a response earns: its smallest TTL, between five seconds and five minutes.\<close>

definition cached_for :: "dns_message \<Rightarrow> u16 \<Rightarrow> nat" where
  "cached_for msg qtype = unat (min (max (fst (foldl (collect_answer qtype) (0xFFFFFFFF, []) (dm_answers msg))) 5) 300)"

lemma cached_for_bounds: "5 \<le> cached_for msg qtype \<and> cached_for msg qtype \<le> 300"
proof -
  let ?w = "min (max (fst (foldl (collect_answer qtype) (0xFFFFFFFF, []) (dm_answers msg))) 5) 300 :: u32"
  have "5 \<le> ?w" "?w \<le> 300" by simp_all
  then have "unat (5 :: u32) \<le> unat ?w" "unat ?w \<le> unat (300 :: u32)" by (simp_all only: word_le_nat_alt)
  then show ?thesis by (simp add: cached_for_def)
qed

definition cacheable :: "bytes \<Rightarrow> u16 \<Rightarrow> bool" where
  "cacheable resp qtype =
    (case parse resp of
       Inl _ \<Rightarrow> False
     | Inr msg \<Rightarrow> list_ex (\<lambda>rr. rr_type rr = qtype \<and> rr_ttl rr \<noteq> 0xFFFFFFFF) (dm_answers msg))"

lemma cache_insert_stores:
  assumes wf: "hm_wf (de_cache e)" and msg: "parse resp = Inr msg" and ips: "extract_ips resp qtype = Some ips"
    and c: "cacheable resp qtype"
  shows "cache_get t (cache_insert now e name qtype resp) name qtype =
    (if now + secs (cached_for msg qtype) < t then None else Some ips)"
proof -
  obtain m as where f: "foldl (collect_answer qtype) (0xFFFFFFFF, []) (dm_answers msg) = (m, as)" by fastforce
  have as: "as = ips" "ips \<noteq> []"
    using ips collect_answers [of qtype "(0xFFFFFFFF, [])" "dm_answers msg"]
    by (auto simp: extract_ips_def msg f Let_def split: if_splits)
  obtain rr where rr: "rr \<in> set (dm_answers msg)" "rr_type rr = qtype" "rr_ttl rr \<noteq> 0xFFFFFFFF"
    using c by (auto simp: cacheable_def msg list_ex_iff)
  have "m \<le> rr_ttl rr" using collect_ttl [of qtype "(0xFFFFFFFF, [])" "dm_answers msg"] rr f by auto
  moreover have top: "(0xFFFFFFFF :: u32) = - 1" by simp
  ultimately have m: "m \<noteq> 0xFFFFFFFF"
    using rr(3) word_order.extremum_unique [of "rr_ttl rr"] unfolding top by auto
  let ?entry = "\<lparr>ce_addrs = ips, ce_ttl_until = now + secs (cached_for msg qtype)\<rparr>"
  let ?e = "e\<lparr>de_cache := hm_insert (name, qtype) ?entry (de_cache e)\<rparr>"
  have "cache_insert now e name qtype resp = sweep_cache_locked now ?e"
    using as m by (simp add: cache_insert_def msg f cached_for_def)
  moreover have "hm_get (de_cache (sweep_cache_locked now ?e)) (name, qtype) = Some ?entry"
    using wf by (intro cache_get_sweep_live) auto
  ultimately show ?thesis by (simp add: cache_get_def)
qed

lemma cache_insert_other:
  assumes "hm_wf (de_cache e)" and "now \<le> t" and "(n, q) \<noteq> (name, qtype)"
  shows "cache_get t (cache_insert now e name qtype resp) n q = cache_get t e n q"
proof -
  have "cache_get t (sweep_cache_locked now (e\<lparr>de_cache := hm_insert (name, qtype) x (de_cache e)\<rparr>)) n q = cache_get t e n q" for x
    using assms by (subst cache_get_sweep) (auto simp: cache_get_def)
  then show ?thesis by (auto simp: cache_insert_def Let_def split: sum.splits prod.splits)
qed

text \<open>
  A cached answer lives as long as its TTL says, within bounds. Inserting a response with a
  cacheable address makes lookups return exactly the addresses of the response until its smallest TTL,
  raised to five seconds and cut to five minutes, has passed, and nothing afterwards; at no later
  instant does the insertion, or the sweep it may run, change what any other lookup returns.
\<close>

theorem cache_lifetime:
  assumes "hm_wf (de_cache e)" and "parse resp = Inr msg" and "extract_ips resp qtype = Some ips"
    and "cacheable resp qtype" and "now \<le> t"
  shows "cache_get t (cache_insert now e name qtype resp) n q =
    (if (n, q) = (name, qtype) then if t \<le> now + secs (cached_for msg qtype) then Some ips else None
     else cache_get t e n q)"
  using cache_insert_stores [OF assms(1-4), of t now name] cache_insert_other [OF assms(1,5)] by simp

definition sample_config :: dns_config where
  "sample_config = \<lparr>dc_enable = True, dc_listen = None, dc_enhanced_mode = FakeIpMode, dc_ipv6 = False, dc_nameservers = [], dc_fallback = [],
    dc_fakeip_range = ''10.9.0.1/30'', dc_fakeip_store = None, dc_fakeip_filter = [], dc_hosts = [],
    dc_nameserver_policy = [], dc_client_subnet = None, dc_rules = []\<rparr>"

definition sample_dns :: dns_engine where
  "sample_dns = \<lparr>de_cfg = sample_config, de_fakeip = None, de_fakeip_store = None, de_since_persist = 0,
    de_disk = None, de_fakeip_filter = domain_matcher_empty, de_cache = hm_empty, de_next_cache_sweep = 0,
    de_query_id = 1, de_upstreams = [UUdp (V4 0x7F000001, 53)], de_hosts = hm_empty, de_policy = None,
    de_rules = None, de_inflight = {}\<rparr>"

definition sample_query :: "u16 \<Rightarrow> dns_message" where
  "sample_query i = \<lparr>dm_id = i, dm_flags = 0x0100, dm_opcode = 0, dm_rcode = 0,
    dm_questions = [\<lparr>q_name = ''a.b'', q_type = 1, q_class = 1\<rparr>], dm_answers = [], dm_raw = []\<rparr>"

definition sample_reply :: "u16 \<Rightarrow> bytes" where
  "sample_reply i = build_response (sample_query i) 0 [(V4 0x01020304, 60)]"

lemma sample_reply_parses:
  "\<exists>msg. parse (sample_reply i) = Inr msg \<and> dm_answers msg = [answer_record ''a.b'' (V4 0x01020304, 60)]"
proof -
  have "dns_name_ok ''a.b''" by (simp add: dns_name_ok_def label_ok_def text_eval)
  with parse_response [of "sample_query i" "\<lparr>q_name = ''a.b'', q_type = 1, q_class = 1\<rparr>" "[]" "[(V4 0x01020304, 60)]" 0]
  show ?thesis by (auto simp: sample_query_def sample_reply_def text_eval)
qed

lemma sample_reply_facts:
  "extract_ips (sample_reply i) 1 = Some [V4 0x01020304]" "cacheable (sample_reply i) 1"
  using sample_reply_parses [of i]
  by (auto simp: extract_ips_def cacheable_def answer_record_def rdata_ip_def octets_def be_bytes_4 TYPE_A_def
    TYPE_AAAA_def be_word_def is_ipv4_def List.map_filter_def)

theorem cache_lifetime_witness:
  "cache_get (secs 50) (cache_insert 0 sample_dns ''a.b'' 1 (sample_reply 7)) ''a.b'' 1 = Some [V4 0x01020304]"
proof -
  obtain msg where msg: "parse (sample_reply 7) = Inr msg"
    "dm_answers msg = [answer_record ''a.b'' (V4 0x01020304, 60)]" using sample_reply_parses by blast
  then have "cached_for msg 1 = 60"
    by (simp add: cached_for_def collect_answer_def answer_record_def TYPE_A_def is_ipv4_def)
  with cache_lifetime [OF _ msg(1) sample_reply_facts, of sample_dns 0 "secs 50" "''a.b''" "''a.b''" 1] show ?thesis
    by (simp add: sample_dns_def secs_def)
qed

section \<open>A forwarded query\<close>

lemma build_response_header:
  "\<exists>body. build_response query rcode as = u16_be (dm_id query) @ u16_be (response_flags query rcode) @
      u16_be (word_of_nat (length (dm_questions query))) @ u16_be (word_of_nat (length as)) @ u16_be 0 @ u16_be 0 @ body"
  by (cases "dm_questions query") (auto simp: build_response_def Let_def foldl_write_question simp del: foldl_Cons)

lemma parse_no_answers:
  assumes "parse (build_response query rcode []) = Inr msg"
  shows "dm_answers msg = []"
proof -
  obtain body where "build_response query rcode [] = u16_be (dm_id query) @ u16_be (response_flags query rcode) @
      u16_be (word_of_nat (length (dm_questions query))) @ u16_be 0 @ u16_be 0 @ u16_be 0 @ body"
    using build_response_header [of query rcode "[]"] by auto
  from assms [unfolded parse_header [OF this]] show ?thesis by (auto simp: rbind_Inr_iff)
qed

lemma extract_no_answers: "extract_ips (build_response query rcode []) qtype = None"
  using parse_no_answers [of query rcode] by (auto simp: extract_ips_def List.map_filter_def split: sum.splits)

lemma forward_begin_cases:
  assumes "forward_begin now e query name qtype = (s, e')"
  obtains (hit) hit where "cache_get now e name qtype = Some hit" "rule_cache_ok (engine_rule e name qtype)" "e' = e"
      "s = Answered (build_response query RCODE_NOERROR (map (\<lambda>ip. (ip, 30)) hit))"
  | (loop) "(dm_id query, name, qtype) \<in> de_inflight e" "e' = e" "s = Answered (build_response query RCODE_SERVFAIL [])"
  | (parked) w where "s = Parked w" "(dm_id query, name, qtype) \<notin> de_inflight e"
      "guard_key w = (dm_id query, name, qtype)" "uw_query w = query"
      "uw_cache_ok w = rule_cache_ok (engine_rule e name qtype)"
      "uw_upstreams w = choose_upstreams e (engine_rule e name qtype) name"
      "e' = e\<lparr>de_inflight := insert (dm_id query, name, qtype) (de_inflight e)\<rparr>"
      "rule_cache_ok (engine_rule e name qtype) \<Longrightarrow> cache_get now e name qtype = None"
proof (cases "if rule_cache_ok (engine_rule e name qtype) then cache_get now e name qtype else None")
  case (Some h)
  then have "rule_cache_ok (engine_rule e name qtype)" "cache_get now e name qtype = Some h" by (simp_all split: if_splits)
  with assms show ?thesis by (intro hit [of h]) (auto simp: forward_begin_def)
next
  case None
  then have miss: "rule_cache_ok (engine_rule e name qtype) \<Longrightarrow> cache_get now e name qtype = None" by simp
  show ?thesis
  proof (cases "(dm_id query, name, qtype) \<in> de_inflight e")
    case True
    with assms None show ?thesis by (intro loop) (auto simp: forward_begin_def guard_key_def Let_def)
  next
    case False
    with assms None show ?thesis
      by (intro parked [OF _ False _ _ _ _ _ miss])
        (auto simp: forward_begin_def guard_key_def Let_def split: forward_start.splits)
  qed
qed

lemma forward_hit:
  assumes "cache_get now e name qtype = Some hit" and "rule_cache_ok (engine_rule e name qtype)"
  shows "forward net expired now later e query name qtype =
    (Some (build_response query RCODE_NOERROR (map (\<lambda>ip. (ip, 30)) hit)), e)"
  using assms by (simp add: forward_def forward_begin_def)

lemma forward_parked_cache:
  assumes "forward net expired now later e query name qtype = (Some resp, e')"
    and miss: "cache_get now e name qtype = None" and free: "(dm_id query, name, qtype) \<notin> de_inflight e"
    and ok: "rule_cache_ok (engine_rule e name qtype)" and ips: "extract_ips resp qtype = Some ips"
  shows "de_cache e' = de_cache (cache_insert later e name qtype resp) \<and> de_rules e' = de_rules e"
proof -
  obtain s e1 where s: "forward_begin now e query name qtype = (s, e1)" by fastforce
  from s obtain w where w: "s = Parked w" "uw_query w = query" "uw_cache_ok w"
    "guard_key w = (dm_id query, name, qtype)" "e1 = e\<lparr>de_inflight := insert (dm_id query, name, qtype) (de_inflight e)\<rparr>"
    using miss free ok by (cases rule: forward_begin_cases) auto
  then obtain e2 where r: "forward_upstreams net expired later e1 w = (Some resp, e2)" and e': "e' = release w e2"
    using assms(1) s by (auto simp: forward_def split: prod.splits)
  have "e2 = cache_insert later e1 name qtype resp"
  proof (cases "walk_upstreams net expired (outbound_query w) (uw_upstreams w)")
    case None
    then show ?thesis using r ips extract_no_answers [of query RCODE_NXDOMAIN qtype] w(2) by (simp add: forward_upstreams_def)
  next
    case (Some raw)
    then show ?thesis using r w(3,4) by (auto simp: forward_upstreams_def guard_key_def Let_def split: if_splits)
  qed
  moreover have "de_cache (cache_insert later e1 name qtype resp) = de_cache (cache_insert later e name qtype resp)"
    by (auto simp: w(5) cache_insert_def sweep_cache_locked_def Let_def split: sum.splits prod.splits)
  ultimately show ?thesis using e' w(5) by (simp add: release_def)
qed

text \<open>
  C16: A repeated query is answered from the cache. Once a query was forwarded and its answer carries a
  cacheable address, every query for that name and type within the lifetime of the answer gets
  exactly those addresses, with a TTL of thirty seconds, whatever the upstreams do by then, and leaves
  the engine as it is.
\<close>

theorem repeat_served_from_cache:
  assumes "hm_wf (de_cache e)" and "rule_cache_ok (engine_rule e name qtype)"
    and "cache_get now e name qtype = None" and "(dm_id query, name, qtype) \<notin> de_inflight e"
    and "forward net expired now later e query name qtype = (Some resp, e')"
    and "parse resp = Inr msg" and "extract_ips resp qtype = Some ips" and "cacheable resp qtype"
    and "t \<le> later + secs (cached_for msg qtype)"
  shows "forward net' expired' t t' e' query' name qtype =
    (Some (build_response query' RCODE_NOERROR (map (\<lambda>ip. (ip, 30)) ips)), e')"
proof (rule forward_hit)
  have f: "de_cache e' = de_cache (cache_insert later e name qtype resp)" "de_rules e' = de_rules e"
    using forward_parked_cache [OF assms(5,3,4,2,7)] by simp_all
  have "cache_get t e' name qtype = cache_get t (cache_insert later e name qtype resp) name qtype"
    using f(1) by (simp add: cache_get_def)
  then show "cache_get t e' name qtype = Some ips"
    using cache_insert_stores [OF assms(1,6-8)] assms(9) by simp
  show "rule_cache_ok (engine_rule e' name qtype)" using assms(2) f(2) by (simp add: engine_rule_def)
qed

text \<open>A network whose UDP servers give the sample reply to every query, under the identifier asked for.\<close>

definition sample_net :: network where
  "sample_net = \<lparr>net_udp = \<lambda>_ q. Inr (sample_reply (u16_from (q ! 0) (q ! 1))), net_tcp = \<lambda>_ _. Inl Rejected,
    net_tls = \<lambda>_ _ _. Inl Rejected, net_quic = \<lambda>_ _ _ _. Inl Rejected\<rparr>"

lemma put_id_same: "take 2 resp = bs \<Longrightarrow> length bs = 2 \<Longrightarrow> put_at 0 bs resp = resp"
  unfolding put_at_def by (metis add_0 append_Nil append_take_drop_id take_0)

lemma take_id_response: "take 2 (build_response query rcode as) = u16_be (dm_id query)"
  using build_response_header [of query rcode as] by auto

lemma take_put_at: "length bs = 2 \<Longrightarrow> take 2 (put_at 0 bs raw) = bs"
  by (simp add: put_at_def)

lemma sample_forward:
  "forward sample_net (\<lambda>_. False) 0 1 sample_dns (sample_query 7) ''a.b'' 1 =
    (Some (sample_reply 7), cache_insert 1 sample_dns ''a.b'' 1 (sample_reply 7))"
proof -
  let ?w = "\<lparr>uw_query = sample_query 7, uw_name = ''a.b'', uw_qtype = 1, uw_upstreams = [UUdp (V4 0x7F000001, 53)],
    uw_subnet = None, uw_rewrite_ttl = None, uw_cache_ok = True\<rparr>"
  let ?e = "sample_dns\<lparr>de_inflight := {guard_key ?w}\<rparr>"
  have i: "dm_id (sample_query 7) = 7" by (simp add: sample_query_def)
  have b: "forward_begin 0 sample_dns (sample_query 7) ''a.b'' 1 = (Parked ?w, ?e)"
    by (simp add: forward_begin_def sample_dns_def engine_rule_def rule_cache_ok_def cache_get_def or_else_def
      choose_upstreams_def sample_config_def Let_def)
  have q: "take 2 (outbound_query ?w) = [0, 7]"
    by (simp add: outbound_query_def take_put_at sample_query_def be_bytes_2)
  then have "outbound_query ?w ! 0 = 0" "outbound_query ?w ! 1 = 7"
    using nth_take [of 0 2 "outbound_query ?w"] nth_take [of 1 2 "outbound_query ?w"] by simp_all
  moreover have "take 2 (sample_reply 7) = [0, 7]"
    by (simp add: sample_reply_def take_id_response sample_query_def be_bytes_2)
  moreover have "12 \<le> length (sample_reply 7)" "length (sample_reply 7) \<le> 4096"
    by (simp_all add: sample_reply_def sample_query_def build_response_def write_question_def write_name_def
      write_answer_def is_ipv4_def octets_def text_eval write_label_def trim_end_matches_def)
  ultimately have x: "exchange sample_net (UUdp (V4 0x7F000001, 53)) (outbound_query ?w) = Inr (sample_reply 7)"
    and l: "\<not> length (sample_reply 7) < 2" and p: "put_at 0 (u16_be 7) (sample_reply 7) = sample_reply 7"
    using q by (auto simp: exchange_def exchange_udp_def sample_net_def u16_from_def be_word_def Let_def put_id_same be_bytes_2)
  have "forward_upstreams sample_net (\<lambda>_. False) 1 ?e ?w =
      (Some (sample_reply 7), cache_insert 1 ?e ''a.b'' 1 (sample_reply 7))"
    using l p by (simp add: forward_upstreams_def x i Let_def)
  moreover have "release ?w (cache_insert 1 ?e n q r) = cache_insert 1 sample_dns n q r" for n q r
    by (auto simp: release_def cache_insert_def sweep_cache_locked_def Let_def sample_dns_def
      split: sum.splits prod.splits)
  ultimately show ?thesis by (simp add: forward_def b)
qed

theorem repeat_served_from_cache_witness:
  "\<exists>e'. forward sample_net (\<lambda>_. False) 0 1 sample_dns (sample_query 7) ''a.b'' 1 = (Some (sample_reply 7), e') \<and>
     forward sample_net (\<lambda>_. True) (secs 5) (secs 6) e' (sample_query 8) ''a.b'' 1 =
       (Some (build_response (sample_query 8) RCODE_NOERROR [(V4 0x01020304, 30)]), e')"
proof -
  obtain msg where msg: "parse (sample_reply 7) = Inr msg" using sample_reply_parses by blast
  have "secs 5 \<le> 1 + secs (cached_for msg 1)" using cached_for_bounds [of msg 1] by (simp add: secs_def)
  from repeat_served_from_cache [OF _ _ _ _ sample_forward msg sample_reply_facts this] sample_forward show ?thesis
    by (simp add: sample_dns_def engine_rule_def rule_cache_ok_def cache_get_def)
qed

section \<open>Answers belong to their query\<close>

lemma skip_name_forward: "skip_name raw off = Inr off' \<Longrightarrow> off \<le> off'"
proof (induction raw off rule: skip_name.induct)
  case (1 raw off)
  from 1(2) show ?case
    by (subst (asm) skip_name.simps) (use 1(1) [OF _ refl] in \<open>auto simp: Let_def split: if_splits\<close>)
qed

lemma skip_questions_forward: "skip_questions n raw off = Inr off' \<Longrightarrow> off \<le> off'"
proof (induction n arbitrary: off)
  case (Suc n)
  then obtain o1 where "skip_name raw off = Inr o1" "skip_questions n raw (o1 + 4) = Inr off'"
    by (auto simp: rbind_Inr_iff split: if_splits)
  then show ?case using skip_name_forward Suc.IH by fastforce
qed simp

lemma take_put_at_behind: "k \<le> off \<Longrightarrow> off \<le> length raw \<Longrightarrow> take k (put_at off bs raw) = take k raw"
  by (simp add: put_at_def min_def)

lemma rewrite_answers_keeps: "2 \<le> off \<Longrightarrow> take 2 (snd (rewrite_answers n ttl off resp)) = take 2 resp"
proof (induction n arbitrary: off resp)
  case (Suc n)
  show ?case
  proof (cases "skip_name resp off")
    case (Inr o1)
    then have o1: "2 \<le> o1" using skip_name_forward Suc.prems by fastforce
    have IH: "take 2 (snd (rewrite_answers n ttl (o1 + 10 + k) r)) = take 2 r" for k r
      using Suc.IH [of "o1 + 10 + k" r] o1 by simp
    have "o1 + 10 \<le> length resp \<Longrightarrow> take 2 (put_at (o1 + 4) (u32_be ttl) resp) = take 2 resp"
      using o1 by (intro take_put_at_behind) auto
    with Inr IH show ?thesis by (simp add: Let_def)
  qed simp
qed simp

lemma rewrite_ttl_keeps: "take 2 (snd (rewrite_ttl resp ttl)) = take 2 resp"
  using rewrite_answers_keeps
  by (auto simp: rewrite_ttl_def Let_def split: sum.splits dest!: skip_questions_forward)

lemma forward_upstreams_id:
  "forward_upstreams net expired later e w = (Some resp, e') \<Longrightarrow> take 2 resp = u16_be (dm_id (uw_query w))"
  by (auto simp: forward_upstreams_def Let_def take_id_response rewrite_ttl_keeps take_put_at
    split: option.splits if_splits)

lemma forward_id:
  assumes "forward net expired now later e query name qtype = (Some resp, e')"
  shows "take 2 resp = u16_be (dm_id query)"
proof -
  obtain s e1 where s: "forward_begin now e query name qtype = (s, e1)" by fastforce
  then show ?thesis
  proof (cases rule: forward_begin_cases)
    case (parked w)
    with s assms obtain e2 where "forward_upstreams net expired later e1 w = (Some resp, e2)"
      by (auto simp: forward_def split: prod.splits)
    then show ?thesis using forward_upstreams_id parked by metis
  qed (use s assms in \<open>auto simp: forward_def take_id_response\<close>)
qed

lemma fake_answer_id: "fake_answer e msg q = (Some resp, e') \<Longrightarrow> take 2 resp = u16_be (dm_id msg)"
  by (auto simp: fake_answer_def take_id_response split: if_splits prod.splits option.splits sum.splits)

text \<open>
  C25: Every answer carries the identifier of the query it answers, on every path: static hosts,
  fake addresses, cache hits, refused loops, failed walks and answers of upstreams, whose own identifier
  is overwritten.
\<close>

theorem answer_carries_query_id:
  assumes "parse query = Inr msg" and "handle net expired now later e query = (Some resp, e')"
  shows "take 2 resp = u16_be (dm_id msg)"
  using assms
  by (auto simp: handle_def take_id_response split: option.splits if_splits
    dest!: fake_answer_id forward_id)

theorem answer_carries_query_id_witness:
  "take 2 (the (fst (handle sample_net (\<lambda>_. True) 0 1 sample_dns (build_query 0x0102 ''a.b'' 1)))) = [1, 2]"
proof -
  have "dns_name_ok ''a.b''" by (simp add: dns_name_ok_def label_ok_def text_eval)
  note p = parse_build_query [OF this, of "0x0102" 1]
  have "handle sample_net (\<lambda>_. True) 0 1 sample_dns (build_query 0x0102 ''a.b'' 1) =
      (Some (the (fst (handle sample_net (\<lambda>_. True) 0 1 sample_dns (build_query 0x0102 ''a.b'' 1)))),
       snd (handle sample_net (\<lambda>_. True) 0 1 sample_dns (build_query 0x0102 ''a.b'' 1)))"
    by (simp add: handle_def p first_question_def hosts_answer_def sample_dns_def forward_def forward_begin_def
      engine_rule_def rule_cache_ok_def cache_get_def choose_upstreams_def or_else_def Let_def forward_upstreams_def
      sample_config_def text_eval)
  from answer_carries_query_id [OF p this] show ?thesis by (simp add: be_bytes_2)
qed

section \<open>Panics\<close>






text \<open>A server that answers a DNS-over-HTTPS request with success and an empty body.\<close>

definition empty_doh :: network where
  "empty_doh = \<lparr>net_udp = \<lambda>_ _. Inl Rejected, net_tcp = \<lambda>_ _. Inl Rejected,
    net_tls = \<lambda>_ _ _. Inr (as_bytes ''HTTP/1.1 200'' @ [0x0D, 0x0A, 0x0D, 0x0A]), net_quic = \<lambda>_ _ _ _. Inl Rejected\<rparr>"

lemma empty_doh_head:
  "http_status ''HTTP/1.1 200'' = 200" "lines_of ''HTTP/1.1 200'' = [''HTTP/1.1 200'']"
  "from_utf8_lossy (as_bytes ''HTTP/1.1 200'') = ''HTTP/1.1 200''"
proof -
  show l: "lines_of ''HTTP/1.1 200'' = [''HTTP/1.1 200'']" by (simp add: lines_of_def text_eval)
  have "split_whitespace ''HTTP/1.1 200'' = [''HTTP/1.1'', ''200'']"
    using split_whitespace_word [of "''HTTP/1.1''" "'' 200''"] split_whitespace_word [of "''200''" "[]"]
    by (simp add: split_whitespace_space split_whitespace_Nil ws_prefix_len_space ws_char_def ws_forms_def)
  with l show "http_status ''HTTP/1.1 200'' = 200" by (simp add: http_status_def parse_uint_def ip_eval text_eval)
  show "from_utf8_lossy (as_bytes ''HTTP/1.1 200'') = ''HTTP/1.1 200''"
    by (rule from_utf8_lossy_valid) (simp add: text_eval)
qed

lemma empty_doh_exchange: "exchange empty_doh (UHttps a n p) query = Inr []"
proof -
  let ?raw = "as_bytes ''HTTP/1.1 200'' @ [0x0D, 0x0A, 0x0D, 0x0A]"
  have "find_sub [0x0D, 0x0A, 0x0D, 0x0A] ?raw = Some 12" "length ?raw = 16" by (simp_all add: text_eval)
  moreover have "take 12 ?raw = as_bytes ''HTTP/1.1 200''" "drop 16 ?raw = []" by (simp_all add: text_eval)
  moreover have "\<not> starts_with ''transfer-encoding: chunked'' (to_lower ''HTTP/1.1 200'')" by (simp add: text_eval)
  ultimately show ?thesis
    by (simp add: exchange_def exchange_https_def empty_doh_def extract_http_body_def empty_doh_head)
qed

text \<open>
  A DNS-over-HTTPS server can make the engine panic: when the first upstream asked is such a server and
  its successful answer has an empty body, forwarding a query that is neither cached nor in flight
  panics while it writes the identifier into the answer; the guard still frees the key.
\<close>

theorem doh_empty_body_panics:
  assumes "choose_upstreams e (engine_rule e name qtype) name = UHttps a n p # us"
    and "cache_get now e name qtype = None" and "(dm_id query, name, qtype) \<notin> de_inflight e"
  shows "forward empty_doh (\<lambda>_. False) now later e query name qtype = (None, e)"
proof -
  obtain s e1 where s: "forward_begin now e query name qtype = (s, e1)" by fastforce
  from s obtain w where w: "s = Parked w" "uw_upstreams w = UHttps a n p # us"
    "guard_key w = (dm_id query, name, qtype)" "e1 = e\<lparr>de_inflight := insert (dm_id query, name, qtype) (de_inflight e)\<rparr>"
    using assms by (cases rule: forward_begin_cases) auto
  then have "forward_upstreams empty_doh (\<lambda>_. False) later e1 w = (None, e1)"
    by (simp add: forward_upstreams_def empty_doh_exchange)
  then show ?thesis using s w(1,3,4) assms(3) by (simp add: forward_def release_def)
qed

theorem doh_empty_body_panics_witness:
  "forward empty_doh (\<lambda>_. False) 0 1 (sample_dns\<lparr>de_upstreams := [UHttps (V4 1, 443) ''d'' ''/'']\<rparr>) (sample_query 7) ''a.b'' 1 =
    (None, sample_dns\<lparr>de_upstreams := [UHttps (V4 1, 443) ''d'' ''/'']\<rparr>)"
  by (rule doh_empty_body_panics)
    (simp_all add: sample_dns_def choose_upstreams_def engine_rule_def or_else_def cache_get_def)

section \<open>The loop guard under concurrency\<close>

text \<open>
  The engine with the walks parked on their upstreams. Queries arrive at any time, walks end in any
  order with whatever the network gave, and a client may walk away.
\<close>

inductive dns_step :: "dns_engine \<times> upstream_walk list \<Rightarrow> dns_engine \<times> upstream_walk list \<Rightarrow> bool" where
  arrive_parked: "forward_begin now e query name qtype = (Parked w, e') \<Longrightarrow> dns_step (e, ws) (e', w # ws)"
| arrive_answered: "forward_begin now e query name qtype = (Answered r, e') \<Longrightarrow> dns_step (e, ws) (e', ws)"
| complete: "w \<in> set ws \<Longrightarrow> forward_upstreams net expired later e w = (r, e') \<Longrightarrow>
    dns_step (e, ws) (release w e', remove1 w ws)"
| cancel: "w \<in> set ws \<Longrightarrow> dns_step (e, ws) (release w e, remove1 w ws)"
| allocate: "alloc_fakeip e d = (r, e') \<Longrightarrow> dns_step (e, ws) (e', ws)"
| flush_cache: "dns_step (e, ws) (clear_cache e, ws)"

inductive dns_runs :: "dns_engine \<Rightarrow> dns_engine \<times> upstream_walk list \<Rightarrow> bool" for e0 where
  runs_start: "dns_runs e0 (e0, [])"
| runs_step: "dns_runs e0 s \<Longrightarrow> dns_step s s' \<Longrightarrow> dns_runs e0 s'"

inductive_cases dns_step_elim: "dns_step s s'"

definition guarded :: "dns_engine \<times> upstream_walk list \<Rightarrow> bool" where
  "guarded s = (distinct (map guard_key (snd s)) \<and> de_inflight (fst s) = set (map guard_key (snd s)))"

lemma forward_upstreams_inflight:
  "forward_upstreams net expired later e w = (r, e') \<Longrightarrow> de_inflight e' = de_inflight e"
  by (auto simp: forward_upstreams_def Let_def split: option.splits if_splits)

lemma persist_inflight [simp]: "de_inflight (persist_fakeip e) = de_inflight e"
  by (simp add: persist_fakeip_def split: option.split)

lemma alloc_fakeip_cases:
  assumes "alloc_fakeip e d = (r, e')"
  obtains (none) "de_fakeip e = None" "r = None" "e' = e"
  | (kept) p p' res where "de_fakeip e = Some p" "lookup_or_alloc_flagged p d = (res, p')"
      "r = Some (rbind res (\<lambda>(ip, _). Inr ip))" "e' = e\<lparr>de_fakeip := Some p'\<rparr>"
      "\<And>ip. res = Inr (ip, True) \<Longrightarrow> de_fakeip_store e = None"
  | (counted) p p' ip where "de_fakeip e = Some p" "lookup_or_alloc_flagged p d = (Inr (ip, True), p')"
      "r = Some (Inr ip)" "de_fakeip_store e \<noteq> None" "de_since_persist e < 32"
      "e' = e\<lparr>de_fakeip := Some p', de_since_persist := de_since_persist e + 1\<rparr>"
  | (written) p p' ip where "de_fakeip e = Some p" "lookup_or_alloc_flagged p d = (Inr (ip, True), p')"
      "r = Some (Inr ip)" "de_fakeip_store e \<noteq> None" "32 \<le> de_since_persist e"
      "e' = e\<lparr>de_fakeip := Some p', de_since_persist := 0, de_disk := Some (store_of p')\<rparr>"
proof (cases "de_fakeip e")
  case None
  then show ?thesis using assms by (intro none) (simp_all add: alloc_fakeip_def)
next
  case (Some p)
  obtain res p' where l: "lookup_or_alloc_flagged p d = (res, p')" by fastforce
  show ?thesis
  proof (cases "\<exists>ip. res = Inr (ip, True) \<and> de_fakeip_store e \<noteq> None")
    case False
    then show ?thesis
      using assms Some l by (intro kept [OF Some l]) (auto simp: alloc_fakeip_def split: sum.splits)
  next
    case True
    then obtain ip path where t: "res = Inr (ip, True)" "de_fakeip_store e = Some path" by auto
    show ?thesis
    proof (cases "32 \<le> de_since_persist e")
      case True
      then show ?thesis using assms Some l t
        by (intro written [OF Some l [unfolded t(1)]]) (auto simp: alloc_fakeip_def persist_fakeip_def)
    next
      case False
      then show ?thesis using assms Some l t
        by (intro counted [OF Some l [unfolded t(1)]]) (auto simp: alloc_fakeip_def)
    qed
  qed
qed

lemma alloc_fakeip_inflight: "alloc_fakeip e d = (r, e') \<Longrightarrow> de_inflight e' = de_inflight e"
proof (erule alloc_fakeip_cases)
qed simp_all

lemma guarded_release:
  assumes "guarded (e, ws)" and "w \<in> set ws" and "de_inflight e' = de_inflight e"
  shows "guarded (release w e', remove1 w ws)"
proof -
  have d: "distinct (map guard_key ws)" and f: "de_inflight e = guard_key ` set ws" using assms(1) by (simp_all add: guarded_def)
  have "distinct ws" using d by (simp add: distinct_map)
  then have "set (remove1 w ws) = set ws - {w}" by simp
  moreover have "inj_on guard_key (set ws)" using d by (simp add: distinct_map)
  ultimately have "guard_key ` set (remove1 w ws) = guard_key ` set ws - {guard_key w}"
    using assms(2) inj_on_image_set_diff [of guard_key "set ws" "set ws" "{w}"] by simp
  moreover have "distinct (map guard_key (remove1 w ws))"
    using d by (simp add: distinct_map distinct_remove1) (meson inj_on_diff)
  ultimately show ?thesis using f assms(3) by (simp add: guarded_def release_def)
qed

lemma dns_step_guarded: "dns_step s s' \<Longrightarrow> guarded s \<Longrightarrow> guarded s'"
proof (induction rule: dns_step.induct)
  case (arrive_parked now e query name qtype w e' ws)
  from arrive_parked(1) show ?case
    using arrive_parked(2) by (cases rule: forward_begin_cases) (auto simp: guarded_def)
next
  case (arrive_answered now e query name qtype r e' ws)
  from arrive_answered(1) show ?case
    using arrive_answered(2) by (cases rule: forward_begin_cases) auto
next
  case complete
  then show ?case using guarded_release forward_upstreams_inflight by metis
next
  case cancel
  then show ?case using guarded_release by metis
qed (auto simp: guarded_def clear_cache_def dest: alloc_fakeip_inflight)

lemma dns_runs_guarded: "dns_runs e0 s \<Longrightarrow> de_inflight e0 = {} \<Longrightarrow> guarded s"
  by (induction rule: dns_runs.induct) (auto simp: guarded_def [of "(e0, [])"] intro: dns_step_guarded)

text \<open>
  C15: The loop guard holds in every interleaving of arriving, finishing and cancelled queries: no two
  parked walks have the same identifier, name and type; a key is in flight exactly while its walk
  is parked, so none is ever leaked; and a query that comes back while its walk is parked is not
  forwarded again: it is answered from the cache or with SERVFAIL, and changes nothing.
\<close>

theorem loop_guard_sound:
  assumes "dns_runs e0 (e, ws)" and "de_inflight e0 = {}"
  shows "distinct (map guard_key ws) \<and> de_inflight e = guard_key ` set ws \<and>
    (\<forall>w \<in> set ws. \<forall>now query. guard_key w = (dm_id query, name, qtype) \<longrightarrow>
       (\<exists>r. forward_begin now e query name qtype = (Answered r, e) \<and>
          (cache_get now e name qtype = None \<longrightarrow> r = build_response query RCODE_SERVFAIL [])))"
proof -
  have g: "guarded (e, ws)" using dns_runs_guarded [OF assms] .
  moreover have "\<exists>r. forward_begin now e query name qtype = (Answered r, e) \<and>
      (cache_get now e name qtype = None \<longrightarrow> r = build_response query RCODE_SERVFAIL [])"
    if "w \<in> set ws" "guard_key w = (dm_id query, name, qtype)" for w now query
  proof -
    obtain s e1 where s: "forward_begin now e query name qtype = (s, e1)" by fastforce
    have infl: "(dm_id query, name, qtype) \<in> de_inflight e" using g that imageI [of w "set ws" guard_key] by (simp add: guarded_def)
    from s show ?thesis
    proof (cases rule: forward_begin_cases)
      case (hit hit)
      with s show ?thesis by (intro exI [of _ "build_response query RCODE_NOERROR (map (\<lambda>ip. (ip, 30)) hit)"]) simp
    next
      case loop
      with s show ?thesis by (intro exI [of _ "build_response query RCODE_SERVFAIL []"]) simp
    qed (use infl in simp)
  qed
  ultimately show ?thesis by (simp add: guarded_def)
qed

theorem loop_guard_sound_witness:
  "\<exists>w e. dns_step (sample_dns, []) (e, [w]) \<and>
     (\<exists>r. forward_begin 5 e (sample_query 7) ''a.b'' 1 = (Answered r, e))"
proof -
  obtain s e where s: "forward_begin 0 sample_dns (sample_query 7) ''a.b'' 1 = (s, e)" by fastforce
  from s obtain w where w: "s = Parked w" "guard_key w = (dm_id (sample_query 7), ''a.b'', 1)"
    by (cases rule: forward_begin_cases) (simp_all add: sample_dns_def cache_get_def)
  have st: "dns_step (sample_dns, []) (e, [w])" using arrive_parked s w(1) by metis
  then have "dns_runs sample_dns (e, [w])" by (rule runs_step [OF runs_start])
  from loop_guard_sound [OF this, of "''a.b''" 1] w(2)
  have "\<exists>r. forward_begin 5 e (sample_query 7) ''a.b'' 1 = (Answered r, e)"
    by (simp add: sample_dns_def) blast
  with st show ?thesis by blast
qed

section \<open>The store lags by a bounded number of mappings\<close>

text \<open>Every mapped domain is in the LRU list; unlike the full pool invariant this survives a wrapped cursor.\<close>

definition order_covers :: "fake_pool \<Rightarrow> bool" where
  "order_covers p = (dom (hm_get (fi_by_domain (fp_inner p))) \<subseteq> set (fi_order (fp_inner p)))"

definition stored_domains :: "store_file \<Rightarrow> string set" where
  "stored_domains f = fst ` set (sf_mappings f)"

definition unstored :: "dns_engine \<Rightarrow> string set" where
  "unstored e =
    (case (de_fakeip e, de_disk e) of
       (Some p, Some f) \<Rightarrow> dom (fake_lookup p) - stored_domains f
     | _ \<Rightarrow> {})"

lemma stored_domains_store: "order_covers p \<Longrightarrow> stored_domains (store_of p) = dom (fake_lookup p)"
  by (force simp: stored_domains_def store_of_def order_covers_def fake_lookup_def List.map_filter_def Let_def dom_def)

lemma evict_covers:
  assumes "dom (hm_get (fi_by_domain i)) \<subseteq> set (fi_order i)"
  shows "dom (hm_get (fi_by_domain (evict_when_full sz i))) \<subseteq> set (fi_order (evict_when_full sz i)) \<and>
    dom (hm_get (fi_by_domain (evict_when_full sz i))) \<subseteq> dom (hm_get (fi_by_domain i))"
proof (cases "fi_order i")
  case Nil
  then show ?thesis using assms by (simp add: evict_when_full_def evict_front_def)
next
  case (Cons v rest)
  let ?m = "fi_by_domain i"
  have "dom (hm_get (hm_remove v ?m)) = dom (hm_get ?m) - {v}" by (auto simp: dom_def)
  moreover have "hm_get ?m v = None \<Longrightarrow> v \<notin> dom (hm_get ?m)" by auto
  ultimately show ?thesis using assms Cons by (auto simp: evict_when_full_def evict_front_def split: option.split)
qed

lemma alloc_covers:
  assumes "order_covers p" and "lookup_or_alloc_flagged p d = (r, p')"
  shows "order_covers p' \<and> dom (fake_lookup p') \<subseteq> insert d (dom (fake_lookup p)) \<and>
    ((\<exists>ip. r = Inr (ip, True)) \<or> dom (fake_lookup p') = dom (fake_lookup p))"
proof (cases "255 < length d \<or> fake_lookup p d \<noteq> None")
  case True
  then have "p' = p \<or> p' = p\<lparr>fp_inner := (fp_inner p)\<lparr>fi_order := touch (fi_order (fp_inner p)) d\<rparr>\<rparr>"
    using assms(2) by (auto simp: lookup_or_alloc_flagged_def fake_lookup_def Let_def split: if_splits)
  then show ?thesis using assms(1) by (elim disjE) (simp_all add: order_covers_def fake_lookup_def [abs_def] subset_insertI)
next
  case False
  let ?i = "evict_when_full (fp_size p) (fp_inner p)"
  obtain ip c where "alloc_slot p ?i = (ip, c)" by fastforce
  then have "r = Inr (ip, True)" "p' = p\<lparr>fp_inner := record_mapping d ip (?i\<lparr>fi_cursor := c\<rparr>)\<rparr>"
    using False assms(2) by (auto simp: lookup_or_alloc_flagged_def fake_lookup_def Let_def)
  moreover have "dom (hm_get (fi_by_domain ?i)) \<subseteq> set (fi_order ?i) \<and>
      dom (hm_get (fi_by_domain ?i)) \<subseteq> dom (hm_get (fi_by_domain (fp_inner p)))"
    using evict_covers assms(1) unfolding order_covers_def by blast
  ultimately show ?thesis
    by (auto simp: order_covers_def fake_lookup_def record_mapping_def dom_def split: if_splits)
qed

definition store_inv :: "dns_engine \<Rightarrow> bool" where
  "store_inv e =
    (case de_fakeip e of
       None \<Rightarrow> True
     | Some p \<Rightarrow> order_covers p \<and> finite (dom (fake_lookup p)) \<and> de_since_persist e \<le> 32 \<and>
         card (unstored e) \<le> de_since_persist e)"

lemma finite_unstored: "store_inv e \<Longrightarrow> finite (unstored e)"
  by (auto simp: store_inv_def unstored_def split: option.splits)

lemma alloc_fakeip_store_inv:
  assumes inv: "store_inv e" and a: "alloc_fakeip e d = (r, e')" and s: "de_fakeip_store e \<noteq> None"
  shows "store_inv e' \<and> de_fakeip_store e' = de_fakeip_store e"
  using a
proof (cases rule: alloc_fakeip_cases)
  case none
  then show ?thesis using inv by simp
next
  case (kept p p' res)
  then have "\<nexists>ip. res = Inr (ip, True)" using s by auto
  then have c: "order_covers p'" "dom (fake_lookup p') = dom (fake_lookup p)"
    using alloc_covers [OF _ kept(2)] inv kept(1) by (auto simp: store_inv_def)
  then have "unstored e' = unstored e" using kept(1,4) by (simp add: unstored_def split: option.split)
  then show ?thesis using c inv kept(1,4) by (simp add: store_inv_def)
next
  case (counted p p' ip)
  then have c: "order_covers p'" "dom (fake_lookup p') \<subseteq> insert d (dom (fake_lookup p))"
    using alloc_covers [OF _ counted(2)] inv by (auto simp: store_inv_def)
  then have "unstored e' \<subseteq> insert d (unstored e)" using counted(1,6) by (auto simp: unstored_def split: option.splits)
  moreover have "finite (unstored e)" using finite_unstored [OF inv] .
  ultimately have "card (unstored e') \<le> card (insert d (unstored e))" by (intro card_mono) simp_all
  also have "\<dots> \<le> Suc (card (unstored e))"
    using finite_unstored [OF inv] by (simp add: card_insert_if)
  finally have "card (unstored e') \<le> Suc (card (unstored e))" .
  moreover have "finite (dom (fake_lookup p'))" using c inv counted(1) by (auto simp: store_inv_def intro: finite_subset)
  ultimately show ?thesis using c inv counted(1,5,6) by (simp add: store_inv_def)
next
  case (written p p' ip)
  then have c: "order_covers p'" "dom (fake_lookup p') \<subseteq> insert d (dom (fake_lookup p))"
    using alloc_covers [OF _ written(2)] inv by (auto simp: store_inv_def)
  moreover have "finite (dom (fake_lookup p'))" using c inv written(1) by (auto simp: store_inv_def intro: finite_subset)
  moreover have "unstored e' = {}" using written(6) c(1) by (simp add: unstored_def stored_domains_store)
  ultimately show ?thesis using written(6) by (simp add: store_inv_def)
qed

lemma load_mappings_covers:
  "load_mappings p ms i = Inr j \<Longrightarrow> dom (hm_get (fi_by_domain i)) \<subseteq> set (fi_order i) \<Longrightarrow>
   dom (hm_get (fi_by_domain j)) \<subseteq> set (fi_order j)"
proof (induction p ms i rule: load_mappings.induct)
  case (2 p d t ms i)
  then obtain ip where j: "parse_ip t = Some ip" "load_mappings p ms (record_mapping d ip i) = Inr j"
    "pool_contains p ip" "\<not> (hm_contains (fi_by_domain i) d \<or> hm_contains (fi_by_ip i) ip)"
    by (auto split: option.splits if_splits)
  have "dom (hm_get (fi_by_domain (record_mapping d ip i))) \<subseteq> set (fi_order (record_mapping d ip i))"
    using 2(3) by (auto simp: record_mapping_def dom_def split: if_splits)
  then show ?case by (rule 2(1) [OF j(1) _ j(4) j(2), rotated]) (use j(3) in simp)
qed simp

lemma pool_new_covers: "pool_new cidr = Inr p \<Longrightarrow> order_covers p"
  by (auto simp: pool_new_def rbind_Inr_iff order_covers_def inner_empty_def)

lemma load_from_covers:
  assumes "load_from json_decode cidr raw = Inr p"
  shows "order_covers p"
proof -
  obtain p0 where p0: "pool_new cidr = Inr p0" using assms by (auto simp: load_from_def rbind_Inr_iff)
  then have c: "order_covers p0" "fp_inner p0 = inner_empty"
    using pool_new_covers by (auto simp: pool_new_def rbind_Inr_iff)
  have "order_covers q" if "load_store p0 f = Inr q" for f q
  proof (cases "q = p0")
    case False
    with that obtain i where i: "load_mappings p0 (sf_mappings f) inner_empty = Inr i" "fi_by_domain (fp_inner q) = fi_by_domain i"
      "fi_order (fp_inner q) = fi_order i"
      by (auto simp: load_store_def c(2) rbind_Inr_iff split: if_splits)
    have "dom (hm_get (fi_by_domain inner_empty)) \<subseteq> set (fi_order inner_empty)" by (auto simp: inner_empty_def dom_def)
    from load_mappings_covers [OF i(1) this] show ?thesis by (simp add: order_covers_def i(2,3))
  qed (use c in simp)
  then show ?thesis using assms p0 c(1) by (auto simp: load_from_def rbind_Inr_iff split: file_read.splits option.splits)
qed

lemma finite_fake_lookup: "finite (dom (fake_lookup p))"
  by (simp add: fake_lookup_def [abs_def] hm_get_def finite_dom_map_of)

lemma dns_engine_new_store_inv:
  assumes "dns_engine_new json_decode read_file regex_new pf now cfg filt = Inr e"
  shows "store_inv e \<and> de_fakeip_store e = dc_fakeip_store cfg"
proof -
  obtain pool where pool: "fakeip_of_config json_decode read_file cfg = Inr pool" "de_fakeip e = pool"
    "de_since_persist e = 0" "de_fakeip_store e = dc_fakeip_store cfg"
    "de_disk e = (case (pool, dc_fakeip_store cfg) of (Some p, Some _) \<Rightarrow> Some (store_of p) | _ \<Rightarrow> None)"
    using assms by (auto simp: dns_engine_new_def rbind_Inr_iff Let_def split: if_splits)
  have c: "order_covers p" if "pool = Some p" for p
    using pool(1) that pool_new_covers load_from_covers
    by (auto simp: fakeip_of_config_def rbind_Inr_iff split: enhanced_mode.splits option.splits)
  then have "unstored e = {}"
    using pool(2,5) by (auto simp: unstored_def stored_domains_store split: option.splits)
  then show ?thesis using c pool(2-4) finite_fake_lookup by (auto simp: store_inv_def split: option.split)
qed

text \<open>
  The fake-IP store lags behind the pool by at most 32 mappings: from the start of an engine with a store,
  after any sequence of allocations, at most 32 mapped domains are not in what was last written, also
  when the cursor has wrapped and when domains were evicted.
\<close>

theorem store_lag_bounded:
  assumes "dns_engine_new json_decode read_file regex_new pf now cfg filt = Inr e" and "dc_fakeip_store cfg \<noteq> None"
  shows "card (unstored (foldl (\<lambda>e d. snd (alloc_fakeip e d)) e ds)) \<le> 32"
proof -
  have "store_inv (foldl (\<lambda>e d. snd (alloc_fakeip e d)) e ds)" if "store_inv e" "de_fakeip_store e \<noteq> None" for e
    using that
  proof (induction ds arbitrary: e)
    case (Cons d ds)
    obtain r e' where "alloc_fakeip e d = (r, e')" by fastforce
    with alloc_fakeip_store_inv [OF Cons.prems(1) this Cons.prems(2)] Cons.IH [of e'] Cons.prems show ?case by simp
  qed simp
  then have "store_inv (foldl (\<lambda>e d. snd (alloc_fakeip e d)) e ds)"
    using dns_engine_new_store_inv [OF assms(1)] assms(2) by simp
  then show ?thesis by (auto simp: store_inv_def unstored_def split: option.splits)
qed

definition stored_config :: dns_config where
  "stored_config = sample_config\<lparr>dc_nameservers := [''rcode://success''], dc_fakeip_store := Some ''f.json''\<rparr>"

lemma stored_config_builds:
  "\<exists>e. dns_engine_new (\<lambda>_. None) (\<lambda>_. NotFound) (\<lambda>_. None) \<lparr>pf_file = \<lambda>_. None, pf_leases = [], pf_lookup = \<lambda>_ _. None\<rparr> 0
     stored_config domain_matcher_empty = Inr e"
proof -
  have "parse_upstream \<lparr>pf_file = \<lambda>_. None, pf_leases = [], pf_lookup = \<lambda>_ _. None\<rparr> ''rcode://success'' \<noteq> None"
    by (simp add: parse_upstream_def split_once_str_def parse_rcode_token_def)
  then show ?thesis
    using example_pool_new
    by (auto simp: dns_engine_new_def fakeip_of_config_def stored_config_def sample_config_def load_from_def
      config_upstreams_def List.map_filter_def Let_def)
qed

theorem store_lag_bounded_witness:
  "\<exists>e. dns_engine_new (\<lambda>_. None) (\<lambda>_. NotFound) (\<lambda>_. None) \<lparr>pf_file = \<lambda>_. None, pf_leases = [], pf_lookup = \<lambda>_ _. None\<rparr> 0
       stored_config domain_matcher_empty = Inr e \<and>
     card (unstored (foldl (\<lambda>e d. snd (alloc_fakeip e d)) e [''a.test'', ''b.test'', ''c.test''])) \<le> 32"
proof -
  obtain e where e: "dns_engine_new (\<lambda>_. None) (\<lambda>_. NotFound) (\<lambda>_. None)
      \<lparr>pf_file = \<lambda>_. None, pf_leases = [], pf_lookup = \<lambda>_ _. None\<rparr> 0 stored_config domain_matcher_empty = Inr e"
    using stored_config_builds by blast
  from store_lag_bounded [OF e, of "[''a.test'', ''b.test'', ''c.test'']"] e show ?thesis
    by (simp add: stored_config_def)
qed

section \<open>The fake-IP answer\<close>

lemma handle_fake:
  assumes "parse query = Inr msg" and "first_question msg = Some q" and "hosts_answer e q = []"
    and "q_type q = TYPE_A" and "\<not> domain_matcher_matches (de_fakeip_filter e) (q_name q)"
    and "de_fakeip e = Some p" and "lookup_or_alloc p (q_name q) = (Inr ip, p')"
  shows "\<exists>e'. handle net expired now later e query = (Some (build_response msg RCODE_NOERROR [(ip, 1)]), e') \<and>
    de_fakeip e' = Some p'"
proof -
  obtain res p2 where l: "lookup_or_alloc_flagged p (q_name q) = (res, p2)" by fastforce
  with assms(7) obtain fresh where f: "res = Inr (ip, fresh)" "p2 = p'"
    by (auto simp: lookup_or_alloc_def rbind_Inr_iff)
  obtain r e' where a: "alloc_fakeip e (q_name q) = (r, e')" by fastforce
  have "r = Some (Inr ip) \<and> de_fakeip e' = Some p'"
    using a l f assms(6) by (cases rule: alloc_fakeip_cases) auto
  then show ?thesis
    using a assms by (simp add: handle_def fake_answer_def TYPE_A_def TYPE_AAAA_def)
qed

text \<open>
  Static hosts come first: a query for an address of a configured host is answered with exactly the
  addresses of the asked family, in order and with a TTL of an hour, without touching the pool, the
  cache or the network.
\<close>

theorem hosts_answer_first:
  assumes "parse query = Inr msg" and "first_question msg = Some q" and "hm_get (de_hosts e) (q_name q) = Some addrs"
    and "q_type q = TYPE_A" and "filter is_ipv4 addrs \<noteq> []"
  shows "handle net expired now later e query =
    (Some (build_response msg RCODE_NOERROR (map (\<lambda>ip. (ip, 3600)) (filter is_ipv4 addrs))), e)"
proof -
  have "hosts_answer e q = map (\<lambda>ip. (ip, 3600)) (filter is_ipv4 addrs)"
    using assms(3,4) by (simp add: hosts_answer_def TYPE_A_def TYPE_AAAA_def)
  then show ?thesis using assms by (simp add: handle_def)
qed

theorem hosts_answer_first_witness:
  "\<exists>msg. handle sample_net (\<lambda>_. False) 0 1 (sample_dns\<lparr>de_hosts := [(''a.b'', [V6 1, V4 9])]\<rparr>) (build_query 3 ''A.b'' 1) =
    (Some (build_response msg RCODE_NOERROR [(V4 9, 3600)]), sample_dns\<lparr>de_hosts := [(''a.b'', [V6 1, V4 9])]\<rparr>)"
proof -
  have "dns_name_ok ''A.b''" by (simp add: dns_name_ok_def label_ok_def text_eval)
  note p = parse_build_query [OF this, of 3 1]
  from hosts_answer_first [OF p, of "\<lparr>q_name = ''a.b'', q_type = 1, q_class = 1\<rparr>"
      "sample_dns\<lparr>de_hosts := [(''a.b'', [V6 1, V4 9])]\<rparr>" "[V6 1, V4 9]"]
  show ?thesis by (simp add: first_question_def text_eval hm_get_def TYPE_A_def is_ipv4_def) blast
qed

text \<open>The router's lookup takes the IPv4 addresses of a configured host for every query type.\<close>

lemma resolve_hosts_any_type:
  "hm_get (de_hosts e) name = Some addrs \<Longrightarrow> filter is_ipv4 addrs \<noteq> [] \<Longrightarrow>
   resolve net expired now later e name TYPE_AAAA = (Some (Some (filter is_ipv4 addrs)), e)"
  by (simp add: resolve_def)

end
