(* ===== verification/Engine_Config.thy ===== *)
theory Engine_Config
  imports Router Group Resolver
begin

text \<open>
  The normalized configuration (src/engine/src/config.rs): the small parsers both dialects share, the
  built-in outbounds, health-check options, validation, and the computation of the due groups of a health
  tick (src/engine/src/app.rs). Whether a provider file exists is a parameter.
\<close>

section \<open>State\<close>

record rule_provider_spec =
  ps_name :: string
  ps_path :: string
  ps_behavior :: provider_behavior
  ps_format :: provider_format

record group_health =
  gh_lazy :: bool
  gh_expected_status :: expected_status

record engine_config =
  ec_mode :: rule_mode
  ec_outbounds :: "outbound_cfg list"
  ec_groups :: "group_config list"
  ec_rules :: "string list"
  ec_dns :: "dns_config option"
  ec_rule_providers :: "rule_provider_spec list"
  ec_group_health :: "(string, group_health) hash_map"
  ec_rule_actions :: "(nat, rule_action) hash_map"

section \<open>Small parsers\<close>

definition provider_behavior_parse :: "string \<Rightarrow> provider_behavior result" where
  "provider_behavior_parse s =
    (if s = ''domain'' then Inr BDomain
     else if s = ''ipcidr'' \<or> s = ''ipcidr6'' then Inr BIpCidr
     else if s = ''classical'' then Inr BClassical
     else Inl (Config ''bad provider behavior''))"

definition provider_format_parse :: "string \<Rightarrow> provider_format result" where
  "provider_format_parse s =
    (if s = ''text'' then Inr FText
     else if s = ''yaml'' \<or> s = ''yml'' then Inr FYaml
     else if s = ''mrs'' \<or> s = ''srs'' \<or> s = ''binary'' then Inr FMrs
     else Inl (Config ''bad provider format''))"

definition group_policy_parse :: "string \<Rightarrow> group_policy result" where
  "group_policy_parse s =
    (if s = ''select'' then Inr GSelect
     else if s = ''url-test'' then Inr GUrlTest
     else if s = ''fallback'' then Inr GFallback
     else if s = ''load-balance'' then Inr GLoadBalance
     else Inl (Config ''unsupported group type''))"

definition group_policy_str :: "group_policy \<Rightarrow> string" where
  "group_policy_str p =
    (case p of GSelect \<Rightarrow> ''Selector'' | GUrlTest \<Rightarrow> ''URLTest'' | GFallback \<Rightarrow> ''Fallback'' | GLoadBalance \<Rightarrow> ''LoadBalance'')"

definition split_controller :: "string \<Rightarrow> string \<times> u16" where
  "split_controller controller =
    (case rsplit_once CHR '':'' (trim controller) of
       None \<Rightarrow> (''127.0.0.1'', 9090)
     | Some (host, port) \<Rightarrow>
         let host = trim_end_matches CHR '']'' (trim_start_matches CHR ''['' host)
         in (if host = [] \<or> host = ''*'' then ''0.0.0.0'' else host,
             case parse_u16 port of Some p \<Rightarrow> p | None \<Rightarrow> 9090))"

definition normalize_listen :: "string \<Rightarrow> string" where
  "normalize_listen listen =
    (case strip_prefix '':'' (trim listen) of
       Some port \<Rightarrow> ''0.0.0.0:'' @ port
     | None \<Rightarrow> trim listen)"

definition trim_bracket :: "string \<Rightarrow> string" where
  "trim_bracket s =
    (let drop = dropWhile (\<lambda>c. c = CHR ''['' \<or> c = CHR '']'' \<or> c = CHR '' '') in rev (drop (rev (drop s))))"

definition status_bound :: "string \<Rightarrow> u16 result" where
  "status_bound s = ok_or (parse_u16 (trim_bracket s)) (Config ''invalid range'')"

definition status_entry :: "string \<Rightarrow> (u16 \<times> u16) result" where
  "status_entry entry =
    (case split_once CHR ''-'' entry of
       None \<Rightarrow> rbind (status_bound entry) (\<lambda>v. Inr (v, v))
     | Some (lo, hi) \<Rightarrow>
         rbind (status_bound lo) (\<lambda>lo. rbind (status_bound hi) (\<lambda>hi. Inr (min lo hi, max lo hi))))"

definition expected_status_parse :: "string \<Rightarrow> expected_status result" where
  "expected_status_parse payload =
    (let payload = trim payload in
     if payload = [] \<or> payload = ''*'' then Inr []
     else
       let entries = split_on CHR ''/'' (map (\<lambda>c. if c = CHR '','' then CHR ''/'' else c) payload) in
       if 28 < length entries then Inl (Config ''too many ranges'')
       else collect_results (map status_entry (filter (\<lambda>e. e \<noteq> []) entries)))"

section \<open>Outbounds and health\<close>

definition builtin_outbound :: "string \<Rightarrow> bool \<Rightarrow> outbound_cfg" where
  "builtin_outbound name udp =
    \<lparr>oc_name = name, oc_udp = udp,
     oc_kind = (if name = ''DIRECT'' \<or> name = ''PASS'' \<or> name = ''COMPATIBLE'' then ''Direct'' else ''Reject'')\<rparr>"

definition config_names :: "engine_config \<Rightarrow> string list" where
  "config_names cfg = map oc_name (ec_outbounds cfg) @ map gc_name (ec_groups cfg)"

definition add_builtin :: "engine_config \<Rightarrow> string \<times> bool \<Rightarrow> engine_config" where
  "add_builtin cfg b =
    (if fst b \<in> set (config_names cfg) then cfg
     else cfg\<lparr>ec_outbounds := ec_outbounds cfg @ [builtin_outbound (fst b) (snd b)]\<rparr>)"

definition with_builtin_outbounds :: "engine_config \<Rightarrow> engine_config" where
  "with_builtin_outbounds cfg =
    foldl add_builtin cfg [(''DIRECT'', True), (''REJECT'', False), (''REJECT-DROP'', False), (''PASS'', True), (''COMPATIBLE'', True)]"

definition config_group_health :: "engine_config \<Rightarrow> string \<Rightarrow> group_health" where
  "config_group_health cfg name =
    (case hm_get (ec_group_health cfg) name of
       Some h \<Rightarrow> h
     | None \<Rightarrow> \<lparr>gh_lazy = False, gh_expected_status = []\<rparr>)"

definition health_due :: "group_health \<Rightarrow> nat \<Rightarrow> instant option \<Rightarrow> instant \<Rightarrow> bool" where
  "health_due h interval last_touch now =
    (if \<not> gh_lazy h then True
     else case last_touch of Some t \<Rightarrow> now - t < interval | None \<Rightarrow> False)"

text \<open>The due set of a tick, then the round over it.\<close>

definition due_groups :: "engine_config \<Rightarrow> (string, instant) hash_map \<Rightarrow> instant \<Rightarrow> (string \<times> expected_status) list" where
  "due_groups cfg touches now =
    List.map_filter (\<lambda>g.
      let health = config_group_health cfg (gc_name g) in
      if gc_policy g \<noteq> GSelect \<and>
         health_due health (secs (max (gc_interval g) 1)) (hm_get touches (gc_name g)) now
      then Some (gc_name g, gh_expected_status health) else None) (ec_groups cfg)"

definition health_tick :: "lb_env \<Rightarrow> (outbound_cfg \<Rightarrow> net_addr \<Rightarrow> bytes \<Rightarrow> bytes result) \<Rightarrow> (string \<Rightarrow> u32) \<Rightarrow>
    engine_config \<Rightarrow> (string, instant) hash_map \<Rightarrow> instant \<Rightarrow> registry \<Rightarrow> registry" where
  "health_tick env dial elapsed cfg touches now r = health_round env dial elapsed r (due_groups cfg touches now)"

section \<open>Rules and validation\<close>

definition parse_rules :: "(string \<Rightarrow> regex option) \<Rightarrow> engine_config \<Rightarrow> rule list result" where
  "parse_rules regex_new cfg = collect_results (map (rule_parse regex_new) (ec_rules cfg))"

definition compile_rules :: "(string \<Rightarrow> regex option) \<Rightarrow> engine_config \<Rightarrow> rule_table result" where
  "compile_rules regex_new cfg =
    rbind (parse_rules regex_new cfg) (\<lambda>rules. Inr (from_parts rules (ec_rule_actions cfg)))"

definition rule_target_error :: "engine_config \<Rightarrow> nat \<Rightarrow> rule \<Rightarrow> error option" where
  "rule_target_error cfg i r =
    (if (case matcher r of MRuleSet name _ \<Rightarrow> name \<notin> set (map ps_name (ec_rule_providers cfg)) | _ \<Rightarrow> False)
     then Some (Config ''rule references unknown rule-set'')
     else if hm_contains (ec_rule_actions cfg) i then None
     else if outbound r \<notin> set (config_names cfg) then Some (Config ''rule target is not a configured proxy or group'')
     else None)"

fun check_rules :: "engine_config \<Rightarrow> nat \<Rightarrow> rule list \<Rightarrow> unit result" where
  "check_rules cfg i [] = Inr ()"
| "check_rules cfg i (r # rs) =
    (case rule_target_error cfg i r of Some e \<Rightarrow> Inl e | None \<Rightarrow> check_rules cfg (Suc i) rs)"

definition validate :: "(string \<Rightarrow> regex option) \<Rightarrow> (string \<Rightarrow> bool) \<Rightarrow> engine_config \<Rightarrow> string list result" where
  "validate regex_new file_exists cfg =
    (if ec_outbounds cfg = [] \<and> ec_groups cfg = [] then Inl (Config ''no outbounds configured'')
     else
       rbind (parse_rules regex_new cfg) (\<lambda>rules.
       rbind (check_rules cfg 0 rules) (\<lambda>_.
         if \<not> list_all (\<lambda>g. list_all (\<lambda>m. m \<in> set (config_names cfg)) (gc_members g)) (ec_groups cfg)
         then Inl (Config ''group references unknown proxy'')
         else Inr
           (map (\<lambda>p. ''rule provider '' @ ps_name p @ '' file missing: '' @ ps_path p)
              (filter (\<lambda>p. \<not> file_exists (ps_path p)) (ec_rule_providers cfg)) @
            (case ec_dns cfg of
               Some dns \<Rightarrow> (if dc_enable dns \<and> dc_listen dns = None then [''dns enabled without a listen address''] else [])
             | None \<Rightarrow> [])))))"

section \<open>Status lists\<close>

text \<open>The inclusive ranges a list stands for.\<close>

lemma status_entry_swaps:
  assumes "split_once CHR ''-'' entry = Some (a, b)" and "status_bound a = Inr x" and "status_bound b = Inr y"
  shows "\<exists>lo hi. status_entry entry = Inr (lo, hi) \<and> lo \<le> hi \<and> {lo, hi} = {x, y}"
  using assms by (auto simp: status_entry_def min_def max_def)

section \<open>Built-in outbounds\<close>

lemma add_builtin_names: "set (config_names (add_builtin cfg b)) = insert (fst b) (set (config_names cfg))"
  by (auto simp: add_builtin_def config_names_def builtin_outbound_def)

lemma add_builtin_known: "fst b \<in> set (config_names cfg) \<Longrightarrow> add_builtin cfg b = cfg"
  by (simp add: add_builtin_def)

lemma foldl_add_builtin_names:
  "set (config_names (foldl add_builtin cfg bs)) = fst ` set bs \<union> set (config_names cfg)"
  by (induction bs arbitrary: cfg) (auto simp: add_builtin_names)

lemma foldl_add_builtin_known:
  "fst ` set bs \<subseteq> set (config_names cfg) \<Longrightarrow> foldl add_builtin cfg bs = cfg"
  by (induction bs arbitrary: cfg) (auto simp: add_builtin_known)

text \<open>
  Injecting the built-in outbounds is idempotent, keeps what is configured in front, and makes the names the router
  falls back to available.
\<close>

theorem builtin_idempotent:
  "with_builtin_outbounds (with_builtin_outbounds cfg) = with_builtin_outbounds cfg \<and>
   {''DIRECT'', ''REJECT'', ''REJECT-DROP'', ''PASS'', ''COMPATIBLE''} \<subseteq> set (config_names (with_builtin_outbounds cfg))"
proof -
  let ?bs = "[(''DIRECT'', True), (''REJECT'', False), (''REJECT-DROP'', False), (''PASS'', True), (''COMPATIBLE'', True)]"
  have n: "set (config_names (with_builtin_outbounds cfg)) = fst ` set ?bs \<union> set (config_names cfg)"
    unfolding with_builtin_outbounds_def by (rule foldl_add_builtin_names)
  then have "foldl add_builtin (with_builtin_outbounds cfg) ?bs = with_builtin_outbounds cfg"
    by (intro foldl_add_builtin_known) auto
  then show ?thesis using n by (auto simp: with_builtin_outbounds_def [of "with_builtin_outbounds cfg"])
qed

end
