(* ===== verification/Relay.thy ===== *)
theory Relay
  imports Engine_Config
begin

text \<open>
  The relay of a TCP connection (src/engine/src/app.rs, \<open>relay_tcp\<close>) up to the dial: the self-relay guard, the
  sniff of the first bytes, the route, the choice of the outbound and the target that is dialed; and what
  the router, the registry and a validated configuration promise together.
\<close>

section \<open>The decision\<close>





section \<open>No byte is lost, no fake address dialed\<close>









section \<open>Validated configurations route to outbounds\<close>








end
