(* ===== verification/Gun.thy ===== *)
theory Gun
  imports Transport
begin

unbundle bit_operations_syntax

text \<open>
  The framing of the gRPC transport (src/engine/src/grpc.rs): HTTP/2 frames, their padding, the length-prefixed gRPC
  messages with the \<open>Hunk\<close> envelope of the gun protocol, and the reassembler that turns DATA payloads back
  into the tunnel's bytes. The locale \<open>incremental_decoder\<close> is the contract of a decoder that is fed a stream in pieces.
\<close>

section \<open>Frames\<close>

type_synonym raw_frame = "u8 \<times> u8 \<times> u32 \<times> bytes"

definition FT_DATA :: u8 where "FT_DATA = 0x0"
definition FT_HEADERS :: u8 where "FT_HEADERS = 0x1"
definition FT_RST_STREAM :: u8 where "FT_RST_STREAM = 0x3"
definition FT_SETTINGS :: u8 where "FT_SETTINGS = 0x4"
definition FT_PUSH_PROMISE :: u8 where "FT_PUSH_PROMISE = 0x5"
definition FT_PING :: u8 where "FT_PING = 0x6"
definition FT_GOAWAY :: u8 where "FT_GOAWAY = 0x7"
definition FT_WINDOW_UPDATE :: u8 where "FT_WINDOW_UPDATE = 0x8"
definition FT_CONTINUATION :: u8 where "FT_CONTINUATION = 0x9"

definition FLAG_END_STREAM :: u8 where "FLAG_END_STREAM = 0x1"
definition FLAG_ACK :: u8 where "FLAG_ACK = 0x1"
definition FLAG_END_HEADERS :: u8 where "FLAG_END_HEADERS = 0x4"
definition FLAG_PADDED :: u8 where "FLAG_PADDED = 0x8"
definition FLAG_PRIORITY :: u8 where "FLAG_PRIORITY = 0x20"

definition STREAM_ID :: u32 where "STREAM_ID = 1"
definition MAX_FRAME :: nat where "MAX_FRAME = 16384"
definition MAX_MESSAGE :: nat where "MAX_MESSAGE = 16 * 2 ^ 20"
definition HUNK_TAG :: u8 where "HUNK_TAG = 0x0A"

lemmas frame_consts = FT_DATA_def FT_HEADERS_def FT_RST_STREAM_def FT_SETTINGS_def FT_PUSH_PROMISE_def FT_PING_def
  FT_GOAWAY_def FT_WINDOW_UPDATE_def FT_CONTINUATION_def

definition put_frame :: "bytes \<Rightarrow> u8 \<Rightarrow> u8 \<Rightarrow> u32 \<Rightarrow> bytes \<Rightarrow> bytes" where
  "put_frame out kind flags stream payload =
    out @ take 3 (drop 1 (u32_be (word_of_nat (length payload)))) @ [kind] @ [flags] @ u32_be stream @ payload"

definition take_frame :: "bytes \<Rightarrow> (raw_frame option \<times> bytes) result" where
  "take_frame rbuf =
    (if length rbuf < 9 then Inr (None, rbuf)
     else
       let len = push_bit 16 (unat (rbuf ! 0)) OR push_bit 8 (unat (rbuf ! 1)) OR unat (rbuf ! 2) in
       if MAX_FRAME < len then Inl (Protocol ''grpc: frame exceeds our max frame size'')
       else if length rbuf < 9 + len then Inr (None, rbuf)
       else
         let stream = push_bit 24 (ucast (rbuf ! 5) AND 0x7f) OR push_bit 16 (ucast (rbuf ! 6)) OR
               push_bit 8 (ucast (rbuf ! 7)) OR ucast (rbuf ! 8)
         in Inr (Some (rbuf ! 3, rbuf ! 4, stream, take len (drop 9 rbuf)), drop (9 + len) rbuf))"

definition strip_padding :: "u8 \<Rightarrow> bytes \<Rightarrow> bytes result" where
  "strip_padding flags payload =
    (if flags AND FLAG_PADDED = 0 then Inr payload
     else case payload of
       [] \<Rightarrow> Inl (Protocol ''grpc: empty padded frame'')
     | pad # rest \<Rightarrow>
         if length rest < unat pad then Inl (Protocol ''grpc: padding longer than frame'')
         else Inr (take (length rest - unat pad) rest))"

section \<open>Messages\<close>

function uvarint_len :: "nat \<Rightarrow> nat" where
  "uvarint_len v = (if 128 \<le> v then 1 + uvarint_len (drop_bit 7 v) else 1)"
  by pat_completeness auto
termination
  by (relation "measure id") (auto simp: drop_bit_eq_div)

function put_uvarint :: "nat \<Rightarrow> bytes" where
  "put_uvarint v =
    (let b = word_of_nat (v AND 0x7f); v = drop_bit 7 v in
     if v = 0 then [b] else (b OR 0x80) # put_uvarint v)"
  by pat_completeness auto
termination
  by (relation "measure id") (auto simp: drop_bit_eq_div)

declare uvarint_len.simps [simp del] put_uvarint.simps [simp del]

text \<open>One message of the tunnel, as a write chunk becomes it.\<close>

definition gun_message :: "bytes \<Rightarrow> bytes" where
  "gun_message data =
    [0] @ u32_be (word_of_nat (length data + 1 + uvarint_len (length data))) @ [HUNK_TAG] @ put_uvarint (length data) @ data"

text \<open>The length of a hunk: its value and the position behind it. \<open>usize\<close> has 64 bits.\<close>

function hunk_len :: "bytes \<Rightarrow> u64 \<Rightarrow> nat \<Rightarrow> nat \<Rightarrow> (u64 \<times> nat) result" where
  "hunk_len msg len shift i =
    (case slice_get msg i of
       None \<Rightarrow> Inl (Protocol ''grpc: truncated gun hunk length'')
     | Some b \<Rightarrow>
         if 64 \<le> shift then Inl (Protocol ''grpc: gun hunk length overflow'')
         else
           let len = len OR push_bit shift (ucast (b AND 0x7f)) in
           if b AND 0x80 = 0 then Inr (len, i + 1) else hunk_len msg len (shift + 7) (i + 1))"
  by pat_completeness auto
termination
  by (relation "measure (\<lambda>(msg, _, _, i). length msg - i)") (auto simp: slice_get_Some_iff)

declare hunk_len.simps [simp del]

definition strip_hunk :: "bytes \<Rightarrow> bytes result" where
  "strip_hunk msg =
    (if msg = [] then Inr []
     else if msg ! 0 \<noteq> HUNK_TAG then Inl (Protocol ''grpc: gun message missing hunk tag'')
     else
       rbind (hunk_len msg 0 0 1) (\<lambda>(len, i).
         if MAX_MESSAGE < unat len then Inl (Protocol ''grpc: gun payload exceeds limit'')
         else if length msg < i + unat len then Inl (Protocol ''grpc: gun payload exceeds message'')
         else if i + unat len \<noteq> length msg then Inl (Protocol ''grpc: gun payload shorter than message'')
         else Inr (take (unat len) (drop i msg))))"

text \<open>The loop of the reassembler over its carried bytes: result, bytes kept, output.\<close>

function deframe_loop :: "bytes \<Rightarrow> bytes \<Rightarrow> unit result \<times> bytes \<times> bytes" where
  "deframe_loop carry out =
    (if length carry < 5 then (Inr (), carry, out)
     else if carry ! 0 \<noteq> 0 then (Inl (Protocol ''grpc: compressed message''), carry, out)
     else
       let len = unat (u32_from (carry ! 1) (carry ! 2) (carry ! 3) (carry ! 4)) in
       if MAX_MESSAGE < len then (Inl (Protocol ''grpc: message exceeds limit''), carry, out)
       else if length carry < 5 + len then (Inr (), carry, out)
       else case strip_hunk (take len (drop 5 carry)) of
         Inl e \<Rightarrow> (Inl e, carry, out)
       | Inr payload \<Rightarrow> deframe_loop (drop (5 + len) carry) (out @ payload))"
  by pat_completeness auto
termination
  by (relation "measure (\<lambda>(carry, _). length carry)") auto

declare deframe_loop.simps [simp del]

definition deframer_push :: "bytes \<Rightarrow> bytes \<Rightarrow> bytes \<Rightarrow> unit result \<times> bytes \<times> bytes" where
  "deframer_push carry chunk out = deframe_loop (carry @ chunk) out"

section \<open>Decoders that are fed in pieces\<close>

text \<open>
  Feeding a decoder is insensitive to how its input is cut: what one piece leaves behind is completed by the next.
\<close>

locale incremental_decoder =
  fixes feed :: "'s \<Rightarrow> bytes \<Rightarrow> 's"
    and settled :: "'s \<Rightarrow> bool"
  assumes settled_feed: "settled s \<Longrightarrow> settled (feed s chunk)"
    and feed_nothing: "settled s \<Longrightarrow> feed s [] = s"
    and feed_append: "settled s \<Longrightarrow> feed (feed s a) b = feed s (a @ b)"
begin

lemma feed_chunks: "settled s \<Longrightarrow> foldl feed s chunks = feed s (concat chunks)"
  by (induction chunks arbitrary: s) (simp_all add: feed_nothing feed_append settled_feed)

lemma feed_same_bytes: "settled s \<Longrightarrow> concat as = concat bs \<Longrightarrow> foldl feed s as = foldl feed s bs"
  by (simp add: feed_chunks)

end

section \<open>Frames round-trip\<close>

lemma unat_byte_slice: "unat (ucast (drop_bit k (w :: u32)) :: u8) = take_bit 8 (drop_bit k (unat w))"
proof -
  have "take_bit 32 (unat w) = unat w" using unsigned_less [of w, where ?'a = nat] by (simp add: take_bit_nat_eq_self_iff del: unsigned_less)
  then show ?thesis by (simp add: unsigned_ucast_eq unsigned_drop_bit_eq)
qed

lemma frame_len_bytes:
  assumes "n < 2 ^ 24"
  shows "push_bit 16 (unat (ucast (drop_bit 16 (word_of_nat n :: u32)) :: u8)) OR
    push_bit 8 (unat (ucast (drop_bit 8 (word_of_nat n :: u32)) :: u8)) OR unat (ucast (word_of_nat n :: u32) :: u8) = n"
proof -
  have u: "unat (word_of_nat n :: u32) = n" using assms by (simp add: unsigned_of_nat take_bit_nat_eq_self_iff)
  have "take_bit 24 n = n" using assms by (simp add: take_bit_nat_eq_self_iff)
  then have b: "bit n i \<Longrightarrow> i < 24" for i by (metis bit_take_bit_iff)
  have l: "unat (ucast (word_of_nat n :: u32) :: u8) = take_bit 8 n" using unat_byte_slice [of 0 "word_of_nat n"] u by simp
  show ?thesis unfolding unat_byte_slice u l
  proof (rule bit_eqI)
    fix i :: nat
    consider "i < 8" | "8 \<le> i" "i < 16" | "16 \<le> i" "i < 24" | "24 \<le> i" by linarith
    then show "bit (push_bit 16 (take_bit 8 (drop_bit 16 n)) OR push_bit 8 (take_bit 8 (drop_bit 8 n)) OR take_bit 8 n) i \<longleftrightarrow> bit n i"
      unfolding bit_or_iff bit_push_bit_iff bit_take_bit_iff bit_drop_bit_eq comp_def
      by cases (auto dest: b)
  qed
qed

lemma stream_id_bytes:
  assumes "\<not> bit (s :: u32) 31"
  shows "push_bit 24 (ucast (ucast (drop_bit 24 s) :: u8) AND 0x7f) OR push_bit 16 (ucast (ucast (drop_bit 16 s) :: u8)) OR
    push_bit 8 (ucast (ucast (drop_bit 8 s) :: u8)) OR ucast (ucast s :: u8) = s" (is "?l = s")
proof (rule bit_word_eqI)
  have m: "(0x7f :: u32) = Bit_Operations.mask 7" by (simp add: mask_eq_exp_minus_1)
  fix i assume "i < LENGTH(32)"
  then consider "i < 8" | "8 \<le> i" "i < 16" | "16 \<le> i" "i < 24" | "24 \<le> i" "i < 31" | "i = 31" by fastforce
  then show "bit ?l i \<longleftrightarrow> bit s i"
    unfolding m bit_or_iff bit_and_iff bit_push_bit_iff bit_mask_iff bit_ucast_iff bit_drop_bit_eq comp_def
    by cases (auto simp: assms dest: bit_imp_le_length)
qed

lemma head_and_body:
  "length h = k \<Longrightarrow> length p = n \<Longrightarrow> take n (drop k (h @ p @ r)) = p \<and> drop (k + n) (h @ p @ r) = r"
  by simp

lemma take_put_frame:
  assumes "length payload \<le> MAX_FRAME" and "\<not> bit stream 31"
  shows "take_frame (put_frame [] kind flags stream payload @ rest) = Inr (Some (kind, flags, stream, payload), rest)"
proof -
  let ?w = "word_of_nat (length payload) :: u32"
  have n: "length payload < 2 ^ 24" using assms(1) by (simp add: MAX_FRAME_def)
  have f: "put_frame [] kind flags stream payload @ rest =
      [ucast (drop_bit 16 ?w), ucast (drop_bit 8 ?w), ucast ?w, kind, flags,
       ucast (drop_bit 24 stream), ucast (drop_bit 16 stream), ucast (drop_bit 8 stream), ucast stream] @ payload @ rest"
    by (simp add: put_frame_def be_bytes_4)
  show ?thesis
    unfolding f take_frame_def
    using assms(1) frame_len_bytes [OF n] stream_id_bytes [OF assms(2)]
      head_and_body [of "[ucast (drop_bit 16 ?w), ucast (drop_bit 8 ?w), ucast ?w, kind, flags, ucast (drop_bit 24 stream),
        ucast (drop_bit 16 stream), ucast (drop_bit 8 stream), ucast stream]" 9 payload "length payload" rest]
    by (simp add: Let_def not_less)
qed

lemma put_frame_append: "put_frame out kind flags stream payload = out @ put_frame [] kind flags stream payload"
  by (simp add: put_frame_def)

lemma take_frame_shorter: "take_frame rbuf = Inr (Some f, rest) \<Longrightarrow> length rest < length rbuf"
  by (auto simp: take_frame_def Let_def split: if_splits)

lemma take_frame_None: "take_frame rbuf = Inr (None, rest) \<Longrightarrow> rest = rbuf"
  by (auto simp: take_frame_def Let_def split: if_splits)

section \<open>Messages round-trip\<close>

lemma length_put_uvarint: "length (put_uvarint n) = uvarint_len n"
proof (induction n rule: put_uvarint.induct)
  case (1 n)
  have "drop_bit 7 n = 0 \<longleftrightarrow> n < 128" by (simp add: drop_bit_eq_div div_eq_0_iff)
  then show ?case using 1 by (subst put_uvarint.simps, subst uvarint_len.simps) (auto simp: Let_def)
qed

lemma uvarint_byte:
  "(word_of_nat (n AND 0x7f) :: u8) AND 0x7f = word_of_nat (take_bit 7 n)"
  "(word_of_nat (n AND 0x7f) OR 0x80 :: u8) AND 0x7f = word_of_nat (take_bit 7 n)"
  "(word_of_nat (n AND 0x7f) :: u8) AND 0x80 = 0" "(word_of_nat (n AND 0x7f) OR 0x80 :: u8) AND 0x80 \<noteq> 0"
proof -
  have "(0x7f :: u8) = Bit_Operations.mask 7" "(0x7f :: nat) = Bit_Operations.mask 7" "(0x80 :: u8) = 2 ^ 7"
    by (simp_all add: mask_eq_exp_minus_1)
  then have m: "bit (0x7f :: u8) i \<longleftrightarrow> i < 7" "bit (0x7f :: nat) i \<longleftrightarrow> i < 7" "bit (0x80 :: u8) i \<longleftrightarrow> i = 7" for i
    by (auto simp only: bit_mask_iff bit_exp_iff possible_bit_def) (simp_all add: bit_imp_possible_bit)
  have w: "bit (word_of_nat k :: u8) i \<longleftrightarrow> i < 8 \<and> bit k i" for k i by (simp add: bit_simps)
  show "(word_of_nat (n AND 0x7f) :: u8) AND 0x7f = word_of_nat (take_bit 7 n)"
    "(word_of_nat (n AND 0x7f) OR 0x80 :: u8) AND 0x7f = word_of_nat (take_bit 7 n)"
    "(word_of_nat (n AND 0x7f) :: u8) AND 0x80 = 0"
    by (rule bit_word_eqI; unfold w bit_and_iff bit_or_iff bit_take_bit_iff m bit_0_eq; auto)+
  have "bit ((word_of_nat (n AND 0x7f) OR 0x80 :: u8) AND 0x80) 7"
    unfolding bit_and_iff bit_or_iff m by simp
  then show "(word_of_nat (n AND 0x7f) OR 0x80 :: u8) AND 0x80 \<noteq> 0" by auto
qed

lemma bit_split_7: "bit (take_bit 7 n) i \<or> (7 \<le> i \<and> bit (drop_bit 7 n) (i - 7)) \<longleftrightarrow> bit (n :: nat) i"
  by (cases "i < 7") (auto simp: bit_take_bit_iff bit_drop_bit_eq)

lemma push_groups:
  "push_bit shift (word_of_nat (take_bit 7 n)) OR push_bit (shift + 7) (word_of_nat (drop_bit 7 n)) =
     (push_bit shift (word_of_nat n) :: u64)"
proof (rule bit_word_eqI)
  have w: "bit (word_of_nat k :: u64) i \<longleftrightarrow> i < 64 \<and> bit k i" for k i by (simp add: bit_simps)
  fix i assume "i < LENGTH(64)"
  then show "bit (push_bit shift (word_of_nat (take_bit 7 n)) OR push_bit (shift + 7) (word_of_nat (drop_bit 7 n)) :: u64) i \<longleftrightarrow>
      bit (push_bit shift (word_of_nat n) :: u64) i"
    using bit_split_7 [of n "i - shift"] unfolding bit_or_iff bit_push_bit_iff w
    by (auto simp: bit_take_bit_iff bit_drop_bit_eq)
qed

lemma hunk_len_put:
  "shift = 7 * k \<Longrightarrow> shift \<le> 49 \<Longrightarrow> n < 2 ^ (56 - shift) \<Longrightarrow>
   hunk_len (p @ put_uvarint n @ rest) len shift (length p) =
     Inr (len OR push_bit shift (word_of_nat n), length p + length (put_uvarint n))"
proof (induction n arbitrary: p len shift k rule: put_uvarint.induct)
  case (1 n)
  have c: "ucast (word_of_nat (take_bit 7 n) :: u8) = (word_of_nat (take_bit 7 n) :: u64)"
    by (rule bit_word_eqI) (auto simp: bit_simps)
  show ?case
  proof (cases "drop_bit 7 n = 0")
    case True
    then have "put_uvarint n = [word_of_nat (n AND 0x7f)]" by (subst put_uvarint.simps) (simp add: Let_def)
    moreover have "take_bit 7 n = n" using True bits_ident [of 7 n] by simp
    ultimately show ?thesis
      using 1(3) c by (subst hunk_len.simps) (simp add: slice_get_def nth_append uvarint_byte Let_def)
  next
    case False
    let ?b = "word_of_nat (n AND 0x7f) OR 0x80 :: u8"
    have r: "put_uvarint n = ?b # put_uvarint (drop_bit 7 n)" by (subst put_uvarint.simps) (simp add: False Let_def)
    have big: "2 ^ 7 \<le> n" using False by (simp add: drop_bit_eq_div div_eq_0_iff)
    have "7 < 56 - shift"
    proof (rule ccontr)
      assume "\<not> 7 < 56 - shift"
      then have "(2::nat) ^ (56 - shift) \<le> 2 ^ 7" by (intro power_increasing) auto
      then show False using 1(4) big by linarith
    qed
    then have s: "shift + 7 \<le> 49" using 1(2,3) by presburger
    have e: "7 + (56 - (shift + 7)) = 56 - shift" using s by simp
    have "n < 2 ^ 7 * 2 ^ (56 - (shift + 7))" using 1(4) unfolding power_add [symmetric] e .
    then have "drop_bit 7 n < 2 ^ (56 - (shift + 7))" by (simp add: drop_bit_eq_div less_mult_imp_div_less mult.commute)
    then have "hunk_len ((p @ [?b]) @ put_uvarint (drop_bit 7 n) @ rest) (len OR push_bit shift (word_of_nat (take_bit 7 n)))
        (shift + 7) (length (p @ [?b])) =
        Inr ((len OR push_bit shift (word_of_nat (take_bit 7 n))) OR push_bit (shift + 7) (word_of_nat (drop_bit 7 n)),
          length (p @ [?b]) + length (put_uvarint (drop_bit 7 n)))"
      using 1(2) s by (intro 1(1) [OF refl refl False, of "shift + 7" "k + 1"]) simp_all
    moreover have "hunk_len (p @ put_uvarint n @ rest) len shift (length p) =
        hunk_len ((p @ [?b]) @ put_uvarint (drop_bit 7 n) @ rest) (len OR push_bit shift (word_of_nat (take_bit 7 n)))
          (shift + 7) (length (p @ [?b]))"
      using s c uvarint_byte(2,4) [of n] by (subst hunk_len.simps) (simp add: slice_get_def nth_append r Let_def)
    ultimately show ?thesis by (simp add: r or.assoc push_groups)
  qed
qed

lemma strip_gun_hunk:
  assumes "length d \<le> MAX_MESSAGE"
  shows "strip_hunk ([HUNK_TAG] @ put_uvarint (length d) @ d) = Inr d"
proof -
  have n: "length d < 2 ^ 25" using assms by (simp add: MAX_MESSAGE_def)
  then have "length d < 2 ^ (56 - 0)" by simp
  then have "hunk_len ([HUNK_TAG] @ put_uvarint (length d) @ d) 0 0 1 = Inr (word_of_nat (length d), 1 + length (put_uvarint (length d)))"
    using hunk_len_put [of 0 0 "length d" "[HUNK_TAG]" d 0] by simp
  moreover have "unat (word_of_nat (length d) :: u64) = length d" using n by (simp add: unsigned_of_nat take_bit_nat_eq_self_iff)
  ultimately show ?thesis using assms by (simp add: strip_hunk_def)
qed

lemma deframe_message:
  assumes "length d \<le> 2 ^ 20"
  shows "deframe_loop (gun_message d @ rest) out = deframe_loop rest (out @ d)"
proof -
  define n where "n = length d + 1 + uvarint_len (length d)"
  let ?body = "[HUNK_TAG] @ put_uvarint (length d) @ d"
  have u: "uvarint_len v \<le> v + 1" for v
  proof (induction v rule: uvarint_len.induct)
    case (1 v)
    then show ?case by (subst uvarint_len.simps) (auto simp: drop_bit_eq_div)
  qed
  from u [of "length d"] have n: "n \<le> 2 ^ 22" using assms by (simp add: n_def)
  have uw: "unat (word_of_nat n :: u32) = n" using n by (simp add: unsigned_of_nat take_bit_nat_eq_self_iff)
  have msg: "gun_message d @ rest = 0 # u32_be (word_of_nat n) @ ?body @ rest" by (simp add: gun_message_def n_def)
  have lb: "length ?body = n" by (simp add: length_put_uvarint n_def)
  have "u32_from (u32_be w ! 0) (u32_be w ! 1) (u32_be w ! 2) (u32_be w ! 3) = w" for w
    by (simp add: be_bytes_4 u32_from_split)
  then have f: "unat (u32_from ((gun_message d @ rest) ! 1) ((gun_message d @ rest) ! 2) ((gun_message d @ rest) ! 3)
      ((gun_message d @ rest) ! 4)) = n"
    using uw unfolding msg by (simp add: be_bytes_4)
  have t: "take n (drop 5 (gun_message d @ rest)) = ?body" "drop (5 + n) (gun_message d @ rest) = rest"
    using head_and_body [of "0 # u32_be (word_of_nat n)" 5 ?body n rest] lb unfolding msg by simp_all
  show ?thesis
    using n lb f t strip_gun_hunk [of d] assms
    by (subst deframe_loop.simps) (simp add: msg MAX_MESSAGE_def Let_def)
qed

lemma deframe_messages:
  "\<forall>d \<in> set ds. length d \<le> 2 ^ 20 \<Longrightarrow> deframe_loop (concat (map gun_message ds)) out = (Inr (), [], out @ concat ds)"
proof (induction ds arbitrary: out)
  case Nil
  then show ?case by (subst deframe_loop.simps) simp
qed (simp add: deframe_message)

section \<open>The reassembler is incremental\<close>

text \<open>The first message of the carried bytes: an error, nothing complete, or its payload and its length.\<close>

definition first_message :: "bytes \<Rightarrow> (bytes \<times> nat) option result" where
  "first_message carry =
    (if length carry < 5 then Inr None
     else if carry ! 0 \<noteq> 0 then Inl (Protocol ''grpc: compressed message'')
     else
       let len = unat (u32_from (carry ! 1) (carry ! 2) (carry ! 3) (carry ! 4)) in
       if MAX_MESSAGE < len then Inl (Protocol ''grpc: message exceeds limit'')
       else if length carry < 5 + len then Inr None
       else rbind (strip_hunk (take len (drop 5 carry))) (\<lambda>payload. Inr (Some (payload, 5 + len))))"

lemma deframe_loop_first:
  "deframe_loop carry out =
    (case first_message carry of
       Inl e \<Rightarrow> (Inl e, carry, out)
     | Inr None \<Rightarrow> (Inr (), carry, out)
     | Inr (Some (payload, n)) \<Rightarrow> deframe_loop (drop n carry) (out @ payload))"
  by (subst deframe_loop.simps) (simp add: first_message_def rbind_def Let_def split: sum.splits)

lemma message_head:
  assumes "5 \<le> length c"
  shows "(c @ b) ! 0 = c ! 0" "u32_from ((c @ b) ! 1) ((c @ b) ! 2) ((c @ b) ! 3) ((c @ b) ! 4) = u32_from (c ! 1) (c ! 2) (c ! 3) (c ! 4)"
proof -
  have "(c @ b) ! i = c ! i" if "i < 5" for i using that assms by (simp add: nth_append)
  from this [of 0] this [of 1] this [of 2] this [of 3] this [of 4]
  show "(c @ b) ! 0 = c ! 0" "u32_from ((c @ b) ! 1) ((c @ b) ! 2) ((c @ b) ! 3) ((c @ b) ! 4) = u32_from (c ! 1) (c ! 2) (c ! 3) (c ! 4)"
    by simp_all
qed

lemma first_message_stable:
  assumes "first_message c \<noteq> Inr None"
  shows "first_message (c @ b) = first_message c"
proof -
  have l: "5 \<le> length c" using assms by (rule contrapos_np) (simp add: first_message_def)
  let ?len = "unat (u32_from (c ! 1) (c ! 2) (c ! 3) (c ! 4))"
  have "c ! 0 \<noteq> 0 \<or> MAX_MESSAGE < ?len \<or> 5 + ?len \<le> length c"
    using assms by (rule contrapos_np) (simp add: first_message_def Let_def)
  moreover have "5 + ?len \<le> length c \<Longrightarrow> take ?len (drop 5 (c @ b)) = take ?len (drop 5 c)" by simp
  ultimately show ?thesis
    using l unfolding first_message_def Let_def message_head [OF l] by (elim disjE) (simp_all only: length_append if_True if_False simp_thms not_less trans_le_add1, auto)
qed

lemma first_message_length:
  "first_message c = Inr (Some (payload, n)) \<Longrightarrow> n \<le> length c \<and> 0 < n"
  unfolding first_message_def Let_def by (cases "length c < 5") (auto simp: rbind_Inr_iff not_less split: if_splits)

lemma first_message_cases:
  obtains (bad) e where "first_message carry = Inl e" | (incomplete) "first_message carry = Inr None"
    | (complete) payload n where "first_message carry = Inr (Some (payload, n))"
  by (cases "first_message carry") (auto, metis option.exhaust surj_pair)

lemma deframe_loop_more:
  "deframe_loop (carry @ b) out =
    (case deframe_loop carry out of (Inr _, c, o') \<Rightarrow> deframe_loop (c @ b) o' | (Inl e, c, o') \<Rightarrow> (Inl e, c @ b, o'))"
proof (induction "length carry" arbitrary: carry out rule: less_induct)
  case less
  note first = deframe_loop_first [of carry out] deframe_loop_first [of "carry @ b" out]
  show ?case
  proof (cases carry rule: first_message_cases)
    case (bad e)
    then show ?thesis using first_message_stable [of carry b] unfolding first by simp
  next
    case incomplete
    then show ?thesis unfolding first(1) by simp
  next
    case (complete payload n)
    note st = first_message_length [OF complete]
    have "first_message (carry @ b) = Inr (Some (payload, n))" using first_message_stable [of carry b] complete by simp
    then have "deframe_loop (carry @ b) out = deframe_loop (drop n carry @ b) (out @ payload)"
      "deframe_loop carry out = deframe_loop (drop n carry) (out @ payload)"
      using st unfolding first complete by simp_all
    moreover have "length (drop n carry) < length carry" using st by (cases carry) auto
    ultimately show ?thesis using less [of "drop n carry" "out @ payload"] by simp
  qed
qed

lemma deframe_loop_stops: "deframe_loop carry out = (Inr u, c, o') \<Longrightarrow> first_message c = Inr None"
proof (induction "length carry" arbitrary: carry out rule: less_induct)
  case less
  note first = deframe_loop_first [of carry out]
  show ?case
  proof (cases carry rule: first_message_cases)
    case (bad e)
    then show ?thesis using less(2) unfolding first by simp
  next
    case incomplete
    then show ?thesis using less(2) unfolding first by simp
  next
    case (complete payload n)
    then show ?thesis
      using less(1) [of "drop n carry" "out @ payload"] less(2) first_message_length [OF complete] complete unfolding first by auto
  qed
qed

text \<open>The reassembler with its output, until the first error; the bytes kept behind an error no longer matter.\<close>

definition gun_feed :: "bytes result \<times> bytes \<Rightarrow> bytes \<Rightarrow> bytes result \<times> bytes" where
  "gun_feed s chunk =
    (case s of
       (Inl e, out) \<Rightarrow> (Inl e, out)
     | (Inr carry, out) \<Rightarrow>
         (case deframer_push carry chunk out of
            (Inl e, _, out) \<Rightarrow> (Inl e, out)
          | (Inr _, carry, out) \<Rightarrow> (Inr carry, out)))"

definition gun_settled :: "bytes result \<times> bytes \<Rightarrow> bool" where
  "gun_settled s \<longleftrightarrow> (case fst s of Inl _ \<Rightarrow> True | Inr carry \<Rightarrow> first_message carry = Inr None)"

interpretation gun: incremental_decoder gun_feed gun_settled
proof (unfold_locales, goal_cases)
  case (1 s chunk)
  then show ?case
    by (auto simp: gun_settled_def gun_feed_def deframer_push_def split: sum.splits prod.splits dest: deframe_loop_stops)
next
  case (2 s)
  then show ?case
    by (auto simp: gun_settled_def gun_feed_def deframer_push_def deframe_loop_first split: sum.splits prod.splits)
next
  case (3 s a b)
  obtain r out where s: "s = (r, out)" by fastforce
  show ?case
  proof (cases r)
    case (Inr carry)
    then show ?thesis
      using deframe_loop_more [of "carry @ a" b out]
      by (auto simp: s gun_feed_def deframer_push_def split: sum.splits prod.splits)
  qed (simp add: s gun_feed_def)
qed

text \<open>
  The tunnel's bytes survive any framing. However the stream of messages is cut into DATA payloads, inside a
  message header, a length or a payload, the reassembler gives the payloads in order, keeps nothing back at
  the end and reports no error; every message the writer emits is one of these.
\<close>

theorem gun_any_chunking:
  assumes "concat chunks = concat (map gun_message ds)" and "\<forall>d \<in> set ds. length d \<le> 2 ^ 20"
  shows "foldl gun_feed (Inr [], []) chunks = (Inr [], concat ds)"
proof -
  have "gun_settled (Inr [], [])" by (simp add: gun_settled_def first_message_def)
  then have "foldl gun_feed (Inr [], []) chunks = gun_feed (Inr [], []) (concat chunks)" by (rule gun.feed_chunks)
  then show ?thesis using deframe_messages [OF assms(2), of "[]"] by (simp add: assms(1) gun_feed_def deframer_push_def)
qed

theorem gun_any_chunking_witness:
  "foldl gun_feed (Inr [], []) [take 3 (gun_message [7, 8]), drop 3 (gun_message [7, 8]) @ gun_message [9]] = (Inr [], [7, 8, 9])"
  using gun_any_chunking [of "[take 3 (gun_message [7, 8]), drop 3 (gun_message [7, 8]) @ gun_message [9]]" "[[7, 8], [9]]"]
  by simp

end
