(* ===== verification/Hpack.thy ===== *)
theory Hpack
  imports Rust_Text
begin

unbundle bit_operations_syntax

text \<open>
  HPACK header compression as the gRPC transport uses it (src/engine/src/grpc.rs, module \<open>hpack\<close>): prefixed integers,
  strings, the static and the dynamic table, the Huffman code, and the decoder. A decoder that fails keeps the
  table entries it has inserted so far, so the operations return the decoder beside the result.
\<close>

section \<open>Integers and strings\<close>

function int_rest :: "u64 \<Rightarrow> bytes" where
  "int_rest value =
    (if 128 \<le> value then ucast (value mod 128 + 128) # int_rest (value div 128) else [ucast value])"
  by pat_completeness auto
termination
proof (relation "measure unat", goal_cases)
  case (2 v)
  then have "128 \<le> unat v" by (simp add: word_le_nat_alt)
  then show ?case by (simp add: unat_div)
qed simp

declare int_rest.simps [simp del]

definition encode_int :: "u64 \<Rightarrow> nat \<Rightarrow> bytes" where
  "encode_int value prefix_bits =
    (let max = push_bit prefix_bits 1 - 1 in
     if value < max then [ucast value] else ucast max # int_rest (value - max))"

definition encode_str :: "bytes \<Rightarrow> bytes" where
  "encode_str s = encode_int (word_of_nat (length s)) 7 @ s"

text \<open>The checked addition of \<open>u64\<close>.\<close>

definition checked_add_u64 :: "u64 \<Rightarrow> u64 \<Rightarrow> u64 option" where
  "checked_add_u64 a b = (if a + b < a then None else Some (a + b))"

function read_int_loop :: "bytes \<Rightarrow> nat \<Rightarrow> nat \<Rightarrow> u64 \<Rightarrow> nat \<Rightarrow> (u64 \<times> nat) result" where
  "read_int_loop data pos n value shift =
    (case slice_get data (pos + n) of
       None \<Rightarrow> Inl (Protocol ''hpack: truncated integer'')
     | Some b \<Rightarrow>
         (case checked_add_u64 value (push_bit shift (ucast (b AND 0x7f))) of
            None \<Rightarrow> Inl (Protocol ''hpack: integer overflow'')
          | Some value \<Rightarrow>
              if 28 < shift then Inl (Protocol ''hpack: integer overflow'')
              else if b AND 0x80 = 0 then Inr (value, n + 1)
              else read_int_loop data pos (n + 1) value (shift + 7)))"
  by pat_completeness auto
termination
  by (relation "measure (\<lambda>(data, pos, n, _, _). length data - (pos + n))") (auto simp: slice_get_Some_iff)

declare read_int_loop.simps [simp del]

definition read_int :: "bytes \<Rightarrow> nat \<Rightarrow> nat \<Rightarrow> (u64 \<times> nat) result" where
  "read_int data pos prefix_bits =
    (if length data \<le> pos then Inl (Protocol ''hpack: truncated integer'')
     else
       let mask = push_bit prefix_bits 1 - 1; value = ucast (data ! pos) AND mask in
       if value < mask then Inr (value, 1) else read_int_loop data pos 1 value 0)"

section \<open>The Huffman code\<close>

definition HUFFMAN :: "(int \<times> nat) list" where
  "HUFFMAN = [
    (0x1ff8, 13), (0x7fffd8, 23), (0xfffffe2, 28), (0xfffffe3, 28), (0xfffffe4, 28), (0xfffffe5, 28),
    (0xfffffe6, 28), (0xfffffe7, 28), (0xfffffe8, 28), (0xffffea, 24), (0x3ffffffc, 30), (0xfffffe9, 28),
    (0xfffffea, 28), (0x3ffffffd, 30), (0xfffffeb, 28), (0xfffffec, 28), (0xfffffed, 28), (0xfffffee, 28),
    (0xfffffef, 28), (0xffffff0, 28), (0xffffff1, 28), (0xffffff2, 28), (0x3ffffffe, 30), (0xffffff3, 28),
    (0xffffff4, 28), (0xffffff5, 28), (0xffffff6, 28), (0xffffff7, 28), (0xffffff8, 28), (0xffffff9, 28),
    (0xffffffa, 28), (0xffffffb, 28), (0x14, 6), (0x3f8, 10), (0x3f9, 10), (0xffa, 12), (0x1ff9, 13),
    (0x15, 6), (0xf8, 8), (0x7fa, 11), (0x3fa, 10), (0x3fb, 10), (0xf9, 8), (0x7fb, 11), (0xfa, 8), (0x16, 6),
    (0x17, 6), (0x18, 6), (0x0, 5), (0x1, 5), (0x2, 5), (0x19, 6), (0x1a, 6), (0x1b, 6), (0x1c, 6), (0x1d, 6),
    (0x1e, 6), (0x1f, 6), (0x5c, 7), (0xfb, 8), (0x7ffc, 15), (0x20, 6), (0xffb, 12), (0x3fc, 10),
    (0x1ffa, 13), (0x21, 6), (0x5d, 7), (0x5e, 7), (0x5f, 7), (0x60, 7), (0x61, 7), (0x62, 7), (0x63, 7),
    (0x64, 7), (0x65, 7), (0x66, 7), (0x67, 7), (0x68, 7), (0x69, 7), (0x6a, 7), (0x6b, 7), (0x6c, 7),
    (0x6d, 7), (0x6e, 7), (0x6f, 7), (0x70, 7), (0x71, 7), (0x72, 7), (0xfc, 8), (0x73, 7), (0xfd, 8),
    (0x1ffb, 13), (0x7fff0, 19), (0x1ffc, 13), (0x3ffc, 14), (0x22, 6), (0x7ffd, 15), (0x3, 5), (0x23, 6),
    (0x4, 5), (0x24, 6), (0x5, 5), (0x25, 6), (0x26, 6), (0x27, 6), (0x6, 5), (0x74, 7), (0x75, 7), (0x28, 6),
    (0x29, 6), (0x2a, 6), (0x7, 5), (0x2b, 6), (0x76, 7), (0x2c, 6), (0x8, 5), (0x9, 5), (0x2d, 6), (0x77, 7),
    (0x78, 7), (0x79, 7), (0x7a, 7), (0x7b, 7), (0x7ffe, 15), (0x7fc, 11), (0x3ffd, 14), (0x1ffd, 13),
    (0xffffffc, 28), (0xfffe6, 20), (0x3fffd2, 22), (0xfffe7, 20), (0xfffe8, 20), (0x3fffd3, 22),
    (0x3fffd4, 22), (0x3fffd5, 22), (0x7fffd9, 23), (0x3fffd6, 22), (0x7fffda, 23), (0x7fffdb, 23),
    (0x7fffdc, 23), (0x7fffdd, 23), (0x7fffde, 23), (0xffffeb, 24), (0x7fffdf, 23), (0xffffec, 24),
    (0xffffed, 24), (0x3fffd7, 22), (0x7fffe0, 23), (0xffffee, 24), (0x7fffe1, 23), (0x7fffe2, 23),
    (0x7fffe3, 23), (0x7fffe4, 23), (0x1fffdc, 21), (0x3fffd8, 22), (0x7fffe5, 23), (0x3fffd9, 22),
    (0x7fffe6, 23), (0x7fffe7, 23), (0xffffef, 24), (0x3fffda, 22), (0x1fffdd, 21), (0xfffe9, 20),
    (0x3fffdb, 22), (0x3fffdc, 22), (0x7fffe8, 23), (0x7fffe9, 23), (0x1fffde, 21), (0x7fffea, 23),
    (0x3fffdd, 22), (0x3fffde, 22), (0xfffff0, 24), (0x1fffdf, 21), (0x3fffdf, 22), (0x7fffeb, 23),
    (0x7fffec, 23), (0x1fffe0, 21), (0x1fffe1, 21), (0x3fffe0, 22), (0x1fffe2, 21), (0x7fffed, 23),
    (0x3fffe1, 22), (0x7fffee, 23), (0x7fffef, 23), (0xfffea, 20), (0x3fffe2, 22), (0x3fffe3, 22),
    (0x3fffe4, 22), (0x7ffff0, 23), (0x3fffe5, 22), (0x3fffe6, 22), (0x7ffff1, 23), (0x3ffffe0, 26),
    (0x3ffffe1, 26), (0xfffeb, 20), (0x7fff1, 19), (0x3fffe7, 22), (0x7ffff2, 23), (0x3fffe8, 22),
    (0x1ffffec, 25), (0x3ffffe2, 26), (0x3ffffe3, 26), (0x3ffffe4, 26), (0x7ffffde, 27), (0x7ffffdf, 27),
    (0x3ffffe5, 26), (0xfffff1, 24), (0x1ffffed, 25), (0x7fff2, 19), (0x1fffe3, 21), (0x3ffffe6, 26),
    (0x7ffffe0, 27), (0x7ffffe1, 27), (0x3ffffe7, 26), (0x7ffffe2, 27), (0xfffff2, 24), (0x1fffe4, 21),
    (0x1fffe5, 21), (0x3ffffe8, 26), (0x3ffffe9, 26), (0xffffffd, 28), (0x7ffffe3, 27), (0x7ffffe4, 27),
    (0x7ffffe5, 27), (0xfffec, 20), (0xfffff3, 24), (0xfffed, 20), (0x1fffe6, 21), (0x3fffe9, 22),
    (0x1fffe7, 21), (0x1fffe8, 21), (0x7ffff3, 23), (0x3fffea, 22), (0x3fffeb, 22), (0x1ffffee, 25),
    (0x1ffffef, 25), (0xfffff4, 24), (0xfffff5, 24), (0x3ffffea, 26), (0x7ffff4, 23), (0x3ffffeb, 26),
    (0x7ffffe6, 27), (0x3ffffec, 26), (0x3ffffed, 26), (0x7ffffe7, 27), (0x7ffffe8, 27), (0x7ffffe9, 27),
    (0x7ffffea, 27), (0x7ffffeb, 27), (0xffffffe, 28), (0x7ffffec, 27), (0x7ffffed, 27), (0x7ffffee, 27),
    (0x7ffffef, 27), (0x7fffff0, 27), (0x3ffffee, 26), (0x3fffffff, 30)]"

definition hm_collect :: "('k \<times> 'v) list \<Rightarrow> ('k, 'v) hash_map" where
  "hm_collect kvs = foldl (\<lambda>m (k, v). hm_insert k v m) hm_empty kvs"

definition huffman_table :: "(u8 \<times> u32, u16) hash_map" where
  "huffman_table =
    hm_collect (map (\<lambda>(i, code, bits). ((word_of_nat bits, word_of_int code), word_of_nat i)) (List.enumerate 0 HUFFMAN))"

text \<open>The bits of a byte, most significant first.\<close>

definition byte_bits :: "u8 \<Rightarrow> bool list" where
  "byte_bits b = map (bit b) (rev [0..<8])"

text \<open>The two nested loops over bytes and bits as one loop over the bits.\<close>

fun huffman_loop :: "bool list \<Rightarrow> u32 \<Rightarrow> u8 \<Rightarrow> bytes \<Rightarrow> bytes result" where
  "huffman_loop [] acc len out =
    (if 0 < len \<and> (8 \<le> len \<or> acc \<noteq> push_bit (unat len) 1 - 1) then Inl (Protocol ''hpack: invalid huffman padding'')
     else Inr out)"
| "huffman_loop (x # xs) acc len out =
    (let acc = push_bit 1 acc OR of_bool x; len = len + 1 in
     case hm_get huffman_table (len, acc) of
       Some symb \<Rightarrow>
         if symb = 256 then Inl (Protocol ''hpack: EOS inside string'') else huffman_loop xs 0 0 (out @ [ucast symb])
     | None \<Rightarrow> if 30 < len then Inl (Protocol ''hpack: invalid huffman code'') else huffman_loop xs acc len out)"

definition huffman_decode :: "bytes \<Rightarrow> bytes result" where
  "huffman_decode input = huffman_loop (concat (map byte_bits input)) 0 0 []"

definition read_string :: "bytes \<Rightarrow> nat \<Rightarrow> (bytes \<times> nat) result" where
  "read_string data pos =
    (if length data \<le> pos then Inl (Protocol ''hpack: truncated string'')
     else
       rbind (read_int data pos 7) (\<lambda>(len, n).
         if length data < unat len then Inl (Protocol ''hpack: string length out of range'')
         else
           rbind (ok_or (slice_range data (pos + n) (pos + n + unat len)) (Protocol ''hpack: truncated string'')) (\<lambda>bs.
           rbind (if data ! pos AND 0x80 \<noteq> 0 then huffman_decode bs else Inr bs) (\<lambda>value.
             Inr (value, n + unat len)))))"

section \<open>Tables and the decoder\<close>

definition STATIC_TABLE :: "(string \<times> string) list" where
  "STATIC_TABLE = [
    ('':authority'', []), ('':method'', ''GET''), ('':method'', ''POST''), ('':path'', ''/''),
    ('':path'', ''/index.html''), ('':scheme'', ''http''), ('':scheme'', ''https''), ('':status'', ''200''),
    ('':status'', ''204''), ('':status'', ''206''), ('':status'', ''304''), ('':status'', ''400''),
    ('':status'', ''404''), ('':status'', ''500''), (''accept-charset'', []),
    (''accept-encoding'', ''gzip, deflate''), (''accept-language'', []), (''accept-ranges'', []),
    (''accept'', []), (''access-control-allow-origin'', []), (''age'', []), (''allow'', []),
    (''authorization'', []), (''cache-control'', []), (''content-disposition'', []),
    (''content-encoding'', []), (''content-language'', []), (''content-length'', []),
    (''content-location'', []), (''content-range'', []), (''content-type'', []), (''cookie'', []),
    (''date'', []), (''etag'', []), (''expect'', []), (''expires'', []), (''from'', []), (''host'', []),
    (''if-match'', []), (''if-modified-since'', []), (''if-none-match'', []), (''if-range'', []),
    (''if-unmodified-since'', []), (''last-modified'', []), (''link'', []), (''location'', []),
    (''max-forwards'', []), (''proxy-authenticate'', []), (''proxy-authorization'', []), (''range'', []),
    (''referer'', []), (''refresh'', []), (''retry-after'', []), (''server'', []), (''set-cookie'', []),
    (''strict-transport-security'', []), (''transfer-encoding'', []), (''user-agent'', []), (''vary'', []),
    (''via'', []), (''www-authenticate'', [])]"

definition encode_field :: "string \<times> string \<Rightarrow> bytes" where
  "encode_field h =
    (case h of (name, value) \<Rightarrow>
       if name = '':method'' \<and> value = ''POST'' then [0x80 OR 3]
       else if name = '':scheme'' \<and> value = ''https'' then [0x80 OR 7]
       else if name = '':authority'' then (0x40 OR 1) # encode_str (as_bytes value)
       else if name = '':path'' then (0x40 OR 4) # encode_str (as_bytes value)
       else 0 # encode_str (as_bytes name) @ encode_str (as_bytes value))"

definition hpack_encode :: "(string \<times> string) list \<Rightarrow> bytes" where
  "hpack_encode headers = concat (map encode_field headers)"

record hpack_decoder =
  hd_dynamic :: "(bytes \<times> bytes) list"
  hd_size :: nat
  hd_max_size :: nat

definition decoder_new :: hpack_decoder where
  "decoder_new = \<lparr>hd_dynamic = [], hd_size = 0, hd_max_size = 4096\<rparr>"

definition entry_size :: "bytes \<times> bytes \<Rightarrow> nat" where
  "entry_size e = 32 + length (fst e) + length (snd e)"

function hpack_evict :: "hpack_decoder \<Rightarrow> hpack_decoder" where
  "hpack_evict d =
    (if hd_max_size d < hd_size d \<and> hd_dynamic d \<noteq> [] then
       hpack_evict (d\<lparr>hd_dynamic := butlast (hd_dynamic d), hd_size := hd_size d - entry_size (last (hd_dynamic d))\<rparr>)
     else d)"
  by pat_completeness auto
termination
  by (relation "measure (\<lambda>d. length (hd_dynamic d))") auto

declare hpack_evict.simps [simp del]

definition hpack_insert :: "bytes \<Rightarrow> bytes \<Rightarrow> hpack_decoder \<Rightarrow> hpack_decoder" where
  "hpack_insert name value d =
    hpack_evict (d\<lparr>hd_size := hd_size d + (32 + length name + length value), hd_dynamic := (name, value) # hd_dynamic d\<rparr>)"

text \<open>Every caller has excluded index zero.\<close>

definition hpack_lookup :: "hpack_decoder \<Rightarrow> u64 \<Rightarrow> (bytes \<times> bytes) result" where
  "hpack_lookup d idx =
    (if unat idx \<le> length STATIC_TABLE then
       (case STATIC_TABLE ! (unat idx - 1) of (n, v) \<Rightarrow> Inr (as_bytes n, as_bytes v))
     else ok_or (slice_get (hd_dynamic d) (unat idx - length STATIC_TABLE - 1)) (Protocol ''hpack: bad index''))"

definition hpack_name_at :: "hpack_decoder \<Rightarrow> u64 \<Rightarrow> bytes \<Rightarrow> nat \<Rightarrow> (bytes \<times> nat) result" where
  "hpack_name_at d idx block i =
    (if idx = 0 then rbind (read_string block i) (\<lambda>(s, n). Inr (s, i + n))
     else rbind (hpack_lookup d idx) (\<lambda>(name, _). Inr (name, i)))"

definition literal_at :: "hpack_decoder \<Rightarrow> bytes \<Rightarrow> nat \<Rightarrow> nat \<Rightarrow> ((bytes \<times> bytes) \<times> nat) result" where
  "literal_at d block i prefix_bits =
    rbind (read_int block i prefix_bits) (\<lambda>(idx, n).
    rbind (hpack_name_at d idx block (i + n)) (\<lambda>(name, i).
    rbind (read_string block i) (\<lambda>(value, n). Inr ((name, value), i + n))))"

text \<open>One turn of the decoding loop: the field it yields, if any, and the next position.\<close>

definition decode_step :: "hpack_decoder \<Rightarrow> bytes \<Rightarrow> nat \<Rightarrow> ((bytes \<times> bytes) option \<times> nat) result \<times> hpack_decoder" where
  "decode_step d block i =
    (let b = block ! i in
     if b AND 0x80 \<noteq> 0 then
       (rbind (read_int block i 7) (\<lambda>(idx, n).
          if idx = 0 then Inl (Protocol ''hpack: index 0'')
          else rbind (hpack_lookup d idx) (\<lambda>h. Inr (Some h, i + n))), d)
     else if b AND 0xc0 = 0x40 then
       (case literal_at d block i 6 of
          Inl e \<Rightarrow> (Inl e, d)
        | Inr ((name, value), i) \<Rightarrow> (Inr (Some (name, value), i), hpack_insert name value d))
     else if b AND 0xe0 = 0x20 then
       (case read_int block i 5 of
          Inl e \<Rightarrow> (Inl e, d)
        | Inr (sz, n) \<Rightarrow>
            if 4096 < sz then (Inl (Protocol ''hpack: table size update above cap''), d)
            else (Inr (None, i + n), hpack_evict (d\<lparr>hd_max_size := unat sz\<rparr>)))
     else (rbind (literal_at d block i 4) (\<lambda>(h, i). Inr (Some h, i)), d))"

section \<open>Progress\<close>

lemma read_int_loop_n: "read_int_loop data pos n value shift = Inr (v, n') \<Longrightarrow> n < n' \<and> pos + n' \<le> length data"
proof (induction data pos n "value" shift rule: read_int_loop.induct)
  case (1 data pos n v0 shift)
  then show ?case
    by (subst (asm) (2) read_int_loop.simps) (auto simp: slice_get_Some_iff split: option.splits if_splits)
qed

lemma read_int_n: "read_int data pos p = Inr (v, n) \<Longrightarrow> 0 < n \<and> pos + n \<le> length data"
  by (auto simp: read_int_def Let_def dest: read_int_loop_n split: if_splits)

lemma read_string_n: "read_string data pos = Inr (s, n) \<Longrightarrow> 0 < n \<and> pos + n \<le> length data"
  by (auto simp: read_string_def rbind_Inr_iff slice_range_Some_iff dest!: read_int_n split: if_splits)

lemma literal_at_n: "literal_at d block i p = Inr (h, i') \<Longrightarrow> i < i' \<and> i' \<le> length block"
  by (auto simp: literal_at_def hpack_name_at_def rbind_Inr_iff dest!: read_int_n read_string_n split: if_splits)

lemma decode_step_n: "decode_step d block i = (Inr (h, i'), d') \<Longrightarrow> i < i' \<and> i' \<le> length block"
  by (auto simp: decode_step_def Let_def rbind_Inr_iff dest!: read_int_n literal_at_n split: if_splits sum.splits)

function decode_loop :: "hpack_decoder \<Rightarrow> bytes \<Rightarrow> nat \<Rightarrow> (bytes \<times> bytes) list \<Rightarrow>
    (bytes \<times> bytes) list result \<times> hpack_decoder" where
  "decode_loop d block i out =
    (if i < length block then
       (case decode_step d block i of
          (Inl e, d) \<Rightarrow> (Inl e, d)
        | (Inr (h, i), d) \<Rightarrow> decode_loop d block i (out @ (case h of Some h \<Rightarrow> [h] | None \<Rightarrow> [])))
     else (Inr out, d))"
  by pat_completeness auto
termination
  by (relation "measure (\<lambda>(_, block, i, _). length block - i)") (auto dest!: decode_step_n [OF sym])

declare decode_loop.simps [simp del]

definition hpack_decode :: "hpack_decoder \<Rightarrow> bytes \<Rightarrow> (bytes \<times> bytes) list result \<times> hpack_decoder" where
  "hpack_decode d block = decode_loop d block 0 []"

section \<open>Integers and strings round-trip\<close>

lemma low_bits_byte: "unat (b AND 0x7f) = unat (b :: u8) mod 128"
proof -
  have "b AND 0x7f = take_bit 7 b" by (simp add: take_bit_eq_mask mask_eq_exp_minus_1)
  then show ?thesis by (simp add: take_bit_eq_mod unat_mod)
qed

lemma bit_7_byte: "bit (b :: u8) 7 \<longleftrightarrow> 128 \<le> unat b"
proof -
  have b: "unat b < 256" by simp
  have "unat b div 128 = (if 128 \<le> unat b then 1 else 0)" using b by (auto intro: div_nat_eqI)
  moreover have "bit b 7 \<longleftrightarrow> odd (unat b div 128)" using bit_iff_odd [of "unat b" 7] by (simp add: bit_unsigned_iff)
  ultimately show ?thesis by simp
qed

lemma high_bit_byte: "(b :: u8) AND 0x80 = 0 \<longleftrightarrow> unat b < 128"
proof -
  have "b AND 0x80 = b AND 2 ^ 7" by simp
  then show ?thesis by (simp only: and_exp_eq_0_iff_not_bit bit_7_byte not_le)
qed

lemma unat_byte_of_u64: "unat v < 256 \<Longrightarrow> unat (ucast (v :: u64) :: u8) = unat v"
  by (simp add: unsigned_ucast_eq take_bit_nat_eq_self_iff)

lemma int_group_bytes:
  "unat (ucast ((v :: u64) mod 128 + 128) :: u8) = unat v mod 128 + 128"
proof -
  have "unat v mod 128 < 128" by simp
  then have "unat (v mod 128) + 128 < 2 ^ 64" unfolding unat_mod by simp
  then have "unat (v mod 128 + 128) = unat v mod 128 + 128" by (subst unat_add_lem [THEN iffD1]) (simp_all add: unat_mod)
  then show ?thesis using \<open>unat v mod 128 < 128\<close> by (subst unat_byte_of_u64) linarith+
qed

lemma unat_group_shifted:
  assumes "unat (b AND 0x7f) * 2 ^ shift < 2 ^ 64"
  shows "unat (push_bit shift (ucast ((b :: u8) AND 0x7f) :: u64)) = (unat b mod 128) * 2 ^ shift"
proof -
  have "unat (ucast (b AND 0x7f) :: u64) = unat b mod 128"
    using low_bits_byte [of b] by (simp add: unsigned_ucast_eq take_bit_nat_eq_self_iff)
  then show ?thesis
    using assms unfolding unsigned_push_bit_eq low_bits_byte
    by (simp add: push_bit_eq_mult take_bit_nat_eq_self_iff)
qed

lemma checked_add_exact: "unat a + unat b < 2 ^ 64 \<Longrightarrow> checked_add_u64 a b = Some (a + b)"
  by (simp add: checked_add_u64_def word_less_nat_alt unat_add_lem [THEN iffD1])

lemma read_int_loop_rest:
  "length p = pos + n \<Longrightarrow> shift = 7 * k \<Longrightarrow> unat v < 2 ^ (35 - shift) \<Longrightarrow> shift \<le> 28 \<Longrightarrow>
   unat w + unat v * 2 ^ shift < 2 ^ 64 \<Longrightarrow>
   read_int_loop (p @ int_rest v @ rest) pos n w shift = Inr (w + word_of_nat (unat v * 2 ^ shift), n + length (int_rest v))"
proof (induction v arbitrary: p n w shift k rule: int_rest.induct)
  case (1 v)
  show ?case
  proof (cases "128 \<le> v")
    case True
    let ?b = "ucast (v mod 128 + 128) :: u8"
    have r: "int_rest v = ?b # int_rest (v div 128)" by (subst int_rest.simps) (simp add: True)
    have nv: "128 \<le> unat v" using True by (simp add: word_le_nat_alt)
    have b: "unat ?b = unat v mod 128 + 128" by (rule int_group_bytes)
    have split: "unat v * 2 ^ shift = unat v mod 128 * 2 ^ shift + unat (v div 128) * 2 ^ (shift + 7)"
    proof -
      have "unat v * 2 ^ shift = (unat v mod 128 + 128 * (unat v div 128)) * 2 ^ shift" by simp
      also have "\<dots> = unat v mod 128 * 2 ^ shift + (unat v div 128) * 2 ^ (shift + 7)"
        unfolding power_add add_mult_distrib by simp
      finally show ?thesis by (simp add: unat_div)
    qed
    have low: "unat (?b AND 0x7f) = unat v mod 128" by (simp add: low_bits_byte b)
    have le: "unat w + unat v mod 128 * 2 ^ shift < 2 ^ 64" using 1(6) split by linarith
    have pb: "unat (push_bit shift (ucast (?b AND 0x7f) :: u64)) = unat v mod 128 * 2 ^ shift"
      using unat_group_shifted [of ?b shift] le low b by simp
    let ?w = "w + push_bit shift (ucast (?b AND 0x7f) :: u64)"
    have w: "unat ?w = unat w + unat v mod 128 * 2 ^ shift"
      using le by (subst unat_add_lem [THEN iffD1]) (simp_all add: pb)
    have "7 < 35 - shift"
    proof (rule ccontr)
      assume "\<not> 7 < 35 - shift"
      then have "(2::nat) ^ (35 - shift) \<le> 2 ^ 7" by (intro power_increasing) auto
      then show False using 1(4) nv by simp
    qed
    then have s: "shift + 7 \<le> 28" using 1(3,5) by presburger
    have vd: "unat (v div 128) < 2 ^ (35 - (shift + 7))"
    proof -
      have e: "7 + (35 - (shift + 7)) = 35 - shift" using s by simp
      have "unat v < 2 ^ 7 * 2 ^ (35 - (shift + 7))" using 1(4) unfolding power_add [symmetric] e .
      then show ?thesis by (simp add: unat_div less_mult_imp_div_less mult.commute)
    qed
    have "read_int_loop ((p @ [?b]) @ int_rest (v div 128) @ rest) pos (n + 1) ?w (shift + 7) =
        Inr (?w + word_of_nat (unat (v div 128) * 2 ^ (shift + 7)), n + 1 + length (int_rest (v div 128)))"
      by (rule 1(1) [OF True, of _ _ _ "k + 1"]) (use 1(2,3,6) vd s w split in simp_all)
    moreover have "?w + word_of_nat (unat (v div 128) * 2 ^ (shift + 7)) = w + word_of_nat (unat v * 2 ^ shift)"
      unfolding split by (simp add: pb [symmetric])
    moreover have "read_int_loop (p @ int_rest v @ rest) pos n w shift =
        read_int_loop ((p @ [?b]) @ int_rest (v div 128) @ rest) pos (n + 1) ?w (shift + 7)"
      using checked_add_exact [of w "push_bit shift (ucast (?b AND 0x7f))"] le s 1(2) b
      by (subst read_int_loop.simps) (simp add: r slice_get_def nth_append high_bit_byte pb)
    ultimately show ?thesis by (simp add: r)
  next
    case False
    then have r: "int_rest v = [ucast v]" by (subst int_rest.simps) simp
    have nv: "unat v < 128" using False by (simp add: word_le_nat_alt)
    then have b: "unat (ucast v :: u8) = unat v" by (simp add: unat_byte_of_u64)
    have pb: "unat (push_bit shift (ucast ((ucast v :: u8) AND 0x7f) :: u64)) = unat v * 2 ^ shift"
      using unat_group_shifted [of "ucast v" shift] 1(6) nv b low_bits_byte [of "ucast v"] by simp
    then have "push_bit shift (ucast ((ucast v :: u8) AND 0x7f) :: u64) = word_of_nat (unat v * 2 ^ shift)"
      by (metis of_nat_unat ucast_id)
    then show ?thesis
      using checked_add_exact [of w "push_bit shift (ucast ((ucast v :: u8) AND 0x7f))"] 1(2,5,6) b nv pb
      by (subst read_int_loop.simps) (simp add: r slice_get_def nth_append high_bit_byte)
  qed
qed

text \<open>Prefixed integers below \<open>2\<^sup>3\<^sup>5\<close>, wherever they stand.\<close>

lemma read_encode_int:
  assumes "unat v < 2 ^ 35" and "0 < m" and "m \<le> 8"
  shows "read_int (p @ encode_int v m @ rest) (length p) m = Inr (v, length (encode_int v m))"
proof -
  let ?max = "2 ^ m - 1 :: u64"
  have "?max = Bit_Operations.mask m" by (simp add: mask_eq_exp_minus_1)
  have "m \<in> {1, 2, 3, 4, 5, 6, 7, 8}" using assms(2,3) by auto
  then have um: "unat ?max = 2 ^ m - 1" by auto
  have msk: "(x :: u64) AND ?max = take_bit m x" for x
    using \<open>?max = Bit_Operations.mask m\<close> by (simp add: take_bit_eq_mask)
  have m256: "(2::nat) ^ m \<le> 256" using power_increasing [OF assms(3), of "2::nat"] by simp
  show ?thesis
  proof (cases "v < ?max")
    case True
    then have "unat v < 2 ^ m - 1" by (simp add: word_less_nat_alt um)
    then have "take_bit m v = v" "ucast (ucast v :: u8) = v"
      using m256 by (auto simp: word_eq_iff_unsigned [where ?'a = nat] unsigned_take_bit_eq unsigned_ucast_eq take_bit_nat_eq_self_iff
        simp del: unsigned_less)
    then show ?thesis using True unfolding read_int_def encode_int_def push_bit_of_1 by (simp add: nth_append Let_def msk)
  next
    case False
    then have ge: "2 ^ m - 1 \<le> unat v" by (simp add: word_less_nat_alt um)
    have c: "ucast (ucast ?max :: u8) AND ?max = ?max"
      unfolding msk using m256
      by (auto simp: word_eq_iff_unsigned [where ?'a = nat] unsigned_take_bit_eq unsigned_ucast_eq take_bit_nat_eq_self_iff um
        min_absorb1 [OF assms(3)] simp del: unsigned_less)
    have u: "unat (v - ?max) = unat v - (2 ^ m - 1)" using ge um by (simp add: unat_sub word_le_nat_alt)
    have "unat (v - ?max) < 2 ^ 35" unfolding u using assms(1) by linarith
    moreover have "unat ?max + unat (v - ?max) * 2 ^ 0 < 2 ^ 64" unfolding u um using ge unsigned_less [of v, where ?'a = nat] by simp
    ultimately have "read_int_loop ((p @ [ucast ?max]) @ int_rest (v - ?max) @ rest) (length p) 1 ?max 0 =
        Inr (?max + word_of_nat (unat (v - ?max) * 2 ^ 0), 1 + length (int_rest (v - ?max)))"
      by (intro read_int_loop_rest [where k = 0]) simp_all
    moreover have "encode_int v m = ucast ?max # int_rest (v - ?max)" using False by (simp add: encode_int_def Let_def)
    ultimately show ?thesis unfolding read_int_def push_bit_of_1 by (simp add: nth_append Let_def c)
  qed
qed

lemma encode_int_nonempty: "\<exists>b bs. encode_int v m = b # bs"
  by (simp add: encode_int_def Let_def)

lemma encode_int_hd: "unat (hd (encode_int v 7)) < 128"
proof (cases "v < 127")
  case True
  then show ?thesis by (simp add: encode_int_def word_less_nat_alt unat_byte_of_u64 Let_def)
next
  case False
  then show ?thesis by (simp add: encode_int_def Let_def)
qed

lemma read_encode_str:
  assumes "length s < 2 ^ 35"
  shows "read_string (p @ encode_str s @ rest) (length p) = Inr (s, length (encode_str s))"
proof -
  have u: "unat (word_of_nat (length s) :: u64) = length s"
    using assms by (simp add: unsigned_of_nat take_bit_nat_eq_self_iff)
  obtain b bs where e: "encode_int (word_of_nat (length s)) 7 = b # bs" using encode_int_nonempty by blast
  then have "unat b < 128" using encode_int_hd [of "word_of_nat (length s)"] by simp
  then have h: "(p @ encode_str s @ rest) ! length p AND 0x80 = 0" by (simp add: encode_str_def e nth_append high_bit_byte)
  have "read_int (p @ encode_str s @ rest) (length p) 7 =
      Inr (word_of_nat (length s), length (encode_int (word_of_nat (length s)) 7))"
    using read_encode_int [of "word_of_nat (length s)" 7 p "s @ rest"] assms u by (simp add: encode_str_def)
  then show ?thesis
    using h u by (simp add: read_string_def encode_str_def e slice_range_def)
qed

section \<open>Header blocks round-trip\<close>

abbreviation header_bytes :: "string \<times> string \<Rightarrow> bytes \<times> bytes" where
  "header_bytes h \<equiv> (as_bytes (fst h), as_bytes (snd h))"

lemma read_literal_value:
  assumes "read_int block (length p) m = Inr (idx, 1)" and "idx \<noteq> 0" and "hpack_lookup d idx = Inr (name, v0)"
    and "block = p @ b # encode_str s @ rest" and "length s < 2 ^ 35"
  shows "literal_at d block (length p) m = Inr ((name, s), length p + (1 + length (encode_str s)))"
  using assms(1-3) read_encode_str [OF assms(5), of "p @ [b]" rest]
  by (simp add: literal_at_def hpack_name_at_def assms(4))

lemma read_literal_new:
  assumes "read_int block (length p) m = Inr (0, 1)" and "block = p @ b # encode_str n @ encode_str s @ rest"
    and "length n < 2 ^ 35" and "length s < 2 ^ 35"
  shows "literal_at d block (length p) m = Inr ((n, s), length p + (1 + length (encode_str n) + length (encode_str s)))"
  using assms(1) read_encode_str [OF assms(3), of "p @ [b]" "encode_str s @ rest"]
    read_encode_str [OF assms(4), of "p @ b # encode_str n" rest]
  by (simp add: literal_at_def hpack_name_at_def assms(2) algebra_simps)

lemma decode_step_encoded:
  assumes "length (fst h) < 2 ^ 35" and "length (snd h) < 2 ^ 35"
  shows "\<exists>d'. decode_step d (p @ encode_field h @ rest) (length p) =
    (Inr (Some (header_bytes h), length p + length (encode_field h)), d')"
proof -
  obtain n v where h: "h = (n, v)" by fastforce
  have len: "length (as_bytes n) < 2 ^ 35" "length (as_bytes v) < 2 ^ 35" using assms h by simp_all
  let ?block = "p @ encode_field h @ rest"
  consider "n = '':method''" "v = ''POST''" | "n = '':scheme''" "v = ''https''" | "n = '':authority''" | "n = '':path''"
    | (other) "\<not> (n = '':method'' \<and> v = ''POST'')" "\<not> (n = '':scheme'' \<and> v = ''https'')" "n \<noteq> '':authority''" "n \<noteq> '':path''"
    by blast
  then show ?thesis
  proof cases
    case other
    then have other: "encode_field h = 0 # encode_str (as_bytes n) @ encode_str (as_bytes v)"
      unfolding encode_field_def h by simp
    then have "read_int ?block (length p) 4 = Inr (0, 1)" by (simp add: read_int_def nth_append)
    then have "literal_at d ?block (length p) 4 = Inr (header_bytes h, length p + length (encode_field h))"
      using read_literal_new [OF _ _ len, of ?block p 4 0 rest d] other by (simp add: h)
    then show ?thesis using other by (simp add: decode_step_def nth_append)
  next
    case 3
    then have e: "encode_field h = 0x41 # encode_str (as_bytes v)" by (simp add: encode_field_def h)
    then have "read_int ?block (length p) 6 = Inr (1, 1)" by (simp add: read_int_def nth_append)
    then have "literal_at d ?block (length p) 6 = Inr (header_bytes h, length p + length (encode_field h))"
      using read_literal_value [of ?block p 6 1 d "as_bytes n" "[]" "0x41" "as_bytes v" rest] e len(2) 3
      by (simp add: h hpack_lookup_def STATIC_TABLE_def as_bytes_def)
    then show ?thesis using e by (simp add: decode_step_def nth_append)
  next
    case 4
    then have e: "encode_field h = 0x44 # encode_str (as_bytes v)" by (simp add: encode_field_def h)
    then have "read_int ?block (length p) 6 = Inr (4, 1)" by (simp add: read_int_def nth_append)
    then have "literal_at d ?block (length p) 6 = Inr (header_bytes h, length p + length (encode_field h))"
      using read_literal_value [of ?block p 6 4 d "as_bytes n" "as_bytes ''/''" "0x44" "as_bytes v" rest] e len(2) 4
      by (simp add: h hpack_lookup_def STATIC_TABLE_def)
    then show ?thesis using e by (simp add: decode_step_def nth_append)
  next
    case 1
    then show ?thesis
      by (simp add: h encode_field_def decode_step_def nth_append read_int_def hpack_lookup_def STATIC_TABLE_def)
  next
    case 2
    then show ?thesis
      by (simp add: h encode_field_def decode_step_def nth_append read_int_def hpack_lookup_def STATIC_TABLE_def)
  qed
qed

lemma encode_field_nonempty: "encode_field h \<noteq> []"
  by (simp add: encode_field_def split: prod.splits)

lemma decode_loop_encoded:
  assumes "\<forall>h \<in> set hs. length (fst h) < 2 ^ 35 \<and> length (snd h) < 2 ^ 35"
  shows "\<exists>d'. decode_loop d (p @ hpack_encode hs) (length p) out = (Inr (out @ map header_bytes hs), d')"
  using assms
proof (induction hs arbitrary: d p out)
  case Nil
  then show ?case by (subst decode_loop.simps) (simp add: hpack_encode_def)
next
  case (Cons h hs)
  obtain d1 where d1: "decode_step d (p @ encode_field h @ hpack_encode hs) (length p) =
      (Inr (Some (header_bytes h), length p + length (encode_field h)), d1)"
    using decode_step_encoded [of h d p "hpack_encode hs"] Cons.prems by auto
  have "decode_loop d (p @ encode_field h @ hpack_encode hs) (length p) out =
      decode_loop d1 ((p @ encode_field h) @ hpack_encode hs) (length (p @ encode_field h)) (out @ [header_bytes h])"
    by (subst decode_loop.simps) (simp add: d1 encode_field_nonempty)
  then show ?case
    using Cons.IH [of d1 "p @ encode_field h" "out @ [header_bytes h]"] Cons.prems
    by (simp add: hpack_encode_def)
qed

text \<open>
  C32: Header blocks round-trip. Whatever its dynamic table holds, a decoder reads the block of any headers as those
  headers in order: indexed pseudo-headers, literals with indexed names and plain literals, for names and values
  shorter than \<open>2\<^sup>3\<^sup>5\<close> bytes.
\<close>

theorem hpack_roundtrip:
  assumes "\<forall>h \<in> set hs. length (fst h) < 2 ^ 35 \<and> length (snd h) < 2 ^ 35"
  shows "fst (hpack_decode d (hpack_encode hs)) = Inr (map header_bytes hs)"
  using decode_loop_encoded [OF assms, of d "[]" "[]"] by (auto simp: hpack_decode_def)

theorem hpack_roundtrip_witness:
  "fst (hpack_decode decoder_new (hpack_encode [('':method'', ''POST''), (''te'', ''trailers'')])) =
     Inr [(as_bytes '':method'', as_bytes ''POST''), (as_bytes ''te'', as_bytes ''trailers'')]"
  by (subst hpack_roundtrip) simp_all

section \<open>The dynamic table\<close>

text \<open>The recorded size is the size of the entries, within a limit that never exceeds the advertised 4096.\<close>

definition decoder_inv :: "hpack_decoder \<Rightarrow> bool" where
  "decoder_inv d \<longleftrightarrow> hd_size d = sum_list (map entry_size (hd_dynamic d)) \<and> hd_size d \<le> hd_max_size d \<and>
    hd_max_size d \<le> 4096"

lemma hpack_evict_inv:
  "hd_size d = sum_list (map entry_size (hd_dynamic d)) \<Longrightarrow> hd_max_size d \<le> 4096 \<Longrightarrow>
   decoder_inv (hpack_evict d) \<and> (\<exists>k. hd_dynamic (hpack_evict d) = take k (hd_dynamic d))"
proof (induction d rule: hpack_evict.induct)
  case (1 d)
  show ?case
  proof (cases "hd_max_size d < hd_size d \<and> hd_dynamic d \<noteq> []")
    case True
    let ?d = "d\<lparr>hd_dynamic := butlast (hd_dynamic d), hd_size := hd_size d - entry_size (last (hd_dynamic d))\<rparr>"
    have "map entry_size (hd_dynamic d) = map entry_size (butlast (hd_dynamic d)) @ [entry_size (last (hd_dynamic d))]"
      using True by (metis append_butlast_last_id list.simps(8) list.simps(9) map_append)
    then have "hd_size ?d = sum_list (map entry_size (hd_dynamic ?d))" using 1(2) by simp
    then have "decoder_inv (hpack_evict ?d) \<and> (\<exists>k. hd_dynamic (hpack_evict ?d) = take k (hd_dynamic ?d))"
      using 1(1) [OF True] 1(3) by simp
    moreover have "hpack_evict d = hpack_evict ?d" by (subst hpack_evict.simps) (use True in simp)
    ultimately show ?thesis by (auto simp: butlast_conv_take take_take)
  next
    case False
    then have "hpack_evict d = d" by (subst hpack_evict.simps) (auto simp: not_less)
    then show ?thesis using 1(2,3) False by (auto simp: decoder_inv_def intro: exI [of _ "length (hd_dynamic d)"])
  qed
qed

lemma hpack_insert_inv: "decoder_inv d \<Longrightarrow> decoder_inv (hpack_insert name v d)"
  unfolding hpack_insert_def by (rule conjunct1 [OF hpack_evict_inv]) (auto simp: decoder_inv_def entry_size_def)

lemma size_update_inv: "decoder_inv d \<Longrightarrow> \<not> 4096 < sz \<Longrightarrow> decoder_inv (hpack_evict (d\<lparr>hd_max_size := unat (sz :: u64)\<rparr>))"
  by (rule conjunct1 [OF hpack_evict_inv]) (auto simp: decoder_inv_def word_less_nat_alt)

lemma decode_step_inv: "decoder_inv d \<Longrightarrow> decode_step d block i = (r, d') \<Longrightarrow> decoder_inv d'"
  by (auto simp: decode_step_def Let_def hpack_insert_inv size_update_inv split: if_splits sum.splits prod.splits)

lemma decode_loop_inv: "decoder_inv d \<Longrightarrow> decode_loop d block i out = (r, d') \<Longrightarrow> decoder_inv d'"
proof (induction d block i out rule: decode_loop.induct)
  case (1 d block i out)
  then show ?case
    by (subst (asm) (2) decode_loop.simps) (auto split: if_splits prod.splits sum.splits dest: decode_step_inv)
qed

lemma hpack_decode_inv: "decoder_inv d \<Longrightarrow> decoder_inv (snd (hpack_decode d block))"
  unfolding hpack_decode_def by (metis decode_loop_inv prod.collapse)

lemma table_entries: "32 * length es \<le> sum_list (map entry_size es)"
  by (induction es) (auto simp: entry_size_def)

text \<open>
  C36: The dynamic table stays bounded. After any sequence of header blocks, well-formed or not, the recorded size is
  the size of the entries and at most 4096, so that the table never holds more than 128 entries.
\<close>

theorem hpack_table_bounded:
  "let d = foldl (\<lambda>d block. snd (hpack_decode d block)) decoder_new blocks in
    hd_size d = sum_list (map entry_size (hd_dynamic d)) \<and> hd_size d \<le> hd_max_size d \<and> hd_max_size d \<le> 4096 \<and>
    length (hd_dynamic d) \<le> 128"
proof -
  let ?d = "foldl (\<lambda>d block. snd (hpack_decode d block)) decoder_new blocks"
  have "decoder_inv d0 \<Longrightarrow> decoder_inv (foldl (\<lambda>d block. snd (hpack_decode d block)) d0 blocks)" for d0
    by (induction blocks arbitrary: d0) (simp_all add: hpack_decode_inv)
  moreover have "decoder_inv decoder_new" by (simp add: decoder_inv_def decoder_new_def)
  ultimately have "decoder_inv ?d" .
  then show ?thesis using table_entries [of "hd_dynamic ?d"] unfolding decoder_inv_def Let_def by linarith
qed

section \<open>The code is prefix-free\<close>

text \<open>A binary trie into which a word is inserted only when no word of it is a prefix of the other.\<close>

datatype code_trie = Blank | Leaf_Word | Fork code_trie code_trie

fun trie_insert :: "bool list \<Rightarrow> code_trie \<Rightarrow> code_trie option" where
  "trie_insert [] Blank = Some Leaf_Word"
| "trie_insert [] _ = None"
| "trie_insert (x # xs) Leaf_Word = None"
| "trie_insert (x # xs) Blank = map_option (\<lambda>t. if x then Fork Blank t else Fork t Blank) (trie_insert xs Blank)"
| "trie_insert (x # xs) (Fork l r) =
    (if x then map_option (Fork l) (trie_insert xs r) else map_option (\<lambda>t. Fork t r) (trie_insert xs l))"

fun trie_insert_all :: "bool list list \<Rightarrow> code_trie \<Rightarrow> code_trie option" where
  "trie_insert_all [] t = Some t"
| "trie_insert_all (w # ws) t = (case trie_insert w t of None \<Rightarrow> None | Some t \<Rightarrow> trie_insert_all ws t)"

definition code_bits :: "int \<times> nat \<Rightarrow> bool list" where
  "code_bits cb = map (\<lambda>i. bit (fst cb) i) (rev [0..<snd cb])"

lemma huffman_inserts: "trie_insert_all (map code_bits HUFFMAN) Blank \<noteq> None"
  by code_simp

fun trie_mem :: "code_trie \<Rightarrow> bool list \<Rightarrow> bool" where
  "trie_mem Blank v = False"
| "trie_mem Leaf_Word v = (v = [])"
| "trie_mem (Fork l r) v = (case v of [] \<Rightarrow> False | x # xs \<Rightarrow> trie_mem (if x then r else l) xs)"

definition apart :: "'a list \<Rightarrow> 'a list \<Rightarrow> bool" where
  "apart v w \<longleftrightarrow> (\<forall>e. w \<noteq> v @ e) \<and> (\<forall>e. v \<noteq> w @ e)"

lemma apart_sym: "apart v w \<longleftrightarrow> apart w v"
  by (auto simp: apart_def)

lemma trie_insert_mem: "trie_insert w t = Some t' \<Longrightarrow> trie_mem t' v \<longleftrightarrow> v = w \<or> trie_mem t v"
proof (induction w t arbitrary: t' v rule: trie_insert.induct)
  case (4 x xs)
  then obtain t1 where t1: "trie_insert xs Blank = Some t1" "t' = (if x then Fork Blank t1 else Fork t1 Blank)" by auto
  show ?case using 4(1) [OF t1(1)] t1(2) by (auto split: list.splits)
qed (auto split: list.splits if_splits)

lemma trie_insert_apart: "trie_insert w t = Some t' \<Longrightarrow> trie_mem t v \<Longrightarrow> apart v w"
proof (induction w t arbitrary: t' v rule: trie_insert.induct)
  case (5 x xs l r)
  then obtain y ys where v: "v = y # ys" "trie_mem (if y then r else l) ys" by (auto split: list.splits)
  show ?case
  proof (cases "x = y")
    case True
    then have "apart ys xs" using 5 v by (cases y) auto
    then show ?thesis using v by (auto simp: apart_def)
  qed (use v in \<open>auto simp: apart_def\<close>)
qed auto

lemma trie_insert_all_apart:
  "trie_insert_all ws t = Some t' \<Longrightarrow> sorted_wrt apart ws \<and> (\<forall>v w. trie_mem t v \<and> w \<in> set ws \<longrightarrow> apart v w)"
proof (induction ws arbitrary: t)
  case (Cons w ws)
  then obtain t1 where t1: "trie_insert w t = Some t1" "trie_insert_all ws t1 = Some t'" by (auto split: option.splits)
  then show ?case using Cons.IH [OF t1(2)] trie_insert_mem [OF t1(1)] trie_insert_apart [OF t1(1)] by auto
qed simp

abbreviation huffman_words :: "bool list list" where
  "huffman_words \<equiv> map code_bits HUFFMAN"

lemma huffman_apart:
  assumes "i < length HUFFMAN" and "j < length HUFFMAN" and "i \<noteq> j"
  shows "apart (huffman_words ! i) (huffman_words ! j)"
proof -
  have "sorted_wrt apart huffman_words" using huffman_inserts trie_insert_all_apart by blast
  then have lt: "a < b \<Longrightarrow> b < length HUFFMAN \<Longrightarrow> apart (huffman_words ! a) (huffman_words ! b)" for a b
    unfolding sorted_wrt_iff_nth_less by simp
  show ?thesis
  proof (cases "i < j")
    case False
    then show ?thesis using assms lt [of j i] apart_sym by fastforce
  qed (use assms lt in blast)
qed

lemma huffman_ranges:
  "list_all (\<lambda>(c, b). 0 \<le> c \<and> c < 2 ^ b \<and> 0 < b \<and> b \<le> 30) HUFFMAN" "length HUFFMAN = 257" "HUFFMAN ! 256 = (0x3fffffff, 30)"
  by code_simp+

section \<open>The table is keyed by code words\<close>

lemma hm_get_collect: "distinct (map fst kvs) \<Longrightarrow> hm_get (hm_collect kvs) k = Some v \<longleftrightarrow> (k, v) \<in> set kvs"
proof -
  have "hm_get (foldl (\<lambda>m (k, v). hm_insert k v m) m0 kvs) k = (case map_of (rev kvs) k of Some v \<Rightarrow> Some v | None \<Rightarrow> hm_get m0 k)"
    for m0 by (induction kvs arbitrary: m0) (auto split: option.splits simp: map_add_def)
  then show "distinct (map fst kvs) \<Longrightarrow> ?thesis"
    using map_of_eq_Some_iff [of "rev kvs" k v]
    by (cases "map_of (rev kvs) k") (simp_all add: hm_collect_def rev_map [symmetric])
qed

definition horner_bits :: "bool list \<Rightarrow> u32" where
  "horner_bits xs = foldl (\<lambda>a x. push_bit 1 a OR of_bool x) 0 xs"

definition bits_key :: "bool list \<Rightarrow> u8 \<times> u32" where
  "bits_key xs = (word_of_nat (length xs), horner_bits xs)"

lemma horner_snoc: "horner_bits (xs @ [x]) = push_bit 1 (horner_bits xs) OR of_bool x"
  by (simp add: horner_bits_def)

lemma bit_horner: "bit (horner_bits xs) i \<longleftrightarrow> i < 32 \<and> i < length xs \<and> rev xs ! i"
proof (induction xs arbitrary: i rule: rev_induct)
  case Nil
  then show ?case by (simp add: horner_bits_def)
next
  case (snoc x xs)
  show ?case
  proof (cases i)
    case 0
    then show ?thesis unfolding horner_snoc bit_or_iff bit_push_bit_iff bit_of_bool_iff by simp
  next
    case (Suc j)
    then show ?thesis
      using snoc [of j] unfolding horner_snoc bit_or_iff bit_push_bit_iff bit_of_bool_iff by (auto simp: possible_bit_def)
  qed
qed

lemma bits_key_inj:
  assumes "bits_key xs = bits_key ys" and "length xs \<le> 32" and "length ys \<le> 32"
  shows "xs = ys"
proof -
  have l: "length xs = length ys"
    using assms by (simp add: bits_key_def word_eq_iff_unsigned [where ?'a = nat] unsigned_of_nat take_bit_eq_mod)
  have "horner_bits xs = horner_bits ys" using assms(1) by (simp add: bits_key_def)
  then have "rev xs ! i = rev ys ! i" if "i < length (rev xs)" for i
    using that bit_horner [of xs i] bit_horner [of ys i] l assms(2) by simp
  then have "rev xs = rev ys" using l by (intro nth_equalityI) auto
  then show ?thesis by simp
qed

lemma code_bits_key:
  assumes "0 \<le> c" and "c < 2 ^ b" and "b \<le> 30"
  shows "bits_key (code_bits (c, b)) = (word_of_nat b, word_of_int c)"
proof -
  have "take_bit b c = c" using assms(1,2) by (simp add: take_bit_int_eq_self)
  then have "bit c i \<Longrightarrow> i < b" for i by (metis bit_take_bit_iff)
  then have "horner_bits (code_bits (c, b)) = word_of_int c"
    using assms(3) by (intro bit_word_eqI) (auto simp: bit_horner code_bits_def rev_map bit_simps)
  then show ?thesis by (simp add: bits_key_def code_bits_def)
qed

lemma huffman_code:
  assumes "k < 257"
  obtains c b where "HUFFMAN ! k = (c, b)" "0 \<le> c" "c < 2 ^ b" "0 < b" "b \<le> 30"
proof -
  obtain c b where cb: "HUFFMAN ! k = (c, b)" by fastforce
  then show ?thesis
    using that huffman_ranges(1) assms huffman_ranges(2) nth_mem [of k HUFFMAN] by (fastforce simp: list_all_iff)
qed

lemma huffman_word_length: "k < 257 \<Longrightarrow> 0 < length (huffman_words ! k) \<and> length (huffman_words ! k) \<le> 30"
  by (rule huffman_code [of k]) (auto simp: huffman_ranges code_bits_def)

lemma huffman_key: "k < 257 \<Longrightarrow> (word_of_nat (snd (HUFFMAN ! k)), word_of_int (fst (HUFFMAN ! k))) = bits_key (huffman_words ! k)"
  by (rule huffman_code [of k]) (auto simp: huffman_ranges code_bits_key)

lemma huffman_lookup:
  assumes "length xs \<le> 32"
  shows "hm_get huffman_table (bits_key xs) = Some v \<longleftrightarrow> (\<exists>k < 257. v = word_of_nat k \<and> xs = huffman_words ! k)"
proof -
  let ?kvs = "map (\<lambda>(i, code, bits). ((word_of_nat bits, word_of_int code), word_of_nat i)) (List.enumerate 0 HUFFMAN) ::
    ((u8 \<times> u32) \<times> u16) list"
  have kvs: "?kvs = map (\<lambda>k. (bits_key (huffman_words ! k), word_of_nat k)) [0..<257]"
  proof (rule nth_equalityI)
    fix i assume "i < length ?kvs"
    then have "i < 257" by (simp add: huffman_ranges)
    then show "?kvs ! i = map (\<lambda>k. (bits_key (huffman_words ! k), word_of_nat k)) [0..<257] ! i"
      using huffman_key [of i] by (simp add: huffman_ranges nth_enumerate_eq split_def)
  qed (simp add: huffman_ranges)
  have inj: "i = j" if "i < 257" "j < 257" "bits_key (huffman_words ! i) = bits_key (huffman_words ! j)" for i j
  proof (rule ccontr)
    assume "i \<noteq> j"
    then have "apart (huffman_words ! i) (huffman_words ! j)" using that huffman_apart huffman_ranges(2) by simp
    moreover have "huffman_words ! i = huffman_words ! j"
      using that huffman_word_length [of i] huffman_word_length [of j] by (intro bits_key_inj) auto
    ultimately show False by (simp add: apart_def)
  qed
  have "distinct (map fst ?kvs)" unfolding kvs map_map distinct_map comp_def set_upt by (auto simp: inj_on_def intro: inj)
  then have "hm_get huffman_table (bits_key xs) = Some v \<longleftrightarrow> (bits_key xs, v) \<in> set ?kvs"
    unfolding huffman_table_def by (rule hm_get_collect)
  also have "\<dots> \<longleftrightarrow> (\<exists>k < 257. v = word_of_nat k \<and> bits_key xs = bits_key (huffman_words ! k))"
    unfolding kvs set_map set_upt by auto
  also have "\<dots> \<longleftrightarrow> (\<exists>k < 257. v = word_of_nat k \<and> xs = huffman_words ! k)"
  proof -
    have "bits_key xs = bits_key (huffman_words ! k) \<longleftrightarrow> xs = huffman_words ! k" if "k < 257" for k
      using bits_key_inj [OF _ assms, of "huffman_words ! k"] huffman_word_length [OF that] by auto
    then show ?thesis by blast
  qed
  finally show ?thesis .
qed

lemma huffman_lookup_word: "k < 257 \<Longrightarrow> hm_get huffman_table (bits_key (huffman_words ! k)) = Some (word_of_nat k)"
  using huffman_lookup [of "huffman_words ! k" "word_of_nat k"] huffman_word_length [of k] by auto

section \<open>The decoder inverts the code\<close>

definition huffman_bits :: "bytes \<Rightarrow> bool list" where
  "huffman_bits s = concat (map (\<lambda>b. huffman_words ! unat b) s)"

definition padded_code :: "bytes \<Rightarrow> bool list \<Rightarrow> bool" where
  "padded_code s bits \<longleftrightarrow> (\<exists>k < 8. bits = huffman_bits s @ replicate k True)"

lemma horner_ones:
  assumes "length p < 32"
  shows "horner_bits p = push_bit (length p) 1 - 1 \<longleftrightarrow> p = replicate (length p) True"
proof
  assume "p = replicate (length p) True"
  then have "rev p = replicate (length p) True" by (metis rev_replicate)
  then have "rev p ! i" if "i < length p" for i using that by simp
  then show "horner_bits p = push_bit (length p) 1 - 1"
    using assms unfolding push_bit_of_1 mask_eq_exp_minus_1 [symmetric]
    by (intro bit_word_eqI) (auto simp: bit_horner bit_mask_iff)
next
  assume h: "horner_bits p = push_bit (length p) 1 - 1"
  have "rev p ! i" if "i < length p" for i
    using bit_horner [of p i] that assms h unfolding push_bit_of_1 mask_eq_exp_minus_1 [symmetric] by (simp add: bit_mask_iff)
  then have "rev p = replicate (length p) True" by (intro nth_equalityI) auto
  then show "p = replicate (length p) True" by (metis rev_replicate rev_rev_ident)
qed

lemma unat_len: "length p \<le> 31 \<Longrightarrow> unat (word_of_nat (length p) :: u8) = length p"
  by (simp add: unsigned_of_nat take_bit_nat_eq_self_iff)

lemma len_conds:
  assumes "length p \<le> 31"
  shows "0 < (word_of_nat (length p) :: u8) \<longleftrightarrow> p \<noteq> []" "8 \<le> (word_of_nat (length p) :: u8) \<longleftrightarrow> 8 \<le> length p"
    "30 < (word_of_nat (length p) :: u8) \<longleftrightarrow> 30 < length p"
  using unat_len [OF assms] by (auto simp: word_less_nat_alt word_le_nat_alt)

lemma huffman_loop_end:
  assumes "length p \<le> 30"
  shows "huffman_loop [] (horner_bits p) (word_of_nat (length p)) out =
    (if length p < 8 \<and> p = replicate (length p) True then Inr out else Inl (Protocol ''hpack: invalid huffman padding''))"
  using assms len_conds [of p] unat_len [of p] horner_ones [of p] by (cases "p = []") auto

lemma huffman_loop_step:
  assumes "length p \<le> 30"
  shows "huffman_loop (x # xs) (horner_bits p) (word_of_nat (length p)) out =
    (case hm_get huffman_table (bits_key (p @ [x])) of
       Some v \<Rightarrow> if v = 256 then Inl (Protocol ''hpack: EOS inside string'')
         else huffman_loop xs (horner_bits []) (word_of_nat (length ([] :: bool list))) (out @ [ucast v])
     | None \<Rightarrow> if 30 < length (p @ [x]) then Inl (Protocol ''hpack: invalid huffman code'')
         else huffman_loop xs (horner_bits (p @ [x])) (word_of_nat (length (p @ [x]))) out)"
proof -
  have l: "word_of_nat (length p) + 1 = (word_of_nat (length (p @ [x])) :: u8)" by (simp add: add.commute)
  have n: "30 < (word_of_nat (length (p @ [x])) :: u8) \<longleftrightarrow> 30 < length (p @ [x])"
    using len_conds(3) [of "p @ [x]"] assms by simp
  have e: "horner_bits [] = 0" "word_of_nat (length ([] :: bool list)) = (0 :: u8)" by (simp_all add: horner_bits_def)
  show ?thesis
    unfolding huffman_loop.simps Let_def horner_snoc [symmetric] l n bits_key_def e ..
qed

lemma word_symbol: "k < 257 \<Longrightarrow> (word_of_nat k :: u16) = 256 \<longleftrightarrow> k = 256"
  by (simp add: word_eq_iff_unsigned [where ?'a = nat] unsigned_of_nat take_bit_eq_mod)

lemma symbol_byte: "k < 256 \<Longrightarrow> unat (ucast (word_of_nat k :: u16) :: u8) = k"
  by (simp add: unsigned_ucast_eq unsigned_of_nat take_bit_nat_eq_self_iff)

lemma huffman_loop_sound:
  "length p \<le> 30 \<Longrightarrow> huffman_loop bs (horner_bits p) (word_of_nat (length p)) out = Inr r \<Longrightarrow>
   \<exists>s. r = out @ s \<and> padded_code s (p @ bs)"
proof (induction bs arbitrary: p out)
  case Nil
  then have "length p < 8 \<and> p = replicate (length p) True" "r = out"
    unfolding huffman_loop_end [OF Nil(1)] by (auto split: if_splits)
  then show ?case by (auto simp: padded_code_def huffman_bits_def intro!: exI [of _ "length p"])
next
  case (Cons x bs)
  note step = huffman_loop_step [OF Cons.prems(1), of x bs out]
  show ?case
  proof (cases "hm_get huffman_table (bits_key (p @ [x]))")
    case None
    then have "length (p @ [x]) \<le> 30" "huffman_loop bs (horner_bits (p @ [x])) (word_of_nat (length (p @ [x]))) out = Inr r"
      using Cons.prems(2) unfolding step by (auto split: if_splits)
    from Cons.IH [OF this] show ?thesis by simp
  next
    case (Some v)
    then obtain k where k: "k < 257" "v = word_of_nat k" "p @ [x] = huffman_words ! k"
      using huffman_lookup [of "p @ [x]" v] Cons.prems(1) by auto
    then have "k \<noteq> 256" and rec: "huffman_loop bs (horner_bits []) (word_of_nat (length ([] :: bool list))) (out @ [ucast v]) = Inr r"
      using Cons.prems(2) Some unfolding step by (auto simp: word_symbol split: if_splits)
    from Cons.IH [OF _ rec] obtain s where s: "r = (out @ [ucast v]) @ s" "padded_code s bs" by auto
    have "huffman_bits (ucast v # s) = p @ [x] @ huffman_bits s"
      using k \<open>k \<noteq> 256\<close> symbol_byte [of k] by (simp add: huffman_bits_def)
    then show ?thesis using s by (auto simp: padded_code_def intro!: exI [of _ "ucast v # s"])
  qed
qed

text \<open>The bits read since the last symbol: no prefix of them is a code word.\<close>

definition open_bits :: "bool list \<Rightarrow> bool" where
  "open_bits p \<longleftrightarrow> (\<forall>k < 257. \<forall>e. p \<noteq> huffman_words ! k @ e)"

lemma eos_word: "huffman_words ! 256 = replicate 30 True"
  by (simp add: huffman_ranges) code_simp

lemma proper_prefix_unlisted:
  assumes "k < 257" and "huffman_words ! k = p @ e" and "e \<noteq> []"
  shows "hm_get huffman_table (bits_key p) = None" "length p < 30"
proof -
  have l: "length (p @ e) \<le> 30" using huffman_word_length [OF assms(1)] assms(2) by simp
  then show "length p < 30" using assms(3) by (cases e) auto
  have "p \<noteq> huffman_words ! j" if "j < 257" for j
  proof (cases "j = k")
    case False
    then have "apart (huffman_words ! j) (huffman_words ! k)" using huffman_apart that assms(1) huffman_ranges(2) by simp
    then show ?thesis using assms(2) by (auto simp: apart_def)
  qed (use assms(2,3) in auto)
  then show "hm_get huffman_table (bits_key p) = None"
    using huffman_lookup [of p] l by (cases "hm_get huffman_table (bits_key p)") auto
qed

lemma open_bits_snoc:
  assumes "open_bits p" and "hm_get huffman_table (bits_key (p @ [x])) = None" and "length p < 32"
  shows "open_bits (p @ [x])"
  unfolding open_bits_def
proof (intro allI impI notI)
  fix k e assume k: "k < 257" and e: "p @ [x] = huffman_words ! k @ e"
  show False
  proof (cases e rule: rev_cases)
    case Nil
    then show False using huffman_lookup_word [OF k] assms(2) e by simp
  next
    case (snoc e' y)
    then show False using assms(1) k e by (auto simp: open_bits_def)
  qed
qed

lemma huffman_loop_complete:
  "length p \<le> 30 \<Longrightarrow> open_bits p \<Longrightarrow> padded_code s (p @ bs) \<Longrightarrow>
   huffman_loop bs (horner_bits p) (word_of_nat (length p)) out = Inr (out @ s)"
proof (induction bs arbitrary: p s out)
  case Nil
  from Nil(3) obtain k where k: "k < 8" "p = huffman_bits s @ replicate k True" by (auto simp: padded_code_def)
  have "s = []"
  proof (cases s)
    case (Cons b s')
    have "unat b < 257" using unat_u8_less [of b] by linarith
    then show ?thesis using Nil(2) k(2) unfolding open_bits_def huffman_bits_def Cons by auto
  qed
  then show ?case unfolding huffman_loop_end [OF Nil(1)] using k by (simp add: huffman_bits_def)
next
  case (Cons x bs)
  note step = huffman_loop_step [OF Cons.prems(1), of x bs out]
  from Cons.prems(3) obtain k where k: "k < 8" "p @ x # bs = huffman_bits s @ replicate k True" by (auto simp: padded_code_def)
  have go: "huffman_loop (x # bs) (horner_bits p) (word_of_nat (length p)) out = Inr (out @ s)"
    if "w < 257" "huffman_words ! w = (p @ [x]) @ e" "e \<noteq> []" for w e
  proof -
    note n = proper_prefix_unlisted [OF that]
    then show ?thesis
      using Cons.IH [of "p @ [x]" s out] open_bits_snoc [OF Cons.prems(2) n(1)] Cons.prems unfolding step by simp
  qed
  show ?case
  proof (cases s)
    case Nil
    then have "p @ x # bs = replicate k True" using k(2) by (simp add: huffman_bits_def)
    then have r: "p @ x # bs = replicate k True" .
    have "length (p @ x # bs) = k" unfolding r by simp
    then have "length p < k" by simp
    have "p @ [x] = take (length p + 1) (p @ x # bs)" by simp
    also have "\<dots> = replicate (length p + 1) True" unfolding r using \<open>length p < k\<close> by simp
    finally have "p @ [x] = replicate (length p + 1) True" .
    moreover have "length p + 1 + (29 - length p) = 30" using \<open>length p < k\<close> k(1) by simp
    ultimately have "huffman_words ! 256 = (p @ [x]) @ replicate (29 - length p) True"
      unfolding eos_word by (simp only: replicate_add [symmetric])
    then show ?thesis using go [of 256 "replicate (29 - length p) True"] \<open>length p < k\<close> k(1) by simp
  next
    case (Cons b s')
    have b: "unat b < 256" by simp
    then have b': "unat b < 257" by linarith
    let ?w = "huffman_words ! unat b"
    have eq: "(p @ [x]) @ bs = ?w @ (huffman_bits s' @ replicate k True)" using k(2) by (simp add: Cons huffman_bits_def)
    then obtain us where us: "p @ [x] = ?w @ us \<and> us @ bs = huffman_bits s' @ replicate k True \<or>
        ?w = (p @ [x]) @ us \<and> bs = us @ huffman_bits s' @ replicate k True"
      unfolding append_eq_append_conv2 by metis
    consider e where "p @ [x] = ?w @ e" "e \<noteq> []" | "p @ [x] = ?w" "bs = huffman_bits s' @ replicate k True"
      | e where "?w = (p @ [x]) @ e" "e \<noteq> []"
      using us that by (cases "us = []") auto
    then show ?thesis
    proof cases
      case 1
      then obtain e' y where "e = e' @ [y]" by (cases e rule: rev_cases) auto
      then have "p = ?w @ e'" using 1 by simp
      then show ?thesis using \<open>open_bits p\<close> b' by (auto simp: open_bits_def)
    next
      case 2
      have "hm_get huffman_table (bits_key (p @ [x])) = Some (word_of_nat (unat b))"
        unfolding 2(1) by (rule huffman_lookup_word [OF b'])
      moreover have "ucast (word_of_nat (unat b) :: u16) = b"
        using symbol_byte [OF b] by (simp add: word_eq_iff_unsigned [where ?'a = nat])
      moreover have "(word_of_nat (unat b) :: u16) \<noteq> 256" using word_symbol [OF b'] b by auto
      ultimately show ?thesis
        using Cons.IH [of "[]" s' "out @ [b]"] k(1) 2(2) huffman_word_length
        unfolding step by (auto simp: Cons padded_code_def open_bits_def)
    next
      case 3
      then show ?thesis using go [OF b'] by blast
    qed
  qed
qed

text \<open>
  C31: The decoder is the inverse of the Huffman code of RFC 7541. A string decodes to \<open>s\<close> exactly when its bits are the
  code words of the bytes of \<open>s\<close>, one after the other, followed by fewer than eight ones; everything else
  is refused: the end-of-string symbol, longer padding and padding with a zero.
\<close>

theorem huffman_decode_iff:
  "huffman_decode input = Inr s \<longleftrightarrow>
     (\<exists>k < 8. concat (map byte_bits input) = concat (map (\<lambda>b. map code_bits HUFFMAN ! unat b) s) @ replicate k True)"
proof -
  have z: "huffman_decode input = huffman_loop (concat (map byte_bits input)) (horner_bits []) (word_of_nat (length ([] :: bool list))) []"
    by (simp add: huffman_decode_def horner_bits_def)
  have "open_bits []" using huffman_word_length by (auto simp: open_bits_def)
  then have "padded_code s (concat (map byte_bits input)) \<Longrightarrow> huffman_decode input = Inr s"
    using huffman_loop_complete [of "[]" s "concat (map byte_bits input)" "[]"] unfolding z by simp
  moreover have "huffman_decode input = Inr s \<Longrightarrow> padded_code s (concat (map byte_bits input))"
    using huffman_loop_sound [of "[]" "concat (map byte_bits input)" "[]" s] unfolding z by auto
  ultimately show ?thesis unfolding padded_code_def huffman_bits_def by blast
qed

end
