(* ===== verification/Grpc.thy ===== *)
theory Grpc
  imports Gun Hpack Rust_Net
begin

unbundle bit_operations_syntax

text \<open>
  The gRPC transport (src/engine/src/grpc.rs): the HTTP/2 connection with its flow control, header reassembly and the
  single stream it carries, and the byte stream on top of it. A handler returns its result beside the
  connection, since an error leaves the state as far as it got. Windows are \<open>i64\<close> in the source and stay within
  \<open>2\<^sup>3\<^sup>3\<close>, so they are integers here. The transport is a schedule of poll results.
\<close>

section \<open>The connection\<close>

definition DEFAULT_WINDOW :: int where "DEFAULT_WINDOW = 65535"
definition CONN_WINDOW :: int where "CONN_WINDOW = 2 ^ 20"
definition MAX_HEADER_BLOCK :: nat where "MAX_HEADER_BLOCK = 64 * 1024"
definition MAX_SEND_BACKLOG :: nat where "MAX_SEND_BACKLOG = 2 ^ 20"
definition WRITE_CHUNK :: nat where "WRITE_CHUNK = 16 * 1024"

record h2_conn =
  h2_inner :: transport
  h2_rbuf :: bytes
  h2_out :: bytes
  h2_conn_send_window :: int
  h2_stream_send_window :: int
  h2_peer_initial_window :: int
  h2_conn_recv_window :: int
  h2_stream_recv_window :: int
  h2_header_frag :: bytes
  h2_header_end_stream :: bool
  h2_in_headers :: bool
  h2_hpack_dec :: hpack_decoder
  h2_got_response :: bool
  h2_remote_end :: bool
  h2_conn_eof :: bool
  h2_stream_error :: "string option"
  h2_trailer_error :: "string option"
  h2_plain :: bytes
  h2_carry :: bytes

definition h2_new :: "transport \<Rightarrow> h2_conn" where
  "h2_new inner =
    \<lparr>h2_inner = inner, h2_rbuf = [], h2_out = [],
     h2_conn_send_window = DEFAULT_WINDOW, h2_stream_send_window = 4194304, h2_peer_initial_window = DEFAULT_WINDOW,
     h2_conn_recv_window = CONN_WINDOW, h2_stream_recv_window = DEFAULT_WINDOW,
     h2_header_frag = [], h2_header_end_stream = False, h2_in_headers = False, h2_hpack_dec = decoder_new,
     h2_got_response = False, h2_remote_end = False, h2_conn_eof = False, h2_stream_error = None,
     h2_trailer_error = None, h2_plain = [], h2_carry = []\<rparr>"

type_synonym h2_step = "unit result \<times> h2_conn"

definition push_out :: "u8 \<Rightarrow> u8 \<Rightarrow> u32 \<Rightarrow> bytes \<Rightarrow> h2_conn \<Rightarrow> h2_conn" where
  "push_out kind flags stream payload c = c\<lparr>h2_out := put_frame (h2_out c) kind flags stream payload\<rparr>"

definition account_recv :: "int \<Rightarrow> h2_conn \<Rightarrow> h2_conn" where
  "account_recv len c =
    (if h2_remote_end c then c
     else
       let c = c\<lparr>h2_conn_recv_window := h2_conn_recv_window c - len, h2_stream_recv_window := h2_stream_recv_window c - len\<rparr>;
           c = (if h2_stream_recv_window c \<le> DEFAULT_WINDOW div 2 then
                  (push_out FT_WINDOW_UPDATE 0 STREAM_ID (u32_be (word_of_int (DEFAULT_WINDOW - h2_stream_recv_window c))) c)
                    \<lparr>h2_stream_recv_window := DEFAULT_WINDOW\<rparr>
                else c)
       in
         if h2_conn_recv_window c \<le> CONN_WINDOW div 2 then
           (push_out FT_WINDOW_UPDATE 0 0 (u32_be (word_of_int (CONN_WINDOW - h2_conn_recv_window c))) c)
             \<lparr>h2_conn_recv_window := CONN_WINDOW\<rparr>
         else c)"

definition on_data :: "u8 \<Rightarrow> bytes \<Rightarrow> h2_conn \<Rightarrow> h2_step" where
  "on_data flags payload c =
    (case strip_padding flags payload of
       Inl e \<Rightarrow> (Inl e, c)
     | Inr data \<Rightarrow>
         let c = account_recv (int (length payload)) c in
         (case deframer_push (h2_carry c) data (h2_plain c) of
            (Inl e, carry, plain) \<Rightarrow> (Inl e, c\<lparr>h2_carry := carry, h2_plain := plain\<rparr>)
          | (Inr _, carry, plain) \<Rightarrow>
              (Inr (), c\<lparr>h2_carry := carry, h2_plain := plain,
                 h2_remote_end := h2_remote_end c \<or> flags AND FLAG_END_STREAM \<noteq> 0\<rparr>)))"

definition header_value :: "string \<Rightarrow> (bytes \<times> bytes) list \<Rightarrow> bytes option" where
  "header_value name headers = map_option snd (find (\<lambda>(n, _). n = as_bytes name) headers)"

text \<open>\<open>str::parse::<i32>()\<close>.\<close>

definition parse_i32 :: "string \<Rightarrow> int option" where
  "parse_i32 s =
    (case s of
       CHR ''-'' # d \<Rightarrow>
         if d = [] \<or> \<not> list_all (is_radix_digit 10) d then None
         else if number_val 10 d \<le> 2 ^ 31 then Some (- int (number_val 10 d)) else None
     | _ \<Rightarrow> map_option int (parse_uint (2 ^ 31) s))"

definition finish_header_block :: "h2_conn \<Rightarrow> h2_step" where
  "finish_header_block c =
    (case hpack_decode (h2_hpack_dec c) (h2_header_frag c) of
       (Inl e, d) \<Rightarrow> (Inl e, c\<lparr>h2_header_frag := [], h2_hpack_dec := d\<rparr>)
     | (Inr headers, d) \<Rightarrow>
         let c = c\<lparr>h2_header_frag := [], h2_hpack_dec := d\<rparr>;
             status = Option.bind (Option.bind (header_value '':status'' headers) from_utf8) parse_u16;
             trailers = (\<lambda>c.
               if h2_header_end_stream c then
                 (Inr (), c\<lparr>h2_remote_end := True,
                    h2_trailer_error :=
                      (case header_value ''grpc-status'' headers of
                         None \<Rightarrow> h2_trailer_error c
                       | Some v \<Rightarrow>
                           let s = trim (from_utf8_lossy v) in
                           if trim s \<noteq> [] \<and> parse_i32 s \<noteq> Some 0 then Some (''grpc: server returned grpc-status '' @ s)
                           else h2_trailer_error c)\<rparr>)
               else (Inr (), c))
         in
         if h2_got_response c then trailers c
         else case status of
           None \<Rightarrow> (Inl (Protocol ''grpc: response missing :status''), c)
         | Some status \<Rightarrow>
             let c = c\<lparr>h2_got_response := True\<rparr> in
             if status \<noteq> 200 then (Inl (Protocol ''grpc: unexpected HTTP status''), c) else trailers c)"

definition on_headers :: "u8 \<Rightarrow> bytes \<Rightarrow> h2_conn \<Rightarrow> h2_step" where
  "on_headers flags payload c =
    (case rbind (strip_padding flags payload) (\<lambda>body.
            if flags AND FLAG_PRIORITY \<noteq> 0 then
              (if length body < 5 then Inl (Protocol ''grpc: short HEADERS frame'') else Inr (drop 5 body))
            else Inr body) of
       Inl e \<Rightarrow> (Inl e, c)
     | Inr body \<Rightarrow>
         if MAX_HEADER_BLOCK < length (h2_header_frag c) + length body then (Inl (Protocol ''grpc: header block too large''), c)
         else
           let c = c\<lparr>h2_header_frag := h2_header_frag c @ body, h2_header_end_stream := flags AND FLAG_END_STREAM \<noteq> 0\<rparr> in
           if flags AND FLAG_END_HEADERS \<noteq> 0 then finish_header_block c else (Inr (), c\<lparr>h2_in_headers := True\<rparr>))"

definition on_continuation :: "u8 \<Rightarrow> bytes \<Rightarrow> h2_conn \<Rightarrow> h2_step" where
  "on_continuation flags payload c =
    (if \<not> h2_in_headers c then (Inl (Protocol ''grpc: unexpected CONTINUATION frame''), c)
     else if MAX_HEADER_BLOCK < length (h2_header_frag c) + length payload then (Inl (Protocol ''grpc: header block too large''), c)
     else
       let c = c\<lparr>h2_header_frag := h2_header_frag c @ payload\<rparr> in
       if flags AND FLAG_END_HEADERS \<noteq> 0 then finish_header_block (c\<lparr>h2_in_headers := False\<rparr>) else (Inr (), c))"

fun apply_settings :: "bytes \<Rightarrow> h2_conn \<Rightarrow> h2_step" where
  "apply_settings (a # b # w # x # y # z # rest) c =
    (let setting = u16_from a b; val = u32_from w x y z in
     if setting = 0x4 \<and> 0x7fffffff < val then (Inl (Protocol ''grpc: initial window above 2^31-1''), c)
     else
       apply_settings rest
         (if setting = 0x4 then
            c\<lparr>h2_stream_send_window := h2_stream_send_window c + (int (unat val) - h2_peer_initial_window c),
              h2_peer_initial_window := int (unat val)\<rparr>
          else c))"
| "apply_settings _ c = (Inr (), c)"

definition on_settings :: "bytes \<Rightarrow> h2_conn \<Rightarrow> h2_step" where
  "on_settings payload c =
    (if length payload mod 6 \<noteq> 0 then (Inl (Protocol ''grpc: bad SETTINGS length''), c)
     else case apply_settings payload c of
       (Inl e, c) \<Rightarrow> (Inl e, c)
     | (Inr _, c) \<Rightarrow> (Inr (), push_out FT_SETTINGS FLAG_ACK 0 [] c))"

definition on_window_update :: "u32 \<Rightarrow> bytes \<Rightarrow> h2_conn \<Rightarrow> h2_step" where
  "on_window_update stream payload c =
    (let inc = u32_from (payload ! 0) (payload ! 1) (payload ! 2) (payload ! 3) AND 0x7fffffff in
     if inc = 0 then (Inl (Protocol ''grpc: zero WINDOW_UPDATE increment''), c)
     else
       let inc = int (unat inc) in
       if stream = 0 then
         (if 0x7fffffff < h2_conn_send_window c + inc then (Inl (Protocol ''grpc: connection window overflow''), c)
          else (Inr (), c\<lparr>h2_conn_send_window := h2_conn_send_window c + inc\<rparr>))
       else if stream = STREAM_ID then
         (if 0x7fffffff < h2_stream_send_window c + inc then (Inl (Protocol ''grpc: stream window overflow''), c)
          else (Inr (), c\<lparr>h2_stream_send_window := h2_stream_send_window c + inc\<rparr>))
       else (Inr (), c))"

definition on_frame :: "raw_frame \<Rightarrow> h2_conn \<Rightarrow> h2_step" where
  "on_frame f c =
    (case f of (kind, flags, stream, payload) \<Rightarrow>
       if h2_in_headers c \<and> kind \<noteq> FT_CONTINUATION then (Inl (Protocol ''grpc: expected CONTINUATION frame''), c)
       else if kind = FT_DATA \<and> stream = STREAM_ID then on_data flags payload c
       else if kind = FT_DATA \<and> stream = 0 then (Inl (Protocol ''grpc: DATA on stream 0''), c)
       else if kind = FT_HEADERS \<and> stream = STREAM_ID then on_headers flags payload c
       else if kind = FT_CONTINUATION \<and> stream = STREAM_ID then on_continuation flags payload c
       else if kind = FT_SETTINGS then (if flags AND FLAG_ACK \<noteq> 0 then (Inr (), c) else on_settings payload c)
       else if kind = FT_PING then
         (if flags AND FLAG_ACK \<noteq> 0 then (Inr (), c)
          else if length payload \<noteq> 8 then (Inl (Protocol ''grpc: PING with bad length''), c)
          else (Inr (), push_out FT_PING FLAG_ACK 0 payload c))
       else if kind = FT_WINDOW_UPDATE then
         (if length payload \<noteq> 4 then (Inl (Protocol ''grpc: WINDOW_UPDATE with bad length''), c)
          else on_window_update stream payload c)
       else if kind = FT_RST_STREAM \<and> stream = STREAM_ID then
         (Inr (), c\<lparr>h2_stream_error := Some ''grpc: stream reset by server'', h2_remote_end := True\<rparr>)
       else if kind = FT_PUSH_PROMISE then (Inl (Protocol ''grpc: unexpected PUSH_PROMISE''), c)
       else (Inr (), c))"

section \<open>Handlers touch neither the socket nor the receive buffer\<close>

definition same_io :: "h2_conn \<Rightarrow> h2_conn \<Rightarrow> bool" where
  "same_io c c' \<longleftrightarrow> h2_inner c' = h2_inner c \<and> h2_rbuf c' = h2_rbuf c"

lemma same_io_refl [simp]: "same_io c c"
  by (simp add: same_io_def)

lemma push_out_io [simp]: "same_io c (push_out k f s p c') = same_io c c'"
  by (simp add: push_out_def same_io_def)

lemma account_recv_io [simp]: "same_io c (account_recv n c') = same_io c c'"
  by (simp add: account_recv_def Let_def push_out_def same_io_def)

lemma on_data_io: "on_data flags payload c = (r, c') \<Longrightarrow> same_io c c'"
  using account_recv_io [of c "int (length payload)" c]
  by (auto simp: on_data_def Let_def same_io_def split: sum.splits prod.splits)

lemma finish_header_block_io: "finish_header_block c = (r, c') \<Longrightarrow> same_io c c'"
  by (auto simp: finish_header_block_def Let_def same_io_def split: sum.splits prod.splits option.splits if_splits)

lemma on_headers_io: "on_headers flags payload c = (r, c') \<Longrightarrow> same_io c c'"
  by (auto simp: on_headers_def Let_def same_io_def split: sum.splits if_splits dest!: finish_header_block_io)

lemma on_continuation_io: "on_continuation flags payload c = (r, c') \<Longrightarrow> same_io c c'"
  by (auto simp: on_continuation_def Let_def same_io_def split: if_splits dest!: finish_header_block_io)

lemma apply_settings_io: "apply_settings payload c = (r, c') \<Longrightarrow> same_io c c'"
  by (induction payload c rule: apply_settings.induct) (auto simp: Let_def same_io_def split: if_splits)

lemma on_settings_io: "on_settings payload c = (r, c') \<Longrightarrow> same_io c c'"
  by (auto simp: on_settings_def split: prod.splits sum.splits if_splits dest: apply_settings_io)

lemma on_window_update_io: "on_window_update stream payload c = (r, c') \<Longrightarrow> same_io c c'"
  by (auto simp: on_window_update_def Let_def same_io_def split: if_splits)

lemmas handler_io = on_data_io on_headers_io on_continuation_io on_settings_io on_window_update_io

lemma on_frame_io: "on_frame f c = (r, c') \<Longrightarrow> same_io c c'"
  by (cases f) (auto simp: on_frame_def split: if_splits dest: handler_io, simp_all add: same_io_def)

section \<open>Polling\<close>

definition read_room :: nat where "read_room = 16 * 1024"

definition input_weight :: "h2_conn \<Rightarrow> nat" where
  "input_weight c = 2 * backlog (tr_in (h2_inner c)) + length (h2_rbuf c)"

lemma poll_read_backlog:
  "poll_read t room = (Ready (Inr bs), t') \<Longrightarrow> bs \<noteq> [] \<Longrightarrow> backlog (tr_in t') + length bs \<le> backlog (tr_in t)"
  "poll_read t room = (Pending, t') \<Longrightarrow> backlog (tr_in t') < backlog (tr_in t)"
  by (auto simp: poll_read_def backlog_def split: list.splits arrival.splits)

text \<open>Buffered frames first, then the socket; \<open>Ready\<close> without an error means its end.\<close>

function poll_process :: "h2_conn \<Rightarrow> unit poll \<times> h2_conn" where
  "poll_process c =
    (case take_frame (h2_rbuf c) of
       Inl e \<Rightarrow> (Ready (Inl e), c)
     | Inr (Some f, rest) \<Rightarrow>
         (case on_frame f (c\<lparr>h2_rbuf := rest\<rparr>) of
            (Inl e, c) \<Rightarrow> (Ready (Inl e), c)
          | (Inr _, c) \<Rightarrow> poll_process c)
     | Inr (None, _) \<Rightarrow>
         (case poll_read (h2_inner c) read_room of
            (Pending, t) \<Rightarrow> (Pending, c\<lparr>h2_inner := t\<rparr>)
          | (Ready (Inl e), t) \<Rightarrow> (Ready (Inl e), c\<lparr>h2_inner := t\<rparr>)
          | (Ready (Inr bs), t) \<Rightarrow>
              if bs = [] then (Ready (Inr ()), c\<lparr>h2_inner := t, h2_conn_eof := True\<rparr>)
              else poll_process (c\<lparr>h2_inner := t, h2_rbuf := h2_rbuf c @ bs\<rparr>)))"
  by pat_completeness auto
termination
proof (relation "measure input_weight", goal_cases)
  case (2 c _ _ _ r t _ bs)
  then have "backlog (tr_in t) + length bs \<le> backlog (tr_in (h2_inner c))" "0 < length bs"
    using poll_read_backlog(1) [of "h2_inner c" read_room bs t] by auto
  then show ?case unfolding in_measure input_weight_def by (cases bs) simp_all
next
  case (3 c _ _ rest f _ c')
  then have "same_io (c\<lparr>h2_rbuf := rest\<rparr>) c'" using on_frame_io [of f "c\<lparr>h2_rbuf := rest\<rparr>"] by metis
  then show ?case using 3 take_frame_shorter [of "h2_rbuf c" f rest] by (auto simp: same_io_def input_weight_def)
qed simp

declare poll_process.simps [simp del]

lemma poll_process_cases [case_names bad frame_bad frame pending broken eof more]:
  assumes "\<And>e. take_frame (h2_rbuf c) = Inl e \<Longrightarrow> poll_process c = (Ready (Inl e), c) \<Longrightarrow> P"
    and "\<And>f rest e c'. take_frame (h2_rbuf c) = Inr (Some f, rest) \<Longrightarrow> on_frame f (c\<lparr>h2_rbuf := rest\<rparr>) = (Inl e, c') \<Longrightarrow>
      poll_process c = (Ready (Inl e), c') \<Longrightarrow> P"
    and "\<And>f rest c'. take_frame (h2_rbuf c) = Inr (Some f, rest) \<Longrightarrow> on_frame f (c\<lparr>h2_rbuf := rest\<rparr>) = (Inr (), c') \<Longrightarrow>
      poll_process c = poll_process c' \<Longrightarrow> P"
    and "\<And>t. take_frame (h2_rbuf c) = Inr (None, h2_rbuf c) \<Longrightarrow> poll_read (h2_inner c) read_room = (Pending, t) \<Longrightarrow>
      poll_process c = (Pending, c\<lparr>h2_inner := t\<rparr>) \<Longrightarrow> P"
    and "\<And>t e. take_frame (h2_rbuf c) = Inr (None, h2_rbuf c) \<Longrightarrow> poll_read (h2_inner c) read_room = (Ready (Inl e), t) \<Longrightarrow>
      poll_process c = (Ready (Inl e), c\<lparr>h2_inner := t\<rparr>) \<Longrightarrow> P"
    and "\<And>t. take_frame (h2_rbuf c) = Inr (None, h2_rbuf c) \<Longrightarrow> poll_read (h2_inner c) read_room = (Ready (Inr []), t) \<Longrightarrow>
      poll_process c = (Ready (Inr ()), c\<lparr>h2_inner := t, h2_conn_eof := True\<rparr>) \<Longrightarrow> P"
    and "\<And>t bs. take_frame (h2_rbuf c) = Inr (None, h2_rbuf c) \<Longrightarrow> poll_read (h2_inner c) read_room = (Ready (Inr bs), t) \<Longrightarrow> bs \<noteq> [] \<Longrightarrow>
      poll_process c = poll_process (c\<lparr>h2_inner := t, h2_rbuf := h2_rbuf c @ bs\<rparr>) \<Longrightarrow> P"
  shows P
proof (cases "take_frame (h2_rbuf c)")
  case (Inl e)
  then show P using assms(1) by (simp add: poll_process.simps [of c])
next
  case (Inr fr)
  obtain fo rest where fr: "fr = (fo, rest)" by fastforce
  show P
  proof (cases fo)
    case (Some f)
    obtain r c' where o: "on_frame f (c\<lparr>h2_rbuf := rest\<rparr>) = (r, c')" by fastforce
    show P using assms(2,3) Inr fr Some o by (cases r) (auto simp: poll_process.simps [of c])
  next
    case None
    then have t: "take_frame (h2_rbuf c) = Inr (None, h2_rbuf c)" using take_frame_None Inr fr by auto
    obtain p t' where p: "poll_read (h2_inner c) read_room = (p, t')" by fastforce
    show P
    proof (cases p)
      case Pending
      then show P using assms(4) [OF t] p t by (simp add: poll_process.simps [of c])
    next
      case (Ready r)
      show P
      proof (cases r)
        case (Inl e)
        then show P using assms(5) [OF t] p t Ready by (simp add: poll_process.simps [of c])
      next
        case (Inr bs)
        then show P using assms(6,7) [OF t] p t Ready by (cases "bs = []") (auto simp: poll_process.simps [of c])
      qed
    qed
  qed
qed

lemma eof_weight: "input_weight (c\<lparr>h2_conn_eof := b\<rparr>) = input_weight c"
  by (simp add: input_weight_def)

text \<open>Processing consumes input; where there is none, it only notes the end of the socket.\<close>

lemma poll_process_weight:
  "poll_process c = (r, c') \<Longrightarrow> input_weight c' < input_weight c \<or> c' = c\<lparr>h2_conn_eof := True\<rparr> \<and> r = Ready (Inr ()) \<or>
     c' = c \<and> (\<exists>e. r = Ready (Inl e))"
proof (induction "input_weight c" arbitrary: c rule: less_induct)
  case less
  show ?case
  proof (cases c rule: poll_process_cases)
    case (bad e)
    then show ?thesis using less.prems by simp
  next
    case (frame_bad f rest e c1)
    have "c' = c1" using less.prems frame_bad(3) by simp
    then have "input_weight c' < input_weight c"
      using on_frame_io [OF frame_bad(2)] take_frame_shorter [OF frame_bad(1)] by (simp add: input_weight_def same_io_def)
    then show ?thesis by simp
  next
    case (frame f rest c1)
    then have "input_weight c1 < input_weight c"
      using on_frame_io [OF frame(2)] take_frame_shorter [OF frame(1)] by (simp add: input_weight_def same_io_def)
    moreover from this have "input_weight c' \<le> input_weight c1" using less(1) [of c1] less.prems frame(3) eof_weight [where c = c1] by auto
    ultimately show ?thesis by linarith
  next
    case (pending t)
    have "c' = c\<lparr>h2_inner := t\<rparr>" using less.prems pending(3) by simp
    then have "input_weight c' < input_weight c" using poll_read_backlog(2) [OF pending(2)] by (simp add: input_weight_def)
    then show ?thesis by simp
  next
    case (broken t e)
    have "c' = c\<lparr>h2_inner := t\<rparr>" using less.prems broken(3) by simp
    moreover have "tr_in (h2_inner c) = ReadError # tr_in t"
      using broken(2) by (auto simp: poll_read_def split: list.splits arrival.splits)
    ultimately have "input_weight c' < input_weight c" by (simp add: input_weight_def backlog_def)
    then show ?thesis by simp
  next
    case (eof t)
    have c': "c' = c\<lparr>h2_inner := t, h2_conn_eof := True\<rparr>" "r = Ready (Inr ())" using less.prems eof(3) by simp_all
    have "t = h2_inner c \<or> tr_in (h2_inner c) = Arrived [] # tr_in t"
      using eof(2) by (auto simp: poll_read_def read_room_def split: list.splits arrival.splits)
    then show ?thesis
    proof
      assume "tr_in (h2_inner c) = Arrived [] # tr_in t"
      then have "input_weight c' < input_weight c" by (simp add: c' input_weight_def backlog_def)
      then show ?thesis by simp
    qed (simp add: c')
  next
    case (more t bs)
    let ?c = "c\<lparr>h2_inner := t, h2_rbuf := h2_rbuf c @ bs\<rparr>"
    have "input_weight ?c < input_weight c"
      using poll_read_backlog(1) [OF more(2,3)] more(3) by (cases bs) (simp_all add: input_weight_def)
    moreover have "input_weight c' \<le> input_weight ?c"
      using less(1) [OF \<open>input_weight ?c < input_weight c\<close>] less.prems more(4) eof_weight [where c = ?c] by auto
    ultimately show ?thesis by linarith
  qed
qed

section \<open>The tunnel\<close>

record grpc_stream =
  gt_conn :: h2_conn
  gt_sendq :: bytes
  gt_close_after_drain :: bool
  gt_end_stream_sent :: bool

text \<open>Moving queued bytes into one DATA frame, within both windows.\<close>

definition send_data :: "nat \<Rightarrow> grpc_stream \<Rightarrow> grpc_stream" where
  "send_data n s =
    s\<lparr>gt_conn := (push_out FT_DATA 0 STREAM_ID (take n (gt_sendq s)) (gt_conn s))
        \<lparr>h2_conn_send_window := h2_conn_send_window (gt_conn s) - int n,
         h2_stream_send_window := h2_stream_send_window (gt_conn s) - int n\<rparr>,
      gt_sendq := drop n (gt_sendq s)\<rparr>"

definition send_end :: "grpc_stream \<Rightarrow> grpc_stream" where
  "send_end s = s\<lparr>gt_end_stream_sent := True, gt_conn := push_out FT_DATA FLAG_END_STREAM STREAM_ID [] (gt_conn s)\<rparr>"

definition poll_failed :: "'a poll \<Rightarrow> bool" where
  "poll_failed r = (case r of Ready (Inl _) \<Rightarrow> True | _ \<Rightarrow> False)"

lemma poll_process_progress:
  assumes "poll_process c = (r, c')" and "\<not> poll_failed r"
  shows "input_weight c' < input_weight c \<or> input_weight c' = input_weight c \<and> h2_out c' = h2_out c"
  using poll_process_weight [OF assms(1)] assms(2) by (auto simp: poll_failed_def input_weight_def)

lemma poll_write_in: "poll_write t buf = (r, t') \<Longrightarrow> tr_in t' = tr_in t"
  by (auto simp: poll_write_def split: list.splits write_event.splits)

definition drive_order :: "(grpc_stream \<times> grpc_stream) set" where
  "drive_order = measures [\<lambda>s. input_weight (gt_conn s), \<lambda>s. if gt_end_stream_sent s then 0 else 1, \<lambda>s. length (gt_sendq s),
    \<lambda>s. length (h2_out (gt_conn s))]"

lemma drive_order_wrote:
  assumes "poll_process (gt_conn s) = (r, c)" and "\<not> poll_failed r" and "h2_out c \<noteq> []"
    and "poll_write (h2_inner c) (h2_out c) = (w, t)" and "n \<noteq> 0"
  shows "(s\<lparr>gt_conn := c\<lparr>h2_inner := t, h2_out := drop n (h2_out c)\<rparr>\<rparr>, s) \<in> drive_order"
proof -
  have "input_weight (c\<lparr>h2_inner := t, h2_out := drop n (h2_out c)\<rparr>) = input_weight c"
    using poll_write_in [OF assms(4)] by (simp add: input_weight_def)
  then show ?thesis using assms poll_process_progress [OF assms(1,2)] by (auto simp: drive_order_def)
qed

lemma drive_order_data:
  assumes "poll_process (gt_conn s) = (r, c)" and "\<not> poll_failed r" and "0 < allowed" and "gt_sendq s \<noteq> []"
  shows "(send_data (min (min (nat allowed) MAX_FRAME) (length (gt_sendq s))) (s\<lparr>gt_conn := c\<rparr>), s) \<in> drive_order"
  using assms poll_process_progress [OF assms(1,2)]
  by (auto simp: drive_order_def send_data_def push_out_def input_weight_def MAX_FRAME_def)

lemma drive_order_finish:
  assumes "poll_process (gt_conn s) = (r, c)" and "\<not> poll_failed r" and "\<not> gt_end_stream_sent s"
  shows "(send_end (s\<lparr>gt_conn := c\<rparr>), s) \<in> drive_order"
  using assms poll_process_progress [OF assms(1,2)] by (auto simp: drive_order_def send_end_def push_out_def input_weight_def)

lemma wf_drive_order: "wf drive_order"
  by (simp add: drive_order_def)

function poll_drive :: "grpc_stream \<Rightarrow> unit poll \<times> grpc_stream" where
  "poll_drive s =
    (case poll_process (gt_conn s) of
       (r, c) \<Rightarrow>
         let s = s\<lparr>gt_conn := c\<rparr>; allowed = min (h2_conn_send_window c) (h2_stream_send_window c) in
         if poll_failed r then (r, s)
         else if h2_out c \<noteq> [] then
           (case poll_write (h2_inner c) (h2_out c) of
              (Pending, t) \<Rightarrow> (Pending, s\<lparr>gt_conn := c\<lparr>h2_inner := t\<rparr>\<rparr>)
            | (Ready (Inl e), t) \<Rightarrow> (Ready (Inl e), s\<lparr>gt_conn := c\<lparr>h2_inner := t\<rparr>\<rparr>)
            | (Ready (Inr n), t) \<Rightarrow>
                if n = 0 then (Ready (Inl (Io ''grpc: transport accepted zero bytes'')), s\<lparr>gt_conn := c\<lparr>h2_inner := t\<rparr>\<rparr>)
                else poll_drive (s\<lparr>gt_conn := c\<lparr>h2_inner := t, h2_out := drop n (h2_out c)\<rparr>\<rparr>))
         else if 0 < allowed \<and> gt_sendq s \<noteq> [] then
           poll_drive (send_data (min (min (nat allowed) MAX_FRAME) (length (gt_sendq s))) s)
         else if gt_close_after_drain s \<and> \<not> gt_end_stream_sent s \<and> gt_sendq s = [] then poll_drive (send_end s)
         else (Ready (Inr ()), s))"
  by pat_completeness auto
termination
proof (relation drive_order, goal_cases)
  case (2 s r c s1 _ w t _ n)
  then show ?case using drive_order_wrote [of s r c w t n] by simp
next
  case (3 s r c s1 allowed)
  then show ?case using drive_order_data [of s r c allowed] by simp
next
  case (4 s r c s1 allowed)
  then show ?case using drive_order_finish [of s r c] by simp
qed (rule wf_drive_order)

declare poll_drive.simps [simp del]

lemma poll_drive_cases [case_names failed pending broken zero wrote data finish idle]:
  assumes "\<And>r c. poll_process (gt_conn s) = (r, c) \<Longrightarrow> poll_failed r \<Longrightarrow> poll_drive s = (r, s\<lparr>gt_conn := c\<rparr>) \<Longrightarrow> P"
    and "\<And>r c t. poll_process (gt_conn s) = (r, c) \<Longrightarrow> \<not> poll_failed r \<Longrightarrow> poll_write (h2_inner c) (h2_out c) = (Pending, t) \<Longrightarrow>
      poll_drive s = (Pending, s\<lparr>gt_conn := c\<lparr>h2_inner := t\<rparr>\<rparr>) \<Longrightarrow> P"
    and "\<And>r c t e. poll_process (gt_conn s) = (r, c) \<Longrightarrow> \<not> poll_failed r \<Longrightarrow> poll_write (h2_inner c) (h2_out c) = (Ready (Inl e), t) \<Longrightarrow>
      poll_drive s = (Ready (Inl e), s\<lparr>gt_conn := c\<lparr>h2_inner := t\<rparr>\<rparr>) \<Longrightarrow> P"
    and "\<And>r c t. poll_process (gt_conn s) = (r, c) \<Longrightarrow> \<not> poll_failed r \<Longrightarrow> poll_write (h2_inner c) (h2_out c) = (Ready (Inr 0), t) \<Longrightarrow>
      poll_drive s = (Ready (Inl (Io ''grpc: transport accepted zero bytes'')), s\<lparr>gt_conn := c\<lparr>h2_inner := t\<rparr>\<rparr>) \<Longrightarrow> P"
    and "\<And>r c t n. poll_process (gt_conn s) = (r, c) \<Longrightarrow> \<not> poll_failed r \<Longrightarrow> h2_out c \<noteq> [] \<Longrightarrow>
      poll_write (h2_inner c) (h2_out c) = (Ready (Inr n), t) \<Longrightarrow> n \<noteq> 0 \<Longrightarrow>
      poll_drive s = poll_drive (s\<lparr>gt_conn := c\<lparr>h2_inner := t, h2_out := drop n (h2_out c)\<rparr>\<rparr>) \<Longrightarrow> P"
    and "\<And>r c allowed. poll_process (gt_conn s) = (r, c) \<Longrightarrow> \<not> poll_failed r \<Longrightarrow> h2_out c = [] \<Longrightarrow>
      allowed = min (h2_conn_send_window c) (h2_stream_send_window c) \<Longrightarrow> 0 < allowed \<Longrightarrow> gt_sendq s \<noteq> [] \<Longrightarrow>
      poll_drive s = poll_drive (send_data (min (min (nat allowed) MAX_FRAME) (length (gt_sendq s))) (s\<lparr>gt_conn := c\<rparr>)) \<Longrightarrow> P"
    and "\<And>r c. poll_process (gt_conn s) = (r, c) \<Longrightarrow> \<not> poll_failed r \<Longrightarrow> h2_out c = [] \<Longrightarrow> gt_close_after_drain s \<Longrightarrow>
      \<not> gt_end_stream_sent s \<Longrightarrow> gt_sendq s = [] \<Longrightarrow> poll_drive s = poll_drive (send_end (s\<lparr>gt_conn := c\<rparr>)) \<Longrightarrow> P"
    and "\<And>r c. poll_process (gt_conn s) = (r, c) \<Longrightarrow> \<not> poll_failed r \<Longrightarrow> h2_out c = [] \<Longrightarrow>
      gt_sendq s = [] \<or> h2_conn_send_window c \<le> 0 \<or> h2_stream_send_window c \<le> 0 \<Longrightarrow>
      poll_drive s = (Ready (Inr ()), s\<lparr>gt_conn := c\<rparr>) \<Longrightarrow> P"
  shows P
proof -
  obtain r c where pp: "poll_process (gt_conn s) = (r, c)" by fastforce
  note d = poll_drive.simps [of s, unfolded pp prod.case Let_def]
  consider "poll_failed r" | (out) "\<not> poll_failed r" "h2_out c \<noteq> []" | (clear) "\<not> poll_failed r" "h2_out c = []" by blast
  then show P
  proof cases
    case 1
    then show P using assms(1) [OF pp] d by simp
  next
    case out
    obtain p t where p: "poll_write (h2_inner c) (h2_out c) = (p, t)" by fastforce
    show P
    proof (cases p)
      case Pending
      then show P using assms(2) [OF pp out(1)] out p d by simp
    next
      case (Ready w)
      show P
      proof (cases w)
        case (Inl e)
        then show P using assms(3) [OF pp out(1)] out p d Ready by simp
      next
        case (Inr n)
        then show P using assms(4) [OF pp out(1)] assms(5) [OF pp out] out p d Ready by (cases "n = 0") simp_all
      qed
    qed
  next
    case clear
    let ?a = "min (h2_conn_send_window c) (h2_stream_send_window c)"
    show P
    proof (cases "0 < ?a \<and> gt_sendq s \<noteq> []")
      case True
      then show P using assms(6) [OF pp clear refl] clear d by simp
    next
      case False
      then have w: "gt_sendq s = [] \<or> h2_conn_send_window c \<le> 0 \<or> h2_stream_send_window c \<le> 0" by (auto simp: min_def split: if_splits)
      show P
      proof (cases "gt_close_after_drain s \<and> \<not> gt_end_stream_sent s \<and> gt_sendq s = []")
        case True
        then show P using assms(7) [OF pp clear] clear d False by simp
      next
        case fin: False
        then have "poll_drive s = (Ready (Inr ()), s\<lparr>gt_conn := c\<rparr>)" using d clear False by (auto simp del: min_less_iff_conj)
        then show P using assms(8) [OF pp clear w] by simp
      qed
    qed
  qed
qed

section \<open>The tunnel as a transition system\<close>

text \<open>
  What the poll functions do, in atomic steps: handle one frame, read or write the socket once, note its end, move
  queued bytes into a DATA frame, half-close, deliver bytes to the reader, accept a chunk of the writer, ask for
  the half-close. A run records what was accepted, handled, received and delivered.
\<close>

record tunnel =
  tn_accepted :: "bytes list"
  tn_frames :: "(raw_frame \<times> bool) list"
  tn_received :: bytes
  tn_delivered :: bytes
  tn_stream :: grpc_stream

definition received :: "bytes poll \<Rightarrow> bytes" where
  "received r = (case r of Ready (Inr bs) \<Rightarrow> bs | _ \<Rightarrow> [])"

definition written :: "nat poll \<Rightarrow> nat" where
  "written r = (case r of Ready (Inr n) \<Rightarrow> n | _ \<Rightarrow> 0)"

abbreviation tn_conn :: "tunnel \<Rightarrow> h2_conn" where
  "tn_conn t \<equiv> gt_conn (tn_stream t)"

definition with_conn :: "h2_conn \<Rightarrow> tunnel \<Rightarrow> tunnel" where
  "with_conn c t = t\<lparr>tn_stream := (tn_stream t)\<lparr>gt_conn := c\<rparr>\<rparr>"

inductive tunnel_step :: "tunnel \<Rightarrow> tunnel \<Rightarrow> bool" where
  t_frame: "take_frame (h2_rbuf (tn_conn t)) = Inr (Some f, rest) \<Longrightarrow> on_frame f ((tn_conn t)\<lparr>h2_rbuf := rest\<rparr>) = (r, c) \<Longrightarrow>
    tunnel_step t (with_conn c (t\<lparr>tn_frames := tn_frames t @ [(f, is_ok r)]\<rparr>))"
| t_read: "poll_read (h2_inner (tn_conn t)) read_room = (r, i) \<Longrightarrow>
    tunnel_step t (with_conn ((tn_conn t)\<lparr>h2_inner := i, h2_rbuf := h2_rbuf (tn_conn t) @ received r\<rparr>)
      (t\<lparr>tn_received := tn_received t @ received r\<rparr>))"
| t_eof: "tunnel_step t (with_conn ((tn_conn t)\<lparr>h2_conn_eof := True\<rparr>) t)"
| t_write: "poll_write (h2_inner (tn_conn t)) (h2_out (tn_conn t)) = (w, i) \<Longrightarrow>
    tunnel_step t (with_conn ((tn_conn t)\<lparr>h2_inner := i, h2_out := drop (written w) (h2_out (tn_conn t))\<rparr>) t)"
| t_data: "h2_out (tn_conn t) = [] \<Longrightarrow> 0 < n \<Longrightarrow> n \<le> MAX_FRAME \<Longrightarrow> n \<le> length (gt_sendq (tn_stream t)) \<Longrightarrow>
    int n \<le> h2_conn_send_window (tn_conn t) \<Longrightarrow> int n \<le> h2_stream_send_window (tn_conn t) \<Longrightarrow>
    tunnel_step t (t\<lparr>tn_stream := send_data n (tn_stream t)\<rparr>)"
| t_finish: "gt_sendq (tn_stream t) = [] \<Longrightarrow> gt_close_after_drain (tn_stream t) \<Longrightarrow> \<not> gt_end_stream_sent (tn_stream t) \<Longrightarrow>
    tunnel_step t (t\<lparr>tn_stream := send_end (tn_stream t)\<rparr>)"
| t_deliver: "tunnel_step t (with_conn ((tn_conn t)\<lparr>h2_plain := drop n (h2_plain (tn_conn t))\<rparr>)
    (t\<lparr>tn_delivered := tn_delivered t @ take n (h2_plain (tn_conn t))\<rparr>))"
| t_accept: "d \<noteq> [] \<Longrightarrow> length d \<le> WRITE_CHUNK \<Longrightarrow>
    tunnel_step t (t\<lparr>tn_accepted := tn_accepted t @ [d],
      tn_stream := (tn_stream t)\<lparr>gt_sendq := gt_sendq (tn_stream t) @ gun_message d\<rparr>\<rparr>)"
| t_close: "tunnel_step t (t\<lparr>tn_stream := (tn_stream t)\<lparr>gt_close_after_drain := True\<rparr>\<rparr>)"

definition quiet :: "tunnel \<Rightarrow> tunnel \<Rightarrow> bool" where
  "quiet t t' \<longleftrightarrow> tunnel_step\<^sup>*\<^sup>* t t' \<and> tn_accepted t' = tn_accepted t \<and> tn_delivered t' = tn_delivered t"

lemma quiet_refl [simp]: "quiet t t"
  by (simp add: quiet_def)

lemma quiet_trans: "quiet t u \<Longrightarrow> quiet u v \<Longrightarrow> quiet t v"
  by (auto simp: quiet_def)

lemma quiet_step: "tunnel_step t t' \<Longrightarrow> tn_accepted t' = tn_accepted t \<Longrightarrow> tn_delivered t' = tn_delivered t \<Longrightarrow> quiet t t'"
  by (simp add: quiet_def)

lemma with_conn_sel [simp]:
  "tn_accepted (with_conn c t) = tn_accepted t" "tn_delivered (with_conn c t) = tn_delivered t"
  "tn_received (with_conn c t) = tn_received t" "tn_frames (with_conn c t) = tn_frames t"
  "tn_stream (with_conn c t) = (tn_stream t)\<lparr>gt_conn := c\<rparr>"
  by (simp_all add: with_conn_def)

lemma poll_process_steps:
  "poll_process (tn_conn t) = (r, c') \<Longrightarrow> \<exists>t'. quiet t t' \<and> tn_stream t' = (tn_stream t)\<lparr>gt_conn := c'\<rparr>"
proof (induction "input_weight (tn_conn t)" arbitrary: t rule: less_induct)
  case less
  have self: "\<exists>t'. quiet t t' \<and> tn_stream t' = (tn_stream t)\<lparr>gt_conn := c'\<rparr>"
    if "quiet t u" "tn_stream u = (tn_stream t)\<lparr>gt_conn := c\<rparr>" "poll_process c = (r, c')" "input_weight c < input_weight (tn_conn t)" for u c
    using less(1) [of u] that quiet_trans [OF that(1)] by fastforce
  have read: "quiet t (with_conn ((tn_conn t)\<lparr>h2_inner := i, h2_rbuf := h2_rbuf (tn_conn t) @ received p\<rparr>)
      (t\<lparr>tn_received := tn_received t @ received p\<rparr>))" if "poll_read (h2_inner (tn_conn t)) read_room = (p, i)" for p i
    by (rule quiet_step [OF t_read [OF that]]) simp_all
  show ?case
  proof (cases "tn_conn t" rule: poll_process_cases)
    case (bad e)
    then have "c' = tn_conn t" using less.prems by simp
    then show ?thesis by (intro exI [of _ t]) simp
  next
    case (frame_bad f rest e c1)
    then show ?thesis using less.prems quiet_step [OF t_frame [OF frame_bad(1,2)]] by (intro exI conjI) auto
  next
    case (frame f rest c1)
    have "input_weight c1 < input_weight (tn_conn t)"
      using on_frame_io [OF frame(2)] take_frame_shorter [OF frame(1)] by (simp add: input_weight_def same_io_def)
    then show ?thesis using less.prems frame(3) by (intro self [OF quiet_step [OF t_frame [OF frame(1,2)]]]) simp_all
  next
    case (pending i)
    then show ?thesis using less.prems read [OF pending(2)] by (intro exI conjI) (auto simp: received_def)
  next
    case (broken i e)
    then show ?thesis using less.prems read [OF broken(2)] by (intro exI conjI) (auto simp: received_def)
  next
    case (eof i)
    let ?u = "with_conn ((tn_conn t)\<lparr>h2_inner := i, h2_rbuf := h2_rbuf (tn_conn t) @ received (Ready (Inr []))\<rparr>)
      (t\<lparr>tn_received := tn_received t @ received (Ready (Inr []))\<rparr>)"
    have "quiet ?u (with_conn ((tn_conn ?u)\<lparr>h2_conn_eof := True\<rparr>) ?u)" by (rule quiet_step [OF t_eof]) simp_all
    then have "quiet t (with_conn ((tn_conn ?u)\<lparr>h2_conn_eof := True\<rparr>) ?u)" by (rule quiet_trans [OF read [OF eof(2)]])
    then show ?thesis using less.prems eof(3) by (intro exI conjI) (auto simp: received_def)
  next
    case (more i bs)
    have "input_weight ((tn_conn t)\<lparr>h2_inner := i, h2_rbuf := h2_rbuf (tn_conn t) @ bs\<rparr>) < input_weight (tn_conn t)"
      using poll_read_backlog(1) [OF more(2,3)] more(3) by (cases bs) (simp_all add: input_weight_def)
    then show ?thesis using less.prems more(4) by (intro self [OF read [OF more(2)]]) (simp_all add: received_def)
  qed
qed

lemma poll_drive_steps: "\<exists>t'. quiet t t' \<and> tn_stream t' = snd (poll_drive (tn_stream t))"
proof (induction "tn_stream t" arbitrary: t rule: wf_induct_rule [OF wf_drive_order])
  case (1 t)
  have go: "\<exists>t'. quiet t t' \<and> tn_stream t' = snd (poll_drive (tn_stream t))"
    if "quiet t v" "(tn_stream v, tn_stream t) \<in> drive_order" "poll_drive (tn_stream t) = poll_drive (tn_stream v)" for v
    using 1 [OF that(2)] that quiet_trans [OF that(1)] by auto
  have proc: "\<exists>u. quiet t u \<and> tn_stream u = (tn_stream t)\<lparr>gt_conn := c\<rparr>" if "poll_process (tn_conn t) = (r, c)" for r c
    using poll_process_steps [OF that] .
  have wr: "\<exists>v. quiet t v \<and> tn_stream v = (tn_stream t)\<lparr>gt_conn := c\<lparr>h2_inner := i, h2_out := drop (written w) (h2_out c)\<rparr>\<rparr>"
    if p: "poll_process (tn_conn t) = (r, c)" and w: "poll_write (h2_inner c) (h2_out c) = (w, i)" for r c w i
  proof -
    obtain u where u: "quiet t u" "tn_stream u = (tn_stream t)\<lparr>gt_conn := c\<rparr>" using proc [OF p] by blast
    then have "poll_write (h2_inner (tn_conn u)) (h2_out (tn_conn u)) = (w, i)" using w by simp
    from quiet_trans [OF u(1) quiet_step [OF t_write [OF this]]] u(2) show ?thesis by (intro exI conjI) auto
  qed
  show ?case
  proof (cases "tn_stream t" rule: poll_drive_cases)
    case (failed r c)
    then show ?thesis using proc [OF failed(1)] by auto
  next
    case (pending r c i)
    then show ?thesis using wr [OF pending(1,3)] by (simp add: written_def)
  next
    case (broken r c i e)
    then show ?thesis using wr [OF broken(1,3)] by (simp add: written_def)
  next
    case (zero r c i)
    then show ?thesis using wr [OF zero(1,3)] by (simp add: written_def)
  next
    case (wrote r c i n)
    obtain v where v: "quiet t v" "tn_stream v = (tn_stream t)\<lparr>gt_conn := c\<lparr>h2_inner := i, h2_out := drop n (h2_out c)\<rparr>\<rparr>"
      using wr [OF wrote(1,4)] by (auto simp: written_def)
    then show ?thesis using go [OF v(1)] drive_order_wrote [OF wrote(1,2,3,4,5)] wrote(6) by simp
  next
    case (data r c allowed)
    obtain u where u: "quiet t u" "tn_stream u = (tn_stream t)\<lparr>gt_conn := c\<rparr>" using proc [OF data(1)] by blast
    let ?n = "min (min (nat allowed) MAX_FRAME) (length (gt_sendq (tn_stream t)))"
    have "tunnel_step u (u\<lparr>tn_stream := send_data ?n (tn_stream u)\<rparr>)"
      using u(2) data by (intro t_data) (auto simp: MAX_FRAME_def)
    then have "quiet t (u\<lparr>tn_stream := send_data ?n (tn_stream u)\<rparr>)" by (intro quiet_trans [OF u(1) quiet_step]) simp_all
    from go [OF this] show ?thesis using drive_order_data [OF data(1,2,5,6)] data(7) u(2) by simp
  next
    case (finish r c)
    obtain u where u: "quiet t u" "tn_stream u = (tn_stream t)\<lparr>gt_conn := c\<rparr>" using proc [OF finish(1)] by blast
    have "tunnel_step u (u\<lparr>tn_stream := send_end (tn_stream u)\<rparr>)" using u(2) finish by (intro t_finish) auto
    then have "quiet t (u\<lparr>tn_stream := send_end (tn_stream u)\<rparr>)" by (intro quiet_trans [OF u(1) quiet_step]) simp_all
    from go [OF this] show ?thesis using drive_order_finish [OF finish(1,2,5)] finish(7) u(2) by simp
  next
    case (idle r c)
    then show ?thesis using proc [OF idle(1)] by auto
  qed
qed

lemma tunnel_step_weight: "tunnel_step t t' \<Longrightarrow> input_weight (tn_conn t') \<le> input_weight (tn_conn t)"
proof (induction rule: tunnel_step.induct)
  case (t_frame t f rest r c)
  then show ?case using on_frame_io [OF t_frame(2)] take_frame_shorter [OF t_frame(1)] by (simp add: input_weight_def same_io_def)
next
  case (t_read t r i)
  consider (some) bs where "r = Ready (Inr bs)" "bs \<noteq> []" | (pending) "r = Pending" | (other) "received r = []" "r \<noteq> Pending"
  proof (cases r)
    case (Ready x)
    then show thesis using that by (cases x) (auto simp: received_def)
  qed (use that in simp)
  then show ?case
  proof cases
    case (some bs)
    then have "backlog (tr_in i) + length bs \<le> backlog (tr_in (h2_inner (tn_conn t)))" using t_read by (intro poll_read_backlog(1)) simp_all
    then show ?thesis by (simp add: some input_weight_def received_def)
  next
    case pending
    then show ?thesis using poll_read_backlog(2) [of _ _ i] t_read by (fastforce simp: input_weight_def received_def)
  next
    case other
    then have "backlog (tr_in i) \<le> backlog (tr_in (h2_inner (tn_conn t)))"
      using t_read by (auto simp: poll_read_def backlog_def received_def split: list.splits arrival.splits)
    then show ?thesis by (simp add: input_weight_def other)
  qed
next
  case (t_write t w i)
  then show ?case using poll_write_in [OF t_write(1)] by (simp add: input_weight_def)
qed (simp_all add: input_weight_def send_data_def send_end_def push_out_def)

lemma quiet_weight: "quiet t t' \<Longrightarrow> input_weight (tn_conn t') \<le> input_weight (tn_conn t)"
proof -
  have "tunnel_step\<^sup>*\<^sup>* t t' \<Longrightarrow> input_weight (tn_conn t') \<le> input_weight (tn_conn t)"
    by (induction rule: rtranclp_induct) (auto dest: tunnel_step_weight)
  then show "quiet t t' \<Longrightarrow> ?thesis" by (simp add: quiet_def)
qed

text \<open>A run that starts at a stream.\<close>

definition tunnel_at :: "grpc_stream \<Rightarrow> tunnel" where
  "tunnel_at s = \<lparr>tn_accepted = [], tn_frames = [], tn_received = [], tn_delivered = [], tn_stream = s\<rparr>"

lemma poll_drive_weight: "poll_drive s = (r, s') \<Longrightarrow> input_weight (gt_conn s') \<le> input_weight (gt_conn s)"
  using poll_drive_steps [of "tunnel_at s"] quiet_weight [of "tunnel_at s"] by (force simp: tunnel_at_def)

section \<open>The stream operations\<close>

function grpc_write_loop :: "grpc_stream \<Rightarrow> bytes \<Rightarrow> nat \<Rightarrow> nat poll \<times> grpc_stream" where
  "grpc_write_loop s buf accepted =
    (case poll_drive s of
       (Ready (Inl e), s) \<Rightarrow> (Ready (Inl e), s)
     | (Pending, s) \<Rightarrow> (if 0 < accepted then Ready (Inr accepted) else Pending, s)
     | (Ready (Inr _), s) \<Rightarrow>
         let space = MAX_SEND_BACKLOG - length (gt_sendq s); n = min (min (length buf - accepted) WRITE_CHUNK) space in
         if accepted < length buf \<and> 0 < space then
           grpc_write_loop (s\<lparr>gt_sendq := gt_sendq s @ gun_message (take n (drop accepted buf))\<rparr>) buf (accepted + n)
         else if 0 < accepted then (Ready (Inr accepted), s)
         else (Pending, s))"
  by pat_completeness auto
termination
  by (relation "measure (\<lambda>(_, buf, accepted). length buf - accepted)") (auto simp: WRITE_CHUNK_def)

declare grpc_write_loop.simps [simp del]

definition grpc_poll_write :: "grpc_stream \<Rightarrow> bytes \<Rightarrow> nat poll \<times> grpc_stream" where
  "grpc_poll_write s buf = (if buf = [] then (Ready (Inr 0), s) else grpc_write_loop s buf 0)"

text \<open>Flushing and shutting down the transport itself never blocks here.\<close>

definition grpc_poll_flush :: "grpc_stream \<Rightarrow> unit poll \<times> grpc_stream" where
  "grpc_poll_flush s = poll_drive s"

definition grpc_poll_shutdown :: "grpc_stream \<Rightarrow> unit poll \<times> grpc_stream" where
  "grpc_poll_shutdown s =
    (case poll_drive (s\<lparr>gt_close_after_drain := True\<rparr>) of
       (Ready (Inr _), s) \<Rightarrow> (if \<not> gt_end_stream_sent s then Pending else Ready (Inr ()), s)
     | (r, s) \<Rightarrow> (r, s))"

text \<open>\<open>soft\<close> are the errors of kind \<open>BrokenPipe\<close> and \<open>WriteZero\<close>, which do not end the reading direction.\<close>

definition read_order :: "(grpc_stream \<times> grpc_stream) set" where
  "read_order = measures [\<lambda>s. input_weight (gt_conn s), \<lambda>s. if h2_conn_eof (gt_conn s) then 0 else 1]"

lemma read_order_frame:
  assumes "poll_drive s = (r, u)" and "take_frame (h2_rbuf (gt_conn u)) = Inr (Some f, rest)"
    and "on_frame f ((gt_conn u)\<lparr>h2_rbuf := rest\<rparr>) = (x, c)"
  shows "(u\<lparr>gt_conn := c\<rparr>, s) \<in> read_order"
  using poll_drive_weight [OF assms(1)] on_frame_io [OF assms(3)] take_frame_shorter [OF assms(2)]
  by (simp add: read_order_def input_weight_def same_io_def)

lemma read_order_pending:
  assumes "poll_drive s = (r, u)" and "poll_read (h2_inner (gt_conn u)) read_room = (Pending, i)"
  shows "(u\<lparr>gt_conn := (gt_conn u)\<lparr>h2_inner := i\<rparr>\<rparr>, s) \<in> read_order"
  using poll_drive_weight [OF assms(1)] poll_read_backlog(2) [OF assms(2)] by (simp add: read_order_def input_weight_def)

lemma read_order_bytes:
  assumes "poll_drive s = (r, u)" and "poll_read (h2_inner (gt_conn u)) read_room = (Ready (Inr bs), i)"
    and "\<not> h2_conn_eof (gt_conn s)"
  shows "(u\<lparr>gt_conn := (if bs = [] then (gt_conn u)\<lparr>h2_inner := i, h2_conn_eof := True\<rparr>
    else (gt_conn u)\<lparr>h2_inner := i, h2_rbuf := h2_rbuf (gt_conn u) @ bs\<rparr>)\<rparr>, s) \<in> read_order"
proof (cases bs)
  case Nil
  then have "backlog (tr_in i) \<le> backlog (tr_in (h2_inner (gt_conn u)))"
    using assms(2) by (auto simp: poll_read_def backlog_def split: list.splits arrival.splits)
  then show ?thesis using poll_drive_weight [OF assms(1)] assms(3) Nil by (auto simp: read_order_def input_weight_def)
next
  case (Cons b bs')
  then have "backlog (tr_in i) + length bs \<le> backlog (tr_in (h2_inner (gt_conn u)))" by (intro poll_read_backlog(1) [OF assms(2)]) simp
  then show ?thesis using poll_drive_weight [OF assms(1)] Cons by (simp add: read_order_def input_weight_def)
qed

function grpc_poll_read :: "(error \<Rightarrow> bool) \<Rightarrow> nat \<Rightarrow> grpc_stream \<Rightarrow> bytes poll \<times> grpc_stream" where
  "grpc_poll_read soft room s =
    (let c = gt_conn s in
     if h2_plain c \<noteq> [] then
       (let n = min (length (h2_plain c)) room in
        (Ready (Inr (take n (h2_plain c))), s\<lparr>gt_conn := c\<lparr>h2_plain := drop n (h2_plain c)\<rparr>\<rparr>))
     else if h2_stream_error c \<noteq> None then (Ready (Inl (Io (the (h2_stream_error c)))), s)
     else if h2_remote_end c then
       ((case h2_trailer_error c of Some e \<Rightarrow> Ready (Inl (Io e)) | None \<Rightarrow> Ready (Inr [])), s)
     else if h2_conn_eof c then (Ready (Inr []), s)
     else
       (case poll_drive s of
          (r, s) \<Rightarrow>
            if (case r of Ready (Inl e) \<Rightarrow> \<not> soft e | _ \<Rightarrow> False) then
              (case r of Ready (Inl e) \<Rightarrow> (Ready (Inl e), s) | _ \<Rightarrow> (Pending, s))
            else
              let c = gt_conn s in
              (case take_frame (h2_rbuf c) of
                 Inl e \<Rightarrow> (Ready (Inl e), s)
               | Inr (Some f, rest) \<Rightarrow>
                   (case on_frame f (c\<lparr>h2_rbuf := rest\<rparr>) of
                      (Inl e, c) \<Rightarrow> (Ready (Inl e), s\<lparr>gt_conn := c\<rparr>)
                    | (Inr _, c) \<Rightarrow> grpc_poll_read soft room (s\<lparr>gt_conn := c\<rparr>))
               | Inr (None, _) \<Rightarrow>
                   (case poll_read (h2_inner c) read_room of
                      (Pending, t) \<Rightarrow>
                        let s = s\<lparr>gt_conn := c\<lparr>h2_inner := t\<rparr>\<rparr> in
                        if h2_plain c \<noteq> [] \<or> h2_remote_end c \<or> h2_conn_eof c \<or> h2_stream_error c \<noteq> None
                        then grpc_poll_read soft room s else (Pending, s)
                    | (Ready (Inl e), t) \<Rightarrow> (Ready (Inl e), s\<lparr>gt_conn := c\<lparr>h2_inner := t\<rparr>\<rparr>)
                    | (Ready (Inr bs), t) \<Rightarrow>
                        grpc_poll_read soft room
                          (s\<lparr>gt_conn := (if bs = [] then c\<lparr>h2_inner := t, h2_conn_eof := True\<rparr>
                             else c\<lparr>h2_inner := t, h2_rbuf := h2_rbuf c @ bs\<rparr>)\<rparr>)))))"
  by pat_completeness auto
termination
proof (relation "inv_image read_order (\<lambda>(_, _, s). s)", goal_cases)
  case 1
  then show ?case by (simp add: read_order_def)
next
  case (2 soft room s c r u c' _ _ _ _ i)
  then show ?case using read_order_pending [of s r u i] by simp
next
  case (3 soft room s c r u c' _ _ _ _ i _ bs)
  then show ?case using read_order_bytes [of s r u bs i] by (cases "bs = []"; simp)
next
  case (4 soft room s c r u c' _ _ rest f x c2)
  then show ?case using read_order_frame [of s r u f rest x c2] by simp
qed

declare grpc_poll_read.simps [simp del]

section \<open>Dialing\<close>

record grpc_settings =
  gr_service_name :: string
  gr_host :: "string option"

definition PREFACE :: bytes where
  "PREFACE = (let crlf = [CHR 0x0D, CHR 0x0A] in as_bytes (''PRI * HTTP/2.0'' @ crlf @ crlf @ ''SM'' @ crlf @ crlf))"

text \<open>A write that is not ready is awaited, which means polled again.\<close>

function flush_out :: "h2_conn \<Rightarrow> h2_step" where
  "flush_out c =
    (if h2_out c = [] then (Inr (), c)
     else case poll_write (h2_inner c) (h2_out c) of
       (Pending, i) \<Rightarrow> flush_out (c\<lparr>h2_inner := i\<rparr>)
     | (Ready (Inl e), i) \<Rightarrow> (Inl e, c\<lparr>h2_inner := i\<rparr>)
     | (Ready (Inr n), i) \<Rightarrow>
         if n = 0 then (Inl (Network ''grpc: transport accepted zero bytes''), c\<lparr>h2_inner := i\<rparr>)
         else flush_out (c\<lparr>h2_inner := i, h2_out := drop n (h2_out c)\<rparr>))"
  by pat_completeness auto
termination
  by (relation "measure (\<lambda>c. length (tr_script (h2_inner c)) + length (h2_out c))")
    (auto simp: poll_write_def split: list.splits write_event.splits)

function drain_frames :: "h2_conn \<Rightarrow> h2_step" where
  "drain_frames c =
    (case take_frame (h2_rbuf c) of
       Inl e \<Rightarrow> (Inl e, c)
     | Inr (None, _) \<Rightarrow> (Inr (), c)
     | Inr (Some f, rest) \<Rightarrow>
         (case on_frame f (c\<lparr>h2_rbuf := rest\<rparr>) of
            (Inl e, c) \<Rightarrow> (Inl e, c)
          | (Inr _, c) \<Rightarrow> drain_frames c))"
  by pat_completeness auto
termination
proof (relation "measure (\<lambda>c. length (h2_rbuf c))", goal_cases)
  case (2 c _ _ rest f x c')
  then have "same_io (c\<lparr>h2_rbuf := rest\<rparr>) c'" using on_frame_io [of f "c\<lparr>h2_rbuf := rest\<rparr>" x c'] by simp
  then show ?case using 2 take_frame_shorter [of "h2_rbuf c" f rest] by (simp add: same_io_def)
qed simp

declare flush_out.simps [simp del] drain_frames.simps [simp del]

definition client_settings :: bytes where
  "client_settings =
    concat (map (\<lambda>(n, v). u16_be n @ u32_be v) [(2, 0), (4, 4194304), (5, 16384), (6, 10485760)])"

definition request_headers :: "string \<Rightarrow> string \<Rightarrow> (string \<times> string) list" where
  "request_headers host path =
    [('':method'', ''POST''), ('':scheme'', ''https''), ('':authority'', host), ('':path'', path),
     (''content-type'', ''application/grpc''), (''te'', ''trailers''), (''user-agent'', ''rustcrash-grpc'')]"

definition grpc_connect :: "transport \<Rightarrow> grpc_settings \<Rightarrow> string \<Rightarrow> grpc_stream result" where
  "grpc_connect inner settings default_host =
    (let service = trim_end_matches CHR ''/'' (trim_start_matches CHR ''/'' (gr_service_name settings)) in
     if service = [] then Inl (Config ''grpc: empty service name'')
     else
       let host = (case gr_host settings of Some h \<Rightarrow> h | None \<Rightarrow> default_host);
           block = hpack_encode (request_headers host (''/'' @ service @ ''/Tun''));
           c = h2_new inner;
           c = c\<lparr>h2_out := h2_out c @ PREFACE\<rparr>;
           c = push_out FT_SETTINGS 0 0 client_settings c;
           c = push_out FT_WINDOW_UPDATE 0 0 (u32_be (word_of_int (CONN_WINDOW - DEFAULT_WINDOW))) c;
           c = push_out FT_HEADERS FLAG_END_HEADERS STREAM_ID block c
       in
       (case flush_out c of
          (Inl e, _) \<Rightarrow> Inl e
        | (Inr _, c) \<Rightarrow>
            (case drain_frames c of
               (Inl e, _) \<Rightarrow> Inl e
             | (Inr _, c) \<Rightarrow>
                 Inr \<lparr>gt_conn = c, gt_sendq = [], gt_close_after_drain = False, gt_end_stream_sent = False\<rparr>)))"

section \<open>The operations are sequences of steps\<close>

lemma poll_drive_quiet:
  assumes "poll_drive (tn_stream t) = (r, s)"
  obtains u where "quiet t u" "tn_stream u = s"
  using poll_drive_steps [of t] assms by auto

lemma grpc_write_loop_steps:
  "grpc_write_loop (tn_stream t) buf a = (r, s') \<Longrightarrow>
   \<exists>t' k. tunnel_step\<^sup>*\<^sup>* t t' \<and> tn_stream t' = s' \<and> tn_delivered t' = tn_delivered t \<and>
     concat (tn_accepted t') = concat (tn_accepted t) @ take k (drop a buf) \<and> k \<le> length buf - a \<and>
     (\<forall>n. r = Ready (Inr n) \<longrightarrow> n = a + k) \<and> (r = Pending \<longrightarrow> k = 0 \<and> a = 0)"
proof (induction "length buf - a" arbitrary: t a rule: less_induct)
  case less
  obtain d s where d: "poll_drive (tn_stream t) = (d, s)" by fastforce
  obtain u where u: "quiet t u" "tn_stream u = s" using poll_drive_quiet [OF d] .
  note e = grpc_write_loop.simps [of "tn_stream t" buf a, unfolded d prod.case]
  have stop: ?case if "s' = s" "\<forall>n. r = Ready (Inr n) \<longrightarrow> n = a" "r = Pending \<longrightarrow> a = 0"
    using that u by (intro exI [of _ u] exI [of _ 0]) (auto simp: quiet_def)
  show ?case
  proof (cases d)
    case Pending
    then show ?thesis using less.prems e by (intro stop) (auto split: if_splits)
  next
    case (Ready x)
    show ?thesis
    proof (cases x)
      case (Inl err)
      then show ?thesis using less.prems e Ready by (intro stop) auto
    next
      case (Inr y)
      define space where "space = MAX_SEND_BACKLOG - length (gt_sendq s)"
      define n where "n = min (min (length buf - a) WRITE_CHUNK) space"
      show ?thesis
      proof (cases "a < length buf \<and> 0 < space")
        case False
        then show ?thesis using less.prems e Ready Inr by (intro stop) (auto simp: Let_def space_def split: if_splits)
      next
        case True
        then have n: "0 < n" "n \<le> length buf - a" "n \<le> WRITE_CHUNK" by (auto simp: n_def WRITE_CHUNK_def)
        define d where "d = take n (drop a buf)"
        have ld: "length d = n" using n by (simp add: d_def)
        let ?v = "u\<lparr>tn_accepted := tn_accepted u @ [d], tn_stream := (tn_stream u)\<lparr>gt_sendq := gt_sendq (tn_stream u) @ gun_message d\<rparr>\<rparr>"
        have "d \<noteq> []" "length d \<le> WRITE_CHUNK" using ld n by auto
        then have v: "tunnel_step\<^sup>*\<^sup>* t ?v" using t_accept [of d u] u(1) by (auto simp: quiet_def)
        have r: "grpc_write_loop (tn_stream ?v) buf (a + n) = (r, s')"
          using less.prems e Ready Inr True u(2) by (simp add: Let_def space_def n_def d_def)
        have "length buf - (a + n) < length buf - a" using n True by linarith
        from less(1) [OF this r] obtain t' k where t': "tunnel_step\<^sup>*\<^sup>* ?v t'" "tn_stream t' = s'" "tn_delivered t' = tn_delivered ?v"
          "concat (tn_accepted t') = concat (tn_accepted ?v) @ take k (drop (a + n) buf)" "k \<le> length buf - (a + n)"
          "\<forall>m. r = Ready (Inr m) \<longrightarrow> m = a + n + k" "r \<noteq> Pending"
          using n by auto
        have "concat (tn_accepted t') = concat (tn_accepted t) @ take (n + k) (drop a buf)"
          using t'(4) u(1) by (simp add: d_def take_add quiet_def add.commute [of n a])
        moreover have "tn_delivered t' = tn_delivered t" using t'(3) u(1) by (simp add: quiet_def)
        moreover have "n + k \<le> length buf - a" using t'(5) n(2) by linarith
        moreover have "\<forall>m. r = Ready (Inr m) \<longrightarrow> m = a + (n + k)" using t'(6) by (simp add: add.assoc)
        moreover have "tunnel_step\<^sup>*\<^sup>* t t'" using v t'(1) by simp
        ultimately show ?thesis using t'(2,7) by blast
      qed
    qed
  qed
qed

lemma wf_read_order: "wf read_order"
  by (simp add: read_order_def)

lemma grpc_poll_read_steps:
  "grpc_poll_read soft room (tn_stream t) = (r, s') \<Longrightarrow>
   \<exists>t'. tunnel_step\<^sup>*\<^sup>* t t' \<and> tn_stream t' = s' \<and> tn_accepted t' = tn_accepted t \<and>
     tn_delivered t' = tn_delivered t @ received r"
proof (induction "tn_stream t" arbitrary: t rule: wf_induct_rule [OF wf_read_order])
  case (1 t)
  let ?c = "tn_conn t"
  obtain d s where d: "poll_drive (tn_stream t) = (d, s)" by fastforce
  obtain u where u: "quiet t u" "tn_stream u = s" using poll_drive_quiet [OF d] .
  note e = grpc_poll_read.simps [of soft room "tn_stream t", unfolded Let_def d prod.case]
  have stay: ?case if "s' = tn_stream t" "received r = []" using that by (intro exI [of _ t]) simp
  have quiet: ?case if "quiet t v" "tn_stream v = s'" "received r = []" for v using that by (auto simp: quiet_def)
  have go: ?case if v: "quiet t v" "(tn_stream v, tn_stream t) \<in> read_order" "grpc_poll_read soft room (tn_stream v) = (r, s')" for v
  proof -
    obtain t' where "tunnel_step\<^sup>*\<^sup>* v t'" "tn_stream t' = s'" "tn_accepted t' = tn_accepted v" "tn_delivered t' = tn_delivered v @ received r"
      using 1(1) [OF v(2) v(3)] by blast
    then show ?thesis using v(1) by (intro exI [of _ t']) (auto simp: quiet_def)
  qed
  show ?case
  proof (cases "h2_plain ?c = []")
    case False
    let ?n = "min (length (h2_plain ?c)) room"
    have "r = Ready (Inr (take ?n (h2_plain ?c)))" "s' = (tn_stream t)\<lparr>gt_conn := ?c\<lparr>h2_plain := drop ?n (h2_plain ?c)\<rparr>\<rparr>"
      using 1(2) False unfolding e by (simp_all del: take_eq_Nil drop_eq_Nil)
    moreover have "tunnel_step t (with_conn (?c\<lparr>h2_plain := drop ?n (h2_plain ?c)\<rparr>)
        (t\<lparr>tn_delivered := tn_delivered t @ take ?n (h2_plain ?c)\<rparr>))" by (rule t_deliver)
    ultimately show ?thesis
      by (intro exI [of _ "with_conn (?c\<lparr>h2_plain := drop ?n (h2_plain ?c)\<rparr>) (t\<lparr>tn_delivered := tn_delivered t @ take ?n (h2_plain ?c)\<rparr>)"])
        (simp add: received_def r_into_rtranclp)
  next
    case True
    consider (over) "h2_stream_error ?c \<noteq> None \<or> h2_remote_end ?c \<or> h2_conn_eof ?c"
      | (live) "h2_stream_error ?c = None" "\<not> h2_remote_end ?c" "\<not> h2_conn_eof ?c" by blast
    then show ?thesis
    proof cases
      case over
      then show ?thesis using 1(2) True unfolding e
        by (intro stay) (auto simp: received_def split: if_splits option.splits)
    next
      case live
      let ?hard = "case d of Ready (Inl e) \<Rightarrow> \<not> soft e | _ \<Rightarrow> False"
      note f = 1(2) [unfolded e, simplified True live, simplified]
      show ?thesis
      proof (cases ?hard)
        case True
        then show ?thesis using f u by (intro quiet [OF u(1)]) (auto simp: received_def split: poll.splits sum.splits)
      next
        case False
        note g = f [simplified False, simplified]
        have dr: "poll_drive (tn_stream t) = (d, tn_stream u)" using d u(2) by simp
        show ?thesis
        proof (cases "take_frame (h2_rbuf (tn_conn u))")
          case (Inl err)
          then show ?thesis using g u by (intro quiet [OF u(1)]) (auto simp: received_def)
        next
          case (Inr fr)
          obtain fo rest where fr: "fr = (fo, rest)" by fastforce
          show ?thesis
          proof (cases fo)
            case (Some fm)
            obtain x c where x: "on_frame fm ((tn_conn u)\<lparr>h2_rbuf := rest\<rparr>) = (x, c)" by fastforce
            have tf: "take_frame (h2_rbuf (tn_conn u)) = Inr (Some fm, rest)" using Inr fr Some by simp
            let ?v = "with_conn c (u\<lparr>tn_frames := tn_frames u @ [(fm, is_ok x)]\<rparr>)"
            have q: "quiet t ?v" by (intro quiet_trans [OF u(1)] quiet_step [OF t_frame [OF tf x]]) simp_all
            show ?thesis
            proof (cases x)
              case (Inl err)
              then show ?thesis using g tf x u(2) by (intro quiet [OF q]) (auto simp: received_def)
            next
              case Inr
              then show ?thesis using g tf x u(2) read_order_frame [OF dr tf x] by (intro go [OF q]) auto
            qed
          next
            case None
            have tf: "take_frame (h2_rbuf (tn_conn u)) = Inr (None, rest)" using Inr fr None by simp
            obtain p i where p: "poll_read (h2_inner (tn_conn u)) read_room = (p, i)" by fastforce
            let ?v = "with_conn ((tn_conn u)\<lparr>h2_inner := i, h2_rbuf := h2_rbuf (tn_conn u) @ received p\<rparr>)
              (u\<lparr>tn_received := tn_received u @ received p\<rparr>)"
            have q: "quiet t ?v" by (intro quiet_trans [OF u(1)] quiet_step [OF t_read [OF p]]) simp_all
            show ?thesis
            proof (cases p)
              case Pending
              have vs: "tn_stream ?v = s\<lparr>gt_conn := (gt_conn s)\<lparr>h2_inner := i\<rparr>\<rparr>" using u(2) by (simp add: Pending received_def)
              have less: "(tn_stream ?v, tn_stream t) \<in> read_order"
                unfolding vs using read_order_pending [OF dr p [unfolded Pending]] u(2) by simp
              have h: "(if h2_plain (gt_conn s) \<noteq> [] \<or> h2_remote_end (gt_conn s) \<or> h2_conn_eof (gt_conn s) \<or> h2_stream_error (gt_conn s) \<noteq> None
                then grpc_poll_read soft room (tn_stream ?v) else (Pending, tn_stream ?v)) = (r, s')"
                unfolding vs using g tf p u(2) Pending by simp
              show ?thesis
              proof (cases "h2_plain (gt_conn s) \<noteq> [] \<or> h2_remote_end (gt_conn s) \<or> h2_conn_eof (gt_conn s) \<or> h2_stream_error (gt_conn s) \<noteq> None")
                case True
                then show ?thesis using h by (intro go [OF q less]) simp
              next
                case False
                then have "r = Pending" "tn_stream ?v = s'" using h by simp_all
                then show ?thesis by (intro quiet [OF q]) (simp_all add: received_def)
              qed
            next
              case (Ready x)
              show ?thesis
              proof (cases x)
                case (Inl err)
                then show ?thesis using g tf p u(2) Ready by (intro quiet [OF q]) (auto simp: received_def)
              next
                case (Inr bs)
                let ?w = "if bs = [] then with_conn ((tn_conn ?v)\<lparr>h2_conn_eof := True\<rparr>) ?v else ?v"
                have ws: "tn_stream ?w = s\<lparr>gt_conn := (if bs = [] then (gt_conn s)\<lparr>h2_inner := i, h2_conn_eof := True\<rparr>
                    else (gt_conn s)\<lparr>h2_inner := i, h2_rbuf := h2_rbuf (gt_conn s) @ bs\<rparr>)\<rparr>"
                  using u(2) by (simp add: Ready Inr received_def)
                have "quiet ?v (with_conn ((tn_conn ?v)\<lparr>h2_conn_eof := True\<rparr>) ?v)" by (rule quiet_step [OF t_eof]) simp_all
                then have qw: "quiet t ?w" using q quiet_trans by (cases "bs = []") auto
                have "(tn_stream ?w, tn_stream t) \<in> read_order"
                  unfolding ws using read_order_bytes [OF dr p [unfolded Ready Inr] live(3), unfolded u(2)] by simp
                moreover have "grpc_poll_read soft room (tn_stream ?w) = (r, s')"
                  unfolding ws using g tf p u(2) Ready Inr by simp
                ultimately show ?thesis by (rule go [OF qw])
              qed
            qed
          qed
        qed
      qed
    qed
  qed
qed

end
