(* ===== verification/Grpc_Flow.thy ===== *)
theory Grpc_Flow
  imports Grpc
begin

unbundle bit_operations_syntax

text \<open>
  What the gRPC tunnel of src/engine/src/grpc.rs promises, over every schedule of the socket and every
  sequence of operations: the frames it writes carry the accepted bytes once and in order, their DATA stays within the
  connection's credit, and the reader gets what the peer's DATA frames hold. The invariants are proved by rule
  induction over the steps of the theory Grpc, which the operations are sequences of.
\<close>

section \<open>Frames on the wire\<close>

definition frame_bytes :: "raw_frame \<Rightarrow> bytes" where
  "frame_bytes f = (case f of (kind, flags, stream, payload) \<Rightarrow> put_frame [] kind flags stream payload)"

definition frames_bytes :: "raw_frame list \<Rightarrow> bytes" where
  "frames_bytes fs = concat (map frame_bytes fs)"

definition data_payloads :: "raw_frame list \<Rightarrow> bytes list" where
  "data_payloads fs = map (\<lambda>(_, _, _, payload). payload) (filter (\<lambda>(kind, _, _, _). kind = FT_DATA) fs)"

definition wire_frame :: "raw_frame \<Rightarrow> bool" where
  "wire_frame f = (case f of (_, _, stream, payload) \<Rightarrow> length payload \<le> MAX_FRAME \<and> stream \<in> {0, STREAM_ID})"

definition window_credit :: "u32 \<Rightarrow> (raw_frame \<times> bool) list \<Rightarrow> int" where
  "window_credit stream fs =
    sum_list (map (\<lambda>((kind, _, s, p), ok).
      if ok \<and> kind = FT_WINDOW_UPDATE \<and> s = stream then int (unat (u32_from (p ! 0) (p ! 1) (p ! 2) (p ! 3) AND 0x7fffffff)) else 0) fs)"

lemma frames_bytes_simps [simp]:
  "frames_bytes [] = []" "frames_bytes (f # fs) = frame_bytes f @ frames_bytes fs" "frames_bytes (fs @ gs) = frames_bytes fs @ frames_bytes gs"
  by (simp_all add: frames_bytes_def)

lemma data_payloads_simps [simp]:
  "data_payloads [] = []" "data_payloads (fs @ gs) = data_payloads fs @ data_payloads gs"
  "data_payloads ((k, fl, s, p) # fs) = (if k = FT_DATA then p # data_payloads fs else data_payloads fs)"
  by (simp_all add: data_payloads_def)

lemma window_credit_simps [simp]:
  "window_credit stream [] = 0" "window_credit stream (fs @ gs) = window_credit stream fs + window_credit stream gs"
  by (simp_all add: window_credit_def)

section \<open>What a handler may write\<close>

definition control :: "h2_conn \<Rightarrow> h2_conn \<Rightarrow> bool" where
  "control c c' \<longleftrightarrow> (\<exists>gs. h2_out c' = h2_out c @ frames_bytes gs \<and> list_all wire_frame gs \<and> data_payloads gs = [])"

definition same_send :: "h2_conn \<Rightarrow> h2_conn \<Rightarrow> bool" where
  "same_send c c' \<longleftrightarrow> h2_conn_send_window c' = h2_conn_send_window c \<and> h2_stream_send_window c' = h2_stream_send_window c \<and>
    h2_peer_initial_window c' = h2_peer_initial_window c"

lemma control_same: "h2_out c' = h2_out c \<Longrightarrow> control c c'"
  unfolding control_def by (rule exI [of _ "[]"]) simp

lemma control_push: "control c c' \<Longrightarrow> wire_frame (k, fl, s, p) \<Longrightarrow> k \<noteq> FT_DATA \<Longrightarrow> control c (push_out k fl s p c')"
  unfolding control_def push_out_def
  by (elim exE, rule_tac x = "gs @ [(k, fl, s, p)]" in exI)
    (subst put_frame_append, simp add: frame_bytes_def)

lemma control_out: "control c c' \<Longrightarrow> h2_out c'' = h2_out c' \<Longrightarrow> control c c''"
  by (simp add: control_def)

lemma same_send_push [simp]: "same_send c (push_out k fl s p c') = same_send c c'"
  by (simp add: same_send_def push_out_def)

lemma window_update_wire [simp]:
  "wire_frame (FT_WINDOW_UPDATE, fl, STREAM_ID, u32_be w)" "wire_frame (FT_WINDOW_UPDATE, fl, 0, u32_be w)"
  by (simp_all add: wire_frame_def MAX_FRAME_def be_bytes_4)

lemma not_data [simp]: "FT_WINDOW_UPDATE \<noteq> FT_DATA" "FT_SETTINGS \<noteq> FT_DATA" "FT_PING \<noteq> FT_DATA" "FT_HEADERS \<noteq> FT_DATA"
  by (simp_all add: frame_consts)

lemma push_out_sel [simp]:
  "h2_conn_send_window (push_out k fl s p c) = h2_conn_send_window c"
  "h2_stream_send_window (push_out k fl s p c) = h2_stream_send_window c"
  "h2_peer_initial_window (push_out k fl s p c) = h2_peer_initial_window c"
  "h2_conn_recv_window (push_out k fl s p c) = h2_conn_recv_window c"
  "h2_stream_recv_window (push_out k fl s p c) = h2_stream_recv_window c"
  "h2_plain (push_out k fl s p c) = h2_plain c" "h2_carry (push_out k fl s p c) = h2_carry c"
  "h2_remote_end (push_out k fl s p c) = h2_remote_end c"
  "h2_inner (push_out k fl s p c) = h2_inner c" "h2_rbuf (push_out k fl s p c) = h2_rbuf c"
  by (simp_all add: push_out_def)

lemma account_recv_control: "control c (account_recv n c) \<and> same_send c (account_recv n c)"
proof -
  let ?c = "c\<lparr>h2_conn_recv_window := h2_conn_recv_window c - n, h2_stream_recv_window := h2_stream_recv_window c - n\<rparr>"
  have s: "control c (if b then (push_out FT_WINDOW_UPDATE 0 STREAM_ID (u32_be w) d)\<lparr>h2_stream_recv_window := x\<rparr> else d)"
    if "control c d" for b w d x using control_out [OF control_push [OF that, of FT_WINDOW_UPDATE 0 STREAM_ID "u32_be w"]] that by simp
  have z: "control c (if b then (push_out FT_WINDOW_UPDATE 0 0 (u32_be w) d)\<lparr>h2_conn_recv_window := x\<rparr> else d)"
    if "control c d" for b w d x using control_out [OF control_push [OF that, of FT_WINDOW_UPDATE 0 0 "u32_be w"]] that by simp
  have "control c ?c" "control c c" by (rule control_same, simp)+
  then have "control c (account_recv n c)" unfolding account_recv_def Let_def by (simp only: s z split: if_split) simp
  moreover have "same_send c (account_recv n c)" by (simp add: account_recv_def Let_def same_send_def)
  ultimately show ?thesis by simp
qed

lemma on_data_control: "on_data fl p c = (r, c') \<Longrightarrow> control c c' \<and> same_send c c'"
  using account_recv_control [of c "int (length p)"]
  by (auto simp: on_data_def Let_def control_same same_send_def intro: control_out split: sum.splits prod.splits)

lemma finish_header_block_control: "finish_header_block c = (r, c') \<Longrightarrow> h2_out c' = h2_out c \<and> same_send c c'"
  by (auto simp: finish_header_block_def Let_def same_send_def split: sum.splits prod.splits option.splits if_splits)

lemma on_headers_control: "on_headers fl p c = (r, c') \<Longrightarrow> control c c' \<and> same_send c c'"
  by (auto simp: on_headers_def Let_def same_send_def intro!: control_same split: sum.splits if_splits
      dest!: finish_header_block_control)

lemma on_continuation_control: "on_continuation fl p c = (r, c') \<Longrightarrow> control c c' \<and> same_send c c'"
  by (auto simp: on_continuation_def Let_def same_send_def intro!: control_same split: if_splits
      dest!: finish_header_block_control)

lemma apply_settings_control:
  "apply_settings p c = (r, c') \<Longrightarrow> h2_out c' = h2_out c \<and> h2_conn_send_window c' = h2_conn_send_window c \<and>
    h2_stream_send_window c' - h2_peer_initial_window c' = h2_stream_send_window c - h2_peer_initial_window c"
  by (induction p c rule: apply_settings.induct) (auto simp: Let_def split: if_splits)

lemma on_settings_control:
  assumes "on_settings p c = (r, c')"
  shows "control c c' \<and> h2_conn_send_window c' = h2_conn_send_window c \<and>
    h2_stream_send_window c' - h2_peer_initial_window c' = h2_stream_send_window c - h2_peer_initial_window c"
proof (cases "length p mod 6 = 0")
  case True
  obtain x d where d: "apply_settings p c = (x, d)" by fastforce
  note e = apply_settings_control [OF d]
  have "control c d" "control c (push_out FT_SETTINGS FLAG_ACK 0 [] d)"
    using control_same [of d c] control_push [of c d FT_SETTINGS FLAG_ACK 0 "[]"] e by (simp_all add: wire_frame_def)
  then show ?thesis using assms True d e by (cases x) (auto simp: on_settings_def)
qed (use assms control_same [of c c] in \<open>auto simp: on_settings_def\<close>)

lemma on_window_update_control:
  "on_window_update stream p c = (r, c') \<Longrightarrow> control c c' \<and> h2_peer_initial_window c' = h2_peer_initial_window c \<and>
    h2_conn_send_window c' = h2_conn_send_window c + window_credit 0 [((FT_WINDOW_UPDATE, fl, stream, p), is_ok r)] \<and>
    h2_stream_send_window c' = h2_stream_send_window c + window_credit STREAM_ID [((FT_WINDOW_UPDATE, fl, stream, p), is_ok r)]"
  by (auto simp: on_window_update_def Let_def window_credit_def is_ok_def STREAM_ID_def intro!: control_same split: if_splits)

lemma window_credit_other: "kind \<noteq> FT_WINDOW_UPDATE \<or> \<not> ok \<Longrightarrow> window_credit stream [((kind, fl, s, p), ok)] = 0"
  by (auto simp: window_credit_def)

lemma window_credit_nonneg: "0 \<le> window_credit stream fs"
  unfolding window_credit_def by (intro sum_list_nonneg) auto

text \<open>The effect of a frame on what is written and on the send windows.\<close>

definition frame_effect :: "raw_frame \<times> bool \<Rightarrow> h2_conn \<Rightarrow> h2_conn \<Rightarrow> bool" where
  "frame_effect fo c c' \<longleftrightarrow> control c c' \<and>
    h2_conn_send_window c' = h2_conn_send_window c + window_credit 0 [fo] \<and>
    h2_stream_send_window c' - h2_peer_initial_window c' =
      h2_stream_send_window c - h2_peer_initial_window c + window_credit STREAM_ID [fo]"

lemma frame_effect_same: "control c c' \<Longrightarrow> same_send c c' \<Longrightarrow> kind \<noteq> FT_WINDOW_UPDATE \<or> \<not> ok \<Longrightarrow> frame_effect ((kind, fl, s, p), ok) c c'"
  by (simp add: frame_effect_def same_send_def window_credit_other)

lemma frame_effect_failed: "frame_effect (f, False) c c"
  by (cases f) (simp add: frame_effect_same control_same same_send_def)

lemma on_frame_effect:
  assumes "on_frame f c = (r, c')"
  shows "frame_effect (f, is_ok r) c c'"
proof -
  obtain k fl s p where f: "f = (k, fl, s, p)" by (cases f)
  have id: "frame_effect (f, is_ok r) c c" if "k \<noteq> FT_WINDOW_UPDATE \<or> \<not> is_ok r"
    using that unfolding f by (intro frame_effect_same) (simp_all add: control_same same_send_def)
  have err: "frame_effect (f, is_ok r) c c'" if "r = Inl e" "c' = c" for e using that id by (simp add: is_ok_def)
  consider "h2_in_headers c \<and> k \<noteq> FT_CONTINUATION" | (on) "\<not> (h2_in_headers c \<and> k \<noteq> FT_CONTINUATION)" by blast
  then show ?thesis
  proof cases
    case 1
    then show ?thesis using assms by (intro err) (auto simp: on_frame_def f)
  next
    case on
    note o = assms [unfolded on_frame_def f prod.case if_not_P [OF on]]
    have cs: "k = FT_DATA \<and> s = STREAM_ID \<Longrightarrow> ?thesis" "k = FT_HEADERS \<and> s = STREAM_ID \<Longrightarrow> ?thesis"
      "k = FT_CONTINUATION \<and> s = STREAM_ID \<Longrightarrow> ?thesis"
      using o on_data_control [of fl p c r c'] on_headers_control [of fl p c r c'] on_continuation_control [of fl p c r c']
      unfolding f by (auto intro!: frame_effect_same simp: frame_consts)
    have st: ?thesis if "k = FT_SETTINGS" "fl AND FLAG_ACK = 0"
    proof -
      have "on_settings p c = (r, c')" "FT_SETTINGS \<noteq> FT_WINDOW_UPDATE" using o that by (simp_all add: frame_consts)
      then show ?thesis using on_settings_control [of p c r c'] unfolding f that(1) by (simp add: frame_effect_def window_credit_other)
    qed
    have wu: ?thesis if "k = FT_WINDOW_UPDATE" "length p = 4"
    proof -
      have "on_window_update s p c = (r, c')" using o that by (simp add: frame_consts)
      from on_window_update_control [OF this, of fl] show ?thesis unfolding f that(1) by (simp add: frame_effect_def)
    qed
    have pg: ?thesis if "k = FT_PING" "fl AND FLAG_ACK = 0" "length p = 8"
    proof -
      have "c' = push_out FT_PING FLAG_ACK 0 p c" using o that by (simp add: frame_consts)
      moreover have "control c (push_out FT_PING FLAG_ACK 0 p c)"
        using that by (intro control_push control_same) (simp_all add: wire_frame_def MAX_FRAME_def)
      ultimately show ?thesis unfolding f that(1) by (intro frame_effect_same) (simp_all add: same_send_def frame_consts)
    qed
    have rs: ?thesis if "k = FT_RST_STREAM" "c' = c\<lparr>h2_stream_error := x, h2_remote_end := True\<rparr>" for x
      unfolding f that by (intro frame_effect_same control_same) (simp_all add: same_send_def frame_consts)
    show ?thesis
    proof (rule ccontr)
      assume n: "\<not> ?thesis"
      have p: "fl AND FLAG_ACK \<noteq> 0" if "k = FT_SETTINGS" using that n st by blast
      have q: "fl AND FLAG_ACK \<noteq> 0 \<or> length p \<noteq> 8" if "k = FT_PING" using that n pg by blast
      have m: "\<not> (k = FT_DATA \<and> s = STREAM_ID)" "\<not> (k = FT_HEADERS \<and> s = STREAM_ID)" "\<not> (k = FT_CONTINUATION \<and> s = STREAM_ID)"
        using n cs by blast+
      consider "k = FT_SETTINGS" | "k = FT_PING" | "k = FT_WINDOW_UPDATE" | "k = FT_RST_STREAM"
        | (other) "k \<noteq> FT_SETTINGS" "k \<noteq> FT_PING" "k \<noteq> FT_WINDOW_UPDATE" "k \<noteq> FT_RST_STREAM" by blast
      then show False
      proof cases
        case 1
        then have "c' = c" "k \<noteq> FT_WINDOW_UPDATE" using o p by (simp_all add: frame_consts)
        then show False using n id by blast
      next
        case 2
        then have "c' = c" "k \<noteq> FT_WINDOW_UPDATE" using o q by (simp_all add: frame_consts split: if_split_asm)
        then show False using n id by blast
      next
        case 3
        then have "length p \<noteq> 4" using n wu by blast
        then have "c' = c" "\<not> is_ok r" using o 3 by (auto simp: frame_consts is_ok_def)
        then show False using n id by blast
      next
        case 4
        then show False
        proof (cases "s = STREAM_ID")
          case True
          then show False using o 4 n rs by (auto simp: frame_consts)
        next
          case False
          then have "c' = c" "k \<noteq> FT_WINDOW_UPDATE" using o 4 by (simp_all add: frame_consts)
          then show False using n id by blast
        qed
      next
        case other
        then have "c' = c" using o m by (simp split: if_split_asm)
        then show False using n id other(3) by blast
      qed
    qed
  qed
qed

section \<open>The writing direction\<close>

definition fresh_stream :: "transport \<Rightarrow> grpc_stream" where
  "fresh_stream i = \<lparr>gt_conn = h2_new i, gt_sendq = [], gt_close_after_drain = False, gt_end_stream_sent = False\<rparr>"

text \<open>The frames \<open>fs\<close> are what the tunnel has produced since \<open>base\<close> was written.\<close>

definition produced :: "bytes \<Rightarrow> tunnel \<Rightarrow> raw_frame list \<Rightarrow> bool" where
  "produced base t fs \<longleftrightarrow>
    tr_out (h2_inner (tn_conn t)) @ h2_out (tn_conn t) = base @ frames_bytes fs \<and> list_all wire_frame fs \<and>
    concat (data_payloads fs) @ gt_sendq (tn_stream t) = concat (map gun_message (tn_accepted t)) \<and>
    (gt_end_stream_sent (tn_stream t) \<longrightarrow> (FT_DATA, FLAG_END_STREAM, STREAM_ID, []) \<in> set fs)"

definition credited :: "tunnel \<Rightarrow> raw_frame list \<Rightarrow> bool" where
  "credited t fs \<longleftrightarrow>
    h2_conn_send_window (tn_conn t) = 65535 + window_credit 0 (tn_frames t) - int (length (concat (data_payloads fs))) \<and>
    0 \<le> h2_conn_send_window (tn_conn t) \<and>
    h2_stream_send_window (tn_conn t) = 4194304 - 65535 + h2_peer_initial_window (tn_conn t) +
      window_credit STREAM_ID (tn_frames t) - int (length (concat (data_payloads fs)))"

lemma data_frame_wire: "n \<le> MAX_FRAME \<Longrightarrow> wire_frame (FT_DATA, fl, STREAM_ID, take n q)"
  by (simp add: wire_frame_def)

lemma poll_write_out: "poll_write t buf = (w, t') \<Longrightarrow> tr_out t' = tr_out t @ take (written w) buf"
  by (auto simp: poll_write_def written_def min_def split: list.splits write_event.splits)

lemma poll_read_out: "poll_read t room = (r, t') \<Longrightarrow> tr_out t' = tr_out t"
  by (auto simp: poll_read_def split: list.splits arrival.splits)

lemma produced_step:
  assumes "tunnel_step t t'" and "produced base t fs" and "credited t fs"
  shows "\<exists>gs. produced base t' gs \<and> credited t' gs"
  using assms
proof cases
  case (t_frame f rest r c)
  note e = on_frame_effect [OF t_frame(3), unfolded frame_effect_def control_def] on_frame_io [OF t_frame(3), unfolded same_io_def]
  then obtain gs where "h2_out c = h2_out (tn_conn t) @ frames_bytes gs" "list_all wire_frame gs" "data_payloads gs = []" by auto
  then show ?thesis using assms(2,3) e window_credit_nonneg [of 0 "[(f, is_ok r)]"] unfolding t_frame(1)
    by (intro exI [of _ "fs @ gs"]) (simp add: produced_def credited_def flip: append_assoc)
next
  case (t_read r i)
  then show ?thesis using assms(2,3) poll_read_out [OF t_read(2)] by (intro exI [of _ fs]) (simp add: produced_def credited_def)
next
  case (t_write w i)
  then show ?thesis using assms(2,3) poll_write_out [OF t_write(2)] by (intro exI [of _ fs]) (simp add: produced_def credited_def)
next
  case (t_data n)
  have "length (take n (gt_sendq (tn_stream t))) = n" using t_data(5) by simp
  then show ?thesis using assms(2,3) t_data data_frame_wire [OF t_data(4), of 0 "gt_sendq (tn_stream t)"]
    put_frame_append [of "h2_out (tn_conn t)" FT_DATA 0 STREAM_ID "take n (gt_sendq (tn_stream t))"]
    by (intro exI [of _ "fs @ [(FT_DATA, 0, STREAM_ID, take n (gt_sendq (tn_stream t)))]"])
      (simp add: produced_def credited_def send_data_def push_out_def frame_bytes_def)
next
  case t_finish
  then show ?thesis using assms(2,3) put_frame_append [of "h2_out (tn_conn t)" FT_DATA FLAG_END_STREAM STREAM_ID "[]"]
    by (intro exI [of _ "fs @ [(FT_DATA, FLAG_END_STREAM, STREAM_ID, [])]"])
      (simp add: produced_def credited_def send_end_def push_out_def frame_bytes_def wire_frame_def)
next
  case (t_accept d)
  then show ?thesis using assms(2,3) by (intro exI [of _ fs]) (simp add: produced_def credited_def flip: append_assoc)
qed (use assms(2,3) in \<open>auto intro!: exI [of _ fs] simp: produced_def credited_def\<close>)

lemma produced_run:
  assumes "tunnel_step\<^sup>*\<^sup>* (tunnel_at (fresh_stream i)) t"
  shows "\<exists>fs. produced (tr_out i) t fs \<and> credited t fs"
  using assms
proof induction
  case base
  show ?case
    by (rule exI [of _ "[]"])
      (simp add: produced_def credited_def tunnel_at_def fresh_stream_def h2_new_def window_credit_def DEFAULT_WINDOW_def)
qed (metis produced_step)

section \<open>Dialing\<close>

definition grpc_hello :: "string \<Rightarrow> string \<Rightarrow> raw_frame list" where
  "grpc_hello host service =
    [(FT_SETTINGS, 0, 0, client_settings), (FT_WINDOW_UPDATE, 0, 0, u32_be 983041),
     (FT_HEADERS, FLAG_END_HEADERS, STREAM_ID, hpack_encode (request_headers host (''/'' @ service @ ''/Tun'')))]"

lemma flush_out_sent:
  "flush_out c = (Inr (), c') \<Longrightarrow> \<exists>i. c' = c\<lparr>h2_inner := i, h2_out := []\<rparr> \<and> tr_out i = tr_out (h2_inner c) @ h2_out c \<and> tr_in i = tr_in (h2_inner c)"
proof (induction c rule: flush_out.induct)
  case (1 c)
  show ?case
  proof (cases "h2_out c = []")
    case True
    then show ?thesis using 1(3) by (intro exI [of _ "h2_inner c"]) (simp add: flush_out.simps [of c])
  next
    case False
    obtain w i where w: "poll_write (h2_inner c) (h2_out c) = (w, i)" by fastforce
    note out = poll_write_out [OF w] poll_write_in [OF w]
    show ?thesis
    proof (cases w)
      case Pending
      then show ?thesis using 1 False w out by (simp add: flush_out.simps [of c] written_def)
    next
      case (Ready x)
      then show ?thesis using 1 False w out
        by (cases x) (force simp: flush_out.simps [of c] written_def split: if_splits)+
    qed
  qed
qed

text \<open>What dialing writes before anything is read.\<close>

lemma grpc_connect_hello:
  assumes "h = (case gr_host settings of Some h \<Rightarrow> h | None \<Rightarrow> host)"
    and "service = trim_end_matches CHR ''/'' (trim_start_matches CHR ''/'' (gr_service_name settings))"
  shows "grpc_connect inner settings host =
    (if service = [] then Inl (Config ''grpc: empty service name'')
     else case flush_out ((h2_new inner)\<lparr>h2_out := PREFACE @ frames_bytes (grpc_hello h service)\<rparr>) of
       (Inl e, _) \<Rightarrow> Inl e
     | (Inr _, c) \<Rightarrow>
         (case drain_frames c of
            (Inl e, _) \<Rightarrow> Inl e
          | (Inr _, c) \<Rightarrow> Inr \<lparr>gt_conn = c, gt_sendq = [], gt_close_after_drain = False, gt_end_stream_sent = False\<rparr>))"
proof -
  have u: "u32_be (word_of_int (CONN_WINDOW - DEFAULT_WINDOW)) = u32_be 983041" by (simp add: CONN_WINDOW_def DEFAULT_WINDOW_def)
  have "push_out FT_HEADERS FLAG_END_HEADERS STREAM_ID (hpack_encode (request_headers h (''/'' @ service @ ''/Tun'')))
      (push_out FT_WINDOW_UPDATE 0 0 (u32_be (word_of_int (CONN_WINDOW - DEFAULT_WINDOW)))
        (push_out FT_SETTINGS 0 0 client_settings ((h2_new inner)\<lparr>h2_out := h2_out (h2_new inner) @ PREFACE\<rparr>))) =
      (h2_new inner)\<lparr>h2_out := PREFACE @ frames_bytes (grpc_hello h service)\<rparr>"
    unfolding u push_out_def grpc_hello_def by (simp add: put_frame_def frame_bytes_def h2_new_def)
  then show ?thesis unfolding grpc_connect_def Let_def assms by simp
qed

lemma drain_nothing: "h2_rbuf c = [] \<Longrightarrow> drain_frames c = (Inr (), c)"
  by (subst drain_frames.simps) (simp add: take_frame_def)

lemma grpc_connect_fresh:
  assumes "grpc_connect inner settings host = Inr s"
  shows "\<exists>i. s = fresh_stream i \<and> tr_in i = tr_in inner \<and>
    tr_out i = tr_out inner @ PREFACE @ frames_bytes (grpc_hello (case gr_host settings of Some h \<Rightarrow> h | None \<Rightarrow> host)
      (trim_end_matches CHR ''/'' (trim_start_matches CHR ''/'' (gr_service_name settings))))"
proof -
  let ?h = "case gr_host settings of Some h \<Rightarrow> h | None \<Rightarrow> host"
  let ?sv = "trim_end_matches CHR ''/'' (trim_start_matches CHR ''/'' (gr_service_name settings))"
  let ?c = "(h2_new inner)\<lparr>h2_out := PREFACE @ frames_bytes (grpc_hello ?h ?sv)\<rparr>"
  note con = grpc_connect_hello [OF refl refl, of inner settings host]
  obtain x c' where f: "flush_out ?c = (x, c')" by fastforce
  then have x: "x = Inr ()" using assms unfolding con f by (cases x) (auto split: if_splits)
  obtain i where i: "c' = ?c\<lparr>h2_inner := i, h2_out := []\<rparr>" "tr_out i = tr_out (h2_inner ?c) @ h2_out ?c" "tr_in i = tr_in (h2_inner ?c)"
    using flush_out_sent [OF f [unfolded x]] by blast
  have c': "c' = h2_new i" unfolding i(1) by (simp add: h2_new_def)
  have "drain_frames c' = (Inr (), c')" by (rule drain_nothing) (simp add: c' h2_new_def)
  then have "s = fresh_stream i" using assms x unfolding con f by (simp add: fresh_stream_def c' split: if_splits)
  then show ?thesis using i(2,3) by (intro exI [of _ i]) (simp add: h2_new_def)
qed

text \<open>Over a socket that takes everything at once, dialing succeeds.\<close>

lemma grpc_connect_open:
  assumes "h = (case gr_host settings of Some h \<Rightarrow> h | None \<Rightarrow> host)"
    and "service = trim_end_matches CHR ''/'' (trim_start_matches CHR ''/'' (gr_service_name settings))"
    and "service \<noteq> []" and "tr_script inner = []"
  shows "grpc_connect inner settings host =
    Inr (fresh_stream (inner\<lparr>tr_out := tr_out inner @ PREFACE @ frames_bytes (grpc_hello h service)\<rparr>))"
proof -
  let ?o = "PREFACE @ frames_bytes (grpc_hello h service)"
  have ne: "?o \<noteq> []" by (simp add: grpc_hello_def frame_bytes_def put_frame_def)
  have "poll_write inner ?o = (Ready (Inr (length ?o)), inner\<lparr>tr_out := tr_out inner @ ?o\<rparr>)"
    using assms(4) by (cases inner) (simp add: poll_write_def)
  then have "flush_out ((h2_new inner)\<lparr>h2_out := ?o\<rparr>) = (Inr (), h2_new (inner\<lparr>tr_out := tr_out inner @ ?o\<rparr>))"
    using ne by (subst flush_out.simps, simp add: h2_new_def, subst flush_out.simps, simp)
  moreover have "drain_frames (h2_new i) = (Inr (), h2_new i)" for i by (rule drain_nothing) (simp add: h2_new_def)
  ultimately show ?thesis using assms(3) unfolding grpc_connect_hello [OF assms(1,2)] by (simp add: fresh_stream_def)
qed

section \<open>Sessions\<close>

text \<open>A sequence of operations: what was accepted, what was read and the stream, unless a write failed.\<close>

datatype grpc_op = Op_Write bytes | Op_Read nat | Op_Flush | Op_Shutdown

fun grpc_run :: "(error \<Rightarrow> bool) \<Rightarrow> grpc_op list \<Rightarrow> grpc_stream \<Rightarrow> (bytes \<times> bytes \<times> grpc_stream) option" where
  "grpc_run soft [] s = Some ([], [], s)"
| "grpc_run soft (Op_Write buf # ops) s =
    (case grpc_poll_write s buf of
       (Ready (Inl _), _) \<Rightarrow> None
     | (r, s) \<Rightarrow> map_option (\<lambda>(w, x). (take (written r) buf @ w, x)) (grpc_run soft ops s))"
| "grpc_run soft (Op_Read room # ops) s =
    (case grpc_poll_read soft room s of
       (r, s) \<Rightarrow> map_option (\<lambda>(w, d, s). (w, received r @ d, s)) (grpc_run soft ops s))"
| "grpc_run soft (Op_Flush # ops) s = grpc_run soft ops (snd (grpc_poll_flush s))"
| "grpc_run soft (Op_Shutdown # ops) s = grpc_run soft ops (snd (grpc_poll_shutdown s))"


lemma grpc_poll_write_steps:
  assumes "grpc_poll_write (tn_stream t) buf = (r, s')" and "\<And>e. r \<noteq> Ready (Inl e)"
  shows "\<exists>t'. tunnel_step\<^sup>*\<^sup>* t t' \<and> tn_stream t' = s' \<and> tn_delivered t' = tn_delivered t \<and>
     concat (tn_accepted t') = concat (tn_accepted t) @ take (written r) buf"
proof (cases "buf = []")
  case True
  then show ?thesis using assms(1) by (intro exI [of _ t]) (simp add: grpc_poll_write_def)
next
  case False
  then have "grpc_write_loop (tn_stream t) buf 0 = (r, s')" using assms(1) by (simp add: grpc_poll_write_def)
  from grpc_write_loop_steps [OF this] obtain t' k where t': "tunnel_step\<^sup>*\<^sup>* t t'" "tn_stream t' = s'" "tn_delivered t' = tn_delivered t"
    "concat (tn_accepted t') = concat (tn_accepted t) @ take k buf" "\<forall>n. r = Ready (Inr n) \<longrightarrow> n = k" "r = Pending \<longrightarrow> k = 0" by auto
  moreover have "k = written r" using t'(5,6) assms(2) by (cases r; cases "case r of Ready x \<Rightarrow> x | Pending \<Rightarrow> Inr 0") (auto simp: written_def split: poll.splits sum.splits)
  ultimately show ?thesis by (intro exI [of _ t']) simp
qed

lemma grpc_poll_shutdown_steps: "\<exists>t'. quiet t t' \<and> tn_stream t' = snd (grpc_poll_shutdown (tn_stream t))"
proof -
  let ?u = "t\<lparr>tn_stream := (tn_stream t)\<lparr>gt_close_after_drain := True\<rparr>\<rparr>"
  obtain t' where "quiet ?u t'" "tn_stream t' = snd (poll_drive (tn_stream ?u))" using poll_drive_steps [of ?u] by blast
  moreover have "quiet t ?u" by (rule quiet_step [OF t_close]) simp_all
  moreover have "snd (grpc_poll_shutdown s) = snd (poll_drive (s\<lparr>gt_close_after_drain := True\<rparr>))" for s
    by (simp add: grpc_poll_shutdown_def split: prod.split poll.split sum.split)
  ultimately show ?thesis using quiet_trans by (intro exI [of _ t']) auto
qed

lemma grpc_run_steps:
  "grpc_run soft ops (tn_stream t) = Some (w, d, s') \<Longrightarrow>
   \<exists>t'. tunnel_step\<^sup>*\<^sup>* t t' \<and> tn_stream t' = s' \<and> concat (tn_accepted t') = concat (tn_accepted t) @ w \<and>
     tn_delivered t' = tn_delivered t @ d"
proof (induction ops arbitrary: t w d)
  case Nil
  then show ?case by (intro exI [of _ t]) simp
next
  case (Cons op ops)
  have go: ?case if u: "tunnel_step\<^sup>*\<^sup>* t u" "concat (tn_accepted u) = concat (tn_accepted t) @ w1" "tn_delivered u = tn_delivered t @ d1"
    and r: "grpc_run soft ops (tn_stream u) = Some (w2, d2, s')" "w = w1 @ w2" "d = d1 @ d2" for u w1 d1 w2 d2
  proof -
    obtain t' where "tunnel_step\<^sup>*\<^sup>* u t'" "tn_stream t' = s'" "concat (tn_accepted t') = concat (tn_accepted u) @ w2"
      "tn_delivered t' = tn_delivered u @ d2" using Cons.IH [OF r(1)] by blast
    then show ?thesis using u r(2,3) by (intro exI [of _ t']) auto
  qed
  show ?case
  proof (cases op)
    case (Op_Write buf)
    obtain r s where r: "grpc_poll_write (tn_stream t) buf = (r, s)" by fastforce
    have ok: "r \<noteq> Ready (Inl e)" for e using Cons.prems r by (auto simp: Op_Write)
    obtain w2 where "grpc_run soft ops s = Some (w2, d, s')" "w = take (written r) buf @ w2"
      using Cons.prems r ok by (auto simp: Op_Write split: poll.splits sum.splits)
    moreover obtain u where "tunnel_step\<^sup>*\<^sup>* t u" "tn_stream u = s" "tn_delivered u = tn_delivered t"
      "concat (tn_accepted u) = concat (tn_accepted t) @ take (written r) buf" using grpc_poll_write_steps [OF r ok] by blast
    ultimately show ?thesis by (intro go [of u _ "[]"]) simp_all
  next
    case (Op_Read room)
    obtain r s where r: "grpc_poll_read soft room (tn_stream t) = (r, s)" by fastforce
    obtain d2 where "grpc_run soft ops s = Some (w, d2, s')" "d = received r @ d2" using Cons.prems r by (auto simp: Op_Read)
    moreover obtain u where "tunnel_step\<^sup>*\<^sup>* t u" "tn_stream u = s" "tn_accepted u = tn_accepted t"
      "tn_delivered u = tn_delivered t @ received r" using grpc_poll_read_steps [OF r] by blast
    ultimately show ?thesis by (intro go [of u "[]"]) simp_all
  next
    case Op_Flush
    obtain u where "quiet t u" "tn_stream u = snd (poll_drive (tn_stream t))" using poll_drive_steps by blast
    then show ?thesis using Cons.prems by (intro go [of u "[]" "[]"]) (simp_all add: Op_Flush grpc_poll_flush_def quiet_def)
  next
    case Op_Shutdown
    obtain u where "quiet t u" "tn_stream u = snd (grpc_poll_shutdown (tn_stream t))" using grpc_poll_shutdown_steps by blast
    then show ?thesis using Cons.prems by (intro go [of u "[]" "[]"]) (simp_all add: Op_Shutdown quiet_def)
  qed
qed

section \<open>The peer reassembles what was accepted\<close>

lemma accepted_small: "tunnel_step\<^sup>*\<^sup>* (tunnel_at s) t \<Longrightarrow> \<forall>d \<in> set (tn_accepted t). length d \<le> 2 ^ 20"
  by (induction rule: rtranclp_induct) (auto simp: tunnel_at_def WRITE_CHUNK_def elim!: tunnel_step.cases)

lemma gun_feed_extends: "\<exists>ys. snd (gun_feed s b) = snd s @ ys"
proof -
  have loop: "\<exists>ys. snd (snd (deframe_loop c out)) = out @ ys" for c out
  proof (induction c out rule: deframe_loop.induct)
    case (1 c out)
    then show ?case by (subst deframe_loop.simps) (auto simp: Let_def split: sum.splits)
  qed
  obtain r out where s: "s = (r, out)" by fastforce
  show ?thesis
  proof (cases r)
    case (Inr c)
    then show ?thesis using loop [of "c @ b" out] by (auto simp: s gun_feed_def deframer_push_def split: prod.splits sum.splits)
  qed (simp add: s gun_feed_def)
qed

lemma gun_feed_keeps_error: "gun_feed (Inl e, out) b = (Inl e, out)"
  by (simp add: gun_feed_def)

text \<open>Of a prefix of the messages the peer gets a prefix of the bytes, without an error.\<close>

lemma gun_prefix:
  assumes "concat chunks @ rest = concat (map gun_message ds)" and "\<forall>d \<in> set ds. length d \<le> 2 ^ 20"
  shows "\<exists>carry out tail. foldl gun_feed (Inr [], []) chunks = (Inr carry, out) \<and> concat ds = out @ tail \<and>
    (rest = [] \<longrightarrow> carry = [] \<and> tail = [])"
proof -
  have st: "gun_settled (Inr [], [])" by (simp add: gun_settled_def first_message_def)
  let ?x = "foldl gun_feed (Inr [], []) chunks"
  have x: "?x = gun_feed (Inr [], []) (concat chunks)" by (rule gun.feed_chunks [OF st])
  have whole: "gun_feed ?x rest = (Inr [], concat ds)"
    using gun.feed_append [OF st, of "concat chunks" rest] deframe_messages [OF assms(2), of "[]"]
    by (simp add: x assms(1) gun_feed_def deframer_push_def)
  then obtain carry out where o: "?x = (Inr carry, out)" using gun_feed_keeps_error by (cases ?x; cases "fst ?x") force+
  moreover obtain tail where "concat ds = out @ tail" using gun_feed_extends [of ?x rest] whole o by auto
  moreover have "rest = [] \<Longrightarrow> carry = [] \<and> tail = []"
    using whole o gun.feed_nothing [of ?x] gun.settled_feed [OF st, of "concat chunks"] calculation x by auto
  ultimately show ?thesis by blast
qed

section \<open>Closing\<close>






section \<open>The reading direction\<close>

text \<open>The tunnel bytes of a handled frame, and a stream of bytes cut into frames.\<close>

definition tunnel_data :: "raw_frame \<Rightarrow> bytes" where
  "tunnel_data f =
    (case f of (kind, flags, stream, payload) \<Rightarrow>
       if kind = FT_DATA \<and> stream = STREAM_ID then (case strip_padding flags payload of Inr d \<Rightarrow> d | Inl _ \<Rightarrow> []) else [])"

fun cut_into :: "bytes \<Rightarrow> raw_frame list \<Rightarrow> bytes \<Rightarrow> bool" where
  "cut_into bs [] rest \<longleftrightarrow> bs = rest"
| "cut_into bs (f # fs) rest \<longleftrightarrow> (case take_frame bs of Inr (Some g, bs') \<Rightarrow> g = f \<and> cut_into bs' fs rest | _ \<Rightarrow> False)"

lemma take_frame_append: "take_frame bs = Inr (Some f, rest) \<Longrightarrow> take_frame (bs @ ys) = Inr (Some f, rest @ ys)"
  by (auto simp: take_frame_def Let_def nth_append split: if_splits)

lemma cut_into_append: "cut_into bs fs rest \<Longrightarrow> cut_into (bs @ ys) fs (rest @ ys)"
  by (induction fs arbitrary: bs) (auto simp: take_frame_append split: sum.splits prod.splits option.splits)

lemma cut_into_snoc: "cut_into bs fs rest \<Longrightarrow> take_frame rest = Inr (Some f, rest') \<Longrightarrow> cut_into bs (fs @ [f]) rest'"
  by (induction fs arbitrary: bs) (auto split: sum.splits prod.splits option.splits)

lemma cut_into_frames: "list_all wire_frame fs \<Longrightarrow> cut_into (frames_bytes fs @ rest) fs rest"
proof (induction fs)
  case (Cons f fs)
  obtain k fl s p where f: "f = (k, fl, s, p)" by (cases f)
  have "length p \<le> MAX_FRAME" "\<not> bit s 31" using Cons.prems by (auto simp: f wire_frame_def STREAM_ID_def bit_1_iff)
  then show ?case using Cons by (simp add: f frame_bytes_def take_put_frame)
qed simp

lemma cut_into_prefix: "cut_into (frames_bytes gs) fs rest \<Longrightarrow> list_all wire_frame gs \<Longrightarrow> \<exists>k. fs = take k gs"
proof (induction fs arbitrary: gs)
  case Nil
  show ?case by (rule exI [of _ 0]) simp
next
  case (Cons f fs)
  show ?case
  proof (cases gs)
    case Nil
    then show ?thesis using Cons.prems(1) by (simp add: take_frame_def)
  next
    case g: (Cons g gs')
    then have "cut_into (frames_bytes gs) [g] (frames_bytes gs')" using cut_into_frames [of "[g]" "frames_bytes gs'"] Cons.prems(2) by simp
    then have "g = f" "cut_into (frames_bytes gs') fs rest" using Cons.prems(1) by (auto split: sum.splits prod.splits option.splits)
    moreover obtain k where "fs = take k gs'" using Cons.IH [OF calculation(2)] Cons.prems(2) g by auto
    ultimately show ?thesis by (intro exI [of _ "Suc k"]) (simp add: g)
  qed
qed

text \<open>Handlers that are not for DATA leave the reassembler alone.\<close>

definition same_plain :: "h2_conn \<Rightarrow> h2_conn \<Rightarrow> bool" where
  "same_plain c c' \<longleftrightarrow> h2_plain c' = h2_plain c \<and> h2_carry c' = h2_carry c"

lemma finish_header_block_plain: "finish_header_block c = (r, c') \<Longrightarrow> same_plain c c'"
  by (auto simp: finish_header_block_def Let_def same_plain_def split: sum.splits prod.splits option.splits if_splits)

lemma on_headers_plain: "on_headers fl p c = (r, c') \<Longrightarrow> same_plain c c'"
  by (auto simp: on_headers_def Let_def same_plain_def split: sum.splits if_splits dest!: finish_header_block_plain)

lemma on_continuation_plain: "on_continuation fl p c = (r, c') \<Longrightarrow> same_plain c c'"
  by (auto simp: on_continuation_def Let_def same_plain_def split: if_splits dest!: finish_header_block_plain)

lemma apply_settings_plain: "apply_settings p c = (r, c') \<Longrightarrow> same_plain c c'"
  by (induction p c rule: apply_settings.induct) (auto simp: Let_def same_plain_def split: if_splits)

lemma on_settings_plain: "on_settings p c = (r, c') \<Longrightarrow> same_plain c c'"
  by (auto simp: on_settings_def same_plain_def split: prod.splits sum.splits if_splits dest!: apply_settings_plain)

lemma on_window_update_plain: "on_window_update stream p c = (r, c') \<Longrightarrow> same_plain c c'"
  by (auto simp: on_window_update_def Let_def same_plain_def split: if_splits)

lemmas handler_plain = on_headers_plain on_continuation_plain on_settings_plain on_window_update_plain

lemma account_recv_plain [simp]: "h2_plain (account_recv n c) = h2_plain c" "h2_carry (account_recv n c) = h2_carry c"
  by (simp_all add: account_recv_def Let_def)

text \<open>What a frame that was handled without an error does to the reassembler.\<close>

lemma on_frame_plain:
  assumes "on_frame f c = (Inr (), c')"
  shows "gun_feed (Inr (h2_carry c), h2_plain c) (tunnel_data f) = (Inr (h2_carry c'), h2_plain c') \<or>
    tunnel_data f = [] \<and> same_plain c c'"
proof -
  obtain k fl s p where f: "f = (k, fl, s, p)" by (cases f)
  show ?thesis
  proof (cases "k = FT_DATA \<and> s = STREAM_ID")
    case True
    then have "on_data fl p c = (Inr (), c')" using assms by (simp add: on_frame_def f frame_consts split: if_splits)
    then show ?thesis using True
      by (auto simp: f on_data_def Let_def tunnel_data_def gun_feed_def split: sum.splits prod.splits)
  next
    case False
    then have "same_plain c c'" using assms unfolding on_frame_def f prod.case
      by (auto dest: handler_plain simp: same_plain_def split: if_split_asm)
    then show ?thesis using False by (auto simp: f tunnel_data_def)
  qed
qed

lemma deframe_loop_prefix: "deframe_loop c (a @ out) = (case deframe_loop c out of (r, c', out') \<Rightarrow> (r, c', a @ out'))"
proof (induction c out rule: deframe_loop.induct)
  case (1 c out)
  then show ?case
    by (subst (1 2) deframe_loop.simps) (auto simp: Let_def simp flip: append_assoc split: sum.splits)
qed

lemma gun_feed_prefix: "gun_feed (Inr c, a @ out) b = map_prod (\<lambda>x. x) (\<lambda>o'. a @ o') (gun_feed (Inr c, out) b)"
  by (simp add: gun_feed_def deframer_push_def deframe_loop_prefix split: prod.splits sum.splits)

lemma poll_read_arrived: "poll_read i room = (r, i') \<Longrightarrow> arrived (tr_in i) = received r @ arrived (tr_in i')"
  by (auto simp: poll_read_def received_def split: list.splits arrival.splits)

definition reading :: "bytes \<Rightarrow> tunnel \<Rightarrow> bool" where
  "reading bs t \<longleftrightarrow> bs = tn_received t @ arrived (tr_in (h2_inner (tn_conn t))) \<and>
    cut_into (tn_received t) (map fst (tn_frames t)) (h2_rbuf (tn_conn t)) \<and>
    ((\<forall>x \<in> set (tn_frames t). snd x) \<longrightarrow>
      foldl gun_feed (Inr [], []) (map (tunnel_data \<circ> fst) (tn_frames t)) =
        (Inr (h2_carry (tn_conn t)), tn_delivered t @ h2_plain (tn_conn t)))"

lemma gun_settled_start: "gun_settled (Inr [], [])"
  by (simp add: gun_settled_def first_message_def)

lemma gun_settled_foldl: "gun_settled (foldl gun_feed (Inr [], []) chunks)"
  by (simp add: gun.feed_chunks [OF gun_settled_start] gun.settled_feed [OF gun_settled_start])

lemma reading_step: "tunnel_step t t' \<Longrightarrow> reading bs t \<Longrightarrow> reading bs t'"
proof (induction rule: tunnel_step.induct)
  case (t_frame t f rest r c)
  note io = on_frame_io [OF t_frame(2), unfolded same_io_def]
  have cut: "cut_into (tn_received t) (map fst (tn_frames t) @ [f]) rest"
    using cut_into_snoc [OF _ t_frame(1)] t_frame(3) by (simp add: reading_def)
  have "gun_feed (Inr (h2_carry (tn_conn t)), tn_delivered t @ h2_plain (tn_conn t)) (tunnel_data f) = (Inr (h2_carry c), tn_delivered t @ h2_plain c)"
    if ok: "is_ok r" "\<forall>x \<in> set (tn_frames t). snd x"
  proof -
    have r: "r = Inr ()" using ok by (cases r) (simp_all add: is_ok_def)
    let ?s = "(Inr (h2_carry (tn_conn t)), tn_delivered t @ h2_plain (tn_conn t))"
    have "foldl gun_feed (Inr [], []) (map (tunnel_data \<circ> fst) (tn_frames t)) = ?s" using t_frame(3) ok(2) by (simp add: reading_def)
    then have "gun_settled ?s" using gun_settled_foldl [of "map (tunnel_data \<circ> fst) (tn_frames t)"] by simp
    then have still: "gun_feed ?s [] = ?s" by (rule gun.feed_nothing)
    from on_frame_plain [OF t_frame(2) [unfolded r]] show ?thesis
    proof
      assume "tunnel_data f = [] \<and> same_plain ((tn_conn t)\<lparr>h2_rbuf := rest\<rparr>) c"
      then have e: "tunnel_data f = []" "h2_plain c = h2_plain (tn_conn t)" "h2_carry c = h2_carry (tn_conn t)" by (simp_all add: same_plain_def)
      show ?thesis unfolding e by (rule still)
    qed (simp add: gun_feed_prefix)
  qed
  then show ?case using t_frame(3) cut io by (auto simp: reading_def)
next
  case (t_read t r i)
  then show ?case using cut_into_append poll_read_arrived [OF t_read(1)] by (simp add: reading_def)
next
  case (t_write t w i)
  then show ?case using poll_write_in [OF t_write(1)] by (simp add: reading_def)
qed (auto simp: reading_def send_data_def send_end_def)

lemma reading_run: "tunnel_step\<^sup>*\<^sup>* (tunnel_at (fresh_stream i)) t \<Longrightarrow> reading (arrived (tr_in i)) t"
  by (induction rule: rtranclp_induct) (auto simp: reading_step, simp add: reading_def tunnel_at_def fresh_stream_def h2_new_def)

section \<open>A session over an idle socket\<close>

lemma poll_process_idle:
  assumes "h2_rbuf c = []" and "tr_in (h2_inner c) = ReadPending # es"
  shows "poll_process c = (Pending, c\<lparr>h2_inner := (h2_inner c)\<lparr>tr_in := es\<rparr>\<rparr>)"
  using assms by (subst poll_process.simps) (simp add: take_frame_def poll_read_def)

lemma poll_drive_idle:
  assumes "poll_process (gt_conn s) = (r, c)" and "\<not> poll_failed r" and "h2_out c = []" and "gt_sendq s = []"
    and "\<not> gt_close_after_drain s"
  shows "poll_drive s = (Ready (Inr ()), s\<lparr>gt_conn := c\<rparr>)"
  using assms by (subst poll_drive.simps) simp

lemma poll_drive_send:
  assumes "poll_process (gt_conn s) = (r, c)" and "\<not> poll_failed r" and "h2_out c = []" and "gt_sendq s \<noteq> []"
    and "length (gt_sendq s) \<le> MAX_FRAME" and "int (length (gt_sendq s)) \<le> h2_conn_send_window c"
    and "int (length (gt_sendq s)) \<le> h2_stream_send_window c"
  shows "poll_drive s = poll_drive (send_data (length (gt_sendq s)) (s\<lparr>gt_conn := c\<rparr>))"
proof -
  let ?n = "length (gt_sendq s)" and ?a = "min (h2_conn_send_window c) (h2_stream_send_window c)"
  have "0 < ?n" using assms(4) by simp
  then have "0 < ?a" "min (min (nat ?a) MAX_FRAME) ?n = ?n" using assms(5-7) by linarith+
  moreover have "gt_sendq (s\<lparr>gt_conn := c\<rparr>) = gt_sendq s" by simp
  ultimately show ?thesis using assms(1-4) by (subst poll_drive.simps) (simp only: Let_def prod.case if_False if_True simp_thms)
qed

lemma poll_drive_out:
  assumes "poll_process (gt_conn s) = (r, c)" and "\<not> poll_failed r" and "h2_out c \<noteq> []" and "tr_script (h2_inner c) = []"
  shows "poll_drive s = poll_drive (s\<lparr>gt_conn := c\<lparr>h2_inner := (h2_inner c)\<lparr>tr_out := tr_out (h2_inner c) @ h2_out c\<rparr>, h2_out := []\<rparr>\<rparr>)"
  using assms by (subst poll_drive.simps) (simp add: poll_write_def)

text \<open>One short write over a socket that takes everything and brings nothing.\<close>

definition idle_conn :: "nat \<Rightarrow> bytes \<Rightarrow> h2_conn \<Rightarrow> h2_conn" where
  "idle_conn n base c = c\<lparr>h2_inner := \<lparr>tr_out = base, tr_script = [], tr_in = replicate n ReadPending\<rparr>, h2_rbuf := [], h2_out := []\<rparr>"

definition open_stream :: "h2_conn \<Rightarrow> grpc_stream" where
  "open_stream c = \<lparr>gt_conn = c, gt_sendq = [], gt_close_after_drain = False, gt_end_stream_sent = False\<rparr>"

definition spent :: "nat \<Rightarrow> h2_conn \<Rightarrow> h2_conn" where
  "spent n c = c\<lparr>h2_conn_send_window := h2_conn_send_window c - int n, h2_stream_send_window := h2_stream_send_window c - int n\<rparr>"

lemma poll_process_idle_conn: "poll_process (idle_conn (Suc n) base c) = (Pending, idle_conn n base c)"
  by (cases c, subst poll_process_idle) (simp_all add: idle_conn_def)

lemma idle_conn_sel [simp]:
  "h2_out (idle_conn n base c) = []" "h2_conn_send_window (idle_conn n base c) = h2_conn_send_window c"
  "h2_stream_send_window (idle_conn n base c) = h2_stream_send_window c" "h2_peer_initial_window (idle_conn n base c) = h2_peer_initial_window c"
  "tr_out (h2_inner (idle_conn n base c)) = base"
  by (simp_all add: idle_conn_def)

lemma not_failed [simp]: "\<not> poll_failed Pending"
  by (simp add: poll_failed_def)

lemma poll_drive_idle_conn: "poll_drive (open_stream (idle_conn (Suc n) base c)) = (Ready (Inr ()), open_stream (idle_conn n base c))"
  by (cases c, subst poll_drive_idle [OF poll_process_idle]) (simp_all add: open_stream_def idle_conn_def)

lemma poll_drive_out_conn:
  assumes "out \<noteq> []"
  shows "poll_drive (open_stream ((idle_conn (Suc n) base c)\<lparr>h2_out := out\<rparr>)) = poll_drive (open_stream (idle_conn n (base @ out) c))"
  using assms by (cases c, subst poll_drive_out [OF poll_process_idle]) (simp_all add: open_stream_def idle_conn_def)

lemma write_short:
  assumes "buf \<noteq> []" and "length buf \<le> WRITE_CHUNK" and "length (gun_message buf) \<le> MAX_FRAME"
    and "int (length (gun_message buf)) \<le> h2_conn_send_window c" and "int (length (gun_message buf)) \<le> h2_stream_send_window c"
  shows "grpc_poll_write (open_stream (idle_conn (n + 4) base c)) buf = (Ready (Inr (length buf)),
    open_stream (idle_conn n (base @ put_frame [] FT_DATA 0 STREAM_ID (gun_message buf)) (spent (length (gun_message buf)) c)))"
proof -
  let ?q = "gun_message buf" and ?f = "put_frame [] FT_DATA 0 STREAM_ID (gun_message buf)"
  have ne: "?q \<noteq> []" "?f \<noteq> []" by (simp_all add: gun_message_def put_frame_def)
  have "poll_drive ((open_stream (idle_conn (n + 3) base c))\<lparr>gt_sendq := ?q\<rparr>) =
      poll_drive (send_data (length ?q) ((open_stream (idle_conn (n + 2) base c))\<lparr>gt_sendq := ?q\<rparr>))"
    using ne assms(3-5) poll_process_idle_conn [of "n + 2" base c]
      poll_drive_send [of "(open_stream (idle_conn (n + 3) base c))\<lparr>gt_sendq := ?q\<rparr>" Pending "idle_conn (n + 2) base c"]
    by (simp add: open_stream_def numeral_3_eq_3)
  also have "send_data (length ?q) ((open_stream (idle_conn (n + 2) base c))\<lparr>gt_sendq := ?q\<rparr>) =
      open_stream ((idle_conn (n + 2) base (spent (length ?q) c))\<lparr>h2_out := ?f\<rparr>)"
    by (cases c) (simp add: send_data_def push_out_def open_stream_def idle_conn_def spent_def)
  also have "poll_drive \<dots> = (Ready (Inr ()), open_stream (idle_conn n (base @ ?f) (spent (length ?q) c)))"
    using poll_drive_out_conn [OF ne(2), of "n + 1" base "spent (length ?q) c"] poll_drive_idle_conn [of n] by (simp add: numeral_2_eq_2)
  finally have dr: "poll_drive ((open_stream (idle_conn (n + 3) base c))\<lparr>gt_sendq := ?q\<rparr>) =
      (Ready (Inr ()), open_stream (idle_conn n (base @ ?f) (spent (length ?q) c)))" .
  have le: "min (min (length buf) WRITE_CHUNK) MAX_SEND_BACKLOG = length buf" "0 < MAX_SEND_BACKLOG"
    using assms(2) by (simp_all add: WRITE_CHUNK_def MAX_SEND_BACKLOG_def)
  have "Suc (n + 3) = n + 4" by simp
  then have d4: "poll_drive (open_stream (idle_conn (n + 4) base c)) = (Ready (Inr ()), open_stream (idle_conn (n + 3) base c))"
    using poll_drive_idle_conn [of "n + 3" base c] by (simp only:)
  have q: "gt_sendq (open_stream x) = []" for x by (simp add: open_stream_def)
  have "grpc_write_loop ((open_stream (idle_conn (n + 3) base c))\<lparr>gt_sendq := ?q\<rparr>) buf (length buf) =
      (Ready (Inr (length buf)), open_stream (idle_conn n (base @ ?f) (spent (length ?q) c)))"
    using assms(1) by (subst grpc_write_loop.simps) (simp add: dr)
  then have "grpc_write_loop (open_stream (idle_conn (n + 4) base c)) buf 0 =
      (Ready (Inr (length buf)), open_stream (idle_conn n (base @ ?f) (spent (length ?q) c)))"
    using assms(1) le d4 by (subst grpc_write_loop.simps) (simp add: q Let_def)
  then show ?thesis using assms(1) by (simp add: grpc_poll_write_def)
qed

lemma fresh_idle: "fresh_stream \<lparr>tr_out = base, tr_script = [], tr_in = replicate n ReadPending\<rparr> =
    open_stream (idle_conn n base (h2_new i))"
  by (simp add: fresh_stream_def open_stream_def idle_conn_def h2_new_def)

lemma gun_message_byte: "gun_message [b] = [0, 0, 0, 0, 3, HUNK_TAG, 1, b]"
  by (simp add: gun_message_def uvarint_len.simps put_uvarint.simps be_bytes_4)

section \<open>Correctness of the tunnel\<close>

text \<open>
  C6: Every byte that \<open>poll_write\<close> accepted leaves once and in order. After any sequence of operations on a dialed stream, over
  any schedule of the socket, what was written and what waits is the preface, the hello frames and a list of frames
  within the frame limit. A peer that reassembles the DATA payloads gets a prefix of the accepted bytes without an
  error, and all of them when the send queue is empty.
\<close>

theorem grpc_session_writes:
  assumes "grpc_connect inner settings host = Inr s0" and "grpc_run soft ops s0 = Some (w, d, s)"
  shows "\<exists>fs carry out rest.
    tr_out (h2_inner (gt_conn s)) @ h2_out (gt_conn s) = tr_out inner @ PREFACE @
      frames_bytes (grpc_hello (case gr_host settings of Some h \<Rightarrow> h | None \<Rightarrow> host)
        (trim_end_matches CHR ''/'' (trim_start_matches CHR ''/'' (gr_service_name settings))) @ fs) \<and>
    list_all wire_frame fs \<and> foldl gun_feed (Inr [], []) (data_payloads fs) = (Inr carry, out) \<and> w = out @ rest \<and>
    (gt_sendq s = [] \<longrightarrow> carry = [] \<and> rest = [])"
proof -
  obtain i where i: "s0 = fresh_stream i" "tr_out i = tr_out inner @ PREFACE @
      frames_bytes (grpc_hello (case gr_host settings of Some h \<Rightarrow> h | None \<Rightarrow> host)
        (trim_end_matches CHR ''/'' (trim_start_matches CHR ''/'' (gr_service_name settings))))"
    using grpc_connect_fresh [OF assms(1)] by blast
  have "grpc_run soft ops (tn_stream (tunnel_at s0)) = Some (w, d, s)" using assms(2) by (simp add: tunnel_at_def)
  from grpc_run_steps [OF this] obtain t where t: "tunnel_step\<^sup>*\<^sup>* (tunnel_at s0) t" "tn_stream t = s" "concat (tn_accepted t) = w"
    by (auto simp: tunnel_at_def)
  obtain fs where fs: "produced (tr_out i) t fs" using produced_run t(1) unfolding i(1) by blast
  have "concat (data_payloads fs) @ gt_sendq s = concat (map gun_message (tn_accepted t))" using fs t(2) by (simp add: produced_def)
  from gun_prefix [OF this accepted_small [OF t(1)]] obtain carry out rest where
    "foldl gun_feed (Inr [], []) (data_payloads fs) = (Inr carry, out)" "w = out @ rest" "gt_sendq s = [] \<longrightarrow> carry = [] \<and> rest = []"
    unfolding t(3) by blast
  then show ?thesis using fs i(2) t(2) by (intro exI [of _ fs] exI [of _ carry] exI [of _ out] exI [of _ rest]) (simp add: produced_def)
qed



text \<open>
  C7: The reader gets what the peer sent. Let the socket bring the frames \<open>gs\<close>, whose DATA on the tunnel's stream, without
  padding, makes up the messages \<open>ds\<close>. After any operations the tunnel has handled a prefix of these frames, and where
  none was refused, what was delivered and what waits for the reader is a prefix of the messages' bytes, in
  order, and all of them when every frame has been handled.
\<close>

theorem grpc_reader_gets_messages:
  assumes "grpc_connect inner settings host = Inr s0" and "grpc_run soft ops s0 = Some (w, d, s)"
    and "arrived (tr_in inner) = frames_bytes gs" and "list_all wire_frame gs"
    and "concat (map tunnel_data gs) = concat (map gun_message ds)" and "\<forall>m \<in> set ds. length m \<le> 2 ^ 20"
  shows "\<exists>t k. tunnel_step\<^sup>*\<^sup>* (tunnel_at s0) t \<and> tn_stream t = s \<and> map fst (tn_frames t) = take k gs \<and>
    ((\<forall>x \<in> set (tn_frames t). snd x) \<longrightarrow>
      (\<exists>rest. concat ds = d @ h2_plain (gt_conn s) @ rest \<and> (length gs \<le> k \<longrightarrow> rest = [])))"
proof -
  obtain i where i: "s0 = fresh_stream i" "tr_in i = tr_in inner" using grpc_connect_fresh [OF assms(1)] by blast
  have "grpc_run soft ops (tn_stream (tunnel_at s0)) = Some (w, d, s)" using assms(2) by (simp add: tunnel_at_def)
  from grpc_run_steps [OF this] obtain t where t: "tunnel_step\<^sup>*\<^sup>* (tunnel_at s0) t" "tn_stream t = s" "tn_delivered t = d"
    by (auto simp: tunnel_at_def)
  note rd = reading_run [OF t(1) [unfolded i(1)], unfolded reading_def t(2,3) i(2) assms(3)]
  have "cut_into (frames_bytes gs) (map fst (tn_frames t)) (h2_rbuf (gt_conn s) @ arrived (tr_in (h2_inner (gt_conn s))))"
    using cut_into_append rd by metis
  from cut_into_prefix [OF this assms(4)] obtain k where k: "map fst (tn_frames t) = take k gs" by blast
  have "\<exists>rest. concat ds = d @ h2_plain (gt_conn s) @ rest \<and> (length gs \<le> k \<longrightarrow> rest = [])" if "\<forall>x \<in> set (tn_frames t). snd x"
  proof -
    have f: "foldl gun_feed (Inr [], []) (map tunnel_data (take k gs)) = (Inr (h2_carry (gt_conn s)), d @ h2_plain (gt_conn s))"
      using rd that by (simp flip: k)
    have "concat (map tunnel_data (take k gs)) @ concat (map tunnel_data (drop k gs)) = concat (map gun_message ds)"
      using assms(5) by (simp flip: concat_append map_append)
    from gun_prefix [OF this assms(6)] show ?thesis unfolding f by auto
  qed
  then show ?thesis using t k by blast
qed

text \<open>
  C37: The client's stream window starts at its own advertised 4194304 instead of the peer's 65535, so it sends where the
  peer has closed its window: after a SETTINGS frame with INITIAL_WINDOW_SIZE 0, and no WINDOW_UPDATE, a written
  byte leaves at once in a DATA frame on the stream.
\<close>

theorem grpc_overruns_stream_window:
  "\<exists>s. grpc_run soft [Op_Flush, Op_Write [b]]
      (fresh_stream \<lparr>tr_out = [], tr_script = [],
        tr_in = Arrived (put_frame [] FT_SETTINGS 0 0 [0, 4, 0, 0, 0, 0]) # replicate 6 ReadPending\<rparr>) = Some ([b], [], s) \<and>
    h2_peer_initial_window (gt_conn s) = 0 \<and> gt_sendq s = [] \<and>
    tr_out (h2_inner (gt_conn s)) =
      put_frame [] FT_SETTINGS FLAG_ACK 0 [] @ put_frame [] FT_DATA 0 STREAM_ID (gun_message [b])"
proof -
  let ?set = "put_frame [] FT_SETTINGS 0 0 [0, 4, 0, 0, 0, 0]" and ?ack = "put_frame [] FT_SETTINGS FLAG_ACK 0 []"
  let ?i = "\<lambda>x n. \<lparr>tr_out = x, tr_script = [], tr_in = replicate n ReadPending\<rparr>"
  define c0 where "c0 = (h2_new (?i [] 0))\<lparr>h2_stream_send_window := 4128769, h2_peer_initial_window := 0\<rparr>"
  let ?c = "(h2_new (?i [] 6))\<lparr>h2_rbuf := ?set\<rparr>" and ?d = "(idle_conn 5 [] c0)\<lparr>h2_out := ?ack\<rparr>"
  have set: "length ?set = 15" "?set \<noteq> []" "take_frame ?set = Inr (Some (FT_SETTINGS, 0, 0, [0, 4, 0, 0, 0, 0]), [])"
    using take_put_frame [of "[0, 4, 0, 0, 0, 0]" 0 FT_SETTINGS 0 "[]"] by (simp_all add: put_frame_def be_bytes_4 MAX_FRAME_def)
  have vals: "u16_from 0 4 = 4" "u32_from 0 0 0 0 = 0" by code_simp+
  have zero: "apply_settings [0, 4, 0, 0, 0, 0] c =
      (Inr (), c\<lparr>h2_stream_send_window := h2_stream_send_window c - h2_peer_initial_window c, h2_peer_initial_window := 0\<rparr>)" for c
    by (simp add: vals Let_def)
  have "on_frame (FT_SETTINGS, 0, 0, [0, 4, 0, 0, 0, 0]) (?c\<lparr>h2_rbuf := []\<rparr>) = on_settings [0, 4, 0, 0, 0, 0] (?c\<lparr>h2_rbuf := []\<rparr>)"
    by (simp add: on_frame_def h2_new_def frame_consts)
  also have "\<dots> = (Inr (), (idle_conn 6 [] c0)\<lparr>h2_out := ?ack\<rparr>)"
    unfolding on_settings_def zero by (simp add: push_out_def h2_new_def c0_def idle_conn_def DEFAULT_WINDOW_def)
  finally have handle: "on_frame (FT_SETTINGS, 0, 0, [0, 4, 0, 0, 0, 0]) (?c\<lparr>h2_rbuf := []\<rparr>) = (Inr (), (idle_conn 6 [] c0)\<lparr>h2_out := ?ack\<rparr>)" .
  have one: "poll_process ((idle_conn 6 [] c0)\<lparr>h2_out := ?ack\<rparr>) = (Pending, ?d)"
    by (subst poll_process_idle [where es = "replicate 5 ReadPending"]) (simp_all add: idle_conn_def c0_def h2_new_def numeral_eq_Suc)
  have none: "take_frame [] = Inr (None, [])" by (simp add: take_frame_def)
  let ?s0 = "\<lparr>tr_out = [], tr_script = [], tr_in = Arrived ?set # replicate 6 ReadPending\<rparr>"
  have "poll_process (h2_new ?s0) = poll_process ?c"
    using set(1,2) by (subst poll_process.simps) (simp add: h2_new_def none poll_read_def read_room_def)
  also have "\<dots> = poll_process ((idle_conn 6 [] c0)\<lparr>h2_out := ?ack\<rparr>)"
    using set(3) handle by (subst poll_process.simps) (simp add: h2_new_def)
  finally have p: "poll_process (gt_conn (fresh_stream ?s0)) = (Pending, ?d)" unfolding one by (simp add: fresh_stream_def)
  have ack: "?ack \<noteq> []" by (simp add: put_frame_def)
  have "poll_drive (fresh_stream ?s0) = poll_drive (open_stream (idle_conn 5 ?ack c0))"
    using poll_drive_out [OF p] ack by (simp add: fresh_stream_def open_stream_def idle_conn_def c0_def h2_new_def)
  also have "\<dots> = (Ready (Inr ()), open_stream (idle_conn 4 ?ack c0))" using poll_drive_idle_conn [of 4] by simp
  finally have f: "snd (grpc_poll_flush (fresh_stream ?s0)) = open_stream (idle_conn 4 ?ack c0)" by (simp add: grpc_poll_flush_def)
  have len: "length (gun_message [b]) = 8" by (simp add: gun_message_byte)
  have win: "h2_conn_send_window c0 = 65535" "h2_stream_send_window c0 = 4128769" by (simp_all add: c0_def h2_new_def DEFAULT_WINDOW_def)
  have "grpc_poll_write (open_stream (idle_conn 4 ?ack c0)) [b] = (Ready (Inr 1),
      open_stream (idle_conn 0 (?ack @ put_frame [] FT_DATA 0 STREAM_ID (gun_message [b])) (spent (length (gun_message [b])) c0)))"
    using write_short [of "[b]" c0 0 ?ack] by (simp add: len win WRITE_CHUNK_def MAX_FRAME_def)
  then show ?thesis unfolding grpc_run.simps f
    by (intro exI [of _ "open_stream (idle_conn 0 (?ack @ put_frame [] FT_DATA 0 STREAM_ID (gun_message [b])) (spent (length (gun_message [b])) c0))"])
      (simp add: written_def open_stream_def spent_def c0_def)
qed

section \<open>A sample session\<close>

definition sample_socket :: "arrival list \<Rightarrow> transport" where
  "sample_socket es = \<lparr>tr_out = [], tr_script = [], tr_in = es\<rparr>"

definition sample_settings :: grpc_settings where
  "sample_settings = \<lparr>gr_service_name = ''tun'', gr_host = None\<rparr>"

lemma sample_service: "trim_end_matches CHR ''/'' (trim_start_matches CHR ''/'' ''tun'') = ''tun''"
  by (simp add: trim_end_matches_def trim_start_matches_def)

lemma sample_connect:
  "grpc_connect (sample_socket es) sample_settings ''h'' =
    Inr (fresh_stream \<lparr>tr_out = PREFACE @ frames_bytes (grpc_hello ''h'' ''tun''), tr_script = [], tr_in = es\<rparr>)"
proof -
  have a: "''h'' = (case gr_host sample_settings of Some h \<Rightarrow> h | None \<Rightarrow> ''h'')" by (simp add: sample_settings_def)
  have b: "''tun'' = trim_end_matches CHR ''/'' (trim_start_matches CHR ''/'' (gr_service_name sample_settings))"
    by (simp add: sample_settings_def sample_service)
  have c: "''tun'' \<noteq> []" "tr_script (sample_socket es) = []" by (simp_all add: sample_socket_def)
  have e: "(sample_socket es)\<lparr>tr_out := tr_out (sample_socket es) @ base\<rparr> = \<lparr>tr_out = base, tr_script = [], tr_in = es\<rparr>" for base
    by (simp add: sample_socket_def)
  show ?thesis using grpc_connect_open [OF a b c] unfolding e .
qed

definition sample_written :: "nat \<Rightarrow> grpc_stream" where
  "sample_written n = open_stream (idle_conn n (PREFACE @ frames_bytes (grpc_hello ''h'' ''tun'') @
    put_frame [] FT_DATA 0 STREAM_ID (gun_message [7])) (spent (length (gun_message [7])) (h2_new (sample_socket []))))"

lemma sample_windows: "h2_conn_send_window (h2_new i) = 65535" "h2_stream_send_window (h2_new i) = 4194304"
  by (simp_all add: h2_new_def DEFAULT_WINDOW_def)

lemma sample_length: "length (gun_message [7]) = 8"
  by (simp add: gun_message_byte)

lemma sample_run:
  "grpc_run (\<lambda>_. False) [Op_Write [7]] (fresh_stream \<lparr>tr_out = PREFACE @ frames_bytes (grpc_hello ''h'' ''tun''), tr_script = [],
     tr_in = replicate (n + 4) ReadPending\<rparr>) = Some ([7], [], sample_written n)"
  using write_short [of "[7]" "h2_new (sample_socket [])" n "PREFACE @ frames_bytes (grpc_hello ''h'' ''tun'')"]
  unfolding fresh_idle [of _ _ "sample_socket []"] grpc_run.simps sample_written_def
  by (simp add: sample_length WRITE_CHUNK_def MAX_FRAME_def written_def sample_windows)


theorem grpc_session_writes_witness:
  "\<exists>s0 d s fs carry out rest. grpc_connect (sample_socket (replicate 4 ReadPending)) sample_settings ''h'' = Inr s0 \<and>
    grpc_run (\<lambda>_. False) [Op_Write [7]] s0 = Some ([7], d, s) \<and> gt_sendq s = [] \<and>
    foldl gun_feed (Inr [], []) (data_payloads fs) = (Inr carry, out) \<and> [7] = out @ rest \<and> rest = []"
proof -
  have q: "gt_sendq (sample_written 0) = []" by (simp add: sample_written_def open_stream_def)
  note r = sample_connect [of "replicate 4 ReadPending"] sample_run [of 0, unfolded add_0]
  show ?thesis using grpc_session_writes [OF r] r q by blast
qed



text \<open>A peer that sends one message in one frame, and a single read.\<close>

definition sample_frame :: raw_frame where
  "sample_frame = (FT_DATA, 0, STREAM_ID, gun_message [7])"

theorem grpc_reader_gets_messages_witness:
  "\<exists>s0 w d s t k. grpc_connect (sample_socket [Arrived (frames_bytes [sample_frame])]) sample_settings ''h'' = Inr s0 \<and>
    grpc_run (\<lambda>_. False) [Op_Read 8] s0 = Some (w, d, s) \<and> tunnel_step\<^sup>*\<^sup>* (tunnel_at s0) t \<and> tn_stream t = s \<and> map fst (tn_frames t) = take k [sample_frame]"
proof -
  obtain s0 where s0: "grpc_connect (sample_socket [Arrived (frames_bytes [sample_frame])]) sample_settings ''h'' = Inr s0"
    using sample_connect by blast
  obtain w d s where r: "grpc_run (\<lambda>_. False) [Op_Read 8] s0 = Some (w, d, s)" by (cases "grpc_poll_read (\<lambda>_. False) 8 s0") simp
  have "arrived (tr_in (sample_socket [Arrived (frames_bytes [sample_frame])])) = frames_bytes [sample_frame]"
    "list_all wire_frame [sample_frame]" "concat (map tunnel_data [sample_frame]) = concat (map gun_message [[7]])"
    by (simp_all add: sample_socket_def sample_frame_def wire_frame_def MAX_FRAME_def sample_length tunnel_data_def strip_padding_def)
  note a = this
  have "\<forall>m \<in> set [[7]]. length (m :: bytes) \<le> 2 ^ 20" by simp
  then show ?thesis using grpc_reader_gets_messages [OF s0 r a] s0 r by (elim meta_impE exE conjE) blast+
qed

end
