(* ===== verification/Unit_Stream.thy ===== *)
theory Unit_Stream
  imports Transport
begin

text \<open>
  Framed streams: a reader that waits until the next unit of its protocol is buffered, decodes it into plaintext
  and delivers that. The locale \<open>unit_reader\<close> is the contract of such a reader; its clients are
  the streams of src/engine/src/proto/shadowsocks.rs and src/engine/src/inbound/proxy_server/ss.rs. The locale's
  lemma: whatever the socket's schedule, reading to the end gives what decoding all bytes at once gives.
\<close>

section \<open>The buffers of a framed stream\<close>

record unit_io =
  ui_inner :: transport
  ui_rbuf :: bytes
  ui_plain :: bytes
  ui_wbuf :: bytes

definition READ_CHUNK :: nat where "READ_CHUNK = 16 * 1024"

definition truncated :: error where
  "truncated = Io ''truncated stream''"

definition unit_weight :: "'a unit_io_scheme \<Rightarrow> nat" where
  "unit_weight s = 2 * backlog (tr_in (ui_inner s)) + length (ui_rbuf s)"

text \<open>A unit may be empty; then the next one is not, and the reader still makes progress.\<close>

definition unit_order :: "('a unit_io_scheme \<Rightarrow> nat) \<Rightarrow> ('a unit_io_scheme \<times> 'a unit_io_scheme) set" where
  "unit_order need = measures [unit_weight, \<lambda>s. if need s = 0 then 1 else 0]"

lemma wf_unit_order: "wf (unit_order need)"
  by (simp add: unit_order_def)

text \<open>The same, then the plaintext still to be delivered.\<close>

definition piece_order :: "('a unit_io_scheme \<Rightarrow> nat) \<Rightarrow> ('a unit_io_scheme \<times> 'a unit_io_scheme) set" where
  "piece_order need = measures [unit_weight, \<lambda>s. if need s = 0 then 1 else 0, \<lambda>s. length (ui_plain s)]"

lemma wf_piece_order: "wf (piece_order need)"
  by (simp add: piece_order_def)

lemma piece_order_step: "(s2, s1) \<in> piece_order need \<Longrightarrow> (s1, s) \<in> unit_order need \<Longrightarrow> (s2, s) \<in> piece_order need"
  by (auto simp: piece_order_def unit_order_def)

lemma piece_order_trans: "(s2, s1) \<in> piece_order need \<Longrightarrow> (s1, s) \<in> piece_order need \<Longrightarrow> (s2, s) \<in> piece_order need"
  by (auto simp: piece_order_def)

lemma poll_read_backlog_unit:
  "poll_read t room = (Ready (Inr bs), t') \<Longrightarrow> bs \<noteq> [] \<Longrightarrow> backlog (tr_in t') + length bs \<le> backlog (tr_in t)"
  by (auto simp: poll_read_def backlog_def split: list.splits arrival.splits)

lemma unit_weight_fill:
  "poll_read (ui_inner s) room = (Ready (Inr bs), t) \<Longrightarrow> bs \<noteq> [] \<Longrightarrow>
   unit_weight (s\<lparr>ui_inner := t, ui_rbuf := ui_rbuf s @ bs\<rparr>) < unit_weight s"
  using poll_read_backlog_unit [of "ui_inner s" room bs t] by (cases bs) (simp_all add: unit_weight_def)

text \<open>
  All buffered bytes decoded at once: the plaintext, and the error that ends it, if any. A state in which
  \<open>stop\<close> holds delivers the end of the stream whatever is still buffered.
\<close>

inductive drains_until :: "('a unit_io_scheme \<Rightarrow> bool) \<Rightarrow> ('a unit_io_scheme \<Rightarrow> nat) \<Rightarrow>
    ('a unit_io_scheme \<Rightarrow> unit result \<times> 'a unit_io_scheme) \<Rightarrow> 'a unit_io_scheme \<Rightarrow> bytes \<Rightarrow> error option \<Rightarrow> bool"
  for stop need advance where
  d_stop: "stop s \<Longrightarrow> drains_until stop need advance s [] None"
| d_short: "\<not> stop s \<Longrightarrow> length (ui_rbuf s) < need s \<Longrightarrow>
    drains_until stop need advance s [] (if ui_rbuf s = [] then None else Some truncated)"
| d_error: "\<not> stop s \<Longrightarrow> need s \<le> length (ui_rbuf s) \<Longrightarrow> advance s = (Inl e, s') \<Longrightarrow> drains_until stop need advance s [] (Some e)"
| d_unit: "\<not> stop s \<Longrightarrow> need s \<le> length (ui_rbuf s) \<Longrightarrow> advance s = (Inr (), s') \<Longrightarrow>
    drains_until stop need advance (s'\<lparr>ui_plain := []\<rparr>) out e \<Longrightarrow> drains_until stop need advance s (ui_plain s' @ out) e"

abbreviation drains :: "('a unit_io_scheme \<Rightarrow> nat) \<Rightarrow> ('a unit_io_scheme \<Rightarrow> unit result \<times> 'a unit_io_scheme) \<Rightarrow>
    'a unit_io_scheme \<Rightarrow> bytes \<Rightarrow> error option \<Rightarrow> bool" where
  "drains \<equiv> drains_until (\<lambda>_. False)"

lemma drains_stop: "drains_until stop need advance s out e \<Longrightarrow> stop s \<Longrightarrow> out = [] \<and> e = None"
  by (erule drains_until.cases) simp_all

lemma drains_short: "drains_until stop need advance s out e \<Longrightarrow> \<not> stop s \<Longrightarrow> length (ui_rbuf s) < need s \<Longrightarrow>
    out = [] \<and> e = (if ui_rbuf s = [] then None else Some truncated)"
  by (erule drains_until.cases) simp_all

lemma drains_error: "drains_until stop need advance s out e \<Longrightarrow> \<not> stop s \<Longrightarrow> need s \<le> length (ui_rbuf s) \<Longrightarrow>
    advance s = (Inl err, s') \<Longrightarrow> out = [] \<and> e = Some err"
  by (erule drains_until.cases) simp_all

lemma drains_step:
  "drains_until stop need advance s out e \<Longrightarrow> \<not> stop s \<Longrightarrow> need s \<le> length (ui_rbuf s) \<Longrightarrow> advance s = (Inr (), s') \<Longrightarrow>
   \<exists>out'. out = ui_plain s' @ out' \<and> drains_until stop need advance (s'\<lparr>ui_plain := []\<rparr>) out' e"
  by (erule drains_until.cases) auto

definition arriving :: "'a unit_io_scheme \<Rightarrow> 'a unit_io_scheme" where
  "arriving s = s\<lparr>ui_rbuf := ui_rbuf s @ arrived (tr_in (ui_inner s)), ui_inner := ui_inner s\<lparr>tr_in := []\<rparr>\<rparr>"

text \<open>What one poll may give when the rest decodes to \<open>out\<close> and \<open>e\<close>, and \<open>n\<close> arrivals are outstanding.\<close>

inductive outcome :: "('a unit_io_scheme \<Rightarrow> bool) \<Rightarrow> ('a unit_io_scheme \<Rightarrow> nat) \<Rightarrow> ('a unit_io_scheme \<Rightarrow> unit result \<times> 'a unit_io_scheme) \<Rightarrow>
    nat \<Rightarrow> bytes \<Rightarrow> error option \<Rightarrow> bytes poll \<times> 'a unit_io_scheme \<Rightarrow> bool"
  for stop need advance n where
  o_pending: "drains_until stop need advance (arriving s) out e \<Longrightarrow> ui_plain s = [] \<Longrightarrow> steady (tr_in (ui_inner s)) \<Longrightarrow>
    backlog (tr_in (ui_inner s)) < n \<Longrightarrow> outcome stop need advance n out e (Pending, s)"
| o_piece: "bs \<noteq> [] \<Longrightarrow> drains_until stop need advance (arriving (s\<lparr>ui_plain := []\<rparr>)) out e \<Longrightarrow> steady (tr_in (ui_inner s)) \<Longrightarrow>
    backlog (tr_in (ui_inner s)) \<le> n \<Longrightarrow> outcome stop need advance n (bs @ ui_plain s @ out) e (Ready (Inr bs), s)"
| o_end: "outcome stop need advance n [] None (Ready (Inr []), s)"
| o_failed: "outcome stop need advance n [] (Some err) (Ready (Inl err), s)"

lemma outcome_mono: "outcome stop need advance m out e r \<Longrightarrow> m \<le> n \<Longrightarrow> outcome stop need advance n out e r"
  by (erule outcome.cases) (auto intro: outcome.intros)

section \<open>The contract\<close>

locale unit_reader =
  fixes poll :: "nat \<Rightarrow> 'a unit_io_scheme \<Rightarrow> bytes poll \<times> 'a unit_io_scheme"
    and need :: "'a unit_io_scheme \<Rightarrow> nat"
    and advance :: "'a unit_io_scheme \<Rightarrow> unit result \<times> 'a unit_io_scheme"
    and stop :: "'a unit_io_scheme \<Rightarrow> bool"
  assumes poll_eq: "poll room s =
      (if ui_plain s \<noteq> [] then
         (let n = min (length (ui_plain s)) room in
          (Ready (Inr (take n (ui_plain s))), s\<lparr>ui_plain := drop n (ui_plain s)\<rparr>))
       else if stop s then (Ready (Inr []), s)
       else if need s \<le> length (ui_rbuf s) then
         (case advance s of (Inl e, s) \<Rightarrow> (Ready (Inl e), s) | (Inr _, s) \<Rightarrow> poll room s)
       else
         (case poll_read (ui_inner s) READ_CHUNK of
            (Pending, t) \<Rightarrow> (Pending, s\<lparr>ui_inner := t\<rparr>)
          | (Ready (Inl e), t) \<Rightarrow> (Ready (Inl e), s\<lparr>ui_inner := t\<rparr>)
          | (Ready (Inr bs), t) \<Rightarrow>
              if bs = [] then
                (if ui_rbuf s = [] then Ready (Inr []) else Ready (Inl truncated), s\<lparr>ui_inner := t\<rparr>)
              else poll room (s\<lparr>ui_inner := t, ui_rbuf := ui_rbuf s @ bs\<rparr>)))"
    and need_buffers: "need (s\<lparr>ui_inner := i\<rparr>) = need s" "need (s\<lparr>ui_rbuf := b\<rparr>) = need s" "need (s\<lparr>ui_plain := p\<rparr>) = need s"
    and advance_unit: "\<not> stop s \<Longrightarrow> need s \<le> length (ui_rbuf s) \<Longrightarrow> advance s = (Inr u, s') \<Longrightarrow>
      ui_inner s' = ui_inner s \<and> ui_rbuf s' = drop (need s) (ui_rbuf s) \<and> (need s = 0 \<longrightarrow> 0 < need s')"
    and advance_inner: "advance (s\<lparr>ui_inner := i\<rparr>) = (case advance s of (r, s') \<Rightarrow> (r, s'\<lparr>ui_inner := i\<rparr>))"
    and advance_more: "need s \<le> length (ui_rbuf s) \<Longrightarrow>
      advance (s\<lparr>ui_rbuf := ui_rbuf s @ ys\<rparr>) = (case advance s of (r, s') \<Rightarrow> (r, s'\<lparr>ui_rbuf := ui_rbuf s' @ ys\<rparr>))"
    and stop_buffers: "stop (s\<lparr>ui_inner := i\<rparr>) = stop s" "stop (s\<lparr>ui_rbuf := b\<rparr>) = stop s" "stop (s\<lparr>ui_plain := p\<rparr>) = stop s"
begin

lemma need_arriving: "need (arriving s) = need s"
  by (simp add: arriving_def need_buffers)

lemma stop_arriving: "stop (arriving s) = stop s"
  by (simp add: arriving_def stop_buffers)

lemma advance_arriving:
  assumes "need s \<le> length (ui_rbuf s)" and "advance s = (r, s')" and "ui_inner s' = ui_inner s"
  shows "advance (arriving s) = (r, arriving s')"
  using assms by (simp add: arriving_def advance_inner advance_more)

lemma arriving_plain: "(arriving s)\<lparr>ui_plain := p\<rparr> = arriving (s\<lparr>ui_plain := p\<rparr>)"
  by (simp add: arriving_def)

text \<open>One poll over the rest of the input: it waits, delivers a piece, ends, or fails, as decoding at once does.\<close>

lemma poll_outcome:
  assumes "drains_until stop need advance (arriving s) out e" and "ui_plain s = []" and "steady (tr_in (ui_inner s))" and "0 < room"
  shows "outcome stop need advance (backlog (tr_in (ui_inner s))) out e (poll room s)"
  using assms
proof (induction s arbitrary: out rule: wf_induct_rule [OF wf_unit_order [of need]])
  case (1 s)
  note less = 1
  note eq = poll_eq [of room s]
  show ?case
  proof -
    consider "stop s" | "\<not> stop s" "need s \<le> length (ui_rbuf s)" | "\<not> stop s" "\<not> need s \<le> length (ui_rbuf s)" by blast
    then show ?thesis
  proof cases
    case 1
    then have "out = [] \<and> e = None" using drains_stop [OF less(2)] stop_arriving by blast
    then show ?thesis using eq less(3) 1 by (auto intro: o_end)
  next
    case 2
    note True = 2(2)
    have running: "\<not> stop (arriving s)" using 2(1) by (simp add: stop_arriving)
    have lon: "need (arriving s) \<le> length (ui_rbuf (arriving s))" using True unfolding need_arriving by (simp add: arriving_def)
    obtain r s1 where adv: "advance s = (r, s1)" by fastforce
    show ?thesis
    proof (cases r)
      case (Inl err)
      obtain s2 where "advance (arriving s) = (Inl err, s2)"
        using True adv Inl by (simp add: arriving_def advance_inner advance_more split: prod.splits)
      then have "out = [] \<and> e = Some err" using drains_error [OF less(2) running lon] by blast
      then show ?thesis using eq less(3) 2 adv Inl by (auto intro: o_failed)
    next
      case (Inr u)
      note s1 = advance_unit [OF 2 adv [unfolded Inr]]
      have adv': "advance (arriving s) = (Inr (), arriving s1)" using advance_arriving [OF True adv] s1 Inr by simp
      obtain out' where o: "out = ui_plain s1 @ out'" "drains_until stop need advance (arriving (s1\<lparr>ui_plain := []\<rparr>)) out' e"
        using drains_step [OF less(2) running lon adv'] unfolding arriving_plain by (auto simp: arriving_def)
      have poll: "poll room s = poll room s1" using eq less(3) 2 adv Inr by simp
      have wt: "(s1, s) \<in> unit_order need" using s1 True by (auto simp: unit_order_def unit_weight_def)
      show ?thesis
      proof (cases "ui_plain s1 = []")
        case True
        then have "s1\<lparr>ui_plain := []\<rparr> = s1" by simp
        with o(2) have "drains_until stop need advance (arriving s1) out' e" by simp
        from less(1) [OF wt this True] show ?thesis unfolding poll using o(1) True s1 less(4,5) by simp
      next
        case False
        let ?n = "min (length (ui_plain s1)) room"
        have "poll room s1 = (Ready (Inr (take ?n (ui_plain s1))), s1\<lparr>ui_plain := drop ?n (ui_plain s1)\<rparr>)"
          using poll_eq [of room s1] False by (simp add: Let_def)
        moreover have "take ?n (ui_plain s1) \<noteq> []" using False less(5) by (auto simp: min_def)
        moreover have "out = take ?n (ui_plain s1) @ drop ?n (ui_plain s1) @ out'" using o(1) by (simp flip: append_assoc)
        ultimately show ?thesis unfolding poll using o(2) s1 less(4)
          o_piece [of "take ?n (ui_plain s1)" stop need advance "s1\<lparr>ui_plain := drop ?n (ui_plain s1)\<rparr>" out' e] by simp
      qed
    qed
  next
    case 3
    note False = 3(2)
    from poll_read_steady [OF less(4), of READ_CHUNK] obtain es where es: "steady es"
      "tr_in (ui_inner s) = [] \<and> poll_read (ui_inner s) READ_CHUNK = (Ready (Inr []), ui_inner s) \<or>
       poll_read (ui_inner s) READ_CHUNK = (Pending, (ui_inner s)\<lparr>tr_in := es\<rparr>) \<and> arrived es = arrived (tr_in (ui_inner s)) \<and>
         backlog es < backlog (tr_in (ui_inner s)) \<or>
       (\<exists>bs. bs \<noteq> [] \<and> poll_read (ui_inner s) READ_CHUNK = (Ready (Inr bs), (ui_inner s)\<lparr>tr_in := es\<rparr>) \<and>
         arrived (tr_in (ui_inner s)) = bs @ arrived es \<and> length bs \<le> READ_CHUNK \<and> backlog es < backlog (tr_in (ui_inner s)))"
      by (auto simp: READ_CHUNK_def)
    from es(2) show ?thesis
    proof (elim disjE conjE exE)
      assume p: "tr_in (ui_inner s) = []" "poll_read (ui_inner s) READ_CHUNK = (Ready (Inr []), ui_inner s)"
      have "arriving s = s" using p(1) by (cases s; cases "ui_inner s") (simp add: arriving_def)
      then have "out = [] \<and> e = (if ui_rbuf s = [] then None else Some truncated)"
        using drains_short [OF less(2)] 3 need_arriving [of s] stop_arriving [of s] by simp
      then show ?thesis using eq less(3) 3 p(2) by (auto intro: o_end o_failed)
    next
      assume p: "poll_read (ui_inner s) READ_CHUNK = (Pending, (ui_inner s)\<lparr>tr_in := es\<rparr>)" "arrived es = arrived (tr_in (ui_inner s))"
        "backlog es < backlog (tr_in (ui_inner s))"
      have "arriving (s\<lparr>ui_inner := (ui_inner s)\<lparr>tr_in := es\<rparr>\<rparr>) = arriving s" by (simp add: arriving_def p(2))
      then show ?thesis using eq less(2,3) 3 p es(1) by (auto intro: o_pending)
    next
      fix bs
      assume p: "bs \<noteq> []" "poll_read (ui_inner s) READ_CHUNK = (Ready (Inr bs), (ui_inner s)\<lparr>tr_in := es\<rparr>)"
        "arrived (tr_in (ui_inner s)) = bs @ arrived es" "backlog es < backlog (tr_in (ui_inner s))"
      let ?s = "s\<lparr>ui_inner := (ui_inner s)\<lparr>tr_in := es\<rparr>, ui_rbuf := ui_rbuf s @ bs\<rparr>"
      have a: "arriving ?s = arriving s" by (simp add: arriving_def p(3))
      have poll: "poll room s = poll room ?s" using eq less(3) 3 p(1,2) by simp
      have "(?s, s) \<in> unit_order need" using unit_weight_fill [OF p(2,1)] by (simp add: unit_order_def)
      from less(1) [OF this] have "outcome stop need advance (backlog es) out e (poll room ?s)"
        using a less(2,3,5) es(1) by simp
      then show ?thesis unfolding poll using p(4) by (rule outcome_mono [OF _ less_imp_le])
    qed
  qed
  qed
qed

text \<open>A poll that waits or delivers something has made progress.\<close>

lemma poll_progress:
  "poll room s = (r, s') \<Longrightarrow> r = Pending \<or> (\<exists>bs. r = Ready (Inr bs) \<and> bs \<noteq> []) \<Longrightarrow> (s', s) \<in> piece_order need"
proof (induction s rule: wf_induct_rule [OF wf_unit_order [of need]])
  case (1 s)
  note r = 1(2,3) and eq = poll_eq [of room s]
  consider "ui_plain s \<noteq> [] \<or> stop s" | "ui_plain s = []" "\<not> stop s" "need s \<le> length (ui_rbuf s)"
    | "ui_plain s = []" "\<not> stop s" "\<not> need s \<le> length (ui_rbuf s)" by blast
  then show ?case
  proof cases
    case 1
    then show ?thesis using eq r
      by (auto simp: Let_def piece_order_def unit_weight_def need_buffers split: if_splits)
  next
    case 2
    obtain ru s1 where adv: "advance s = (ru, s1)" by fastforce
    then obtain u where u: "ru = Inr u" using eq r 2 by (cases ru) auto
    have "(s1, s) \<in> unit_order need" using advance_unit [OF 2(2,3) adv [unfolded u]] 2(3) by (auto simp: unit_order_def unit_weight_def)
    moreover have "poll room s1 = (r, s')" using eq r(1) 2 adv u by simp
    ultimately show ?thesis using "1.IH" [of s1] r(2) piece_order_step by blast
  next
    case 3
    obtain rd t where rd: "poll_read (ui_inner s) READ_CHUNK = (rd, t)" by fastforce
    show ?thesis
    proof (cases "\<exists>bs. rd = Ready (Inr bs) \<and> bs \<noteq> []")
      case True
      then obtain bs where bs: "rd = Ready (Inr bs)" "bs \<noteq> []" by blast
      let ?s = "s\<lparr>ui_inner := t, ui_rbuf := ui_rbuf s @ bs\<rparr>"
      have "(?s, s) \<in> unit_order need" using unit_weight_fill [of s READ_CHUNK bs t] rd bs by (simp add: unit_order_def)
      moreover have "poll room ?s = (r, s')" using eq r(1) 3 rd bs by simp
      ultimately show ?thesis using "1.IH" [of ?s] r(2) piece_order_step by blast
    next
      case False
      then have p: "rd = Pending" "s' = s\<lparr>ui_inner := t\<rparr>" using eq r 3 rd by (auto split: poll.splits sum.splits if_splits)
      then have "backlog (tr_in t) < backlog (tr_in (ui_inner s))"
        using rd by (auto simp: poll_read_def backlog_def split: list.splits arrival.splits)
      then show ?thesis using p(2) by (simp add: piece_order_def unit_weight_def)
    qed
  qed
qed

text \<open>Reading to the end gives what decoding everything at once gives.\<close>

lemma reads_all:
  assumes "drains_until stop need advance (arriving (s\<lparr>ui_plain := []\<rparr>)) out e" and "steady (tr_in (ui_inner s))" and "0 < room"
    and "backlog (tr_in (ui_inner s)) + length (ui_plain s) + length out < fuel"
  shows "drive_read (poll room) fuel s = Some (ui_plain s @ out, e)"
  using assms
proof (induction fuel arbitrary: s out)
  case (Suc fuel)
  show ?case
  proof (cases "ui_plain s = []")
    case False
    let ?n = "min (length (ui_plain s)) room"
    have p: "poll room s = (Ready (Inr (take ?n (ui_plain s))), s\<lparr>ui_plain := drop ?n (ui_plain s)\<rparr>)"
      using poll_eq [of room s] False by (simp add: Let_def)
    have n: "0 < ?n" using False Suc.prems(3) by simp
    then have "drive_read (poll room) fuel (s\<lparr>ui_plain := drop ?n (ui_plain s)\<rparr>) = Some (drop ?n (ui_plain s) @ out, e)"
      using Suc.IH [of "s\<lparr>ui_plain := drop ?n (ui_plain s)\<rparr>" out] Suc.prems n by (simp add: less_diff_conv2)
    then show ?thesis using p n by simp
  next
    case True
    then have s: "s\<lparr>ui_plain := []\<rparr> = s" by simp
    from poll_outcome [OF Suc.prems(1) [unfolded s] True Suc.prems(2,3)] show ?thesis
    proof (cases rule: outcome.cases)
      case (o_pending s')
      then have eq: "s'\<lparr>ui_plain := []\<rparr> = s'" by simp
      have "drains_until stop need advance (arriving (s'\<lparr>ui_plain := []\<rparr>)) out e" unfolding eq by (rule o_pending(2))
      then show ?thesis using Suc.IH [of s' out] o_pending Suc.prems(3,4) True by simp
    next
      case (o_piece bs s' out')
      have "0 < length bs" "length out = length bs + length (ui_plain s') + length out'" using o_piece(1,3) by simp_all
      then have "backlog (tr_in (ui_inner s')) + length (ui_plain s') + length out' < fuel" using o_piece(6) Suc.prems(4) by linarith
      from Suc.IH [OF o_piece(4,5) Suc.prems(3) this] have "drive_read (poll room) fuel s' = Some (ui_plain s' @ out', e)" .
      then show ?thesis using o_piece(1-3) True by simp
    qed (simp_all add: True)
  qed
qed simp

end

section \<open>Awaiting a whole read or write\<close>

text \<open>\<open>read_exact\<close> and \<open>write_all\<close> of tokio: a pending operation is polled again.\<close>

type_synonym 'a t_op = "transport \<Rightarrow> 'a result \<times> transport"

function t_read_exact :: "nat \<Rightarrow> bytes t_op" where
  "t_read_exact n t =
    (if n = 0 then (Inr [], t)
     else case poll_read t n of
       (Pending, t) \<Rightarrow> t_read_exact n t
     | (Ready (Inl e), t) \<Rightarrow> (Inl e, t)
     | (Ready (Inr bs), t) \<Rightarrow>
         if bs = [] then (Inl (Io ''early eof''), t)
         else case t_read_exact (n - length bs) t of (Inl e, t) \<Rightarrow> (Inl e, t) | (Inr rest, t) \<Rightarrow> (Inr (bs @ rest), t))"
  by pat_completeness auto
termination
proof (relation "measure (\<lambda>(_, t). backlog (tr_in t))", goal_cases)
  case (2 n t _ t')
  then show ?case by (auto simp: poll_read_def backlog_def split: list.splits arrival.splits)
next
  case (3 n t _ t' _ bs)
  then show ?case using poll_read_backlog_unit [of t n bs t'] by (cases bs) simp_all
qed simp

function t_write_all :: "bytes \<Rightarrow> unit t_op" where
  "t_write_all buf t =
    (if buf = [] then (Inr (), t)
     else case poll_write t buf of
       (Pending, t) \<Rightarrow> t_write_all buf t
     | (Ready (Inl e), t) \<Rightarrow> (Inl e, t)
     | (Ready (Inr n), t) \<Rightarrow> if n = 0 then (Inl (Io ''write zero''), t) else t_write_all (drop n buf) t)"
  by pat_completeness auto
termination
  by (relation "measure (\<lambda>(buf, t). length (tr_script t) + length buf)")
    (auto simp: poll_write_def split: list.splits write_event.splits)

declare t_read_exact.simps [simp del] t_write_all.simps [simp del]

definition t_bind :: "'a t_op \<Rightarrow> ('a \<Rightarrow> 'b t_op) \<Rightarrow> 'b t_op" where
  "t_bind m f t = (case m t of (Inl e, t) \<Rightarrow> (Inl e, t) | (Inr x, t) \<Rightarrow> f x t)"

definition t_lift :: "'a result \<Rightarrow> 'a t_op" where
  "t_lift r t = (r, t)"

lemma t_simps [simp]:
  "t_bind (t_lift (Inr x)) f = f x" "t_bind (t_lift (Inl e)) f t = (Inl e, t)" "t_lift r t = (r, t)"
  by (simp_all add: t_bind_def t_lift_def fun_eq_iff)

lemma t_read_exact_steady:
  "steady (tr_in t) \<Longrightarrow> n \<le> length (arrived (tr_in t)) \<Longrightarrow>
   \<exists>es. t_read_exact n t = (Inr (take n (arrived (tr_in t))), t\<lparr>tr_in := es\<rparr>) \<and> steady es \<and> arrived es = drop n (arrived (tr_in t))"
proof (induction n t rule: t_read_exact.induct)
  case (1 n t)
  show ?case
  proof (cases "n = 0")
    case True
    then show ?thesis using "1.prems" by (intro exI [of _ "tr_in t"]) (simp add: t_read_exact.simps [of 0])
  next
    case False
    from poll_read_steady [OF "1.prems"(1), of n] False obtain es where es: "steady es"
      "tr_in t = [] \<and> poll_read t n = (Ready (Inr []), t) \<or>
       poll_read t n = (Pending, t\<lparr>tr_in := es\<rparr>) \<and> arrived es = arrived (tr_in t) \<or>
       (\<exists>bs. bs \<noteq> [] \<and> poll_read t n = (Ready (Inr bs), t\<lparr>tr_in := es\<rparr>) \<and> arrived (tr_in t) = bs @ arrived es \<and> length bs \<le> n)"
      by blast
    from es(2) show ?thesis
    proof (elim disjE conjE exE)
      assume "tr_in t = []"
      then show ?thesis using "1.prems"(2) False by simp
    next
      assume p: "poll_read t n = (Pending, t\<lparr>tr_in := es\<rparr>)" "arrived es = arrived (tr_in t)"
      then obtain es' where "t_read_exact n (t\<lparr>tr_in := es\<rparr>) = (Inr (take n (arrived (tr_in t))), t\<lparr>tr_in := es'\<rparr>)"
        "steady es'" "arrived es' = drop n (arrived (tr_in t))"
        using "1.IH"(1) [OF False p(1) [symmetric]] "1.prems"(2) es(1) by auto
      then show ?thesis using False p by (intro exI [of _ es']) (simp add: t_read_exact.simps [of n t])
    next
      fix bs
      assume p: "bs \<noteq> []" "poll_read t n = (Ready (Inr bs), t\<lparr>tr_in := es\<rparr>)" "arrived (tr_in t) = bs @ arrived es" "length bs \<le> n"
      have "n - length bs \<le> length (arrived (tr_in (t\<lparr>tr_in := es\<rparr>)))" using "1.prems"(2) p(3) by simp
      from "1.IH"(2) [OF False p(2) [symmetric] refl refl p(1) _ this] es(1) obtain es' where
        "t_read_exact (n - length bs) (t\<lparr>tr_in := es\<rparr>) = (Inr (take (n - length bs) (arrived es)), t\<lparr>tr_in := es'\<rparr>)"
        "steady es'" "arrived es' = drop (n - length bs) (arrived es)" by auto
      then show ?thesis using False p by (intro exI [of _ es']) (simp add: t_read_exact.simps [of n t])
    qed
  qed
qed

text \<open>A socket that takes something whenever it is ready.\<close>

definition flows :: "write_event list \<Rightarrow> bool" where
  "flows es = list_all (\<lambda>e. e \<noteq> WriteError \<and> e \<noteq> Accept 0) es"

lemma poll_write_flows:
  assumes "flows (tr_script t)" and "buf \<noteq> []"
  shows "\<exists>es. flows es \<and>
    (poll_write t buf = (Pending, t\<lparr>tr_script := es\<rparr>) \<and> length es < length (tr_script t) \<or>
     (\<exists>n. 0 < n \<and> n \<le> length buf \<and> poll_write t buf = (Ready (Inr n), t\<lparr>tr_script := es, tr_out := tr_out t @ take n buf\<rparr>) \<and>
        length es \<le> length (tr_script t)))"
proof (cases "tr_script t")
  case Nil
  then have "poll_write t buf = (Ready (Inr (length buf)), t\<lparr>tr_script := [], tr_out := tr_out t @ take (length buf) buf\<rparr>)"
    by (cases t) (simp add: poll_write_def)
  then show ?thesis using assms(2) by (intro exI [of _ "[]"]) (simp add: flows_def)
next
  case (Cons e es)
  then show ?thesis using assms by (intro exI [of _ es]) (cases e; auto simp: poll_write_def flows_def min_def)
qed

lemma t_write_all_flows:
  "flows (tr_script t) \<Longrightarrow>
   \<exists>es. t_write_all buf t = (Inr (), t\<lparr>tr_script := es, tr_out := tr_out t @ buf\<rparr>) \<and> flows es \<and> length es \<le> length (tr_script t)"
proof (induction buf t rule: t_write_all.induct)
  case (1 buf t)
  show ?case
  proof (cases "buf = []")
    case True
    then show ?thesis using "1.prems" by (intro exI [of _ "tr_script t"]) (simp add: t_write_all.simps [of "[]"])
  next
    case False
    from poll_write_flows [OF "1.prems" False] obtain es where es: "flows es"
      "poll_write t buf = (Pending, t\<lparr>tr_script := es\<rparr>) \<and> length es < length (tr_script t) \<or>
       (\<exists>n. 0 < n \<and> n \<le> length buf \<and> poll_write t buf = (Ready (Inr n), t\<lparr>tr_script := es, tr_out := tr_out t @ take n buf\<rparr>) \<and>
          length es \<le> length (tr_script t))" by blast
    from es(2) show ?thesis
    proof (elim disjE conjE exE)
      assume p: "poll_write t buf = (Pending, t\<lparr>tr_script := es\<rparr>)" "length es < length (tr_script t)"
      from "1.IH"(1) [OF False p(1) [symmetric]] es(1) obtain es' where
        "t_write_all buf (t\<lparr>tr_script := es\<rparr>) = (Inr (), t\<lparr>tr_script := es', tr_out := tr_out t @ buf\<rparr>)" "flows es'" "length es' \<le> length es"
        by auto
      then show ?thesis using False p by (intro exI [of _ es']) (simp add: t_write_all.simps [of buf t])
    next
      fix n
      assume p: "0 < n" "n \<le> length buf" "poll_write t buf = (Ready (Inr n), t\<lparr>tr_script := es, tr_out := tr_out t @ take n buf\<rparr>)"
        "length es \<le> length (tr_script t)"
      from "1.IH"(2) [OF False p(3) [symmetric] refl refl] es(1) p(1) obtain es' where
        "t_write_all (drop n buf) (t\<lparr>tr_script := es, tr_out := tr_out t @ take n buf\<rparr>) =
          (Inr (), t\<lparr>tr_script := es', tr_out := tr_out t @ buf\<rparr>)" "flows es'" "length es' \<le> length es"
        by auto
      then show ?thesis using False p by (intro exI [of _ es']) (simp add: t_write_all.simps [of buf t])
    qed
  qed
qed

section \<open>Writing sealed chunks\<close>

text \<open>The loop that hands the sealed bytes to the socket; what it did not take stays buffered.\<close>

function wbuf_loop :: "string \<Rightarrow> transport \<Rightarrow> bytes \<Rightarrow> unit poll \<times> transport \<times> bytes" where
  "wbuf_loop msg t buf =
    (if buf = [] then (Ready (Inr ()), t, [])
     else case poll_write t buf of
       (Pending, t) \<Rightarrow> (Pending, t, buf)
     | (Ready (Inl e), t) \<Rightarrow> (Ready (Inl e), t, buf)
     | (Ready (Inr n), t) \<Rightarrow> if n = 0 then (Ready (Inl (Io msg)), t, buf) else wbuf_loop msg t (drop n buf))"
  by pat_completeness auto
termination
  by (relation "measure (\<lambda>(_, _, buf). length buf)") auto

declare wbuf_loop.simps [simp del]

lemma wbuf_loop_flows:
  "flows (tr_script t) \<Longrightarrow>
   \<exists>es k. flows es \<and> k \<le> length buf \<and>
     (wbuf_loop msg t buf = (Ready (Inr ()), t\<lparr>tr_script := es, tr_out := tr_out t @ buf\<rparr>, []) \<and> length es \<le> length (tr_script t) \<or>
      wbuf_loop msg t buf = (Pending, t\<lparr>tr_script := es, tr_out := tr_out t @ take k buf\<rparr>, drop k buf) \<and> k < length buf \<and>
        length es < length (tr_script t))"
proof (induction msg t buf rule: wbuf_loop.induct)
  case (1 msg t buf)
  show ?case
  proof (cases "buf = []")
    case True
    then show ?thesis using "1.prems" by (intro exI [of _ "tr_script t"] exI [of _ 0]) (simp add: wbuf_loop.simps [of msg t "[]"])
  next
    case False
    from poll_write_flows [OF "1.prems" False] obtain es where es: "flows es"
      "poll_write t buf = (Pending, t\<lparr>tr_script := es\<rparr>) \<and> length es < length (tr_script t) \<or>
       (\<exists>n. 0 < n \<and> n \<le> length buf \<and> poll_write t buf = (Ready (Inr n), t\<lparr>tr_script := es, tr_out := tr_out t @ take n buf\<rparr>) \<and>
          length es \<le> length (tr_script t))" by blast
    from es(2) show ?thesis
    proof (elim disjE conjE exE)
      assume p: "poll_write t buf = (Pending, t\<lparr>tr_script := es\<rparr>)" "length es < length (tr_script t)"
      then show ?thesis using False es(1)
        by (intro exI [of _ es] exI [of _ 0]) (simp add: wbuf_loop.simps [of msg t buf])
    next
      fix n
      assume p: "0 < n" "n \<le> length buf" "poll_write t buf = (Ready (Inr n), t\<lparr>tr_script := es, tr_out := tr_out t @ take n buf\<rparr>)"
        "length es \<le> length (tr_script t)"
      let ?t = "t\<lparr>tr_script := es, tr_out := tr_out t @ take n buf\<rparr>"
      have step: "wbuf_loop msg t buf = wbuf_loop msg ?t (drop n buf)" using False p by (simp add: wbuf_loop.simps [of msg t buf])
      from "1.IH" [OF False p(3) [symmetric] refl refl] es(1) p(1) obtain es' k where k: "flows es'" "k \<le> length (drop n buf)"
        "wbuf_loop msg ?t (drop n buf) = (Ready (Inr ()), ?t\<lparr>tr_script := es', tr_out := tr_out ?t @ drop n buf\<rparr>, []) \<and> length es' \<le> length es \<or>
         wbuf_loop msg ?t (drop n buf) = (Pending, ?t\<lparr>tr_script := es', tr_out := tr_out ?t @ take k (drop n buf)\<rparr>, drop k (drop n buf)) \<and>
           k < length (drop n buf) \<and> length es' < length es" by auto
      from k(3) show ?thesis
      proof
        assume "wbuf_loop msg ?t (drop n buf) = (Ready (Inr ()), ?t\<lparr>tr_script := es', tr_out := tr_out ?t @ drop n buf\<rparr>, []) \<and> length es' \<le> length es"
        then show ?thesis unfolding step using k(1) p(4) by (intro exI [of _ es'] exI [of _ 0]) simp
      next
        assume "wbuf_loop msg ?t (drop n buf) = (Pending, ?t\<lparr>tr_script := es', tr_out := tr_out ?t @ take k (drop n buf)\<rparr>, drop k (drop n buf)) \<and>
           k < length (drop n buf) \<and> length es' < length es"
        moreover have "drop (n + k) buf = drop k (drop n buf)" by (simp add: add.commute)
        moreover have "take (n + k) buf = take n buf @ take k (drop n buf)" by (rule take_add)
        ultimately show ?thesis unfolding step using k(1) p(2,4)
          by (intro exI [of _ es'] exI [of _ "n + k"]) (simp del: drop_drop add: less_diff_conv)
      qed
    qed
  qed
qed

text \<open>Sealing a buffer in chunks, each handed over whole before the next is sealed.\<close>

inductive sealed :: "('a unit_io_scheme \<Rightarrow> bytes \<Rightarrow> unit result \<times> 'a unit_io_scheme) \<Rightarrow>
    ('a unit_io_scheme \<Rightarrow> bytes \<Rightarrow> nat) \<Rightarrow> 'a unit_io_scheme \<Rightarrow> bytes \<Rightarrow> bytes \<Rightarrow> 'a unit_io_scheme \<Rightarrow> bool"
  for seal taken where
  s_done: "sealed seal taken s [] [] s"
| s_chunk: "buf \<noteq> [] \<Longrightarrow> seal s buf = (Inr (), s1) \<Longrightarrow> ui_wbuf s1 \<noteq> [] \<Longrightarrow> 0 < taken s1 buf \<Longrightarrow>
    sealed seal taken (s1\<lparr>ui_wbuf := []\<rparr>) (drop (taken s1 buf) buf) out s2 \<Longrightarrow>
    sealed seal taken s buf (ui_wbuf s1 @ out) s2"

text \<open>Several writes in turn.\<close>

inductive sealed_each :: "('a unit_io_scheme \<Rightarrow> bytes \<Rightarrow> unit result \<times> 'a unit_io_scheme) \<Rightarrow>
    ('a unit_io_scheme \<Rightarrow> bytes \<Rightarrow> nat) \<Rightarrow> 'a unit_io_scheme \<Rightarrow> bytes list \<Rightarrow> bytes \<Rightarrow> 'a unit_io_scheme \<Rightarrow> bool"
  for seal taken where
  e_nil: "sealed_each seal taken s [] [] s"
| e_cons: "sealed seal taken s buf out s1 \<Longrightarrow> sealed_each seal taken s1 bufs out' s2 \<Longrightarrow>
    sealed_each seal taken s (buf # bufs) (out @ out') s2"

fun drive_writes :: "('s \<Rightarrow> bytes \<Rightarrow> nat poll \<times> 's) \<Rightarrow> nat \<Rightarrow> 's \<Rightarrow> bytes list \<Rightarrow> (unit result \<times> 's) option" where
  "drive_writes poll fuel s [] = Some (Inr (), s)"
| "drive_writes poll fuel s (buf # bufs) =
    (case drive_write poll fuel s buf of
       Some (Inr _, s) \<Rightarrow> drive_writes poll fuel s bufs
     | r \<Rightarrow> r)"

lemma sealed_wbuf: "sealed seal taken s buf out s' \<Longrightarrow> ui_wbuf s = [] \<Longrightarrow> ui_wbuf s' = []"
  by (induction rule: sealed.induct) simp_all

text \<open>What sealing leaves alone, writing leaves alone.\<close>

lemma sealed_frame:
  "sealed seal taken s buf out s' \<Longrightarrow> (\<And>s buf r s1. seal s buf = (r, s1) \<Longrightarrow> f s1 = f s) \<Longrightarrow> (\<And>s. f (s\<lparr>ui_wbuf := []\<rparr>) = f s) \<Longrightarrow> f s' = f s"
  by (induction rule: sealed.induct) auto

lemma sealed_each_frame:
  "sealed_each seal taken s bufs out s' \<Longrightarrow> (\<And>s buf r s1. seal s buf = (r, s1) \<Longrightarrow> f s1 = f s) \<Longrightarrow> (\<And>s. f (s\<lparr>ui_wbuf := []\<rparr>) = f s) \<Longrightarrow>
   f s' = f s"
  by (induction rule: sealed_each.induct) (simp_all add: sealed_frame [of seal taken _ _ _ _ f])

locale unit_writer =
  fixes poll :: "'a unit_io_scheme \<Rightarrow> bytes \<Rightarrow> nat poll \<times> 'a unit_io_scheme"
    and seal :: "'a unit_io_scheme \<Rightarrow> bytes \<Rightarrow> unit result \<times> 'a unit_io_scheme"
    and taken :: "'a unit_io_scheme \<Rightarrow> bytes \<Rightarrow> nat"
    and msg :: string
  assumes poll_eq: "poll s buf =
      (if buf = [] then (Ready (Inr 0), s)
       else case (if ui_wbuf s = [] then seal s buf else (Inr (), s)) of
         (Inl e, s) \<Rightarrow> (Ready (Inl e), s)
       | (Inr _, s) \<Rightarrow>
           (case wbuf_loop msg (ui_inner s) (ui_wbuf s) of
              (Pending, t, w) \<Rightarrow> (Pending, s\<lparr>ui_inner := t, ui_wbuf := w\<rparr>)
            | (Ready (Inl e), t, w) \<Rightarrow> (Ready (Inl e), s\<lparr>ui_inner := t, ui_wbuf := w\<rparr>)
            | (Ready (Inr _), t, w) \<Rightarrow> (Ready (Inr (taken s buf)), s\<lparr>ui_inner := t, ui_wbuf := w\<rparr>)))"
    and seal_inner: "seal (s\<lparr>ui_inner := i\<rparr>) buf = (case seal s buf of (r, s') \<Rightarrow> (r, s'\<lparr>ui_inner := i\<rparr>))"
    and taken_buffers: "taken (s\<lparr>ui_inner := i\<rparr>) buf = taken s buf" "taken (s\<lparr>ui_wbuf := w\<rparr>) buf = taken s buf"
begin

lemma chunk_leaves:
  assumes "ui_wbuf s \<noteq> []" and "buf \<noteq> []" and "0 < taken s buf" and "flows (tr_script (ui_inner s))"
    and "length (tr_script (ui_inner s)) + length buf < fuel"
  shows "\<exists>es fuel'. flows es \<and> length es \<le> length (tr_script (ui_inner s)) \<and>
    length es + length (drop (taken s buf) buf) < fuel' \<and>
    drive_write poll fuel s buf = drive_write poll fuel'
      (s\<lparr>ui_wbuf := [], ui_inner := (ui_inner s)\<lparr>tr_script := es, tr_out := tr_out (ui_inner s) @ ui_wbuf s\<rparr>\<rparr>)
      (drop (taken s buf) buf)"
  using assms
proof (induction fuel arbitrary: s)
  case (Suc fuel)
  from wbuf_loop_flows [OF Suc.prems(4), of "ui_wbuf s" msg] obtain es k where es: "flows es" "k \<le> length (ui_wbuf s)"
    "wbuf_loop msg (ui_inner s) (ui_wbuf s) = (Ready (Inr ()), (ui_inner s)\<lparr>tr_script := es, tr_out := tr_out (ui_inner s) @ ui_wbuf s\<rparr>, []) \<and>
       length es \<le> length (tr_script (ui_inner s)) \<or>
     wbuf_loop msg (ui_inner s) (ui_wbuf s) =
       (Pending, (ui_inner s)\<lparr>tr_script := es, tr_out := tr_out (ui_inner s) @ take k (ui_wbuf s)\<rparr>, drop k (ui_wbuf s)) \<and>
       k < length (ui_wbuf s) \<and> length es < length (tr_script (ui_inner s))" by blast
  from es(3) show ?case
  proof (elim disjE conjE)
    assume w: "wbuf_loop msg (ui_inner s) (ui_wbuf s) =
      (Ready (Inr ()), (ui_inner s)\<lparr>tr_script := es, tr_out := tr_out (ui_inner s) @ ui_wbuf s\<rparr>, [])"
      "length es \<le> length (tr_script (ui_inner s))"
    have "poll s buf = (Ready (Inr (taken s buf)),
        s\<lparr>ui_wbuf := [], ui_inner := (ui_inner s)\<lparr>tr_script := es, tr_out := tr_out (ui_inner s) @ ui_wbuf s\<rparr>\<rparr>)"
      unfolding poll_eq [of s buf] using Suc.prems(1,2) w(1) by simp
    moreover have "length es + length (drop (taken s buf) buf) < fuel" using w(2) Suc.prems(2,3,5) by (cases buf) simp_all
    ultimately show ?thesis using es(1) w(2) Suc.prems(2,3) by (intro exI [of _ es] exI [of _ fuel]) simp
  next
    assume w: "wbuf_loop msg (ui_inner s) (ui_wbuf s) =
        (Pending, (ui_inner s)\<lparr>tr_script := es, tr_out := tr_out (ui_inner s) @ take k (ui_wbuf s)\<rparr>, drop k (ui_wbuf s))"
      "k < length (ui_wbuf s)" "length es < length (tr_script (ui_inner s))"
    let ?s = "s\<lparr>ui_inner := (ui_inner s)\<lparr>tr_script := es, tr_out := tr_out (ui_inner s) @ take k (ui_wbuf s)\<rparr>, ui_wbuf := drop k (ui_wbuf s)\<rparr>"
    have "poll s buf = (Pending, ?s)" unfolding poll_eq [of s buf] using Suc.prems(1,2) w(1) by simp
    then have "drive_write poll (Suc fuel) s buf = drive_write poll fuel ?s buf" using Suc.prems(2) by simp
    moreover have "taken ?s buf = taken s buf" by (simp add: taken_buffers)
    moreover have "\<exists>es' fuel'. flows es' \<and> length es' \<le> length es \<and> length es' + length (drop (taken ?s buf) buf) < fuel' \<and>
      drive_write poll fuel ?s buf = drive_write poll fuel'
        (?s\<lparr>ui_wbuf := [], ui_inner := (ui_inner ?s)\<lparr>tr_script := es', tr_out := tr_out (ui_inner ?s) @ ui_wbuf ?s\<rparr>\<rparr>) (drop (taken ?s buf) buf)"
      using Suc.IH [of ?s] Suc.prems(2,3,5) w(2,3) es(1) by (simp add: taken_buffers)
    ultimately show ?thesis using w(3) by (auto intro: le_trans [OF _ less_imp_le] simp del: drive_write.simps)
  qed
qed simp

lemma sealed_inner:
  "sealed seal taken s buf out s' \<Longrightarrow> sealed seal taken (s\<lparr>ui_inner := i\<rparr>) buf out (s'\<lparr>ui_inner := i\<rparr>)"
proof (induction rule: sealed.induct)
  case (s_done s)
  show ?case by (rule sealed.s_done)
next
  case (s_chunk buf s s1 out s2)
  have "seal (s\<lparr>ui_inner := i\<rparr>) buf = (Inr (), s1\<lparr>ui_inner := i\<rparr>)" using s_chunk.hyps(2) by (simp add: seal_inner)
  moreover have c: "s1\<lparr>ui_inner := i, ui_wbuf := []\<rparr> = s1\<lparr>ui_wbuf := [], ui_inner := i\<rparr>" by simp
  have "sealed seal taken (s1\<lparr>ui_inner := i, ui_wbuf := []\<rparr>) (drop (taken s1 buf) buf) out (s2\<lparr>ui_inner := i\<rparr>)"
    unfolding c by (rule s_chunk.IH)
  moreover have "ui_wbuf s1 = ui_wbuf (s1\<lparr>ui_inner := i\<rparr>)" by simp
  moreover have "taken (s1\<lparr>ui_inner := i\<rparr>) buf = taken s1 buf" by (rule taken_buffers)
  ultimately show ?case using s_chunk.hyps(1,3,4) by (metis sealed.s_chunk)
qed

lemma sealed_each_inner:
  "sealed_each seal taken s bufs out s' \<Longrightarrow> sealed_each seal taken (s\<lparr>ui_inner := i\<rparr>) bufs out (s'\<lparr>ui_inner := i\<rparr>)"
  by (induction rule: sealed_each.induct) (auto intro: sealed_each.intros sealed_inner)

lemma writes_all:
  "sealed seal taken s buf out s' \<Longrightarrow> ui_wbuf s = [] \<Longrightarrow> flows (tr_script (ui_inner s)) \<Longrightarrow>
   length (tr_script (ui_inner s)) + length buf < fuel \<Longrightarrow>
   \<exists>es. flows es \<and> length es \<le> length (tr_script (ui_inner s)) \<and> drive_write poll fuel s buf =
     Some (Inr (), s'\<lparr>ui_inner := (ui_inner s)\<lparr>tr_script := es, tr_out := tr_out (ui_inner s) @ out\<rparr>\<rparr>)"
proof (induction "length buf" arbitrary: s buf out s' fuel rule: less_induct)
  case less
  from less.prems(1) show ?case
  proof (cases rule: sealed.cases)
    case s_done
    then show ?thesis using less.prems by (intro exI [of _ "tr_script (ui_inner s)"]) (cases fuel, simp_all)
  next
    case (s_chunk s1 out')
    have "seal (s\<lparr>ui_inner := ui_inner s\<rparr>) buf = (Inr (), s1\<lparr>ui_inner := ui_inner s\<rparr>)"
      unfolding seal_inner using s_chunk(3) by simp
    then have "s1 = s1\<lparr>ui_inner := ui_inner s\<rparr>" using s_chunk(3) by simp
    then have inner: "ui_inner s1 = ui_inner s" by (metis unit_io.select_convs(1) unit_io.surjective unit_io.update_convs(1))
    have same: "poll s buf = poll s1 buf" unfolding poll_eq [of s buf] poll_eq [of s1 buf] using s_chunk(2-4) less.prems(2) by simp
    have "drive_write poll fuel s buf = drive_write poll fuel s1 buf" using less.prems(4) same s_chunk(2) by (cases fuel) simp_all
    moreover from chunk_leaves [OF s_chunk(4,2,5)] less.prems(3,4) obtain es fuel' where es: "flows es"
      "length es + length (drop (taken s1 buf) buf) < fuel'" and shorter: "length es \<le> length (tr_script (ui_inner s))" and
      step: "drive_write poll fuel s1 buf = drive_write poll fuel'
        (s1\<lparr>ui_wbuf := [], ui_inner := (ui_inner s)\<lparr>tr_script := es, tr_out := tr_out (ui_inner s) @ ui_wbuf s1\<rparr>\<rparr>)
        (drop (taken s1 buf) buf)" unfolding inner by blast
    let ?i = "(ui_inner s)\<lparr>tr_script := es, tr_out := tr_out (ui_inner s) @ ui_wbuf s1\<rparr>"
    have "length (drop (taken s1 buf) buf) < length buf" using s_chunk(2,5) by (cases buf) simp_all
    from less.hyps [OF this sealed_inner [OF s_chunk(6), of ?i]] es(1,2) obtain es' where "flows es'" "length es' \<le> length es"
      "drive_write poll fuel' (s1\<lparr>ui_wbuf := [], ui_inner := ?i\<rparr>) (drop (taken s1 buf) buf) =
        Some (Inr (), s'\<lparr>ui_inner := (ui_inner s)\<lparr>tr_script := es', tr_out := tr_out (ui_inner s) @ ui_wbuf s1 @ out'\<rparr>\<rparr>)"
      by auto
    ultimately show ?thesis using step shorter s_chunk(1) by (intro exI [of _ es']) simp
  qed
qed

text \<open>Several writes in turn.\<close>

lemma writes_each:
  "sealed_each seal taken s bufs out s' \<Longrightarrow> ui_wbuf s = [] \<Longrightarrow> flows (tr_script (ui_inner s)) \<Longrightarrow>
   length (tr_script (ui_inner s)) + length (concat bufs) < fuel \<Longrightarrow>
   \<exists>es. flows es \<and> drive_writes poll fuel s bufs =
     Some (Inr (), s'\<lparr>ui_inner := (ui_inner s)\<lparr>tr_script := es, tr_out := tr_out (ui_inner s) @ out\<rparr>\<rparr>)"
proof (induction bufs arbitrary: s out s')
  case Nil
  then have "out = []" "s' = s" by (auto elim: sealed_each.cases)
  then show ?case using Nil.prems(3) by (intro exI [of _ "tr_script (ui_inner s)"]) simp
next
  case (Cons buf bufs)
  from Cons.prems(1) obtain out1 s1 out2 where s: "sealed seal taken s buf out1 s1" "sealed_each seal taken s1 bufs out2 s'" "out = out1 @ out2"
    by (auto elim: sealed_each.cases)
  from writes_all [OF s(1) Cons.prems(2,3), of fuel] Cons.prems(4) obtain es where es: "flows es" "length es \<le> length (tr_script (ui_inner s))"
    "drive_write poll fuel s buf = Some (Inr (), s1\<lparr>ui_inner := (ui_inner s)\<lparr>tr_script := es, tr_out := tr_out (ui_inner s) @ out1\<rparr>\<rparr>)"
    by auto
  let ?i = "(ui_inner s)\<lparr>tr_script := es, tr_out := tr_out (ui_inner s) @ out1\<rparr>"
  have "ui_wbuf s1 = []" using s(1) Cons.prems(2) by (rule sealed_wbuf)
  then obtain es' where "flows es'" "drive_writes poll fuel (s1\<lparr>ui_inner := ?i\<rparr>) bufs =
      Some (Inr (), s'\<lparr>ui_inner := (ui_inner s)\<lparr>tr_script := es', tr_out := tr_out (ui_inner s) @ out1 @ out2\<rparr>\<rparr>)"
    using Cons.IH [OF sealed_each_inner [OF s(2), of ?i]] es(1,2) Cons.prems(4) by auto
  then show ?case using es(3) s(3) by auto
qed

end

section \<open>Units decoded one after the other\<close>

text \<open>From \<open>s\<close> the reader delivers \<open>p\<close> and is then in \<open>s'\<close>.\<close>

definition delivers_until :: "('a unit_io_scheme \<Rightarrow> bool) \<Rightarrow> ('a unit_io_scheme \<Rightarrow> nat) \<Rightarrow>
    ('a unit_io_scheme \<Rightarrow> unit result \<times> 'a unit_io_scheme) \<Rightarrow> 'a unit_io_scheme \<Rightarrow> bytes \<Rightarrow> 'a unit_io_scheme \<Rightarrow> bool" where
  "delivers_until stop need advance s p s' \<longleftrightarrow>
    (\<forall>out e. drains_until stop need advance s' out e \<longrightarrow> drains_until stop need advance s (p @ out) e)"

abbreviation delivers :: "('a unit_io_scheme \<Rightarrow> nat) \<Rightarrow> ('a unit_io_scheme \<Rightarrow> unit result \<times> 'a unit_io_scheme) \<Rightarrow>
    'a unit_io_scheme \<Rightarrow> bytes \<Rightarrow> 'a unit_io_scheme \<Rightarrow> bool" where
  "delivers \<equiv> delivers_until (\<lambda>_. False)"

lemma delivers_until_refl: "delivers_until stop need advance s [] s"
  by (simp add: delivers_until_def)

lemma delivers_until_trans:
  "delivers_until stop need advance s p s' \<Longrightarrow> delivers_until stop need advance s' q s'' \<Longrightarrow> delivers_until stop need advance s (p @ q) s''"
  by (simp add: delivers_until_def)

lemma delivers_until_unit:
  "\<not> stop s \<Longrightarrow> need s \<le> length (ui_rbuf s) \<Longrightarrow> advance s = (Inr (), s') \<Longrightarrow>
   delivers_until stop need advance s (ui_plain s') (s'\<lparr>ui_plain := []\<rparr>)"
  unfolding delivers_until_def using d_unit [of stop s need advance s'] by blast

lemma delivers_until_silent:
  "\<not> stop s \<Longrightarrow> need s \<le> length (ui_rbuf s) \<Longrightarrow> advance s = (Inr (), s') \<Longrightarrow> ui_plain s' = [] \<Longrightarrow>
   delivers_until stop need advance s [] s'"
proof -
  assume a: "\<not> stop s" "need s \<le> length (ui_rbuf s)" "advance s = (Inr (), s')" "ui_plain s' = []"
  then have "s'\<lparr>ui_plain := []\<rparr> = s'" by simp
  with delivers_until_unit [of stop s need advance s'] a show ?thesis by simp
qed

lemma delivers_until_end:
  "delivers_until stop need advance s p s' \<Longrightarrow> stop s' \<or> ui_rbuf s' = [] \<and> 0 < need s' \<Longrightarrow> drains_until stop need advance s p None"
  using d_short [of stop s' need advance] d_stop [of stop s' need advance] unfolding delivers_until_def
  by (metis append_Nil2 list.size(3))

text \<open>The same for a reader that never stops before its input ends.\<close>

lemma delivers_refl: "delivers need advance s [] s"
  by (rule delivers_until_refl)

lemma delivers_trans: "delivers need advance s p s' \<Longrightarrow> delivers need advance s' q s'' \<Longrightarrow> delivers need advance s (p @ q) s''"
  by (rule delivers_until_trans)

lemma delivers_unit:
  "need s \<le> length (ui_rbuf s) \<Longrightarrow> advance s = (Inr (), s') \<Longrightarrow> delivers need advance s (ui_plain s') (s'\<lparr>ui_plain := []\<rparr>)"
  by (rule delivers_until_unit) simp_all

lemma delivers_silent:
  "need s \<le> length (ui_rbuf s) \<Longrightarrow> advance s = (Inr (), s') \<Longrightarrow> ui_plain s' = [] \<Longrightarrow> delivers need advance s [] s'"
  by (rule delivers_until_silent) simp_all

lemma delivers_end:
  "delivers need advance s p s' \<Longrightarrow> ui_rbuf s' = [] \<Longrightarrow> 0 < need s' \<Longrightarrow> drains need advance s p None"
  by (rule delivers_until_end) simp_all

section \<open>Chunk by chunk\<close>

text \<open>
  What \<open>s\<close> wrote decodes to \<open>p\<close> at every reader in step with it, and leaves the two in step.
\<close>

definition heard_by :: "('a unit_io_scheme \<Rightarrow> bool) \<Rightarrow> ('a unit_io_scheme \<Rightarrow> nat) \<Rightarrow>
    ('a unit_io_scheme \<Rightarrow> unit result \<times> 'a unit_io_scheme) \<Rightarrow> ('w \<Rightarrow> 'a unit_io_scheme \<Rightarrow> bool) \<Rightarrow>
    'w \<Rightarrow> bytes \<Rightarrow> bytes \<Rightarrow> 'w \<Rightarrow> bool" where
  "heard_by stop need advance step s out p s' \<longleftrightarrow> (\<forall>c rest. step s c \<longrightarrow> ui_rbuf c = out @ rest \<longrightarrow>
     (\<exists>c'. step s' c' \<and> ui_rbuf c' = rest \<and> delivers_until stop need advance c p c'))"

lemma heard_by_refl: "heard_by stop need advance step s [] [] s"
  unfolding heard_by_def using delivers_until_refl by (metis append_Nil)

lemma heard_by_trans:
  "heard_by stop need advance step s out p s' \<Longrightarrow> heard_by stop need advance step s' out' q s'' \<Longrightarrow>
   heard_by stop need advance step s (out @ out') (p @ q) s''"
  unfolding heard_by_def by (metis append_assoc delivers_until_trans)

text \<open>A reader in step decodes all that was written, to the end of its input.\<close>

lemma heard_by_drains:
  assumes "heard_by stop need advance step s out p s'" and "step s c" and "ui_rbuf c = out" and "\<And>c. step s' c \<Longrightarrow> 0 < need c"
  shows "drains_until stop need advance c p None"
proof -
  from assms(1-3) obtain c' where "step s' c'" "ui_rbuf c' = []" "delivers_until stop need advance c p c'"
    unfolding heard_by_def by (metis append_Nil2)
  then show ?thesis using assms(4) delivers_until_end by metis
qed

text \<open>The contract of a writer whose single chunks are heard.\<close>

locale chunk_writer =
  fixes seal :: "'a unit_io_scheme \<Rightarrow> bytes \<Rightarrow> unit result \<times> 'a unit_io_scheme"
    and taken :: "'a unit_io_scheme \<Rightarrow> bytes \<Rightarrow> nat"
    and ready :: "'a unit_io_scheme \<Rightarrow> bool"
    and heard :: "'a unit_io_scheme \<Rightarrow> bytes \<Rightarrow> bytes \<Rightarrow> 'a unit_io_scheme \<Rightarrow> bool"
  assumes chunk: "ready s \<Longrightarrow> buf \<noteq> [] \<Longrightarrow>
      \<exists>s1. seal s buf = (Inr (), s1) \<and> ui_wbuf s1 \<noteq> [] \<and> 0 < taken s1 buf \<and> ready (s1\<lparr>ui_wbuf := []\<rparr>) \<and>
        heard s (ui_wbuf s1) (take (taken s1 buf) buf) (s1\<lparr>ui_wbuf := []\<rparr>)"
    and heard_refl: "heard s [] [] s"
    and heard_trans: "heard s out p s' \<Longrightarrow> heard s' out' q s'' \<Longrightarrow> heard s (out @ out') (p @ q) s''"
begin

lemma write_heard: "ready s \<Longrightarrow> \<exists>out s'. sealed seal taken s buf out s' \<and> ready s' \<and> heard s out buf s'"
proof (induction "length buf" arbitrary: s buf rule: less_induct)
  case less
  show ?case
  proof (cases "buf = []")
    case True
    then show ?thesis using less.prems heard_refl by (blast intro: sealed.s_done)
  next
    case False
    from chunk [OF less.prems False] obtain s1 where s1:
      "seal s buf = (Inr (), s1)" "ui_wbuf s1 \<noteq> []" "0 < taken s1 buf" "ready (s1\<lparr>ui_wbuf := []\<rparr>)"
      "heard s (ui_wbuf s1) (take (taken s1 buf) buf) (s1\<lparr>ui_wbuf := []\<rparr>)" by blast
    then have "length (drop (taken s1 buf) buf) < length buf" using False by (cases buf) simp_all
    from less.hyps [OF this s1(4)] obtain out s' where
      "sealed seal taken (s1\<lparr>ui_wbuf := []\<rparr>) (drop (taken s1 buf) buf) out s'" "ready s'"
      "heard (s1\<lparr>ui_wbuf := []\<rparr>) out (drop (taken s1 buf) buf) s'" by blast
    then show ?thesis using sealed.s_chunk [of buf seal s s1 taken, OF False s1(1,2,3)] heard_trans [OF s1(5)]
      by (metis append_take_drop_id)
  qed
qed

lemma writes_heard: "ready s \<Longrightarrow> \<exists>out s'. sealed_each seal taken s bufs out s' \<and> ready s' \<and> heard s out (concat bufs) s'"
proof (induction bufs arbitrary: s)
  case Nil
  then show ?case using heard_refl by (metis concat.simps(1) sealed_each.e_nil)
next
  case (Cons buf bufs)
  from write_heard [OF Cons.prems, of buf] obtain out s1 where
    one: "sealed seal taken s buf out s1" "ready s1" "heard s out buf s1" by blast
  from Cons.IH [OF one(2)] obtain out' s' where
    "sealed_each seal taken s1 bufs out' s'" "ready s'" "heard s1 out' (concat bufs) s'" by blast
  with one show ?case using heard_trans by (metis concat.simps(2) sealed_each.e_cons)
qed

end

section \<open>Reading a prefix\<close>

lemma t_read_prefix:
  assumes "steady (tr_in t)" and "arrived (tr_in t) = xs @ rest" and "length xs = n"
  shows "\<exists>es. steady es \<and> arrived es = rest \<and> t_bind (t_read_exact n) f t = f xs (t\<lparr>tr_in := es\<rparr>)"
proof -
  from t_read_exact_steady [OF assms(1), of n] assms(2,3) obtain es where
    "t_read_exact n t = (Inr xs, t\<lparr>tr_in := es\<rparr>)" "steady es" "arrived es = rest" by auto
  then show ?thesis by (intro exI [of _ es]) (simp add: t_bind_def)
qed

text \<open>The schedule that delivers one byte at a time.\<close>

definition trickle :: "bytes \<Rightarrow> arrival list" where
  "trickle bs = map (\<lambda>b. Arrived [b]) bs"

lemma trickle_arrives: "steady (trickle bs)" "arrived (trickle bs) = bs"
  by (induction bs) (simp_all add: trickle_def steady_def)

end
