(* ===== verification/Aead.thy ===== *)
theory Aead
  imports Transport
begin

text \<open>
  The AEAD constructions and key derivations the Shadowsocks client and server share
  (src/engine/src/proto/aead.rs). The primitives of the RustCrypto crates are the record \<open>crypto\<close>, an
  argument of every definition that calls one; \<open>aead_lawful\<close> and \<open>aes_lawful\<close> state what the
  code relies on. Digests are words of their fixed width, so lengths need no hypothesis.
\<close>

section \<open>The primitives\<close>

datatype aead_kind = Aes128Gcm | Aes256Gcm | Chacha20Poly1305

definition key_len :: "aead_kind \<Rightarrow> nat" where
  "key_len k = (case k of Aes128Gcm \<Rightarrow> 16 | Aes256Gcm \<Rightarrow> 32 | Chacha20Poly1305 \<Rightarrow> 32)"

text \<open>A cipher with its key.\<close>

datatype aead = CipherAes128 bytes | CipherAes256 bytes | CipherChacha bytes

record crypto =
  cr_seal :: "aead \<Rightarrow> bytes \<Rightarrow> bytes \<Rightarrow> bytes \<Rightarrow> bytes option"
  cr_open :: "aead \<Rightarrow> bytes \<Rightarrow> bytes \<Rightarrow> bytes \<Rightarrow> bytes option"
  cr_md5 :: "bytes \<Rightarrow> u128"
  cr_hmac_sha1 :: "bytes \<Rightarrow> bytes \<Rightarrow> 160 word"
  cr_blake3 :: "bytes \<Rightarrow> 256 word"
  cr_derive_key :: "string \<Rightarrow> bytes \<Rightarrow> 256 word"
  cr_aes_encrypt :: "bytes \<Rightarrow> bytes \<Rightarrow> bytes"
  cr_aes_decrypt :: "bytes \<Rightarrow> bytes \<Rightarrow> bytes"
  cr_base64 :: "string \<Rightarrow> bytes option"

fun aead_keyed :: "aead \<Rightarrow> bool" where
  "aead_keyed (CipherAes128 k) = (length k = 16)"
| "aead_keyed (CipherAes256 k) = (length k = 32)"
| "aead_keyed (CipherChacha k) = (length k = 32)"

text \<open>
  Sealing appends a tag of 16 bytes and opening undoes it. All three constructions seal every message
  shorter than \<open>2\<^sup>3\<^sup>2\<close> bytes.
\<close>

definition aead_lawful :: "'a crypto_scheme \<Rightarrow> bool" where
  "aead_lawful cr \<longleftrightarrow>
    (\<forall>c nonce aad plain. aead_keyed c \<longrightarrow> length nonce = 12 \<longrightarrow> length plain < 2 ^ 32 \<longrightarrow>
       (\<exists>ct. cr_seal cr c nonce aad plain = Some ct \<and> length ct = length plain + 16 \<and> cr_open cr c nonce aad ct = Some plain)) \<and>
    (\<forall>c nonce aad ct plain. cr_open cr c nonce aad ct = Some plain \<longrightarrow> length ct = length plain + 16)"

definition aes_lawful :: "'a crypto_scheme \<Rightarrow> bool" where
  "aes_lawful cr \<longleftrightarrow>
    (\<forall>key block. length key \<in> {16, 32} \<longrightarrow> length block = 16 \<longrightarrow>
       length (cr_aes_encrypt cr key block) = 16 \<and> cr_aes_decrypt cr key (cr_aes_encrypt cr key block) = block)"

section \<open>Keyed ciphers\<close>

definition aead_new :: "aead_kind \<Rightarrow> bytes \<Rightarrow> aead result" where
  "aead_new kind key =
    (if length key \<noteq> key_len kind then Inl (Crypto ''aead key length'')
     else Inr (case kind of Aes128Gcm \<Rightarrow> CipherAes128 key | Aes256Gcm \<Rightarrow> CipherAes256 key | Chacha20Poly1305 \<Rightarrow> CipherChacha key))"

definition aead_seal :: "'a crypto_scheme \<Rightarrow> aead \<Rightarrow> bytes \<Rightarrow> bytes \<Rightarrow> bytes \<Rightarrow> bytes \<Rightarrow> bytes result" where
  "aead_seal cr c nonce aad plain out =
    rbind (ok_or (cr_seal cr c nonce aad plain) (Crypto ''aead seal failed'')) (\<lambda>ct. Inr (out @ ct))"

definition aead_open :: "'a crypto_scheme \<Rightarrow> aead \<Rightarrow> bytes \<Rightarrow> bytes \<Rightarrow> bytes \<Rightarrow> bytes result" where
  "aead_open cr c nonce aad ct =
    ok_or (cr_open cr c nonce aad ct) (Crypto ''aead open failed (wrong key, corrupted stream, or replayed salt'')"

lemma aead_new_keyed: "aead_new kind key = Inr c \<Longrightarrow> aead_keyed c"
  by (auto simp: aead_new_def key_len_def split: if_splits aead_kind.splits)

lemma aead_new_ok: "length key = key_len kind \<Longrightarrow> \<exists>c. aead_new kind key = Inr c \<and> aead_keyed c"
  by (cases kind) (auto simp: aead_new_def key_len_def)

lemma aead_seals:
  assumes "aead_lawful cr" and "aead_keyed c" and "length nonce = 12" and "length plain < 2 ^ 32"
  shows "\<exists>ct. aead_seal cr c nonce aad plain out = Inr (out @ ct) \<and> length ct = length plain + 16 \<and> aead_open cr c nonce aad ct = Inr plain"
proof -
  from assms obtain ct where "cr_seal cr c nonce aad plain = Some ct" "length ct = length plain + 16" "cr_open cr c nonce aad ct = Some plain"
    unfolding aead_lawful_def by blast
  then show ?thesis by (intro exI [of _ ct]) (simp add: aead_seal_def aead_open_def)
qed

lemma aead_open_length: "aead_lawful cr \<Longrightarrow> aead_open cr c nonce aad ct = Inr plain \<Longrightarrow> length ct = length plain + 16"
  by (auto simp: aead_lawful_def aead_open_def ok_or_def split: option.splits)

section \<open>Nonces\<close>

type_synonym ss_nonce = u64

definition nonce_bytes :: "ss_nonce \<Rightarrow> bytes" where
  "nonce_bytes n = rev (be_bytes 8 n) @ replicate 4 0"

text \<open>\<open>advance\<close>: the nonce to use now, and the counter after it.\<close>

definition nonce_advance :: "ss_nonce \<Rightarrow> bytes \<times> ss_nonce" where
  "nonce_advance n = (nonce_bytes n, n + 1)"

lemma length_nonce_bytes [simp]: "length (nonce_bytes n) = 12"
  by (simp add: nonce_bytes_def)

lemma nonce_bytes_inj: "nonce_bytes m = nonce_bytes n \<Longrightarrow> m = n"
  using be_bytes_inj [of 8 m n] by (simp add: nonce_bytes_def)

section \<open>Key derivation\<close>

text \<open>The loop of \<open>evp_bytes_to_key\<close>: \<open>d\<close> is the last digest.\<close>

function evp_loop :: "'a crypto_scheme \<Rightarrow> bytes \<Rightarrow> nat \<Rightarrow> bytes \<Rightarrow> bytes \<Rightarrow> bytes" where
  "evp_loop cr password n d out =
    (if length out < n then let d = u128_be (cr_md5 cr (d @ password)) in evp_loop cr password n d (out @ d)
     else take n out)"
  by pat_completeness auto
termination
  by (relation "measure (\<lambda>(_, _, n, _, out). n - length out)") auto

declare evp_loop.simps [simp del]

definition evp_bytes_to_key :: "'a crypto_scheme \<Rightarrow> bytes \<Rightarrow> nat \<Rightarrow> bytes" where
  "evp_bytes_to_key cr password n = (let d = u128_be (cr_md5 cr password) in evp_loop cr password n d d)"

text \<open>The loop of \<open>hkdf_sha1\<close>: the previous block, the counter, and what was produced so far.\<close>

function hkdf_loop :: "'a crypto_scheme \<Rightarrow> bytes \<Rightarrow> bytes \<Rightarrow> nat \<Rightarrow> bytes \<Rightarrow> u8 \<Rightarrow> bytes \<Rightarrow> bytes" where
  "hkdf_loop cr prk info n t counter out =
    (if length out < n then
       let block = be_bytes 20 (cr_hmac_sha1 cr prk (t @ info @ [counter])) in
       hkdf_loop cr prk info n block (counter + 1) (out @ take (min (n - length out) 20) block)
     else out)"
  by pat_completeness auto
termination
  by (relation "measure (\<lambda>(_, _, _, n, _, _, out). n - length out)") auto

declare hkdf_loop.simps [simp del]

definition hkdf_sha1 :: "'a crypto_scheme \<Rightarrow> bytes \<Rightarrow> bytes \<Rightarrow> bytes \<Rightarrow> nat \<Rightarrow> bytes" where
  "hkdf_sha1 cr ikm salt info n = hkdf_loop cr (be_bytes 20 (cr_hmac_sha1 cr salt ikm)) info n [] 1 []"

definition ss_subkey_legacy :: "'a crypto_scheme \<Rightarrow> bytes \<Rightarrow> bytes \<Rightarrow> bytes" where
  "ss_subkey_legacy cr key salt = hkdf_sha1 cr key salt (as_bytes ''ss-subkey'') (length key)"

definition ss2022_subkey :: "'a crypto_scheme \<Rightarrow> bytes \<Rightarrow> bytes \<Rightarrow> nat \<Rightarrow> bytes" where
  "ss2022_subkey cr key salt n = take n (be_bytes 32 (cr_derive_key cr ''shadowsocks 2022 session subkey'' (key @ salt)))"

lemma length_evp_bytes_to_key [simp]: "length (evp_bytes_to_key cr password n) = n"
proof -
  have "length (evp_loop cr password n d out) = n" for d out
  proof (induction cr password n d out rule: evp_loop.induct)
    case (1 cr password n d out)
    then show ?case by (subst evp_loop.simps) (simp add: Let_def)
  qed
  then show ?thesis by (simp add: evp_bytes_to_key_def Let_def)
qed

lemma length_hkdf_sha1 [simp]: "length (hkdf_sha1 cr ikm salt info n) = n"
proof -
  have "length out \<le> n \<Longrightarrow> length (hkdf_loop cr prk info n t c out) = n" for prk t c out
  proof (induction cr prk info n t c out rule: hkdf_loop.induct)
    case (1 cr prk info n t c out)
    then show ?case by (subst hkdf_loop.simps) (simp add: Let_def)
  qed
  then show ?thesis by (simp add: hkdf_sha1_def)
qed

lemma length_subkeys [simp]:
  "length (ss_subkey_legacy cr key salt) = length key"
  "n \<le> 32 \<Longrightarrow> length (ss2022_subkey cr key salt n) = n"
  by (simp_all add: ss_subkey_legacy_def ss2022_subkey_def)

subsection \<open>The constructions the standards define\<close>

text \<open>EVP\_BytesToKey: the digests \<open>D\<^sub>1 = md5 p\<close>, \<open>D\<^sub>i\<^sub>+\<^sub>1 = md5 (D\<^sub>i @ p)\<close>, cut to the key length.\<close>

primrec evp_digest :: "'a crypto_scheme \<Rightarrow> bytes \<Rightarrow> nat \<Rightarrow> bytes" where
  "evp_digest cr p 0 = u128_be (cr_md5 cr p)"
| "evp_digest cr p (Suc i) = u128_be (cr_md5 cr (evp_digest cr p i @ p))"

text \<open>RFC 5869: \<open>T(0)\<close> is empty, \<open>T(i+1) = HMAC(PRK, T(i) | info | i+1)\<close>.\<close>

primrec hkdf_block :: "'a crypto_scheme \<Rightarrow> bytes \<Rightarrow> bytes \<Rightarrow> nat \<Rightarrow> bytes" where
  "hkdf_block cr prk info 0 = []"
| "hkdf_block cr prk info (Suc i) = be_bytes 20 (cr_hmac_sha1 cr prk (hkdf_block cr prk info i @ info @ [word_of_nat (Suc i)]))"

lemma length_evp_digest [simp]: "length (evp_digest cr p i) = 16"
  by (cases i) simp_all

lemma length_concat_const: "(\<And>x. x \<in> set xs \<Longrightarrow> length (f x) = k) \<Longrightarrow> length (concat (map f xs)) = k * length xs"
  by (induction xs) simp_all

lemma evp_loop_spec:
  "n \<le> 16 * (Suc i + k) \<Longrightarrow>
   evp_loop cr p n (evp_digest cr p i) (concat (map (evp_digest cr p) [0..<Suc i])) =
   take n (concat (map (evp_digest cr p) [0..<Suc i + k]))"
proof (induction k arbitrary: i)
  case 0
  have len: "length (concat (map (evp_digest cr p) [0..<Suc i])) = 16 * Suc i" using length_concat_const [of "[0..<Suc i]" "evp_digest cr p" 16] by simp
  then show ?case using 0 by (subst evp_loop.simps) (simp only: add_0_right, simp)
next
  case (Suc k)
  let ?out = "concat (map (evp_digest cr p) [0..<Suc i])"
  have len: "length ?out = 16 * Suc i" using length_concat_const [of "[0..<Suc i]" "evp_digest cr p" 16] by simp
  show ?case
  proof (cases "length ?out < n")
    case True
    have "evp_loop cr p n (evp_digest cr p i) ?out =
        evp_loop cr p n (evp_digest cr p (Suc i)) (concat (map (evp_digest cr p) [0..<Suc (Suc i)]))"
      using True by (subst evp_loop.simps) (simp add: Let_def)
    also have "\<dots> = take n (concat (map (evp_digest cr p) [0..<Suc (Suc i) + k]))" using Suc.IH [of "Suc i"] Suc.prems by simp
    finally show ?thesis by simp
  next
    case False
    have "[0..<Suc i + Suc k] = [0..<Suc i] @ [Suc i..<Suc i + Suc k]" by (rule upt_add_eq_append) simp
    then have "take n (concat (map (evp_digest cr p) [0..<Suc i + Suc k])) = take n ?out" using False by (simp only: map_append concat_append take_append) simp
    then show ?thesis using False by (subst evp_loop.simps) (simp only: if_False)
  qed
qed

lemma evp_bytes_to_key_chain: "n \<le> 16 * m \<Longrightarrow> evp_bytes_to_key cr p n = take n (concat (map (evp_digest cr p) [0..<m]))"
  using evp_loop_spec [of n 0 "m - 1" cr p] by (cases m) (simp_all add: evp_bytes_to_key_def Let_def evp_loop.simps)

lemma take_min_append: "length b = 20 \<Longrightarrow> take n (out @ take (min (n - length out) 20) b @ rest) = take n (out @ b @ rest)"
  by (cases "n - length out \<le> 20") (simp_all add: min_absorb1 min_absorb2)

lemma hkdf_loop_spec:
  "n \<le> 20 * (i + k) \<Longrightarrow> length out = min n (20 * i) \<Longrightarrow>
   hkdf_loop cr prk info n (hkdf_block cr prk info i) (word_of_nat (Suc i)) out =
   take n (out @ concat (map (hkdf_block cr prk info) [Suc i..<Suc (i + k)]))"
proof (induction k arbitrary: i out)
  case 0
  then show ?case by (subst hkdf_loop.simps) simp
next
  case (Suc k)
  let ?b = "hkdf_block cr prk info (Suc i)"
  have len: "length ?b = 20" by simp
  show ?case
  proof (cases "length out < n")
    case True
    let ?out = "out @ take (min (n - length out) 20) ?b"
    let ?rest = "concat (map (hkdf_block cr prk info) [Suc (Suc i)..<Suc (Suc i + k)])"
    have c: "(word_of_nat (Suc i) :: u8) + 1 = word_of_nat (Suc (Suc i))" by simp
    have "hkdf_loop cr prk info n (hkdf_block cr prk info i) (word_of_nat (Suc i)) out = hkdf_loop cr prk info n ?b (word_of_nat (Suc (Suc i))) ?out"
      using True c by (subst hkdf_loop.simps) (simp add: Let_def)
    also have "\<dots> = take n (?out @ ?rest)" 
    proof (rule Suc.IH)
      show "n \<le> 20 * (Suc i + k)" using Suc.prems(1) by simp
      show "length ?out = min n (20 * Suc i)" using Suc.prems(2) True len by (simp del: hkdf_block.simps)
    qed
    also have "\<dots> = take n (out @ ?b @ ?rest)" using take_min_append [OF len, of n out] by simp
    also have "?b @ ?rest = concat (map (hkdf_block cr prk info) [Suc i..<Suc (i + Suc k)])"
      by (simp add: upt_conv_Cons del: upt_Suc)
    finally show ?thesis .
  next
    case False
    then show ?thesis using Suc.prems(2) by (subst hkdf_loop.simps) simp
  qed
qed

lemma hkdf_sha1_rfc5869:
  "n \<le> 20 * m \<Longrightarrow>
   hkdf_sha1 cr ikm salt info n = take n (concat (map (hkdf_block cr (be_bytes 20 (cr_hmac_sha1 cr salt ikm)) info) [1..<Suc m]))"
  using hkdf_loop_spec [of n 0 m "[]" cr "be_bytes 20 (cr_hmac_sha1 cr salt ikm)" info] by (simp add: hkdf_sha1_def)

text \<open>
  the key derivations are the standard ones, for every length. \<open>evp_bytes_to_key\<close> is the chain of MD5 digests cut to
  the key length, and \<open>hkdf_sha1\<close> the output of RFC 5869: the blocks under the extracted key, cut to the length asked for.
\<close>

theorem key_derivations_standard:
  "evp_bytes_to_key cr password n = take n (concat (map (evp_digest cr password) [0..<(n + 15) div 16])) \<and>
   hkdf_sha1 cr ikm salt info n =
     take n (concat (map (hkdf_block cr (be_bytes 20 (cr_hmac_sha1 cr salt ikm)) info) [1..<Suc ((n + 19) div 20)]))"
  using evp_bytes_to_key_chain [of n "(n + 15) div 16" cr password] hkdf_sha1_rfc5869 [of n "(n + 19) div 20" cr ikm salt info] by linarith

section \<open>An instance of the laws\<close>

text \<open>A stand-in that hides nothing, for instances of the properties: it only adds and checks a tag.\<close>

definition plain_crypto :: crypto where
  "plain_crypto = \<lparr>
    cr_seal = (\<lambda>c nonce aad plain. Some (plain @ replicate 16 0)),
    cr_open = (\<lambda>c nonce aad ct. if length ct < 16 \<or> drop (length ct - 16) ct \<noteq> replicate 16 0 then None else Some (take (length ct - 16) ct)),
    cr_md5 = (\<lambda>_. 0), cr_hmac_sha1 = (\<lambda>_ _. 0), cr_blake3 = be_word, cr_derive_key = (\<lambda>_ _. 0),
    cr_aes_encrypt = (\<lambda>_ block. block), cr_aes_decrypt = (\<lambda>_ block. block), cr_base64 = (\<lambda>_. Some (replicate 16 7))\<rparr>"

lemma plain_crypto_lawful: "aead_lawful plain_crypto" "aes_lawful plain_crypto"
  by (auto simp: aead_lawful_def aes_lawful_def plain_crypto_def split: if_splits)

end
