(* ===== verification/Shadowsocks.thy ===== *)
theory Shadowsocks
  imports Unit_Stream Aead Addr
begin

text \<open>
  The Shadowsocks client (src/engine/src/proto/shadowsocks.rs): the legacy AEAD methods and the 2022
  edition. A session starts with a salt and a sealed header; then both directions are length and payload
  chunks, each sealed under the session subkey with a counting nonce. Clock and random bytes are
  arguments. \<open>ss_reader\<close> and \<open>ss_writer\<close> show the stream meets the contracts of Unit\_Stream.
\<close>

section \<open>Methods and keys\<close>

datatype ss_method = SsAes128Gcm | SsAes256Gcm | SsChacha20IetfPoly1305 | SsBlake3Aes128Gcm | SsBlake3Aes256Gcm

definition ss_method_parse :: "string \<Rightarrow> ss_method result" where
  "ss_method_parse name =
    (if name = ''aes-128-gcm'' then Inr SsAes128Gcm
     else if name = ''aes-256-gcm'' then Inr SsAes256Gcm
     else if name = ''chacha20-ietf-poly1305'' \<or> name = ''xchacha20-ietf-poly1305'' then Inr SsChacha20IetfPoly1305
     else if name = ''2022-blake3-aes-128-gcm'' then Inr SsBlake3Aes128Gcm
     else if name = ''2022-blake3-aes-256-gcm'' then Inr SsBlake3Aes256Gcm
     else Inl (Config ''unsupported shadowsocks method''))"

definition ss_kind :: "ss_method \<Rightarrow> aead_kind" where
  "ss_kind m =
    (case m of
       SsAes128Gcm \<Rightarrow> Aes128Gcm | SsBlake3Aes128Gcm \<Rightarrow> Aes128Gcm
     | SsAes256Gcm \<Rightarrow> Aes256Gcm | SsBlake3Aes256Gcm \<Rightarrow> Aes256Gcm
     | SsChacha20IetfPoly1305 \<Rightarrow> Chacha20Poly1305)"

definition ss_key_len :: "ss_method \<Rightarrow> nat" where
  "ss_key_len m = key_len (ss_kind m)"

definition is_2022 :: "ss_method \<Rightarrow> bool" where
  "is_2022 m = (m \<in> {SsBlake3Aes128Gcm, SsBlake3Aes256Gcm})"

definition derive_key :: "'a crypto_scheme \<Rightarrow> ss_method \<Rightarrow> string \<Rightarrow> bytes result" where
  "derive_key cr m password =
    (if is_2022 m then
       rbind (ok_or (cr_base64 cr (trim password)) (Config ''shadowsocks 2022 password must be a base64 PSK'')) (\<lambda>key.
       if length key \<noteq> ss_key_len m then Inl (Config ''shadowsocks 2022 PSK length'') else Inr key)
     else Inr (evp_bytes_to_key cr (as_bytes password) (ss_key_len m)))"

definition subkey_for :: "'a crypto_scheme \<Rightarrow> ss_method \<Rightarrow> bytes \<Rightarrow> bytes \<Rightarrow> bytes" where
  "subkey_for cr m key salt = (if is_2022 m then ss2022_subkey cr key salt (ss_key_len m) else ss_subkey_legacy cr key salt)"

lemma ss_key_len_cases: "ss_key_len m = 16 \<or> ss_key_len m = 32"
  by (cases m) (simp_all add: ss_key_len_def ss_kind_def key_len_def)

lemma derive_key_length: "derive_key cr m password = Inr key \<Longrightarrow> length key = ss_key_len m"
  by (auto simp: derive_key_def rbind_Inr_iff split: if_splits)

lemma length_subkey_for [simp]: "length key = ss_key_len m \<Longrightarrow> length (subkey_for cr m key salt) = ss_key_len m"
  using ss_key_len_cases [of m] by (auto simp: subkey_for_def)

section \<open>Chunks\<close>

text \<open>\<open>seal_chunk\<close> returns the output and the nonce counter after it.\<close>

definition seal_chunk :: "'a crypto_scheme \<Rightarrow> aead \<Rightarrow> ss_nonce \<Rightarrow> bytes \<Rightarrow> bytes \<Rightarrow> bytes result \<times> ss_nonce" where
  "seal_chunk cr c nonce plain out =
    (if 65535 < length plain then (Inl (Protocol ''shadowsocks chunk exceeds 65535 bytes''), nonce)
     else
       let (n, nonce) = nonce_advance nonce in
       (case aead_seal cr c n [] (u16_be (word_of_nat (length plain))) out of
          Inl e \<Rightarrow> (Inl e, nonce)
        | Inr out \<Rightarrow> let (n, nonce) = nonce_advance nonce in (aead_seal cr c n [] plain out, nonce)))"

text \<open>What a chunk is on the wire: a sealed length of 18 bytes, then the sealed payload.\<close>

lemma seal_chunk_ok:
  assumes "aead_lawful cr" and "aead_keyed c" and "length plain \<le> 65535"
  shows "\<exists>lc pc. seal_chunk cr c nonce plain out = (Inr (out @ lc @ pc), nonce + 2) \<and>
    length lc = 18 \<and> length pc = length plain + 16 \<and>
    aead_open cr c (nonce_bytes nonce) [] lc = Inr (u16_be (word_of_nat (length plain))) \<and>
    aead_open cr c (nonce_bytes (nonce + 1)) [] pc = Inr plain"
proof -
  obtain lc where lc: "aead_seal cr c (nonce_bytes nonce) [] (u16_be (word_of_nat (length plain))) out = Inr (out @ lc)" "length lc = 18"
    "aead_open cr c (nonce_bytes nonce) [] lc = Inr (u16_be (word_of_nat (length plain)))"
    using aead_seals [OF assms(1,2), of "nonce_bytes nonce" "u16_be (word_of_nat (length plain))" "[]" out] by auto
  obtain pc where pc: "aead_seal cr c (nonce_bytes (nonce + 1)) [] plain (out @ lc) = Inr ((out @ lc) @ pc)" "length pc = length plain + 16"
    "aead_open cr c (nonce_bytes (nonce + 1)) [] pc = Inr plain"
    using aead_seals [OF assms(1,2), of "nonce_bytes (nonce + 1)" plain "[]" "out @ lc"] assms(3) by auto
  have "nonce + 1 + 1 = nonce + 2" by simp
  then show ?thesis using lc pc assms(3) by (intro exI [of _ lc] exI [of _ pc]) (simp add: seal_chunk_def nonce_advance_def)
qed

lemma chunk_length_back: "n \<le> 65535 \<Longrightarrow> unat (word_of_nat n :: u16) = n"
  by (simp add: unat_of_nat)

section \<open>The stream\<close>

record ss_out =
  so_server :: string
  so_port :: u16
  so_method :: ss_method
  so_password :: string

datatype ss_read_state = SrSalt | SrFixed2022 | SrLen | SrPayload u16

record ss_stream = unit_io +
  ss_method :: ss_method
  ss_derived_key :: bytes
  ss_sent_salt :: bytes
  ss_enc :: aead
  ss_enc_nonce :: ss_nonce
  ss_dec :: "aead option"
  ss_dec_nonce :: ss_nonce
  ss_state :: ss_read_state

definition abs_diff :: "u64 \<Rightarrow> u64 \<Rightarrow> u64" where
  "abs_diff a b = (if a < b then b - a else a - b)"

definition TAG :: nat where "TAG = 16"

text \<open>The header chunk a session opens with: the sealed bytes behind the salt, and the nonce after them.\<close>

definition ss_var_header :: "net_addr \<Rightarrow> bytes \<Rightarrow> bytes" where
  "ss_var_header target initial =
    (let pad_len = (if initial = [] then 16 else 0) :: u16 in
     encode_socks_addr [] (na_host target) (na_port target) @ u16_be pad_len @ replicate (unat pad_len) 0 @ initial)"

definition ss_header_2022 :: "'a crypto_scheme \<Rightarrow> u64 \<Rightarrow> aead \<Rightarrow> net_addr \<Rightarrow> bytes \<Rightarrow> bytes \<Rightarrow> (bytes \<times> ss_nonce) result" where
  "ss_header_2022 cr now enc target initial wire =
    (let var = ss_var_header target initial in
     if 65535 < length var then Inl (Protocol ''ss2022 var header exceeds 65535 bytes'')
     else
       let fixed = [0] @ be_bytes 8 now @ u16_be (word_of_nat (length var));
           (n, nonce) = nonce_advance 0 in
       rbind (aead_seal cr enc n [] fixed wire) (\<lambda>wire.
       let (n, nonce) = nonce_advance nonce in
       rbind (aead_seal cr enc n [] var wire) (\<lambda>wire. Inr (wire, nonce))))"

definition ss_header_legacy :: "'a crypto_scheme \<Rightarrow> aead \<Rightarrow> net_addr \<Rightarrow> bytes \<Rightarrow> bytes \<Rightarrow> (bytes \<times> ss_nonce) result" where
  "ss_header_legacy cr enc target initial wire =
    (case seal_chunk cr enc 0 (encode_socks_addr [] (na_host target) (na_port target) @ initial) wire of
       (r, nonce) \<Rightarrow> rbind r (\<lambda>wire. Inr (wire, nonce)))"

text \<open>\<open>handshake\<close>: \<open>salt\<close> is the fresh salt, \<open>now\<close> the clock.\<close>

definition ss_handshake :: "'a crypto_scheme \<Rightarrow> u64 \<Rightarrow> bytes \<Rightarrow> ss_out \<Rightarrow> net_addr \<Rightarrow> bytes \<Rightarrow> ss_stream t_op" where
  "ss_handshake cr now salt cfg target initial =
    t_bind (t_lift (derive_key cr (so_method cfg) (so_password cfg))) (\<lambda>key.
    let subkey = subkey_for cr (so_method cfg) key salt in
    t_bind (t_lift (aead_new (ss_kind (so_method cfg)) subkey)) (\<lambda>enc.
    t_bind (t_lift (if is_2022 (so_method cfg) then ss_header_2022 cr now enc target initial salt
                    else ss_header_legacy cr enc target initial salt)) (\<lambda>(wire, nonce).
    t_bind (t_write_all wire) (\<lambda>_ t.
      (Inr \<lparr>ui_inner = t, ui_rbuf = [], ui_plain = [], ui_wbuf = [],
            ss_method = so_method cfg, ss_derived_key = key, ss_sent_salt = salt, ss_enc = enc, ss_enc_nonce = nonce,
            ss_dec = Some enc, ss_dec_nonce = 0, ss_state = SrSalt\<rparr>, t)))))"

text \<open>How many buffered bytes the next unit needs.\<close>

definition ss_need :: "ss_stream \<Rightarrow> nat" where
  "ss_need s =
    (case ss_state s of
       SrSalt \<Rightarrow> ss_key_len (ss_method s)
     | SrFixed2022 \<Rightarrow> 11 + length (ss_sent_salt s) + TAG
     | SrLen \<Rightarrow> 2 + TAG
     | SrPayload len \<Rightarrow> unat len + TAG)"

text \<open>
  \<open>advance_state\<close>. The decryptor is \<open>Some\<close> from the handshake on, so \<open>expect\<close> does not panic; a block that opens
  has the length its state asked for, so the indexing is in range.
\<close>

definition ss_open_unit :: "'a crypto_scheme \<Rightarrow> nat \<Rightarrow> string \<Rightarrow> ss_stream \<Rightarrow> bytes result \<times> ss_stream" where
  "ss_open_unit cr n msg s =
    (case ss_dec s of
       None \<Rightarrow> (Inl (Io ''dec built in Salt state''), s)
     | Some dec \<Rightarrow>
         let (nonce, next) = nonce_advance (ss_dec_nonce s); s = s\<lparr>ss_dec_nonce := next\<rparr> in
         (case aead_open cr dec nonce [] (take n (ui_rbuf s)) of
            Inl e \<Rightarrow> (Inl (Protocol msg), s)
          | Inr pt \<Rightarrow> (Inr pt, s\<lparr>ui_rbuf := drop n (ui_rbuf s)\<rparr>)))"

definition ss_advance :: "'a crypto_scheme \<Rightarrow> u64 \<Rightarrow> ss_stream \<Rightarrow> unit result \<times> ss_stream" where
  "ss_advance cr now s =
    (case ss_state s of
       SrSalt \<Rightarrow>
         let n = ss_key_len (ss_method s); salt = take n (ui_rbuf s); s = s\<lparr>ui_rbuf := drop n (ui_rbuf s)\<rparr> in
         (case aead_new (ss_kind (ss_method s)) (subkey_for cr (ss_method s) (ss_derived_key s) salt) of
            Inl e \<Rightarrow> (Inl e, s)
          | Inr dec \<Rightarrow> (Inr (), s\<lparr>ss_dec := Some dec, ss_dec_nonce := 0,
              ss_state := (if is_2022 (ss_method s) then SrFixed2022 else SrLen)\<rparr>))
     | SrFixed2022 \<Rightarrow>
         let salt_len = length (ss_sent_salt s) in
         (case ss_open_unit cr (11 + salt_len + TAG) ''ss2022 response header'' s of
            (Inl e, s) \<Rightarrow> (Inl e, s)
          | (Inr pt, s) \<Rightarrow>
              if pt ! 0 \<noteq> 1 then (Inl (Protocol ''ss2022 response: not a server frame''), s)
              else if take salt_len (drop 9 pt) \<noteq> ss_sent_salt s then (Inl (Protocol ''ss2022 response salt mismatch''), s)
              else if abs_diff now (be_word (take 8 (drop 1 pt))) > 60
                then (Inl (Protocol ''ss2022 response timestamp drift exceeds replay window''), s)
              else (Inr (), s\<lparr>ss_state := SrPayload (be_word (take 2 (drop (9 + salt_len) pt)))\<rparr>))
     | SrLen \<Rightarrow>
         (case ss_open_unit cr (2 + TAG) ''ss length chunk'' s of
            (Inl e, s) \<Rightarrow> (Inl e, s)
          | (Inr pt, s) \<Rightarrow> (Inr (), s\<lparr>ss_state := SrPayload (u16_from (pt ! 0) (pt ! 1))\<rparr>))
     | SrPayload len \<Rightarrow>
         (case ss_open_unit cr (unat len + TAG) ''ss payload chunk'' s of
            (Inl e, s) \<Rightarrow> (Inl e, s)
          | (Inr pt, s) \<Rightarrow> (Inr (), s\<lparr>ui_plain := ui_plain s @ pt, ss_state := SrLen\<rparr>)))"

lemma ss_need_pos: "0 < ss_need s"
  using ss_key_len_cases [of "ss_method s"] by (auto simp: ss_need_def TAG_def split: ss_read_state.split)

lemma ss_advance_unit:
  "ss_advance cr now s = (Inr u, s') \<Longrightarrow> ui_inner s' = ui_inner s \<and> ui_rbuf s' = drop (ss_need s) (ui_rbuf s)"
  by (auto simp: ss_advance_def ss_open_unit_def ss_need_def Let_def nonce_advance_def
      split: ss_read_state.splits sum.splits option.splits if_splits prod.splits)

function ss_poll_read :: "'a crypto_scheme \<Rightarrow> u64 \<Rightarrow> nat \<Rightarrow> ss_stream \<Rightarrow> bytes poll \<times> ss_stream" where
  "ss_poll_read cr now room s =
    (if ui_plain s \<noteq> [] then
       (let n = min (length (ui_plain s)) room in
        (Ready (Inr (take n (ui_plain s))), s\<lparr>ui_plain := drop n (ui_plain s)\<rparr>))
     else if ss_need s \<le> length (ui_rbuf s) then
       (case ss_advance cr now s of (Inl e, s) \<Rightarrow> (Ready (Inl e), s) | (Inr _, s) \<Rightarrow> ss_poll_read cr now room s)
     else
       (case poll_read (ui_inner s) READ_CHUNK of
          (Pending, t) \<Rightarrow> (Pending, s\<lparr>ui_inner := t\<rparr>)
        | (Ready (Inl e), t) \<Rightarrow> (Ready (Inl e), s\<lparr>ui_inner := t\<rparr>)
        | (Ready (Inr bs), t) \<Rightarrow>
            if bs = [] then
              (if ui_rbuf s = [] then Ready (Inr []) else Ready (Inl truncated), s\<lparr>ui_inner := t\<rparr>)
            else ss_poll_read cr now room (s\<lparr>ui_inner := t, ui_rbuf := ui_rbuf s @ bs\<rparr>)))"
  by pat_completeness auto
termination
proof (relation "measure (\<lambda>(_, _, _, s). unit_weight s)", goal_cases)
  case (2 cr now room s _ s' _)
  then have "ui_inner s' = ui_inner s" "ui_rbuf s' = drop (ss_need s) (ui_rbuf s)" "ss_need s \<le> length (ui_rbuf s)"
    using ss_advance_unit by (metis (full_types))+
  then show ?case using ss_need_pos [of s] by (simp add: unit_weight_def)
next
  case (3 cr now room s _ t _ bs)
  then show ?case using unit_weight_fill [of s READ_CHUNK bs t] by simp
qed simp

declare ss_poll_read.simps [simp del]

definition ss_seal :: "'a crypto_scheme \<Rightarrow> ss_stream \<Rightarrow> bytes \<Rightarrow> unit result \<times> ss_stream" where
  "ss_seal cr s buf =
    (case seal_chunk cr (ss_enc s) (ss_enc_nonce s) buf [] of
       (Inl e, nonce) \<Rightarrow> (Inl e, s\<lparr>ss_enc_nonce := nonce\<rparr>)
     | (Inr out, nonce) \<Rightarrow> (Inr (), s\<lparr>ss_enc_nonce := nonce, ui_wbuf := out\<rparr>))"

definition zero_bytes :: string where "zero_bytes = ''shadowsocks: transport accepted zero bytes''"

definition ss_poll_write :: "'a crypto_scheme \<Rightarrow> ss_stream \<Rightarrow> bytes \<Rightarrow> nat poll \<times> ss_stream" where
  "ss_poll_write cr s buf =
    (if buf = [] then (Ready (Inr 0), s)
     else case (if ui_wbuf s = [] then ss_seal cr s buf else (Inr (), s)) of
       (Inl e, s) \<Rightarrow> (Ready (Inl e), s)
     | (Inr _, s) \<Rightarrow>
         (case wbuf_loop zero_bytes (ui_inner s) (ui_wbuf s) of
            (Pending, t, w) \<Rightarrow> (Pending, s\<lparr>ui_inner := t, ui_wbuf := w\<rparr>)
          | (Ready (Inl e), t, w) \<Rightarrow> (Ready (Inl e), s\<lparr>ui_inner := t, ui_wbuf := w\<rparr>)
          | (Ready (Inr _), t, w) \<Rightarrow> (Ready (Inr (length buf)), s\<lparr>ui_inner := t, ui_wbuf := w\<rparr>)))"

section \<open>The contracts\<close>

lemma ss_open_unit_inner:
  "ss_open_unit cr n msg (s\<lparr>ui_inner := i\<rparr>) = (case ss_open_unit cr n msg s of (r, s') \<Rightarrow> (r, s'\<lparr>ui_inner := i\<rparr>))"
  by (simp add: ss_open_unit_def Let_def nonce_advance_def split: sum.split option.split)

lemma ss_open_unit_more:
  "n \<le> length (ui_rbuf s) \<Longrightarrow>
   ss_open_unit cr n msg (s\<lparr>ui_rbuf := ui_rbuf s @ ys\<rparr>) = (case ss_open_unit cr n msg s of (r, s') \<Rightarrow> (r, s'\<lparr>ui_rbuf := ui_rbuf s' @ ys\<rparr>))"
  by (simp add: ss_open_unit_def Let_def nonce_advance_def split: sum.split option.split)

lemma ss_open_unit_frame:
  "ss_open_unit cr n msg s = (r, s') \<Longrightarrow> ss_sent_salt s' = ss_sent_salt s \<and> ui_plain s' = ui_plain s \<and> ui_inner s' = ui_inner s"
  by (auto simp: ss_open_unit_def Let_def nonce_advance_def split: sum.splits option.splits)

lemma ss_advance_inner:
  "ss_advance cr now (s\<lparr>ui_inner := i\<rparr>) = (case ss_advance cr now s of (r, s') \<Rightarrow> (r, s'\<lparr>ui_inner := i\<rparr>))"
proof (cases "ss_state s")
  case SrSalt
  then show ?thesis by (simp add: ss_advance_def Let_def split: sum.split)
qed (simp_all add: ss_advance_def ss_open_unit_inner Let_def split: prod.split sum.split)

lemma ss_advance_more:
  "ss_need s \<le> length (ui_rbuf s) \<Longrightarrow>
   ss_advance cr now (s\<lparr>ui_rbuf := ui_rbuf s @ ys\<rparr>) = (case ss_advance cr now s of (r, s') \<Rightarrow> (r, s'\<lparr>ui_rbuf := ui_rbuf s' @ ys\<rparr>))"
proof (cases "ss_state s")
  case SrSalt
  assume "ss_need s \<le> length (ui_rbuf s)"
  then show ?thesis using SrSalt by (simp add: ss_advance_def ss_need_def Let_def split: sum.split)
qed (simp_all add: ss_advance_def ss_need_def ss_open_unit_more Let_def split: prod.split sum.split)

interpretation ss_reader: unit_reader "ss_poll_read cr now" ss_need "ss_advance cr now" "\<lambda>_. False" for cr :: "'a crypto_scheme" and now
proof (unfold_locales, goal_cases)
  case (1 room s)
  show ?case unfolding if_False by (rule ss_poll_read.simps)
next
  case (5 s u s')
  then show ?case using ss_need_pos [of s'] ss_advance_unit [OF 5(3)] by blast
next
  case (6 i s)
  show ?case by (rule ss_advance_inner)
next
  case (7 s ys)
  then show ?case by (rule ss_advance_more)
qed (simp_all add: ss_need_def split: ss_read_state.split)

interpretation ss_writer: unit_writer "ss_poll_write cr" "ss_seal cr" "\<lambda>_ buf. length buf" zero_bytes for cr :: "'a crypto_scheme"
proof (unfold_locales, goal_cases)
  case (1 s buf)
  show ?case by (simp add: ss_poll_write_def)
qed (simp_all add: ss_seal_def split: prod.split sum.split)

end
