(* ===== verification/Ss_Server.thy ===== *)
theory Ss_Server
  imports Shadowsocks Stream_Io
begin

text \<open>
  The Shadowsocks TCP server (src/engine/src/inbound/proxy_server/ss.rs): the user table of a multi-user
  listener, the request header in its legacy and its 2022 form, the replay guard over client salts, and the
  framed stream, whose reader and writer meet the contracts of Unit\_Stream.
\<close>

definition MAX_CHUNK :: nat where "MAX_CHUNK = 16 * 1024"
definition TS_WINDOW :: u64 where "TS_WINDOW = 60"
definition MAX_PADDING :: nat where "MAX_PADDING = 900"

section \<open>Block ciphers and users\<close>

text \<open>A keyed AES block cipher; the crate's key type fixes the key length.\<close>

datatype block_cipher = BlockAes128 bytes | BlockAes256 bytes

definition block_new :: "aead_kind \<Rightarrow> bytes \<Rightarrow> block_cipher result" where
  "block_new kind key =
    (case kind of
       Aes128Gcm \<Rightarrow> if length key \<noteq> 16 then Inl (Crypto ''ss2022 udp block cipher'') else Inr (BlockAes128 key)
     | Aes256Gcm \<Rightarrow> if length key \<noteq> 32 then Inl (Crypto ''ss2022 udp block cipher'') else Inr (BlockAes256 key)
     | Chacha20Poly1305 \<Rightarrow> Inl (Crypto ''ss2022 udp needs an AES method''))"

fun block_key :: "block_cipher \<Rightarrow> bytes" where
  "block_key (BlockAes128 k) = k"
| "block_key (BlockAes256 k) = k"

definition block_encrypt :: "'a crypto_scheme \<Rightarrow> block_cipher \<Rightarrow> bytes \<Rightarrow> bytes" where
  "block_encrypt cr c block = cr_aes_encrypt cr (block_key c) block"

definition block_decrypt :: "'a crypto_scheme \<Rightarrow> block_cipher \<Rightarrow> bytes \<Rightarrow> bytes" where
  "block_decrypt cr c block = cr_aes_decrypt cr (block_key c) block"

record ss_user =
  usr_name :: string
  usr_key :: bytes
  usr_block :: block_cipher

record users =
  us_list :: "ss_user list"
  us_by_eih :: "(bytes, nat) hash_map"

definition identity_token :: "'a crypto_scheme \<Rightarrow> bytes \<Rightarrow> bytes" where
  "identity_token cr key = take 16 (be_bytes 32 (cr_blake3 cr key))"

definition identity_subkey :: "'a crypto_scheme \<Rightarrow> bytes \<Rightarrow> bytes \<Rightarrow> nat \<Rightarrow> bytes" where
  "identity_subkey cr server_key salt n =
    take n (be_bytes 32 (cr_derive_key cr ''shadowsocks 2022 identity subkey'' (server_key @ salt)))"

fun users_add :: "'a crypto_scheme \<Rightarrow> ss_method \<Rightarrow> (string \<times> string) list \<Rightarrow> users \<Rightarrow> users result" where
  "users_add cr m [] us = Inr us"
| "users_add cr m ((name, password) # entries) us =
    (case derive_key cr m password of
       Inl e \<Rightarrow> Inl (Config ''shadowsocks multi-user'')
     | Inr key \<Rightarrow>
         rbind (block_new (ss_kind m) key) (\<lambda>block.
         users_add cr m entries
           \<lparr>us_list = us_list us @ [\<lparr>usr_name = name, usr_key = key, usr_block = block\<rparr>],
            us_by_eih = hm_insert (identity_token cr key) (length (us_list us)) (us_by_eih us)\<rparr>))"

definition users_new :: "'a crypto_scheme \<Rightarrow> ss_method \<Rightarrow> (string \<times> string) list \<Rightarrow> users result" where
  "users_new cr m entries = users_add cr m entries \<lparr>us_list = [], us_by_eih = hm_empty\<rparr>"

definition users_find :: "users \<Rightarrow> bytes \<Rightarrow> ss_user option" where
  "users_find us token = map_option ((!) (us_list us)) (hm_get (us_by_eih us) token)"

definition open_eih_tcp :: "'a crypto_scheme \<Rightarrow> aead_kind \<Rightarrow> bytes \<Rightarrow> bytes \<Rightarrow> bytes \<Rightarrow> bytes result" where
  "open_eih_tcp cr kind server_key salt eih_ct =
    rbind (block_new kind (identity_subkey cr server_key salt (length salt))) (\<lambda>c. Inr (block_decrypt cr c eih_ct))"

definition open_eih_udp :: "'a crypto_scheme \<Rightarrow> block_cipher \<Rightarrow> bytes \<Rightarrow> bytes \<Rightarrow> bytes" where
  "open_eih_udp cr block sep eih_ct = map2 (\<lambda>t s. t XOR s) (block_decrypt cr block eih_ct) sep"

section \<open>The server\<close>

record ss_server =
  sv_method :: ss_method
  sv_key :: bytes
  sv_users :: "users option"

definition ss_server_new :: "'a crypto_scheme \<Rightarrow> string \<Rightarrow> string \<Rightarrow> ss_server result" where
  "ss_server_new cr method password =
    rbind (ss_method_parse method) (\<lambda>m.
    rbind (derive_key cr m password) (\<lambda>key. Inr \<lparr>sv_method = m, sv_key = key, sv_users = None\<rparr>))"

definition ss_server_new_multi :: "'a crypto_scheme \<Rightarrow> string \<Rightarrow> string \<Rightarrow> (string \<times> string) list \<Rightarrow> ss_server result" where
  "ss_server_new_multi cr method password entries =
    rbind (ss_method_parse method) (\<lambda>m.
    if \<not> is_2022 m then Inl (Config ''shadowsocks multi-user (SIP023) needs a 2022 method'')
    else if entries = [] then Inl (Config ''shadowsocks multi-user (SIP023) needs at least one user'')
    else
      rbind (derive_key cr m password) (\<lambda>key.
      rbind (users_new cr m entries) (\<lambda>us. Inr \<lparr>sv_method = m, sv_key = key, sv_users = Some us\<rparr>)))"

text \<open>Instants are nanoseconds. The pool holds the salts of the last 60 seconds.\<close>

type_synonym salt_pool = "(bytes \<times> nat) list"

definition claim_salt :: "nat \<Rightarrow> bytes \<Rightarrow> salt_pool \<Rightarrow> bool \<times> salt_pool" where
  "claim_salt now salt seen =
    (let seen = filter (\<lambda>(_, t). now - t < unat TS_WINDOW * 10 ^ 9) seen in
     if list_ex (\<lambda>(s, _). s = salt) seen then (False, seen) else (True, seen @ [(salt, now)]))"

datatype sv_read_state = SvLen | SvPayload u16

record ss_server_stream = unit_io +
  ssv_is_2022 :: bool
  ssv_client_salt :: bytes
  ssv_pending_salt :: "bytes option"
  ssv_enc :: aead
  ssv_enc_nonce :: ss_nonce
  ssv_dec :: aead
  ssv_dec_nonce :: ss_nonce
  ssv_pending_plain :: nat
  ssv_state :: sv_read_state

text \<open>One block of the request: so many bytes, opened under the next nonce.\<close>

definition request_block :: "'a crypto_scheme \<Rightarrow> aead \<Rightarrow> ss_nonce \<Rightarrow> string \<Rightarrow> nat \<Rightarrow> bytes t_op" where
  "request_block cr dec nonce msg n =
    t_bind (t_read_exact (n + TAG)) (\<lambda>ct.
    t_lift (case aead_open cr dec (nonce_bytes nonce) [] ct of Inl e \<Rightarrow> Inl (Protocol msg) | Inr pt \<Rightarrow> Inr pt))"

text \<open>The variable header of a 2022 request: the target and the payload behind the padding.\<close>

definition parse_var_header :: "bytes \<Rightarrow> (net_addr \<times> bytes) result" where
  "parse_var_header var =
    rbind (decode_socks_addr var) (\<lambda>(target, used).
    if length var < used then Inl (Protocol ''ss2022 request: header truncated'')
    else let rest = drop used var in
      if length rest < 2 then Inl (Protocol ''ss2022 request: no padding length'')
      else let pad_len = unat (u16_from (rest ! 0) (rest ! 1)) in
        if MAX_PADDING < pad_len then Inl (Protocol ''ss2022 request: padding exceeds 900'')
        else if length rest < 2 + pad_len then Inl (Protocol ''ss2022 request: padding overruns header'')
        else let body = drop (2 + pad_len) rest in
          if body = [] \<and> pad_len = 0 then Inl (Protocol ''ss2022 request header carries neither payload nor padding'')
          else Inr (target, body))"

definition read_request_2022 :: "'a crypto_scheme \<Rightarrow> u64 \<Rightarrow> aead \<Rightarrow> (net_addr \<times> bytes) t_op" where
  "read_request_2022 cr now dec =
    t_bind (request_block cr dec 0 ''ss2022 request header'' 11) (\<lambda>fixed.
    if fixed ! 0 \<noteq> 0 then t_lift (Inl (Protocol ''ss2022 request: not a client stream header''))
    else if abs_diff now (be_word (take 8 (drop 1 fixed))) > TS_WINDOW
      then t_lift (Inl (Protocol ''ss2022 request timestamp drift exceeds replay window''))
    else
      t_bind (request_block cr dec 1 ''ss2022 request header'' (unat (u16_from (fixed ! 9) (fixed ! 10)))) (\<lambda>var.
      t_lift (parse_var_header var)))"

definition read_request_legacy :: "'a crypto_scheme \<Rightarrow> aead \<Rightarrow> (net_addr \<times> bytes) t_op" where
  "read_request_legacy cr dec =
    t_bind (request_block cr dec 0 ''shadowsocks request length'' 2) (\<lambda>lp.
    t_bind (request_block cr dec 1 ''shadowsocks request header'' (unat (u16_from (lp ! 0) (lp ! 1)))) (\<lambda>hdr.
    t_lift (rbind (decode_socks_addr hdr) (\<lambda>(target, used). Inr (target, drop used hdr)))))"

text \<open>The key the session is sealed under: the server's, or that of the user the identity header names.\<close>

definition session_key :: "'a crypto_scheme \<Rightarrow> ss_server \<Rightarrow> bytes \<Rightarrow> bytes t_op" where
  "session_key cr srv salt =
    (case sv_users srv of
       None \<Rightarrow> t_lift (Inr (sv_key srv))
     | Some us \<Rightarrow>
         t_bind (t_read_exact 16) (\<lambda>eih_ct.
         t_bind (t_lift (open_eih_tcp cr (ss_kind (sv_method srv)) (sv_key srv) salt eih_ct)) (\<lambda>token.
         t_lift (map_sum id usr_key (ok_or (users_find us token) (Protocol ''ss2022 eih: identity token matches no user''))))))"

text \<open>
  \<open>accept\<close>: \<open>now\<close> is the clock in seconds, \<open>instant\<close> the monotonic one of the salt pool,
  \<open>resp_salt\<close> the fresh salt of the response.
\<close>

definition ss_accept :: "'a crypto_scheme \<Rightarrow> u64 \<Rightarrow> nat \<Rightarrow> bytes \<Rightarrow> ss_server \<Rightarrow> salt_pool \<Rightarrow> transport \<Rightarrow>
    (net_addr \<times> ss_server_stream) result \<times> salt_pool" where
  "ss_accept cr now instant resp_salt srv pool t =
    (case t_bind (t_read_exact (ss_key_len (sv_method srv))) (\<lambda>salt.
          t_bind (session_key cr srv salt) (\<lambda>key.
          t_bind (t_lift (aead_new (ss_kind (sv_method srv)) (subkey_for cr (sv_method srv) key salt))) (\<lambda>dec.
          t_bind (if is_2022 (sv_method srv) then read_request_2022 cr now dec else read_request_legacy cr dec) (\<lambda>(target, initial).
          t_lift (Inr (salt, key, dec, target, initial)))))) t of
       (Inl e, t) \<Rightarrow> (Inl e, pool)
     | (Inr (salt, key, dec, target, initial), t) \<Rightarrow>
         let (fresh, pool) = (if is_2022 (sv_method srv) then claim_salt instant salt pool else (True, pool)) in
         if \<not> fresh then (Inl (Protocol ''ss2022 replay: duplicate client salt''), pool)
         else
           (rbind (aead_new (ss_kind (sv_method srv)) (subkey_for cr (sv_method srv) key resp_salt)) (\<lambda>enc.
            Inr (target, \<lparr>ui_inner = t, ui_rbuf = [], ui_plain = initial, ui_wbuf = [],
              ssv_is_2022 = is_2022 (sv_method srv), ssv_client_salt = salt, ssv_pending_salt = Some resp_salt,
              ssv_enc = enc, ssv_enc_nonce = 0, ssv_dec = dec, ssv_dec_nonce = 2, ssv_pending_plain = 0, ssv_state = SvLen\<rparr>)), pool))"

section \<open>The stream\<close>

definition ssv_need :: "ss_server_stream \<Rightarrow> nat" where
  "ssv_need s = (case ssv_state s of SvLen \<Rightarrow> 2 + TAG | SvPayload len \<Rightarrow> unat len + TAG)"

definition ssv_open_unit :: "'a crypto_scheme \<Rightarrow> nat \<Rightarrow> string \<Rightarrow> ss_server_stream \<Rightarrow> bytes result \<times> ss_server_stream" where
  "ssv_open_unit cr n msg s =
    (let (nonce, next) = nonce_advance (ssv_dec_nonce s); s = s\<lparr>ssv_dec_nonce := next\<rparr> in
     (case aead_open cr (ssv_dec s) nonce [] (take n (ui_rbuf s)) of
        Inl e \<Rightarrow> (Inl (Protocol msg), s)
      | Inr pt \<Rightarrow> (Inr pt, s\<lparr>ui_rbuf := drop n (ui_rbuf s)\<rparr>)))"

definition ssv_advance :: "'a crypto_scheme \<Rightarrow> ss_server_stream \<Rightarrow> unit result \<times> ss_server_stream" where
  "ssv_advance cr s =
    (case ssv_state s of
       SvLen \<Rightarrow>
         (case ssv_open_unit cr (2 + TAG) ''shadowsocks length chunk'' s of
            (Inl e, s) \<Rightarrow> (Inl e, s)
          | (Inr pt, s) \<Rightarrow> (Inr (), s\<lparr>ssv_state := SvPayload (u16_from (pt ! 0) (pt ! 1))\<rparr>))
     | SvPayload len \<Rightarrow>
         (case ssv_open_unit cr (unat len + TAG) ''shadowsocks payload chunk'' s of
            (Inl e, s) \<Rightarrow> (Inl e, s)
          | (Inr pt, s) \<Rightarrow> (Inr (), s\<lparr>ui_plain := ui_plain s @ pt, ssv_state := SvLen\<rparr>)))"

lemma ssv_need_pos: "0 < ssv_need s"
  by (auto simp: ssv_need_def TAG_def split: sv_read_state.split)

lemma ssv_advance_unit:
  "ssv_advance cr s = (Inr u, s') \<Longrightarrow> ui_inner s' = ui_inner s \<and> ui_rbuf s' = drop (ssv_need s) (ui_rbuf s)"
  by (auto simp: ssv_advance_def ssv_open_unit_def ssv_need_def Let_def nonce_advance_def
      split: sv_read_state.splits sum.splits if_splits prod.splits)

function ssv_poll_read :: "'a crypto_scheme \<Rightarrow> nat \<Rightarrow> ss_server_stream \<Rightarrow> bytes poll \<times> ss_server_stream" where
  "ssv_poll_read cr room s =
    (if ui_plain s \<noteq> [] then
       (let n = min (length (ui_plain s)) room in
        (Ready (Inr (take n (ui_plain s))), s\<lparr>ui_plain := drop n (ui_plain s)\<rparr>))
     else if ssv_need s \<le> length (ui_rbuf s) then
       (case ssv_advance cr s of (Inl e, s) \<Rightarrow> (Ready (Inl e), s) | (Inr _, s) \<Rightarrow> ssv_poll_read cr room s)
     else
       (case poll_read (ui_inner s) READ_CHUNK of
          (Pending, t) \<Rightarrow> (Pending, s\<lparr>ui_inner := t\<rparr>)
        | (Ready (Inl e), t) \<Rightarrow> (Ready (Inl e), s\<lparr>ui_inner := t\<rparr>)
        | (Ready (Inr bs), t) \<Rightarrow>
            if bs = [] then
              (if ui_rbuf s = [] then Ready (Inr []) else Ready (Inl truncated), s\<lparr>ui_inner := t\<rparr>)
            else ssv_poll_read cr room (s\<lparr>ui_inner := t, ui_rbuf := ui_rbuf s @ bs\<rparr>)))"
  by pat_completeness auto
termination
proof (relation "measure (\<lambda>(_, _, s). unit_weight s)", goal_cases)
  case (2 cr room s _ s' _)
  then have "ui_inner s' = ui_inner s" "ui_rbuf s' = drop (ssv_need s) (ui_rbuf s)" "ssv_need s \<le> length (ui_rbuf s)"
    using ssv_advance_unit by (metis (full_types))+
  then show ?case using ssv_need_pos [of s] by (simp add: unit_weight_def)
next
  case (3 cr room s _ t _ bs)
  then show ?case using unit_weight_fill [of s READ_CHUNK bs t] by simp
qed simp

declare ssv_poll_read.simps [simp del]

text \<open>
  Sealing what is written next: the response salt goes in front of the first chunk, and in the 2022 edition
  the first length chunk is the response header, which echoes the client's salt.
\<close>

definition ssv_first_2022 :: "'a crypto_scheme \<Rightarrow> u64 \<Rightarrow> ss_server_stream \<Rightarrow> bytes \<Rightarrow> bytes \<Rightarrow> bytes result \<times> ss_nonce" where
  "ssv_first_2022 cr now s plain out =
    (let fixed = [1] @ be_bytes 8 now @ ssv_client_salt s @ u16_be (word_of_nat (length plain));
         (n, nonce) = nonce_advance (ssv_enc_nonce s) in
     (case aead_seal cr (ssv_enc s) n [] fixed out of
        Inl e \<Rightarrow> (Inl e, nonce)
      | Inr out \<Rightarrow> let (n, nonce) = nonce_advance nonce in (aead_seal cr (ssv_enc s) n [] plain out, nonce)))"

definition ssv_seal :: "'a crypto_scheme \<Rightarrow> u64 \<Rightarrow> ss_server_stream \<Rightarrow> bytes \<Rightarrow> unit result \<times> ss_server_stream" where
  "ssv_seal cr now s buf =
    (let n = min (length buf) MAX_CHUNK in
     (case (case ssv_pending_salt s of
              Some salt \<Rightarrow>
                if ssv_is_2022 s then ssv_first_2022 cr now s (take n buf) salt
                else seal_chunk cr (ssv_enc s) (ssv_enc_nonce s) (take n buf) salt
            | None \<Rightarrow> seal_chunk cr (ssv_enc s) (ssv_enc_nonce s) (take n buf) []) of
        (Inl e, nonce) \<Rightarrow> (Inl e, s\<lparr>ssv_pending_salt := None, ssv_enc_nonce := nonce\<rparr>)
      | (Inr out, nonce) \<Rightarrow>
          (Inr (), s\<lparr>ssv_pending_salt := None, ssv_enc_nonce := nonce, ui_wbuf := out, ssv_pending_plain := n\<rparr>)))"

definition ssv_poll_write :: "'a crypto_scheme \<Rightarrow> u64 \<Rightarrow> ss_server_stream \<Rightarrow> bytes \<Rightarrow> nat poll \<times> ss_server_stream" where
  "ssv_poll_write cr now s buf =
    (if buf = [] then (Ready (Inr 0), s)
     else case (if ui_wbuf s = [] then ssv_seal cr now s buf else (Inr (), s)) of
       (Inl e, s) \<Rightarrow> (Ready (Inl e), s)
     | (Inr _, s) \<Rightarrow>
         (case wbuf_loop zero_bytes (ui_inner s) (ui_wbuf s) of
            (Pending, t, w) \<Rightarrow> (Pending, s\<lparr>ui_inner := t, ui_wbuf := w\<rparr>)
          | (Ready (Inl e), t, w) \<Rightarrow> (Ready (Inl e), s\<lparr>ui_inner := t, ui_wbuf := w\<rparr>)
          | (Ready (Inr _), t, w) \<Rightarrow> (Ready (Inr (ssv_pending_plain s)), s\<lparr>ui_inner := t, ui_wbuf := w\<rparr>)))"

section \<open>The contracts\<close>

lemma ssv_open_unit_inner:
  "ssv_open_unit cr n msg (s\<lparr>ui_inner := i\<rparr>) = (case ssv_open_unit cr n msg s of (r, s') \<Rightarrow> (r, s'\<lparr>ui_inner := i\<rparr>))"
  by (simp add: ssv_open_unit_def Let_def nonce_advance_def split: sum.split)

lemma ssv_open_unit_more:
  "n \<le> length (ui_rbuf s) \<Longrightarrow>
   ssv_open_unit cr n msg (s\<lparr>ui_rbuf := ui_rbuf s @ ys\<rparr>) = (case ssv_open_unit cr n msg s of (r, s') \<Rightarrow> (r, s'\<lparr>ui_rbuf := ui_rbuf s' @ ys\<rparr>))"
  by (simp add: ssv_open_unit_def Let_def nonce_advance_def split: sum.split)

interpretation ssv_reader: unit_reader "ssv_poll_read cr" ssv_need "ssv_advance cr" "\<lambda>_. False" for cr :: "'a crypto_scheme"
proof (unfold_locales, goal_cases)
  case (1 room s)
  show ?case unfolding if_False by (rule ssv_poll_read.simps)
next
  case (5 s u s')
  then show ?case using ssv_need_pos [of s'] ssv_advance_unit [OF 5(3)] by blast
next
  case (6 i s)
  show ?case by (cases "ssv_state s") (simp_all add: ssv_advance_def ssv_open_unit_inner split: prod.split sum.split)
next
  case (7 s ys)
  then show ?case
    by (cases "ssv_state s") (simp_all add: ssv_advance_def ssv_need_def ssv_open_unit_more split: prod.split sum.split)
qed (simp_all add: ssv_need_def split: sv_read_state.split)

interpretation ssv_writer: unit_writer "ssv_poll_write cr now" "ssv_seal cr now" "\<lambda>s _. ssv_pending_plain s" zero_bytes
  for cr :: "'a crypto_scheme" and now
proof (unfold_locales, goal_cases)
  case (1 s buf)
  show ?case by (simp add: ssv_poll_write_def)
qed (simp_all add: ssv_seal_def ssv_first_2022_def Let_def split: prod.split sum.split option.split)

end
