(* ===== verification/Ss_Session.thy ===== *)
theory Ss_Session
  imports Ss_Server
begin

text \<open>
  Shadowsocks sessions end to end: what the client of Shadowsocks writes, the server of Ss\_Server reads,
  and back, over any schedule of writes and arrivals. The two relations say when a writer and a reader are in
  step; every chunk keeps them so.
\<close>

section \<open>From the client to the server\<close>

definition in_step :: "ss_stream \<Rightarrow> ss_server_stream \<Rightarrow> bool" where
  "in_step c s \<longleftrightarrow> ss_enc c = ssv_dec s \<and> ss_enc_nonce c = ssv_dec_nonce s \<and> aead_keyed (ss_enc c) \<and>
    ssv_state s = SvLen \<and> ui_plain s = []"

lemma u16_from_be_word: "u16_from (u16_be w ! 0) (u16_be w ! Suc 0) = w"
  by (rule u16_from_be)

text \<open>A length and a payload block, opened in turn.\<close>

lemma ssv_chunk:
  assumes "aead_open cr (ssv_dec s) (nonce_bytes (ssv_dec_nonce s)) [] lc = Inr (u16_be (word_of_nat (length plain)))"
    and "aead_open cr (ssv_dec s) (nonce_bytes (ssv_dec_nonce s + 1)) [] pc = Inr plain"
    and "length lc = 18" "length pc = length plain + 16" "length plain \<le> 65535"
    and "ssv_state s = SvLen" "ui_plain s = []" "ui_rbuf s = lc @ pc @ rest"
  shows "delivers ssv_need (ssv_advance cr) s plain (s\<lparr>ui_rbuf := rest, ssv_dec_nonce := ssv_dec_nonce s + 2\<rparr>)"
proof -
  let ?s1 = "s\<lparr>ssv_dec_nonce := ssv_dec_nonce s + 1, ui_rbuf := pc @ rest, ssv_state := SvPayload (word_of_nat (length plain))\<rparr>"
  let ?s2 = "s\<lparr>ui_rbuf := rest, ssv_dec_nonce := ssv_dec_nonce s + 2, ui_plain := plain\<rparr>"
  have "ssv_advance cr s = (Inr (), ?s1)"
    using assms by (simp add: ssv_advance_def ssv_open_unit_def nonce_advance_def TAG_def u16_from_be)
  then have "delivers ssv_need (ssv_advance cr) s [] ?s1"
    using assms by (intro delivers_silent) (simp_all add: ssv_need_def TAG_def)
  moreover have "ssv_dec_nonce s + 1 + 1 = ssv_dec_nonce s + 2" by simp
  then have "ssv_advance cr ?s1 = (Inr (), ?s2)"
    using assms by (simp add: ssv_advance_def ssv_open_unit_def nonce_advance_def TAG_def chunk_length_back)
  then have "delivers ssv_need (ssv_advance cr) ?s1 plain (?s2\<lparr>ui_plain := []\<rparr>)"
    using delivers_unit [of ssv_need ?s1 "ssv_advance cr" ?s2] assms by (simp add: ssv_need_def TAG_def chunk_length_back)
  moreover have "?s2\<lparr>ui_plain := []\<rparr> = s\<lparr>ui_rbuf := rest, ssv_dec_nonce := ssv_dec_nonce s + 2\<rparr>" using assms(7) by simp
  ultimately show ?thesis using delivers_trans [of ssv_need "ssv_advance cr" s "[]" ?s1 plain "?s2\<lparr>ui_plain := []\<rparr>"] by (simp only: append_Nil)
qed

text \<open>One write of the client.\<close>

lemma client_write:
  assumes "aead_lawful cr" and "aead_keyed (ss_enc c)" and "ui_wbuf c = []" and "length buf \<le> 65535"
  shows "\<exists>out c'. sealed (ss_seal cr) (\<lambda>_ buf. length buf) c buf out c' \<and> aead_keyed (ss_enc c') \<and>
    (\<forall>s rest. in_step c s \<longrightarrow> ui_rbuf s = out @ rest \<longrightarrow>
       (\<exists>s'. in_step c' s' \<and> ui_rbuf s' = rest \<and> delivers ssv_need (ssv_advance cr) s buf s'))"
proof (cases "buf = []")
  case True
  then show ?thesis using assms(2) delivers_refl by (intro exI [of _ "[]"] exI [of _ c]) (auto intro: sealed.s_done)
next
  case False
  from seal_chunk_ok [OF assms(1,2,4), of "ss_enc_nonce c" "[]"] obtain lc pc where k:
    "seal_chunk cr (ss_enc c) (ss_enc_nonce c) buf [] = (Inr (lc @ pc), ss_enc_nonce c + 2)" "length lc = 18" "length pc = length buf + 16"
    "aead_open cr (ss_enc c) (nonce_bytes (ss_enc_nonce c)) [] lc = Inr (u16_be (word_of_nat (length buf)))"
    "aead_open cr (ss_enc c) (nonce_bytes (ss_enc_nonce c + 1)) [] pc = Inr buf" by auto
  let ?c = "c\<lparr>ss_enc_nonce := ss_enc_nonce c + 2, ui_wbuf := lc @ pc\<rparr>"
  have seal: "ss_seal cr c buf = (Inr (), ?c)" using k(1) by (simp add: ss_seal_def)
  have "sealed (ss_seal cr) (\<lambda>_ buf. length buf) c buf (ui_wbuf ?c @ []) (?c\<lparr>ui_wbuf := []\<rparr>)"
  proof (rule sealed.s_chunk [OF False])
    show "ss_seal cr c buf = (Inr (), ?c)" by (rule seal)
    show "ui_wbuf ?c \<noteq> []" using k(2) by (cases lc) simp_all
    show "0 < length buf" using False by simp
    show "sealed (ss_seal cr) (\<lambda>_ buf. length buf) (?c\<lparr>ui_wbuf := []\<rparr>) (drop (length buf) buf) [] (?c\<lparr>ui_wbuf := []\<rparr>)"
      by (simp add: sealed.s_done)
  qed
  moreover have "\<exists>s'. in_step (?c\<lparr>ui_wbuf := []\<rparr>) s' \<and> ui_rbuf s' = rest \<and> delivers ssv_need (ssv_advance cr) s buf s'"
    if s: "in_step c s" "ui_rbuf s = (lc @ pc) @ rest" for s rest
    using ssv_chunk [of cr s lc buf pc rest] s k assms(4)
    by (intro exI [of _ "s\<lparr>ui_rbuf := rest, ssv_dec_nonce := ssv_dec_nonce s + 2\<rparr>"]) (auto simp: in_step_def)
  ultimately show ?thesis using assms(2) by (intro exI [of _ "lc @ pc"] exI [of _ "?c\<lparr>ui_wbuf := []\<rparr>"]) simp
qed

lemma client_writes:
  assumes "aead_lawful cr" and "aead_keyed (ss_enc c)" and "ui_wbuf c = []" and "\<forall>buf \<in> set bufs. length buf \<le> 65535"
  shows "\<exists>out c'. sealed_each (ss_seal cr) (\<lambda>_ buf. length buf) c bufs out c' \<and>
    (\<forall>s. in_step c s \<longrightarrow> ui_rbuf s = out \<longrightarrow> drains ssv_need (ssv_advance cr) s (concat bufs) None)"
proof -
  have "\<exists>out c'. sealed_each (ss_seal cr) (\<lambda>_ buf. length buf) c bufs out c' \<and>
    (\<forall>s. in_step c s \<longrightarrow> ui_rbuf s = out \<longrightarrow>
       (\<exists>s'. ui_rbuf s' = [] \<and> delivers ssv_need (ssv_advance cr) s (concat bufs) s'))"
    using assms(2-4)
  proof (induction bufs arbitrary: c)
    case Nil
    show ?case using delivers_refl by (intro exI [of _ "[]"] exI [of _ c]) (auto intro: sealed_each.e_nil)
  next
    case (Cons buf bufs)
    from client_write [OF assms(1) Cons.prems(1,2), of buf] Cons.prems(3) obtain out c' where
      one: "sealed (ss_seal cr) (\<lambda>_ buf. length buf) c buf out c'" "aead_keyed (ss_enc c')"
        "\<And>s rest. in_step c s \<Longrightarrow> ui_rbuf s = out @ rest \<Longrightarrow>
           \<exists>s'. in_step c' s' \<and> ui_rbuf s' = rest \<and> delivers ssv_need (ssv_advance cr) s buf s'" by auto
    from Cons.IH [OF one(2) sealed_wbuf [OF one(1) Cons.prems(2)]] Cons.prems(3) obtain out' c'' where
      others: "sealed_each (ss_seal cr) (\<lambda>_ buf. length buf) c' bufs out' c''"
        "\<And>s. in_step c' s \<Longrightarrow> ui_rbuf s = out' \<Longrightarrow> \<exists>s'. ui_rbuf s' = [] \<and> delivers ssv_need (ssv_advance cr) s (concat bufs) s'"
      by auto
    have "sealed_each (ss_seal cr) (\<lambda>_ buf. length buf) c (buf # bufs) (out @ out') c''"
      using one(1) others(1) by (rule sealed_each.e_cons)
    moreover have "\<exists>s'. ui_rbuf s' = [] \<and> delivers ssv_need (ssv_advance cr) s (concat (buf # bufs)) s'"
      if "in_step c s" "ui_rbuf s = out @ out'" for s
      using one(3) [OF that] others(2) delivers_trans by fastforce
    ultimately show ?case by blast
  qed
  then show ?thesis using delivers_end ssv_need_pos by metis
qed

section \<open>The request\<close>

lemma request_block_reads:
  assumes "steady (tr_in t)" and "arrived (tr_in t) = ct @ rest" and "length ct = n + 16"
    and "aead_open cr dec (nonce_bytes nonce) [] ct = Inr pt"
  shows "\<exists>es. steady es \<and> arrived es = rest \<and> t_bind (request_block cr dec nonce msg n) f t = f pt (t\<lparr>tr_in := es\<rparr>)"
proof -
  let ?open = "\<lambda>ct. t_lift (case aead_open cr dec (nonce_bytes nonce) [] ct of Inl e \<Rightarrow> Inl (Protocol msg) | Inr pt \<Rightarrow> Inr pt)"
  from t_read_prefix [OF assms(1,2), of "n + TAG" ?open] assms(3,4) obtain es where es: "steady es" "arrived es = rest"
    "request_block cr dec nonce msg n t = (Inr pt, t\<lparr>tr_in := es\<rparr>)" by (auto simp: request_block_def TAG_def)
  then show ?thesis by (intro exI [of _ es]) (simp add: t_bind_def)
qed

text \<open>The legacy header, read back.\<close>

lemma legacy_request:
  assumes "aead_lawful cr" and "aead_keyed k" and "wire_addr target" and "ss_header_legacy cr k target initial salt = Inr (wire, nonce)"
  shows "nonce = 2 \<and> (\<exists>hdr. wire = salt @ hdr \<and>
    (\<forall>t rest. steady (tr_in t) \<longrightarrow> arrived (tr_in t) = hdr @ rest \<longrightarrow>
      (\<exists>es. steady es \<and> arrived es = rest \<and> read_request_legacy cr k t = (Inr (target, initial), t\<lparr>tr_in := es\<rparr>))))"
proof -
  let ?hdr = "enc_socks target @ initial"
  have len: "length ?hdr \<le> 65535" using assms(4) by (auto simp: ss_header_legacy_def seal_chunk_def split: if_splits)
  from seal_chunk_ok [OF assms(1,2) len, of 0 salt] obtain lc pc where k:
    "seal_chunk cr k 0 ?hdr salt = (Inr (salt @ lc @ pc), 2)" "length lc = 18" "length pc = length ?hdr + 16"
    "aead_open cr k (nonce_bytes 0) [] lc = Inr (u16_be (word_of_nat (length ?hdr)))" "aead_open cr k (nonce_bytes 1) [] pc = Inr ?hdr"
    by auto
  have "wire = salt @ lc @ pc \<and> nonce = 2" using assms(4) k(1) by (simp add: ss_header_legacy_def)
  moreover have "\<exists>es. steady es \<and> arrived es = rest \<and> read_request_legacy cr k t = (Inr (target, initial), t\<lparr>tr_in := es\<rparr>)"
    if t: "steady (tr_in t)" "arrived (tr_in t) = (lc @ pc) @ rest" for t rest
  proof -
    let ?g = "\<lambda>hdr. t_lift (rbind (decode_socks_addr hdr) (\<lambda>(target, used). Inr (target, drop used hdr)))"
    let ?f = "\<lambda>lp. t_bind (request_block cr k 1 ''shadowsocks request header'' (unat (u16_from (lp ! 0) (lp ! 1)))) ?g"
    obtain es where es: "steady es" "arrived es = pc @ rest" "read_request_legacy cr k t = ?f (u16_be (word_of_nat (length ?hdr))) (t\<lparr>tr_in := es\<rparr>)"
      using request_block_reads [OF t(1), of lc "pc @ rest" 2 cr k 0 _ "''shadowsocks request length''" ?f] t(2) k(2,4)
      unfolding read_request_legacy_def by auto
    moreover obtain es' where "steady es'" "arrived es' = rest"
      "?f (u16_be (word_of_nat (length ?hdr))) (t\<lparr>tr_in := es\<rparr>) = ?g ?hdr (t\<lparr>tr_in := es'\<rparr>)"
      using request_block_reads [of "t\<lparr>tr_in := es\<rparr>" pc rest "length ?hdr" cr k 1 ?hdr "''shadowsocks request header''" ?g] es(1,2) k(3,5)
        chunk_length_back [OF len] by (auto simp: u16_from_be)
    ultimately show ?thesis using decode_socks_encode [OF assms(3), of initial] by (intro exI [of _ es']) (simp add: rbind_def)
  qed
  ultimately show ?thesis by (intro conjI exI [of _ "lc @ pc"]) auto
qed

text \<open>The 2022 header, read back.\<close>

lemma parse_var_header_built:
  assumes "wire_addr target" and "unat pad \<le> 900" and "initial \<noteq> [] \<or> pad \<noteq> 0"
  shows "parse_var_header (enc_socks target @ u16_be pad @ replicate (unat pad) 0 @ initial) = Inr (target, initial)"
proof -
  let ?rest = "u16_be pad @ replicate (unat pad) 0 @ initial"
  have "u16_from (?rest ! 0) (?rest ! 1) = pad" by (simp add: nth_append u16_from_be)
  moreover have "drop (2 + unat pad) ?rest = initial" by simp
  moreover have "\<not> (initial = [] \<and> unat pad = 0)" using assms(3) by (auto simp: unat_eq_0)
  ultimately show ?thesis
    using decode_socks_encode [OF assms(1), of ?rest] assms(2) by (simp add: parse_var_header_def rbind_def Let_def MAX_PADDING_def)
qed

lemma parse_var_header_var:
  assumes "wire_addr target"
  shows "parse_var_header (ss_var_header target initial) = Inr (target, initial)"
  using parse_var_header_built [OF assms, of "if initial = [] then 16 else 0" initial] by (simp add: ss_var_header_def Let_def split: if_splits)

lemma ss_header_2022_built:
  "ss_header_2022 cr now k target initial salt =
    (if 65535 < length (ss_var_header target initial) then Inl (Protocol ''ss2022 var header exceeds 65535 bytes'')
     else rbind (aead_seal cr k (nonce_bytes 0) [] ([0] @ be_bytes 8 now @ u16_be (word_of_nat (length (ss_var_header target initial)))) salt)
       (\<lambda>wire. rbind (aead_seal cr k (nonce_bytes 1) [] (ss_var_header target initial) wire) (\<lambda>wire. Inr (wire, 2))))"
  by (simp add: ss_header_2022_def Let_def nonce_advance_def)

lemma request_2022_reads:
  assumes "steady (tr_in t)" and "arrived (tr_in t) = fc @ vc @ rest" and "length fc = 27" and "length vc = length var + 16"
    and "aead_open cr k (nonce_bytes 0) [] fc = Inr ([0] @ be_bytes 8 now @ u16_be (word_of_nat (length var)))"
    and "aead_open cr k (nonce_bytes 1) [] vc = Inr var" and "length var \<le> 65535" and "abs_diff now' now \<le> 60"
  shows "\<exists>es. steady es \<and> arrived es = rest \<and> read_request_2022 cr now' k t = (parse_var_header var, t\<lparr>tr_in := es\<rparr>)"
proof -
  let ?fixed = "[0] @ be_bytes 8 now @ u16_be (word_of_nat (length var))"
  let ?g = "\<lambda>var. t_lift (parse_var_header var)"
  let ?f = "\<lambda>fixed. if fixed ! 0 \<noteq> 0 then t_lift (Inl (Protocol ''ss2022 request: not a client stream header''))
    else if abs_diff now' (be_word (take 8 (drop 1 fixed))) > TS_WINDOW
      then t_lift (Inl (Protocol ''ss2022 request timestamp drift exceeds replay window''))
    else t_bind (request_block cr k 1 ''ss2022 request header'' (unat (u16_from (fixed ! 9) (fixed ! 10)))) ?g"
  obtain es where es: "steady es" "arrived es = vc @ rest" "read_request_2022 cr now' k t = ?f ?fixed (t\<lparr>tr_in := es\<rparr>)"
    using request_block_reads [OF assms(1,2), of 11 cr k 0 ?fixed "''ss2022 request header''" ?f] assms(3,5)
    unfolding read_request_2022_def by auto
  have "?fixed ! 0 = 0" "take 8 (drop 1 ?fixed) = be_bytes 8 now" "?fixed ! 9 = u16_be (word_of_nat (length var)) ! 0"
    "?fixed ! 10 = u16_be (word_of_nat (length var)) ! 1" by (simp_all add: nth_append)
  moreover have in_window: "\<not> TS_WINDOW < abs_diff now' now" using assms(8) by (simp add: TS_WINDOW_def not_less)
  ultimately have f: "?f ?fixed = t_bind (request_block cr k 1 ''ss2022 request header'' (length var)) ?g"
    using assms(7) in_window by (simp add: be_word_be_bytes u16_from_be chunk_length_back)
  obtain es' where "steady es'" "arrived es' = rest" "?f ?fixed (t\<lparr>tr_in := es\<rparr>) = ?g var (t\<lparr>tr_in := es'\<rparr>)"
    using request_block_reads [of "t\<lparr>tr_in := es\<rparr>" vc rest "length var" cr k 1 var "''ss2022 request header''" ?g] es(1,2) assms(4,6)
    unfolding f by auto
  then show ?thesis using es(3) by (intro exI [of _ es']) simp
qed

lemma request_2022:
  assumes "aead_lawful cr" and "aead_keyed k" and "wire_addr target"
    and "ss_header_2022 cr now k target initial salt = Inr (wire, nonce)" and "abs_diff now' now \<le> 60"
  shows "nonce = 2 \<and> (\<exists>hdr. wire = salt @ hdr \<and>
    (\<forall>t rest. steady (tr_in t) \<longrightarrow> arrived (tr_in t) = hdr @ rest \<longrightarrow>
      (\<exists>es. steady es \<and> arrived es = rest \<and> read_request_2022 cr now' k t = (Inr (target, initial), t\<lparr>tr_in := es\<rparr>))))"
proof -
  let ?var = "ss_var_header target initial"
  let ?fixed = "[0] @ be_bytes 8 now @ u16_be (word_of_nat (length ?var))"
  note built = ss_header_2022_built [of cr now k target initial salt]
  have len: "length ?var \<le> 65535" using assms(4) built by (simp split: if_splits)
  from aead_seals [OF assms(1,2), of "nonce_bytes 0" ?fixed "[]" salt] obtain fc where fc:
    "aead_seal cr k (nonce_bytes 0) [] ?fixed salt = Inr (salt @ fc)" "length fc = 27" "aead_open cr k (nonce_bytes 0) [] fc = Inr ?fixed" by auto
  from aead_seals [OF assms(1,2), of "nonce_bytes 1" ?var "[]" "salt @ fc"] len obtain vc where vc:
    "aead_seal cr k (nonce_bytes 1) [] ?var (salt @ fc) = Inr ((salt @ fc) @ vc)" "length vc = length ?var + 16"
    "aead_open cr k (nonce_bytes 1) [] vc = Inr ?var" by auto
  have "parse_var_header ?var = Inr (target, initial)"
    by (rule parse_var_header_var [OF assms(3)])
  then have "\<exists>es. steady es \<and> arrived es = rest \<and> read_request_2022 cr now' k t = (Inr (target, initial), t\<lparr>tr_in := es\<rparr>)"
    if t: "steady (tr_in t)" "arrived (tr_in t) = (fc @ vc) @ rest" for t rest
    using request_2022_reads [OF t(1) _ fc(2) vc(2) fc(3) vc(3) len assms(5), of rest] t(2) by simp
  moreover have "wire = salt @ fc @ vc \<and> nonce = 2"
    using assms(4) fc(1) vc(1) len unfolding built by (simp add: rbind_def)
  ultimately show ?thesis by (intro conjI exI [of _ "fc @ vc"]) auto
qed

section \<open>The handshake\<close>

text \<open>The server has the client's method and password, and knows no users.\<close>

definition same_account :: "'a crypto_scheme \<Rightarrow> ss_out \<Rightarrow> ss_server \<Rightarrow> bool" where
  "same_account cr cfg srv \<longleftrightarrow> sv_method srv = so_method cfg \<and> sv_users srv = None \<and>
    derive_key cr (so_method cfg) (so_password cfg) = Inr (sv_key srv)"

lemma server_new_same_account:
  "ss_server_new cr name (so_password cfg) = Inr srv \<Longrightarrow> ss_method_parse name = Inr (so_method cfg) \<Longrightarrow> same_account cr cfg srv"
  by (auto simp: ss_server_new_def same_account_def rbind_Inr_iff)

text \<open>What the handshake leaves behind: the salt and the header written, and the stream set up.\<close>

lemma handshake_writes:
  assumes "ss_handshake cr now salt cfg target initial t = (Inr c, t')" and "flows (tr_script t)"
  shows "\<exists>key wire. derive_key cr (so_method cfg) (so_password cfg) = Inr key \<and>
    aead_new (ss_kind (so_method cfg)) (subkey_for cr (so_method cfg) key salt) = Inr (ss_enc c) \<and>
    (if is_2022 (so_method cfg) then ss_header_2022 cr now (ss_enc c) target initial salt
     else ss_header_legacy cr (ss_enc c) target initial salt) = Inr (wire, ss_enc_nonce c) \<and>
    flows (tr_script (ui_inner c)) \<and> tr_out (ui_inner c) = tr_out t @ wire \<and> tr_in (ui_inner c) = tr_in t \<and>
    ss_method c = so_method cfg \<and> ss_derived_key c = key \<and> ss_sent_salt c = salt \<and> ss_state c = SrSalt \<and>
    ui_rbuf c = [] \<and> ui_plain c = [] \<and> ui_wbuf c = [] \<and> ui_inner c = t'"
proof -
  obtain key enc wire nonce t1 where s: "derive_key cr (so_method cfg) (so_password cfg) = Inr key"
    "aead_new (ss_kind (so_method cfg)) (subkey_for cr (so_method cfg) key salt) = Inr enc"
    "(if is_2022 (so_method cfg) then ss_header_2022 cr now enc target initial salt
      else ss_header_legacy cr enc target initial salt) = Inr (wire, nonce)"
    "t_write_all wire t = (Inr (), t1)"
    "c = \<lparr>ui_inner = t1, ui_rbuf = [], ui_plain = [], ui_wbuf = [],
          ss_method = so_method cfg, ss_derived_key = key, ss_sent_salt = salt, ss_enc = enc, ss_enc_nonce = nonce,
          ss_dec = Some enc, ss_dec_nonce = 0, ss_state = SrSalt\<rparr>" "t' = t1"
    using assms(1) by (auto simp: ss_handshake_def t_bind_def t_lift_def Let_def split: sum.splits prod.splits)
  from t_write_all_flows [OF assms(2), of wire] s(4) obtain es where
    "t1 = t\<lparr>tr_script := es, tr_out := tr_out t @ wire\<rparr>" "flows es" by auto
  then show ?thesis using s by - (rule exI [of _ key], rule exI [of _ wire], cases "is_2022 (so_method cfg)", simp_all)
qed

text \<open>The server accepts what the client's handshake wrote, and is then in step with it.\<close>

lemma accept_in_step:
  assumes "aead_lawful cr" and "same_account cr cfg srv" and "length salt = ss_key_len (so_method cfg)"
    and "length resp_salt = ss_key_len (so_method cfg)" and "wire_addr target"
    and hs: "ss_handshake cr now salt cfg target initial t = (Inr c, t')" and "flows (tr_script t)" and "tr_out t = []"
    and "abs_diff now' now \<le> 60" and "fst (claim_salt instant salt pool)"
    and "steady (tr_in u)" and "arrived (tr_in u) = tr_out (ui_inner c) @ rest"
  shows "\<exists>s pool'. ss_accept cr now' instant resp_salt srv pool u = (Inr (target, s), pool') \<and>
    ui_plain s = initial \<and> ui_rbuf s = [] \<and> ui_wbuf s = [] \<and> in_step c (s\<lparr>ui_plain := []\<rparr>) \<and> steady (tr_in (ui_inner s)) \<and>
    arrived (tr_in (ui_inner s)) = rest \<and> tr_out (ui_inner s) = tr_out u \<and> tr_script (ui_inner s) = tr_script u \<and>
    ssv_is_2022 s = is_2022 (so_method cfg) \<and> ssv_client_salt s = salt \<and> ssv_pending_salt s = Some resp_salt \<and> ssv_enc_nonce s = 0 \<and>
    aead_new (ss_kind (so_method cfg)) (subkey_for cr (so_method cfg) (sv_key srv) resp_salt) = Inr (ssv_enc s) \<and>
    pool' = (if is_2022 (so_method cfg) then snd (claim_salt instant salt pool) else pool)"
proof -
  let ?m = "so_method cfg"
  from handshake_writes [OF hs assms(7)] assms(2,8) obtain wire where hw:
    "aead_new (ss_kind ?m) (subkey_for cr ?m (sv_key srv) salt) = Inr (ss_enc c)"
    "(if is_2022 ?m then ss_header_2022 cr now (ss_enc c) target initial salt
      else ss_header_legacy cr (ss_enc c) target initial salt) = Inr (wire, ss_enc_nonce c)"
    "tr_out (ui_inner c) = wire" unfolding same_account_def by auto
  note keyed = aead_new_keyed [OF hw(1)]
  define req where "req = (if is_2022 ?m then read_request_2022 cr now' (ss_enc c) else read_request_legacy cr (ss_enc c))"
  obtain hdr where hdr: "ss_enc_nonce c = 2" "wire = salt @ hdr"
    "\<And>t rest. steady (tr_in t) \<Longrightarrow> arrived (tr_in t) = hdr @ rest \<Longrightarrow>
      \<exists>es. steady es \<and> arrived es = rest \<and> req t = (Inr (target, initial), t\<lparr>tr_in := es\<rparr>)"
    using legacy_request [OF assms(1) keyed assms(5), of initial salt] request_2022 [OF assms(1) keyed assms(5) _ assms(9), of initial salt]
      hw(2) unfolding req_def by (cases "is_2022 ?m") auto
  let ?body = "\<lambda>salt. t_bind (session_key cr srv salt) (\<lambda>key.
    t_bind (t_lift (aead_new (ss_kind (sv_method srv)) (subkey_for cr (sv_method srv) key salt))) (\<lambda>dec.
    t_bind (if is_2022 (sv_method srv) then read_request_2022 cr now' dec else read_request_legacy cr dec) (\<lambda>(target, initial).
    t_lift (Inr (salt, key, dec, target, initial)))))"
  obtain es where es: "steady es" "arrived es = hdr @ rest"
    "t_bind (t_read_exact (ss_key_len (sv_method srv))) ?body u = ?body salt (u\<lparr>tr_in := es\<rparr>)"
    using t_read_prefix [OF assms(11), of salt "hdr @ rest" "ss_key_len ?m" ?body] assms(2,3,12) hw(3) hdr(2)
    by (auto simp: same_account_def)
  obtain es' where es': "steady es'" "arrived es' = rest" "req (u\<lparr>tr_in := es\<rparr>) = (Inr (target, initial), u\<lparr>tr_in := es'\<rparr>)"
    using hdr(3) [of "u\<lparr>tr_in := es\<rparr>" rest] es(1,2) by auto
  have "?body salt (u\<lparr>tr_in := es\<rparr>) = (Inr (salt, sv_key srv, ss_enc c, target, initial), u\<lparr>tr_in := es'\<rparr>)"
    using assms(2) hw(1) es'(3) by (simp add: same_account_def session_key_def req_def t_bind_def [of "if _ then _ else _"])
  moreover obtain pool' where claim: "claim_salt instant salt pool = (True, pool')"
    using assms(10) by (cases "claim_salt instant salt pool") simp
  moreover have "length (subkey_for cr ?m (sv_key srv) resp_salt) = key_len (ss_kind ?m)"
    using derive_key_length assms(2) by (fastforce simp: same_account_def simp flip: ss_key_len_def)
  then obtain enc where "aead_new (ss_kind ?m) (subkey_for cr ?m (sv_key srv) resp_salt) = Inr enc" using aead_new_ok by blast
  ultimately have "ss_accept cr now' instant resp_salt srv pool u =
    (Inr (target, \<lparr>ui_inner = u\<lparr>tr_in := es'\<rparr>, ui_rbuf = [], ui_plain = initial, ui_wbuf = [],
        ssv_is_2022 = is_2022 ?m, ssv_client_salt = salt, ssv_pending_salt = Some resp_salt,
        ssv_enc = enc, ssv_enc_nonce = 0, ssv_dec = ss_enc c, ssv_dec_nonce = 2, ssv_pending_plain = 0, ssv_state = SvLen\<rparr>),
     if is_2022 ?m then snd (claim_salt instant salt pool) else pool)"
    using es(3) assms(2) claim by (cases "is_2022 ?m") (simp_all add: ss_accept_def same_account_def rbind_def)
  then show ?thesis using es'(1,2) keyed hdr(1) \<open>aead_new _ _ = Inr enc\<close>
    by - (rule exI, rule exI, rule conjI, assumption, simp add: in_step_def)
qed

section \<open>From the server to the client\<close>

definition answers :: "'a crypto_scheme \<Rightarrow> ss_server_stream \<Rightarrow> ss_stream \<Rightarrow> bool" where
  "answers cr s c \<longleftrightarrow> aead_keyed (ssv_enc s) \<and> ui_plain c = [] \<and>
    (case ssv_pending_salt s of
       None \<Rightarrow> ss_dec c = Some (ssv_enc s) \<and> ss_dec_nonce c = ssv_enc_nonce s \<and> ss_state c = SrLen
     | Some salt \<Rightarrow> ss_state c = SrSalt \<and> ssv_enc_nonce s = 0 \<and> length salt = ss_key_len (ss_method c) \<and>
         aead_new (ss_kind (ss_method c)) (subkey_for cr (ss_method c) (ss_derived_key c) salt) = Inr (ssv_enc s) \<and>
         ssv_is_2022 s = is_2022 (ss_method c) \<and> ssv_client_salt s = ss_sent_salt c \<and> length (ss_sent_salt c) = ss_key_len (ss_method c))"

text \<open>The four units of a response.\<close>

lemma ss_salt_unit:
  assumes "ss_state c = SrSalt" and "ui_plain c = []" and "ui_rbuf c = salt @ rest" and "length salt = ss_key_len (ss_method c)"
    and "aead_new (ss_kind (ss_method c)) (subkey_for cr (ss_method c) (ss_derived_key c) salt) = Inr d"
  shows "delivers ss_need (ss_advance cr now) c [] (c\<lparr>ui_rbuf := rest, ss_dec := Some d, ss_dec_nonce := 0,
    ss_state := (if is_2022 (ss_method c) then SrFixed2022 else SrLen)\<rparr>)"
  using assms by (intro delivers_silent) (simp_all add: ss_need_def ss_advance_def Let_def)

lemma ss_len_unit:
  assumes "ss_state c = SrLen" and "ui_plain c = []" and "ui_rbuf c = lc @ rest" and "length lc = 18" and "ss_dec c = Some d"
    and "aead_open cr d (nonce_bytes (ss_dec_nonce c)) [] lc = Inr (u16_be w)"
  shows "delivers ss_need (ss_advance cr now) c [] (c\<lparr>ui_rbuf := rest, ss_dec_nonce := ss_dec_nonce c + 1, ss_state := SrPayload w\<rparr>)"
  using assms by (intro delivers_silent) (simp_all add: ss_need_def ss_advance_def ss_open_unit_def nonce_advance_def TAG_def u16_from_be)

lemma ss_payload_unit:
  assumes "ss_state c = SrPayload (word_of_nat (length plain))" and "ui_plain c = []" and "ui_rbuf c = pc @ rest"
    and "length pc = length plain + 16" and "length plain \<le> 65535" and "ss_dec c = Some d"
    and "aead_open cr d (nonce_bytes (ss_dec_nonce c)) [] pc = Inr plain"
  shows "delivers ss_need (ss_advance cr now) c plain (c\<lparr>ui_rbuf := rest, ss_dec_nonce := ss_dec_nonce c + 1, ss_state := SrLen\<rparr>)"
proof -
  let ?c = "c\<lparr>ui_rbuf := rest, ss_dec_nonce := ss_dec_nonce c + 1, ui_plain := plain, ss_state := SrLen\<rparr>"
  have "ss_advance cr now c = (Inr (), ?c)"
    using assms by (simp add: ss_advance_def ss_open_unit_def nonce_advance_def TAG_def chunk_length_back)
  then have "delivers ss_need (ss_advance cr now) c (ui_plain ?c) (?c\<lparr>ui_plain := []\<rparr>)"
    using assms by (intro delivers_unit) (simp_all add: ss_need_def TAG_def chunk_length_back)
  moreover have "?c\<lparr>ui_plain := []\<rparr> = c\<lparr>ui_rbuf := rest, ss_dec_nonce := ss_dec_nonce c + 1, ss_state := SrLen\<rparr>" using assms(2) by simp
  ultimately show ?thesis by simp
qed

lemma ss_fixed_unit:
  assumes "ss_state c = SrFixed2022" and "ui_plain c = []" and "ui_rbuf c = fc @ rest" and "length fc = 27 + length (ss_sent_salt c)"
    and "ss_dec c = Some d" and "abs_diff now sent \<le> 60"
    and "aead_open cr d (nonce_bytes (ss_dec_nonce c)) [] fc = Inr ([1] @ be_bytes 8 sent @ ss_sent_salt c @ u16_be w)"
  shows "delivers ss_need (ss_advance cr now) c [] (c\<lparr>ui_rbuf := rest, ss_dec_nonce := ss_dec_nonce c + 1, ss_state := SrPayload w\<rparr>)"
proof -
  let ?pt = "[1] @ be_bytes 8 sent @ ss_sent_salt c @ u16_be w"
  have "?pt ! 0 = 1" "take 8 (drop 1 ?pt) = be_bytes 8 sent" "take (length (ss_sent_salt c)) (drop 9 ?pt) = ss_sent_salt c"
    "take 2 (drop (9 + length (ss_sent_salt c)) ?pt) = u16_be w" by (simp_all add: drop_Cons')
  then have "ss_advance cr now c = (Inr (), c\<lparr>ui_rbuf := rest, ss_dec_nonce := ss_dec_nonce c + 1, ss_state := SrPayload w\<rparr>)"
    using assms by (simp add: ss_advance_def ss_open_unit_def nonce_advance_def TAG_def be_word_be_bytes not_less)
  then show ?thesis using assms by (intro delivers_silent) (simp_all add: ss_need_def TAG_def)
qed

text \<open>One chunk of the server: sealed, and decoded by the client.\<close>

lemma later_chunk:
  assumes "aead_lawful cr" and "aead_keyed (ssv_enc s)" and "ssv_pending_salt s = None" and "length plain \<le> 65535"
  shows "\<exists>out. seal_chunk cr (ssv_enc s) (ssv_enc_nonce s) plain [] = (Inr out, ssv_enc_nonce s + 2) \<and> out \<noteq> [] \<and>
    (\<forall>c rest. answers cr s c \<longrightarrow> ui_rbuf c = out @ rest \<longrightarrow>
       delivers ss_need (ss_advance cr now) c plain (c\<lparr>ui_rbuf := rest, ss_dec_nonce := ssv_enc_nonce s + 2\<rparr>))"
proof -
  from seal_chunk_ok [OF assms(1,2,4), of "ssv_enc_nonce s" "[]"] obtain lc pc where k:
    "seal_chunk cr (ssv_enc s) (ssv_enc_nonce s) plain [] = (Inr (lc @ pc), ssv_enc_nonce s + 2)" "length lc = 18" "length pc = length plain + 16"
    "aead_open cr (ssv_enc s) (nonce_bytes (ssv_enc_nonce s)) [] lc = Inr (u16_be (word_of_nat (length plain)))"
    "aead_open cr (ssv_enc s) (nonce_bytes (ssv_enc_nonce s + 1)) [] pc = Inr plain" by auto
  have "delivers ss_need (ss_advance cr now) c plain (c\<lparr>ui_rbuf := rest, ss_dec_nonce := ssv_enc_nonce s + 2\<rparr>)"
    if c: "answers cr s c" "ui_rbuf c = (lc @ pc) @ rest" for c rest
  proof -
    have st: "ui_plain c = []" "ss_dec c = Some (ssv_enc s)" "ss_dec_nonce c = ssv_enc_nonce s" "ss_state c = SrLen"
      using c(1) assms(3) by (simp_all add: answers_def)
    let ?c = "c\<lparr>ui_rbuf := pc @ rest, ss_dec_nonce := ss_dec_nonce c + 1, ss_state := SrPayload (word_of_nat (length plain))\<rparr>"
    have d1: "delivers ss_need (ss_advance cr now) c [] ?c" using st k c(2) by (intro ss_len_unit) simp_all
    have d2: "delivers ss_need (ss_advance cr now) ?c plain
        (?c\<lparr>ui_rbuf := rest, ss_dec_nonce := ss_dec_nonce ?c + 1, ss_state := SrLen\<rparr>)"
      using st k assms(4) by (intro ss_payload_unit) simp_all
    have e: "?c\<lparr>ui_rbuf := rest, ss_dec_nonce := ss_dec_nonce ?c + 1, ss_state := SrLen\<rparr> = c\<lparr>ui_rbuf := rest, ss_dec_nonce := ssv_enc_nonce s + 2\<rparr>"
      using st by simp
    show ?thesis using delivers_trans [OF d1 d2] unfolding e by (simp only: append_Nil)
  qed
  then show ?thesis using k(1,2) by (intro exI [of _ "lc @ pc"]) auto
qed

lemma first_chunk_legacy:
  assumes "aead_lawful cr" and "aead_keyed (ssv_enc s)" and "ssv_pending_salt s = Some salt" and "\<not> ssv_is_2022 s" and "length plain \<le> 65535"
    and "salt \<noteq> []"
  shows "\<exists>out. seal_chunk cr (ssv_enc s) (ssv_enc_nonce s) plain salt = (Inr out, ssv_enc_nonce s + 2) \<and> out \<noteq> [] \<and>
    (\<forall>c rest. answers cr s c \<longrightarrow> ui_rbuf c = out @ rest \<longrightarrow>
       delivers ss_need (ss_advance cr now) c plain
         (c\<lparr>ui_rbuf := rest, ss_dec := Some (ssv_enc s), ss_dec_nonce := ssv_enc_nonce s + 2, ss_state := SrLen\<rparr>))"
proof -
  from seal_chunk_ok [OF assms(1,2,5), of "ssv_enc_nonce s" salt] obtain lc pc where k:
    "seal_chunk cr (ssv_enc s) (ssv_enc_nonce s) plain salt = (Inr (salt @ lc @ pc), ssv_enc_nonce s + 2)" "length lc = 18" "length pc = length plain + 16"
    "aead_open cr (ssv_enc s) (nonce_bytes (ssv_enc_nonce s)) [] lc = Inr (u16_be (word_of_nat (length plain)))"
    "aead_open cr (ssv_enc s) (nonce_bytes (ssv_enc_nonce s + 1)) [] pc = Inr plain" by auto
  have "delivers ss_need (ss_advance cr now) c plain
      (c\<lparr>ui_rbuf := rest, ss_dec := Some (ssv_enc s), ss_dec_nonce := ssv_enc_nonce s + 2, ss_state := SrLen\<rparr>)"
    if c: "answers cr s c" "ui_rbuf c = (salt @ lc @ pc) @ rest" for c rest
  proof -
    have st: "ui_plain c = []" "ss_state c = SrSalt" "ssv_enc_nonce s = 0" "length salt = ss_key_len (ss_method c)" "\<not> is_2022 (ss_method c)"
      "aead_new (ss_kind (ss_method c)) (subkey_for cr (ss_method c) (ss_derived_key c) salt) = Inr (ssv_enc s)"
      using c(1) assms(3,4) by (simp_all add: answers_def)
    let ?c1 = "c\<lparr>ui_rbuf := lc @ pc @ rest, ss_dec := Some (ssv_enc s), ss_dec_nonce := 0, ss_state := SrLen\<rparr>"
    let ?c2 = "?c1\<lparr>ui_rbuf := pc @ rest, ss_dec_nonce := ss_dec_nonce ?c1 + 1, ss_state := SrPayload (word_of_nat (length plain))\<rparr>"
    have d1: "delivers ss_need (ss_advance cr now) c [] ?c1"
      using ss_salt_unit [of c salt "lc @ pc @ rest" cr "ssv_enc s" now] st c(2) by simp
    have d2: "delivers ss_need (ss_advance cr now) ?c1 [] ?c2" using st k by (intro ss_len_unit) simp_all
    have d3: "delivers ss_need (ss_advance cr now) ?c2 plain
        (?c2\<lparr>ui_rbuf := rest, ss_dec_nonce := ss_dec_nonce ?c2 + 1, ss_state := SrLen\<rparr>)"
      using st k assms(5) by (intro ss_payload_unit) simp_all
    have e: "?c2\<lparr>ui_rbuf := rest, ss_dec_nonce := ss_dec_nonce ?c2 + 1, ss_state := SrLen\<rparr> =
        c\<lparr>ui_rbuf := rest, ss_dec := Some (ssv_enc s), ss_dec_nonce := ssv_enc_nonce s + 2, ss_state := SrLen\<rparr>"
      using st by simp
    show ?thesis using delivers_trans [OF d1 delivers_trans [OF d2 d3]] unfolding e by (simp only: append_Nil)
  qed
  then show ?thesis using k(1) assms(6) by (intro exI [of _ "salt @ lc @ pc"]) auto
qed

lemma first_chunk_2022:
  assumes "aead_lawful cr" and "aead_keyed (ssv_enc s)" and "ssv_pending_salt s = Some salt" and "ssv_is_2022 s" and "length plain \<le> 65535"
    and "salt \<noteq> []" and "length (ssv_client_salt s) \<le> 32" and "abs_diff now sent \<le> 60"
  shows "\<exists>out. ssv_first_2022 cr sent s plain salt = (Inr out, ssv_enc_nonce s + 2) \<and> out \<noteq> [] \<and>
    (\<forall>c rest. answers cr s c \<longrightarrow> ui_rbuf c = out @ rest \<longrightarrow>
       delivers ss_need (ss_advance cr now) c plain
         (c\<lparr>ui_rbuf := rest, ss_dec := Some (ssv_enc s), ss_dec_nonce := ssv_enc_nonce s + 2, ss_state := SrLen\<rparr>))"
proof -
  let ?fixed = "[1] @ be_bytes 8 sent @ ssv_client_salt s @ u16_be (word_of_nat (length plain))"
  from aead_seals [OF assms(1,2), of "nonce_bytes (ssv_enc_nonce s)" ?fixed "[]" salt] assms(7) obtain fc where fc:
    "aead_seal cr (ssv_enc s) (nonce_bytes (ssv_enc_nonce s)) [] ?fixed salt = Inr (salt @ fc)" "length fc = 27 + length (ssv_client_salt s)"
    "aead_open cr (ssv_enc s) (nonce_bytes (ssv_enc_nonce s)) [] fc = Inr ?fixed" by auto
  from aead_seals [OF assms(1,2), of "nonce_bytes (ssv_enc_nonce s + 1)" plain "[]" "salt @ fc"] assms(5) obtain pc where pc:
    "aead_seal cr (ssv_enc s) (nonce_bytes (ssv_enc_nonce s + 1)) [] plain (salt @ fc) = Inr ((salt @ fc) @ pc)" "length pc = length plain + 16"
    "aead_open cr (ssv_enc s) (nonce_bytes (ssv_enc_nonce s + 1)) [] pc = Inr plain" by auto
  have "ssv_enc_nonce s + 1 + 1 = ssv_enc_nonce s + 2" by simp
  then have "ssv_first_2022 cr sent s plain salt = (Inr (salt @ fc @ pc), ssv_enc_nonce s + 2)"
    using fc(1) pc(1) by (simp add: ssv_first_2022_def nonce_advance_def)
  moreover have "delivers ss_need (ss_advance cr now) c plain
      (c\<lparr>ui_rbuf := rest, ss_dec := Some (ssv_enc s), ss_dec_nonce := ssv_enc_nonce s + 2, ss_state := SrLen\<rparr>)"
    if c: "answers cr s c" "ui_rbuf c = (salt @ fc @ pc) @ rest" for c rest
  proof -
    have st: "ui_plain c = []" "ss_state c = SrSalt" "ssv_enc_nonce s = 0" "length salt = ss_key_len (ss_method c)" "is_2022 (ss_method c)"
      "aead_new (ss_kind (ss_method c)) (subkey_for cr (ss_method c) (ss_derived_key c) salt) = Inr (ssv_enc s)"
      "ssv_client_salt s = ss_sent_salt c"
      using c(1) assms(3,4) by (simp_all add: answers_def)
    let ?c1 = "c\<lparr>ui_rbuf := fc @ pc @ rest, ss_dec := Some (ssv_enc s), ss_dec_nonce := 0, ss_state := SrFixed2022\<rparr>"
    let ?c2 = "?c1\<lparr>ui_rbuf := pc @ rest, ss_dec_nonce := ss_dec_nonce ?c1 + 1, ss_state := SrPayload (word_of_nat (length plain))\<rparr>"
    have d1: "delivers ss_need (ss_advance cr now) c [] ?c1"
      using ss_salt_unit [of c salt "fc @ pc @ rest" cr "ssv_enc s" now] st c(2) by simp
    have d2: "delivers ss_need (ss_advance cr now) ?c1 [] ?c2" using st fc assms(8) by (intro ss_fixed_unit) simp_all
    have d3: "delivers ss_need (ss_advance cr now) ?c2 plain
        (?c2\<lparr>ui_rbuf := rest, ss_dec_nonce := ss_dec_nonce ?c2 + 1, ss_state := SrLen\<rparr>)"
      using st pc assms(5) by (intro ss_payload_unit) simp_all
    have e: "?c2\<lparr>ui_rbuf := rest, ss_dec_nonce := ss_dec_nonce ?c2 + 1, ss_state := SrLen\<rparr> =
        c\<lparr>ui_rbuf := rest, ss_dec := Some (ssv_enc s), ss_dec_nonce := ssv_enc_nonce s + 2, ss_state := SrLen\<rparr>"
      using st by simp
    show ?thesis using delivers_trans [OF d1 delivers_trans [OF d2 d3]] unfolding e by (simp only: append_Nil)
  qed
  ultimately show ?thesis using assms(6) by (intro exI [of _ "salt @ fc @ pc"]) auto
qed

definition ready :: "ss_server_stream \<Rightarrow> bool" where
  "ready s \<longleftrightarrow> aead_keyed (ssv_enc s) \<and> ssv_pending_salt s \<noteq> Some [] \<and> length (ssv_client_salt s) \<le> 32"

text \<open>What is written decodes at every client in step to the buffer, and leaves the two in step.\<close>

abbreviation heard :: "'a crypto_scheme \<Rightarrow> u64 \<Rightarrow> ss_server_stream \<Rightarrow> bytes \<Rightarrow> bytes \<Rightarrow> ss_server_stream \<Rightarrow> bool" where
  "heard cr now \<equiv> heard_by (\<lambda>_. False) ss_need (ss_advance cr now) (answers cr)"

lemma server_chunk:
  assumes "aead_lawful cr" and "ready s" and "abs_diff now sent \<le> 60"
  shows "\<exists>s1. ssv_seal cr sent s buf = (Inr (), s1) \<and> ui_wbuf s1 \<noteq> [] \<and> ssv_pending_plain s1 = min (length buf) MAX_CHUNK \<and>
    ready (s1\<lparr>ui_wbuf := []\<rparr>) \<and> heard cr now s (ui_wbuf s1) (take (ssv_pending_plain s1) buf) (s1\<lparr>ui_wbuf := []\<rparr>)"
proof -
  let ?n = "min (length buf) MAX_CHUNK"
  let ?plain = "take ?n buf"
  have len: "length ?plain \<le> 65535" by (simp add: MAX_CHUNK_def)
  have keyed: "aead_keyed (ssv_enc s)" using assms(2) by (simp add: ready_def)
  show ?thesis
  proof (cases "ssv_pending_salt s")
    case None
    from later_chunk [OF assms(1) keyed None len] obtain out where o:
      "seal_chunk cr (ssv_enc s) (ssv_enc_nonce s) ?plain [] = (Inr out, ssv_enc_nonce s + 2)" "out \<noteq> []"
      "\<And>c rest. answers cr s c \<Longrightarrow> ui_rbuf c = out @ rest \<Longrightarrow>
        delivers ss_need (ss_advance cr now) c ?plain (c\<lparr>ui_rbuf := rest, ss_dec_nonce := ssv_enc_nonce s + 2\<rparr>)" by blast
    let ?s1 = "s\<lparr>ssv_pending_salt := None, ssv_enc_nonce := ssv_enc_nonce s + 2, ui_wbuf := out, ssv_pending_plain := ?n\<rparr>"
    have "ssv_seal cr sent s buf = (Inr (), ?s1)" using o(1) None by (simp add: ssv_seal_def Let_def)
    moreover have "heard cr now s out ?plain (?s1\<lparr>ui_wbuf := []\<rparr>)"
      unfolding heard_by_def
    proof (intro allI impI)
      fix c rest assume c: "answers cr s c" "ui_rbuf c = out @ rest"
      show "\<exists>c'. answers cr (?s1\<lparr>ui_wbuf := []\<rparr>) c' \<and> ui_rbuf c' = rest \<and> delivers ss_need (ss_advance cr now) c ?plain c'"
        using o(3) [OF c] c(1) None by (intro exI [of _ "c\<lparr>ui_rbuf := rest, ss_dec_nonce := ssv_enc_nonce s + 2\<rparr>"]) (simp add: answers_def)
    qed
    ultimately show ?thesis using o(2) assms(2) by (intro exI [of _ ?s1]) (simp add: ready_def)
  next
    case (Some salt)
    have salt: "salt \<noteq> []" "length (ssv_client_salt s) \<le> 32" using assms(2) Some by (auto simp: ready_def)
    obtain out where o: "(if ssv_is_2022 s then ssv_first_2022 cr sent s ?plain salt else seal_chunk cr (ssv_enc s) (ssv_enc_nonce s) ?plain salt) =
        (Inr out, ssv_enc_nonce s + 2)" "out \<noteq> []"
      "\<And>c rest. answers cr s c \<Longrightarrow> ui_rbuf c = out @ rest \<Longrightarrow> delivers ss_need (ss_advance cr now) c ?plain
         (c\<lparr>ui_rbuf := rest, ss_dec := Some (ssv_enc s), ss_dec_nonce := ssv_enc_nonce s + 2, ss_state := SrLen\<rparr>)"
      using first_chunk_2022 [OF assms(1) keyed Some _ len salt assms(3)] first_chunk_legacy [OF assms(1) keyed Some _ len salt(1)]
      by (cases "ssv_is_2022 s") fastforce+
    let ?s1 = "s\<lparr>ssv_pending_salt := None, ssv_enc_nonce := ssv_enc_nonce s + 2, ui_wbuf := out, ssv_pending_plain := ?n\<rparr>"
    have "ssv_seal cr sent s buf = (Inr (), ?s1)" using o(1) Some by (simp add: ssv_seal_def Let_def)
    moreover have "heard cr now s out ?plain (?s1\<lparr>ui_wbuf := []\<rparr>)"
      unfolding heard_by_def
    proof (intro allI impI)
      fix c rest assume c: "answers cr s c" "ui_rbuf c = out @ rest"
      show "\<exists>c'. answers cr (?s1\<lparr>ui_wbuf := []\<rparr>) c' \<and> ui_rbuf c' = rest \<and> delivers ss_need (ss_advance cr now) c ?plain c'"
        using o(3) [OF c] c(1) Some
        by (intro exI [of _ "c\<lparr>ui_rbuf := rest, ss_dec := Some (ssv_enc s), ss_dec_nonce := ssv_enc_nonce s + 2, ss_state := SrLen\<rparr>"])
          (simp add: answers_def)
    qed
    ultimately show ?thesis using o(2) assms(2) by (intro exI [of _ ?s1]) (simp add: ready_def)
  qed
qed

interpretation ss_answer: chunk_writer "ssv_seal cr sent" "\<lambda>s _. ssv_pending_plain s"
    "\<lambda>s. aead_lawful cr \<and> abs_diff now sent \<le> 60 \<and> ready s" "heard cr now"
  for cr :: "'a crypto_scheme" and sent now
proof (unfold_locales, goal_cases)
  case (1 s buf)
  then have "0 < min (length buf) MAX_CHUNK" by (simp add: MAX_CHUNK_def)
  with 1 server_chunk [of cr s now sent buf] show ?case by metis
next
  case (2 s)
  show ?case by (rule heard_by_refl)
next
  case 3
  then show ?case by (rule heard_by_trans)
qed

lemma server_writes:
  assumes "aead_lawful cr" and "abs_diff now sent \<le> 60" and "ready s"
  shows "\<exists>out s'. sealed_each (ssv_seal cr sent) (\<lambda>s _. ssv_pending_plain s) s bufs out s' \<and> heard cr now s out (concat bufs) s'"
  using ss_answer.writes_heard [of cr now sent s bufs] assms by blast

section \<open>Whole sessions\<close>

text \<open>The accounts and addresses of the instances below.\<close>

definition sample_cfg :: ss_out where
  "sample_cfg = \<lparr>so_server = ''s'', so_port = 8388, so_method = SsBlake3Aes128Gcm, so_password = ''psk''\<rparr>"

definition sample_srv :: ss_server where
  "sample_srv = \<lparr>sv_method = SsBlake3Aes128Gcm, sv_key = replicate 16 7, sv_users = None\<rparr>"

definition sample_target :: net_addr where
  "sample_target = net_addr_new (Ip (V4 0x01020304)) 443"

definition sample_socket :: transport where
  "sample_socket = \<lparr>tr_out = [], tr_script = [Accept 3, WritePending], tr_in = []\<rparr>"

lemma sample_facts:
  "same_account plain_crypto sample_cfg sample_srv" "wire_addr sample_target" "flows (tr_script sample_socket)" "tr_out sample_socket = []"
  "ss_key_len (so_method sample_cfg) = 16" "length (tr_script sample_socket) = 2"
  "derive_key plain_crypto (so_method sample_cfg) (so_password sample_cfg) = Inr (replicate 16 7)"
  "abs_diff (1010 :: u64) 1000 \<le> 60" "fst (claim_salt 0 (replicate 16 1) [])"
  by (simp_all add: same_account_def sample_cfg_def sample_srv_def sample_target_def sample_socket_def derive_key_def is_2022_def plain_crypto_def
    ss_key_len_def ss_kind_def key_len_def wire_addr_def wire_host_def net_addr_new_def flows_def abs_diff_def claim_salt_def ok_or_def rbind_def)


lemma enc_socks_length: "length (enc_socks a) \<le> 259"
  by (auto simp: encode_socks_addr_def Let_def split: host.split ip_addr.split)

lemma handshake_succeeds:
  assumes "aead_lawful cr" and "derive_key cr (so_method cfg) (so_password cfg) = Inr key" and "length initial \<le> 65000" and "flows (tr_script t)"
  shows "\<exists>c t'. ss_handshake cr now salt cfg target initial t = (Inr c, t') \<and> length (tr_script t') \<le> length (tr_script t)"
proof -
  let ?m = "so_method cfg"
  have "length (subkey_for cr ?m key salt) = key_len (ss_kind ?m)" using derive_key_length [OF assms(2)] by (simp flip: ss_key_len_def)
  then obtain enc where enc: "aead_new (ss_kind ?m) (subkey_for cr ?m key salt) = Inr enc" "aead_keyed enc" using aead_new_ok by blast
  have "\<exists>w. (if is_2022 ?m then ss_header_2022 cr now enc target initial salt else ss_header_legacy cr enc target initial salt) = Inr w"
  proof (cases "is_2022 ?m")
    case True
    let ?var = "ss_var_header target initial"
    have len: "length ?var \<le> 65535" using enc_socks_length [of target] assms(3) by (auto simp: ss_var_header_def Let_def)
    obtain w where w: "aead_seal cr enc (nonce_bytes 0) [] ([0] @ be_bytes 8 now @ u16_be (word_of_nat (length ?var))) salt = Inr w"
      using aead_seals [OF assms(1) enc(2), of "nonce_bytes 0" "[0] @ be_bytes 8 now @ u16_be (word_of_nat (length ?var))" "[]" salt] by auto
    obtain w' where "aead_seal cr enc (nonce_bytes 1) [] ?var w = Inr w'"
      using aead_seals [OF assms(1) enc(2), of "nonce_bytes 1" ?var "[]" w] len by auto
    then show ?thesis using True w len unfolding ss_header_2022_built by (simp add: rbind_def)
  next
    case False
    have "length (enc_socks target @ initial) \<le> 65535" using enc_socks_length [of target] assms(3) by simp
    from seal_chunk_ok [OF assms(1) enc(2) this, of 0 salt] show ?thesis using False by (auto simp: ss_header_legacy_def rbind_def)
  qed
  then obtain wire nonce where "(if is_2022 ?m then ss_header_2022 cr now enc target initial salt
      else ss_header_legacy cr enc target initial salt) = Inr (wire, nonce)" by fastforce
  then show ?thesis using t_write_all_flows [OF assms(4), of wire] assms(2) enc(1)
    by (auto simp: ss_handshake_def t_bind_def t_lift_def Let_def)
qed

text \<open>Writing does not touch the reading half of the client.\<close>

lemma sealed_each_answers:
  assumes "sealed_each (ss_seal cr) (\<lambda>_ buf. length buf) c bufs out c'" and "answers cr s c"
  shows "answers cr s c' \<and> ui_rbuf c' = ui_rbuf c"
proof -
  have seal: "answers cr s c' \<and> ui_rbuf c' = ui_rbuf c" if "ss_seal cr c buf = (Inr u, c')" "answers cr s c" for buf u c c'
    using that by (auto simp: ss_seal_def answers_def split: prod.splits sum.splits option.splits)
  have wbuf: "answers cr s (c\<lparr>ui_wbuf := w\<rparr>) = answers cr s c" for c w by (simp add: answers_def split: option.split)
  have one: "sealed (ss_seal cr) (\<lambda>_ buf. length buf) c buf out c' \<Longrightarrow> answers cr s c \<Longrightarrow> answers cr s c' \<and> ui_rbuf c' = ui_rbuf c" for c buf out c'
  proof (induction rule: sealed.induct)
    case (s_chunk buf c c1 out c2)
    then show ?case using seal [OF s_chunk.hyps(2)] by (simp add: wbuf)
  qed simp
  show ?thesis using assms by (induction rule: sealed_each.induct) (auto dest: one)
qed

lemma answers_inner: "answers cr s (c\<lparr>ui_inner := i\<rparr>) = answers cr s c" "answers cr (s\<lparr>ui_inner := i\<rparr>) c = answers cr s c"
  by (simp_all add: answers_def split: option.split)

lemma in_step_inner: "in_step (c\<lparr>ui_inner := i\<rparr>) s = in_step c s" "in_step c (s\<lparr>ui_inner := i\<rparr>) = in_step c s"
    "in_step c (s\<lparr>ui_rbuf := b\<rparr>) = in_step c s"
  by (simp_all add: in_step_def)

text \<open>The client's writes: what reaches the socket, and that the server decodes it.\<close>

lemma client_session:
  assumes "aead_lawful cr" and "ss_handshake cr now salt cfg target initial t = (Inr c, t')" and "flows (tr_script t)"
    and "\<forall>buf \<in> set bufs. length buf \<le> 65535" and "length (tr_script t') + length (concat bufs) < fuel"
  shows "\<exists>out c1 es. drive_writes (ss_poll_write cr) fuel c bufs =
      Some (Inr (), c1\<lparr>ui_inner := (ui_inner c)\<lparr>tr_script := es, tr_out := tr_out (ui_inner c) @ out\<rparr>\<rparr>) \<and>
    sealed_each (ss_seal cr) (\<lambda>_ buf. length buf) c bufs out c1 \<and>
    (\<forall>s. in_step c s \<longrightarrow> ui_rbuf s = out \<longrightarrow> drains ssv_need (ssv_advance cr) s (concat bufs) None)"
proof -
  from handshake_writes [OF assms(2,3)] have c: "aead_keyed (ss_enc c)" "flows (tr_script (ui_inner c))" "ui_wbuf c = []" "ui_inner c = t'"
    by (auto dest: aead_new_keyed)
  from client_writes [OF assms(1) c(1,3) assms(4)] obtain out c1 where w: "sealed_each (ss_seal cr) (\<lambda>_ buf. length buf) c bufs out c1"
    "\<forall>s. in_step c s \<longrightarrow> ui_rbuf s = out \<longrightarrow> drains ssv_need (ssv_advance cr) s (concat bufs) None" by blast
  from ss_writer.writes_each [OF w(1) c(3,2), of fuel] assms(5) c(4) obtain es where
    "drive_writes (ss_poll_write cr) fuel c bufs =
      Some (Inr (), c1\<lparr>ui_inner := (ui_inner c)\<lparr>tr_script := es, tr_out := tr_out (ui_inner c) @ out\<rparr>\<rparr>)" by auto
  then show ?thesis using w by blast
qed

text \<open>
  C10: a request reaches the server, whatever the schedules of the two sockets. Client and server share method
  and password, their clocks differ by at most 60 seconds and the salt is fresh: then the handshake and the writes succeed,
  and from any steady arrival of those bytes the server recovers the target and reads the initial payload and all
  that was written.
\<close>

theorem ss_request_delivered:
  assumes "aead_lawful cr" and "same_account cr cfg srv"
    and "length salt = ss_key_len (so_method cfg)" and "length resp_salt = ss_key_len (so_method cfg)"
    and "wire_addr target" and "length initial \<le> 65000" and "\<forall>buf \<in> set bufs. length buf \<le> 65535"
    and "flows (tr_script t)" and "tr_out t = []"
    and "abs_diff now' now \<le> 60" and "fst (claim_salt instant salt pool)"
    and "length (tr_script t) + length (concat bufs) < fuel"
  shows "\<exists>c t' c'. ss_handshake cr now salt cfg target initial t = (Inr c, t') \<and>
    drive_writes (ss_poll_write cr) fuel c bufs = Some (Inr (), c') \<and>
    (\<forall>u. steady (tr_in u) \<longrightarrow> arrived (tr_in u) = tr_out (ui_inner c') \<longrightarrow>
      (\<exists>s pool'. ss_accept cr now' instant resp_salt srv pool u = (Inr (target, s), pool') \<and>
        (\<forall>room fuel'. 0 < room \<longrightarrow> backlog (tr_in (ui_inner s)) + length initial + length (concat bufs) < fuel' \<longrightarrow>
          drive_read (ssv_poll_read cr room) fuel' s = Some (initial @ concat bufs, None))))"
proof -
  have key: "derive_key cr (so_method cfg) (so_password cfg) = Inr (sv_key srv)" using assms(2) by (simp add: same_account_def)
  from handshake_succeeds [OF assms(1) key assms(6,8)] obtain c t' where hs:
    "ss_handshake cr now salt cfg target initial t = (Inr c, t')" "length (tr_script t') \<le> length (tr_script t)" by blast
  from client_session [OF assms(1) hs(1) assms(8,7), of fuel] assms(12) hs(2) obtain out c1 es where
    dw: "drive_writes (ss_poll_write cr) fuel c bufs =
      Some (Inr (), c1\<lparr>ui_inner := (ui_inner c)\<lparr>tr_script := es, tr_out := tr_out (ui_inner c) @ out\<rparr>\<rparr>)"
    and decodes: "\<And>s. in_step c s \<Longrightarrow> ui_rbuf s = out \<Longrightarrow> drains ssv_need (ssv_advance cr) s (concat bufs) None" by auto
  have "\<exists>s pool'. ss_accept cr now' instant resp_salt srv pool u = (Inr (target, s), pool') \<and>
      (\<forall>room fuel'. 0 < room \<longrightarrow> backlog (tr_in (ui_inner s)) + length initial + length (concat bufs) < fuel' \<longrightarrow>
        drive_read (ssv_poll_read cr room) fuel' s = Some (initial @ concat bufs, None))"
    if u: "steady (tr_in u)" "arrived (tr_in u) = tr_out (ui_inner c) @ out" for u
  proof -
    from accept_in_step [OF assms(1-5) hs(1) assms(8-11) u] obtain s pool' where s:
      "ss_accept cr now' instant resp_salt srv pool u = (Inr (target, s), pool')" "ui_plain s = initial" "ui_rbuf s = []"
      "in_step c (s\<lparr>ui_plain := []\<rparr>)" "steady (tr_in (ui_inner s))" "arrived (tr_in (ui_inner s)) = out" by blast
    have "drains ssv_need (ssv_advance cr) (arriving (s\<lparr>ui_plain := []\<rparr>)) (concat bufs) None"
      using s(3-6) by (intro decodes) (simp_all add: arriving_def in_step_inner)
    then have "drive_read (ssv_poll_read cr room) fuel' s = Some (initial @ concat bufs, None)"
      if "0 < room" "backlog (tr_in (ui_inner s)) + length initial + length (concat bufs) < fuel'" for room fuel'
      using ssv_reader.reads_all [of cr s "concat bufs" None room fuel'] s(2,5) that by simp
    then show ?thesis using s(1) by blast
  qed
  then show ?thesis using hs(1) dw by (intro exI [of _ c]) auto
qed

theorem ss_request_delivered_witness:
  "\<exists>c' s pool' fuel.
    ss_accept plain_crypto 1010 0 (replicate 16 2) sample_srv [] (sample_socket\<lparr>tr_in := trickle (tr_out (ui_inner (c' :: ss_stream)))\<rparr>) =
      (Inr (sample_target, s), pool') \<and>
    drive_read (ssv_poll_read plain_crypto 3) fuel s = Some ([9] @ concat [[1, 2], [3]], None)"
proof -
  have "\<exists>c t' c'. ss_handshake plain_crypto 1000 (replicate 16 1) sample_cfg sample_target [9] sample_socket = (Inr c, t') \<and>
    drive_writes (ss_poll_write plain_crypto) 100 c [[1, 2], [3]] = Some (Inr (), c') \<and>
    (\<forall>u. steady (tr_in u) \<longrightarrow> arrived (tr_in u) = tr_out (ui_inner c') \<longrightarrow>
      (\<exists>s pool'. ss_accept plain_crypto 1010 0 (replicate 16 2) sample_srv [] u = (Inr (sample_target, s), pool') \<and>
        (\<forall>room fuel'. 0 < room \<longrightarrow> backlog (tr_in (ui_inner s)) + length [9 :: u8] + length (concat [[1, 2 :: u8], [3]]) < fuel' \<longrightarrow>
          drive_read (ssv_poll_read plain_crypto room) fuel' s = Some ([9] @ concat [[1, 2], [3]], None))))"
    by (rule ss_request_delivered) (simp_all add: sample_facts plain_crypto_lawful)
  then obtain c' :: ss_stream where c':
    "\<And>u. steady (tr_in u) \<Longrightarrow> arrived (tr_in u) = tr_out (ui_inner c') \<Longrightarrow>
      \<exists>s pool'. ss_accept plain_crypto 1010 0 (replicate 16 2) sample_srv [] u = (Inr (sample_target, s), pool') \<and>
        (\<forall>room fuel'. 0 < room \<longrightarrow> backlog (tr_in (ui_inner s)) + length [9 :: u8] + length (concat [[1, 2 :: u8], [3]]) < fuel' \<longrightarrow>
          drive_read (ssv_poll_read plain_crypto room) fuel' s = Some ([9] @ concat [[1, 2], [3]], None))" by blast
  from c' [of "sample_socket\<lparr>tr_in := trickle (tr_out (ui_inner c'))\<rparr>"] obtain s pool' where
    "ss_accept plain_crypto 1010 0 (replicate 16 2) sample_srv [] (sample_socket\<lparr>tr_in := trickle (tr_out (ui_inner c'))\<rparr>) = (Inr (sample_target, s), pool')"
    "\<And>room fuel'. 0 < room \<Longrightarrow> backlog (tr_in (ui_inner s)) + length [9 :: u8] + length (concat [[1, 2 :: u8], [3]]) < fuel' \<Longrightarrow>
      drive_read (ssv_poll_read plain_crypto room) fuel' s = Some ([9] @ concat [[1, 2], [3]], None)" by (auto simp: trickle_arrives)
  moreover have "drive_read (ssv_poll_read plain_crypto 3) (Suc (backlog (tr_in (ui_inner s)) + length [9 :: u8] + length (concat [[1, 2 :: u8], [3]]))) s =
      Some ([9] @ concat [[1, 2], [3]], None)" by (rule calculation(2)) simp_all
  ultimately show ?thesis by blast
qed

text \<open>
  C11: the answer reaches the client. After any such request, whatever the server writes, in chunks of its own and
  over any schedule, the client reads back, the response header of the 2022 edition verified.
\<close>

theorem ss_response_delivered:
  assumes "aead_lawful cr" and "same_account cr cfg srv"
    and "length salt = ss_key_len (so_method cfg)" and "length resp_salt = ss_key_len (so_method cfg)"
    and "wire_addr target" and "\<forall>buf \<in> set bufs. length buf \<le> 65535" and "flows (tr_script t)" and "tr_out t = []"
    and "abs_diff now' now \<le> 60" and "fst (claim_salt instant salt pool)"
    and "ss_handshake cr now salt cfg target initial t = (Inr c, t')"
    and "drive_writes (ss_poll_write cr) fuel c bufs = Some (Inr (), c')" and "length (tr_script t') + length (concat bufs) < fuel"
    and "steady (tr_in u)" and "arrived (tr_in u) = tr_out (ui_inner c')" and "flows (tr_script u)" and "tr_out u = []"
    and "ss_accept cr now' instant resp_salt srv pool u = (Inr (target', s), pool')"
    and "abs_diff received sent \<le> 60" and "length (tr_script u) + length (concat replies) < fuel'"
  shows "\<exists>s'. drive_writes (ssv_poll_write cr sent) fuel' s replies = Some (Inr (), s') \<and>
    (\<forall>es room more. steady es \<longrightarrow> arrived es = tr_out (ui_inner s') \<longrightarrow> 0 < room \<longrightarrow> backlog es + length (concat replies) < more \<longrightarrow>
      drive_read (ss_poll_read cr received room) more (c'\<lparr>ui_inner := (ui_inner c')\<lparr>tr_in := es\<rparr>\<rparr>) = Some (concat replies, None))"
proof -
  from client_session [OF assms(1,11,7,6,13)] assms(12) obtain out c1 es1 where c':
    "c' = c1\<lparr>ui_inner := (ui_inner c)\<lparr>tr_script := es1, tr_out := tr_out (ui_inner c) @ out\<rparr>\<rparr>"
    "sealed_each (ss_seal cr) (\<lambda>_ buf. length buf) c bufs out c1" by auto
  from handshake_writes [OF assms(11,7)] assms(2) have c: "ss_method c = so_method cfg" "ss_derived_key c = sv_key srv" "ss_sent_salt c = salt"
    "ss_state c = SrSalt" "ui_rbuf c = []" "ui_plain c = []" by (auto simp: same_account_def)
  have "arrived (tr_in u) = tr_out (ui_inner c) @ out" using assms(15) c'(1) by simp
  from accept_in_step [OF assms(1-5,11,7,8,9,10,14) this] assms(18) have s:
    "ui_wbuf s = []" "tr_out (ui_inner s) = tr_out u" "tr_script (ui_inner s) = tr_script u" "ssv_is_2022 s = is_2022 (so_method cfg)"
    "ssv_client_salt s = salt" "ssv_pending_salt s = Some resp_salt" "ssv_enc_nonce s = 0"
    "aead_new (ss_kind (so_method cfg)) (subkey_for cr (so_method cfg) (sv_key srv) resp_salt) = Inr (ssv_enc s)" by auto
  note keyed = aead_new_keyed [OF s(8)]
  have "resp_salt \<noteq> []" "length salt \<le> 32" using assms(3,4) ss_key_len_cases [of "so_method cfg"] by auto
  then have "ready s" using s keyed by (simp add: ready_def)
  from server_writes [OF assms(1,19) this, of replies] obtain wire s1 where w:
    "sealed_each (ssv_seal cr sent) (\<lambda>s _. ssv_pending_plain s) s replies wire s1" "heard cr received s wire (concat replies) s1" by blast
  from ssv_writer.writes_each [OF w(1) s(1), of fuel'] assms(16,20) s(3) obtain es2 where dw:
    "drive_writes (ssv_poll_write cr sent) fuel' s replies =
      Some (Inr (), s1\<lparr>ui_inner := (ui_inner s)\<lparr>tr_script := es2, tr_out := tr_out (ui_inner s) @ wire\<rparr>\<rparr>)" by auto
  have "answers cr s c" using c s assms(3,4) keyed by (simp add: answers_def)
  then have step: "answers cr s c1" "ui_rbuf c1 = []" using sealed_each_answers [OF c'(2)] c(5) by auto
  have "drive_read (ss_poll_read cr received room) more (c'\<lparr>ui_inner := (ui_inner c')\<lparr>tr_in := es\<rparr>\<rparr>) = Some (concat replies, None)"
    if es: "steady es" "arrived es = wire" "0 < room" "backlog es + length (concat replies) < more" for es room more
  proof -
    let ?c = "c'\<lparr>ui_inner := (ui_inner c')\<lparr>tr_in := es\<rparr>\<rparr>"
    have plain: "ui_plain ?c = []" using step(1) c'(1) by (simp add: answers_def)
    have "answers cr s (arriving ?c)" "ui_rbuf (arriving ?c) = wire @ []"
      using step c'(1) es(2) by (simp_all add: arriving_def answers_def split: option.splits)
    with w(2) obtain c2 where "ui_rbuf c2 = []" "delivers ss_need (ss_advance cr received) (arriving ?c) (concat replies) c2"
      unfolding heard_by_def by blast
    then have d: "drains ss_need (ss_advance cr received) (arriving ?c) (concat replies) None" using delivers_end ss_need_pos by metis
    have e: "?c\<lparr>ui_plain := []\<rparr> = ?c" using plain by simp
    have "drains ss_need (ss_advance cr received) (arriving (?c\<lparr>ui_plain := []\<rparr>)) (concat replies) None" unfolding e by (rule d)
    from ss_reader.reads_all [OF this, of room more] show ?thesis using es plain by simp
  qed
  then show ?thesis using dw s(2) assms(17) by auto
qed

theorem ss_response_delivered_witness:
  "\<exists>c' s s' fuel.
    drive_writes (ssv_poll_write plain_crypto 1020) 100 s [[5], [6, 7]] = Some (Inr (), s') \<and>
    drive_read (ss_poll_read plain_crypto 1050 2) fuel (c'\<lparr>ui_inner := (ui_inner c')\<lparr>tr_in := trickle (tr_out (ui_inner s'))\<rparr>\<rparr>) =
      Some (concat [[5], [6, 7]], None)"
proof -
  let ?salt = "replicate 16 1 :: bytes" and ?resp = "replicate 16 2 :: bytes"
  have key: "length ?salt = ss_key_len (so_method sample_cfg)" "length ?resp = ss_key_len (so_method sample_cfg)" by (simp_all add: sample_facts)
  obtain c t' where hs: "ss_handshake plain_crypto 1000 ?salt sample_cfg sample_target [9] sample_socket = (Inr c, t')" "length (tr_script t') \<le> 2"
    using handshake_succeeds [OF plain_crypto_lawful(1) sample_facts(7), of "[9]" sample_socket] sample_facts(3,6) by fastforce
  have fuel: "length (tr_script t') + length (concat [[1, 2 :: u8]]) < 100" using hs(2) by simp
  obtain c' where dw: "drive_writes (ss_poll_write plain_crypto) 100 c [[1, 2]] = Some (Inr (), c')" "\<exists>out. tr_out (ui_inner c') = tr_out (ui_inner c) @ out"
    using client_session [OF plain_crypto_lawful(1) hs(1) sample_facts(3), of "[[1, 2]]" 100] fuel by auto
  let ?u = "sample_socket\<lparr>tr_in := trickle (tr_out (ui_inner c'))\<rparr>"
  obtain rest where rest: "tr_out (ui_inner c') = tr_out (ui_inner c) @ rest" using dw(2) by blast
  have u: "steady (tr_in ?u)" "arrived (tr_in ?u) = tr_out (ui_inner c) @ rest" "arrived (tr_in ?u) = tr_out (ui_inner c')"
    "flows (tr_script ?u)" "tr_out ?u = []" using rest by (simp_all add: trickle_arrives sample_facts)
  obtain s pool' where acc: "ss_accept plain_crypto 1010 0 ?resp sample_srv [] ?u = (Inr (sample_target, s), pool')"
    using accept_in_step [OF plain_crypto_lawful(1) sample_facts(1) key sample_facts(2) hs(1) sample_facts(3,4,8,9) u(1,2)] by blast
  have "\<exists>s'. drive_writes (ssv_poll_write plain_crypto 1020) 100 s [[5], [6, 7]] = Some (Inr (), s') \<and>
    (\<forall>es room more. steady es \<longrightarrow> arrived es = tr_out (ui_inner s') \<longrightarrow> 0 < room \<longrightarrow> backlog es + length (concat [[5], [6, 7 :: u8]]) < more \<longrightarrow>
      drive_read (ss_poll_read plain_crypto 1050 room) more (c'\<lparr>ui_inner := (ui_inner c')\<lparr>tr_in := es\<rparr>\<rparr>) = Some (concat [[5], [6, 7]], None))"
    by (rule ss_response_delivered [OF plain_crypto_lawful(1) sample_facts(1) key sample_facts(2) _ sample_facts(3,4,8,9) hs(1) dw(1) fuel u(1,3,4,5) acc])
      (simp_all add: abs_diff_def sample_facts)
  then obtain s' where "drive_writes (ssv_poll_write plain_crypto 1020) 100 s [[5], [6, 7]] = Some (Inr (), s')"
    "\<And>es room more. steady es \<Longrightarrow> arrived es = tr_out (ui_inner s') \<Longrightarrow> 0 < room \<Longrightarrow> backlog es + length (concat [[5], [6, 7 :: u8]]) < more \<Longrightarrow>
      drive_read (ss_poll_read plain_crypto 1050 room) more (c'\<lparr>ui_inner := (ui_inner c')\<lparr>tr_in := es\<rparr>\<rparr>) = Some (concat [[5], [6, 7]], None)"
    by blast
  moreover have "drive_read (ss_poll_read plain_crypto 1050 2) (Suc (backlog (trickle (tr_out (ui_inner s'))) + length (concat [[5], [6, 7 :: u8]])))
      (c'\<lparr>ui_inner := (ui_inner c')\<lparr>tr_in := trickle (tr_out (ui_inner s'))\<rparr>\<rparr>) = Some (concat [[5], [6, 7]], None)"
    by (rule calculation(2)) (simp_all add: trickle_arrives)
  ultimately show ?thesis by blast
qed

section \<open>A write polled again with more\<close>

text \<open>
  C38: a write of the client that waits and is polled again with a longer buffer loses the rest. The first poll
  seals the buffer and finds the socket full; the second, over the same bytes and more, reports all of them written, but
  what went out decodes to the first buffer only.
\<close>

theorem ss_write_loses_grown_buffer:
  assumes "aead_lawful cr" and "aead_keyed (ss_enc c)" and "ui_wbuf c = []" and "tr_script (ui_inner c) = [WritePending]"
    and "buf \<noteq> []" and "length buf \<le> 65535" and "tr_out (ui_inner c) = []"
  shows "\<exists>c1 c2. ss_poll_write cr c buf = (Pending, c1) \<and>
    ss_poll_write cr c1 (buf @ extra) = (Ready (Inr (length (buf @ extra))), c2) \<and>
    (\<forall>s. in_step c s \<longrightarrow> ui_rbuf s = tr_out (ui_inner c2) \<longrightarrow> drains ssv_need (ssv_advance cr) s buf None)"
proof -
  from client_write [OF assms(1-3,6)] obtain out c' where w: "sealed (ss_seal cr) (\<lambda>_ buf. length buf) c buf out c'"
    "\<And>s rest. in_step c s \<Longrightarrow> ui_rbuf s = out @ rest \<Longrightarrow> \<exists>s'. in_step c' s' \<and> ui_rbuf s' = rest \<and> delivers ssv_need (ssv_advance cr) s buf s'"
    by blast
  from w(1) assms(5) obtain c0 where c0: "ss_seal cr c buf = (Inr (), c0)" "ui_wbuf c0 = out" "out \<noteq> []"
    by (cases rule: sealed.cases) (auto elim: sealed.cases)
  have inner: "ui_inner c0 = ui_inner c" using c0(1) by (auto simp: ss_seal_def split: prod.splits sum.splits)
  let ?c1 = "c0\<lparr>ui_inner := (ui_inner c)\<lparr>tr_script := []\<rparr>\<rparr>"
  let ?c2 = "?c1\<lparr>ui_inner := (ui_inner ?c1)\<lparr>tr_out := out\<rparr>, ui_wbuf := []\<rparr>"
  have "wbuf_loop zero_bytes (ui_inner c) out = (Pending, (ui_inner c)\<lparr>tr_script := []\<rparr>, out)"
    using assms(4) c0(3) by (subst wbuf_loop.simps) (simp add: poll_write_def)
  then have first: "ss_poll_write cr c buf = (Pending, ?c1)" using assms(3,5) c0 inner by (simp add: ss_poll_write_def)
  have "wbuf_loop zero_bytes (ui_inner ?c1) out = (Ready (Inr ()), (ui_inner ?c1)\<lparr>tr_out := out\<rparr>, [])"
    using assms(7) c0(3) by (subst wbuf_loop.simps) (simp add: poll_write_def wbuf_loop.simps [of zero_bytes _ "[]"])
  then have "ss_poll_write cr ?c1 (buf @ extra) = (Ready (Inr (length (buf @ extra))), ?c2)"
    using assms(5) c0 by (simp add: ss_poll_write_def)
  moreover have "drains ssv_need (ssv_advance cr) s buf None" if "in_step c s" "ui_rbuf s = tr_out (ui_inner ?c2)" for s
    using w(2) [OF that(1), of "[]"] that(2) delivers_end ssv_need_pos by fastforce
  ultimately show ?thesis using first by blast
qed

definition sample_client :: ss_stream where
  "sample_client = \<lparr>ui_inner = \<lparr>tr_out = [], tr_script = [WritePending], tr_in = []\<rparr>, ui_rbuf = [], ui_plain = [], ui_wbuf = [],
    ss_method = SsAes128Gcm, ss_derived_key = replicate 16 7, ss_sent_salt = replicate 16 1, ss_enc = CipherAes128 (replicate 16 7),
    ss_enc_nonce = 2, ss_dec = None, ss_dec_nonce = 0, ss_state = SrSalt\<rparr>"

definition sample_reader :: ss_server_stream where
  "sample_reader = \<lparr>ui_inner = sample_socket, ui_rbuf = [], ui_plain = [], ui_wbuf = [], ssv_is_2022 = False,
    ssv_client_salt = replicate 16 1, ssv_pending_salt = None, ssv_enc = CipherAes128 [], ssv_enc_nonce = 0,
    ssv_dec = CipherAes128 (replicate 16 7), ssv_dec_nonce = 2, ssv_pending_plain = 0, ssv_state = SvLen\<rparr>"

theorem ss_write_loses_grown_buffer_witness:
  "\<exists>c1 c2. ss_poll_write plain_crypto sample_client [1, 2] = (Pending, c1) \<and>
    ss_poll_write plain_crypto c1 ([1, 2] @ [3]) = (Ready (Inr (length [1, 2, 3 :: u8])), c2) \<and>
    drains ssv_need (ssv_advance plain_crypto) (sample_reader\<lparr>ui_rbuf := tr_out (ui_inner c2)\<rparr>) [1, 2] None"
proof -
  have "\<exists>c1 c2. ss_poll_write plain_crypto sample_client [1, 2] = (Pending, c1) \<and>
    ss_poll_write plain_crypto c1 ([1, 2] @ [3]) = (Ready (Inr (length ([1, 2] @ [3 :: u8]))), c2) \<and>
    (\<forall>s. in_step sample_client s \<longrightarrow> ui_rbuf s = tr_out (ui_inner c2) \<longrightarrow> drains ssv_need (ssv_advance plain_crypto) s [1, 2] None)"
    by (rule ss_write_loses_grown_buffer) (simp_all add: plain_crypto_lawful sample_client_def)
  moreover have "in_step sample_client (sample_reader\<lparr>ui_rbuf := b\<rparr>)" for b
    by (simp add: in_step_def sample_client_def sample_reader_def)
  ultimately show ?thesis by force
qed

section \<open>A session replayed\<close>

text \<open>
  C39: the salt pool does not cover the accepted clock drift. In the 2022 edition a captured session whose timestamp lies
  60 seconds ahead of the server's clock is accepted, and accepted again 60 seconds later, from the same bytes: the pool
  has forgotten the salt just when the timestamp is still within the window.
\<close>

theorem ss_session_replayed:
  assumes "aead_lawful cr" and "same_account cr cfg srv" and "is_2022 (so_method cfg)"
    and "length salt = ss_key_len (so_method cfg)" and "length resp_salt = ss_key_len (so_method cfg)" and "wire_addr target"
    and "ss_handshake cr now salt cfg target initial t = (Inr c, t')" and "flows (tr_script t)" and "tr_out t = []"
    and "60 \<le> now" and "steady (tr_in u)" and "arrived (tr_in u) = tr_out (ui_inner c) @ rest"
  shows "\<exists>s pool s' pool'. ss_accept cr (now - 60) instant resp_salt srv [] u = (Inr (target, s), pool) \<and>
    ss_accept cr now (instant + 60 * 10 ^ 9) resp_salt srv pool u = (Inr (target, s'), pool')"
proof -
  have drift: "abs_diff (now - 60) now \<le> 60" "abs_diff now now \<le> 60" using assms(10) word_sub_le [of 60 now] by (auto simp: abs_diff_def)
  have claim: "claim_salt instant salt [] = (True, [(salt, instant)])" by (simp add: claim_salt_def)
  have again: "claim_salt (instant + 60 * 10 ^ 9) salt [(salt, instant)] = (True, [(salt, instant + 60 * 10 ^ 9)])"
    by (simp add: claim_salt_def TS_WINDOW_def)
  from accept_in_step [OF assms(1,2,4-9) drift(1) _ assms(11,12), of instant "[]"] claim assms(3) obtain s where
    "ss_accept cr (now - 60) instant resp_salt srv [] u = (Inr (target, s), [(salt, instant)])" by auto
  moreover from accept_in_step [OF assms(1,2,4-9) drift(2) _ assms(11,12), of "instant + 60 * 10 ^ 9" "[(salt, instant)]"] again obtain s' pool' where
    "ss_accept cr now (instant + 60 * 10 ^ 9) resp_salt srv [(salt, instant)] u = (Inr (target, s'), pool')" by auto
  ultimately show ?thesis by blast
qed

theorem ss_session_replayed_witness:
  "\<exists>c s pool s' pool'.
    ss_accept plain_crypto (1000 - 60) 5 (replicate 16 2) sample_srv [] (sample_socket\<lparr>tr_in := trickle (tr_out (ui_inner (c :: ss_stream)))\<rparr>) =
      (Inr (sample_target, s), pool) \<and>
    ss_accept plain_crypto 1000 (5 + 60 * 10 ^ 9) (replicate 16 2) sample_srv pool (sample_socket\<lparr>tr_in := trickle (tr_out (ui_inner c))\<rparr>) =
      (Inr (sample_target, s'), pool')"
proof -
  let ?salt = "replicate 16 1 :: bytes"
  obtain c t' where hs: "ss_handshake plain_crypto 1000 ?salt sample_cfg sample_target [9] sample_socket = (Inr c, t')"
    using handshake_succeeds [OF plain_crypto_lawful(1) sample_facts(7), of "[9]" sample_socket] sample_facts(3) by fastforce
  have "\<exists>s pool s' pool'.
    ss_accept plain_crypto (1000 - 60) 5 (replicate 16 2) sample_srv [] (sample_socket\<lparr>tr_in := trickle (tr_out (ui_inner c))\<rparr>) =
      (Inr (sample_target, s), pool) \<and>
    ss_accept plain_crypto 1000 (5 + 60 * 10 ^ 9) (replicate 16 2) sample_srv pool (sample_socket\<lparr>tr_in := trickle (tr_out (ui_inner c))\<rparr>) =
      (Inr (sample_target, s'), pool')"
    by (rule ss_session_replayed [OF plain_crypto_lawful(1) sample_facts(1) _ _ _ sample_facts(2) hs sample_facts(3,4), where rest = "[]"])
      (simp_all add: sample_facts trickle_arrives, simp add: sample_cfg_def is_2022_def)
  then show ?thesis by blast
qed

section \<open>Users\<close>

text \<open>The identity table: every user's token leads to a user with that token.\<close>

definition users_ok :: "'a crypto_scheme \<Rightarrow> ss_method \<Rightarrow> users \<Rightarrow> bool" where
  "users_ok cr m us \<longleftrightarrow>
    (\<forall>token i. hm_get (us_by_eih us) token = Some i \<longrightarrow> i < length (us_list us) \<and> identity_token cr (usr_key (us_list us ! i)) = token) \<and>
    (\<forall>usr \<in> set (us_list us). length (usr_key usr) = ss_key_len m \<and> hm_get (us_by_eih us) (identity_token cr (usr_key usr)) \<noteq> None)"

definition keys_of :: "'a crypto_scheme \<Rightarrow> ss_method \<Rightarrow> (string \<times> string) list \<Rightarrow> bytes set" where
  "keys_of cr m entries = {key. \<exists>name password. (name, password) \<in> set entries \<and> derive_key cr m password = Inr key}"

lemma users_add_ok:
  "users_add cr m entries us = Inr us' \<Longrightarrow> users_ok cr m us \<Longrightarrow>
   users_ok cr m us' \<and> usr_key ` set (us_list us') = usr_key ` set (us_list us) \<union> keys_of cr m entries"
proof (induction entries arbitrary: us)
  case Nil
  then show ?case by (simp add: keys_of_def)
next
  case (Cons e entries)
  obtain name password where e: "e = (name, password)" by fastforce
  from Cons.prems(1) obtain key block where k: "derive_key cr m password = Inr key" "users_add cr m entries
      \<lparr>us_list = us_list us @ [\<lparr>usr_name = name, usr_key = key, usr_block = block\<rparr>],
       us_by_eih = hm_insert (identity_token cr key) (length (us_list us)) (us_by_eih us)\<rparr> = Inr us'"
    by (auto simp: e rbind_Inr_iff split: sum.splits)
  let ?us = "\<lparr>us_list = us_list us @ [\<lparr>usr_name = name, usr_key = key, usr_block = block\<rparr>],
       us_by_eih = hm_insert (identity_token cr key) (length (us_list us)) (us_by_eih us)\<rparr>"
  have "users_ok cr m ?us" using Cons.prems(2) derive_key_length [OF k(1)]
    by (auto simp: users_ok_def nth_append less_Suc_eq split: if_splits)
  moreover have "keys_of cr m (e # entries) = insert key (keys_of cr m entries)" using k(1) by (auto simp: keys_of_def e)
  ultimately show ?case using Cons.IH [OF k(2)] by auto
qed

lemma users_new_ok:
  assumes "users_new cr m entries = Inr us"
  shows "users_ok cr m us \<and> usr_key ` set (us_list us) = keys_of cr m entries"
proof -
  have "users_ok cr m \<lparr>us_list = [], us_by_eih = hm_empty\<rparr>" by (simp add: users_ok_def)
  from users_add_ok [OF assms [unfolded users_new_def] this] show ?thesis by simp
qed

lemma users_find_token:
  assumes "users_ok cr m us"
  shows "(case users_find us token of
      Some usr \<Rightarrow> usr_key usr \<in> usr_key ` set (us_list us) \<and> identity_token cr (usr_key usr) = token
    | None \<Rightarrow> token \<notin> identity_token cr ` usr_key ` set (us_list us))"
  using assms by (auto simp: users_ok_def users_find_def split: option.split)

text \<open>
  C23: on a multi-user listener the identity header names the user. When a client has encrypted the token of a
  configured user's key under the identity subkey, the session is served under a configured key with that token, and the rest of
  the stream is untouched; a token of no configured user ends the connection.
\<close>

theorem ss_user_identified:
  assumes "aes_lawful cr" and "ss_server_new_multi cr method password entries = Inr srv" and "length salt = ss_key_len (sv_method srv)"
    and "length token = 16" and "steady (tr_in t)"
    and "arrived (tr_in t) = cr_aes_encrypt cr (identity_subkey cr (sv_key srv) salt (length salt)) token @ rest"
  shows "\<exists>es. arrived es = rest \<and>
    (if token \<in> identity_token cr ` keys_of cr (sv_method srv) entries
     then \<exists>key \<in> keys_of cr (sv_method srv) entries. identity_token cr key = token \<and> session_key cr srv salt t = (Inr key, t\<lparr>tr_in := es\<rparr>)
     else session_key cr srv salt t = (Inl (Protocol ''ss2022 eih: identity token matches no user''), t\<lparr>tr_in := es\<rparr>))"
proof -
  from assms(2) obtain us where us: "sv_users srv = Some us" "users_new cr (sv_method srv) entries = Inr us" "is_2022 (sv_method srv)"
    by (auto simp: ss_server_new_multi_def rbind_Inr_iff split: if_splits)
  let ?sub = "identity_subkey cr (sv_key srv) salt (length salt)"
  have "ss_key_len (sv_method srv) \<le> 32" using ss_key_len_cases [of "sv_method srv"] by auto
  then have sub: "length ?sub = ss_key_len (sv_method srv)" using assms(3) by (simp add: identity_subkey_def)
  obtain block where block: "block_new (ss_kind (sv_method srv)) ?sub = Inr block" "block_key block = ?sub"
    using us(3) sub by (auto simp: is_2022_def block_new_def ss_kind_def ss_key_len_def key_len_def)
  have aes: "length (cr_aes_encrypt cr ?sub token) = 16" "cr_aes_decrypt cr ?sub (cr_aes_encrypt cr ?sub token) = token"
    using assms(1,4) sub ss_key_len_cases [of "sv_method srv"] unfolding aes_lawful_def by auto
  let ?f = "\<lambda>eih_ct. t_bind (t_lift (open_eih_tcp cr (ss_kind (sv_method srv)) (sv_key srv) salt eih_ct)) (\<lambda>token.
    t_lift (map_sum id usr_key (ok_or (users_find us token) (Protocol ''ss2022 eih: identity token matches no user''))))"
  from t_read_prefix [OF assms(5,6) aes(1), of ?f] us(1) obtain es where es: "arrived es = rest"
    "session_key cr srv salt t = ?f (cr_aes_encrypt cr ?sub token) (t\<lparr>tr_in := es\<rparr>)" by (auto simp: session_key_def)
  have "open_eih_tcp cr (ss_kind (sv_method srv)) (sv_key srv) salt (cr_aes_encrypt cr ?sub token) = Inr token"
    using block aes(2) by (simp add: open_eih_tcp_def rbind_def block_decrypt_def)
  then have key: "session_key cr srv salt t =
      (map_sum id usr_key (ok_or (users_find us token) (Protocol ''ss2022 eih: identity token matches no user'')), t\<lparr>tr_in := es\<rparr>)"
    using es(2) by simp
  from users_new_ok [OF us(2)] have ok: "users_ok cr (sv_method srv) us" "usr_key ` set (us_list us) = keys_of cr (sv_method srv) entries" by auto
  note found = users_find_token [OF ok(1), of token, unfolded ok(2)]
  show ?thesis
  proof (cases "users_find us token")
    case None
    then show ?thesis using found key es(1) by (intro exI [of _ es]) (auto simp: ok_or_def)
  next
    case (Some usr)
    then show ?thesis using found key es(1) by (intro exI [of _ es]) (auto simp: ok_or_def)
  qed
qed

theorem ss_user_identified_witness:
  "\<exists>srv key es. ss_server_new_multi plain_crypto ''2022-blake3-aes-128-gcm'' ''psk'' [(''alice'', ''upsk'')] = Inr srv \<and>
    arrived es = [9, 9] \<and> identity_token plain_crypto key = identity_token plain_crypto (replicate 16 7) \<and>
    session_key plain_crypto srv (replicate 16 1) (sample_socket\<lparr>tr_in := trickle
        (cr_aes_encrypt plain_crypto (identity_subkey plain_crypto (sv_key srv) (replicate 16 1) 16) (identity_token plain_crypto (replicate 16 7)) @ [9, 9])\<rparr>) =
      (Inr key, sample_socket\<lparr>tr_in := es\<rparr>)"
proof -
  let ?token = "identity_token plain_crypto (replicate 16 7)"
  obtain srv where srv: "ss_server_new_multi plain_crypto ''2022-blake3-aes-128-gcm'' ''psk'' [(''alice'', ''upsk'')] = Inr srv"
    "sv_method srv = SsBlake3Aes128Gcm"
    by (auto simp: ss_server_new_multi_def ss_method_parse_def rbind_def derive_key_def is_2022_def ok_or_def plain_crypto_def users_new_def
      ss_key_len_def ss_kind_def key_len_def block_new_def)
  have key: "replicate 16 7 \<in> keys_of plain_crypto (sv_method srv) [(''alice'', ''upsk'')]"
    by (simp add: keys_of_def srv(2) derive_key_def is_2022_def plain_crypto_def ok_or_def rbind_def ss_key_len_def ss_kind_def key_len_def)
  let ?t = "sample_socket\<lparr>tr_in := trickle
      (cr_aes_encrypt plain_crypto (identity_subkey plain_crypto (sv_key srv) (replicate 16 1) (length (replicate 16 (1 :: u8)))) ?token @ [9, 9])\<rparr>"
  have "\<exists>es. arrived es = [9, 9] \<and>
    (if ?token \<in> identity_token plain_crypto ` keys_of plain_crypto (sv_method srv) [(''alice'', ''upsk'')]
     then \<exists>key \<in> keys_of plain_crypto (sv_method srv) [(''alice'', ''upsk'')].
       identity_token plain_crypto key = ?token \<and> session_key plain_crypto srv (replicate 16 1) ?t = (Inr key, ?t\<lparr>tr_in := es\<rparr>)
     else session_key plain_crypto srv (replicate 16 1) ?t =
       (Inl (Protocol ''ss2022 eih: identity token matches no user''), ?t\<lparr>tr_in := es\<rparr>))"
    by (rule ss_user_identified [OF plain_crypto_lawful(2) srv(1)])
      (simp_all add: srv(2) ss_key_len_def ss_kind_def key_len_def identity_token_def trickle_arrives)
  then show ?thesis using srv(1) key by auto
qed

end
