(* ===== verification/Ss_Udp.thy ===== *)
theory Ss_Udp
  imports Ss_Server
begin

text \<open>
  Shadowsocks over UDP: the relay session of the client (src/engine/src/proto/shadowsocks.rs, \<open>SsUdp\<close>) and the
  server's socket (src/engine/src/inbound/proxy_server/ss.rs, \<open>SsUdpServer\<close>) with its sliding replay window,
  the per-source sessions and the multi-user form. Datagrams are byte strings; clock and random numbers are arguments.
\<close>

section \<open>The client\<close>

record ss_udp =
  su_method :: ss_method
  su_key :: bytes
  su_session_id :: u64
  su_packet_id :: u64
  su_aes :: "bytes option"

definition ss_udp_new :: "'a crypto_scheme \<Rightarrow> u64 \<Rightarrow> ss_out \<Rightarrow> ss_udp result" where
  "ss_udp_new cr session cfg =
    rbind (derive_key cr (so_method cfg) (so_password cfg)) (\<lambda>key.
    Inr \<lparr>su_method = so_method cfg, su_key = key, su_session_id = session, su_packet_id = 0,
         su_aes = (if is_2022 (so_method cfg) then Some key else None)\<rparr>)"

text \<open>The 16 bytes in front of a 2022 datagram, on the wire and in the clear.\<close>

definition separate_header :: "'a crypto_scheme \<Rightarrow> ss_udp \<Rightarrow> (bytes \<times> bytes) \<times> ss_udp" where
  "separate_header cr s =
    (let s = s\<lparr>su_packet_id := su_packet_id s + 1\<rparr>;
         plain = be_bytes 8 (su_session_id s) @ be_bytes 8 (su_packet_id s) in
     ((case su_aes s of Some key \<Rightarrow> cr_aes_encrypt cr key plain | None \<Rightarrow> plain, plain), s))"

text \<open>\<open>send\<close>: the datagram handed to the socket. \<open>salt\<close> is the fresh salt of a legacy datagram.\<close>

definition ss_udp_send :: "'a crypto_scheme \<Rightarrow> u64 \<Rightarrow> bytes \<Rightarrow> ss_udp \<Rightarrow> net_addr \<Rightarrow> bytes \<Rightarrow> bytes result \<times> ss_udp" where
  "ss_udp_send cr now salt s target data =
    (let addr = encode_socks_addr [] (na_host target) (na_port target) in
     if is_2022 (su_method s) then
       (case separate_header cr s of
          ((wire, plain), s) \<Rightarrow>
            (rbind (aead_new (ss_kind (su_method s)) (ss2022_subkey cr (su_key s) (take 8 plain) (ss_key_len (su_method s)))) (\<lambda>aead.
             aead_seal cr aead (take 12 (drop 4 plain)) [] ([0] @ be_bytes 8 now @ u16_be 0 @ addr @ data) wire), s))
     else
       (rbind (aead_new (ss_kind (su_method s)) (ss_subkey_legacy cr (su_key s) salt)) (\<lambda>aead.
        aead_seal cr aead (replicate 12 0) [] (addr @ data) salt), s))"

definition parse_udp_frame :: "bytes \<Rightarrow> (net_addr \<times> bytes) option" where
  "parse_udp_frame data =
    (case decode_socks_addr data of Inl e \<Rightarrow> None | Inr (addr, used) \<Rightarrow> Some (addr, drop used data))"

text \<open>What one datagram does to the receiver: it may be skipped, deliver something, or panic it.\<close>

datatype 'a attempt = Skipped | Got 'a | Panicked

definition attempt :: "'a option \<Rightarrow> 'a attempt" where
  "attempt x = (case x of None \<Rightarrow> Skipped | Some a \<Rightarrow> Got a)"

text \<open>The slice \<open>body[19 + pad_len..]\<close> panics when the padding runs past the body.\<close>

definition parse_ss2022_udp_server_frame :: "bytes \<Rightarrow> (net_addr \<times> bytes) attempt" where
  "parse_ss2022_udp_server_frame body =
    (if length body < 19 \<or> body ! 0 \<noteq> 1 then Skipped
     else let pad_len = unat (u16_from (body ! 17) (body ! 18)) in
       if length body < 19 + pad_len then Panicked
       else attempt (parse_udp_frame (drop (19 + pad_len) body)))"

definition ss_udp_datagram :: "'a crypto_scheme \<Rightarrow> ss_udp \<Rightarrow> bytes \<Rightarrow> (net_addr \<times> bytes) attempt" where
  "ss_udp_datagram cr s data =
    (if is_2022 (su_method s) then
       if length data < 16 + TAG then Skipped
       else
         let plain = (case su_aes s of Some key \<Rightarrow> cr_aes_decrypt cr key (take 16 data) | None \<Rightarrow> take 16 data) in
         (case aead_new (ss_kind (su_method s)) (ss2022_subkey cr (su_key s) (take 8 plain) (ss_key_len (su_method s))) of
            Inl e \<Rightarrow> Skipped
          | Inr aead \<Rightarrow>
              (case aead_open cr aead (take 12 (drop 4 plain)) [] (drop 16 data) of
                 Inl e \<Rightarrow> Skipped
               | Inr body \<Rightarrow> parse_ss2022_udp_server_frame body))
     else
       let n = ss_key_len (su_method s) in
       if length data < n + TAG then Skipped
       else
         (case aead_new (ss_kind (su_method s)) (ss_subkey_legacy cr (su_key s) (take n data)) of
            Inl e \<Rightarrow> Skipped
          | Inr aead \<Rightarrow>
              (case aead_open cr aead (replicate 12 0) [] (drop n data) of
                 Inl e \<Rightarrow> Skipped
               | Inr payload \<Rightarrow> attempt (parse_udp_frame payload))))"

text \<open>\<open>recv\<close>: datagrams are skipped until one delivers something; \<open>None\<close> while none has.\<close>

fun ss_udp_recv :: "'a crypto_scheme \<Rightarrow> ss_udp \<Rightarrow> bytes list \<Rightarrow> ((net_addr \<times> bytes) option \<times> bytes list) option" where
  "ss_udp_recv cr s [] = Some (None, [])"
| "ss_udp_recv cr s (d # ds) =
    (case ss_udp_datagram cr s (take 65536 d) of
       Panicked \<Rightarrow> None
     | Got r \<Rightarrow> Some (Some r, ds)
     | Skipped \<Rightarrow> ss_udp_recv cr s ds)"

section \<open>The replay window\<close>

definition UDP_TS_WINDOW :: u64 where "UDP_TS_WINDOW = 30"
definition UDP_REPLAY_WINDOW :: u64 where "UDP_REPLAY_WINDOW = 1024"

definition saturating_sub :: "u64 \<Rightarrow> u64 \<Rightarrow> u64" where
  "saturating_sub a b = (if a < b then 0 else a - b)"

record replay_window =
  rw_started :: bool
  rw_highest :: u64
  rw_seen :: "u64 set"

definition rw_new :: replay_window where
  "rw_new = \<lparr>rw_started = False, rw_highest = 0, rw_seen = {}\<rparr>"

definition rw_floor :: "u64 \<Rightarrow> u64" where
  "rw_floor highest = saturating_sub highest UDP_REPLAY_WINDOW"

definition rw_accept :: "replay_window \<Rightarrow> u64 \<Rightarrow> bool \<times> replay_window" where
  "rw_accept w packet =
    (if \<not> rw_started w then (True, w\<lparr>rw_started := True, rw_highest := packet, rw_seen := insert packet (rw_seen w)\<rparr>)
     else if packet < rw_floor (rw_highest w) then (False, w)
     else if packet \<in> rw_seen w then (False, w)
     else
       let w = w\<lparr>rw_seen := insert packet (rw_seen w)\<rparr>;
           w = (if packet > rw_highest w then w\<lparr>rw_highest := packet\<rparr> else w);
           floor = rw_floor (rw_highest w) in
       (True, w\<lparr>rw_seen := {p \<in> rw_seen w. floor \<le> p}\<rparr>))"

section \<open>The server\<close>

datatype u2022_scheme = Spec | EngineClient

fun other_scheme :: "u2022_scheme \<Rightarrow> u2022_scheme" where
  "other_scheme Spec = EngineClient"
| "other_scheme EngineClient = Spec"

record udp_crypto =
  uc_scheme :: "u2022_scheme option"
  uc_user :: "nat option"
  uc_client_session_id :: u64
  uc_server_session_id :: u64
  uc_server_packet_id :: u64
  uc_replay :: replay_window

text \<open>\<open>fresh\<close> is what \<open>fresh_u64\<close> returned.\<close>

definition udp_crypto_new :: "u64 \<Rightarrow> udp_crypto" where
  "udp_crypto_new fresh = \<lparr>uc_scheme = None, uc_user = None, uc_client_session_id = 0, uc_server_session_id = fresh,
     uc_server_packet_id = 0, uc_replay = rw_new\<rparr>"

record udp_conf =
  cf_method :: ss_method
  cf_key :: bytes
  cf_users :: "users option"
  cf_block :: "block_cipher option"

definition udp_conf_new :: "ss_server \<Rightarrow> udp_conf result" where
  "udp_conf_new srv =
    rbind (if is_2022 (sv_method srv) then map_sum id Some (block_new (ss_kind (sv_method srv)) (sv_key srv)) else Inr None) (\<lambda>block.
    Inr \<lparr>cf_method = sv_method srv, cf_key = sv_key srv, cf_users = sv_users srv, cf_block = block\<rparr>)"

definition split_socks_payload :: "bytes \<Rightarrow> (net_addr \<times> bytes) result" where
  "split_socks_payload data = rbind (decode_socks_addr data) (\<lambda>(target, used). Inr (target, drop used data))"

definition parse_2022_body :: "u64 \<Rightarrow> bytes \<Rightarrow> (net_addr \<times> bytes) result" where
  "parse_2022_body now body =
    (if length body < 11 \<or> body ! 0 \<noteq> 0 then Inl (Protocol ''ss2022 udp: not a client packet'')
     else if abs_diff now (be_word (take 8 (drop 1 body))) > UDP_TS_WINDOW
       then Inl (Protocol ''ss2022 udp: timestamp drift exceeds replay window'')
     else let pad_len = unat (u16_from (body ! 9) (body ! 10)) in
       if length body < 11 + pad_len then Inl (Protocol ''ss2022 udp: padding overruns packet'')
       else split_socks_payload (drop (11 + pad_len) body))"

definition open_legacy :: "'a crypto_scheme \<Rightarrow> udp_conf \<Rightarrow> bytes \<Rightarrow> (net_addr \<times> bytes) result" where
  "open_legacy cr cf datagram =
    (let n = ss_key_len (cf_method cf) in
     if length datagram < n + TAG then Inl (Protocol ''shadowsocks udp: runt packet'')
     else
       rbind (aead_new (ss_kind (cf_method cf)) (ss_subkey_legacy cr (cf_key cf) (take n datagram))) (\<lambda>aead.
       case aead_open cr aead (replicate 12 0) [] (drop n datagram) of
         Inl e \<Rightarrow> Inl (Protocol ''shadowsocks udp: packet does not authenticate'')
       | Inr plain \<Rightarrow> split_socks_payload plain))"

definition seal_legacy :: "'a crypto_scheme \<Rightarrow> bytes \<Rightarrow> udp_conf \<Rightarrow> net_addr \<Rightarrow> bytes \<Rightarrow> bytes result" where
  "seal_legacy cr salt cf target payload =
    rbind (aead_new (ss_kind (cf_method cf)) (ss_subkey_legacy cr (cf_key cf) salt)) (\<lambda>aead.
    aead_seal cr aead (replicate 12 0) [] (encode_socks_addr [] (na_host target) (na_port target) @ payload) salt)"

definition scheme_source :: "u2022_scheme \<Rightarrow> bytes \<Rightarrow> bytes \<Rightarrow> bytes" where
  "scheme_source scheme sep sep_ct = (case scheme of Spec \<Rightarrow> sep | EngineClient \<Rightarrow> sep_ct)"

definition aead_2022 :: "'a crypto_scheme \<Rightarrow> udp_conf \<Rightarrow> u2022_scheme \<Rightarrow> bytes \<Rightarrow> bytes \<Rightarrow> aead result" where
  "aead_2022 cr cf scheme sep sep_ct =
    aead_new (ss_kind (cf_method cf)) (ss2022_subkey cr (cf_key cf) (take 8 (scheme_source scheme sep sep_ct)) (ss_key_len (cf_method cf)))"

definition nonce_2022 :: "u2022_scheme \<Rightarrow> bytes \<Rightarrow> bytes \<Rightarrow> bytes" where
  "nonce_2022 scheme sep sep_ct = take 12 (drop 4 (scheme_source scheme sep sep_ct))"

text \<open>What follows the opening of an authentic body: the ids are recorded, then the replay window decides.\<close>

definition admit_2022 :: "u64 \<Rightarrow> u64 \<Rightarrow> u2022_scheme \<Rightarrow> u64 \<Rightarrow> u64 \<Rightarrow> bytes \<Rightarrow> udp_crypto \<Rightarrow> (net_addr \<times> bytes) result \<times> udp_crypto" where
  "admit_2022 now fresh scheme session packet plain uc =
    (let uc = uc\<lparr>uc_scheme := Some scheme, uc_client_session_id := session\<rparr>;
         uc = (if uc_server_session_id uc = session then uc\<lparr>uc_server_session_id := fresh\<rparr> else uc);
         (ok, window) = rw_accept (uc_replay uc) packet;
         uc = uc\<lparr>uc_replay := window\<rparr> in
     (if \<not> ok then Inl (Protocol ''ss2022 udp replay: duplicate or stale (session, packet) id'') else parse_2022_body now plain, uc))"

fun try_schemes :: "'a crypto_scheme \<Rightarrow> u64 \<Rightarrow> u64 \<Rightarrow> udp_conf \<Rightarrow> bytes \<Rightarrow> bytes \<Rightarrow> bytes \<Rightarrow> udp_crypto \<Rightarrow> u2022_scheme list \<Rightarrow>
    (net_addr \<times> bytes) result \<times> udp_crypto" where
  "try_schemes cr now fresh cf sep sep_ct body uc [] =
    (Inl (Protocol ''ss2022 udp: packet does not authenticate (wrong key, replayed or corrupt)''), uc)"
| "try_schemes cr now fresh cf sep sep_ct body uc (scheme # schemes) =
    (case aead_2022 cr cf scheme sep sep_ct of
       Inl e \<Rightarrow> (Inl e, uc)
     | Inr aead \<Rightarrow>
         (case aead_open cr aead (nonce_2022 scheme sep sep_ct) [] body of
            Inl e \<Rightarrow> try_schemes cr now fresh cf sep sep_ct body uc schemes
          | Inr plain \<Rightarrow> admit_2022 now fresh scheme (be_word (take 8 sep)) (be_word (drop 8 sep)) plain uc))"

text \<open>The single-user path of \<open>open_2022\<close>.\<close>

definition open_2022_single :: "'a crypto_scheme \<Rightarrow> u64 \<Rightarrow> u64 \<Rightarrow> udp_conf \<Rightarrow> udp_crypto \<Rightarrow> bytes \<Rightarrow> (net_addr \<times> bytes) result \<times> udp_crypto" where
  "open_2022_single cr now fresh cf uc datagram =
    (if length datagram < 16 + TAG then (Inl (Protocol ''ss2022 udp: packet shorter than a separate header plus tag''), uc)
     else case cf_block cf of
       None \<Rightarrow> (Inl (Crypto ''ss2022 udp: missing block cipher''), uc)
     | Some block \<Rightarrow>
         try_schemes cr now fresh cf (block_decrypt cr block (take 16 datagram)) (take 16 datagram) (drop 16 datagram) uc
           (case uc_scheme uc of Some scheme \<Rightarrow> [scheme, other_scheme scheme] | None \<Rightarrow> [Spec, EngineClient]))"

text \<open>The multi-user path. \<open>fresh\<close> and \<open>fresh'\<close> are the two random ids it may draw.\<close>

definition open_2022_multi :: "'a crypto_scheme \<Rightarrow> u64 \<Rightarrow> u64 \<Rightarrow> u64 \<Rightarrow> udp_conf \<Rightarrow> users \<Rightarrow> udp_crypto \<Rightarrow> bytes \<Rightarrow>
    (net_addr \<times> bytes) result \<times> udp_crypto" where
  "open_2022_multi cr now fresh fresh' cf us uc datagram =
    (if length datagram < 32 + TAG then (Inl (Protocol ''ss2022 udp: multi-user packet shorter than sep + eih plus tag''), uc)
     else case cf_block cf of
       None \<Rightarrow> (Inl (Crypto ''ss2022 udp: missing block cipher''), uc)
     | Some block \<Rightarrow>
         let sep = block_decrypt cr block (take 16 datagram);
             token = open_eih_udp cr block sep (take 16 (drop 16 datagram)) in
         (case hm_get (us_by_eih us) token of
            None \<Rightarrow> (Inl (Protocol ''ss2022 udp eih: identity token matches no user''), uc)
          | Some idx \<Rightarrow>
              let user = us_list us ! idx;
                  uc = (if uc_user uc \<noteq> Some idx then (udp_crypto_new fresh)\<lparr>uc_user := Some idx\<rparr> else uc) in
              (case aead_new (ss_kind (cf_method cf)) (ss2022_subkey cr (usr_key user) (take 8 sep) (ss_key_len (cf_method cf))) of
                 Inl e \<Rightarrow> (Inl e, uc)
               | Inr aead \<Rightarrow>
                   (case aead_open cr aead (take 12 (drop 4 sep)) [] (drop 32 datagram) of
                      Inl e \<Rightarrow> (Inl (Protocol ''ss2022 udp: packet does not authenticate''), uc)
                    | Inr plain \<Rightarrow> admit_2022 now fresh' Spec (be_word (take 8 sep)) (be_word (drop 8 sep)) plain uc))))"

definition open_2022 :: "'a crypto_scheme \<Rightarrow> u64 \<Rightarrow> u64 \<Rightarrow> u64 \<Rightarrow> udp_conf \<Rightarrow> udp_crypto \<Rightarrow> bytes \<Rightarrow> (net_addr \<times> bytes) result \<times> udp_crypto" where
  "open_2022 cr now fresh fresh' cf uc datagram =
    (case cf_users cf of
       Some us \<Rightarrow> open_2022_multi cr now fresh fresh' cf us uc datagram
     | None \<Rightarrow> open_2022_single cr now fresh cf uc datagram)"

text \<open>The header, key and nonce of a reply: those of the session's user, or of the server.\<close>

definition reply_keys :: "'a crypto_scheme \<Rightarrow> udp_conf \<Rightarrow> udp_crypto \<Rightarrow> bytes \<Rightarrow> (bytes \<times> aead \<times> bytes) result" where
  "reply_keys cr cf uc sep =
    (case (cf_users cf, uc_user uc) of
       (Some us, Some idx) \<Rightarrow>
         let user = us_list us ! idx in
         rbind (aead_new (ss_kind (cf_method cf)) (ss2022_subkey cr (usr_key user) (be_bytes 8 (uc_server_session_id uc)) (ss_key_len (cf_method cf))))
           (\<lambda>aead. Inr (block_encrypt cr (usr_block user) sep, aead, take 12 (drop 4 sep)))
     | _ \<Rightarrow>
         (case cf_block cf of
            None \<Rightarrow> Inl (Crypto ''ss2022 udp: missing block cipher'')
          | Some block \<Rightarrow>
              let scheme = (case uc_scheme uc of Some s \<Rightarrow> s | None \<Rightarrow> Spec); sep_ct = block_encrypt cr block sep in
              rbind (aead_2022 cr cf scheme sep sep_ct) (\<lambda>aead. Inr (sep_ct, aead, nonce_2022 scheme sep sep_ct))))"

definition seal_2022 :: "'a crypto_scheme \<Rightarrow> u64 \<Rightarrow> udp_conf \<Rightarrow> udp_crypto \<Rightarrow> net_addr \<Rightarrow> bytes \<Rightarrow> bytes result \<times> udp_crypto" where
  "seal_2022 cr now cf uc target payload =
    (let uc = uc\<lparr>uc_server_packet_id := uc_server_packet_id uc + 1\<rparr>;
         sep = be_bytes 8 (uc_server_session_id uc) @ be_bytes 8 (uc_server_packet_id uc);
         body = [1] @ be_bytes 8 now @ be_bytes 8 (uc_client_session_id uc) @ u16_be 0
                @ encode_socks_addr [] (na_host target) (na_port target) @ payload in
     (rbind (reply_keys cr cf uc sep) (\<lambda>(sep_ct, aead, nonce). aead_seal cr aead nonce [] body sep_ct), uc))"

section \<open>The sessions of the socket\<close>

text \<open>
  One relay session per source address. \<open>udp_datagram\<close> is one turn of \<open>run\<close>: the session is found or
  opened, the datagram opened, and what it holds handed to the session's uplink. \<open>udp_reply\<close> is one turn of
  \<open>downlink\<close>, \<open>udp_retire\<close> its end.
\<close>

type_synonym udp_sessions = "(socket_addr, udp_crypto) hash_map"

definition udp_session :: "u64 \<Rightarrow> udp_sessions \<Rightarrow> socket_addr \<Rightarrow> udp_crypto \<times> udp_sessions" where
  "udp_session fresh sessions source =
    (case hm_get sessions source of
       Some uc \<Rightarrow> (uc, sessions)
     | None \<Rightarrow> let uc = udp_crypto_new fresh in (uc, hm_insert source uc sessions))"

text \<open>The random ids of a turn: of a new session, of a new user, of an id that clashes.\<close>

definition udp_datagram :: "'a crypto_scheme \<Rightarrow> u64 \<Rightarrow> u64 \<times> u64 \<times> u64 \<Rightarrow> udp_conf \<Rightarrow> udp_sessions \<Rightarrow> socket_addr \<Rightarrow> bytes \<Rightarrow>
    (net_addr \<times> bytes) option \<times> udp_sessions" where
  "udp_datagram cr now fresh cf sessions source datagram =
    (let (uc, sessions) = udp_session (fst fresh) sessions source in
     if is_2022 (cf_method cf) then
       (case open_2022 cr now (fst (snd fresh)) (snd (snd fresh)) cf uc datagram of
          (r, uc) \<Rightarrow> (result_ok r, hm_insert source uc sessions))
     else (result_ok (open_legacy cr cf datagram), sessions))"

definition udp_reply :: "'a crypto_scheme \<Rightarrow> u64 \<Rightarrow> bytes \<Rightarrow> udp_conf \<Rightarrow> udp_sessions \<Rightarrow> socket_addr \<Rightarrow> net_addr \<Rightarrow> bytes \<Rightarrow>
    bytes option \<times> udp_sessions" where
  "udp_reply cr now salt cf sessions client target data =
    (case hm_get sessions client of
       None \<Rightarrow> (None, sessions)
     | Some uc \<Rightarrow>
         if is_2022 (cf_method cf) then
           (case seal_2022 cr now cf uc target data of (r, uc) \<Rightarrow> (result_ok r, hm_insert client uc sessions))
         else (result_ok (seal_legacy cr salt cf target data), sessions))"

definition udp_retire :: "udp_sessions \<Rightarrow> socket_addr \<Rightarrow> udp_sessions" where
  "udp_retire sessions client = hm_remove client sessions"

end
