(* ===== verification/Ss_Udp_Flow.thy ===== *)
theory Ss_Udp_Flow
  imports Ss_Udp
begin

text \<open>
  Shadowsocks datagrams end to end: what the client's session sends the server's socket delivers, and a reply
  reaches the client, in the legacy and the 2022 form; and what a malformed server frame does to the client.
\<close>

section \<open>Peers that share an account\<close>

text \<open>A client session and the server's socket on the same method and key, without users.\<close>

definition udp_peers :: "'a crypto_scheme \<Rightarrow> ss_udp \<Rightarrow> udp_conf \<Rightarrow> bool" where
  "udp_peers cr s cf \<longleftrightarrow> su_method s = cf_method cf \<and> su_key s = cf_key cf \<and> length (cf_key cf) = ss_key_len (cf_method cf) \<and>
    cf_users cf = None \<and>
    (if is_2022 (cf_method cf) then su_aes s = Some (cf_key cf) \<and> (\<exists>block. cf_block cf = Some block \<and> block_key block = cf_key cf)
     else su_aes s = None)"

lemma udp_peers_account:
  assumes "ss_udp_new cr session cfg = Inr s" and "derive_key cr (so_method cfg) (so_password cfg) = Inr (sv_key srv)"
    and "sv_method srv = so_method cfg" and "sv_users srv = None" and "udp_conf_new srv = Inr cf"
  shows "udp_peers cr s cf"
proof -
  have len: "length (sv_key srv) = ss_key_len (so_method cfg)" using derive_key_length [OF assms(2)] .
  have "cf_method cf = so_method cfg" "cf_key cf = sv_key srv" "cf_users cf = None"
    using assms(3-5) by (auto simp: udp_conf_new_def rbind_Inr_iff)
  moreover have "\<exists>block. cf_block cf = Some block \<and> block_key block = sv_key srv" if "is_2022 (so_method cfg)"
    using assms(3,5) that
    by (auto simp: udp_conf_new_def rbind_Inr_iff block_new_def split: aead_kind.splits if_splits sum.splits)
  ultimately show ?thesis using assms(1,2) len by (auto simp: udp_peers_def ss_udp_new_def rbind_Inr_iff split: if_splits)
qed

lemma key_len_aes: "length key = ss_key_len m \<Longrightarrow> length key \<in> {16, 32}"
  using ss_key_len_cases [of m] by auto

lemma session_key_new:
  assumes "is_2022 m"
  shows "\<exists>c. aead_new (ss_kind m) (ss2022_subkey cr key salt (ss_key_len m)) = Inr c \<and> aead_keyed c"
  using ss_key_len_cases [of m] by (intro aead_new_ok) (auto simp: ss_key_len_def)

lemma legacy_key_new:
  assumes "length key = ss_key_len m"
  shows "\<exists>c. aead_new (ss_kind m) (ss_subkey_legacy cr key salt) = Inr c \<and> aead_keyed c"
  using assms by (intro aead_new_ok) (simp add: ss_key_len_def)

lemma addressed_length: "length data \<le> 65000 \<Longrightarrow> length (enc_socks target @ data) < 2 ^ 32 - 100"
  by (auto simp: encode_socks_addr_def Let_def split: host.split ip_addr.split)

lemma split_addressed: "wire_addr target \<Longrightarrow> split_socks_payload (enc_socks target @ data) = Inr (target, data)"
  using decode_socks_encode [of target data] by (simp add: split_socks_payload_def rbind_def)

lemma parse_addressed: "wire_addr target \<Longrightarrow> parse_udp_frame (enc_socks target @ data) = Some (target, data)"
  using decode_socks_encode [of target data] by (simp add: parse_udp_frame_def)

lemma sep_fields:
  "take 8 (be_bytes 8 a @ be_bytes 8 b) = be_bytes 8 a" "drop 8 (be_bytes 8 a @ be_bytes 8 b) = be_bytes 8 b"
  "length (take 12 (drop 4 (be_bytes 8 a @ be_bytes 8 b))) = 12" "length (be_bytes 8 a @ be_bytes 8 b) = 16"
  by simp_all

section \<open>From the client to the target\<close>

text \<open>A 2022 datagram: the encrypted header, and the body that opens under the key its session id gives.\<close>

lemma send_2022:
  assumes "aead_lawful cr" and "aes_lawful cr" and "udp_peers cr s cf" and "is_2022 (cf_method cf)" and "length data \<le> 65000"
  shows "\<exists>sep_ct ct c. ss_udp_send cr now salt s target data = (Inr (sep_ct @ ct), s\<lparr>su_packet_id := su_packet_id s + 1\<rparr>) \<and>
    length sep_ct = 16 \<and> 16 \<le> length ct \<and>
    cr_aes_decrypt cr (cf_key cf) sep_ct = be_bytes 8 (su_session_id s) @ be_bytes 8 (su_packet_id s + 1) \<and>
    aead_new (ss_kind (cf_method cf)) (ss2022_subkey cr (cf_key cf) (be_bytes 8 (su_session_id s)) (ss_key_len (cf_method cf))) = Inr c \<and>
    aead_open cr c (take 12 (drop 4 (be_bytes 8 (su_session_id s) @ be_bytes 8 (su_packet_id s + 1)))) [] ct =
      Inr ([0] @ be_bytes 8 now @ u16_be 0 @ enc_socks target @ data)"
proof -
  let ?sep = "be_bytes 8 (su_session_id s) @ be_bytes 8 (su_packet_id s + 1)"
  let ?body = "[0] @ be_bytes 8 now @ u16_be 0 @ enc_socks target @ data"
  have aes: "length (cr_aes_encrypt cr (cf_key cf) ?sep) = 16" "cr_aes_decrypt cr (cf_key cf) (cr_aes_encrypt cr (cf_key cf) ?sep) = ?sep"
    using assms(2,3) key_len_aes [of "cf_key cf" "cf_method cf"] sep_fields(4)
    unfolding aes_lawful_def udp_peers_def by blast+
  obtain c where c: "aead_new (ss_kind (cf_method cf)) (ss2022_subkey cr (cf_key cf) (be_bytes 8 (su_session_id s)) (ss_key_len (cf_method cf))) = Inr c"
    "aead_keyed c" using session_key_new [OF assms(4)] by blast
  have "length ?body < 2 ^ 32" using addressed_length [OF assms(5), of target] by simp
  from aead_seals [OF assms(1) c(2) sep_fields(3) this] obtain ct where ct:
    "aead_seal cr c (take 12 (drop 4 ?sep)) [] ?body (cr_aes_encrypt cr (cf_key cf) ?sep) = Inr (cr_aes_encrypt cr (cf_key cf) ?sep @ ct)"
    "length ct = length ?body + 16" "aead_open cr c (take 12 (drop 4 ?sep)) [] ct = Inr ?body" by blast
  have peers: "su_method s = cf_method cf" "su_key s = cf_key cf" "su_aes s = Some (cf_key cf)" using assms(3,4) by (simp_all add: udp_peers_def)
  have hdr: "separate_header cr s = ((cr_aes_encrypt cr (cf_key cf) ?sep, ?sep), s\<lparr>su_packet_id := su_packet_id s + 1\<rparr>)"
    using peers by (simp add: separate_header_def Let_def)
  have "ss_udp_send cr now salt s target data = (Inr (cr_aes_encrypt cr (cf_key cf) ?sep @ ct), s\<lparr>su_packet_id := su_packet_id s + 1\<rparr>)"
    using peers hdr c(1) ct(1) assms(4) unfolding ss_udp_send_def Let_def
    by (simp add: rbind_def sep_fields(1) del: drop_append take_append)
  then show ?thesis using aes c(1) ct(2,3) by (intro exI [of _ "cr_aes_encrypt cr (cf_key cf) ?sep"] exI [of _ ct] exI [of _ c]) simp
qed

lemma parse_client_body:
  assumes "wire_addr target" and "abs_diff now' now \<le> 30"
  shows "parse_2022_body now' ([0] @ be_bytes 8 now @ u16_be 0 @ enc_socks target @ data) = Inr (target, data)"
proof -
  let ?body = "[0] @ be_bytes 8 now @ u16_be 0 @ enc_socks target @ data"
  have "?body ! 0 = 0" "take 8 (drop 1 ?body) = be_bytes 8 now" "u16_from (?body ! 9) (?body ! 10) = 0" "drop (11 + 0) ?body = enc_socks target @ data"
    by (simp_all add: nth_append u16_from_be drop_Cons')
  moreover have "\<not> UDP_TS_WINDOW < abs_diff now' now" using assms(2) by (simp add: UDP_TS_WINDOW_def not_less)
  moreover have "\<not> length ?body < 11" by simp
  ultimately show ?thesis using split_addressed [OF assms(1), of data]
    by (simp only: parse_2022_body_def be_word_be_bytes Let_def) (simp add: be_word_be_bytes)
qed

text \<open>The legacy form: the salt, and one block under the zero nonce.\<close>

lemma legacy_datagram:
  assumes "aead_lawful cr" and "length key = ss_key_len m" and "length salt = ss_key_len m" and "length data \<le> 65000"
  shows "\<exists>ct c. rbind (aead_new (ss_kind m) (ss_subkey_legacy cr key salt)) (\<lambda>aead. aead_seal cr aead (replicate 12 0) [] (enc_socks target @ data) salt) =
      Inr (salt @ ct) \<and> length (salt @ ct) \<le> 65536 \<and> 16 \<le> length ct \<and>
    aead_new (ss_kind m) (ss_subkey_legacy cr key salt) = Inr c \<and> aead_open cr c (replicate 12 0) [] ct = Inr (enc_socks target @ data)"
proof -
  obtain c where c: "aead_new (ss_kind m) (ss_subkey_legacy cr key salt) = Inr c" "aead_keyed c" using legacy_key_new [OF assms(2)] by blast
  have "length (enc_socks target @ data) < 2 ^ 32" using addressed_length [OF assms(4), of target] by simp
  from aead_seals [OF assms(1) c(2) _ this, of "replicate 12 0" "[]" salt] obtain ct where
    "aead_seal cr c (replicate 12 0) [] (enc_socks target @ data) salt = Inr (salt @ ct)" "length ct = length (enc_socks target @ data) + 16"
    "aead_open cr c (replicate 12 0) [] ct = Inr (enc_socks target @ data)" by auto
  moreover have "length (enc_socks target) \<le> 259" by (auto simp: encode_socks_addr_def Let_def split: host.split ip_addr.split)
  ultimately show ?thesis using c(1) assms(3,4) ss_key_len_cases [of m]
    by (intro exI [of _ ct] exI [of _ c]) (auto simp: rbind_def)
qed

lemma send_legacy:
  "\<not> is_2022 (su_method s) \<Longrightarrow>
   ss_udp_send cr now salt s target data =
    (rbind (aead_new (ss_kind (su_method s)) (ss_subkey_legacy cr (su_key s) salt)) (\<lambda>aead.
       aead_seal cr aead (replicate 12 0) [] (enc_socks target @ data) salt), s)"
  by (simp add: ss_udp_send_def Let_def)

text \<open>A 2022 datagram of the client, whatever the sessions of the socket are when it arrives.\<close>

lemma request_turn:
  assumes "aead_lawful cr" and "aes_lawful cr" and "udp_peers cr s cf" and "is_2022 (cf_method cf)" and "wire_addr target" and "length data \<le> 65000"
    and "abs_diff now' now \<le> 30"
  shows "\<exists>packet. ss_udp_send cr now salt s target data = (Inr packet, s\<lparr>su_packet_id := su_packet_id s + 1\<rparr>) \<and>
    (\<forall>fresh S source uc S1. udp_session (fst fresh) S source = (uc, S1) \<longrightarrow> uc_scheme uc \<noteq> Some EngineClient \<longrightarrow>
      (\<exists>uc'. udp_datagram cr now' fresh cf S source packet =
         (if fst (rw_accept (uc_replay uc) (su_packet_id s + 1)) then Some (target, data) else None, hm_insert source uc' S1) \<and>
       uc_scheme uc' = Some Spec \<and> uc_replay uc' = snd (rw_accept (uc_replay uc) (su_packet_id s + 1))))"
proof -
  obtain block where block: "cf_block cf = Some block" "block_key block = cf_key cf" "cf_users cf = None" using assms(3,4) by (auto simp: udp_peers_def)
  let ?sep = "be_bytes 8 (su_session_id s) @ be_bytes 8 (su_packet_id s + 1)"
  let ?body = "[0] @ be_bytes 8 now @ u16_be 0 @ enc_socks target @ data"
  from send_2022 [OF assms(1-4,6), of now salt target] obtain sep_ct ct c where p:
    "ss_udp_send cr now salt s target data = (Inr (sep_ct @ ct), s\<lparr>su_packet_id := su_packet_id s + 1\<rparr>)" "length sep_ct = 16" "16 \<le> length ct"
    "cr_aes_decrypt cr (cf_key cf) sep_ct = ?sep"
    "aead_new (ss_kind (cf_method cf)) (ss2022_subkey cr (cf_key cf) (be_bytes 8 (su_session_id s)) (ss_key_len (cf_method cf))) = Inr c"
    "aead_open cr c (take 12 (drop 4 ?sep)) [] ct = Inr ?body" by blast
  have "\<exists>uc'. udp_datagram cr now' fresh cf S source (sep_ct @ ct) =
        (if fst (rw_accept (uc_replay uc) (su_packet_id s + 1)) then Some (target, data) else None, hm_insert source uc' S1) \<and>
      uc_scheme uc' = Some Spec \<and> uc_replay uc' = snd (rw_accept (uc_replay uc) (su_packet_id s + 1))"
    if u: "udp_session (fst fresh) S source = (uc, S1)" "uc_scheme uc \<noteq> Some EngineClient" for fresh S source uc S1
  proof -
    let ?fresh = "fst (snd fresh)"
    let ?admit = "admit_2022 now' ?fresh Spec (su_session_id s) (su_packet_id s + 1) ?body uc"
    have "try_schemes cr now' ?fresh cf ?sep sep_ct ct uc (Spec # schemes) = ?admit" for schemes
      using p(5,6) by (simp add: aead_2022_def nonce_2022_def scheme_source_def sep_fields(1,2) be_word_be_bytes del: drop_append take_append append_Cons)
    moreover obtain schemes where "(case uc_scheme uc of Some scheme \<Rightarrow> [scheme, other_scheme scheme] | None \<Rightarrow> [Spec, EngineClient]) = Spec # schemes"
      using u(2) by (cases "uc_scheme uc"; cases "the (uc_scheme uc)") auto
    ultimately have o: "open_2022 cr now' ?fresh (snd (snd fresh)) cf uc (sep_ct @ ct) = ?admit"
      using p(2-4) block by (simp add: open_2022_def open_2022_single_def TAG_def block_decrypt_def del: append_Cons append_assoc)
    obtain r uc' where adm: "?admit = (r, uc')" by fastforce
    then have "result_ok r = (if fst (rw_accept (uc_replay uc) (su_packet_id s + 1)) then Some (target, data) else None)"
      "uc_scheme uc' = Some Spec" "uc_replay uc' = snd (rw_accept (uc_replay uc) (su_packet_id s + 1))"
      using parse_client_body [OF assms(5,7), of data] by (auto simp: admit_2022_def Let_def result_ok_def split: prod.splits if_splits)
    then show ?thesis using o adm u(1) assms(4) by (intro exI [of _ uc']) (simp add: udp_datagram_def)
  qed
  then show ?thesis using p(1) by (intro exI [of _ "sep_ct @ ct"]) blast
qed

text \<open>
  what the client sends over UDP the server delivers. The datagram goes out; the socket hands the
  target and the data to the session's uplink, unless, in the 2022 edition, the replay window of the source refuses the
  packet's id.
\<close>

theorem udp_request_delivered:
  assumes "aead_lawful cr" and "aes_lawful cr" and "udp_peers cr s cf" and "wire_addr target" and "length data \<le> 65000"
    and "length salt = ss_key_len (cf_method cf)" and "abs_diff now' now \<le> 30"
    and "uc_scheme (fst (udp_session (fst fresh) S source)) \<noteq> Some EngineClient"
  shows "\<exists>packet s'. ss_udp_send cr now salt s target data = (Inr packet, s') \<and>
    fst (udp_datagram cr now' fresh cf S source packet) =
      (if is_2022 (cf_method cf) \<and> \<not> fst (rw_accept (uc_replay (fst (udp_session (fst fresh) S source))) (su_packet_id s + 1)) then None
       else Some (target, data))"
proof (cases "is_2022 (cf_method cf)")
  case True
  obtain uc S1 where u: "udp_session (fst fresh) S source = (uc, S1)" by fastforce
  from request_turn [OF assms(1-3) True assms(4,5,7), of salt] obtain packet where p:
    "ss_udp_send cr now salt s target data = (Inr packet, s\<lparr>su_packet_id := su_packet_id s + 1\<rparr>)"
    "\<forall>fresh S source uc S1. udp_session (fst fresh) S source = (uc, S1) \<longrightarrow> uc_scheme uc \<noteq> Some EngineClient \<longrightarrow>
      (\<exists>uc'. udp_datagram cr now' fresh cf S source packet =
         (if fst (rw_accept (uc_replay uc) (su_packet_id s + 1)) then Some (target, data) else None, hm_insert source uc' S1) \<and>
       uc_scheme uc' = Some Spec \<and> uc_replay uc' = snd (rw_accept (uc_replay uc) (su_packet_id s + 1)))" by blast
  have "uc_scheme uc \<noteq> Some EngineClient" using u assms(8) by simp
  with p(2) u obtain uc' where "udp_datagram cr now' fresh cf S source packet =
      (if fst (rw_accept (uc_replay uc) (su_packet_id s + 1)) then Some (target, data) else None, hm_insert source uc' S1)" by blast
  then show ?thesis using p(1) u True by auto
next
  case False
  have peers: "su_method s = cf_method cf" "su_key s = cf_key cf" "length (cf_key cf) = ss_key_len (cf_method cf)" using assms(3) by (simp_all add: udp_peers_def)
  from legacy_datagram [OF assms(1) peers(3) assms(6,5), of target] obtain ct c where p:
    "rbind (aead_new (ss_kind (cf_method cf)) (ss_subkey_legacy cr (cf_key cf) salt))
       (\<lambda>aead. aead_seal cr aead (replicate 12 0) [] (enc_socks target @ data) salt) = Inr (salt @ ct)"
    "16 \<le> length ct" "aead_new (ss_kind (cf_method cf)) (ss_subkey_legacy cr (cf_key cf) salt) = Inr c"
    "aead_open cr c (replicate 12 0) [] ct = Inr (enc_socks target @ data)" by blast
  have "open_legacy cr cf (salt @ ct) = Inr (target, data)"
    using p(2-4) assms(6) split_addressed [OF assms(4), of data] by (simp add: open_legacy_def TAG_def rbind_def Let_def)
  then have "fst (udp_datagram cr now' fresh cf S source (salt @ ct)) = Some (target, data)"
    using False by (simp add: udp_datagram_def result_ok_def split: prod.split)
  then show ?thesis using send_legacy [of s cr now salt target data] p(1) peers False by simp
qed

definition sample_udp :: ss_udp where
  "sample_udp = \<lparr>su_method = SsBlake3Aes128Gcm, su_key = replicate 16 7, su_session_id = 42, su_packet_id = 0, su_aes = Some (replicate 16 7)\<rparr>"

definition sample_conf :: udp_conf where
  "sample_conf = \<lparr>cf_method = SsBlake3Aes128Gcm, cf_key = replicate 16 7, cf_users = None, cf_block = Some (BlockAes128 (replicate 16 7))\<rparr>"

definition dns_target :: net_addr where
  "dns_target = net_addr_new (Ip (V4 0x08080808)) 53"

lemma sample_udp_facts:
  "udp_peers cr sample_udp sample_conf" "is_2022 (cf_method sample_conf)" "ss_key_len (cf_method sample_conf) = 16" "wire_addr dns_target"
  "abs_diff (1010 :: u64) 1000 \<le> 30"
  by (simp_all add: udp_peers_def sample_udp_def sample_conf_def is_2022_def ss_key_len_def ss_kind_def key_len_def dns_target_def
    wire_addr_def wire_host_def net_addr_new_def abs_diff_def)

theorem udp_request_delivered_witness:
  "\<exists>packet s'. ss_udp_send plain_crypto 1000 (replicate 16 1) sample_udp dns_target [1, 2] = (Inr packet, s') \<and>
    fst (udp_datagram plain_crypto 1010 (3, 4, 5) sample_conf hm_empty (V4 1, 9) packet) = Some (dns_target, [1, 2])"
proof -
  have "\<exists>packet s'. ss_udp_send plain_crypto 1000 (replicate 16 1) sample_udp dns_target [1, 2] = (Inr packet, s') \<and>
    fst (udp_datagram plain_crypto 1010 (3, 4, 5) sample_conf hm_empty (V4 1, 9) packet) =
      (if is_2022 (cf_method sample_conf) \<and>
          \<not> fst (rw_accept (uc_replay (fst (udp_session (fst (3, 4 :: u64, 5 :: u64)) hm_empty (V4 1, 9)))) (su_packet_id sample_udp + 1)) then None
       else Some (dns_target, [1, 2]))"
    by (rule udp_request_delivered) (simp_all add: plain_crypto_lawful sample_udp_facts udp_session_def udp_crypto_new_def Let_def)
  then show ?thesis by (simp add: udp_session_def udp_crypto_new_def rw_new_def rw_accept_def Let_def)
qed

section \<open>From the target to the client\<close>

lemma parse_server_body:
  assumes "wire_addr target"
  shows "parse_ss2022_udp_server_frame ([1] @ be_bytes 8 now @ be_bytes 8 session @ u16_be 0 @ enc_socks target @ data) = Got (target, data)"
proof -
  let ?body = "[1] @ be_bytes 8 now @ be_bytes 8 session @ u16_be 0 @ enc_socks target @ data"
  have "?body ! 0 = 1" "u16_from (?body ! 17) (?body ! 18) = 0" "drop (19 + 0) ?body = enc_socks target @ data" "\<not> length ?body < 19"
    by (simp_all add: nth_append u16_from_be drop_Cons')
  then show ?thesis using parse_addressed [OF assms, of data]
    by (simp only: parse_ss2022_udp_server_frame_def Let_def) (simp add: attempt_def)
qed

text \<open>
  a reply to a known source reaches the client it is for: the socket sends a datagram, and the client's
  \<open>recv\<close> returns its address and data, without consuming what follows.
\<close>

theorem udp_reply_delivered:
  assumes "aead_lawful cr" and "aes_lawful cr" and "udp_peers cr s cf" and "wire_addr target" and "length data \<le> 65000"
    and "length salt = ss_key_len (cf_method cf)" and "hm_get S client = Some uc" and "uc_scheme uc \<noteq> Some EngineClient"
  shows "\<exists>packet S'. udp_reply cr now salt cf S client target data = (Some packet, S') \<and>
    ss_udp_recv cr s (packet # rest) = Some (Some (target, data), rest)"
proof (cases "is_2022 (cf_method cf)")
  case True
  obtain block where block: "cf_block cf = Some block" "block_key block = cf_key cf" "cf_users cf = None" using assms(3) True by (auto simp: udp_peers_def)
  have peers: "su_method s = cf_method cf" "su_key s = cf_key cf" "su_aes s = Some (cf_key cf)" using assms(3) True by (simp_all add: udp_peers_def)
  let ?uc = "uc\<lparr>uc_server_packet_id := uc_server_packet_id uc + 1\<rparr>"
  let ?sep = "be_bytes 8 (uc_server_session_id uc) @ be_bytes 8 (uc_server_packet_id uc + 1)"
  let ?body = "[1] @ be_bytes 8 now @ be_bytes 8 (uc_client_session_id uc) @ u16_be 0 @ enc_socks target @ data"
  let ?sep_ct = "cr_aes_encrypt cr (cf_key cf) ?sep"
  have aes: "length ?sep_ct = 16" "cr_aes_decrypt cr (cf_key cf) ?sep_ct = ?sep"
    using assms(2,3) key_len_aes [of "cf_key cf" "cf_method cf"] sep_fields(4) unfolding aes_lawful_def udp_peers_def by blast+
  obtain c where c: "aead_new (ss_kind (cf_method cf)) (ss2022_subkey cr (cf_key cf) (be_bytes 8 (uc_server_session_id uc)) (ss_key_len (cf_method cf))) = Inr c"
    "aead_keyed c" using session_key_new [OF True] by blast
  have small: "length ?body \<le> 65400" using assms(5) by (auto simp: encode_socks_addr_def Let_def split: host.split ip_addr.split)
  then obtain ct where ct: "aead_seal cr c (take 12 (drop 4 ?sep)) [] ?body ?sep_ct = Inr (?sep_ct @ ct)"
    "length ct = length ?body + 16" "aead_open cr c (take 12 (drop 4 ?sep)) [] ct = Inr ?body"
    using aead_seals [OF assms(1) c(2) sep_fields(3), where plain = ?body and aad = "[]" and out = ?sep_ct] by auto
  have "(case uc_scheme uc of Some s \<Rightarrow> s | None \<Rightarrow> Spec) = Spec" using assms(8) by (cases "uc_scheme uc"; cases "the (uc_scheme uc)") auto
  then have "reply_keys cr cf ?uc ?sep = Inr (?sep_ct, c, take 12 (drop 4 ?sep))"
    using block c(1) by (simp add: reply_keys_def aead_2022_def nonce_2022_def scheme_source_def block_encrypt_def sep_fields(1) rbind_def
      del: drop_append take_append)
  then have "fst (seal_2022 cr now cf uc target data) = Inr (?sep_ct @ ct)"
    using ct(1) by (simp add: seal_2022_def Let_def rbind_def del: drop_append take_append append_Cons)
  then obtain S' where "udp_reply cr now salt cf S client target data = (Some (?sep_ct @ ct), S')"
    using assms(7) True by (cases "seal_2022 cr now cf uc target data") (simp add: udp_reply_def result_ok_def)
  moreover have "ss_udp_datagram cr s (?sep_ct @ ct) = Got (target, data)"
    using True peers aes c(1) ct(2,3) parse_server_body [OF assms(4)]
    by (simp add: ss_udp_datagram_def TAG_def sep_fields(1) del: drop_append take_append append_Cons) (simp add: sep_fields(1) del: append_Cons)
  moreover have "take 65536 (?sep_ct @ ct) = ?sep_ct @ ct" using small aes(1) ct(2) by simp
  ultimately show ?thesis by simp
next
  case False
  have peers: "su_method s = cf_method cf" "su_key s = cf_key cf" "length (cf_key cf) = ss_key_len (cf_method cf)" using assms(3) by (simp_all add: udp_peers_def)
  from legacy_datagram [OF assms(1) peers(3) assms(6,5), of target] obtain ct c where p:
    "rbind (aead_new (ss_kind (cf_method cf)) (ss_subkey_legacy cr (cf_key cf) salt))
       (\<lambda>aead. aead_seal cr aead (replicate 12 0) [] (enc_socks target @ data) salt) = Inr (salt @ ct)" "length (salt @ ct) \<le> 65536"
    "16 \<le> length ct" "aead_new (ss_kind (cf_method cf)) (ss_subkey_legacy cr (cf_key cf) salt) = Inr c"
    "aead_open cr c (replicate 12 0) [] ct = Inr (enc_socks target @ data)" by blast
  have "seal_legacy cr salt cf target data = Inr (salt @ ct)" using p(1) by (simp add: seal_legacy_def)
  then have "udp_reply cr now salt cf S client target data = (Some (salt @ ct), S)" using assms(7) False by (simp add: udp_reply_def result_ok_def)
  moreover have "ss_udp_datagram cr s (salt @ ct) = Got (target, data)"
    using p(3-5) assms(6) peers False parse_addressed [OF assms(4), of data] by (simp add: ss_udp_datagram_def TAG_def Let_def attempt_def)
  moreover have "take 65536 (salt @ ct) = salt @ ct" using p(2) by simp
  ultimately show ?thesis by simp
qed

theorem udp_reply_delivered_witness:
  "\<exists>packet S'. udp_reply plain_crypto 1000 (replicate 16 1) sample_conf [((V4 1, 9), udp_crypto_new 77)] (V4 1, 9) dns_target [5] = (Some packet, S') \<and>
    ss_udp_recv plain_crypto sample_udp [packet, [0]] = Some (Some (dns_target, [5]), [[0]])"
  by (rule udp_reply_delivered [where uc = "udp_crypto_new 77"])
    (simp_all add: plain_crypto_lawful sample_udp_facts udp_crypto_new_def hm_get_def)

section \<open>A malformed frame\<close>

text \<open>
  a server frame can stop the client. A datagram sealed under the shared key whose padding length runs past its end
  makes \<open>recv\<close> slice out of bounds, and nothing behind it is received.
\<close>

theorem ss_udp_padding_panics:
  assumes "aead_lawful cr" and "aes_lawful cr" and "udp_peers cr s cf" and "is_2022 (cf_method cf)" and "length sep = 16"
  shows "\<exists>c ct. aead_new (ss_kind (cf_method cf)) (ss2022_subkey cr (cf_key cf) (take 8 sep) (ss_key_len (cf_method cf))) = Inr c \<and>
    aead_open cr c (take 12 (drop 4 sep)) [] ct = Inr ([1] @ be_bytes 8 now @ be_bytes 8 session @ [0xff, 0xff]) \<and>
    ss_udp_recv cr s ((cr_aes_encrypt cr (cf_key cf) sep @ ct) # rest) = None"
proof -
  let ?body = "[1] @ be_bytes 8 now @ be_bytes 8 session @ [0xff, 0xff]"
  let ?sep_ct = "cr_aes_encrypt cr (cf_key cf) sep"
  have peers: "su_method s = cf_method cf" "su_key s = cf_key cf" "su_aes s = Some (cf_key cf)" using assms(3,4) by (simp_all add: udp_peers_def)
  have aes: "length ?sep_ct = 16" "cr_aes_decrypt cr (cf_key cf) ?sep_ct = sep"
    using assms(2,3,5) key_len_aes [of "cf_key cf" "cf_method cf"] unfolding aes_lawful_def udp_peers_def by blast+
  obtain c where c: "aead_new (ss_kind (cf_method cf)) (ss2022_subkey cr (cf_key cf) (take 8 sep) (ss_key_len (cf_method cf))) = Inr c"
    "aead_keyed c" using session_key_new [OF assms(4)] by blast
  have "length (take 12 (drop 4 sep)) = 12" using assms(5) by simp
  then obtain ct where ct: "aead_open cr c (take 12 (drop 4 sep)) [] ct = Inr ?body" "length ct = length ?body + 16"
    using aead_seals [OF assms(1) c(2), where nonce = "take 12 (drop 4 sep)" and plain = ?body and aad = "[]"] by auto
  have "?body ! 0 = 1" "?body ! 17 = 0xff" "?body ! 18 = 0xff" "length ?body = 19" by (simp_all add: nth_append)
  moreover have "unat (u16_from 0xff 0xff) = 65535" by (simp add: u16_from_def be_word_def)
  ultimately have "parse_ss2022_udp_server_frame ?body = Panicked" by (simp only: parse_ss2022_udp_server_frame_def Let_def) simp
  then have "ss_udp_datagram cr s (?sep_ct @ ct) = Panicked"
    using assms(4) peers aes c(1) ct by (simp add: ss_udp_datagram_def TAG_def Let_def del: append_Cons)
  moreover have "take 65536 (?sep_ct @ ct) = ?sep_ct @ ct" using aes(1) ct(2) by simp
  ultimately have "ss_udp_recv cr s ((?sep_ct @ ct) # rest) = None" by simp
  then show ?thesis using c(1) ct(1) by blast
qed

theorem ss_udp_padding_panics_witness:
  "\<exists>c ct. aead_new Aes128Gcm (ss2022_subkey plain_crypto (replicate 16 7) (replicate 8 1) 16) = Inr c \<and>
    aead_open plain_crypto c (replicate 12 1) [] ct = Inr ([1] @ be_bytes 8 (1000 :: u64) @ be_bytes 8 (42 :: u64) @ [0xff, 0xff]) \<and>
    ss_udp_recv plain_crypto sample_udp [cr_aes_encrypt plain_crypto (replicate 16 7) (replicate 16 1) @ ct, [0]] = None"
  using ss_udp_padding_panics [OF plain_crypto_lawful sample_udp_facts(1,2), of "replicate 16 1" 1000 42 "[[0]]"]
  by (simp add: sample_conf_def ss_kind_def ss_key_len_def key_len_def del: append_Cons)

end
