(* ===== verification/Ss_Replay.thy ===== *)
theory Ss_Replay
  imports Ss_Udp_Flow
begin

text \<open>
  The replay protection of the Shadowsocks UDP server: the sliding window refines a specification over the whole
  history of accepted ids, and the socket delivers a datagram at most once per source, whatever arrives in between.
\<close>

section \<open>The window against the history\<close>

text \<open>
  The specification remembers every id it accepted: the first is always accepted, a later one when it is new and
  at most 1024 behind the highest.
\<close>

definition spec_accept :: "u64 set \<Rightarrow> u64 \<Rightarrow> bool" where
  "spec_accept H p \<longleftrightarrow> H = {} \<or> p \<notin> H \<and> rw_floor (Max H) \<le> p"

fun spec_run :: "u64 set \<Rightarrow> u64 list \<Rightarrow> bool list" where
  "spec_run H [] = []"
| "spec_run H (p # ps) = spec_accept H p # spec_run (if spec_accept H p then insert p H else H) ps"

fun rw_run :: "replay_window \<Rightarrow> u64 list \<Rightarrow> bool list" where
  "rw_run w [] = []"
| "rw_run w (p # ps) = (case rw_accept w p of (ok, w) \<Rightarrow> ok # rw_run w ps)"

definition remembers :: "replay_window \<Rightarrow> u64 set \<Rightarrow> bool" where
  "remembers w H \<longleftrightarrow> finite H \<and>
    (if rw_started w then H \<noteq> {} \<and> rw_highest w = Max H \<and> rw_seen w = {p \<in> H. rw_floor (Max H) \<le> p} else H = {} \<and> rw_seen w = {})"

lemma rw_floor_le: "rw_floor h \<le> h"
  by (simp add: rw_floor_def saturating_sub_def UDP_REPLAY_WINDOW_def word_sub_le not_less)

lemma rw_floor_mono: "a \<le> b \<Longrightarrow> rw_floor a \<le> rw_floor b"
  by (auto simp: rw_floor_def saturating_sub_def UDP_REPLAY_WINDOW_def not_less word_le_nat_alt word_less_nat_alt unat_sub)

lemma floors_nest: "f \<le> f' \<Longrightarrow> {q \<in> insert p {r \<in> H. f \<le> r}. f' \<le> q} = {q \<in> insert p H. f' \<le> q}" for f :: u64
  by (auto intro: order.trans)

lemma remembers_new: "remembers rw_new {}"
  by (simp add: remembers_def rw_new_def)

lemma rw_accept_spec:
  assumes "remembers w H"
  shows "fst (rw_accept w p) = spec_accept H p \<and> remembers (snd (rw_accept w p)) (if spec_accept H p then insert p H else H)"
proof (cases "rw_started w")
  case False
  then show ?thesis using assms rw_floor_le [of p] by (auto simp: remembers_def rw_accept_def spec_accept_def)
next
  case True
  then have H: "finite H" "H \<noteq> {}" "rw_highest w = Max H" "rw_seen w = {p \<in> H. rw_floor (Max H) \<le> p}" using assms by (simp_all add: remembers_def)
  show ?thesis
  proof (cases "spec_accept H p")
    case False
    then have "p < rw_floor (rw_highest w) \<or> p \<in> rw_seen w"
      unfolding H(3,4) spec_accept_def using H(2) by (cases "p < rw_floor (Max H)") (simp_all add: not_less)
    then have "rw_accept w p = (False, w)" using True by (elim disjE) (simp_all add: rw_accept_def)
    then show ?thesis using False assms by simp
  next
    case acc: True
    then have p: "p \<notin> H" "rw_floor (Max H) \<le> p" using H(2) by (simp_all add: spec_accept_def)
    let ?h = "if p > Max H then p else Max H"
    have "max a b = (if b < a then a else b)" for a b :: u64 by (auto simp: max_def)
    then have max: "Max (insert p H) = ?h" unfolding Max_insert [OF H(1,2)] .
    have "rw_accept w p = (True, w\<lparr>rw_highest := ?h, rw_seen := {q \<in> insert p (rw_seen w). rw_floor ?h \<le> q}\<rparr>)"
    proof -
      have a: "\<not> p < rw_floor (rw_highest w)" "p \<notin> rw_seen w" using p H by (simp_all add: not_less)
      show ?thesis using a True unfolding H(3) [symmetric] by (cases w) (simp add: rw_accept_def Let_def)
    qed
    moreover have "{q \<in> insert p (rw_seen w). rw_floor ?h \<le> q} = {q \<in> insert p H. rw_floor ?h \<le> q}"
      unfolding H(4) by (rule floors_nest, rule rw_floor_mono) (simp add: order.strict_implies_order)
    ultimately have w: "rw_accept w p = (True, w\<lparr>rw_highest := ?h, rw_seen := {q \<in> insert p H. rw_floor ?h \<le> q}\<rparr>)" by (simp only:)
    have "remembers (w\<lparr>rw_highest := ?h, rw_seen := {q \<in> insert p H. rw_floor ?h \<le> q}\<rparr>) (insert p H)"
      unfolding remembers_def max using True H(1) by (simp del: Max_insert)
    then show ?thesis using acc by (simp only: w fst_conv snd_conv if_True simp_thms)
  qed
qed

lemma rw_run_spec: "remembers w H \<Longrightarrow> rw_run w ps = spec_run H ps"
proof (induction ps arbitrary: w H)
  case (Cons p ps)
  obtain ok w' where a: "rw_accept w p = (ok, w')" by fastforce
  from rw_accept_spec [OF Cons.prems, of p] a have "ok = spec_accept H p" "remembers w' (if spec_accept H p then insert p H else H)" by simp_all
  then show ?case using a Cons.IH by simp
qed simp

text \<open>The state of the window stays small: at most 1025 ids.\<close>

lemma remembers_small:
  assumes "remembers w H"
  shows "card (rw_seen w) \<le> 1025"
proof (cases "rw_started w")
  case True
  then have H: "finite H" "H \<noteq> {}" "rw_seen w = {p \<in> H. rw_floor (Max H) \<le> p}" using assms by (simp_all add: remembers_def)
  have "rw_seen w \<subseteq> (\<lambda>k. Max H - word_of_nat k) ` {..1024}"
  proof
    fix p assume "p \<in> rw_seen w"
    then have p: "p \<le> Max H" "rw_floor (Max H) \<le> p" using H by auto
    then have "unat (Max H - p) \<le> 1024"
      by (auto simp: rw_floor_def saturating_sub_def UDP_REPLAY_WINDOW_def not_less word_le_nat_alt word_less_nat_alt unat_sub split: if_splits)
    moreover have "p = Max H - word_of_nat (unat (Max H - p))" by simp
    ultimately show "p \<in> (\<lambda>k. Max H - word_of_nat k) ` {..1024}" by (intro image_eqI [of _ _ "unat (Max H - p)"]) simp_all
  qed
  then have "card (rw_seen w) \<le> card {..1024 :: nat}" by (meson card_image_le card_mono finite_atMost finite_imageI le_trans)
  then show ?thesis by simp
qed (use assms in \<open>simp add: remembers_def\<close>)

lemma spec_run_distinct: "finite H \<Longrightarrow> distinct (map fst (filter snd (zip ps (spec_run H ps)))) \<and>
    (H \<noteq> {} \<longrightarrow> set (map fst (filter snd (zip ps (spec_run H ps)))) \<inter> H = {})"
proof (induction ps arbitrary: H)
  case (Cons p ps)
  show ?case
  proof (cases "spec_accept H p")
    case True
    from Cons.IH [of "insert p H"] Cons.prems True show ?thesis by (auto simp: spec_accept_def)
  next
    case False
    with Cons.IH [of H] Cons.prems show ?thesis by simp
  qed
qed simp

definition rw_after :: "u64 list \<Rightarrow> replay_window" where
  "rw_after ps = foldl (\<lambda>w p. snd (rw_accept w p)) rw_new ps"

lemma rw_after_remembers: "\<exists>H. remembers (rw_after ps) H"
proof (induction ps rule: rev_induct)
  case Nil
  show ?case using remembers_new by (auto simp: rw_after_def)
next
  case (snoc p ps)
  then show ?case using rw_accept_spec by (fastforce simp: rw_after_def)
qed

text \<open>
  C14: the sliding window decides as a specification with unbounded memory would: an id is accepted when it is the
  first, or new and at most 1024 behind the highest accepted so far. So no id is accepted twice; and the window
  never remembers more than 1025 ids.
\<close>

theorem replay_window_refines_history:
  "rw_run rw_new ps = spec_run {} ps \<and>
   distinct (map fst (filter snd (zip ps (rw_run rw_new ps)))) \<and>
   card (rw_seen (rw_after ps)) \<le> 1025"
proof (intro conjI)
  show run: "rw_run rw_new ps = spec_run {} ps" using remembers_new by (rule rw_run_spec)
  show "distinct (map fst (filter snd (zip ps (rw_run rw_new ps))))" unfolding run using spec_run_distinct [of "{}" ps] by simp
  show "card (rw_seen (rw_after ps)) \<le> 1025" using rw_after_remembers [of ps] remembers_small by blast
qed

section \<open>Datagrams delivered once\<close>









text \<open>What happens at the socket: a datagram from a source, or a reply to one.\<close>

datatype udp_event = Incoming u64 "u64 \<times> u64 \<times> u64" socket_addr bytes | Outgoing u64 bytes socket_addr net_addr bytes

fun udp_run :: "'a crypto_scheme \<Rightarrow> udp_conf \<Rightarrow> udp_sessions \<Rightarrow> udp_event list \<Rightarrow> (net_addr \<times> bytes) option list" where
  "udp_run cr cf S [] = []"
| "udp_run cr cf S (Incoming now fresh source d # es) =
    (case udp_datagram cr now fresh cf S source d of (r, S) \<Rightarrow> r # udp_run cr cf S es)"
| "udp_run cr cf S (Outgoing now salt client target data # es) =
    (case udp_reply cr now salt cf S client target data of (_, S) \<Rightarrow> None # udp_run cr cf S es)"














section \<open>Where the protection ends\<close>

text \<open>
  the window belongs to the source address, not to the session. The very datagram one source delivered is delivered
  again from another address; and a new session of the client on the same address, whose ids start over, is refused though none of its
  datagrams was ever seen.
\<close>

theorem udp_window_per_source:
  assumes "aead_lawful cr" and "aes_lawful cr" and "udp_peers cr s cf" and "udp_peers cr s' cf" and "is_2022 (cf_method cf)"
    and "wire_addr target" and "length data \<le> 65000" and "abs_diff now' now \<le> 30"
    and "hm_get S a = None" and "hm_get S b = None" and "a \<noteq> b"
    and "su_session_id s' \<noteq> su_session_id s" and "su_packet_id s' + 1 < rw_floor (su_packet_id s + 1)"
  shows "\<exists>p s1 p' s1'. ss_udp_send cr now salt s target data = (Inr p, s1) \<and> ss_udp_send cr now salt s' target data = (Inr p', s1') \<and>
    udp_run cr cf S [Incoming now' fresh a p, Incoming now' fresh b p, Incoming now' fresh a p'] = [Some (target, data), Some (target, data), None]"
proof -
  from request_turn [OF assms(1-3,5-8), of salt] obtain p where p:
    "ss_udp_send cr now salt s target data = (Inr p, s\<lparr>su_packet_id := su_packet_id s + 1\<rparr>)"
    "\<And>fresh S source uc S1. udp_session (fst fresh) S source = (uc, S1) \<Longrightarrow> uc_scheme uc \<noteq> Some EngineClient \<Longrightarrow>
      \<exists>uc'. udp_datagram cr now' fresh cf S source p =
         (if fst (rw_accept (uc_replay uc) (su_packet_id s + 1)) then Some (target, data) else None, hm_insert source uc' S1) \<and>
       uc_scheme uc' = Some Spec \<and> uc_replay uc' = snd (rw_accept (uc_replay uc) (su_packet_id s + 1))" by blast
  from request_turn [OF assms(1,2,4-8), of salt] obtain p' where p':
    "ss_udp_send cr now salt s' target data = (Inr p', s'\<lparr>su_packet_id := su_packet_id s' + 1\<rparr>)"
    "\<And>fresh S source uc S1. udp_session (fst fresh) S source = (uc, S1) \<Longrightarrow> uc_scheme uc \<noteq> Some EngineClient \<Longrightarrow>
      \<exists>uc'. udp_datagram cr now' fresh cf S source p' =
         (if fst (rw_accept (uc_replay uc) (su_packet_id s' + 1)) then Some (target, data) else None, hm_insert source uc' S1)" by blast
  let ?new = "udp_crypto_new (fst fresh)"
  have new: "udp_session (fst fresh) S x = (?new, hm_insert x ?new S)" if "hm_get S x = None" for S x
    using that by (simp add: udp_session_def Let_def)
  have first: "fst (rw_accept (uc_replay ?new) q)" "uc_scheme ?new \<noteq> Some EngineClient" for q
    by (simp_all add: udp_crypto_new_def rw_new_def rw_accept_def)
  obtain uc1 where t1: "udp_datagram cr now' fresh cf S a p = (Some (target, data), hm_insert a uc1 (hm_insert a ?new S))"
    "uc_scheme uc1 = Some Spec" "uc_replay uc1 = snd (rw_accept (uc_replay ?new) (su_packet_id s + 1))"
    using p(2) [OF new [OF assms(9)] first(2)] first(1) by auto
  let ?S1 = "hm_insert a uc1 (hm_insert a ?new S)"
  have "hm_get ?S1 b = None" using assms(10,11) by simp
  from p(2) [OF new [OF this] first(2)] first(1) obtain uc2 where t2:
    "udp_datagram cr now' fresh cf ?S1 b p = (Some (target, data), hm_insert b uc2 (hm_insert b ?new ?S1))" by auto
  let ?S2 = "hm_insert b uc2 (hm_insert b ?new ?S1)"
  have "udp_session (fst fresh) ?S2 a = (uc1, ?S2)" using assms(11) by (simp add: udp_session_def)
  moreover have "uc_scheme uc1 \<noteq> Some EngineClient" using t1(2) by simp
  moreover have "\<not> fst (rw_accept (uc_replay uc1) (su_packet_id s' + 1))"
    using t1(3) assms(13) by (simp add: udp_crypto_new_def rw_new_def rw_accept_def)
  ultimately obtain S3 where "udp_datagram cr now' fresh cf ?S2 a p' = (None, S3)" using p'(2) by fastforce
  then have "udp_run cr cf S [Incoming now' fresh a p, Incoming now' fresh b p, Incoming now' fresh a p'] = [Some (target, data), Some (target, data), None]"
    using t1(1) t2 by simp
  then show ?thesis using p(1) p'(1) by blast
qed

theorem udp_window_per_source_witness:
  "\<exists>p p'. udp_run plain_crypto sample_conf hm_empty
      [Incoming 1010 (3, 4, 5) (V4 1, 9) p, Incoming 1010 (3, 4, 5) (V4 2, 9) p, Incoming 1010 (3, 4, 5) (V4 1, 9) p'] =
    [Some (dns_target, [1, 2]), Some (dns_target, [1, 2]), None]"
proof -
  let ?s = "sample_udp\<lparr>su_packet_id := 5000\<rparr>" and ?s' = "sample_udp\<lparr>su_session_id := 43\<rparr>"
  have peers: "udp_peers plain_crypto ?s sample_conf" "udp_peers plain_crypto ?s' sample_conf"
    using sample_udp_facts(1) [of plain_crypto] by (simp_all add: udp_peers_def)
  have "\<exists>p s1 p' s1'. ss_udp_send plain_crypto 1000 [] ?s dns_target [1, 2] = (Inr p, s1) \<and> ss_udp_send plain_crypto 1000 [] ?s' dns_target [1, 2] = (Inr p', s1') \<and>
    udp_run plain_crypto sample_conf hm_empty
      [Incoming 1010 (3, 4, 5) (V4 1, 9) p, Incoming 1010 (3, 4, 5) (V4 2, 9) p, Incoming 1010 (3, 4, 5) (V4 1, 9) p'] =
    [Some (dns_target, [1, 2]), Some (dns_target, [1, 2]), None]"
    by (rule udp_window_per_source [OF plain_crypto_lawful peers sample_udp_facts(2,4) _ sample_udp_facts(5)])
      (simp_all add: sample_udp_def rw_floor_def saturating_sub_def UDP_REPLAY_WINDOW_def)
  then show ?thesis by blast
qed

text \<open>The identity a multi-user datagram shows.\<close>

definition shown_token :: "'a crypto_scheme \<Rightarrow> block_cipher \<Rightarrow> bytes \<Rightarrow> bytes" where
  "shown_token cr block d = open_eih_udp cr block (block_decrypt cr block (take 16 d)) (take 16 (drop 16 d))"

text \<open>A datagram of a user other than the session's: the session starts afresh before the body is opened.\<close>

lemma multi_switched:
  assumes "cf_block cf = Some block" and "hm_get (us_by_eih us) (shown_token cr block d) = Some i" and "uc_user uc \<noteq> Some i" and "48 \<le> length d"
  shows "fst (open_2022_multi cr now f1 f2 cf us uc d) =
      (let sep = block_decrypt cr block (take 16 d) in
       case aead_new (ss_kind (cf_method cf)) (ss2022_subkey cr (usr_key (us_list us ! i)) (take 8 sep) (ss_key_len (cf_method cf))) of
         Inl e \<Rightarrow> Inl e
       | Inr c \<Rightarrow> (case aead_open cr c (take 12 (drop 4 sep)) [] (drop 32 d) of
           Inl e \<Rightarrow> Inl (Protocol ''ss2022 udp: packet does not authenticate'') | Inr plain \<Rightarrow> parse_2022_body now plain)) \<and>
    uc_user (snd (open_2022_multi cr now f1 f2 cf us uc d)) = Some i"
  using assms
  by (simp add: open_2022_multi_def shown_token_def TAG_def Let_def admit_2022_def udp_crypto_new_def rw_new_def rw_accept_def split: sum.split)

lemma multi_turn:
  assumes "udp_session (fst fresh) S a = (uc, S1)" and "cf_users cf = Some us" and "is_2022 (cf_method cf)"
  shows "udp_datagram cr now fresh cf S a d =
    (result_ok (fst (open_2022_multi cr now (fst (snd fresh)) (snd (snd fresh)) cf us uc d)),
     hm_insert a (snd (open_2022_multi cr now (fst (snd fresh)) (snd (snd fresh)) cf us uc d)) S1)"
  using assms by (cases "open_2022_multi cr now (fst (snd fresh)) (snd (snd fresh)) cf us uc d") (simp add: udp_datagram_def open_2022_def)

text \<open>
  C40: on a multi-user listener an unauthentic datagram reopens the window. After a delivered datagram of one user, a datagram from
  the same address that shows another user's identity, its body opening under no key, resets the session; the first datagram, replayed,
  is then delivered again.
\<close>

theorem udp_user_switch_resets_window:
  assumes "cf_users cf = Some us" and "is_2022 (cf_method cf)" and "cf_block cf = Some block"
    and "hm_get (us_by_eih us) (shown_token cr block d) = Some i" and "hm_get (us_by_eih us) (shown_token cr block f) = Some j" and "i \<noteq> j"
    and "48 \<le> length d" and "48 \<le> length f" and "hm_get S a = None"
    and "fst (udp_datagram cr now fresh cf S a d) = Some x"
    and "aead_new (ss_kind (cf_method cf)) (ss2022_subkey cr (usr_key (us_list us ! j)) (take 8 (block_decrypt cr block (take 16 f))) (ss_key_len (cf_method cf))) = Inr c"
    and "aead_open cr c (take 12 (drop 4 (block_decrypt cr block (take 16 f)))) [] (drop 32 f) = Inl e"
  shows "udp_run cr cf S [Incoming now fresh a d, Incoming now fresh a f, Incoming now fresh a d] = [Some x, None, Some x]"
proof -
  note turn = multi_turn [OF _ assms(1,2)]
  let ?open = "open_2022_multi cr now (fst (snd fresh)) (snd (snd fresh)) cf us"
  let ?uc0 = "udp_crypto_new (fst fresh)"
  let ?uc1 = "snd (?open ?uc0 d)" let ?uc2 = "snd (?open ?uc1 f)"
  let ?S0 = "hm_insert a ?uc0 S" let ?S1 = "hm_insert a ?uc1 ?S0" let ?S2 = "hm_insert a ?uc2 ?S1"
  have user0: "uc_user ?uc0 \<noteq> Some i" by (simp add: udp_crypto_new_def)
  note d0 = multi_switched [OF assms(3,4) user0 assms(7), of now "fst (snd fresh)" "snd (snd fresh)"]
  then have user1: "uc_user ?uc1 \<noteq> Some j" using assms(6) by simp
  note f1 = multi_switched [OF assms(3,5) user1 assms(8), of now "fst (snd fresh)" "snd (snd fresh)"]
  then have user2: "uc_user ?uc2 \<noteq> Some i" using assms(6) by simp
  note d2 = multi_switched [OF assms(3,4) user2 assms(7), of now "fst (snd fresh)" "snd (snd fresh)"]
  have s0: "udp_session (fst fresh) S a = (?uc0, ?S0)" using assms(9) by (simp add: udp_session_def Let_def)
  have s1: "udp_session (fst fresh) ?S1 a = (?uc1, ?S1)" "udp_session (fst fresh) ?S2 a = (?uc2, ?S2)" by (simp_all add: udp_session_def)
  have "result_ok (fst (?open ?uc0 d)) = Some x" using assms(10) turn [OF s0, of cr now d] by simp
  moreover have "fst (?open ?uc2 d) = fst (?open ?uc0 d)" using d0 d2 by simp
  moreover have "result_ok (fst (?open ?uc1 f)) = None" using f1 assms(11,12) by (simp add: Let_def result_ok_def)
  ultimately show ?thesis using turn [OF s0, of cr now d] turn [OF s1(1), of cr now f] turn [OF s1(2), of cr now d] by simp
qed

definition sample_users :: users where
  "sample_users =
    \<lparr>us_list = [\<lparr>usr_name = ''alice'', usr_key = replicate 16 1, usr_block = BlockAes128 (replicate 16 1)\<rparr>,
                \<lparr>usr_name = ''bob'', usr_key = replicate 16 2, usr_block = BlockAes128 (replicate 16 2)\<rparr>],
     us_by_eih = [(replicate 16 1, 0), (replicate 16 2, 1)]\<rparr>"

text \<open>A datagram with an all-zero header, the identity \<open>token\<close> and the body \<open>body\<close>, as the stand-in cipher seals it.\<close>

definition sample_datagram :: "bytes \<Rightarrow> bytes \<Rightarrow> bytes \<Rightarrow> bytes" where
  "sample_datagram token body tag = replicate 16 0 @ token @ body @ tag"

theorem udp_user_switch_resets_window_witness:
  "udp_run plain_crypto (sample_conf\<lparr>cf_users := Some sample_users\<rparr>) hm_empty
     [Incoming 0 (3, 4, 5) (V4 1, 9) (sample_datagram (replicate 16 1) (replicate 11 0 @ enc_socks dns_target @ [7]) (replicate 16 0)),
      Incoming 0 (3, 4, 5) (V4 1, 9) (sample_datagram (replicate 16 2) [] (replicate 16 9)),
      Incoming 0 (3, 4, 5) (V4 1, 9) (sample_datagram (replicate 16 1) (replicate 11 0 @ enc_socks dns_target @ [7]) (replicate 16 0))] =
   [Some (dns_target, [7]), None, Some (dns_target, [7])]"
proof -
  let ?cf = "sample_conf\<lparr>cf_users := Some sample_users\<rparr>" and ?block = "BlockAes128 (replicate 16 7)"
  let ?body = "replicate 11 0 @ enc_socks dns_target @ [7]"
  let ?d = "sample_datagram (replicate 16 1) ?body (replicate 16 0)" and ?f = "sample_datagram (replicate 16 2) [] (replicate 16 9)"
  have aes: "block_decrypt plain_crypto ?block b = b" for b by (simp add: block_decrypt_def plain_crypto_def)
  have parts: "take 16 ?d = replicate 16 0" "take 16 (drop 16 ?d) = replicate 16 1" "drop 32 ?d = ?body @ replicate 16 0"
    "take 16 ?f = replicate 16 0" "take 16 (drop 16 ?f) = replicate 16 2" "drop 32 ?f = replicate 16 9" "48 \<le> length ?d" "48 \<le> length ?f"
    by (simp_all add: sample_datagram_def)
  have tokens: "shown_token plain_crypto ?block ?d = replicate 16 1" "shown_token plain_crypto ?block ?f = replicate 16 2"
    unfolding shown_token_def open_eih_udp_def aes parts by simp_all
  have found: "hm_get (us_by_eih sample_users) (replicate 16 1) = Some 0" "hm_get (us_by_eih sample_users) (replicate 16 2) = Some 1"
    by (simp_all add: sample_users_def hm_get_def)
  have conf: "cf_users ?cf = Some sample_users" "is_2022 (cf_method ?cf)" "cf_block ?cf = Some ?block"
    "ss_key_len (cf_method sample_conf) = 16" "ss_kind (cf_method sample_conf) = Aes128Gcm"
    by (simp_all add: sample_conf_def is_2022_def ss_key_len_def ss_kind_def key_len_def)
  have keyed: "aead_new Aes128Gcm (ss2022_subkey plain_crypto k salt 16) = Inr (CipherAes128 (ss2022_subkey plain_crypto k salt 16))" for k salt
    by (simp add: aead_new_def key_len_def)
  have opens: "aead_open plain_crypto c n a (replicate 11 0 @ enc_socks dns_target @ 7 # replicate 16 0) = Inr ?body" "aead_open plain_crypto c n a (replicate 16 9) =
      Inl (Crypto ''aead open failed (wrong key, corrupted stream, or replayed salt'')" for c n a
    by (simp_all add: aead_open_def plain_crypto_def ok_or_def)
  have "?body ! 0 = 0" "take 8 (drop 1 ?body) = be_bytes 8 (0 :: u64)" "u16_from (?body ! 9) (?body ! 10) = 0" "drop (11 + 0) ?body = enc_socks dns_target @ [7]"
    by (simp_all add: nth_append u16_from_def be_word_def) (simp_all add: numeral_eq_Suc)
  then have parsed: "parse_2022_body 0 ?body = Inr (dns_target, [7])"
    using split_addressed [OF sample_udp_facts(4), of "[7]"]
    by (simp only: parse_2022_body_def Let_def) (simp add: be_word_be_bytes abs_diff_def)
  have "fst (open_2022_multi plain_crypto 0 4 5 ?cf sample_users (udp_crypto_new 3) ?d) = Inr (dns_target, [7])"
    using multi_switched [OF conf(3), of sample_users plain_crypto ?d 0 "udp_crypto_new 3" 0 4 5] tokens(1) found(1) parts(7)
    by (simp add: udp_crypto_new_def conf aes parts keyed opens parsed Let_def)
  moreover have "udp_session (fst (3 :: u64, 4 :: u64, 5 :: u64)) hm_empty (V4 1, 9) = (udp_crypto_new 3, hm_insert (V4 1, 9) (udp_crypto_new 3) hm_empty)"
    by (simp add: udp_session_def Let_def)
  ultimately have first: "fst (udp_datagram plain_crypto 0 (3, 4, 5) ?cf hm_empty (V4 1, 9) ?d) = Some (dns_target, [7])"
    using multi_turn [OF _ conf(1,2), of "(3, 4, 5)" hm_empty "(V4 1, 9)" "udp_crypto_new 3" _ plain_crypto 0 ?d] by (simp add: result_ok_def)
  show ?thesis
    by (rule udp_user_switch_resets_window [OF conf(1-3) _ _ _ parts(7,8) _ first, where i = 0 and j = 1 and
          c = "CipherAes128 (ss2022_subkey plain_crypto (usr_key (us_list sample_users ! 1)) (replicate 8 0) 16)" and
          e = "Crypto ''aead open failed (wrong key, corrupted stream, or replayed salt''"])
      (simp_all only: tokens found aes parts, simp_all add: conf keyed opens)
qed

end
