(* ===== verification/Vmess.thy ===== *)
theory Vmess
  imports Unit_Stream Aead Addr
begin

text \<open>
  The VMess client (src/engine/src/proto/vmess.rs, src/engine/src/proto/fnv1a.rs): the key derivation, the sealed request
  header, and the framed stream, whose reader and writer meet the contracts of Unit\_Stream. The clock and the random bytes are
  arguments; the digests this protocol adds to those of Aead are fields of \<open>vmess_crypto\<close>.
\<close>

record vmess_crypto = crypto +
  vc_sha256 :: "bytes \<Rightarrow> 256 word"
  vc_hmac_sha256 :: "bytes \<Rightarrow> bytes \<Rightarrow> 256 word"
  vc_crc32 :: "bytes \<Rightarrow> u32"

definition VM_TAG :: nat where "VM_TAG = 16"

section \<open>The header checksum\<close>

definition fnv1a32 :: "bytes \<Rightarrow> u32" where
  "fnv1a32 data = foldl (\<lambda>hash b. (hash XOR ucast b) * 0x01000193) 0x811c9dc5 data"

text \<open>The published vectors.\<close>

lemma fnv1a32_vectors:
  "fnv1a32 [] = 0x811c9dc5" "fnv1a32 [0x61] = 0xe40c292c" "fnv1a32 [0x66, 0x6f, 0x6f, 0x62, 0x61, 0x72] = 0xbf9cf968"
  by (simp_all add: fnv1a32_def)

section \<open>Keys\<close>

datatype vmess_security = VsAes128Gcm | VsChacha20Poly1305 | VsNone

definition vmess_security_parse :: "string \<Rightarrow> vmess_security result" where
  "vmess_security_parse name =
    (if name = ''auto'' \<or> name = ''aes-128-gcm'' then Inr VsAes128Gcm
     else if name = ''chacha20-poly1305'' \<or> name = ''zero'' then Inr VsChacha20Poly1305
     else if name = ''none'' then Inr VsNone
     else Inl (Config ''unsupported vmess security''))"

definition security_wire :: "vmess_security \<Rightarrow> u8" where
  "security_wire s = (case s of VsAes128Gcm \<Rightarrow> 0x03 | VsChacha20Poly1305 \<Rightarrow> 0x04 | VsNone \<Rightarrow> 0x05)"

record vmess_out =
  vmo_server :: string
  vmo_port :: u16
  vmo_uuid :: u128
  vmo_security :: vmess_security

definition cmd_key :: "'a vmess_crypto_scheme \<Rightarrow> u128 \<Rightarrow> bytes" where
  "cmd_key cr uuid = u128_be (cr_md5 cr (u128_be uuid @ as_bytes ''c48619fe-8f02-49e0-b9e9-edf763e17e21''))"

definition vm_hmac_sha256 :: "'a vmess_crypto_scheme \<Rightarrow> bytes \<Rightarrow> bytes \<Rightarrow> bytes" where
  "vm_hmac_sha256 cr key msg = be_bytes 32 (vc_hmac_sha256 cr key msg)"

text \<open>HMAC over a 32-byte hash function, with the block size of SHA-256.\<close>

definition hmac_with_hash :: "(bytes \<Rightarrow> bytes) \<Rightarrow> bytes \<Rightarrow> bytes \<Rightarrow> bytes" where
  "hmac_with_hash hash key msg =
    (let k = (if 64 < length key then hash key @ replicate 32 0 else key @ replicate (64 - length key) 0);
         ipad = map (\<lambda>b. 0x36 XOR b) k;
         opad = map (\<lambda>b. 0x5c XOR b) k in
     hash (opad @ hash (ipad @ msg)))"

function kdf_level :: "'a vmess_crypto_scheme \<Rightarrow> bytes list \<Rightarrow> bytes \<Rightarrow> bytes" where
  "kdf_level cr chain =
    (if length chain \<le> 1 then vm_hmac_sha256 cr (hd chain)
     else hmac_with_hash (kdf_level cr (butlast chain)) (last chain))"
  by pat_completeness auto
termination
  by (relation "measure (\<lambda>(_, chain). length chain)") auto

declare kdf_level.simps [simp del]

definition vmess_kdf :: "'a vmess_crypto_scheme \<Rightarrow> bytes \<Rightarrow> bytes list \<Rightarrow> bytes" where
  "vmess_kdf cr key paths = kdf_level cr (as_bytes ''VMess AEAD KDF'' # paths) key"

lemma length_kdf_level: "length (kdf_level cr chain msg) = 32"
proof (induction cr chain arbitrary: msg rule: kdf_level.induct)
  case (1 cr chain)
  then show ?case by (subst kdf_level.simps) (simp add: vm_hmac_sha256_def hmac_with_hash_def Let_def)
qed

lemma length_vmess_kdf [simp]: "length (vmess_kdf cr key paths) = 32"
  by (simp add: vmess_kdf_def length_kdf_level)

definition KDF_AUTH_ID_ENC_KEY :: bytes where "KDF_AUTH_ID_ENC_KEY = as_bytes ''AES Auth ID Encryption''"
definition KDF_HEADER_PAYLOAD_KEY :: bytes where "KDF_HEADER_PAYLOAD_KEY = as_bytes ''VMess Header AEAD Key''"
definition KDF_HEADER_PAYLOAD_NONCE :: bytes where "KDF_HEADER_PAYLOAD_NONCE = as_bytes ''VMess Header AEAD Nonce''"
definition KDF_HEADER_LEN_KEY :: bytes where "KDF_HEADER_LEN_KEY = as_bytes ''VMess Header AEAD Key_Length''"
definition KDF_HEADER_LEN_NONCE :: bytes where "KDF_HEADER_LEN_NONCE = as_bytes ''VMess Header AEAD Nonce_Length''"
definition KDF_RESP_LEN_KEY :: bytes where "KDF_RESP_LEN_KEY = as_bytes ''AEAD Resp Header Len Key''"
definition KDF_RESP_LEN_IV :: bytes where "KDF_RESP_LEN_IV = as_bytes ''AEAD Resp Header Len IV''"
definition KDF_RESP_PAYLOAD_KEY :: bytes where "KDF_RESP_PAYLOAD_KEY = as_bytes ''AEAD Resp Header Key''"
definition KDF_RESP_PAYLOAD_IV :: bytes where "KDF_RESP_PAYLOAD_IV = as_bytes ''AEAD Resp Header IV''"

section \<open>Chunk nonces\<close>

record chunk_nonce =
  cn_base_iv :: bytes
  cn_count :: u16

definition chunk_nonce_new :: "bytes \<Rightarrow> chunk_nonce" where
  "chunk_nonce_new iv = \<lparr>cn_base_iv = iv, cn_count = 0\<rparr>"

definition chunk_nonce_advance :: "chunk_nonce \<Rightarrow> bytes \<times> chunk_nonce" where
  "chunk_nonce_advance n = (u16_be (cn_count n) @ take 10 (drop 2 (cn_base_iv n)), n\<lparr>cn_count := cn_count n + 1\<rparr>)"

section \<open>The request header\<close>

definition create_auth_id :: "'a vmess_crypto_scheme \<Rightarrow> bytes \<Rightarrow> u64 \<Rightarrow> bytes \<Rightarrow> bytes" where
  "create_auth_id cr key ts rand4 =
    (let body = be_bytes 8 ts @ rand4 in
     cr_aes_encrypt cr (take 16 (vmess_kdf cr key [KDF_AUTH_ID_ENC_KEY])) (body @ u32_be (vc_crc32 cr body)))"

text \<open>\<open>seal_aead_header\<close>: \<open>rand4\<close> and \<open>nonce\<close> are the random bytes, \<open>ts\<close> the clock.\<close>

definition seal_aead_header :: "'a vmess_crypto_scheme \<Rightarrow> u64 \<Rightarrow> bytes \<Rightarrow> bytes \<Rightarrow> bytes \<Rightarrow> bytes \<Rightarrow> bytes result" where
  "seal_aead_header cr ts rand4 nonce key header =
    (let auth_id = create_auth_id cr key ts rand4 in
     rbind (aead_new Aes128Gcm (take 16 (vmess_kdf cr key [KDF_HEADER_LEN_KEY, auth_id, nonce]))) (\<lambda>aead.
     let nonce_len = take 12 (vmess_kdf cr key [KDF_HEADER_LEN_NONCE, auth_id, nonce]) in
     if 65535 < length header then Inl (Io ''vmess header too large'')
     else
       rbind (aead_seal cr aead nonce_len auth_id (u16_be (word_of_nat (length header))) []) (\<lambda>len_ct.
       let out = auth_id @ len_ct @ nonce in
       rbind (aead_new Aes128Gcm (take 16 (vmess_kdf cr key [KDF_HEADER_PAYLOAD_KEY, auth_id, nonce]))) (\<lambda>header_aead.
       let header_nonce = take 12 (vmess_kdf cr key [KDF_HEADER_PAYLOAD_NONCE, auth_id, nonce]) in
       aead_seal cr header_aead header_nonce auth_id header out))))"

section \<open>Body chunks\<close>

record body_codec =
  bc_kind :: "aead option"
  bc_nonce :: chunk_nonce

definition chacha_key :: "'a vmess_crypto_scheme \<Rightarrow> bytes \<Rightarrow> bytes" where
  "chacha_key cr key = (let h = u128_be (cr_md5 cr key) in h @ u128_be (cr_md5 cr h))"

definition body_codec_new :: "'a vmess_crypto_scheme \<Rightarrow> vmess_security \<Rightarrow> bytes \<Rightarrow> bytes \<Rightarrow> body_codec result" where
  "body_codec_new cr security key iv =
    rbind (case security of
             VsAes128Gcm \<Rightarrow> rbind (aead_new Aes128Gcm key) (\<lambda>a. Inr (Some a))
           | VsChacha20Poly1305 \<Rightarrow> rbind (aead_new Chacha20Poly1305 (chacha_key cr key)) (\<lambda>a. Inr (Some a))
           | VsNone \<Rightarrow> Inr None)
      (\<lambda>kind. Inr \<lparr>bc_kind = kind, bc_nonce = chunk_nonce_new iv\<rparr>)"

definition codec_seal_chunk :: "'a vmess_crypto_scheme \<Rightarrow> body_codec \<Rightarrow> bytes \<Rightarrow> bytes \<Rightarrow> bytes result \<times> body_codec" where
  "codec_seal_chunk cr c plain out =
    (case bc_kind c of
       None \<Rightarrow>
         if 65535 < length plain then (Inl (Protocol ''vmess chunk exceeds 65535 bytes''), c)
         else (Inr (out @ u16_be (word_of_nat (length plain)) @ plain), c)
     | Some aead \<Rightarrow>
         let frame_len = length plain + 16 in
         if 65535 < frame_len then (Inl (Protocol ''vmess chunk exceeds 65535 bytes''), c)
         else
           let (n, nonce) = chunk_nonce_advance (bc_nonce c) in
           (aead_seal cr aead n [] plain (out @ u16_be (word_of_nat frame_len)), c\<lparr>bc_nonce := nonce\<rparr>))"

section \<open>The stream\<close>

datatype resp_state = HeaderLen | HeaderPayload u16 | BodyLen | BodyPayload u16

record vmess_stream = unit_io +
  vm_enc :: body_codec
  vm_dec :: body_codec
  vm_resp_key :: bytes
  vm_resp_iv :: bytes
  vm_expected :: u8
  vm_pending_plain :: nat
  vm_state :: resp_state

text \<open>The random bytes a handshake draws: key, IV, response byte, padding, the four of the auth id, the header nonce.\<close>

record vmess_random =
  vr_key :: bytes
  vr_iv :: bytes
  vr_header :: u8
  vr_padding :: u8
  vr_rand4 :: bytes
  vr_nonce :: bytes

definition vmess_random_ok :: "vmess_random \<Rightarrow> bool" where
  "vmess_random_ok r \<longleftrightarrow> length (vr_key r) = 16 \<and> length (vr_iv r) = 16 \<and> length (vr_rand4 r) = 4 \<and> length (vr_nonce r) = 8"

definition sha256_16 :: "'a vmess_crypto_scheme \<Rightarrow> bytes \<Rightarrow> bytes" where
  "sha256_16 cr bs = take 16 (be_bytes 32 (vc_sha256 cr bs))"

definition vmess_instruction :: "vmess_random \<Rightarrow> vmess_security \<Rightarrow> net_addr \<Rightarrow> bool \<Rightarrow> bytes" where
  "vmess_instruction r security target is_udp =
    (let padding_len = unat (vr_padding r) mod 16;
         hdr = [0x01] @ vr_iv r @ vr_key r @ [vr_header r] @ [0x01] @
           [push_bit 4 (word_of_nat padding_len) OR security_wire security] @ [0] @ [if is_udp then 0x02 else 0x01];
         hdr = encode_port_first_addr hdr (na_host target) (na_port target);
         hdr = hdr @ replicate padding_len 0 in
     hdr @ u32_be (fnv1a32 hdr))"

definition vmess_handshake :: "'a vmess_crypto_scheme \<Rightarrow> u64 \<Rightarrow> vmess_random \<Rightarrow> vmess_out \<Rightarrow> net_addr \<Rightarrow> bool \<Rightarrow> vmess_stream t_op" where
  "vmess_handshake cr now r cfg target is_udp =
    (let key = cmd_key cr (vmo_uuid cfg);
         resp_key = sha256_16 cr (vr_key r);
         resp_iv = sha256_16 cr (vr_iv r);
         hdr = vmess_instruction r (vmo_security cfg) target is_udp in
     t_bind (t_lift (seal_aead_header cr now (vr_rand4 r) (vr_nonce r) key hdr)) (\<lambda>wire.
     t_bind (t_write_all wire) (\<lambda>_.
     t_bind (t_lift (body_codec_new cr (vmo_security cfg) (vr_key r) (vr_iv r))) (\<lambda>enc.
     t_bind (t_lift (body_codec_new cr (vmo_security cfg) resp_key resp_iv)) (\<lambda>dec t.
       (Inr \<lparr>ui_inner = t, ui_rbuf = [], ui_plain = [], ui_wbuf = [], vm_enc = enc, vm_dec = dec,
             vm_resp_key = resp_key, vm_resp_iv = resp_iv, vm_expected = vr_header r,
             vm_pending_plain = 0, vm_state = HeaderLen\<rparr>, t))))))"

definition vm_need :: "vmess_stream \<Rightarrow> nat" where
  "vm_need s =
    (case vm_state s of
       HeaderLen \<Rightarrow> 18
     | HeaderPayload l \<Rightarrow> unat l + VM_TAG
     | BodyLen \<Rightarrow> 2
     | BodyPayload l \<Rightarrow> unat l)"

text \<open>A sealed block of the response header, under the key and the nonce its two KDF paths give.\<close>

definition resp_open :: "'a vmess_crypto_scheme \<Rightarrow> vmess_stream \<Rightarrow> bytes \<Rightarrow> bytes \<Rightarrow> string \<Rightarrow> bytes \<Rightarrow> bytes result" where
  "resp_open cr s key_path iv_path msg ct =
    rbind (aead_new Aes128Gcm (take 16 (vmess_kdf cr (vm_resp_key s) [key_path]))) (\<lambda>aead.
    let nonce = take 12 (vmess_kdf cr (vm_resp_iv s) [iv_path]) in
    (case aead_open cr aead nonce [] ct of Inl e \<Rightarrow> Inl (Protocol msg) | Inr pt \<Rightarrow> Inr pt))"

definition vm_advance :: "'a vmess_crypto_scheme \<Rightarrow> vmess_stream \<Rightarrow> unit result \<times> vmess_stream" where
  "vm_advance cr s =
    (case vm_state s of
       HeaderLen \<Rightarrow>
         (case resp_open cr s KDF_RESP_LEN_KEY KDF_RESP_LEN_IV ''vmess resp len'' (take 18 (ui_rbuf s)) of
            Inl e \<Rightarrow> (Inl e, s)
          | Inr pt \<Rightarrow> (Inr (), s\<lparr>ui_rbuf := drop 18 (ui_rbuf s), vm_state := HeaderPayload (u16_from (pt ! 0) (pt ! 1))\<rparr>))
     | HeaderPayload len \<Rightarrow>
         let n = unat len + VM_TAG in
         (case resp_open cr s KDF_RESP_PAYLOAD_KEY KDF_RESP_PAYLOAD_IV ''vmess resp header'' (take n (ui_rbuf s)) of
            Inl e \<Rightarrow> (Inl e, s)
          | Inr pt \<Rightarrow>
              let s = s\<lparr>ui_rbuf := drop n (ui_rbuf s)\<rparr> in
              if slice_get pt 0 \<noteq> Some (vm_expected s) then (Inl (Protocol ''vmess response header mismatch''), s)
              else if 4 \<le> length pt \<and> pt ! 2 \<noteq> 0 \<and> length pt < 4 + unat (pt ! 3)
                then (Inl (Protocol ''vmess response command truncated''), s)
              else (Inr (), s\<lparr>vm_state := BodyLen\<rparr>))
     | BodyLen \<Rightarrow>
         (Inr (), s\<lparr>ui_rbuf := drop 2 (ui_rbuf s), vm_state := BodyPayload (u16_from (ui_rbuf s ! 0) (ui_rbuf s ! 1))\<rparr>)
     | BodyPayload len \<Rightarrow>
         let n = unat len in
         if n = 0 then (Inr (), s\<lparr>vm_state := BodyLen\<rparr>)
         else
           (case bc_kind (vm_dec s) of
              None \<Rightarrow>
                (Inr (), s\<lparr>ui_rbuf := drop n (ui_rbuf s), ui_plain := ui_plain s @ take n (ui_rbuf s), vm_state := BodyLen\<rparr>)
            | Some aead \<Rightarrow>
                if n < VM_TAG then (Inl (Protocol ''vmess body chunk shorter than a tag''), s)
                else
                  let (nonce, next) = chunk_nonce_advance (bc_nonce (vm_dec s)); s = s\<lparr>vm_dec := (vm_dec s)\<lparr>bc_nonce := next\<rparr>\<rparr> in
                  (case aead_open cr aead nonce [] (take n (ui_rbuf s)) of
                     Inl e \<Rightarrow> (Inl (Protocol ''vmess body''), s)
                   | Inr pt \<Rightarrow>
                       (Inr (), s\<lparr>ui_rbuf := drop n (ui_rbuf s), ui_plain := ui_plain s @ pt, vm_state := BodyLen\<rparr>))))"

text \<open>A unit is empty only when the chunk is; the unit after it is a length.\<close>

lemma vm_advance_unit:
  "vm_advance cr s = (Inr u, s') \<Longrightarrow>
   ui_inner s' = ui_inner s \<and> ui_rbuf s' = drop (vm_need s) (ui_rbuf s) \<and> (vm_need s = 0 \<longrightarrow> 0 < vm_need s')"
  by (auto simp: vm_advance_def vm_need_def VM_TAG_def Let_def chunk_nonce_advance_def
      split: resp_state.splits sum.splits option.splits if_splits prod.splits)

function vm_poll_read :: "'a vmess_crypto_scheme \<Rightarrow> nat \<Rightarrow> vmess_stream \<Rightarrow> bytes poll \<times> vmess_stream" where
  "vm_poll_read cr room s =
    (if ui_plain s \<noteq> [] then
       (let n = min (length (ui_plain s)) room in
        (Ready (Inr (take n (ui_plain s))), s\<lparr>ui_plain := drop n (ui_plain s)\<rparr>))
     else if vm_need s \<le> length (ui_rbuf s) then
       (case vm_advance cr s of (Inl e, s) \<Rightarrow> (Ready (Inl e), s) | (Inr _, s) \<Rightarrow> vm_poll_read cr room s)
     else
       (case poll_read (ui_inner s) READ_CHUNK of
          (Pending, t) \<Rightarrow> (Pending, s\<lparr>ui_inner := t\<rparr>)
        | (Ready (Inl e), t) \<Rightarrow> (Ready (Inl e), s\<lparr>ui_inner := t\<rparr>)
        | (Ready (Inr bs), t) \<Rightarrow>
            if bs = [] then
              (if ui_rbuf s = [] then Ready (Inr []) else Ready (Inl truncated), s\<lparr>ui_inner := t\<rparr>)
            else vm_poll_read cr room (s\<lparr>ui_inner := t, ui_rbuf := ui_rbuf s @ bs\<rparr>)))"
  by pat_completeness auto
termination
proof (relation "inv_image (unit_order vm_need) (\<lambda>(_, _, s). s)", goal_cases)
  case 1
  then show ?case by (rule wf_inv_image [OF wf_unit_order])
next
  case (2 cr room s _ s' _)
  then have "ui_inner s' = ui_inner s" "ui_rbuf s' = drop (vm_need s) (ui_rbuf s)" "vm_need s \<le> length (ui_rbuf s)"
    "vm_need s = 0 \<longrightarrow> 0 < vm_need s'" using vm_advance_unit by (metis (full_types))+
  then show ?case by (auto simp: unit_order_def unit_weight_def)
next
  case (3 cr room s _ t _ bs)
  then show ?case using unit_weight_fill [of s READ_CHUNK bs t] by (simp add: unit_order_def)
qed

declare vm_poll_read.simps [simp del]

definition vm_seal :: "'a vmess_crypto_scheme \<Rightarrow> vmess_stream \<Rightarrow> bytes \<Rightarrow> unit result \<times> vmess_stream" where
  "vm_seal cr s buf =
    (let n = min (length buf) 8192 in
     (case codec_seal_chunk cr (vm_enc s) (take n buf) [] of
        (Inl e, enc) \<Rightarrow> (Inl e, s\<lparr>vm_enc := enc\<rparr>)
      | (Inr out, enc) \<Rightarrow> (Inr (), s\<lparr>vm_enc := enc, ui_wbuf := out, vm_pending_plain := n\<rparr>)))"

definition vm_zero_bytes :: string where "vm_zero_bytes = ''vmess: transport accepted zero bytes''"

definition vm_poll_write :: "'a vmess_crypto_scheme \<Rightarrow> vmess_stream \<Rightarrow> bytes \<Rightarrow> nat poll \<times> vmess_stream" where
  "vm_poll_write cr s buf =
    (if buf = [] then (Ready (Inr 0), s)
     else case (if ui_wbuf s = [] then vm_seal cr s buf else (Inr (), s)) of
       (Inl e, s) \<Rightarrow> (Ready (Inl e), s)
     | (Inr _, s) \<Rightarrow>
         (case wbuf_loop vm_zero_bytes (ui_inner s) (ui_wbuf s) of
            (Pending, t, w) \<Rightarrow> (Pending, s\<lparr>ui_inner := t, ui_wbuf := w\<rparr>)
          | (Ready (Inl e), t, w) \<Rightarrow> (Ready (Inl e), s\<lparr>ui_inner := t, ui_wbuf := w\<rparr>)
          | (Ready (Inr _), t, w) \<Rightarrow> (Ready (Inr (vm_pending_plain s)), s\<lparr>ui_inner := t, ui_wbuf := w\<rparr>)))"

section \<open>The contracts\<close>

lemma vm_advance_inner:
  "vm_advance cr (s\<lparr>ui_inner := i\<rparr>) = (case vm_advance cr s of (r, s') \<Rightarrow> (r, s'\<lparr>ui_inner := i\<rparr>))"
  by (cases "vm_state s")
    (simp_all add: vm_advance_def resp_open_def Let_def chunk_nonce_advance_def split: sum.split option.split)

lemma vm_advance_more:
  "vm_need s \<le> length (ui_rbuf s) \<Longrightarrow>
   vm_advance cr (s\<lparr>ui_rbuf := ui_rbuf s @ ys\<rparr>) = (case vm_advance cr s of (r, s') \<Rightarrow> (r, s'\<lparr>ui_rbuf := ui_rbuf s' @ ys\<rparr>))"
proof (cases "vm_state s")
  case BodyLen
  assume "vm_need s \<le> length (ui_rbuf s)"
  then have "ui_rbuf s \<noteq> []" "Suc 0 < length (ui_rbuf s)" using BodyLen by (auto simp: vm_need_def)
  then show ?thesis using BodyLen by (simp add: vm_advance_def nth_append)
qed (simp_all add: vm_advance_def vm_need_def resp_open_def Let_def chunk_nonce_advance_def split: sum.split option.split)

interpretation vm_reader: unit_reader "vm_poll_read cr" vm_need "vm_advance cr" "\<lambda>_. False" for cr :: "'a vmess_crypto_scheme"
proof (unfold_locales, goal_cases)
  case (1 room s)
  show ?case unfolding if_False by (rule vm_poll_read.simps)
next
  case (5 s u s')
  then show ?case using vm_advance_unit [OF 5(3)] by blast
next
  case (6 i s)
  show ?case by (rule vm_advance_inner)
next
  case (7 s ys)
  then show ?case by (rule vm_advance_more)
qed (simp_all add: vm_need_def split: resp_state.split)

interpretation vm_writer: unit_writer "vm_poll_write cr" "vm_seal cr" "\<lambda>s _. vm_pending_plain s" vm_zero_bytes
  for cr :: "'a vmess_crypto_scheme"
proof (unfold_locales, goal_cases)
  case (1 s buf)
  show ?case by (simp add: vm_poll_write_def)
qed (simp_all add: vm_seal_def Let_def split: prod.split sum.split)

section \<open>Packets\<close>

text \<open>Awaiting a read: a pending read is polled again.\<close>

function vm_await_read :: "'a vmess_crypto_scheme \<Rightarrow> nat \<Rightarrow> vmess_stream \<Rightarrow> bytes result \<times> vmess_stream" where
  "vm_await_read cr room s =
    (case vm_poll_read cr room s of
       (Pending, s) \<Rightarrow> vm_await_read cr room s
     | (Ready r, s) \<Rightarrow> (r, s))"
  by pat_completeness auto
termination
proof (relation "inv_image (piece_order vm_need) (\<lambda>(_, _, s). s)", goal_cases)
  case 1
  show ?case by (rule wf_inv_image [OF wf_piece_order])
next
  case (2 cr room s _ s')
  then show ?case using vm_reader.poll_progress [of cr room s Pending s'] by simp
qed

declare vm_await_read.simps [simp del]

lemma vm_await_progress:
  "vm_await_read cr room s = (Inr bs, s') \<Longrightarrow> bs \<noteq> [] \<Longrightarrow> (s', s) \<in> piece_order vm_need"
proof (induction cr room s rule: vm_await_read.induct)
  case (1 cr room s)
  obtain r s1 where p: "vm_poll_read cr room s = (r, s1)" by fastforce
  show ?case
  proof (cases r)
    case Pending
    then have "vm_await_read cr room s1 = (Inr bs, s')" using 1(2) p by (simp add: vm_await_read.simps [of cr room s])
    then show ?thesis
      using "1.IH" [OF p [symmetric] Pending] 1(3) vm_reader.poll_progress [OF p] Pending piece_order_trans by blast
  next
    case (Ready v)
    then have "v = Inr bs" "s1 = s'" using 1(2) p by (simp_all add: vm_await_read.simps [of cr room s])
    then show ?thesis using vm_reader.poll_progress [OF p] Ready 1(3) by simp
  qed
qed

text \<open>\<open>read_packet\<close>: reads a byte, then takes what is left of the decoded chunk.\<close>

function vm_read_packet :: "'a vmess_crypto_scheme \<Rightarrow> vmess_stream \<Rightarrow> bytes result \<times> vmess_stream" where
  "vm_read_packet cr s =
    (case vm_await_read cr 1 s of
       (Inl e, s) \<Rightarrow> (Inl (Network ''vmess packet read''), s)
     | (Inr first, s) \<Rightarrow>
         if first = [] then (Inl (Network ''vmess: eof mid-packet''), s)
         else if ui_plain s \<noteq> [] then (Inr (first @ ui_plain s), s\<lparr>ui_plain := []\<rparr>)
         else vm_read_packet cr s)"
  by pat_completeness auto
termination
proof (relation "inv_image (piece_order vm_need) snd", goal_cases)
  case 1
  show ?case by (rule wf_inv_image [OF wf_piece_order])
next
  case (2 cr s r s' first)
  then show ?case using vm_await_progress [of cr 1 s first s'] by simp
qed

declare vm_read_packet.simps [simp del]

text \<open>The UDP channel of src/engine/src/outbound.rs over the stream: one chunk per datagram, the address in front.\<close>

definition vmess_udp_frame :: "net_addr \<Rightarrow> bytes \<Rightarrow> bytes" where
  "vmess_udp_frame target data = encode_port_first_addr [] (na_host target) (na_port target) @ data"

definition vmess_udp_recv :: "'a vmess_crypto_scheme \<Rightarrow> vmess_stream \<Rightarrow> (net_addr \<times> bytes) result \<times> vmess_stream" where
  "vmess_udp_recv cr s =
    (case vm_read_packet cr s of
       (Inl e, s) \<Rightarrow> (Inl e, s)
     | (Inr packet, s) \<Rightarrow> (rbind (decode_port_first_addr packet) (\<lambda>(addr, used). Inr (addr, drop used packet)), s))"

end
