(* ===== verification/Keccak.thy ===== *)
theory Keccak
  imports Prelude
begin

text \<open>
  The Keccak permutation and the SHAKE128 stream that src/engine/src/inbound/proxy\_server/vmess.rs carries for the
  length masks of VMess, as loops over the 25 lanes updated in place. Beside them stands the permutation as FIPS 202
  defines it, step mappings over the lanes of a 5 by 5 sheet with offsets and constants computed from their
  generators, and the proof that the two agree.
\<close>

section \<open>The tables of the source\<close>

definition KECCAK_RC :: "u64 list" where
  "KECCAK_RC = [0x0000000000000001, 0x0000000000008082, 0x800000000000808a, 0x8000000080008000, 0x000000000000808b,
    0x0000000080000001, 0x8000000080008081, 0x8000000000008009, 0x000000000000008a, 0x0000000000000088,
    0x0000000080008009, 0x000000008000000a, 0x000000008000808b, 0x800000000000008b, 0x8000000000008089,
    0x8000000000008003, 0x8000000000008002, 0x8000000000000080, 0x000000000000800a, 0x800000008000000a,
    0x8000000080008081, 0x8000000000008080, 0x0000000080000001, 0x8000000080008008]"

definition KECCAK_ROTC :: "nat list" where
  "KECCAK_ROTC = [1, 3, 6, 10, 15, 21, 28, 36, 45, 55, 2, 14, 27, 41, 56, 8, 25, 43, 62, 18, 39, 61, 20, 44]"

definition KECCAK_PILN :: "nat list" where
  "KECCAK_PILN = [10, 7, 11, 17, 18, 3, 5, 16, 8, 21, 24, 4, 15, 23, 19, 13, 12, 2, 20, 14, 22, 9, 6, 1]"

section \<open>The permutation of the source\<close>

text \<open>One round, loop by loop; every loop updates the state in place.\<close>

definition keccak_theta :: "u64 list \<Rightarrow> u64 list" where
  "keccak_theta st =
    (let bc = map (\<lambda>i. st ! i XOR st ! (i + 5) XOR st ! (i + 10) XOR st ! (i + 15) XOR st ! (i + 20)) [0..<5] in
     foldl (\<lambda>st i.
       let t = bc ! ((i + 4) mod 5) XOR word_rotl 1 (bc ! ((i + 1) mod 5)) in
       foldl (\<lambda>st j. st[j + i := st ! (j + i) XOR t]) st [0, 5, 10, 15, 20]) st [0..<5])"

definition keccak_rho_pi :: "u64 list \<Rightarrow> u64 list" where
  "keccak_rho_pi st =
    fst (foldl (\<lambda>(st, t) i.
      let j = KECCAK_PILN ! i; tmp = st ! j in
      (st[j := word_rotl (KECCAK_ROTC ! i) t], tmp)) (st, st ! 1) [0..<24])"

definition keccak_chi :: "u64 list \<Rightarrow> u64 list" where
  "keccak_chi st =
    foldl (\<lambda>st j.
      let bc = take 5 (drop j st) in
      foldl (\<lambda>st i. st[j + i := st ! (j + i) XOR (NOT (bc ! ((i + 1) mod 5)) AND bc ! ((i + 2) mod 5))]) st [0..<5])
      st [0, 5, 10, 15, 20]"

definition keccak_iota :: "u64 \<Rightarrow> u64 list \<Rightarrow> u64 list" where
  "keccak_iota rc st = st[0 := st ! 0 XOR rc]"

definition keccak_f :: "u64 list \<Rightarrow> u64 list" where
  "keccak_f st = foldl (\<lambda>st rc. keccak_iota rc (keccak_chi (keccak_rho_pi (keccak_theta st)))) st KECCAK_RC"

section \<open>The permutation of FIPS 202\<close>

type_synonym sheet = "nat \<Rightarrow> nat \<Rightarrow> u64"

definition fips_theta :: "sheet \<Rightarrow> sheet" where
  "fips_theta a x y =
    (let c = (\<lambda>x. a x 0 XOR a x 1 XOR a x 2 XOR a x 3 XOR a x 4) in
     a x y XOR (c ((x + 4) mod 5) XOR word_rotl 1 (c ((x + 1) mod 5))))"

text \<open>The walk over the lanes that assigns the rotation offsets: \<open>(t+1)(t+2)/2\<close> at step \<open>t\<close>.\<close>

fun fips_walk :: "nat \<Rightarrow> nat \<times> nat" where
  "fips_walk 0 = (1, 0)"
| "fips_walk (Suc t) = (let (x, y) = fips_walk t in (y, (2 * x + 3 * y) mod 5))"

definition fips_offset :: "nat \<Rightarrow> nat \<Rightarrow> nat" where
  "fips_offset x y = foldl (\<lambda>r t. if fips_walk t = (x, y) then ((t + 1) * (t + 2) div 2) mod 64 else r) 0 [0..<24]"

definition fips_rho :: "sheet \<Rightarrow> sheet" where
  "fips_rho a x y = word_rotl (fips_offset x y) (a x y)"

definition fips_pi :: "sheet \<Rightarrow> sheet" where
  "fips_pi a x y = a ((x + 3 * y) mod 5) x"

definition fips_chi :: "sheet \<Rightarrow> sheet" where
  "fips_chi a x y = a x y XOR (NOT (a ((x + 1) mod 5) y) AND a ((x + 2) mod 5) y)"

text \<open>The generator of the round constants: a linear feedback shift register of eight bits, low bit first.\<close>

definition lfsr_step :: "bool list \<Rightarrow> bool list" where
  "lfsr_step r =
    (let b = r ! 7 in
     [b, r ! 0, r ! 1, r ! 2, r ! 3 \<noteq> b, r ! 4 \<noteq> b, r ! 5 \<noteq> b, r ! 6])"

definition fips_rc_bit :: "nat \<Rightarrow> bool" where
  "fips_rc_bit t = ((lfsr_step ^^ t) [True, False, False, False, False, False, False, False]) ! 0"

definition fips_rc :: "nat \<Rightarrow> u64" where
  "fips_rc ir = foldl (\<lambda>w j. if fips_rc_bit (j + 7 * ir) then set_bit (2 ^ j - 1) w else w) 0 [0..<7]"

definition fips_iota :: "nat \<Rightarrow> sheet \<Rightarrow> sheet" where
  "fips_iota ir a x y = (if x = 0 \<and> y = 0 then a 0 0 XOR fips_rc ir else a x y)"

definition fips_keccak :: "sheet \<Rightarrow> sheet" where
  "fips_keccak a = foldl (\<lambda>a ir. fips_iota ir (fips_chi (fips_pi (fips_rho (fips_theta a))))) a [0..<24]"

section \<open>The two agree\<close>

definition holds_sheet :: "u64 list \<Rightarrow> sheet \<Rightarrow> bool" where
  "holds_sheet st a \<longleftrightarrow> length st = 25 \<and> (\<forall>x<5. \<forall>y<5. st ! (5 * y + x) = a x y)"

lemma all_less_5: "(\<forall>x<5. P x) \<longleftrightarrow> P 0 \<and> P 1 \<and> P 2 \<and> P 3 \<and> P (4 :: nat)"
  by (auto simp: less_Suc_eq eval_nat_numeral)

lemma upt_rounds:
  "[0..<5] = [0, 1, 2, 3, 4 :: nat]"
  "[0..<24] = [0, 1, 2, 3, 4, 5, 6, 7, 8, 9, 10, 11, 12, 13, 14, 15, 16, 17, 18, 19, 20, 21, 22, 23 :: nat]"
  by (simp_all add: upt_rec)

lemma list_25:
  "length st = 25 \<Longrightarrow> \<exists>a b c d e f g h i j k l m n p q r s t u v w x y z. st = [a, b, c, d, e, f, g, h, i, j, k, l, m, n, p, q, r, s, t, u, v, w, x, y, z]"
  by (intro exI, rule trans [OF map_nth [symmetric]]) (simp add: upt_rec)

lemma holds_sheet_length: "holds_sheet st a \<Longrightarrow> length st = 25"
  by (simp add: holds_sheet_def)

lemma theta_agrees: "holds_sheet st a \<Longrightarrow> holds_sheet (keccak_theta st) (fips_theta a)"
  by (frule holds_sheet_length [THEN list_25], elim exE)
    (simp add: holds_sheet_def all_less_5 keccak_theta_def fips_theta_def upt_rounds Let_def numeral_2_eq_2 [symmetric])

lemma chi_agrees: "holds_sheet st a \<Longrightarrow> holds_sheet (keccak_chi st) (fips_chi a)"
  by (frule holds_sheet_length [THEN list_25], elim exE)
    (simp add: holds_sheet_def all_less_5 keccak_chi_def fips_chi_def upt_rounds Let_def numeral_2_eq_2 [symmetric])

lemma fips_walk_values:
  "map fips_walk [0..<24] = [(1, 0), (0, 2), (2, 1), (1, 2), (2, 3), (3, 3), (3, 0), (0, 1), (1, 3), (3, 1), (1, 4), (4, 4), (4, 0), (0, 3), (3, 4), (4, 3), (3, 2), (2, 2), (2, 0), (0, 4), (4, 2), (2, 4), (4, 1), (1, 1)]"
  by code_simp

lemma fips_walk_at: "t < 24 \<Longrightarrow> fips_walk t = map fips_walk [0..<24] ! t"
  by simp

lemma offset_values:
  "map (\<lambda>y. map (\<lambda>x. fips_offset x y) [0..<5]) [0..<5] =
    [[0, 1, 62, 28, 27], [36, 44, 6, 55, 20], [3, 10, 43, 25, 39], [41, 45, 15, 21, 8], [18, 2, 61, 56, 14]]"
  unfolding fips_offset_def upt_rounds by (simp add: fips_walk_at fips_walk_values del: fips_walk.simps upt_Suc)

text \<open>The register's output, produced once from left to right.\<close>

primrec lfsr_bits :: "nat \<Rightarrow> bool list \<Rightarrow> bool list" where
  "lfsr_bits 0 r = []"
| "lfsr_bits (Suc n) r = r ! 0 # lfsr_bits n (lfsr_step r)"

lemma lfsr_bits_nth: "t < n \<Longrightarrow> lfsr_bits n r ! t = ((lfsr_step ^^ t) r) ! 0"
proof (induction n arbitrary: t r)
  case (Suc n)
  then show ?case by (cases t) (simp_all add: funpow_swap1)
qed simp

lemma lfsr_values:
  "lfsr_bits 168 [True, False, False, False, False, False, False, False] =
    [True, False, False, False, False, False, False, False, True, False, True, True, False, False,
     False, True, True, True, True, False, True, False, False, False, False, True, True, True,
     True, True, True, True, True, False, False, True, False, False, False, False, True, False,
     True, False, False, True, True, True, True, True, False, True, False, True, False, True,
     False, True, True, True, False, False, False, False, False, True, True, False, False, False,
     True, False, True, False, True, True, False, False, True, True, False, False, True, False,
     True, True, True, True, True, True, False, True, True, True, True, False, False, True,
     True, False, True, True, True, False, True, True, True, False, False, True, False, True,
     False, True, False, False, True, False, True, False, False, False, True, False, False, True,
     False, True, True, False, True, False, False, False, True, True, False, False, True, True,
     True, False, False, True, True, True, True, False, False, False, True, True, False, True,
     True, False, False, False, False, True, False, False, False, True, False, True, True, True]"
  by code_simp

lemma fips_rc_bit_at:
  "t < 168 \<Longrightarrow> fips_rc_bit t = lfsr_bits 168 [True, False, False, False, False, False, False, False] ! t"
  unfolding fips_rc_bit_def by (rule lfsr_bits_nth [symmetric])

lemma rc_values: "map fips_rc [0..<24] = KECCAK_RC"
  unfolding KECCAK_RC_def upt_rounds
  by (simp add: fips_rc_def fips_rc_bit_at lfsr_values upt_rec set_bit_eq del: lfsr_bits.simps)

lemma word_rotl_0 [simp]: "word_rotl 0 w = w"
  by (rule bit_word_eqI) (simp add: bit_word_rotl_iff)

lemma offset_at: "x < 5 \<Longrightarrow> y < 5 \<Longrightarrow> fips_offset x y =
    [[0, 1, 62, 28, 27], [36, 44, 6, 55, 20], [3, 10, 43, 25, 39], [41, 45, 15, 21, 8], [18, 2, 61, 56, 14]] ! y ! x"
  unfolding offset_values [symmetric] by simp

lemma rho_pi_agrees: "holds_sheet st a \<Longrightarrow> holds_sheet (keccak_rho_pi st) (fips_pi (fips_rho a))"
  by (frule holds_sheet_length [THEN list_25], elim exE)
    (simp add: holds_sheet_def all_less_5 keccak_rho_pi_def fips_pi_def fips_rho_def offset_at upt_rounds
      KECCAK_PILN_def KECCAK_ROTC_def Let_def numeral_2_eq_2 [symmetric])

lemma iota_agrees: "ir < 24 \<Longrightarrow> holds_sheet st a \<Longrightarrow> holds_sheet (keccak_iota (KECCAK_RC ! ir) st) (fips_iota ir a)"
  unfolding rc_values [symmetric] by (simp add: holds_sheet_def all_less_5 keccak_iota_def fips_iota_def)

lemma rounds_agree:
  "n \<le> 24 \<Longrightarrow> holds_sheet st a \<Longrightarrow>
   holds_sheet (foldl (\<lambda>st rc. keccak_iota rc (keccak_chi (keccak_rho_pi (keccak_theta st)))) st (take n KECCAK_RC))
     (foldl (\<lambda>a ir. fips_iota ir (fips_chi (fips_pi (fips_rho (fips_theta a))))) a [0..<n])"
proof (induction n)
  case (Suc n)
  have "n < length KECCAK_RC" using Suc.prems by (simp add: KECCAK_RC_def)
  then show ?case
    using Suc by (simp add: take_Suc_conv_app_nth iota_agrees chi_agrees rho_pi_agrees theta_agrees)
qed simp

text \<open>
  C28: the permutation of the source is Keccak-f[1600] of FIPS 202. On any 25 lanes, the loops over the flat array with its
  tables of offsets, lane order and round constants compute what the step mappings theta, rho, pi, chi and iota compute on
  the sheet, whose rotation offsets come from the standard's walk and whose round constants from its shift register.
\<close>

theorem keccak_f_fips202:
  assumes "length st = 25" and "x < 5" and "y < 5"
  shows "length (keccak_f st) = 25 \<and> keccak_f st ! (5 * y + x) = fips_keccak (\<lambda>x y. st ! (5 * y + x)) x y"
proof -
  have "holds_sheet st (\<lambda>x y. st ! (5 * y + x))" using assms(1) by (simp add: holds_sheet_def)
  from rounds_agree [OF _ this, of 24] show ?thesis
    using assms(2,3) by (simp add: holds_sheet_def keccak_f_def fips_keccak_def KECCAK_RC_def)
qed

section \<open>SHAKE128\<close>

definition SHAKE_RATE :: nat where "SHAKE_RATE = 168"

definition le_bytes :: "u64 \<Rightarrow> bytes" where
  "le_bytes w = rev (be_bytes 8 w)"

definition le_word :: "bytes \<Rightarrow> u64" where
  "le_word bs = be_word (rev bs)"

record shake =
  sh_st :: "u64 list"
  sh_out :: bytes
  sh_pos :: nat

text \<open>
  \<open>Shake128::new\<close>. The seed is the 16-byte IV of a direction, so the two indexed writes are inside the block.
\<close>

definition shake_new :: "bytes \<Rightarrow> shake" where
  "shake_new seed =
    (let n = min (length seed) SHAKE_RATE;
         block = take n seed @ replicate (SHAKE_RATE - n) 0;
         block = block[length seed := block ! length seed XOR 0x1f];
         block = block[167 := block ! 167 XOR 0x80];
         st = foldl (\<lambda>st lane. st[lane := st ! lane XOR le_word (take 8 (drop (lane * 8) block))]) (replicate 25 0) [0..<21] in
     \<lparr>sh_st = st, sh_out = replicate SHAKE_RATE 0, sh_pos = 168\<rparr>)"

definition shake_next_u16 :: "shake \<Rightarrow> u16 \<times> shake" where
  "shake_next_u16 s =
    (let s = (if SHAKE_RATE < sh_pos s + 2 then
                let st = keccak_f (sh_st s) in
                s\<lparr>sh_st := st, sh_out := concat (map (\<lambda>lane. le_bytes (st ! lane)) [0..<21]), sh_pos := 0\<rparr>
              else s) in
     (u16_from (sh_out s ! sh_pos s) (sh_out s ! (sh_pos s + 1)), s\<lparr>sh_pos := sh_pos s + 2\<rparr>))"

subsection \<open>The stream FIPS 202 defines\<close>

text \<open>One padded block is absorbed; byte \<open>i\<close> of the output is read from the sheet after \<open>i div 168 + 1\<close> permutations.\<close>

definition fips_pad :: "bytes \<Rightarrow> bytes" where
  "fips_pad seed = seed @ [0x1f] @ replicate (SHAKE_RATE - 2 - length seed) 0 @ [0x80]"

definition fips_absorbed :: "bytes \<Rightarrow> sheet" where
  "fips_absorbed seed x y =
    (let l = 5 * y + x in if l < 21 then le_word (take 8 (drop (8 * l) (fips_pad seed))) else 0)"

definition squeezed_byte :: "sheet \<Rightarrow> nat \<Rightarrow> u8" where
  "squeezed_byte a i = (let l = i div 8 in le_bytes (a (l mod 5) (l div 5)) ! (i mod 8))"

definition fips_shake128 :: "bytes \<Rightarrow> nat \<Rightarrow> u8" where
  "fips_shake128 seed i = squeezed_byte ((fips_keccak ^^ (i div SHAKE_RATE + 1)) (fips_absorbed seed)) (i mod SHAKE_RATE)"

primrec shake_draw :: "nat \<Rightarrow> shake \<Rightarrow> u16 list" where
  "shake_draw 0 s = []"
| "shake_draw (Suc n) s = (let (w, s) = shake_next_u16 s in w # shake_draw n s)"

lemma foldl_update_nth:
  "n \<le> length st \<Longrightarrow> length (foldl (\<lambda>st k. st[k := st ! k XOR g k]) st [0..<n]) = length st \<and>
   (\<forall>l<length st. foldl (\<lambda>st k. st[k := st ! k XOR g k]) st [0..<n] ! l = (if l < n then st ! l XOR g l else st ! l :: u64))"
proof (induction n)
  case (Suc n)
  then show ?case by (auto simp: nth_list_update less_Suc_eq)
qed simp

lemma concat_nth_8: "j < 8 * n \<Longrightarrow> (\<And>k. length (f k) = 8) \<Longrightarrow> concat (map f [0..<n]) ! j = f (j div 8) ! (j mod 8)"
proof (induction n)
  case (Suc n)
  have len: "length (concat (map f [0..<n])) = 8 * n" using Suc.prems(2) by (induction n) simp_all
  show ?case
  proof (cases "j < 8 * n")
    case True
    then show ?thesis using Suc len by (simp add: nth_append)
  next
    case False
    then obtain r where "j = 8 * n + r" "r < 8" using Suc.prems(1) by (metis add_less_cancel_left mult_Suc_right add.commute le_Suc_ex not_less)
    then show ?thesis using len by (simp add: nth_append)
  qed
qed simp

lemma length_le_bytes [simp]: "length (le_bytes w) = 8"
  by (simp add: le_bytes_def)

lemma shake_new_block:
  assumes "length seed < 167"
  shows "(take (length seed) seed @ replicate (SHAKE_RATE - length seed) 0)[length seed := 0x1f, 167 := 0x80] = fips_pad seed"
proof -
  have "replicate (SHAKE_RATE - length seed) (0 :: u8) = 0 # replicate (SHAKE_RATE - 2 - length seed) 0 @ [0]"
  proof -
    have "SHAKE_RATE - length seed = Suc (SHAKE_RATE - 2 - length seed + 1)" using assms by (simp add: SHAKE_RATE_def)
    then show ?thesis by (simp only: replicate_add replicate.simps) simp
  qed
  moreover have "167 - length seed = Suc (166 - length seed)" using assms by simp
  ultimately show ?thesis using assms by (simp add: fips_pad_def list_update_append SHAKE_RATE_def)
qed

lemma shake_new_absorbs:
  assumes "length seed < 167"
  shows "holds_sheet (sh_st (shake_new seed)) (fips_absorbed seed)"
proof -
  have n: "min (length seed) SHAKE_RATE = length seed" using assms by (simp add: SHAKE_RATE_def)
  let ?block = "take (length seed) seed @ replicate (SHAKE_RATE - length seed) 0"
  have z: "?block ! length seed = 0" "?block[length seed := 0x1f] ! 167 = 0"
    using assms by (simp_all add: nth_append SHAKE_RATE_def)
  have "sh_st (shake_new seed) = foldl (\<lambda>st l. st[l := st ! l XOR le_word (take 8 (drop (l * 8) (fips_pad seed)))]) (replicate 25 0) [0..<21]"
    unfolding shake_new_def Let_def n z using shake_new_block [OF assms] z by simp
  then show ?thesis
    using foldl_update_nth [of 21 "replicate 25 0" "\<lambda>l. le_word (take 8 (drop (l * 8) (fips_pad seed)))"]
    by (auto simp: holds_sheet_def fips_absorbed_def Let_def mult.commute)
qed

text \<open>The state after \<open>k\<close> words.\<close>

definition shake_at :: "bytes \<Rightarrow> nat \<Rightarrow> shake \<Rightarrow> bool" where
  "shake_at seed k s \<longleftrightarrow>
    (\<exists>b. 2 * k + SHAKE_RATE = SHAKE_RATE * b + sh_pos s \<and> sh_pos s \<le> SHAKE_RATE \<and>
      holds_sheet (sh_st s) ((fips_keccak ^^ b) (fips_absorbed seed)) \<and>
      (0 < b \<longrightarrow> (\<forall>j<SHAKE_RATE. sh_out s ! j = squeezed_byte ((fips_keccak ^^ b) (fips_absorbed seed)) j)))"

lemma keccak_f_holds: "holds_sheet st a \<Longrightarrow> holds_sheet (keccak_f st) (fips_keccak a)"
  using rounds_agree [of 24 st a] by (simp add: keccak_f_def fips_keccak_def KECCAK_RC_def)

lemma squeezed_out:
  assumes "holds_sheet st a" and "j < SHAKE_RATE"
  shows "concat (map (\<lambda>lane. le_bytes (st ! lane)) [0..<21]) ! j = squeezed_byte a j"
proof -
  have "j div 8 < 21" using assms(2) by (simp add: SHAKE_RATE_def)
  then have "j div 8 mod 5 < 5" "j div 8 div 5 < 5" by simp_all
  then have "st ! (5 * (j div 8 div 5) + j div 8 mod 5) = a (j div 8 mod 5) (j div 8 div 5)"
    using assms(1) unfolding holds_sheet_def by blast
  then show ?thesis
    using concat_nth_8 [of j 21 "\<lambda>lane. le_bytes (st ! lane)"] assms(2) by (simp add: squeezed_byte_def SHAKE_RATE_def Let_def)
qed

lemma fips_shake128_block:
  "r < 168 \<Longrightarrow> fips_shake128 seed (168 * b + r) = squeezed_byte ((fips_keccak ^^ Suc b) (fips_absorbed seed)) r"
  by (simp add: fips_shake128_def SHAKE_RATE_def)

lemma shake_next_at:
  assumes "shake_at seed k s"
  shows "fst (shake_next_u16 s) = u16_from (fips_shake128 seed (2 * k)) (fips_shake128 seed (2 * k + 1)) \<and>
    shake_at seed (Suc k) (snd (shake_next_u16 s))"
proof -
  from assms obtain b where b: "2 * k + SHAKE_RATE = SHAKE_RATE * b + sh_pos s" "sh_pos s \<le> SHAKE_RATE"
    "holds_sheet (sh_st s) ((fips_keccak ^^ b) (fips_absorbed seed))"
    "0 < b \<Longrightarrow> \<forall>j<SHAKE_RATE. sh_out s ! j = squeezed_byte ((fips_keccak ^^ b) (fips_absorbed seed)) j"
    unfolding shake_at_def by blast
  have even: "sh_pos s mod 2 = 0" using b(1) by (simp add: SHAKE_RATE_def) presburger
  show ?thesis
  proof (cases "SHAKE_RATE < sh_pos s + 2")
    case True
    then have pos: "sh_pos s = 168" using b(2) even by (simp add: SHAKE_RATE_def) presburger
    then have k: "2 * k = 168 * b" using b(1) by (simp add: SHAKE_RATE_def)
    let ?st = "keccak_f (sh_st s)"
    have st: "holds_sheet ?st ((fips_keccak ^^ Suc b) (fips_absorbed seed))" using keccak_f_holds [OF b(3)] by simp
    have "fips_shake128 seed (2 * k) = squeezed_byte ((fips_keccak ^^ Suc b) (fips_absorbed seed)) 0"
      "fips_shake128 seed (2 * k + 1) = squeezed_byte ((fips_keccak ^^ Suc b) (fips_absorbed seed)) 1"
      unfolding k using fips_shake128_block [of 0 seed b] fips_shake128_block [of 1 seed b] by simp_all
    moreover have "shake_at seed (Suc k) (snd (shake_next_u16 s))"
      unfolding shake_at_def using True st squeezed_out [OF st] k
      by (intro exI [of _ "Suc b"]) (simp add: shake_next_u16_def SHAKE_RATE_def Let_def del: funpow.simps upt_Suc)
    ultimately show ?thesis using True squeezed_out [OF st]
      by (simp add: shake_next_u16_def SHAKE_RATE_def Let_def del: funpow.simps)
  next
    case False
    then have pos: "sh_pos s + 1 < 168" by (simp add: SHAKE_RATE_def)
    then have "0 < b" using b(1) by (cases b) (simp_all add: SHAKE_RATE_def)
    then obtain b' where b': "b = Suc b'" by (cases b) simp_all
    then have k: "2 * k = 168 * b' + sh_pos s" using b(1) by (simp add: SHAKE_RATE_def)
    then have "fips_shake128 seed (2 * k) = squeezed_byte ((fips_keccak ^^ b) (fips_absorbed seed)) (sh_pos s)"
      "fips_shake128 seed (2 * k + 1) = squeezed_byte ((fips_keccak ^^ b) (fips_absorbed seed)) (sh_pos s + 1)"
      unfolding k using pos b' fips_shake128_block [of "sh_pos s" seed b'] fips_shake128_block [of "sh_pos s + 1" seed b']
      by (simp_all add: add.assoc)
    then show ?thesis using False b(3) b(4) [OF \<open>0 < b\<close>] pos k b'
      by (auto simp: shake_next_u16_def shake_at_def SHAKE_RATE_def Let_def simp del: funpow.simps intro!: exI [of _ b])
  qed
qed

text \<open>
  C29: the length masks come from SHAKE128. For every seed that fits one block, the words drawn from the buffered, lazily
  permuted state are the bytes of the stream FIPS 202 defines for the seed, two at a time, across every block boundary.
\<close>

theorem shake128_fips202:
  assumes "length seed < 167"
  shows "shake_draw n (shake_new seed) =
    map (\<lambda>k. u16_from (fips_shake128 seed (2 * k)) (fips_shake128 seed (2 * k + 1))) [0..<n]"
proof -
  have "shake_draw n s = map (\<lambda>k. u16_from (fips_shake128 seed (2 * k)) (fips_shake128 seed (2 * k + 1))) [k..<k + n]"
    if "shake_at seed k s" for k s using that
  proof (induction n arbitrary: k s)
    case (Suc n)
    from Suc.IH [of "Suc k"] shake_next_at [OF Suc.prems] show ?case
      by (simp add: upt_conv_Cons split_beta Let_def del: upt_Suc)
  qed simp
  moreover have "shake_at seed 0 (shake_new seed)"
    unfolding shake_at_def using shake_new_absorbs [OF assms]
    by (intro exI [of _ 0]) (simp add: shake_new_def SHAKE_RATE_def Let_def)
  ultimately show ?thesis by fastforce
qed

theorem shake128_fips202_witness:
  "shake_draw 100 (shake_new (replicate 16 7)) =
    map (\<lambda>k. u16_from (fips_shake128 (replicate 16 7) (2 * k)) (fips_shake128 (replicate 16 7) (2 * k + 1))) [0..<100]"
  by (rule shake128_fips202) simp

theorem keccak_f_fips202_witness:
  "length (keccak_f (replicate 25 7)) = 25 \<and>
   keccak_f (replicate 25 7) ! (5 * 2 + 3) = fips_keccak (\<lambda>x y. replicate 25 7 ! (5 * y + x)) 3 2"
  by (rule keccak_f_fips202) simp_all

end
