(* ===== verification/Vmess_Server.thy ===== *)
theory Vmess_Server
  imports Vmess Keccak Stream_Io
begin

text \<open>
  The VMess server (src/engine/src/inbound/proxy_server/vmess.rs): the auth id and its timestamp window, the sealed request
  header, the chunk framing with its masks and padding drawn from SHAKE128, the framed stream and the UDP pumps. The random
  padding bytes are a stream of bytes still to come, a field of the body cipher. The stream meets the contracts of
  Unit\_Stream; it stops at the peer's empty chunk, before its input ends.
\<close>

section \<open>The server and the auth id\<close>

record vmess_server =
  vs_cmd_key :: bytes
  vs_required :: "u8 option"

text \<open>\<open>VmessServer::new\<close>: \<open>uuid\<close> is what the uuid crate parsed.\<close>

definition vmess_server_new :: "'a vmess_crypto_scheme \<Rightarrow> u128 option \<Rightarrow> string \<Rightarrow> vmess_server result" where
  "vmess_server_new cr uuid security =
    rbind (ok_or uuid (Config ''vmess uuid'')) (\<lambda>uuid.
    rbind (if trim security = ''auto'' then Inr None
           else rbind (vmess_security_parse (trim security)) (\<lambda>s.
             (case s of
                VsNone \<Rightarrow> Inl (Config ''vmess server is AEAD-only: security none is not supported'')
              | s \<Rightarrow> Inr (Some (security_wire s)))))
      (\<lambda>required. Inr \<lparr>vs_cmd_key = cmd_key cr uuid, vs_required = required\<rparr>))"

definition kdf16 :: "'a vmess_crypto_scheme \<Rightarrow> bytes \<Rightarrow> bytes list \<Rightarrow> bytes" where
  "kdf16 cr key paths = take 16 (vmess_kdf cr key paths)"

definition kdf12 :: "'a vmess_crypto_scheme \<Rightarrow> bytes \<Rightarrow> bytes list \<Rightarrow> bytes" where
  "kdf12 cr key paths = take 12 (vmess_kdf cr key paths)"

definition AUTH_ID_WINDOW :: "64 word" where "AUTH_ID_WINDOW = 120"

text \<open>\<open>(now - ts).abs()\<close> on \<open>i64\<close>, which wraps in a release build.\<close>

definition auth_drift :: "u64 \<Rightarrow> u64 \<Rightarrow> u64" where
  "auth_drift now ts = (let d = now - ts in if d <s 0 then - d else d)"

definition verify_auth_id :: "'a vmess_crypto_scheme \<Rightarrow> u64 \<Rightarrow> bytes \<Rightarrow> bytes \<Rightarrow> unit result" where
  "verify_auth_id cr now key auth_id =
    (let plain = cr_aes_decrypt cr (take 16 (vmess_kdf cr key [KDF_AUTH_ID_ENC_KEY])) auth_id;
         crc = be_word (take 4 (drop 12 plain)) in
     if vc_crc32 cr (take 12 plain) \<noteq> crc
       then Inl (Protocol ''vmess: auth id check failed (unknown uuid, legacy header or wrong key)'')
     else
       let ts = be_word (take 8 plain) in
       if AUTH_ID_WINDOW <s auth_drift now ts then Inl (Protocol ''vmess: auth id timestamp drift exceeds replay window'')
       else Inr ())"

section \<open>Chunk framing\<close>

datatype chunk_framing = FramePlain | FrameMask shake | FramePad shake | FrameMaskPad shake

definition OPT_CHUNK_STREAM :: u8 where "OPT_CHUNK_STREAM = 0x01"
definition OPT_CHUNK_MASKING :: u8 where "OPT_CHUNK_MASKING = 0x04"
definition OPT_GLOBAL_PADDING :: u8 where "OPT_GLOBAL_PADDING = 0x08"
definition OPT_AUTH_LEN :: u8 where "OPT_AUTH_LEN = 0x10"

definition framing_from_opt :: "u8 \<Rightarrow> bytes \<Rightarrow> chunk_framing" where
  "framing_from_opt opt iv =
    (if opt AND OPT_CHUNK_MASKING \<noteq> 0 then
       (if opt AND OPT_GLOBAL_PADDING \<noteq> 0 then FrameMaskPad (shake_new iv) else FrameMask (shake_new iv))
     else (if opt AND OPT_GLOBAL_PADDING \<noteq> 0 then FramePad (shake_new iv) else FramePlain))"

text \<open>The mask and the padding length of the next chunk: with both options one stream gives the padding first.\<close>

fun framing_next :: "chunk_framing \<Rightarrow> (u16 \<times> nat) \<times> chunk_framing" where
  "framing_next FramePlain = ((0, 0), FramePlain)"
| "framing_next (FrameMask s) = (let (w, s) = shake_next_u16 s in ((w, 0), FrameMask s))"
| "framing_next (FramePad s) = (let (w, s) = shake_next_u16 s in ((0, unat (w mod 64)), FramePad s))"
| "framing_next (FrameMaskPad s) =
    (let (p, s) = shake_next_u16 s; (w, s) = shake_next_u16 s in ((w, unat (p mod 64)), FrameMaskPad s))"

record vmess_body =
  vb_aead :: aead
  vb_nonce :: chunk_nonce
  vb_framing :: chunk_framing
  vb_noise :: "nat \<Rightarrow> u8"

definition vmess_body_new :: "'a vmess_crypto_scheme \<Rightarrow> (nat \<Rightarrow> u8) \<Rightarrow> u8 \<Rightarrow> bytes \<Rightarrow> bytes \<Rightarrow> u8 \<Rightarrow> vmess_body result" where
  "vmess_body_new cr noise security key iv opt =
    rbind (if security = 0x03 then Inr Aes128Gcm
           else if security = 0x04 then Inr Chacha20Poly1305
           else Inl (Protocol ''vmess: unsupported security'')) (\<lambda>kind.
    rbind (aead_new kind (if kind = Aes128Gcm then key else chacha_key cr key)) (\<lambda>aead.
    Inr \<lparr>vb_aead = aead, vb_nonce = chunk_nonce_new iv, vb_framing = framing_from_opt opt iv, vb_noise = noise\<rparr>))"

definition body_seal_chunk :: "'a vmess_crypto_scheme \<Rightarrow> vmess_body \<Rightarrow> bytes \<Rightarrow> bytes \<Rightarrow> bytes result \<times> vmess_body" where
  "body_seal_chunk cr b plain out =
    (let ((mask, pad), framing) = framing_next (vb_framing b); b = b\<lparr>vb_framing := framing\<rparr>;
         frame_len = length plain + (VM_TAG + pad) in
     if 65535 < frame_len then (Inl (Protocol ''vmess chunk exceeds 65535 bytes''), b)
     else
       let out = out @ u16_be (word_of_nat frame_len XOR mask);
           (n, nonce) = chunk_nonce_advance (vb_nonce b); b = b\<lparr>vb_nonce := nonce\<rparr> in
       (case aead_seal cr (vb_aead b) n [] plain out of
          Inl e \<Rightarrow> (Inl e, b)
        | Inr out \<Rightarrow>
            (Inr (out @ map (vb_noise b) [0..<pad]), b\<lparr>vb_noise := (\<lambda>i. vb_noise b (i + pad))\<rparr>)))"

section \<open>The stream\<close>

datatype vms_state = VmLen | VmPayload nat nat | VmEnd

record vmess_server_stream = unit_io +
  vms_enc :: vmess_body
  vms_dec :: vmess_body
  vms_pending_plain :: nat
  vms_state :: vms_state

definition vms_need :: "vmess_server_stream \<Rightarrow> nat" where
  "vms_need s = (case vms_state s of VmLen \<Rightarrow> 2 | VmPayload n pad \<Rightarrow> n | VmEnd \<Rightarrow> 0)"

definition vms_stop :: "vmess_server_stream \<Rightarrow> bool" where
  "vms_stop s = (vms_state s = VmEnd)"

definition vms_advance :: "'a vmess_crypto_scheme \<Rightarrow> vmess_server_stream \<Rightarrow> unit result \<times> vmess_server_stream" where
  "vms_advance cr s =
    (case vms_state s of
       VmLen \<Rightarrow>
         let wire = u16_from (ui_rbuf s ! 0) (ui_rbuf s ! 1);
             ((mask, pad), framing) = framing_next (vb_framing (vms_dec s));
             s = s\<lparr>ui_rbuf := drop 2 (ui_rbuf s), vms_dec := (vms_dec s)\<lparr>vb_framing := framing\<rparr>\<rparr>;
             total = unat (wire XOR mask) in
         if total < pad then (Inl (Protocol ''vmess: chunk length below its padding''), s)
         else if total - pad = 0 then (Inr (), s\<lparr>vms_state := VmEnd\<rparr>)
         else (Inr (), s\<lparr>vms_state := VmPayload total pad\<rparr>)
     | VmPayload n pad \<Rightarrow>
         let data = n - pad in
         if data < VM_TAG then (Inl (Protocol ''vmess body chunk shorter than a tag''), s)
         else
           let (nonce, next) = chunk_nonce_advance (vb_nonce (vms_dec s)); s = s\<lparr>vms_dec := (vms_dec s)\<lparr>vb_nonce := next\<rparr>\<rparr> in
           (case aead_open cr (vb_aead (vms_dec s)) nonce [] (take data (ui_rbuf s)) of
              Inl e \<Rightarrow> (Inl (Protocol ''vmess body''), s)
            | Inr pt \<Rightarrow> (Inr (), s\<lparr>ui_rbuf := drop n (ui_rbuf s), ui_plain := ui_plain s @ pt, vms_state := VmLen\<rparr>))
     | VmEnd \<Rightarrow> (Inr (), s))"

lemma vms_advance_unit:
  "vms_state s \<noteq> VmEnd \<Longrightarrow> vms_advance cr s = (Inr u, s') \<Longrightarrow>
   ui_inner s' = ui_inner s \<and> ui_rbuf s' = drop (vms_need s) (ui_rbuf s) \<and> 0 < vms_need s"
  by (auto simp: vms_advance_def vms_need_def VM_TAG_def Let_def chunk_nonce_advance_def
      split: vms_state.splits sum.splits if_splits prod.splits)

function vms_poll_read :: "'a vmess_crypto_scheme \<Rightarrow> nat \<Rightarrow> vmess_server_stream \<Rightarrow> bytes poll \<times> vmess_server_stream" where
  "vms_poll_read cr room s =
    (if ui_plain s \<noteq> [] then
       (let n = min (length (ui_plain s)) room in
        (Ready (Inr (take n (ui_plain s))), s\<lparr>ui_plain := drop n (ui_plain s)\<rparr>))
     else if vms_stop s then (Ready (Inr []), s)
     else if vms_need s \<le> length (ui_rbuf s) then
       (case vms_advance cr s of (Inl e, s) \<Rightarrow> (Ready (Inl e), s) | (Inr _, s) \<Rightarrow> vms_poll_read cr room s)
     else
       (case poll_read (ui_inner s) READ_CHUNK of
          (Pending, t) \<Rightarrow> (Pending, s\<lparr>ui_inner := t\<rparr>)
        | (Ready (Inl e), t) \<Rightarrow> (Ready (Inl e), s\<lparr>ui_inner := t\<rparr>)
        | (Ready (Inr bs), t) \<Rightarrow>
            if bs = [] then
              (if ui_rbuf s = [] then Ready (Inr []) else Ready (Inl truncated), s\<lparr>ui_inner := t\<rparr>)
            else vms_poll_read cr room (s\<lparr>ui_inner := t, ui_rbuf := ui_rbuf s @ bs\<rparr>)))"
  by pat_completeness auto
termination
proof (relation "measure (\<lambda>(_, _, s). unit_weight s)", goal_cases)
  case (2 cr room s _ s' _)
  then have "ui_inner s' = ui_inner s" "ui_rbuf s' = drop (vms_need s) (ui_rbuf s)" "vms_need s \<le> length (ui_rbuf s)" "0 < vms_need s"
    using vms_advance_unit [of s cr _ s'] by (auto simp: vms_stop_def)
  then show ?case by (simp add: unit_weight_def)
next
  case (3 cr room s _ t _ bs)
  then show ?case using unit_weight_fill [of s READ_CHUNK bs t] by simp
qed simp

declare vms_poll_read.simps [simp del]

definition vms_seal :: "'a vmess_crypto_scheme \<Rightarrow> vmess_server_stream \<Rightarrow> bytes \<Rightarrow> unit result \<times> vmess_server_stream" where
  "vms_seal cr s buf =
    (let n = min (length buf) (8 * 1024) in
     (case body_seal_chunk cr (vms_enc s) (take n buf) [] of
        (Inl e, enc) \<Rightarrow> (Inl e, s\<lparr>vms_enc := enc\<rparr>)
      | (Inr out, enc) \<Rightarrow> (Inr (), s\<lparr>vms_enc := enc, ui_wbuf := out, vms_pending_plain := n\<rparr>)))"

definition vms_poll_write :: "'a vmess_crypto_scheme \<Rightarrow> vmess_server_stream \<Rightarrow> bytes \<Rightarrow> nat poll \<times> vmess_server_stream" where
  "vms_poll_write cr s buf =
    (if buf = [] then (Ready (Inr 0), s)
     else case (if ui_wbuf s = [] then vms_seal cr s buf else (Inr (), s)) of
       (Inl e, s) \<Rightarrow> (Ready (Inl e), s)
     | (Inr _, s) \<Rightarrow>
         (case wbuf_loop vm_zero_bytes (ui_inner s) (ui_wbuf s) of
            (Pending, t, w) \<Rightarrow> (Pending, s\<lparr>ui_inner := t, ui_wbuf := w\<rparr>)
          | (Ready (Inl e), t, w) \<Rightarrow> (Ready (Inl e), s\<lparr>ui_inner := t, ui_wbuf := w\<rparr>)
          | (Ready (Inr _), t, w) \<Rightarrow> (Ready (Inr (vms_pending_plain s)), s\<lparr>ui_inner := t, ui_wbuf := w\<rparr>)))"

section \<open>The contracts\<close>

lemma vms_advance_inner:
  "vms_advance cr (s\<lparr>ui_inner := i\<rparr>) = (case vms_advance cr s of (r, s') \<Rightarrow> (r, s'\<lparr>ui_inner := i\<rparr>))"
  by (cases "vms_state s") (simp_all add: vms_advance_def Let_def chunk_nonce_advance_def split: sum.split prod.split)

lemma vms_advance_more:
  "vms_need s \<le> length (ui_rbuf s) \<Longrightarrow>
   vms_advance cr (s\<lparr>ui_rbuf := ui_rbuf s @ ys\<rparr>) = (case vms_advance cr s of (r, s') \<Rightarrow> (r, s'\<lparr>ui_rbuf := ui_rbuf s' @ ys\<rparr>))"
proof (cases "vms_state s")
  case VmLen
  assume "vms_need s \<le> length (ui_rbuf s)"
  then have "ui_rbuf s \<noteq> []" "Suc 0 < length (ui_rbuf s)" using VmLen by (auto simp: vms_need_def)
  then show ?thesis using VmLen by (simp add: vms_advance_def nth_append Let_def split: prod.split)
qed (simp_all add: vms_advance_def vms_need_def Let_def chunk_nonce_advance_def split: sum.split)

interpretation vms_reader: unit_reader "vms_poll_read cr" vms_need "vms_advance cr" vms_stop for cr :: "'a vmess_crypto_scheme"
proof (unfold_locales, goal_cases)
  case (1 room s)
  show ?case by (rule vms_poll_read.simps)
next
  case (5 s u s')
  then show ?case using vms_advance_unit [of s cr u s'] by (simp add: vms_stop_def)
next
  case (6 i s)
  show ?case by (rule vms_advance_inner)
next
  case (7 s ys)
  then show ?case by (rule vms_advance_more)
qed (simp_all add: vms_need_def vms_stop_def split: vms_state.split)

interpretation vms_writer: unit_writer "vms_poll_write cr" "vms_seal cr" "\<lambda>s _. vms_pending_plain s" vm_zero_bytes
  for cr :: "'a vmess_crypto_scheme"
proof (unfold_locales, goal_cases)
  case (1 s buf)
  show ?case by (simp add: vms_poll_write_def)
qed (simp_all add: vms_seal_def Let_def split: prod.split sum.split)

section \<open>The handshake\<close>

record vmess_request =
  vq_iv :: bytes
  vq_key :: bytes
  vq_response_v :: u8
  vq_opt :: u8
  vq_security :: u8
  vq_target :: net_addr
  vq_is_udp :: bool

text \<open>The opened instruction header: every check of the handler, in its order.\<close>

definition parse_instruction :: "u8 option \<Rightarrow> bytes \<Rightarrow> vmess_request result" where
  "parse_instruction required hdr =
    (if length hdr < 42 then Inl (Protocol ''vmess: request header too short'')
     else if hdr ! 0 \<noteq> 0x01 then Inl (Protocol ''vmess: unsupported version'')
     else
       let opt = hdr ! 34; security = hdr ! 35 AND 0x0f; pad_len = unat (drop_bit 4 (hdr ! 35)); cmd = hdr ! 37;
           body = take (length hdr - 4) hdr; checksum = drop (length hdr - 4) hdr in
       if fnv1a32 body \<noteq> be_word checksum then Inl (Protocol ''vmess: header checksum mismatch'')
       else if opt AND OPT_CHUNK_STREAM = 0 then Inl (Protocol ''vmess: unchunked streams are not supported'')
       else if opt AND OPT_AUTH_LEN \<noteq> 0 then Inl (Protocol ''vmess: authenticated length chunks are not supported'')
       else if security = 0x05 then Inl (Protocol ''vmess: security none is not supported (AEAD only)'')
       else if security \<noteq> 0x03 \<and> security \<noteq> 0x04 then Inl (Protocol ''vmess: unsupported security (legacy header?)'')
       else if required \<noteq> None \<and> required \<noteq> Some security then Inl (Protocol ''vmess: server requires another security'')
       else
         rbind (decode_port_first_addr (drop 38 hdr)) (\<lambda>(target, used).
         if length body < 38 + used + pad_len then Inl (Protocol ''vmess: header padding overruns header'')
         else if cmd \<noteq> 0x01 \<and> cmd \<noteq> 0x02 then Inl (Protocol ''vmess: bad command'')
         else Inr \<lparr>vq_iv = take 16 (drop 1 hdr), vq_key = take 16 (drop 17 hdr), vq_response_v = hdr ! 33, vq_opt = opt,
             vq_security = security, vq_target = target, vq_is_udp = (cmd = 0x02)\<rparr>))"

definition vmess_read_request :: "'a vmess_crypto_scheme \<Rightarrow> u64 \<Rightarrow> vmess_server \<Rightarrow> vmess_request t_op" where
  "vmess_read_request cr now srv =
    t_bind (t_read_exact 42) (\<lambda>head.
    let auth_id = take 16 head; nonce = take 8 (drop 34 head); key = vs_cmd_key srv in
    t_bind (t_lift (verify_auth_id cr now key auth_id)) (\<lambda>_.
    t_bind (t_lift (aead_new Aes128Gcm (kdf16 cr key [KDF_HEADER_LEN_KEY, auth_id, nonce]))) (\<lambda>len_aead.
    t_bind (t_lift (case aead_open cr len_aead (kdf12 cr key [KDF_HEADER_LEN_NONCE, auth_id, nonce]) auth_id (take 18 (drop 16 head)) of
                      Inl e \<Rightarrow> Inl (Protocol ''vmess header length'') | Inr lp \<Rightarrow> Inr lp)) (\<lambda>lp.
    t_bind (t_read_exact (unat (u16_from (lp ! 0) (lp ! 1)) + VM_TAG)) (\<lambda>ct.
    t_bind (t_lift (aead_new Aes128Gcm (kdf16 cr key [KDF_HEADER_PAYLOAD_KEY, auth_id, nonce]))) (\<lambda>hdr_aead.
    t_bind (t_lift (case aead_open cr hdr_aead (kdf12 cr key [KDF_HEADER_PAYLOAD_NONCE, auth_id, nonce]) auth_id ct of
                      Inl e \<Rightarrow> Inl (Protocol ''vmess header'') | Inr hdr \<Rightarrow> Inr hdr)) (\<lambda>hdr.
    t_lift (parse_instruction (vs_required srv) hdr))))))))"

text \<open>The response header: a sealed length, then the sealed four bytes.\<close>

definition vmess_response :: "'a vmess_crypto_scheme \<Rightarrow> bytes \<Rightarrow> bytes \<Rightarrow> u8 \<Rightarrow> u8 \<Rightarrow> bytes result" where
  "vmess_response cr resp_key resp_iv response_v opt =
    rbind (aead_new Aes128Gcm (kdf16 cr resp_key [KDF_RESP_LEN_KEY])) (\<lambda>len_aead.
    let resp_hdr = [response_v, opt, 0, 0] in
    rbind (aead_seal cr len_aead (kdf12 cr resp_iv [KDF_RESP_LEN_IV]) [] (u16_be (word_of_nat (length resp_hdr))) []) (\<lambda>wire.
    rbind (aead_new Aes128Gcm (kdf16 cr resp_key [KDF_RESP_PAYLOAD_KEY])) (\<lambda>payload_aead.
    aead_seal cr payload_aead (kdf12 cr resp_iv [KDF_RESP_PAYLOAD_IV]) [] resp_hdr wire)))"

datatype vmess_session = VmTcp net_addr vmess_server_stream | VmUdp vmess_body vmess_body

text \<open>\<open>handle\<close>, up to what it hands over: \<open>noise\<close> gives the padding bytes of the two directions.\<close>

definition vmess_handle :: "'a vmess_crypto_scheme \<Rightarrow> u64 \<Rightarrow> (nat \<Rightarrow> u8) \<times> (nat \<Rightarrow> u8) \<Rightarrow> vmess_server \<Rightarrow> vmess_session t_op" where
  "vmess_handle cr now noise srv =
    t_bind (vmess_read_request cr now srv) (\<lambda>q.
    let resp_key = sha256_16 cr (vq_key q); resp_iv = sha256_16 cr (vq_iv q) in
    t_bind (t_lift (vmess_body_new cr (fst noise) (vq_security q) resp_key resp_iv (vq_opt q))) (\<lambda>enc.
    t_bind (t_lift (vmess_body_new cr (snd noise) (vq_security q) (vq_key q) (vq_iv q) (vq_opt q))) (\<lambda>dec.
    t_bind (t_lift (vmess_response cr resp_key resp_iv (vq_response_v q) (vq_opt q))) (\<lambda>wire.
    t_bind (t_write_all wire) (\<lambda>_ t.
      (if vq_is_udp q then (Inr (VmUdp enc dec), t)
       else (Inr (VmTcp (vq_target q)
         \<lparr>ui_inner = t, ui_rbuf = [], ui_plain = [], ui_wbuf = [], vms_enc = enc, vms_dec = dec,
          vms_pending_plain = 0, vms_state = VmLen\<rparr>), t)))))))"

section \<open>Datagrams\<close>

definition read_body_datagram :: "'a vmess_crypto_scheme \<Rightarrow> vmess_body \<Rightarrow> transport \<Rightarrow> bytes option result \<times> vmess_body \<times> transport" where
  "read_body_datagram cr dec t =
    (case t_read_exact 2 t of
       (Inl e, t) \<Rightarrow> (if e = Io ''early eof'' then Inr None else Inl e, dec, t)
     | (Inr len, t) \<Rightarrow>
         let ((mask, pad), framing) = framing_next (vb_framing dec); dec = dec\<lparr>vb_framing := framing\<rparr>;
             total = unat (u16_from (len ! 0) (len ! 1) XOR mask) in
         if total < pad then (Inl (Protocol ''vmess udp: chunk length below its padding''), dec, t)
         else if total - pad = 0 then (Inr None, dec, t)
         else if total - pad < VM_TAG then (Inl (Protocol ''vmess udp: body chunk shorter than a tag''), dec, t)
         else
           (case t_read_exact total t of
              (Inl e, t) \<Rightarrow> (Inl e, dec, t)
            | (Inr ct, t) \<Rightarrow>
                let (nonce, next) = chunk_nonce_advance (vb_nonce dec); dec = dec\<lparr>vb_nonce := next\<rparr> in
                (case aead_open cr (vb_aead dec) nonce [] (take (total - pad) ct) of
                   Inl e \<Rightarrow> (Inl (Protocol ''vmess udp body''), dec, t)
                 | Inr plain \<Rightarrow> (Inr (Some plain), dec, t))))"

lemma t_read_exact_backlog:
  "t_read_exact n t = (Inr bs, t') \<Longrightarrow> backlog (tr_in t') + n \<le> backlog (tr_in t)"
proof (induction n t arbitrary: bs t' rule: t_read_exact.induct)
  case (1 n t)
  show ?case
  proof (cases "n = 0")
    case True
    then show ?thesis using "1.prems" by (simp add: t_read_exact.simps [of 0])
  next
    case False
    obtain r t1 where p: "poll_read t n = (r, t1)" by fastforce
    show ?thesis
    proof (cases r)
      case Pending
      have "backlog (tr_in t1) \<le> backlog (tr_in t)"
        using p Pending by (auto simp: poll_read_def backlog_def split: list.splits arrival.splits)
      moreover have "backlog (tr_in t') + n \<le> backlog (tr_in t1)"
        using "1.IH"(1) [OF False p [symmetric] Pending] "1.prems" False p Pending by (simp add: t_read_exact.simps [of n t])
      ultimately show ?thesis by simp
    next
      case (Ready v)
      then obtain ch where v: "v = Inr ch" "ch \<noteq> []"
        using "1.prems" False p by (cases v) (auto simp: t_read_exact.simps [of n t] split: if_splits)
      have len: "length ch \<le> n" using p Ready v by (auto simp: poll_read_def split: list.splits arrival.splits)
      obtain rest where rest: "t_read_exact (n - length ch) t1 = (Inr rest, t')"
        using "1.prems" False p Ready v by (auto simp: t_read_exact.simps [of n t] split: prod.splits sum.splits)
      from "1.IH"(2) [OF False p [symmetric] Ready v(1) v(2) rest] poll_read_backlog_unit [of t n ch t1] p Ready v len
      show ?thesis by simp
    qed
  qed
qed

lemma read_body_datagram_backlog:
  "read_body_datagram cr dec t = (Inr (Some packet), dec', t') \<Longrightarrow> backlog (tr_in t') < backlog (tr_in t)"
  by (fastforce simp: read_body_datagram_def Let_def chunk_nonce_advance_def dest!: t_read_exact_backlog
      split: prod.splits sum.splits if_splits)

text \<open>
  The uplink pump: the datagrams handed to the relay. The relay may have gone away by the time the
  \<open>k\<close>-th is sent (\<open>alive k\<close> is false); a datagram whose address does not decode is skipped.
\<close>

function vmess_uplink :: "'a vmess_crypto_scheme \<Rightarrow> (nat \<Rightarrow> bool) \<Rightarrow> nat \<Rightarrow> vmess_body \<Rightarrow> transport \<Rightarrow> (net_addr \<times> bytes) list" where
  "vmess_uplink cr alive k dec t =
    (case read_body_datagram cr dec t of
       (Inr (Some packet), dec, t) \<Rightarrow>
         (case decode_port_first_addr packet of
            Inl e \<Rightarrow> vmess_uplink cr alive k dec t
          | Inr (target, used) \<Rightarrow>
              if alive k then (target, drop used packet) # vmess_uplink cr alive (Suc k) dec t else [])
     | _ \<Rightarrow> [])"
  by pat_completeness auto
termination
  by (relation "measure (\<lambda>(_, _, _, _, t). backlog (tr_in t))") (auto dest!: read_body_datagram_backlog [OF sym])

declare vmess_uplink.simps [simp del]

text \<open>The downlink pump: one sealed chunk per reply; an oversize reply is dropped, a write error ends it.\<close>

fun vmess_downlink :: "'a vmess_crypto_scheme \<Rightarrow> vmess_body \<Rightarrow> (net_addr \<times> bytes) list \<Rightarrow> transport \<Rightarrow> vmess_body \<times> transport" where
  "vmess_downlink cr enc [] t = (enc, t)"
| "vmess_downlink cr enc ((target, data) # replies) t =
    (case body_seal_chunk cr enc (encode_port_first_addr [] (na_host target) (na_port target) @ data) [] of
       (Inl e, enc) \<Rightarrow> vmess_downlink cr enc replies t
     | (Inr out, enc) \<Rightarrow>
         (case t_write_all out t of
            (Inl e, t) \<Rightarrow> (enc, t)
          | (Inr _, t) \<Rightarrow> vmess_downlink cr enc replies t))"

end
