(* ===== verification/Vmess_Session.thy ===== *)
theory Vmess_Session
  imports Vmess_Server
begin

text \<open>
  VMess sessions end to end: what the client of Vmess writes the server of Vmess\_Server reads, and back, over any schedule;
  and bodies under every framing option, between two ends of the server's kind.
\<close>

section \<open>One chunk\<close>

lemma framing_next_pad: "snd (fst (framing_next f)) < 64"
proof -
  have "unat (w mod 64) < 64" for w :: u16 by (simp add: unat_mod)
  then show ?thesis by (cases f) (auto split: prod.split)
qed

text \<open>A sealed chunk on the wire: the masked length, the ciphertext, the padding.\<close>

lemma body_seal_chunk_ok:
  assumes "aead_lawful cr" and "aead_keyed (vb_aead b)" and "length (cn_base_iv (vb_nonce b)) = 16" and "length plain \<le> 65000"
    and "framing_next (vb_framing b) = ((mk, pad), framing)"
  shows "\<exists>ct noise. body_seal_chunk cr b plain out =
      (Inr (out @ u16_be (word_of_nat (length plain + 16 + pad) XOR mk) @ ct @ map (vb_noise b) [0..<pad]),
       b\<lparr>vb_framing := framing, vb_nonce := snd (chunk_nonce_advance (vb_nonce b)), vb_noise := noise\<rparr>) \<and>
    length ct = length plain + 16 \<and> aead_open cr (vb_aead b) (fst (chunk_nonce_advance (vb_nonce b))) [] ct = Inr plain"
proof -
  have pad: "pad < 64" using framing_next_pad [of "vb_framing b"] assms(5) by simp
  obtain n nonce where n: "chunk_nonce_advance (vb_nonce b) = (n, nonce)" by fastforce
  then have "length n = 12" using assms(3) by (auto simp: chunk_nonce_advance_def)
  from aead_seals [OF assms(1,2) this, of plain "[]" "out @ u16_be (word_of_nat (length plain + 16 + pad) XOR mk)"] assms(4) obtain ct where
    "aead_seal cr (vb_aead b) n [] plain (out @ u16_be (word_of_nat (length plain + 16 + pad) XOR mk)) =
      Inr ((out @ u16_be (word_of_nat (length plain + 16 + pad) XOR mk)) @ ct)" "length ct = length plain + 16"
    "aead_open cr (vb_aead b) n [] ct = Inr plain" by auto
  then show ?thesis using assms(4,5) pad n
    by (intro exI [of _ ct] exI [of _ "\<lambda>i. vb_noise b (i + pad)"]) (simp add: body_seal_chunk_def VM_TAG_def Let_def add.assoc)
qed

lemma mask_twice: "n < 65536 \<Longrightarrow> unat ((word_of_nat n XOR mk) XOR mk :: u16) = n"
  by (simp add: xor.assoc of_nat_u16_bytes)

text \<open>Two body ciphers that agree on everything but the padding bytes to come.\<close>

definition body_sync :: "vmess_body \<Rightarrow> vmess_body \<Rightarrow> bool" where
  "body_sync e d \<longleftrightarrow> vb_aead e = vb_aead d \<and> vb_nonce e = vb_nonce d \<and> vb_framing e = vb_framing d"

definition body_ok :: "vmess_body \<Rightarrow> bool" where
  "body_ok b \<longleftrightarrow> aead_keyed (vb_aead b) \<and> length (cn_base_iv (vb_nonce b)) = 16"

lemma chunk_nonce_iv [simp]: "cn_base_iv (snd (chunk_nonce_advance n)) = cn_base_iv n"
  by (simp add: chunk_nonce_advance_def)

text \<open>The server's reader decodes the chunk.\<close>

lemma vms_chunk:
  assumes "vms_state s = VmLen" and "ui_plain s = []" and "framing_next (vb_framing (vms_dec s)) = ((mk, pad), framing)"
    and "ui_rbuf s = u16_be (word_of_nat (length plain + 16 + pad) XOR mk) @ ct @ padding @ rest"
    and "length ct = length plain + 16" and "length padding = pad" and "length plain \<le> 65000"
    and "aead_open cr (vb_aead (vms_dec s)) (fst (chunk_nonce_advance (vb_nonce (vms_dec s)))) [] ct = Inr plain"
  shows "delivers_until vms_stop vms_need (vms_advance cr) s plain (s\<lparr>ui_rbuf := rest,
    vms_dec := (vms_dec s)\<lparr>vb_framing := framing, vb_nonce := snd (chunk_nonce_advance (vb_nonce (vms_dec s)))\<rparr>\<rparr>)"
proof -
  obtain nonce succ where n: "chunk_nonce_advance (vb_nonce (vms_dec s)) = (nonce, succ)" by fastforce
  let ?n = "length plain + 16 + pad"
  let ?d1 = "(vms_dec s)\<lparr>vb_framing := framing\<rparr>"
  let ?d2 = "(vms_dec s)\<lparr>vb_framing := framing, vb_nonce := succ\<rparr>"
  let ?s1 = "s\<lparr>ui_rbuf := ct @ padding @ rest, vms_dec := ?d1, vms_state := VmPayload ?n pad\<rparr>"
  let ?s2 = "s\<lparr>ui_rbuf := rest, ui_plain := plain, vms_dec := ?d2, vms_state := VmLen\<rparr>"
  have pad: "pad < 64" using framing_next_pad [of "vb_framing (vms_dec s)"] assms(3) by simp
  have w: "u16_from (ui_rbuf s ! 0) (ui_rbuf s ! 1) = word_of_nat ?n XOR mk"
    unfolding assms(4) by (simp add: nth_append u16_from_be)
  have total: "unat ((word_of_nat ?n XOR mk) XOR mk :: u16) = ?n" using assms(7) pad by (intro mask_twice) simp
  have "vms_advance cr s = (Inr (), ?s1)"
    using assms(1-3) total w by (simp add: vms_advance_def Let_def) (simp add: assms(4))
  then have d1: "delivers_until vms_stop vms_need (vms_advance cr) s [] ?s1"
    using assms(1,2,4) by (intro delivers_until_silent) (simp_all add: vms_stop_def vms_need_def)
  have "aead_open cr (vb_aead (vms_dec s)) nonce [] ct = Inr plain" using assms(8) n by simp
  then have "vms_advance cr ?s1 = (Inr (), ?s2)"
    using assms(1,2,5,6) n by (simp add: vms_advance_def VM_TAG_def)
  then have "delivers_until vms_stop vms_need (vms_advance cr) ?s1 (ui_plain ?s2) (?s2\<lparr>ui_plain := []\<rparr>)"
    using assms(5,6) by (intro delivers_until_unit) (simp_all add: vms_stop_def vms_need_def)
  moreover have "?s2\<lparr>ui_plain := []\<rparr> = s\<lparr>ui_rbuf := rest, vms_dec := ?d2\<rparr>" using assms(1,2) by (cases s) simp
  ultimately show ?thesis using delivers_until_trans [OF d1] n by simp
qed

section \<open>Bodies under every framing\<close>

text \<open>A peer of the server's kind: it writes with the same cipher and options the server reads with.\<close>

definition vms_in_step :: "vmess_server_stream \<Rightarrow> vmess_server_stream \<Rightarrow> bool" where
  "vms_in_step p s \<longleftrightarrow> body_sync (vms_enc p) (vms_dec s) \<and> vms_state s = VmLen \<and> ui_plain s = []"

abbreviation vms_heard :: "'a vmess_crypto_scheme \<Rightarrow> vmess_server_stream \<Rightarrow> bytes \<Rightarrow> bytes \<Rightarrow> vmess_server_stream \<Rightarrow> bool" where
  "vms_heard cr \<equiv> heard_by vms_stop vms_need (vms_advance cr) vms_in_step"

lemma vms_seal_heard:
  assumes "aead_lawful cr" and "body_ok (vms_enc p)" and "buf \<noteq> []"
  shows "\<exists>p1. vms_seal cr p buf = (Inr (), p1) \<and> ui_wbuf p1 \<noteq> [] \<and> 0 < vms_pending_plain p1 \<and> body_ok (vms_enc p1) \<and>
    vms_heard cr p (ui_wbuf p1) (take (vms_pending_plain p1) buf) (p1\<lparr>ui_wbuf := []\<rparr>)"
proof -
  let ?n = "min (length buf) (8 * 1024)"
  let ?plain = "take ?n buf" and ?e = "vms_enc p"
  obtain mk pad framing where f: "framing_next (vb_framing ?e) = ((mk, pad), framing)" by (metis prod.exhaust)
  have len: "length ?plain \<le> 65000" by simp
  have ok: "aead_keyed (vb_aead ?e)" "length (cn_base_iv (vb_nonce ?e)) = 16" using assms(2) by (simp_all add: body_ok_def)
  from body_seal_chunk_ok [OF assms(1) ok len f, of "[]"] obtain ct noise where k:
    "body_seal_chunk cr ?e ?plain [] =
      (Inr (u16_be (word_of_nat (length ?plain + 16 + pad) XOR mk) @ ct @ map (vb_noise ?e) [0..<pad]),
       ?e\<lparr>vb_framing := framing, vb_nonce := snd (chunk_nonce_advance (vb_nonce ?e)), vb_noise := noise\<rparr>)"
    "length ct = length ?plain + 16" "aead_open cr (vb_aead ?e) (fst (chunk_nonce_advance (vb_nonce ?e))) [] ct = Inr ?plain" by auto
  let ?wire = "u16_be (word_of_nat (length ?plain + 16 + pad) XOR mk) @ ct @ map (vb_noise ?e) [0..<pad]"
  let ?e1 = "?e\<lparr>vb_framing := framing, vb_nonce := snd (chunk_nonce_advance (vb_nonce ?e)), vb_noise := noise\<rparr>"
  let ?p1 = "p\<lparr>vms_enc := ?e1, ui_wbuf := ?wire, vms_pending_plain := ?n\<rparr>"
  have seal: "vms_seal cr p buf = (Inr (), ?p1)" using k(1) by (simp add: vms_seal_def Let_def)
  have "vms_heard cr p ?wire ?plain (?p1\<lparr>ui_wbuf := []\<rparr>)"
    unfolding heard_by_def
  proof (intro allI impI)
    fix s rest assume s: "vms_in_step p s" "ui_rbuf s = ?wire @ rest"
    have sync: "vb_aead (vms_dec s) = vb_aead ?e" "vb_nonce (vms_dec s) = vb_nonce ?e" "vb_framing (vms_dec s) = vb_framing ?e"
      "vms_state s = VmLen" "ui_plain s = []" using s(1) by (simp_all add: vms_in_step_def body_sync_def)
    have "delivers_until vms_stop vms_need (vms_advance cr) s ?plain (s\<lparr>ui_rbuf := rest,
        vms_dec := (vms_dec s)\<lparr>vb_framing := framing, vb_nonce := snd (chunk_nonce_advance (vb_nonce (vms_dec s)))\<rparr>\<rparr>)"
      by (rule vms_chunk [where ct = ct and padding = "map (vb_noise ?e) [0..<pad]"])
        (use s(2) sync f k(2,3) len in \<open>simp_all only: append_assoc length_map length_upt diff_zero\<close>)
    then show "\<exists>s'. vms_in_step (?p1\<lparr>ui_wbuf := []\<rparr>) s' \<and> ui_rbuf s' = rest \<and> delivers_until vms_stop vms_need (vms_advance cr) s ?plain s'"
      using sync by (intro exI [of _ "s\<lparr>ui_rbuf := rest,
        vms_dec := (vms_dec s)\<lparr>vb_framing := framing, vb_nonce := snd (chunk_nonce_advance (vb_nonce (vms_dec s)))\<rparr>\<rparr>"])
        (simp add: vms_in_step_def body_sync_def)
  qed
  moreover have "?wire \<noteq> []" by (cases "u16_be (word_of_nat (length ?plain + 16 + pad) XOR mk)") (simp_all add: be_bytes_2)
  ultimately show ?thesis using seal ok assms(3) by (intro exI [of _ ?p1]) (simp add: body_ok_def)
qed

interpretation vms_peer: chunk_writer "vms_seal cr" "\<lambda>s _. vms_pending_plain s"
    "\<lambda>s. aead_lawful cr \<and> body_ok (vms_enc s)" "vms_heard cr" for cr :: "'a vmess_crypto_scheme"
proof (unfold_locales, goal_cases)
  case (1 s buf)
  then show ?case using vms_seal_heard [of cr s buf] by fastforce
next
  case (2 s)
  show ?case by (rule heard_by_refl)
next
  case 3
  then show ?case by (rule heard_by_trans)
qed

section \<open>From the client to the server\<close>

definition codec_ok :: "body_codec \<Rightarrow> bool" where
  "codec_ok c \<longleftrightarrow> (\<exists>a. bc_kind c = Some a \<and> aead_keyed a) \<and> length (cn_base_iv (bc_nonce c)) = 16"

definition codec_sync :: "body_codec \<Rightarrow> vmess_body \<Rightarrow> bool" where
  "codec_sync c b \<longleftrightarrow> bc_kind c = Some (vb_aead b) \<and> bc_nonce c = vb_nonce b \<and> vb_framing b = FramePlain"

definition vm_in_step :: "vmess_stream \<Rightarrow> vmess_server_stream \<Rightarrow> bool" where
  "vm_in_step c s \<longleftrightarrow> codec_sync (vm_enc c) (vms_dec s) \<and> vms_state s = VmLen \<and> ui_plain s = []"

abbreviation vm_heard :: "'a vmess_crypto_scheme \<Rightarrow> vmess_stream \<Rightarrow> bytes \<Rightarrow> bytes \<Rightarrow> vmess_stream \<Rightarrow> bool" where
  "vm_heard cr \<equiv> heard_by vms_stop vms_need (vms_advance cr) vm_in_step"

lemma codec_seal_chunk_ok:
  assumes "aead_lawful cr" and "bc_kind c = Some a" and "aead_keyed a" and "length (cn_base_iv (bc_nonce c)) = 16" and "length plain \<le> 65000"
  shows "\<exists>ct. codec_seal_chunk cr c plain out =
      (Inr (out @ u16_be (word_of_nat (length plain + 16)) @ ct), c\<lparr>bc_nonce := snd (chunk_nonce_advance (bc_nonce c))\<rparr>) \<and>
    length ct = length plain + 16 \<and> aead_open cr a (fst (chunk_nonce_advance (bc_nonce c))) [] ct = Inr plain"
proof -
  obtain n nonce where n: "chunk_nonce_advance (bc_nonce c) = (n, nonce)" by fastforce
  then have "length n = 12" using assms(4) by (auto simp: chunk_nonce_advance_def)
  from aead_seals [OF assms(1,3) this, of plain "[]" "out @ u16_be (word_of_nat (length plain + 16))"] assms(5) obtain ct where
    "aead_seal cr a n [] plain (out @ u16_be (word_of_nat (length plain + 16))) = Inr ((out @ u16_be (word_of_nat (length plain + 16))) @ ct)"
    "length ct = length plain + 16" "aead_open cr a n [] ct = Inr plain" by auto
  then show ?thesis using assms(2,5) n by (intro exI [of _ ct]) (simp add: codec_seal_chunk_def Let_def)
qed

lemma vm_seal_heard:
  assumes "aead_lawful cr" and "codec_ok (vm_enc c)" and "buf \<noteq> []"
  shows "\<exists>c1. vm_seal cr c buf = (Inr (), c1) \<and> ui_wbuf c1 \<noteq> [] \<and> 0 < vm_pending_plain c1 \<and> codec_ok (vm_enc c1) \<and>
    vm_heard cr c (ui_wbuf c1) (take (vm_pending_plain c1) buf) (c1\<lparr>ui_wbuf := []\<rparr>)"
proof -
  let ?n = "min (length buf) 8192"
  let ?plain = "take ?n buf" and ?e = "vm_enc c"
  have len: "length ?plain \<le> 65000" by simp
  obtain a where a: "bc_kind ?e = Some a" "aead_keyed a" "length (cn_base_iv (bc_nonce ?e)) = 16" using assms(2) by (auto simp: codec_ok_def)
  from codec_seal_chunk_ok [OF assms(1) a len, of "[]"] obtain ct where k:
    "codec_seal_chunk cr ?e ?plain [] =
      (Inr (u16_be (word_of_nat (length ?plain + 16)) @ ct), ?e\<lparr>bc_nonce := snd (chunk_nonce_advance (bc_nonce ?e))\<rparr>)"
    "length ct = length ?plain + 16" "aead_open cr a (fst (chunk_nonce_advance (bc_nonce ?e))) [] ct = Inr ?plain" by auto
  let ?wire = "u16_be (word_of_nat (length ?plain + 16)) @ ct"
  let ?c1 = "c\<lparr>vm_enc := ?e\<lparr>bc_nonce := snd (chunk_nonce_advance (bc_nonce ?e))\<rparr>, ui_wbuf := ?wire, vm_pending_plain := ?n\<rparr>"
  have seal: "vm_seal cr c buf = (Inr (), ?c1)" using k(1) by (simp add: vm_seal_def Let_def)
  have heard: "\<exists>s'. vm_in_step (?c1\<lparr>ui_wbuf := []\<rparr>) s' \<and> ui_rbuf s' = rest \<and> delivers_until vms_stop vms_need (vms_advance cr) s ?plain s'"
    if s: "vm_in_step c s" "ui_rbuf s = ?wire @ rest" for s rest
  proof -
    have sync: "vb_aead (vms_dec s) = a" "vb_nonce (vms_dec s) = bc_nonce ?e" "vb_framing (vms_dec s) = FramePlain"
      "vms_state s = VmLen" "ui_plain s = []" using s(1) a(1) by (simp_all add: vm_in_step_def codec_sync_def)
    let ?s = "s\<lparr>ui_rbuf := rest, vms_dec := (vms_dec s)\<lparr>vb_framing := FramePlain, vb_nonce := snd (chunk_nonce_advance (vb_nonce (vms_dec s)))\<rparr>\<rparr>"
    have "delivers_until vms_stop vms_need (vms_advance cr) s ?plain ?s"
      by (rule vms_chunk [where ct = ct and padding = "[]" and mk = 0 and pad = 0])
        (use s(2) sync k(2,3) len in \<open>simp_all only: append_assoc framing_next.simps xor.right_neutral list.size append_Nil add_0_right\<close>)
    then show ?thesis using sync a(1) by (intro exI [of _ ?s]) (simp add: vm_in_step_def codec_sync_def)
  qed
  have "?wire \<noteq> []" by (simp add: be_bytes_2)
  then show ?thesis using seal a assms(3) heard unfolding heard_by_def by (intro exI [of _ ?c1]) (simp add: codec_ok_def)
qed

interpretation vm_chunks: chunk_writer "vm_seal cr" "\<lambda>s _. vm_pending_plain s"
    "\<lambda>c. aead_lawful cr \<and> codec_ok (vm_enc c)" "vm_heard cr" for cr :: "'a vmess_crypto_scheme"
proof (unfold_locales, goal_cases)
  case (1 c buf)
  then show ?case using vm_seal_heard [of cr c buf] by fastforce
next
  case (2 c)
  show ?case by (rule heard_by_refl)
next
  case 3
  then show ?case by (rule heard_by_trans)
qed

section \<open>From the server to the client\<close>

definition vm_answers :: "vmess_server_stream \<Rightarrow> vmess_stream \<Rightarrow> bool" where
  "vm_answers s c \<longleftrightarrow> codec_sync (vm_dec c) (vms_enc s) \<and> vm_state c = BodyLen \<and> ui_plain c = []"

lemma vm_chunk:
  assumes "vm_state c = BodyLen" and "ui_plain c = []" and "bc_kind (vm_dec c) = Some a"
    and "ui_rbuf c = u16_be (word_of_nat (length plain + 16)) @ ct @ rest" and "length ct = length plain + 16" and "length plain \<le> 65000"
    and "aead_open cr a (fst (chunk_nonce_advance (bc_nonce (vm_dec c)))) [] ct = Inr plain"
  shows "delivers vm_need (vm_advance cr) c plain
    (c\<lparr>ui_rbuf := rest, vm_dec := (vm_dec c)\<lparr>bc_nonce := snd (chunk_nonce_advance (bc_nonce (vm_dec c)))\<rparr>\<rparr>)"
proof -
  obtain nonce succ where n: "chunk_nonce_advance (bc_nonce (vm_dec c)) = (nonce, succ)" by fastforce
  let ?n = "length plain + 16"
  let ?c1 = "c\<lparr>ui_rbuf := ct @ rest, vm_state := BodyPayload (word_of_nat ?n)\<rparr>"
  let ?c2 = "c\<lparr>ui_rbuf := rest, ui_plain := plain, vm_dec := (vm_dec c)\<lparr>bc_nonce := succ\<rparr>, vm_state := BodyLen\<rparr>"
  have w: "u16_from (ui_rbuf c ! 0) (ui_rbuf c ! 1) = word_of_nat ?n" unfolding assms(4) by (simp add: nth_append u16_from_be)
  have total: "unat (word_of_nat ?n :: u16) = ?n" by (rule of_nat_u16_bytes) (use assms(6) in simp)
  have "vm_advance cr c = (Inr (), ?c1)" using assms(1) w by (simp add: vm_advance_def) (simp add: assms(4))
  then have d1: "delivers vm_need (vm_advance cr) c [] ?c1"
    using assms(1,2,4) by (intro delivers_silent) (simp_all add: vm_need_def)
  have "aead_open cr a nonce [] ct = Inr plain" using assms(7) n by simp
  then have "vm_advance cr ?c1 = (Inr (), ?c2)"
    using assms(2,3,5) n total by (simp add: vm_advance_def VM_TAG_def)
  then have "delivers vm_need (vm_advance cr) ?c1 (ui_plain ?c2) (?c2\<lparr>ui_plain := []\<rparr>)"
    using assms(5) total by (intro delivers_unit) (simp_all add: vm_need_def)
  moreover have "?c2\<lparr>ui_plain := []\<rparr> = c\<lparr>ui_rbuf := rest, vm_dec := (vm_dec c)\<lparr>bc_nonce := succ\<rparr>\<rparr>" using assms(1,2) by (cases c) simp
  ultimately show ?thesis using delivers_trans [OF d1] n by simp
qed

abbreviation vms_answered :: "'a vmess_crypto_scheme \<Rightarrow> vmess_server_stream \<Rightarrow> bytes \<Rightarrow> bytes \<Rightarrow> vmess_server_stream \<Rightarrow> bool" where
  "vms_answered cr \<equiv> heard_by (\<lambda>_. False) vm_need (vm_advance cr) vm_answers"

text \<open>The server's chunk without framing options, on the wire.\<close>

lemma vms_seal_plain:
  assumes "aead_lawful cr" and "body_ok (vms_enc s)" and "vb_framing (vms_enc s) = FramePlain" and "buf \<noteq> []"
  shows "\<exists>s1. vms_seal cr s buf = (Inr (), s1) \<and> ui_wbuf s1 \<noteq> [] \<and> 0 < vms_pending_plain s1 \<and>
    body_ok (vms_enc s1) \<and> vb_framing (vms_enc s1) = FramePlain \<and>
    vms_answered cr s (ui_wbuf s1) (take (vms_pending_plain s1) buf) (s1\<lparr>ui_wbuf := []\<rparr>)"
proof -
  let ?n = "min (length buf) (8 * 1024)"
  let ?plain = "take ?n buf" and ?e = "vms_enc s"
  have len: "length ?plain \<le> 65000" by simp
  have f: "framing_next (vb_framing ?e) = ((0, 0), FramePlain)" using assms(3) by simp
  have ok: "aead_keyed (vb_aead ?e)" "length (cn_base_iv (vb_nonce ?e)) = 16" using assms(2) by (simp_all add: body_ok_def)
  from body_seal_chunk_ok [OF assms(1) ok len f, of "[]"] obtain ct noise where k:
    "body_seal_chunk cr ?e ?plain [] = (Inr (u16_be (word_of_nat (length ?plain + 16)) @ ct),
       ?e\<lparr>vb_framing := FramePlain, vb_nonce := snd (chunk_nonce_advance (vb_nonce ?e)), vb_noise := noise\<rparr>)"
    "length ct = length ?plain + 16" "aead_open cr (vb_aead ?e) (fst (chunk_nonce_advance (vb_nonce ?e))) [] ct = Inr ?plain" by auto
  let ?wire = "u16_be (word_of_nat (length ?plain + 16)) @ ct"
  let ?s1 = "s\<lparr>vms_enc := ?e\<lparr>vb_framing := FramePlain, vb_nonce := snd (chunk_nonce_advance (vb_nonce ?e)), vb_noise := noise\<rparr>,
    ui_wbuf := ?wire, vms_pending_plain := ?n\<rparr>"
  have seal: "vms_seal cr s buf = (Inr (), ?s1)" using k(1) by (simp add: vms_seal_def Let_def)
  have heard: "\<exists>c'. vm_answers (?s1\<lparr>ui_wbuf := []\<rparr>) c' \<and> ui_rbuf c' = rest \<and> delivers vm_need (vm_advance cr) c ?plain c'"
    if c: "vm_answers s c" "ui_rbuf c = ?wire @ rest" for c rest
  proof -
    have sync: "bc_kind (vm_dec c) = Some (vb_aead ?e)" "bc_nonce (vm_dec c) = vb_nonce ?e" "vm_state c = BodyLen" "ui_plain c = []"
      using c(1) by (simp_all add: vm_answers_def codec_sync_def)
    let ?c = "c\<lparr>ui_rbuf := rest, vm_dec := (vm_dec c)\<lparr>bc_nonce := snd (chunk_nonce_advance (bc_nonce (vm_dec c)))\<rparr>\<rparr>"
    have "delivers vm_need (vm_advance cr) c ?plain ?c"
      by (rule vm_chunk [where ct = ct]) (use c(2) sync k(2,3) len in \<open>simp_all only: append_assoc\<close>)
    then show ?thesis using sync by (intro exI [of _ ?c]) (simp add: vm_answers_def codec_sync_def)
  qed
  have "?wire \<noteq> []" by (simp add: be_bytes_2)
  then show ?thesis using seal ok assms(4) heard unfolding heard_by_def by (intro exI [of _ ?s1]) (simp add: body_ok_def)
qed

interpretation vms_answer: chunk_writer "vms_seal cr" "\<lambda>s _. vms_pending_plain s"
    "\<lambda>s. aead_lawful cr \<and> body_ok (vms_enc s) \<and> vb_framing (vms_enc s) = FramePlain" "vms_answered cr"
  for cr :: "'a vmess_crypto_scheme"
proof (unfold_locales, goal_cases)
  case (1 s buf)
  then show ?case using vms_seal_plain [of cr s buf] by fastforce
next
  case (2 s)
  show ?case by (rule heard_by_refl)
next
  case 3
  then show ?case by (rule heard_by_trans)
qed

section \<open>The instruction header\<close>

lemma nibbles:
  assumes "p < 16"
  shows "(push_bit 4 (word_of_nat p) OR security_wire sec :: u8) AND 0x0f = security_wire sec"
    and "unat (drop_bit 4 (push_bit 4 (word_of_nat p) OR security_wire sec :: u8)) = p"
proof -
  have all: "\<forall>p \<in> set [0..<16]. \<forall>w \<in> {3, 4, 5 :: u8}. (push_bit 4 (word_of_nat p) OR w) AND 0x0f = w \<and>
      unat (drop_bit 4 (push_bit 4 (word_of_nat p) OR w)) = p"
    by (simp add: upt_rec)
  have "p \<in> set [0..<16]" "security_wire sec \<in> {3, 4, 5}" using assms by (auto simp: security_wire_def split: vmess_security.split)
  then show "(push_bit 4 (word_of_nat p) OR security_wire sec :: u8) AND 0x0f = security_wire sec"
    "unat (drop_bit 4 (push_bit 4 (word_of_nat p) OR security_wire sec :: u8)) = p" using all by blast+
qed

definition serves :: "u8 option \<Rightarrow> vmess_security \<Rightarrow> bool" where
  "serves required sec \<longleftrightarrow> sec \<noteq> VsNone \<and> required \<in> {None, Some (security_wire sec)}"

lemma split_tail: "length c = n \<Longrightarrow> take (length (b @ c) - n) (b @ c) = b \<and> drop (length (b @ c) - n) (b @ c) = c"
  by simp

lemma parse_instruction_built:
  assumes "vmess_random_ok r" and "wire_addr target" and "serves required sec"
  shows "parse_instruction required (vmess_instruction r sec target is_udp) =
    Inr \<lparr>vq_iv = vr_iv r, vq_key = vr_key r, vq_response_v = vr_header r, vq_opt = 1, vq_security = security_wire sec,
      vq_target = target, vq_is_udp = is_udp\<rparr>"
proof -
  let ?p = "unat (vr_padding r) mod 16"
  let ?ps = "push_bit 4 (word_of_nat ?p) OR security_wire sec :: u8"
  let ?cmd = "if is_udp then 0x02 else 0x01 :: u8"
  let ?front = "[0x01] @ vr_iv r @ vr_key r @ [vr_header r, 0x01, ?ps, 0, ?cmd]"
  let ?body = "?front @ enc_port_first target @ replicate ?p 0"
  let ?hdr = "?body @ u32_be (fnv1a32 ?body)"
  have len: "length (vr_iv r) = 16" "length (vr_key r) = 16" using assms(1) by (simp_all add: vmess_random_ok_def)
  have built: "vmess_instruction r sec target is_udp = ?hdr"
    using encode_port_first_append [of "[0x01] @ vr_iv r @ vr_key r @ [vr_header r] @ [0x01] @ [?ps] @ [0] @ [?cmd]" "na_host target" "na_port target"]
    unfolding vmess_instruction_def Let_def by (simp only: append_assoc append_Cons append_Nil)
  have n: "\<not> length ?hdr < 42" using len by simp
  have i: "?hdr ! 0 = 0x01" "?hdr ! 33 = vr_header r" "?hdr ! 34 = 0x01" "?hdr ! 35 = ?ps" "?hdr ! 37 = ?cmd"
    using len by (simp_all add: nth_append)
  have iv: "take 16 (drop 1 ?hdr) = vr_iv r" "take 16 (drop 17 ?hdr) = vr_key r" using len by simp_all
  have sum: "take (length ?hdr - 4) ?hdr = ?body" "drop (length ?hdr - 4) ?hdr = u32_be (fnv1a32 ?body)"
    using split_tail [of "u32_be (fnv1a32 ?body)" 4 ?body] by simp_all
  have crc: "fnv1a32 ?body = be_word (u32_be (fnv1a32 ?body))" by (simp add: be_word_be_bytes)
  have "drop 38 ?hdr = enc_port_first target @ replicate ?p 0 @ u32_be (fnv1a32 ?body)" using len by simp
  then have d: "decode_port_first_addr (drop 38 ?hdr) = Inr (target, length (enc_port_first target))"
    using decode_port_first_encode [OF assms(2)] by simp
  have sec: "security_wire sec \<noteq> 5" "security_wire sec = 3 \<or> security_wire sec = 4" "required = None \<or> required = Some (security_wire sec)"
    using assms(3) by (auto simp: serves_def security_wire_def split: vmess_security.split)
  have nib: "?ps AND 0x0f = security_wire sec" "unat (drop_bit 4 ?ps) = ?p" by (rule nibbles, simp)+
  have fits: "\<not> length ?body < 38 + length (enc_port_first target) + ?p" using len by simp
  show ?thesis unfolding built parse_instruction_def Let_def i iv sum d nib
    using n crc sec fits by (auto simp: OPT_CHUNK_STREAM_def OPT_AUTH_LEN_def)
qed

section \<open>The auth id\<close>

lemma sint_u64: "- (2 ^ 63) \<le> sint (w :: u64)" "sint (w :: u64) < 2 ^ 63"
  using sint_ge [of w] sint_lt [of w] by simp_all

lemma signed_take_63:
  "- (2 ^ 63) \<le> k \<Longrightarrow> k < 2 ^ 63 \<Longrightarrow> signed_take_bit 63 k = (k :: int)"
  "2 ^ 63 \<le> k \<Longrightarrow> k < 2 ^ 64 \<Longrightarrow> signed_take_bit 63 k = k - (2 ^ 64 :: int)"
proof -
  show a: "- (2 ^ 63) \<le> k \<Longrightarrow> k < 2 ^ 63 \<Longrightarrow> signed_take_bit 63 k = (k :: int)" for k
    by (simp add: signed_take_bit_int_eq_self)
  assume k: "2 ^ 63 \<le> k" "k < 2 ^ 64"
  have "signed_take_bit 63 k = signed_take_bit 63 (k - 2 ^ 64)"
    unfolding signed_take_bit_eq_iff_take_bit_eq by (simp add: take_bit_eq_mod)
  then show "signed_take_bit 63 k = k - 2 ^ 64" using a [of "k - 2 ^ 64"] k by simp
qed

lemma auth_drift_window:
  assumes "0 \<le> sint now" and "sint now < 2 ^ 62"
  shows "AUTH_ID_WINDOW <s auth_drift now ts \<longleftrightarrow> 120 < \<bar>sint now - sint ts\<bar> \<and> sint ts \<noteq> sint now - 2 ^ 63"
proof -
  define d where "d = now - ts"
  have d: "sint d = signed_take_bit 63 (sint now - sint ts)" by (simp add: d_def sint_word_ariths)
  have m: "sint (- d) = signed_take_bit 63 (- sint d)" by (simp add: sint_word_ariths)
  have drift: "sint (auth_drift now ts) = (if sint d < 0 then sint (- d) else sint d)"
    by (simp add: auth_drift_def Let_def word_sless_alt flip: d_def)
  have neg: "sint (- d) = (if sint d = - (2 ^ 63) then - (2 ^ 63) else - sint d)"
    using m sint_u64 [of d] signed_take_63 [of "- sint d"] by auto
  have win: "sint AUTH_ID_WINDOW = 120" by (simp add: AUTH_ID_WINDOW_def)
  show ?thesis
  proof (cases "sint now - sint ts < 2 ^ 63")
    case True
    then have "sint d = sint now - sint ts" using d assms sint_u64 [of ts] signed_take_63(1) [of "sint now - sint ts"] by simp
    then show ?thesis using True assms sint_u64 [of ts] unfolding word_sless_alt drift neg win by auto
  next
    case False
    then have "sint d = sint now - sint ts - 2 ^ 64"
      using d sint_u64 [of now] sint_u64 [of ts] signed_take_63(2) [of "sint now - sint ts"] by simp
    then show ?thesis using False assms sint_u64 [of ts] sint_u64 [of now] unfolding word_sless_alt drift neg win by auto
  qed
qed

lemma auth_id_opens:
  assumes "aes_lawful cr" and "length rand4 = 4"
  shows "length (create_auth_id cr key ts rand4) = 16 \<and>
    verify_auth_id cr now key (create_auth_id cr key ts rand4) =
      (if AUTH_ID_WINDOW <s auth_drift now ts then Inl (Protocol ''vmess: auth id timestamp drift exceeds replay window'') else Inr ())"
proof -
  let ?k = "take 16 (vmess_kdf cr key [KDF_AUTH_ID_ENC_KEY])" and ?body = "be_bytes 8 ts @ rand4"
  let ?plain = "?body @ u32_be (vc_crc32 cr ?body)"
  have "length ?k = 16" "length ?plain = 16" using assms(2) by simp_all
  then have aes: "length (cr_aes_encrypt cr ?k ?plain) = 16" "cr_aes_decrypt cr ?k (cr_aes_encrypt cr ?k ?plain) = ?plain"
    using assms(1) unfolding aes_lawful_def by blast+
  have "take 12 ?plain = ?body" "take 4 (drop 12 ?plain) = u32_be (vc_crc32 cr ?body)" "take 8 ?plain = be_bytes 8 ts" using assms(2) by simp_all
  then show ?thesis using aes by (simp add: create_auth_id_def verify_auth_id_def Let_def be_word_be_bytes)
qed

text \<open>
  C27: which auth ids pass. With the clock between 1970 and \<open>2\<^sup>6\<^sup>2\<close> seconds after it, the id a client with the same command key made at second \<open>ts\<close>
  is accepted exactly when the two clocks differ by at most 120 seconds, or when \<open>ts\<close> is \<open>2\<^sup>6\<^sup>3\<close> seconds behind: there
  the difference wraps to the least \<open>i64\<close>, whose absolute value wraps to itself, a negative number.
\<close>

theorem vmess_auth_window:
  assumes "aes_lawful cr" and "length rand4 = 4" and "0 \<le> sint now" and "sint now < 2 ^ 62"
  shows "verify_auth_id cr now key (create_auth_id cr key ts rand4) = Inr () \<longleftrightarrow>
    \<bar>sint now - sint ts\<bar> \<le> 120 \<or> sint ts = sint now - 2 ^ 63"
  using auth_id_opens [OF assms(1,2), of key ts now] auth_drift_window [OF assms(3,4), of ts] by auto

text \<open>The ciphers and the account of the instances below.\<close>

definition plain_vmess :: vmess_crypto where
  "plain_vmess = \<lparr>
    cr_seal = (\<lambda>c nonce aad plain. Some (plain @ replicate 16 0)),
    cr_open = (\<lambda>c nonce aad ct. if length ct < 16 \<or> drop (length ct - 16) ct \<noteq> replicate 16 0 then None else Some (take (length ct - 16) ct)),
    cr_md5 = (\<lambda>_. 0), cr_hmac_sha1 = (\<lambda>_ _. 0), cr_blake3 = be_word, cr_derive_key = (\<lambda>_ _. 0),
    cr_aes_encrypt = (\<lambda>_ block. block), cr_aes_decrypt = (\<lambda>_ block. block), cr_base64 = (\<lambda>_. None),
    vc_sha256 = (\<lambda>_. 0), vc_hmac_sha256 = (\<lambda>_ _. 0), vc_crc32 = (\<lambda>_. 0)\<rparr>"

lemma plain_vmess_lawful: "aead_lawful plain_vmess" "aes_lawful plain_vmess"
  by (auto simp: aead_lawful_def aes_lawful_def plain_vmess_def split: if_splits)

theorem vmess_auth_window_witness:
  "verify_auth_id plain_vmess 1000 [] (create_auth_id plain_vmess [] 1120 (replicate 4 0)) = Inr () \<and>
   verify_auth_id plain_vmess 1000 [] (create_auth_id plain_vmess [] 1121 (replicate 4 0)) \<noteq> Inr () \<and>
   verify_auth_id plain_vmess 1000 [] (create_auth_id plain_vmess [] (1000 - 2 ^ 63) (replicate 4 0)) = Inr ()"
  using vmess_auth_window [OF plain_vmess_lawful(2), of "replicate 4 0" 1000 "[]" 1120]
    vmess_auth_window [OF plain_vmess_lawful(2), of "replicate 4 0" 1000 "[]" 1121]
    vmess_auth_window [OF plain_vmess_lawful(2), of "replicate 4 0" 1000 "[]" "1000 - 2 ^ 63"] by simp

section \<open>The handshake\<close>

lemma kdf_keys [simp]: "length (kdf16 cr key paths) = 16" "length (kdf12 cr key paths) = 12"
  by (simp_all add: kdf16_def kdf12_def)

text \<open>A block sealed under a pair of KDF paths opens under them.\<close>

lemma kdf_block:
  assumes "aead_lawful cr" and "length plain < 2 ^ 32"
  shows "\<exists>a ct. aead_new Aes128Gcm (kdf16 cr key kpath) = Inr a \<and>
    aead_seal cr a (kdf12 cr iv npath) aad plain out = Inr (out @ ct) \<and> length ct = length plain + 16 \<and>
    aead_open cr a (kdf12 cr iv npath) aad ct = Inr plain"
proof -
  obtain a where a: "aead_new Aes128Gcm (kdf16 cr key kpath) = Inr a" "aead_keyed a"
    using aead_new_ok [of "kdf16 cr key kpath" Aes128Gcm] by (auto simp: key_len_def)
  then show ?thesis using aead_seals [OF assms(1) a(2), of "kdf12 cr iv npath" plain aad out] assms(2) by auto
qed

lemma header_sealed:
  fixes cr :: "'a vmess_crypto_scheme" and key rand4 nonce hdr :: bytes and ts :: u64
  assumes "aead_lawful cr" and "length hdr \<le> 65535"
  defines "auth_id \<equiv> create_auth_id cr key ts rand4"
  shows "\<exists>a b lc hc. seal_aead_header cr ts rand4 nonce key hdr = Inr (auth_id @ lc @ nonce @ hc) \<and> length lc = 18 \<and> length hc = length hdr + 16 \<and>
    aead_new Aes128Gcm (kdf16 cr key [KDF_HEADER_LEN_KEY, auth_id, nonce]) = Inr a \<and>
    aead_open cr a (kdf12 cr key [KDF_HEADER_LEN_NONCE, auth_id, nonce]) auth_id lc = Inr (u16_be (word_of_nat (length hdr))) \<and>
    aead_new Aes128Gcm (kdf16 cr key [KDF_HEADER_PAYLOAD_KEY, auth_id, nonce]) = Inr b \<and>
    aead_open cr b (kdf12 cr key [KDF_HEADER_PAYLOAD_NONCE, auth_id, nonce]) auth_id hc = Inr hdr"
proof -
  obtain a lc where a: "aead_new Aes128Gcm (kdf16 cr key [KDF_HEADER_LEN_KEY, auth_id, nonce]) = Inr a"
    "aead_seal cr a (kdf12 cr key [KDF_HEADER_LEN_NONCE, auth_id, nonce]) auth_id (u16_be (word_of_nat (length hdr))) [] = Inr ([] @ lc)"
    "length lc = 18" "aead_open cr a (kdf12 cr key [KDF_HEADER_LEN_NONCE, auth_id, nonce]) auth_id lc = Inr (u16_be (word_of_nat (length hdr)))"
    using kdf_block [OF assms(1), of "u16_be (word_of_nat (length hdr))"] by fastforce
  obtain b hc where b: "aead_new Aes128Gcm (kdf16 cr key [KDF_HEADER_PAYLOAD_KEY, auth_id, nonce]) = Inr b"
    "aead_seal cr b (kdf12 cr key [KDF_HEADER_PAYLOAD_NONCE, auth_id, nonce]) auth_id hdr (auth_id @ lc @ nonce) = Inr ((auth_id @ lc @ nonce) @ hc)"
    "length hc = length hdr + 16" "aead_open cr b (kdf12 cr key [KDF_HEADER_PAYLOAD_NONCE, auth_id, nonce]) auth_id hc = Inr hdr"
    using kdf_block [OF assms(1), of hdr] assms(2) by fastforce
  show ?thesis using a b assms(2)
    by (intro exI [of _ a] exI [of _ b] exI [of _ lc] exI [of _ hc])
      (simp add: seal_aead_header_def Let_def kdf16_def kdf12_def flip: auth_id_def)
qed

lemma request_read:
  assumes "aead_lawful cr" and "aes_lawful cr" and "length hdr \<le> 65535" and "length rand4 = 4" and "length nonce = 8"
    and "seal_aead_header cr ts rand4 nonce (vs_cmd_key srv) hdr = Inr wire" and "\<not> AUTH_ID_WINDOW <s auth_drift now ts"
    and "steady (tr_in t)" and "arrived (tr_in t) = wire @ rest"
  shows "\<exists>es. steady es \<and> arrived es = rest \<and> vmess_read_request cr now srv t = (parse_instruction (vs_required srv) hdr, t\<lparr>tr_in := es\<rparr>)"
proof -
  let ?id = "create_auth_id cr (vs_cmd_key srv) ts rand4"
  note id = auth_id_opens [OF assms(2,4), of "vs_cmd_key srv" ts now]
  from header_sealed [OF assms(1,3), of ts rand4 nonce "vs_cmd_key srv"] assms(6) obtain a b lc hc where k:
    "wire = ?id @ lc @ nonce @ hc" "length lc = 18" "length hc = length hdr + 16"
    "aead_new Aes128Gcm (kdf16 cr (vs_cmd_key srv) [KDF_HEADER_LEN_KEY, ?id, nonce]) = Inr a"
    "aead_open cr a (kdf12 cr (vs_cmd_key srv) [KDF_HEADER_LEN_NONCE, ?id, nonce]) ?id lc = Inr (u16_be (word_of_nat (length hdr)))"
    "aead_new Aes128Gcm (kdf16 cr (vs_cmd_key srv) [KDF_HEADER_PAYLOAD_KEY, ?id, nonce]) = Inr b"
    "aead_open cr b (kdf12 cr (vs_cmd_key srv) [KDF_HEADER_PAYLOAD_NONCE, ?id, nonce]) ?id hc = Inr hdr" by auto
  let ?head = "?id @ lc @ nonce"
  have head: "length ?head = 42" "take 16 ?head = ?id" "take 18 (drop 16 ?head) = lc" "take 8 (drop 34 ?head) = nonce"
    using id k(2) assms(5) by simp_all
  obtain es where es: "t_read_exact 42 t = (Inr ?head, t\<lparr>tr_in := es\<rparr>)" "steady es" "arrived es = hc @ rest"
    using t_read_exact_steady [OF assms(8), of 42] assms(9) k(1) head(1) by (auto simp: append_assoc [symmetric] simp del: append_assoc)
  have n: "unat (word_of_nat (length hdr) :: u16) = length hdr" using assms(3) by (simp add: of_nat_u16_bytes)
  obtain es' where es': "t_read_exact (length hdr + VM_TAG) (t\<lparr>tr_in := es\<rparr>) = (Inr hc, t\<lparr>tr_in := es'\<rparr>)" "steady es'" "arrived es' = rest"
    using t_read_exact_steady [of "t\<lparr>tr_in := es\<rparr>" "length hdr + VM_TAG"] es(2,3) k(3) by (auto simp: VM_TAG_def)
  have ok: "verify_auth_id cr now (vs_cmd_key srv) ?id = Inr ()" using id assms(7) by simp
  show ?thesis using es'(2,3)
    by (intro exI [of _ es']) (simp only: vmess_read_request_def t_bind_def es(1) Let_def head t_lift_def sum.case prod.case ok k(4-7) u16_from_be
      n es'(1) One_nat_def)
qed

lemma enc_port_first_length: "length (enc_port_first a) \<le> 259"
  by (auto simp: encode_port_first_addr_def Let_def split: host.split ip_addr.split)

lemma length_instruction:
  assumes "vmess_random_ok r"
  shows "length (vmess_instruction r sec target is_udp) \<le> 400"
proof -
  have "length (encode_port_first_addr (b # buf) h p) = Suc (length buf) + length (encode_port_first_addr [] h p)" for b buf h p
    by (subst encode_port_first_append) simp
  moreover have "unat (vr_padding r) mod 16 < 16" by simp
  ultimately show ?thesis using assms enc_port_first_length [of target]
    unfolding vmess_instruction_def vmess_random_ok_def Let_def by simp
qed

text \<open>Client and server key their body ciphers alike.\<close>

lemma bodies_agree:
  assumes "sec \<noteq> VsNone" and "length key = 16" and "length iv = 16"
  shows "\<exists>a. aead_keyed a \<and> body_codec_new cr sec key iv = Inr \<lparr>bc_kind = Some a, bc_nonce = chunk_nonce_new iv\<rparr> \<and>
    (\<forall>noise. vmess_body_new cr noise (security_wire sec) key iv 1 =
      Inr \<lparr>vb_aead = a, vb_nonce = chunk_nonce_new iv, vb_framing = FramePlain, vb_noise = noise\<rparr>)"
proof -
  have f: "framing_from_opt 1 iv = FramePlain" by (simp add: framing_from_opt_def OPT_CHUNK_MASKING_def OPT_GLOBAL_PADDING_def)
  have "length (chacha_key cr key) = 32" by (simp add: chacha_key_def Let_def)
  then show ?thesis
    using assms aead_new_ok [of key Aes128Gcm] aead_new_ok [of "chacha_key cr key" Chacha20Poly1305] f
    by (cases sec) (auto simp: body_codec_new_def vmess_body_new_def security_wire_def key_len_def)
qed

lemma sha256_16_length [simp]: "length (sha256_16 cr bs) = 16"
  by (simp add: sha256_16_def)

text \<open>What the handshake leaves behind.\<close>

lemma vmess_handshake_ok:
  assumes "aead_lawful cr" and "vmess_random_ok r" and "vmo_security cfg \<noteq> VsNone" and "flows (tr_script t)"
  shows "\<exists>c wire es a b. vmess_handshake cr now r cfg target is_udp t = (Inr c, ui_inner c) \<and>
    seal_aead_header cr now (vr_rand4 r) (vr_nonce r) (cmd_key cr (vmo_uuid cfg)) (vmess_instruction r (vmo_security cfg) target is_udp) = Inr wire \<and>
    ui_inner c = t\<lparr>tr_script := es, tr_out := tr_out t @ wire\<rparr> \<and> flows es \<and> length es \<le> length (tr_script t) \<and>
    aead_keyed a \<and> aead_keyed b \<and>
    body_codec_new cr (vmo_security cfg) (vr_key r) (vr_iv r) = Inr \<lparr>bc_kind = Some a, bc_nonce = chunk_nonce_new (vr_iv r)\<rparr> \<and>
    body_codec_new cr (vmo_security cfg) (sha256_16 cr (vr_key r)) (sha256_16 cr (vr_iv r)) =
      Inr \<lparr>bc_kind = Some b, bc_nonce = chunk_nonce_new (sha256_16 cr (vr_iv r))\<rparr> \<and>
    c = \<lparr>ui_inner = ui_inner c, ui_rbuf = [], ui_plain = [], ui_wbuf = [],
         vm_enc = \<lparr>bc_kind = Some a, bc_nonce = chunk_nonce_new (vr_iv r)\<rparr>,
         vm_dec = \<lparr>bc_kind = Some b, bc_nonce = chunk_nonce_new (sha256_16 cr (vr_iv r))\<rparr>,
         vm_resp_key = sha256_16 cr (vr_key r), vm_resp_iv = sha256_16 cr (vr_iv r), vm_expected = vr_header r,
         vm_pending_plain = 0, vm_state = HeaderLen\<rparr>"
proof -
  let ?hdr = "vmess_instruction r (vmo_security cfg) target is_udp"
  have "length ?hdr \<le> 65535" using length_instruction [OF assms(2), of "vmo_security cfg" target is_udp] by simp
  then obtain wire where w: "seal_aead_header cr now (vr_rand4 r) (vr_nonce r) (cmd_key cr (vmo_uuid cfg)) ?hdr = Inr wire"
    using header_sealed [OF assms(1)] by blast
  from t_write_all_flows [OF assms(4), of wire] obtain es where es: "flows es" "length es \<le> length (tr_script t)"
    "t_write_all wire t = (Inr (), t\<lparr>tr_script := es, tr_out := tr_out t @ wire\<rparr>)" by blast
  have iv: "length (vr_iv r) = 16" "length (vr_key r) = 16" using assms(2) by (simp_all add: vmess_random_ok_def)
  from bodies_agree [OF assms(3) iv(2,1), of cr] obtain a where a: "aead_keyed a"
    "body_codec_new cr (vmo_security cfg) (vr_key r) (vr_iv r) = Inr \<lparr>bc_kind = Some a, bc_nonce = chunk_nonce_new (vr_iv r)\<rparr>" by blast
  from bodies_agree [OF assms(3), of "sha256_16 cr (vr_key r)" "sha256_16 cr (vr_iv r)" cr] obtain b where b: "aead_keyed b"
    "body_codec_new cr (vmo_security cfg) (sha256_16 cr (vr_key r)) (sha256_16 cr (vr_iv r)) =
      Inr \<lparr>bc_kind = Some b, bc_nonce = chunk_nonce_new (sha256_16 cr (vr_iv r))\<rparr>" by auto
  let ?c = "\<lparr>ui_inner = t\<lparr>tr_script := es, tr_out := tr_out t @ wire\<rparr>, ui_rbuf = [], ui_plain = [], ui_wbuf = [],
         vm_enc = \<lparr>bc_kind = Some a, bc_nonce = chunk_nonce_new (vr_iv r)\<rparr>,
         vm_dec = \<lparr>bc_kind = Some b, bc_nonce = chunk_nonce_new (sha256_16 cr (vr_iv r))\<rparr>,
         vm_resp_key = sha256_16 cr (vr_key r), vm_resp_iv = sha256_16 cr (vr_iv r), vm_expected = vr_header r,
         vm_pending_plain = 0, vm_state = HeaderLen\<rparr>"
  have "vmess_handshake cr now r cfg target is_udp t = (Inr ?c, ui_inner ?c)"
    by (simp add: vmess_handshake_def Let_def w a b es(3) t_bind_def [of "t_write_all _"])
  then show ?thesis using w es a b by (intro exI [of _ ?c] exI [of _ wire] exI [of _ es] exI [of _ a] exI [of _ b]) simp
qed

lemma response_sealed:
  assumes "aead_lawful cr"
  shows "\<exists>a b lc hc. vmess_response cr rk riv v opt = Inr (lc @ hc) \<and> length lc = 18 \<and> length hc = 20 \<and>
    aead_new Aes128Gcm (kdf16 cr rk [KDF_RESP_LEN_KEY]) = Inr a \<and> aead_open cr a (kdf12 cr riv [KDF_RESP_LEN_IV]) [] lc = Inr (u16_be 4) \<and>
    aead_new Aes128Gcm (kdf16 cr rk [KDF_RESP_PAYLOAD_KEY]) = Inr b \<and>
    aead_open cr b (kdf12 cr riv [KDF_RESP_PAYLOAD_IV]) [] hc = Inr [v, opt, 0, 0]"
proof -
  obtain a lc where a: "aead_new Aes128Gcm (kdf16 cr rk [KDF_RESP_LEN_KEY]) = Inr a"
    "aead_seal cr a (kdf12 cr riv [KDF_RESP_LEN_IV]) [] (u16_be 4) [] = Inr ([] @ lc)" "length lc = 18"
    "aead_open cr a (kdf12 cr riv [KDF_RESP_LEN_IV]) [] lc = Inr (u16_be 4)"
    using kdf_block [OF assms, of "u16_be 4"] by fastforce
  obtain b hc where "aead_new Aes128Gcm (kdf16 cr rk [KDF_RESP_PAYLOAD_KEY]) = Inr b"
    "aead_seal cr b (kdf12 cr riv [KDF_RESP_PAYLOAD_IV]) [] [v, opt, 0, 0] lc = Inr (lc @ hc)" "length hc = 20"
    "aead_open cr b (kdf12 cr riv [KDF_RESP_PAYLOAD_IV]) [] hc = Inr [v, opt, 0, 0]"
    using kdf_block [OF assms, of "[v, opt, 0, 0]"] by fastforce
  with a show ?thesis by (intro exI [of _ a] exI [of _ b] exI [of _ lc] exI [of _ hc]) (simp add: vmess_response_def)
qed

text \<open>The client reads the response header and is then at the first chunk.\<close>

lemma response_read:
  assumes "aead_lawful cr" and "vmess_response cr (vm_resp_key c) (vm_resp_iv c) (vm_expected c) opt = Inr wire"
    and "vm_state c = HeaderLen" and "ui_plain c = []" and "ui_rbuf c = wire @ rest"
  shows "delivers vm_need (vm_advance cr) c [] (c\<lparr>ui_rbuf := rest, vm_state := BodyLen\<rparr>)"
proof -
  from response_sealed [OF assms(1), of "vm_resp_key c" "vm_resp_iv c" "vm_expected c" opt] assms(2) obtain a b lc hc where k:
    "wire = lc @ hc" "length lc = 18" "length hc = 20" "aead_new Aes128Gcm (kdf16 cr (vm_resp_key c) [KDF_RESP_LEN_KEY]) = Inr a"
    "aead_open cr a (kdf12 cr (vm_resp_iv c) [KDF_RESP_LEN_IV]) [] lc = Inr (u16_be 4)"
    "aead_new Aes128Gcm (kdf16 cr (vm_resp_key c) [KDF_RESP_PAYLOAD_KEY]) = Inr b"
    "aead_open cr b (kdf12 cr (vm_resp_iv c) [KDF_RESP_PAYLOAD_IV]) [] hc = Inr [vm_expected c, opt, 0, 0]" by auto
  let ?c1 = "c\<lparr>ui_rbuf := hc @ rest, vm_state := HeaderPayload 4\<rparr>"
  let ?c2 = "?c1\<lparr>ui_rbuf := rest, vm_state := BodyLen\<rparr>"
  have "vm_advance cr c = (Inr (), ?c1)"
    using assms(3,5) k by (simp add: vm_advance_def resp_open_def u16_from_be flip: kdf16_def kdf12_def)
  then have d1: "delivers vm_need (vm_advance cr) c [] ?c1"
    using assms(3-5) k(1,2) by (intro delivers_silent) (simp_all add: vm_need_def)
  have "vm_advance cr ?c1 = (Inr (), ?c2)"
    using k by (simp add: vm_advance_def resp_open_def VM_TAG_def slice_get_def flip: kdf16_def kdf12_def)
  then have d2: "delivers vm_need (vm_advance cr) ?c1 [] ?c2"
    using assms(4) k(3) by (intro delivers_silent) (simp_all add: vm_need_def VM_TAG_def)
  show ?thesis using delivers_trans [OF d1 d2] by simp
qed

text \<open>The server accepts what the handshake wrote; both directions are then in step.\<close>

lemma vmess_accepts:
  assumes "aead_lawful cr" and "aes_lawful cr" and "vmess_random_ok r" and "wire_addr target"
    and "serves (vs_required srv) (vmo_security cfg)" and "vs_cmd_key srv = cmd_key cr (vmo_uuid cfg)"
    and "\<not> AUTH_ID_WINDOW <s auth_drift now' now" and "flows (tr_script t)" and "tr_out t = []"
    and hs: "vmess_handshake cr now r cfg target is_udp t = (Inr c, t')"
    and u: "steady (tr_in u)" "arrived (tr_in u) = tr_out (ui_inner c) @ rest" "flows (tr_script u)"
  shows "\<exists>es sc enc dec wire. steady es \<and> arrived es = rest \<and> flows sc \<and> length sc \<le> length (tr_script u) \<and>
    vmess_response cr (vm_resp_key c) (vm_resp_iv c) (vm_expected c) 1 = Inr wire \<and>
    (let u' = u\<lparr>tr_in := es, tr_script := sc, tr_out := tr_out u @ wire\<rparr> in
     vmess_handle cr now' noise srv u = (Inr (if is_udp then VmUdp enc dec else VmTcp target
       \<lparr>ui_inner = u', ui_rbuf = [], ui_plain = [], ui_wbuf = [], vms_enc = enc, vms_dec = dec, vms_pending_plain = 0, vms_state = VmLen\<rparr>), u')) \<and>
    codec_sync (vm_enc c) dec \<and> codec_sync (vm_dec c) enc \<and> body_ok enc \<and> body_ok dec"
proof -
  let ?hdr = "vmess_instruction r (vmo_security cfg) target is_udp"
  have sec: "vmo_security cfg \<noteq> VsNone" using assms(5) by (simp add: serves_def)
  have iv: "length (vr_iv r) = 16" "length (vr_key r) = 16" "length (vr_rand4 r) = 4" "length (vr_nonce r) = 8"
    using assms(3) by (simp_all add: vmess_random_ok_def)
  from vmess_handshake_ok [OF assms(1,3) sec assms(8), of now target is_udp] hs obtain wire es0 a b where h:
    "seal_aead_header cr now (vr_rand4 r) (vr_nonce r) (vs_cmd_key srv) ?hdr = Inr wire" "tr_out (ui_inner c) = wire"
    "body_codec_new cr (vmo_security cfg) (vr_key r) (vr_iv r) = Inr \<lparr>bc_kind = Some a, bc_nonce = chunk_nonce_new (vr_iv r)\<rparr>"
    "body_codec_new cr (vmo_security cfg) (sha256_16 cr (vr_key r)) (sha256_16 cr (vr_iv r)) =
      Inr \<lparr>bc_kind = Some b, bc_nonce = chunk_nonce_new (sha256_16 cr (vr_iv r))\<rparr>"
    "vm_enc c = \<lparr>bc_kind = Some a, bc_nonce = chunk_nonce_new (vr_iv r)\<rparr>"
    "vm_dec c = \<lparr>bc_kind = Some b, bc_nonce = chunk_nonce_new (sha256_16 cr (vr_iv r))\<rparr>"
    "vm_resp_key c = sha256_16 cr (vr_key r)" "vm_resp_iv c = sha256_16 cr (vr_iv r)" "vm_expected c = vr_header r"
    using assms(6,9) by (auto dest: arg_cong [of _ _ vm_enc] arg_cong [of _ _ vm_dec] arg_cong [of _ _ vm_resp_key]
      arg_cong [of _ _ vm_resp_iv] arg_cong [of _ _ vm_expected])
  have len: "length ?hdr \<le> 65535" using length_instruction [OF assms(3), of "vmo_security cfg" target is_udp] by simp
  from request_read [OF assms(1,2) len iv(3,4) h(1) assms(7) u(1), of rest] u(2) h(2) obtain es where es: "steady es" "arrived es = rest"
    "vmess_read_request cr now' srv u = (parse_instruction (vs_required srv) ?hdr, u\<lparr>tr_in := es\<rparr>)" by auto
  note q = parse_instruction_built [OF assms(3-5), of is_udp]
  from response_sealed [OF assms(1), of "vm_resp_key c" "vm_resp_iv c" "vm_expected c" 1] obtain resp where
    resp: "vmess_response cr (vm_resp_key c) (vm_resp_iv c) (vm_expected c) 1 = Inr resp" by blast
  from bodies_agree [OF sec iv(2,1), of cr] h(3) have dec: "aead_keyed a" "\<And>noise. vmess_body_new cr noise (security_wire (vmo_security cfg)) (vr_key r) (vr_iv r) 1 =
      Inr \<lparr>vb_aead = a, vb_nonce = chunk_nonce_new (vr_iv r), vb_framing = FramePlain, vb_noise = noise\<rparr>" by auto
  from bodies_agree [OF sec, of "sha256_16 cr (vr_key r)" "sha256_16 cr (vr_iv r)" cr] h(4) have enc: "aead_keyed b"
    "\<And>noise. vmess_body_new cr noise (security_wire (vmo_security cfg)) (sha256_16 cr (vr_key r)) (sha256_16 cr (vr_iv r)) 1 =
      Inr \<lparr>vb_aead = b, vb_nonce = chunk_nonce_new (sha256_16 cr (vr_iv r)), vb_framing = FramePlain, vb_noise = noise\<rparr>" by auto
  from t_write_all_flows [of "u\<lparr>tr_in := es\<rparr>" resp] u(3) obtain sc where sc: "flows sc" "length sc \<le> length (tr_script u)"
    "t_write_all resp (u\<lparr>tr_in := es\<rparr>) = (Inr (), u\<lparr>tr_in := es, tr_script := sc, tr_out := tr_out u @ resp\<rparr>)" by auto
  let ?dec = "\<lparr>vb_aead = a, vb_nonce = chunk_nonce_new (vr_iv r), vb_framing = FramePlain, vb_noise = snd noise\<rparr>"
  let ?enc = "\<lparr>vb_aead = b, vb_nonce = chunk_nonce_new (sha256_16 cr (vr_iv r)), vb_framing = FramePlain, vb_noise = fst noise\<rparr>"
  let ?u' = "u\<lparr>tr_in := es, tr_script := sc, tr_out := tr_out u @ resp\<rparr>"
  have "vmess_handle cr now' noise srv u = (Inr (if is_udp then VmUdp ?enc ?dec else VmTcp target
       \<lparr>ui_inner = ?u', ui_rbuf = [], ui_plain = [], ui_wbuf = [], vms_enc = ?enc, vms_dec = ?dec, vms_pending_plain = 0, vms_state = VmLen\<rparr>), ?u')"
    using resp h(7-9) by (simp add: vmess_handle_def t_bind_def es(3) q Let_def dec(2) enc(2) sc(3))
  moreover have "codec_sync (vm_enc c) ?dec" "codec_sync (vm_dec c) ?enc" "body_ok ?enc" "body_ok ?dec"
    using h(5,6) dec(1) enc(1) iv(1) by (simp_all add: codec_sync_def body_ok_def chunk_nonce_new_def)
  ultimately show ?thesis using es(1,2) sc(1,2) resp unfolding Let_def by - (rule exI [of _ es], rule exI [of _ sc], rule exI [of _ ?enc],
    rule exI [of _ ?dec], rule exI [of _ resp], simp)
qed

section \<open>Whole sessions\<close>

definition clocks_agree :: "u64 \<Rightarrow> u64 \<Rightarrow> bool" where
  "clocks_agree now' now \<longleftrightarrow> 0 \<le> sint now' \<and> sint now' < 2 ^ 62 \<and> \<bar>sint now' - sint now\<bar> \<le> 120"

lemma clocks_in_window: "clocks_agree now' now \<Longrightarrow> \<not> AUTH_ID_WINDOW <s auth_drift now' now"
  using auth_drift_window [of now' now] by (auto simp: clocks_agree_def)

text \<open>The client's writes.\<close>

lemma vmess_client_session:
  assumes "aead_lawful cr" and "vmess_random_ok r" and "vmo_security cfg \<noteq> VsNone" and "flows (tr_script t)"
    and "length (tr_script t) + length (concat bufs) < fuel"
  shows "\<exists>c c1 out es. vmess_handshake cr now r cfg target False t = (Inr c, ui_inner c) \<and>
    drive_writes (vm_poll_write cr) fuel c bufs = Some (Inr (), c1\<lparr>ui_inner := (ui_inner c)\<lparr>tr_script := es, tr_out := tr_out (ui_inner c) @ out\<rparr>\<rparr>) \<and>
    vm_heard cr c out (concat bufs) c1 \<and> vm_dec c1 = vm_dec c \<and> vm_state c1 = HeaderLen \<and> ui_plain c1 = [] \<and> ui_rbuf c1 = [] \<and>
    vm_resp_key c1 = vm_resp_key c \<and> vm_resp_iv c1 = vm_resp_iv c \<and> vm_expected c1 = vm_expected c"
proof -
  from vmess_handshake_ok [OF assms(1-4), of now target False] obtain c wire es a b where h:
    "vmess_handshake cr now r cfg target False t = (Inr c, ui_inner c)" "ui_inner c = t\<lparr>tr_script := es, tr_out := tr_out t @ wire\<rparr>"
    "flows es" "length es \<le> length (tr_script t)" "aead_keyed a" and eq:
    "c = \<lparr>ui_inner = ui_inner c, ui_rbuf = [], ui_plain = [], ui_wbuf = [],
         vm_enc = \<lparr>bc_kind = Some a, bc_nonce = chunk_nonce_new (vr_iv r)\<rparr>,
         vm_dec = \<lparr>bc_kind = Some b, bc_nonce = chunk_nonce_new (sha256_16 cr (vr_iv r))\<rparr>,
         vm_resp_key = sha256_16 cr (vr_key r), vm_resp_iv = sha256_16 cr (vr_iv r), vm_expected = vr_header r,
         vm_pending_plain = 0, vm_state = HeaderLen\<rparr>" by blast
  have c: "vmess_handshake cr now r cfg target False t = (Inr c, ui_inner c)" "flows (tr_script (ui_inner c))"
    "length (tr_script (ui_inner c)) \<le> length (tr_script t)" "vm_state c = HeaderLen" "ui_rbuf c = []" "ui_plain c = []" "ui_wbuf c = []"
    "aead_keyed a" "vm_enc c = \<lparr>bc_kind = Some a, bc_nonce = chunk_nonce_new (vr_iv r)\<rparr>"
    using h arg_cong [OF eq, of vm_state] arg_cong [OF eq, of ui_rbuf] arg_cong [OF eq, of ui_plain] arg_cong [OF eq, of ui_wbuf]
      arg_cong [OF eq, of vm_enc] by simp_all
  have "aead_lawful cr \<and> codec_ok (vm_enc c)" using assms(1,2) c(8,9) by (simp add: codec_ok_def chunk_nonce_new_def vmess_random_ok_def)
  from vm_chunks.writes_heard [OF this, of bufs] obtain out c1 where w:
    "sealed_each (vm_seal cr) (\<lambda>s _. vm_pending_plain s) c bufs out c1" "vm_heard cr c out (concat bufs) c1" by blast
  let ?f = "\<lambda>c. (vm_dec c, vm_state c, ui_plain c, ui_rbuf c, vm_resp_key c, vm_resp_iv c, vm_expected c)"
  have "?f c1 = ?f c"
    by (rule sealed_each_frame [OF w(1)]) (auto simp: vm_seal_def Let_def split: prod.splits sum.splits)
  moreover from vm_writer.writes_each [OF w(1) c(7,2), of fuel] assms(5) c(3) obtain es' where
    "drive_writes (vm_poll_write cr) fuel c bufs = Some (Inr (), c1\<lparr>ui_inner := (ui_inner c)\<lparr>tr_script := es', tr_out := tr_out (ui_inner c) @ out\<rparr>\<rparr>)"
    by auto
  ultimately show ?thesis using c w(2) by auto
qed

lemma step_inner:
  "vm_in_step c (s\<lparr>ui_inner := i\<rparr>) = vm_in_step c s" "vm_in_step c (s\<lparr>ui_rbuf := b\<rparr>) = vm_in_step c s"
  "vm_answers (s\<lparr>ui_inner := i\<rparr>) c = vm_answers s c" "vm_answers s (c\<lparr>ui_inner := i\<rparr>) = vm_answers s c"
  by (simp_all add: vm_in_step_def vm_answers_def)

text \<open>Reading to the end what a writer in step has sent.\<close>

lemma vms_reads:
  assumes "vm_heard cr c out p c'" and "vm_in_step c s" and "ui_rbuf s = []" and "steady (tr_in (ui_inner s))"
    and "arrived (tr_in (ui_inner s)) = out" and "0 < room" and "backlog (tr_in (ui_inner s)) + length p < fuel"
  shows "drive_read (vms_poll_read cr room) fuel s = Some (p, None)"
proof -
  have plain: "ui_plain s = []" using assms(2) by (simp add: vm_in_step_def)
  then have e: "s\<lparr>ui_plain := []\<rparr> = s" by simp
  have "drains_until vms_stop vms_need (vms_advance cr) (arriving s) p None"
    by (rule heard_by_drains [OF assms(1)]) (use assms(2,3,5) in \<open>simp_all add: arriving_def step_inner, auto simp: vm_in_step_def vms_need_def\<close>)
  then have "drains_until vms_stop vms_need (vms_advance cr) (arriving (s\<lparr>ui_plain := []\<rparr>)) p None" unfolding e .
  from vms_reader.reads_all [OF this assms(4,6), of fuel] show ?thesis using plain assms(7) by simp
qed

lemma vm_reads:
  assumes "vms_answered cr s out p s'" and "aead_lawful cr" and "vmess_response cr (vm_resp_key c) (vm_resp_iv c) (vm_expected c) opt = Inr wire"
    and "vm_state c = HeaderLen" and "ui_plain c = []" and "ui_rbuf c = []" and "codec_sync (vm_dec c) (vms_enc s)"
    and "steady (tr_in (ui_inner c))" and "arrived (tr_in (ui_inner c)) = wire @ out" and "0 < room" and "backlog (tr_in (ui_inner c)) + length p < fuel"
  shows "drive_read (vm_poll_read cr room) fuel c = Some (p, None)"
proof -
  let ?a = "arriving c" and ?b = "(arriving c)\<lparr>ui_rbuf := out, vm_state := BodyLen\<rparr>"
  have "delivers vm_need (vm_advance cr) ?a [] ?b"
    by (rule response_read [OF assms(2), of _ opt wire]) (use assms in \<open>simp_all add: arriving_def\<close>)
  moreover have "drains vm_need (vm_advance cr) ?b p None"
    by (rule heard_by_drains [OF assms(1)]) (use assms(5,7) in \<open>simp_all add: arriving_def vm_answers_def vm_need_def\<close>)
  ultimately have d: "drains vm_need (vm_advance cr) ?a p None" unfolding delivers_until_def by (metis append_Nil)
  have e: "c\<lparr>ui_plain := []\<rparr> = c" using assms(5) by simp
  have "drains vm_need (vm_advance cr) (arriving (c\<lparr>ui_plain := []\<rparr>)) p None" unfolding e by (rule d)
  from vm_reader.reads_all [OF this assms(8,10), of fuel] show ?thesis using assms(5,11) by simp
qed

text \<open>
  C12: a VMess session carries both directions, whatever the schedules of the two sockets. When the server knows the
  client's uuid and admits its security, and the clocks are at most 120 seconds apart, the handshake and all writes succeed;
  from any steady arrival of those bytes the server recovers the target and reads what was written; and what the server then
  writes the client reads back, in order and complete, behind a response header it has verified.
\<close>

theorem vmess_session_delivered:
  assumes "aead_lawful cr" and "aes_lawful cr" and "vmess_random_ok r" and "wire_addr target"
    and "serves (vs_required srv) (vmo_security cfg)" and "vs_cmd_key srv = cmd_key cr (vmo_uuid cfg)"
    and "clocks_agree now' now" and "flows (tr_script t)" and "tr_out t = []"
    and "length (tr_script t) + length (concat bufs) < fuel"
  shows "\<exists>c t' c'. vmess_handshake cr now r cfg target False t = (Inr c, t') \<and>
    drive_writes (vm_poll_write cr) fuel c bufs = Some (Inr (), c') \<and>
    (\<forall>u. steady (tr_in u) \<longrightarrow> arrived (tr_in u) = tr_out (ui_inner c') \<longrightarrow> flows (tr_script u) \<longrightarrow> tr_out u = [] \<longrightarrow>
      (\<exists>s u'. vmess_handle cr now' noise srv u = (Inr (VmTcp target s), u') \<and>
        (\<forall>room more. 0 < room \<longrightarrow> backlog (tr_in (ui_inner s)) + length (concat bufs) < more \<longrightarrow>
          drive_read (vms_poll_read cr room) more s = Some (concat bufs, None)) \<and>
        (\<forall>replies more. length (tr_script u) + length (concat replies) < more \<longrightarrow>
          (\<exists>s'. drive_writes (vms_poll_write cr) more s replies = Some (Inr (), s') \<and>
            (\<forall>es room more. steady es \<longrightarrow> arrived es = tr_out (ui_inner s') \<longrightarrow> 0 < room \<longrightarrow> backlog es + length (concat replies) < more \<longrightarrow>
              drive_read (vm_poll_read cr room) more (c'\<lparr>ui_inner := (ui_inner c')\<lparr>tr_in := es\<rparr>\<rparr>) = Some (concat replies, None))))))"
proof -
  have sec: "vmo_security cfg \<noteq> VsNone" using assms(5) by (simp add: serves_def)
  from vmess_client_session [OF assms(1,3) sec assms(8,10), of now target] obtain c c1 out es0 where c:
    "vmess_handshake cr now r cfg target False t = (Inr c, ui_inner c)"
    "drive_writes (vm_poll_write cr) fuel c bufs = Some (Inr (), c1\<lparr>ui_inner := (ui_inner c)\<lparr>tr_script := es0, tr_out := tr_out (ui_inner c) @ out\<rparr>\<rparr>)"
    "vm_heard cr c out (concat bufs) c1" "vm_dec c1 = vm_dec c" "vm_state c1 = HeaderLen" "ui_plain c1 = []" "ui_rbuf c1 = []"
    "vm_resp_key c1 = vm_resp_key c" "vm_resp_iv c1 = vm_resp_iv c" "vm_expected c1 = vm_expected c" by blast
  let ?c' = "c1\<lparr>ui_inner := (ui_inner c)\<lparr>tr_script := es0, tr_out := tr_out (ui_inner c) @ out\<rparr>\<rparr>"
  have "\<exists>s u'. vmess_handle cr now' noise srv u = (Inr (VmTcp target s), u') \<and>
        (\<forall>room more. 0 < room \<longrightarrow> backlog (tr_in (ui_inner s)) + length (concat bufs) < more \<longrightarrow>
          drive_read (vms_poll_read cr room) more s = Some (concat bufs, None)) \<and>
        (\<forall>replies more. length (tr_script u) + length (concat replies) < more \<longrightarrow>
          (\<exists>s'. drive_writes (vms_poll_write cr) more s replies = Some (Inr (), s') \<and>
            (\<forall>es room more. steady es \<longrightarrow> arrived es = tr_out (ui_inner s') \<longrightarrow> 0 < room \<longrightarrow> backlog es + length (concat replies) < more \<longrightarrow>
              drive_read (vm_poll_read cr room) more (?c'\<lparr>ui_inner := (ui_inner ?c')\<lparr>tr_in := es\<rparr>\<rparr>) = Some (concat replies, None))))"
    if u: "steady (tr_in u)" "arrived (tr_in u) = tr_out (ui_inner c) @ out" "flows (tr_script u)" "tr_out u = []" for u
  proof -
    from vmess_accepts [OF assms(1-6) clocks_in_window [OF assms(7)] assms(8,9) c(1) u(1-3), of noise] obtain es sc enc dec wire where a:
      "steady es" "arrived es = out" "flows sc" "length sc \<le> length (tr_script u)"
      "vmess_response cr (vm_resp_key c) (vm_resp_iv c) (vm_expected c) 1 = Inr wire"
      "vmess_handle cr now' noise srv u = (Inr (VmTcp target \<lparr>ui_inner = u\<lparr>tr_in := es, tr_script := sc, tr_out := tr_out u @ wire\<rparr>,
         ui_rbuf = [], ui_plain = [], ui_wbuf = [], vms_enc = enc, vms_dec = dec, vms_pending_plain = 0, vms_state = VmLen\<rparr>),
         u\<lparr>tr_in := es, tr_script := sc, tr_out := tr_out u @ wire\<rparr>)"
      "codec_sync (vm_enc c) dec" "codec_sync (vm_dec c) enc" "body_ok enc" by (simp add: Let_def) blast
    let ?s = "\<lparr>ui_inner = u\<lparr>tr_in := es, tr_script := sc, tr_out := tr_out u @ wire\<rparr>,
         ui_rbuf = [], ui_plain = [], ui_wbuf = [], vms_enc = enc, vms_dec = dec, vms_pending_plain = 0, vms_state = VmLen\<rparr>"
    have reads: "drive_read (vms_poll_read cr room) more ?s = Some (concat bufs, None)"
      if "0 < room" "backlog (tr_in (ui_inner ?s)) + length (concat bufs) < more" for room more
      by (rule vms_reads [OF c(3)]) (use a that in \<open>simp_all add: vm_in_step_def\<close>)
    have writes: "\<exists>s'. drive_writes (vms_poll_write cr) more ?s replies = Some (Inr (), s') \<and>
        (\<forall>es room more. steady es \<longrightarrow> arrived es = tr_out (ui_inner s') \<longrightarrow> 0 < room \<longrightarrow> backlog es + length (concat replies) < more \<longrightarrow>
          drive_read (vm_poll_read cr room) more (?c'\<lparr>ui_inner := (ui_inner ?c')\<lparr>tr_in := es\<rparr>\<rparr>) = Some (concat replies, None))"
      if fuel: "length (tr_script u) + length (concat replies) < more" for replies more
    proof -
      have "aead_lawful cr \<and> body_ok (vms_enc ?s) \<and> vb_framing (vms_enc ?s) = FramePlain" using assms(1) a(8,9) by (simp add: codec_sync_def)
      from vms_answer.writes_heard [OF this, of replies] obtain sent s1 where w:
        "sealed_each (vms_seal cr) (\<lambda>s _. vms_pending_plain s) ?s replies sent s1" "vms_answered cr ?s sent (concat replies) s1" by blast
      from vms_writer.writes_each [OF w(1), of more] a(3,4) fuel obtain es1 where dw: "drive_writes (vms_poll_write cr) more ?s replies =
          Some (Inr (), s1\<lparr>ui_inner := (ui_inner ?s)\<lparr>tr_script := es1, tr_out := tr_out (ui_inner ?s) @ sent\<rparr>\<rparr>)" by auto
      have "drive_read (vm_poll_read cr room) more (?c'\<lparr>ui_inner := (ui_inner ?c')\<lparr>tr_in := es2\<rparr>\<rparr>) = Some (concat replies, None)"
        if "steady es2" "arrived es2 = wire @ sent" "0 < room" "backlog es2 + length (concat replies) < more" for es2 room more
        by (rule vm_reads [OF w(2) assms(1), where opt = 1 and wire = wire]) (use a(5,8) c(4-10) that in simp_all)
      then show ?thesis using dw u(4) by (intro exI [of _ "s1\<lparr>ui_inner := (ui_inner ?s)\<lparr>tr_script := es1, tr_out := tr_out (ui_inner ?s) @ sent\<rparr>\<rparr>"]) simp
    qed
    show ?thesis using a(6) reads writes by blast
  qed
  then show ?thesis using c(1,2) by (intro exI [of _ c]) auto
qed

text \<open>The account and socket of the instance.\<close>

definition sample_vmess :: vmess_out where
  "sample_vmess = \<lparr>vmo_server = ''s'', vmo_port = 443, vmo_uuid = 7, vmo_security = VsChacha20Poly1305\<rparr>"

definition sample_vmess_server :: vmess_server where
  "sample_vmess_server = \<lparr>vs_cmd_key = cmd_key plain_vmess 7, vs_required = None\<rparr>"

definition sample_random :: vmess_random where
  "sample_random = \<lparr>vr_key = replicate 16 1, vr_iv = replicate 16 2, vr_header = 3, vr_padding = 5, vr_rand4 = replicate 4 6, vr_nonce = replicate 8 9\<rparr>"

definition vmess_target :: net_addr where
  "vmess_target = net_addr_new (Ip (V4 0x01020304)) 443"

definition vmess_socket :: transport where
  "vmess_socket = \<lparr>tr_out = [], tr_script = [Accept 3, WritePending], tr_in = []\<rparr>"

lemma vmess_sample_facts:
  "vmess_random_ok sample_random" "wire_addr vmess_target" "serves (vs_required sample_vmess_server) (vmo_security sample_vmess)"
  "vs_cmd_key sample_vmess_server = cmd_key plain_vmess (vmo_uuid sample_vmess)" "clocks_agree 1100 1000"
  "flows (tr_script vmess_socket)" "tr_out vmess_socket = []" "length (tr_script vmess_socket) = 2"
  by (simp_all add: vmess_random_ok_def sample_random_def vmess_target_def serves_def sample_vmess_def sample_vmess_server_def
    clocks_agree_def vmess_socket_def wire_addr_def wire_host_def net_addr_new_def flows_def)

theorem vmess_session_delivered_witness:
  "\<exists>c' s u' s' es fuel.
    vmess_handle plain_vmess 1100 (\<lambda>_. 0, \<lambda>_. 0) sample_vmess_server (vmess_socket\<lparr>tr_in := trickle (tr_out (ui_inner (c' :: vmess_stream)))\<rparr>) =
      (Inr (VmTcp vmess_target s), u') \<and>
    drive_read (vms_poll_read plain_vmess 3) fuel s = Some (concat [[1, 2], [3]], None) \<and>
    drive_writes (vms_poll_write plain_vmess) 100 s [[5], [6, 7]] = Some (Inr (), s') \<and>
    drive_read (vm_poll_read plain_vmess 2) fuel (c'\<lparr>ui_inner := (ui_inner c')\<lparr>tr_in := trickle (tr_out (ui_inner s'))\<rparr>\<rparr>) =
      Some (concat [[5], [6, 7]], None)"
proof -
  let ?n = "(\<lambda>_. 0, \<lambda>_. 0) :: (nat \<Rightarrow> u8) \<times> (nat \<Rightarrow> u8)"
  from vmess_session_delivered [OF plain_vmess_lawful vmess_sample_facts(1-7), of "[[1, 2], [3]]" 100 ?n]
  obtain c' :: vmess_stream where c': "\<And>u. steady (tr_in u) \<Longrightarrow> arrived (tr_in u) = tr_out (ui_inner c') \<Longrightarrow> flows (tr_script u) \<Longrightarrow> tr_out u = [] \<Longrightarrow>
      (\<exists>s u'. vmess_handle plain_vmess 1100 ?n sample_vmess_server u = (Inr (VmTcp vmess_target s), u') \<and>
        (\<forall>room more. 0 < room \<longrightarrow> backlog (tr_in (ui_inner s)) + length (concat [[1, 2 :: u8], [3]]) < more \<longrightarrow>
          drive_read (vms_poll_read plain_vmess room) more s = Some (concat [[1, 2], [3]], None)) \<and>
        (\<forall>replies more. length (tr_script u) + length (concat replies) < more \<longrightarrow>
          (\<exists>s'. drive_writes (vms_poll_write plain_vmess) more s replies = Some (Inr (), s') \<and>
            (\<forall>es room more. steady es \<longrightarrow> arrived es = tr_out (ui_inner s') \<longrightarrow> 0 < room \<longrightarrow> backlog es + length (concat replies) < more \<longrightarrow>
              drive_read (vm_poll_read plain_vmess room) more (c'\<lparr>ui_inner := (ui_inner c')\<lparr>tr_in := es\<rparr>\<rparr>) = Some (concat replies, None)))))"
    using vmess_sample_facts(8) by auto
  let ?u = "vmess_socket\<lparr>tr_in := trickle (tr_out (ui_inner c'))\<rparr>"
  obtain s u' where s: "vmess_handle plain_vmess 1100 ?n sample_vmess_server ?u = (Inr (VmTcp vmess_target s), u')"
    "\<And>room more. 0 < room \<Longrightarrow> backlog (tr_in (ui_inner s)) + length (concat [[1, 2 :: u8], [3]]) < more \<Longrightarrow>
       drive_read (vms_poll_read plain_vmess room) more s = Some (concat [[1, 2], [3]], None)"
    "\<And>replies more. length (tr_script ?u) + length (concat replies) < more \<Longrightarrow>
       (\<exists>s'. drive_writes (vms_poll_write plain_vmess) more s replies = Some (Inr (), s') \<and>
         (\<forall>es room more. steady es \<longrightarrow> arrived es = tr_out (ui_inner s') \<longrightarrow> 0 < room \<longrightarrow> backlog es + length (concat replies) < more \<longrightarrow>
           drive_read (vm_poll_read plain_vmess room) more (c'\<lparr>ui_inner := (ui_inner c')\<lparr>tr_in := es\<rparr>\<rparr>) = Some (concat replies, None)))"
    using c' [of ?u] vmess_sample_facts(6,7) by (auto simp: trickle_arrives)
  from s(3) [of "[[5], [6, 7]]" 100] vmess_sample_facts(8) obtain s' where s':
    "drive_writes (vms_poll_write plain_vmess) 100 s [[5], [6, 7]] = Some (Inr (), s')"
    "\<And>es room more. steady es \<Longrightarrow> arrived es = tr_out (ui_inner s') \<Longrightarrow> 0 < room \<Longrightarrow> backlog es + length (concat [[5], [6, 7 :: u8]]) < more \<Longrightarrow>
       drive_read (vm_poll_read plain_vmess room) more (c'\<lparr>ui_inner := (ui_inner c')\<lparr>tr_in := es\<rparr>\<rparr>) = Some (concat [[5], [6, 7]], None)" by auto
  let ?es = "trickle (tr_out (ui_inner s'))"
  let ?fuel = "backlog (tr_in (ui_inner s)) + backlog ?es + 4"
  have "drive_read (vms_poll_read plain_vmess 3) ?fuel s = Some (concat [[1, 2], [3]], None)" by (rule s(2)) simp_all
  moreover have "drive_read (vm_poll_read plain_vmess 2) ?fuel (c'\<lparr>ui_inner := (ui_inner c')\<lparr>tr_in := ?es\<rparr>\<rparr>) = Some (concat [[5], [6, 7]], None)"
    by (rule s'(2)) (simp_all add: trickle_arrives)
  ultimately show ?thesis using s(1) s'(1) by blast
qed

end
