(* ===== verification/Spec2Isabelle.thy ===== *)
theory Spec2Isabelle
  imports Edns Socks Vless_Trojan Relay Grpc_Flow Ss_Session Ss_Replay Vmess_Session
begin

text \<open>
  A verification development for RustCrash (src/), a rule-based proxy: an engine (src/engine) that accepts
  connections, decides by rules where they go and carries them there, and a control program (src/core,
  src/cmd). The development models the part of the engine that decides: addresses, DNS, rules, sniffing,
  routing, the groups of outbounds, the plain proxy protocols at both of its ends and the gRPC carrier below them.

  \<^bold>\<open>How the parts interact.\<close> A client asks the DNS engine for a name. In fake-IP mode it gets an address
  of the fake-IP pool; otherwise the query is forwarded to the upstreams that DNS rules and the
  nameserver policy select. The client then connects through an inbound; the SOCKS5, VLESS or Trojan reader
  extracts the target; the router turns a fake address back into its domain, sniffs the first bytes
  when a rule asks for it, walks the rule table and hands the stream, with every peeked byte restored,
  to an outbound: the group the rule names picks a member by its policy and the measured latencies, and
  the client half of that outbound writes the target for the next server, over a carrier such as gRPC.

  \<^bold>\<open>Theories and sources\<close> (under src/engine/src).
    \<^item> \<open>Prelude\<close>, \<open>Rust_Text\<close>, \<open>Rust_Net\<close>, \<open>Rust_Str\<close>: the Rust standard library as used: results, big-endian
      codecs, hash maps (the locale \<open>counted_map\<close>), UTF-8, trimming, splitting, number and address texts.
    \<^item> \<open>Addr\<close>: addr.rs. Hosts, ports, the SOCKS and port-first address codecs.
    \<^item> \<open>Dns_Wire\<close>, \<open>Edns\<close>: dns/wire.rs, dns/edns.rs. The message parser and builders; client subnets. The
      inductive relation \<open>name_at\<close> is the format of a compressed name; the parser is proved equal to it.
    \<^item> \<open>Fakeip\<close>: dns/fakeip.rs. The pool; the locale \<open>address_pool\<close> is its contract with resolver and router.
    \<^item> \<open>Rule\<close>, \<open>Rule_Parse\<close>: rule.rs. Matchers, rule sets, the walk with its actions, the rule grammar.
    \<^item> \<open>Quic\<close>, \<open>Sniffer\<close>: quic/mod.rs (integers, HTTP/3 frames), sniffer.rs (TLS, HTTP, QUIC).
    \<^item> \<open>Router\<close>: app.rs. Routing modes, the rule walk over a lent client stream, text providers.
    \<^item> \<open>Stream_Io\<close>, \<open>Socks\<close>: inbound/mod.rs, inbound/proxy_server/mod.rs, proto/socks.rs, inbound/socks.rs. A
      stream is its unread and its written bytes; the handshakes of both ends and the UDP relay.
    \<^item> \<open>Transport\<close>, \<open>Vless_Trojan\<close>: proto/vless.rs, proto/trojan.rs and their servers. A transport is a
      schedule of poll results; the locale \<open>header_first\<close> is the deferred header both clients share.
    \<^item> \<open>Upstream\<close>, \<open>Dns_Policy\<close>, \<open>Resolver\<close>: dns/upstream.rs, dns/policy.rs, dns/rules.rs, dns/resolver.rs,
      dns/mod.rs. The nameserver grammar, every exchange, selection, TTL rewriting, the engine with cache,
      store write-back and loop guard.
    \<^item> \<open>Group\<close>, \<open>Engine_Config\<close>, \<open>Relay\<close>: outbound.rs, config.rs, and of app.rs \<open>relay_tcp\<close> and \<open>health_tick\<close>, of api.rs
      the delay test. The registry, the group policies with jump hash and sticky table, validation, one connection.
    \<^item> \<open>Hpack\<close>, \<open>Gun\<close>, \<open>Grpc\<close>, \<open>Grpc_Flow\<close>: grpc.rs. Header compression; frames, messages and their reassembly
      (the locale \<open>incremental_decoder\<close>); the connection and its poll functions; their steps as the inductive relation
      \<open>tunnel_step\<close>, which every operation is a sequence of, and the invariants of its runs.
    \<^item> \<open>Unit_Stream\<close>, \<open>Aead\<close>, \<open>Shadowsocks\<close>, \<open>Ss_Server\<close>, \<open>Ss_Session\<close>: proto/aead.rs, proto/shadowsocks.rs and
      inbound/proxy_server/ss.rs. The locales \<open>unit_reader\<close> and \<open>unit_writer\<close> are the contracts of a framed stream;
      both ends are instances, and a session delivers what was written, both ways, over any schedule.
    \<^item> \<open>Ss_Udp\<close>, \<open>Ss_Udp_Flow\<close>, \<open>Ss_Replay\<close>: the UDP halves of the same files; round trips and replay protection.
    \<^item> This theory: what a DNS answer and the router promise together.

  \<^bold>\<open>What the lemmas show.\<close> Codecs are inverse to each other (addresses, queries, responses, subnets, framed
  datagrams, chunked bodies, nameserver texts, the store). The parsers are equal to declarative formats.
  Pool, engine and UDP association keep their invariants in every sequence of steps, the engine in every
  interleaving of parked queries. Client and server of SOCKS5, VLESS, Trojan and Shadowsocks agree on target and payload.
  Routing is first match, returns when rule sets do not refer to each other in a cycle, and loses no byte
  of a sniffed stream. A validated configuration routes only to names that resolve to an outbound. The
  gRPC tunnel delivers accepted bytes once and in order within the connection's credit. Where the code does not do what it means to, a theorem shows it.

  \<^bold>\<open>Integers, fuel and bounds.\<close> Words keep the width of the source and wrap as in a release build; lengths
  are natural numbers. Rule sets may name each other, so evaluation takes fuel; \<open>evaluate_terminates_acyclic\<close>
  and \<open>route_returns\<close> show that a rank of the sets is enough. Driving a stream to its end takes fuel, one unit for each poll. All other loops are total: by structure or by a
  measure (the bytes left, or the pointer budget of a name). A loop the source caps is counted down from
  its cap.

  \<^bold>\<open>Parameters.\<close> Regular expressions, JSON, HKDF, AES, SHA-224, geo databases, files, the system
  resolver, sockets, TLS and QUIC are arguments of the definitions. The clock of the DNS engine is read
  before and after an upstream walk. A panic is the value \<open>None\<close>.

  \<^bold>\<open>Not modelled.\<close> Dialing, accept loops, relays and start-up are I/O. The encrypted protocols (Shadowsocks,
  VMess, Snell, Reality, Hysteria, WireGuard and others) are cryptographic sessions; their plain framing is
  the next step of the plan. Configuration loaders and the control program work on trees of the serde
  crates, on files and on processes. Planned next, in order: binary rule sets and geosite
  (ruleset_bin.rs, geosite.rs), HTTP and mixed inbounds, AEAD stream framing, subscription URIs
  (src/core/src/subconverter/uri.rs), the cron codec (src/core/src/task/mod.rs).
\<close>

section \<open>From a DNS answer to a route\<close>

lemma rdata_ip_octets: "rdata_ip (octets ip) = Some ip"
proof (cases ip)
  case (V4 w)
  then show ?thesis by (simp add: rdata_ip_def octets_def be_word_be_bytes)
next
  case (V6 w)
  then show ?thesis by (simp add: rdata_ip_def octets_def be_word_be_bytes)
qed

text \<open>
  C1: What a client learns from the DNS engine leads the router back to the name. In fake-IP mode, asking for
  the address of a name that is neither a configured host nor filtered gives a response with exactly one
  record, of TTL one; its address, taken as the target of a connection by a router that shares the
  engine's pool, is turned back into the asked name, in lower case, with the port kept.
\<close>

theorem fake_answer_routes_back:
  assumes "dns_name_ok name" and "length name \<le> 255" and "de_fakeip e = Some p"
    and "pool_inv p" and "cursor_ok p" and "hm_get (de_hosts e) (to_lower name) = None"
    and "\<not> domain_matcher_matches (de_fakeip_filter e) (to_lower name)"
  shows "\<exists>resp e' msg ip. handle net expired now later e (build_query qid name TYPE_A) = (Some resp, e') \<and>
    parse resp = Inr msg \<and> dm_id msg = qid \<and> map (\<lambda>rr. (rdata_ip (rr_rdata rr), rr_ttl rr)) (dm_answers msg) = [(Some ip, 1)] \<and>
    fst (unfake_target (r\<lparr>en_dns := Some lookup, en_fakeip := de_fakeip e'\<rparr>) (net_addr_new (Ip ip) port)) =
      net_addr_new (Domain (to_lower name)) port"
proof -
  let ?d = "to_lower name"
  let ?q = "\<lparr>q_name = ?d, q_type = TYPE_A, q_class = 1\<rparr>"
  let ?m = "\<lparr>dm_id = qid, dm_flags = 0x0100, dm_opcode = 0, dm_rcode = 0, dm_questions = [?q], dm_answers = [],
    dm_raw = build_query qid name TYPE_A\<rparr>"
  have len: "length ?d \<le> 255" using assms(2) by (simp add: to_lower_def)
  obtain ip p' where a: "lookup_or_alloc p ?d = (Inr ip, p')"
    using fake.alloc_maps [OF assms(4,5) len] by (metis prod.collapse)
  have rev: "fst (pool_reverse p' ip) = Some ?d"
    using fake.alloc_then_reverse [OF assms(4,5) len] a by simp
  obtain e' where h: "handle net expired now later e (build_query qid name TYPE_A) =
      (Some (build_response ?m RCODE_NOERROR [(ip, 1)]), e')" "de_fakeip e' = Some p'"
    using handle_fake [OF parse_build_query [OF assms(1), of qid TYPE_A], of ?q e p ip p' net expired now later] assms(3,6,7) a
    by (auto simp: first_question_def hosts_answer_def)
  have "dns_name_ok ?d" using assms(1) by (rule dns_name_ok_lower)
  then obtain msg where "parse (build_response ?m RCODE_NOERROR [(ip, 1)]) = Inr msg" "dm_id msg = qid"
    "dm_answers msg = map (answer_record (to_lower ?d)) [(ip, 1)]"
    using parse_response [of ?m ?q "[]" "[(ip, 1)]" RCODE_NOERROR] by auto
  moreover have "fst (unfake_target (r\<lparr>en_dns := Some lookup, en_fakeip := Some p'\<rparr>) (net_addr_new (Ip ip) port)) =
      net_addr_new (Domain ?d) port"
    using rev by (auto simp: unfake_target_def net_addr_new_def split: prod.splits)
  ultimately show ?thesis
    using h by (intro exI [of _ "build_response ?m RCODE_NOERROR [(ip, 1)]"] exI [of _ e'] exI [of _ msg] exI [of _ ip])
      (simp add: answer_record_def rdata_ip_octets)
qed

theorem fake_answer_routes_back_witness:
  "\<exists>resp e' msg ip. handle sample_net (\<lambda>_. False) 0 1
      (sample_dns\<lparr>de_fakeip := Some \<lparr>fp_base = 0x0A090000, fp_prefix = 30, fp_size = 2, fp_inner = inner_empty\<rparr>\<rparr>)
      (build_query 7 ''Www.test'' TYPE_A) = (Some resp, e') \<and>
    parse resp = Inr msg \<and> dm_id msg = 7 \<and> map (\<lambda>rr. (rdata_ip (rr_rdata rr), rr_ttl rr)) (dm_answers msg) = [(Some ip, 1)] \<and>
    fst (unfake_target (sample_engine\<lparr>en_dns := Some (\<lambda>_. None), en_fakeip := de_fakeip e'\<rparr>) (net_addr_new (Ip ip) 443)) =
      net_addr_new (Domain (to_lower ''Www.test'')) 443"
proof (rule fake_answer_routes_back [OF _ _ _ example_pool_inv])
  show "dns_name_ok ''Www.test''" by (simp add: dns_name_ok_def label_ok_def text_eval)
qed (simp_all add: sample_dns_def cursor_ok_def inner_empty_def domain_matcher_matches_def domain_matcher_empty_def)

end
